(* ===== verification/Prelude.thy ===== *)
theory Prelude
  imports Main "HOL-Library.AList" "HOL-Library.List_Lexorder" "HOL-Library.Char_ord"
    "HOL-Library.Sublist" "HOL-Library.Multiset"
begin

text \<open>
  What the components share: Go strings as byte lists with the \<^verbatim>\<open>strings\<close> and \<^verbatim>\<open>strconv\<close>
  operations the client calls, Go maps as association lists (the list order is one iteration order
  of the map, so a fact about every permutation is a fact about every run), \<^verbatim>\<open>sort.Slice\<close>, and
  the outcome of a call that may panic.

  Strings are compared bytewise by Go's \<^verbatim>\<open><\<close>, which is the lexicographic order that
  \<^verbatim>\<open>List_Lexorder\<close> and \<^verbatim>\<open>Char_ord\<close> give to \<^typ>\<open>string\<close>, so \<^verbatim>\<open>sort.Strings\<close> is
  \<^const>\<open>sort\<close>.
\<close>

named_theorems go_str \<open>facts on the string operations\<close>
named_theorems go_map \<open>facts on maps read as association lists\<close>

section \<open>Calls that may panic\<close>

datatype 'a go = Panic | Ret 'a

section \<open>Strings\<close>

abbreviation nl :: char where "nl \<equiv> CHR 0x0A"
abbreviation tab :: char where "tab \<equiv> CHR 0x09"
abbreviation dquote :: char where "dquote \<equiv> CHR 0x22"
abbreviation squote :: char where "squote \<equiv> CHR 0x27"
abbreviation backslash :: char where "backslash \<equiv> CHR 0x5C"

text \<open>\<^verbatim>\<open>strings.HasPrefix\<close>, \<^verbatim>\<open>HasSuffix\<close> and \<^verbatim>\<open>Contains\<close> are \<^const>\<open>prefix\<close>,
  \<^const>\<open>suffix\<close> and \<^const>\<open>sublist\<close>; the trimming forms:\<close>

definition trim_prefix :: "string \<Rightarrow> string \<Rightarrow> string" where
  "trim_prefix p s = (if prefix p s then drop (length p) s else s)"

definition trim_suffix :: "string \<Rightarrow> string \<Rightarrow> string" where
  "trim_suffix p s = (if suffix p s then take (length s - length p) s else s)"

text \<open>\<^verbatim>\<open>strings.Split\<close> at a one-byte separator (never the empty list) and \<^verbatim>\<open>strings.Join\<close>.\<close>

fun split_on :: "char \<Rightarrow> string \<Rightarrow> string list" where
  "split_on c [] = [[]]"
| "split_on c (x # xs) =
     (if x = c then [] # split_on c xs
      else (x # hd (split_on c xs)) # tl (split_on c xs))"

fun join_with :: "string \<Rightarrow> string list \<Rightarrow> string" where
  "join_with sep [] = []"
| "join_with sep [x] = x"
| "join_with sep (x # y # ys) = x @ sep @ join_with sep (y # ys)"

text \<open>\<^verbatim>\<open>strings.Cut\<close> at a one-byte separator: what is before, what is after, and whether the
  separator was there.\<close>

definition str_cut :: "char \<Rightarrow> string \<Rightarrow> string \<times> string \<times> bool" where
  "str_cut c s = (if c \<in> set s
     then (takeWhile (\<lambda>x. x \<noteq> c) s, tl (dropWhile (\<lambda>x. x \<noteq> c) s), True)
     else (s, [], False))"

text \<open>The UTF-8 encodings of the code points \<^verbatim>\<open>unicode.IsSpace\<close> accepts, and
  \<^verbatim>\<open>strings.TrimSpace\<close> over them.\<close>

definition space_encodings :: "string list" where
  "space_encodings =
     [[CHR 0x20], [CHR 0x09], [CHR 0x0A], [CHR 0x0B], [CHR 0x0C], [CHR 0x0D],
      [CHR 0xC2, CHR 0x85], [CHR 0xC2, CHR 0xA0], [CHR 0xE1, CHR 0x9A, CHR 0x80],
      [CHR 0xE2, CHR 0x80, CHR 0x80], [CHR 0xE2, CHR 0x80, CHR 0x81], [CHR 0xE2, CHR 0x80, CHR 0x82],
      [CHR 0xE2, CHR 0x80, CHR 0x83], [CHR 0xE2, CHR 0x80, CHR 0x84], [CHR 0xE2, CHR 0x80, CHR 0x85],
      [CHR 0xE2, CHR 0x80, CHR 0x86], [CHR 0xE2, CHR 0x80, CHR 0x87], [CHR 0xE2, CHR 0x80, CHR 0x88],
      [CHR 0xE2, CHR 0x80, CHR 0x89], [CHR 0xE2, CHR 0x80, CHR 0x8A], [CHR 0xE2, CHR 0x80, CHR 0xA8],
      [CHR 0xE2, CHR 0x80, CHR 0xA9], [CHR 0xE2, CHR 0x80, CHR 0xAF], [CHR 0xE2, CHR 0x81, CHR 0x9F],
      [CHR 0xE3, CHR 0x80, CHR 0x80]]"

function strip_leading :: "string list \<Rightarrow> string \<Rightarrow> string" where
  "strip_leading encs s =
     (case find (\<lambda>e. e \<noteq> [] \<and> prefix e s) encs of
        None \<Rightarrow> s
      | Some e \<Rightarrow> strip_leading encs (drop (length e) s))"
  by pat_completeness auto
termination
proof (relation "measure (\<lambda>(encs, s). length s)", goal_cases)
  case 1
  show ?case by simp
next
  case (2 encs s e)
  then have "e \<noteq> [] \<and> prefix e s" by (auto simp: find_Some_iff)
  then have "0 < length e" and "length e \<le> length s"
    by (auto dest: prefix_length_le)
  then show ?case by (simp add: diff_less del: length_greater_0_conv)
qed

declare strip_leading.simps [simp del]

definition trim_left :: "string \<Rightarrow> string" where
  "trim_left s = strip_leading space_encodings s"

definition trim_right :: "string \<Rightarrow> string" where
  "trim_right s = rev (strip_leading (map rev space_encodings) (rev s))"

definition trim_space :: "string \<Rightarrow> string" where
  "trim_space s = trim_right (trim_left s)"

text \<open>\<^verbatim>\<open>strconv.Atoi\<close> (a 64-bit \<^verbatim>\<open>int\<close>, so a value out of range is an error) and
  \<^verbatim>\<open>strconv.Itoa\<close>.\<close>

definition is_digit :: "char \<Rightarrow> bool" where
  "is_digit c \<longleftrightarrow> 48 \<le> (of_char c :: nat) \<and> (of_char c :: nat) \<le> 57"

definition digit_val :: "char \<Rightarrow> nat" where
  "digit_val c = of_char c - 48"

definition digit_char :: "nat \<Rightarrow> char" where
  "digit_char d = char_of (48 + d)"

definition digits_val :: "string \<Rightarrow> nat" where
  "digits_val s = foldl (\<lambda>acc c. 10 * acc + digit_val c) 0 s"

definition parse_digits :: "string \<Rightarrow> nat option" where
  "parse_digits s = (if s \<noteq> [] \<and> list_all is_digit s then Some (digits_val s) else None)"

definition int_in_range :: "int \<Rightarrow> bool" where
  "int_in_range n \<longleftrightarrow> - (2 ^ 63) \<le> n \<and> n < 2 ^ 63"

definition range_checked :: "int \<Rightarrow> int option" where
  "range_checked n = (if int_in_range n then Some n else None)"

definition atoi :: "string \<Rightarrow> int option" where
  "atoi s = (case s of
       [] \<Rightarrow> None
     | c # cs \<Rightarrow>
         if c = CHR ''-'' then Option.bind (parse_digits cs) (\<lambda>n. range_checked (- int n))
         else if c = CHR ''+'' then Option.bind (parse_digits cs) (\<lambda>n. range_checked (int n))
         else Option.bind (parse_digits s) (\<lambda>n. range_checked (int n)))"

fun show_nat :: "nat \<Rightarrow> string" where
  "show_nat n = (if n < 10 then [digit_char n] else show_nat (n div 10) @ [digit_char (n mod 10)])"

declare show_nat.simps [simp del]

definition itoa :: "int \<Rightarrow> string" where
  "itoa n = (if n < 0 then CHR ''-'' # show_nat (nat (- n)) else show_nat (nat n))"

text \<open>The part before and after the last colon (\<^verbatim>\<open>strings.LastIndex\<close>).\<close>

definition last_colon :: "string \<Rightarrow> (string \<times> string) option" where
  "last_colon s =
     (if CHR '':'' \<in> set s then
        (let r = takeWhile (\<lambda>c. c \<noteq> CHR '':'') (rev s)
         in Some (take (length s - length r - 1) s, rev r))
      else None)"

text \<open>ASCII lower-casing, which is what \<^verbatim>\<open>strings.EqualFold\<close> and \<^verbatim>\<open>strings.ToLower\<close> do to
  ASCII text.\<close>

definition to_lower :: "string \<Rightarrow> string" where
  "to_lower s = map (\<lambda>c. if 65 \<le> (of_char c :: nat) \<and> (of_char c :: nat) \<le> 90
                         then char_of ((of_char c :: nat) + 32) else c) s"

definition equal_fold :: "string \<Rightarrow> string \<Rightarrow> bool" where
  "equal_fold a b \<longleftrightarrow> to_lower a = to_lower b"

section \<open>Maps\<close>

text \<open>A Go map is an association list with distinct keys. Reads are \<^const>\<open>map_of\<close>, stores
  \<^const>\<open>AList.update\<close>, \<^verbatim>\<open>delete\<close> is \<^const>\<open>AList.delete\<close>. A nil map and an empty one read alike;
  the code allocates before every store, so they are not told apart.\<close>

type_synonym ('k, 'v) gomap = "('k \<times> 'v) list"

abbreviation keys_of :: "('k, 'v) gomap \<Rightarrow> 'k list" where
  "keys_of m \<equiv> map fst m"

abbreviation wf_map :: "('k, 'v) gomap \<Rightarrow> bool" where
  "wf_map m \<equiv> distinct (map fst m)"

abbreviation put :: "'k \<Rightarrow> 'v \<Rightarrow> ('k, 'v) gomap \<Rightarrow> ('k, 'v) gomap" where
  "put \<equiv> AList.update"

abbreviation remove_key :: "'k \<Rightarrow> ('k, 'v) gomap \<Rightarrow> ('k, 'v) gomap" where
  "remove_key \<equiv> AList.delete"

text \<open>Appending to the slice stored under a key (\<^verbatim>\<open>m[k] = append(m[k], v)\<close>).\<close>

definition push_to :: "'k \<Rightarrow> 'v \<Rightarrow> ('k, 'v list) gomap \<Rightarrow> ('k, 'v list) gomap" where
  "push_to k v m = put k ((case map_of m k of None \<Rightarrow> [] | Some vs \<Rightarrow> vs) @ [v]) m"

text \<open>Collecting the distinct keys of a list, first occurrence kept (a \<^verbatim>\<open>seen\<close> set beside an
  appended slice).\<close>

fun dedup_seen :: "'a list \<Rightarrow> 'a list \<Rightarrow> 'a list" where
  "dedup_seen seen [] = []"
| "dedup_seen seen (x # xs) =
     (if List.member seen x then dedup_seen seen xs else x # dedup_seen (x # seen) xs)"

section \<open>Sorting with a less function\<close>

text \<open>\<^verbatim>\<open>sort.Slice\<close>: the insertion sort Go runs on slices of at most twelve elements. On longer
  slices Go may order equal elements differently; the lemmas below hold for every sorted
  permutation.\<close>

fun insert_by :: "('a \<Rightarrow> 'a \<Rightarrow> bool) \<Rightarrow> 'a \<Rightarrow> 'a list \<Rightarrow> 'a list" where
  "insert_by lt x [] = [x]"
| "insert_by lt x (y # ys) = (if lt x y then x # y # ys else y # insert_by lt x ys)"

definition sort_slice :: "('a \<Rightarrow> 'a \<Rightarrow> bool) \<Rightarrow> 'a list \<Rightarrow> 'a list" where
  "sort_slice lt xs = fold (insert_by lt) xs []"

lemma mset_insert_by [simp]: "mset (insert_by lt x ys) = add_mset x (mset ys)"
  by (induction ys) auto

lemma set_insert_by [simp]: "set (insert_by lt x ys) = insert x (set ys)"
  by (induction ys) auto

lemma mset_fold_insert_by: "mset (fold (insert_by lt) xs ys) = mset xs + mset ys"
  by (induction xs arbitrary: ys) auto

lemma mset_sort_slice [simp]: "mset (sort_slice lt xs) = mset xs"
  by (simp add: sort_slice_def mset_fold_insert_by)

lemma set_sort_slice [simp]: "set (sort_slice lt xs) = set xs"
  by (metis mset_sort_slice set_mset_mset)

lemma length_sort_slice [simp]: "length (sort_slice lt xs) = length xs"
  by (metis mset_sort_slice size_mset)

lemma sort_slice_Nil_iff [simp]: "sort_slice lt xs = [] \<longleftrightarrow> xs = []"
  by (metis length_0_conv length_sort_slice)

lemma distinct_sort_slice [simp]: "distinct (sort_slice lt xs) \<longleftrightarrow> distinct xs"
  by (metis mset_eq_imp_distinct_iff mset_sort_slice)

text \<open>The contract of a three-way comparison: it is the sign of some total preorder. What every
  client of such a comparison needs is proved here once: sorting by it sorts, and the last element
  of the sorted slice is a greatest one.\<close>

locale comparison =
  fixes cmp :: "'a \<Rightarrow> 'a \<Rightarrow> int"
  assumes cmp_sym: "cmp b a = - cmp a b"
    and cmp_trans: "cmp a b \<le> 0 \<Longrightarrow> cmp b c \<le> 0 \<Longrightarrow> cmp a c \<le> 0"
begin

lemma cmp_refl: "cmp a a = 0"
  using cmp_sym [of a a] by simp

lemma cmp_total: "cmp a b \<le> 0 \<or> cmp b a \<le> 0"
  using cmp_sym [of a b] by linarith

lemma not_less_cmp: "\<not> cmp a b < 0 \<longleftrightarrow> cmp b a \<le> 0"
  using cmp_sym [of a b] by linarith

lemma sorted_insert_by:
  "sorted_wrt (\<lambda>a b. cmp a b \<le> 0) ys
     \<Longrightarrow> sorted_wrt (\<lambda>a b. cmp a b \<le> 0) (insert_by (\<lambda>a b. cmp a b < 0) x ys)"
proof (induction ys)
  case Nil
  show ?case by simp
next
  case (Cons y ys)
  show ?case
  proof (cases "cmp x y < 0")
    case True
    have "cmp x z \<le> 0" if "z \<in> set ys" for z
      using Cons.prems that True cmp_trans [of x y z] by auto
    with True Cons.prems show ?thesis by auto
  next
    case False
    then have "cmp y x \<le> 0" by (simp add: not_less_cmp)
    with False Cons show ?thesis by auto
  qed
qed

lemma sorted_sort_slice: "sorted_wrt (\<lambda>a b. cmp a b \<le> 0) (sort_slice (\<lambda>a b. cmp a b < 0) xs)"
proof -
  have "sorted_wrt (\<lambda>a b. cmp a b \<le> 0) ys \<Longrightarrow>
      sorted_wrt (\<lambda>a b. cmp a b \<le> 0) (fold (insert_by (\<lambda>a b. cmp a b < 0)) xs ys)" for ys
    by (induction xs arbitrary: ys) (auto intro: sorted_insert_by)
  then show ?thesis by (simp add: sort_slice_def)
qed

lemma sorted_last_greatest:
  "sorted_wrt (\<lambda>a b. cmp a b \<le> 0) xs \<Longrightarrow> x \<in> set xs \<Longrightarrow> cmp x (last xs) \<le> 0"
proof (induction xs)
  case Nil
  then show ?case by simp
next
  case (Cons y ys)
  then show ?case using cmp_refl by (cases "ys = []") auto
qed

lemma last_greatest:
  "x \<in> set xs \<Longrightarrow> cmp x (last (sort_slice (\<lambda>a b. cmp a b < 0) xs)) \<le> 0"
  by (rule sorted_last_greatest [OF sorted_sort_slice]) simp

lemma last_mem:
  "xs \<noteq> [] \<Longrightarrow> last (sort_slice (\<lambda>a b. cmp a b < 0) xs) \<in> set xs"
  by (metis last_in_set set_sort_slice sort_slice_Nil_iff)

end

text \<open>The sign of a linear order is such a comparison, through any key.\<close>

definition order_sign :: "'a::linorder \<Rightarrow> 'a \<Rightarrow> int" where
  "order_sign x y = (if x < y then -1 else if x = y then 0 else 1)"

lemma comparison_order_sign: "comparison (\<lambda>a b. order_sign (key a) (key b))"
  by unfold_locales (auto simp: order_sign_def split: if_splits)

lemma order_sign_less [simp]: "order_sign x y < 0 \<longleftrightarrow> x < y"
  by (simp add: order_sign_def)

lemma order_sign_le [simp]: "order_sign x y \<le> 0 \<longleftrightarrow> x \<le> y"
  by (auto simp: order_sign_def)

lemma order_sign_eq [simp]: "order_sign x y = 0 \<longleftrightarrow> x = y"
  by (simp add: order_sign_def)

section \<open>Facts on strings\<close>

lemma split_on_ne [simp]: "split_on c s \<noteq> []"
  by (induction s) auto

lemma split_on_code [code]:
  "split_on c [] = [[]]"
  "split_on c (x # xs) =
     (case split_on c xs of [] \<Rightarrow> [] | l # ls \<Rightarrow> if x = c then [] # l # ls else (x # l) # ls)"
  by (simp_all split: list.split)

lemma join_with_Cons [go_str]:
  "join_with sep (x # ys) = (if ys = [] then x else x @ sep @ join_with sep ys)"
  by (cases ys) auto

lemma join_split [simp]: "join_with [c] (split_on c s) = s"
proof (induction s)
  case Nil
  show ?case by simp
next
  case (Cons x s)
  obtain y ys where ys: "split_on c s = y # ys"
    using split_on_ne by (metis list.exhaust)
  with Cons.IH show ?case by (cases ys) auto
qed

lemma split_on_no_sep [go_str]: "c \<notin> set s \<Longrightarrow> split_on c s = [s]"
  by (induction s) auto

lemma split_on_append [go_str]: "split_on c (a @ c # b) = split_on c a @ split_on c b"
  by (induction a) auto

lemma split_on_parts: "l \<in> set (split_on c s) \<Longrightarrow> c \<notin> set l"
proof (induction s arbitrary: l)
  case Nil
  then show ?case by simp
next
  case (Cons x s)
  obtain y ys where ys: "split_on c s = y # ys"
    using split_on_ne by (metis list.exhaust)
  with Cons show ?case by (auto split: if_splits)
qed

lemma split_join:
  "ls \<noteq> [] \<Longrightarrow> \<forall>l \<in> set ls. c \<notin> set l \<Longrightarrow> split_on c (join_with [c] ls) = ls"
proof (induction "[c]" ls rule: join_with.induct)
  case 1
  then show ?case by simp
next
  case (2 x)
  then show ?case by (simp add: split_on_no_sep)
next
  case (3 x y ys)
  then show ?case by (simp add: split_on_append split_on_no_sep)
qed

lemma str_cut_found: "c \<notin> set a \<Longrightarrow> str_cut c (a @ c # b) = (a, b, True)"
  by (simp add: str_cut_def takeWhile_append dropWhile_append)

lemma str_cut_missing: "c \<notin> set s \<Longrightarrow> str_cut c s = (s, [], False)"
  by (simp add: str_cut_def)

lemma str_cut_True_iff: "str_cut c s = (a, b, True) \<longleftrightarrow> c \<notin> set a \<and> s = a @ c # b"
proof
  assume l: "str_cut c s = (a, b, True)"
  then have cin: "c \<in> set s"
    and a: "a = takeWhile (\<lambda>x. x \<noteq> c) s" and b: "b = tl (dropWhile (\<lambda>x. x \<noteq> c) s)"
    by (auto simp: str_cut_def split: if_splits)
  from cin obtain p q where s: "s = p @ c # q" and "c \<notin> set p"
    by (meson split_list_first)
  then have "takeWhile (\<lambda>x. x \<noteq> c) s = p" and "dropWhile (\<lambda>x. x \<noteq> c) s = c # q"
    by (auto simp: takeWhile_append dropWhile_append)
  with a b s \<open>c \<notin> set p\<close> show "c \<notin> set a \<and> s = a @ c # b" by simp
next
  assume "c \<notin> set a \<and> s = a @ c # b"
  then show "str_cut c s = (a, b, True)" by (simp add: str_cut_found)
qed

lemma trim_prefix_append [simp]: "trim_prefix p (p @ s) = s"
  by (simp add: trim_prefix_def)

lemma trim_prefix_self: "trim_prefix p s = s \<longleftrightarrow> \<not> prefix p s \<or> p = []"
  by (auto simp: trim_prefix_def prefix_def)

lemma trim_prefix_cases: "(trim_prefix p s = s \<and> \<not> prefix p s) \<or> s = p @ trim_prefix p s"
  by (auto simp: trim_prefix_def prefix_def)

text \<open>Printable ASCII bytes other than the blank are no part of any white space, so a string that
  begins and ends with one is left alone by \<^const>\<open>trim_space\<close>.\<close>

definition visible :: "char \<Rightarrow> bool" where
  "visible c \<longleftrightarrow> 33 \<le> (of_char c :: nat) \<and> (of_char c :: nat) \<le> 126"

lemma strip_leading_id:
  "s = [] \<or> (\<forall>e \<in> set encs. e = [] \<or> hd e \<noteq> hd s) \<Longrightarrow> strip_leading encs s = s"
proof (subst strip_leading.simps, goal_cases)
  case 1
  then have "find (\<lambda>e. e \<noteq> [] \<and> prefix e s) encs = None"
    by (auto simp: find_None_iff prefix_def)
  then show ?case by simp
qed

lemma visible_no_space:
  assumes "visible c" and "e \<in> set space_encodings"
  shows "hd e \<noteq> c \<and> last e \<noteq> c"
  using assms by (auto simp: space_encodings_def visible_def)

lemma trim_left_id: "s = [] \<or> visible (hd s) \<Longrightarrow> trim_left s = s"
  unfolding trim_left_def by (rule strip_leading_id) (auto dest: visible_no_space)

lemma trim_right_id: "s = [] \<or> visible (last s) \<Longrightarrow> trim_right s = s"
proof -
  assume a: "s = [] \<or> visible (last s)"
  have "strip_leading (map rev space_encodings) (rev s) = rev s"
    by (rule strip_leading_id) (use a in \<open>auto simp: hd_rev dest: visible_no_space\<close>)
  then show ?thesis by (simp add: trim_right_def)
qed

lemma trim_space_id:
  "s = [] \<or> visible (hd s) \<and> visible (last s) \<Longrightarrow> trim_space s = s"
  unfolding trim_space_def by (metis trim_left_id trim_right_id)

lemma trim_space_visible: "\<forall>c \<in> set s. visible c \<Longrightarrow> trim_space s = s"
  by (rule trim_space_id) (cases "s = []"; auto)

lemma trim_space_Nil [simp]: "trim_space [] = []"
  by (rule trim_space_id) simp

section \<open>Facts on numbers as text\<close>

lemma of_char_digit_char: "d < 10 \<Longrightarrow> (of_char (digit_char d) :: nat) = 48 + d"
  by (simp add: digit_char_def of_char_of)

lemma digit_val_digit_char [simp]: "d < 10 \<Longrightarrow> digit_val (digit_char d) = d"
  by (simp add: digit_val_def of_char_digit_char)

lemma is_digit_digit_char [simp]: "d < 10 \<Longrightarrow> is_digit (digit_char d)"
  by (simp add: is_digit_def of_char_digit_char)

lemma is_digit_visible: "is_digit c \<Longrightarrow> visible c"
  by (simp add: is_digit_def visible_def)

lemma show_nat_digits: "list_all is_digit (show_nat n) \<and> show_nat n \<noteq> []"
proof (induction n rule: show_nat.induct)
  case (1 n)
  show ?case
  proof (cases "n < 10")
    case True
    then show ?thesis by (simp add: show_nat.simps [of n])
  next
    case False
    with 1 show ?thesis by (simp add: show_nat.simps [of n])
  qed
qed

lemma show_nat_ne [simp]: "show_nat n \<noteq> []"
  using show_nat_digits by blast

lemma digits_val_append: "digits_val (s @ [c]) = 10 * digits_val s + digit_val c"
  by (simp add: digits_val_def)

lemma digits_val_show_nat [simp]: "digits_val (show_nat n) = n"
proof (induction n rule: show_nat.induct)
  case (1 n)
  show ?case
  proof (cases "n < 10")
    case True
    then show ?thesis by (simp add: show_nat.simps [of n] digits_val_def)
  next
    case False
    with 1 show ?thesis by (simp add: show_nat.simps [of n] digits_val_append)
  qed
qed

lemma parse_digits_show_nat [simp]: "parse_digits (show_nat n) = Some n"
  using show_nat_digits [of n] by (simp add: parse_digits_def)

lemma atoi_digits:
  assumes "s \<noteq> []" and "list_all is_digit s"
  shows "atoi s = range_checked (int (digits_val s))"
proof -
  obtain c cs where s: "s = c # cs" using assms(1) by (cases s) auto
  with assms have "is_digit c" by simp
  then have "c \<noteq> CHR ''-''" and "c \<noteq> CHR ''+''" by (auto simp: is_digit_def)
  with s assms show ?thesis by (simp add: atoi_def parse_digits_def)
qed

lemma atoi_itoa: "int_in_range n \<Longrightarrow> atoi (itoa n) = Some n"
  using atoi_digits [of "show_nat (nat n)"] show_nat_digits [of "nat n"]
  by (auto simp: itoa_def atoi_def range_checked_def)

lemma atoi_in_range: "atoi s = Some n \<Longrightarrow> int_in_range n"
  by (auto simp: atoi_def range_checked_def split: list.splits if_splits Option.bind_splits)

lemma show_nat_visible: "c \<in> set (show_nat n) \<Longrightarrow> visible c"
  using show_nat_digits [of n] by (auto simp: list_all_iff intro: is_digit_visible)

lemma itoa_visible: "c \<in> set (itoa n) \<Longrightarrow> visible c"
  by (auto simp: itoa_def visible_def [of "CHR ''-''"] dest: show_nat_visible split: if_splits)

section \<open>Facts on maps\<close>

lemma map_of_put [go_map, simp]: "map_of (put k v m) = (map_of m)(k \<mapsto> v)"
  by (rule update_conv')

lemma map_of_remove_key [go_map, simp]: "map_of (remove_key k m) = (map_of m)(k := None)"
  by (rule delete_conv')

lemma wf_put [go_map, simp]: "wf_map m \<Longrightarrow> wf_map (put k v m)"
  by (rule distinct_update)

lemma wf_remove_key [go_map, simp]: "wf_map m \<Longrightarrow> wf_map (remove_key k m)"
  by (rule distinct_delete)

lemma keys_put [go_map, simp]: "fst ` set (put k v m) = insert k (fst ` set m)"
  by (simp add: dom_map_of_conv_image_fst [symmetric])

lemma keys_remove_key [go_map, simp]: "fst ` set (remove_key k m) = fst ` set m - {k}"
  by (metis delete_keys list.set_map set_removeAll)

lemma wf_filter [go_map, simp]: "wf_map m \<Longrightarrow> wf_map (filter P m)"
  by (simp add: distinct_map_filter)

lemma map_of_in_keys: "map_of m k = Some v \<Longrightarrow> k \<in> set (keys_of m)"
  by (force dest: map_of_SomeD)

lemma in_keys_map_of: "k \<in> set (keys_of m) \<Longrightarrow> \<exists>v. map_of m k = Some v"
  by (metis list.set_map map_of_eq_None_iff option.exhaust)

lemma wf_perm: "wf_map m \<Longrightarrow> mset m' = mset m \<Longrightarrow> wf_map m'"
  by (metis mset_eq_imp_distinct_iff mset_map)

lemma wf_perm_map_of: "wf_map m \<Longrightarrow> mset m' = mset m \<Longrightarrow> map_of m' = map_of m"
  by (metis map_of_inject_set mset_eq_setD wf_perm)

lemma dedup_seen_set: "set (dedup_seen seen xs) = set xs - set seen"
  by (induction seen xs rule: dedup_seen.induct) auto

lemma dedup_seen_distinct: "distinct (dedup_seen seen xs)"
  by (induction seen xs rule: dedup_seen.induct) (auto simp: dedup_seen_set)

lemma map_of_map_values [go_map]: "map_of (map (\<lambda>(k, v). (k, f v)) m) k = map_option f (map_of m k)"
  by (induction m) auto

section \<open>Grouping\<close>

definition pushed :: "('k, 'v list) gomap \<Rightarrow> 'k \<Rightarrow> 'v list" where
  "pushed m k = (case map_of m k of None \<Rightarrow> [] | Some vs \<Rightarrow> vs)"

lemma pushed_push_to: "pushed (push_to k v m) c = (if c = k then pushed m k @ [v] else pushed m c)"
  by (simp add: pushed_def push_to_def)

lemma pushed_fold [go_map]:
  "pushed (fold (\<lambda>x m. push_to (k x) (v x) m) xs m) c = pushed m c @ map v (filter (\<lambda>x. k x = c) xs)"
  by (induction xs arbitrary: m) (auto simp: pushed_push_to)

lemma pushed_Nil [simp]: "pushed [] c = []"
  by (simp add: pushed_def)

lemma keys_push_to: "fst ` set (push_to k v m) = insert k (fst ` set m)"
  by (simp add: push_to_def)

lemma keys_fold_push [go_map]:
  "fst ` set (fold (\<lambda>x m. push_to (k x) (v x) m) xs m) = k ` set xs \<union> fst ` set m"
  by (induction xs arbitrary: m) (auto simp: keys_push_to)

end
