(* ===== verification/Versions.thy ===== *)
theory Versions
  imports Prelude "HOL-Library.Product_Lexorder"
begin

text \<open>
  Plugin release versions (\<^verbatim>\<open>internal/pluginfetch/version.go\<close>): the tags a registry publishes,
  read from \<^verbatim>\<open>git ls-remote --tags\<close>, and the order on \<^verbatim>\<open>vX.Y.Z[-prerelease]\<close> that
  picks the newest. The git process is a parameter, \<open>ls_remote repo pattern\<close>, giving an error or
  the text it printed.

  The order is refined to a linear order on an abstract key (numbers, then the prerelease
  identifiers, a release above all its candidates); every law of the comparison and the choice of the
  newest release follow from that key through the locale of comparisons in the prelude.
\<close>

section \<open>The comparison\<close>

fun atoi_all :: "string list \<Rightarrow> int list option" where
  "atoi_all [] = Some []"
| "atoi_all (p # ps) =
     (case atoi p of
        None \<Rightarrow> None
      | Some n \<Rightarrow> map_option (\<lambda>ns. n # ns) (atoi_all ps))"

text \<open>\<^verbatim>\<open>splitVersion\<close>: the numeric triple (missing or unreadable components are \<open>-1\<close>; one
  unreadable component makes all three \<open>-1\<close>) and the prerelease tail.\<close>

definition split_version :: "string \<Rightarrow> int list \<times> string" where
  "split_version v =
     (let (core, pre, _) = str_cut CHR ''-'' (trim_prefix ''v'' (trim_space v))
      in case atoi_all (take 3 (split_on CHR ''.'' core)) of
           None \<Rightarrow> ([-1, -1, -1], pre)
         | Some ns \<Rightarrow> (ns @ replicate (3 - length ns) (-1), pre))"

fun compare_core :: "int list \<Rightarrow> int list \<Rightarrow> int" where
  "compare_core (x # xs) (y # ys) =
     (if x \<noteq> y then (if x < y then -1 else 1) else compare_core xs ys)"
| "compare_core _ _ = 0"

text \<open>The loop of \<^verbatim>\<open>comparePrerelease\<close> over the dot-separated identifiers.\<close>

fun compare_idents :: "string list \<Rightarrow> string list \<Rightarrow> int" where
  "compare_idents (a # as) (b # bs) =
     (case (atoi a, atoi b) of
        (Some an, Some bn) \<Rightarrow>
          if an \<noteq> bn then (if an < bn then -1 else 1) else compare_idents as bs
      | (Some _, None) \<Rightarrow> -1
      | (None, Some _) \<Rightarrow> 1
      | (None, None) \<Rightarrow> if a \<noteq> b then (if a < b then -1 else 1) else compare_idents as bs)"
| "compare_idents [] (b # bs) = -1"
| "compare_idents (a # as) [] = 1"
| "compare_idents [] [] = 0"

definition compare_prerelease :: "string \<Rightarrow> string \<Rightarrow> int" where
  "compare_prerelease a b = compare_idents (split_on CHR ''.'' a) (split_on CHR ''.'' b)"

definition compare_versions :: "string \<Rightarrow> string \<Rightarrow> int" where
  "compare_versions a b =
     (let (na, pa) = split_version a; (nb, pb) = split_version b; c = compare_core na nb
      in if c \<noteq> 0 then c
         else if pa = [] \<and> pb = [] then 0
         else if pa = [] then 1
         else if pb = [] then -1
         else compare_prerelease pa pb)"

section \<open>The releases of a registry\<close>

text \<open>\<^verbatim>\<open>parseRefLines\<close>: the version half of each tag of the plugin, each once, in order.\<close>

definition peeled_suffix :: string where "peeled_suffix = ''^{}''"

definition tag_prefix :: "string \<Rightarrow> string" where
  "tag_prefix plugin = ''refs/tags/'' @ plugin @ ''/''"

definition ref_version :: "string \<Rightarrow> string \<Rightarrow> string option" where
  "ref_version plugin line =
     (let (_, ref, ok) = str_cut tab (trim_space line);
          ref' = trim_suffix peeled_suffix ref;
          v = trim_prefix (tag_prefix plugin) ref'
      in if \<not> ok \<or> v = ref' \<or> \<not> prefix ''v'' v then None else Some v)"

fun ref_versions :: "string \<Rightarrow> string list \<Rightarrow> string list" where
  "ref_versions plugin [] = []"
| "ref_versions plugin (l # ls) =
     (case ref_version plugin l of
        None \<Rightarrow> ref_versions plugin ls
      | Some v \<Rightarrow> v # ref_versions plugin ls)"

definition parse_ref_lines :: "string \<Rightarrow> string \<Rightarrow> string list" where
  "parse_ref_lines out plugin = dedup_seen [] (ref_versions plugin (split_on nl out))"

datatype 'e version_error = MissingArgument | GitFailed 'e | NoReleases

definition newest :: "string list \<Rightarrow> string" where
  "newest vs = last (sort_slice (\<lambda>a b. compare_versions a b < 0) vs)"

definition latest_version ::
  "(string \<Rightarrow> string \<Rightarrow> 'e + string) \<Rightarrow> string \<Rightarrow> string \<Rightarrow> 'e version_error + string" where
  "latest_version ls_remote repo plugin =
     (if repo = [] \<or> plugin = [] then Inl MissingArgument
      else case ls_remote repo (tag_prefix plugin @ ''*'') of
          Inl e \<Rightarrow> Inl (GitFailed e)
        | Inr out \<Rightarrow>
            (let versions = parse_ref_lines out plugin
             in if versions = [] then Inl NoReleases else Inr (newest versions)))"

text \<open>\<^verbatim>\<open>releaseAtCommit\<close>: the commit each tag resolves to (a peeled line wins), then the newest
  of the tags at the commit asked for.\<close>

definition note_target ::
  "string \<Rightarrow> (string, string) gomap \<Rightarrow> string \<Rightarrow> (string, string) gomap" where
  "note_target plugin target line =
     (let (sha, ref, ok) = str_cut tab (trim_space line);
          peeled = suffix peeled_suffix ref;
          v = trim_prefix (tag_prefix plugin) (trim_suffix peeled_suffix ref)
      in if \<not> ok \<or> \<not> prefix ''v'' v \<or> CHR ''/'' \<in> set v then target
         else if map_of target v = None \<or> peeled then put v sha target
         else target)"

definition tag_targets :: "string \<Rightarrow> string \<Rightarrow> (string, string) gomap" where
  "tag_targets out plugin = foldl (note_target plugin) [] (split_on nl out)"

definition release_at_commit :: "string \<Rightarrow> string \<Rightarrow> string \<Rightarrow> string" where
  "release_at_commit out plugin commit =
     (let found = map fst (filter (\<lambda>(v, sha). equal_fold sha commit) (tag_targets out plugin))
      in if found = [] then [] else newest found)"

definition release_at_commit_remote ::
  "(string \<Rightarrow> string \<Rightarrow> 'e + string) \<Rightarrow> string \<Rightarrow> string \<Rightarrow> string \<Rightarrow> 'e version_error + string" where
  "release_at_commit_remote ls_remote repo plugin commit =
     (if repo = [] \<or> plugin = [] \<or> commit = [] then Inl MissingArgument
      else case ls_remote repo (tag_prefix plugin @ ''*'') of
          Inl e \<Rightarrow> Inl (GitFailed e)
        | Inr out \<Rightarrow> Inr (release_at_commit out plugin commit))"

text \<open>\<^verbatim>\<open>PublishedPlugins\<close>: the plugin half of every release tag, sorted. It lists with no pattern.\<close>

definition ref_plugin :: "string \<Rightarrow> string option" where
  "ref_plugin line =
     (let (_, ref, ok) = str_cut tab (trim_space line);
          rest = trim_prefix ''refs/tags/'' (trim_suffix peeled_suffix ref);
          (name, version, found) = str_cut CHR ''/'' rest
      in if \<not> ok \<or> \<not> found \<or> name = [] \<or> \<not> prefix ''v'' version then None else Some name)"

fun ref_plugins :: "string list \<Rightarrow> string list" where
  "ref_plugins [] = []"
| "ref_plugins (l # ls) =
     (case ref_plugin l of None \<Rightarrow> ref_plugins ls | Some n \<Rightarrow> n # ref_plugins ls)"

definition published_plugins ::
  "(string \<Rightarrow> 'e + string) \<Rightarrow> string \<Rightarrow> 'e version_error + string list" where
  "published_plugins ls_remote_all repo =
     (if repo = [] then Inl MissingArgument
      else case ls_remote_all repo of
          Inl e \<Rightarrow> Inl (GitFailed e)
        | Inr out \<Rightarrow> Inr (sort (dedup_seen [] (ref_plugins (split_on nl out)))))"

section \<open>The abstract order\<close>

text \<open>What a prerelease identifier is compared by: numeric ones rank below the others. A version is
  compared by its numbers, then by its list of identifiers; a version with no prerelease ranks above
  every candidate for it.\<close>

datatype pre_ident = NumId int | StrId string

instantiation pre_ident :: linorder
begin

fun less_eq_pre_ident :: "pre_ident \<Rightarrow> pre_ident \<Rightarrow> bool" where
  "less_eq_pre_ident (NumId m) (NumId n) = (m \<le> n)"
| "less_eq_pre_ident (NumId m) (StrId t) = True"
| "less_eq_pre_ident (StrId s) (NumId n) = False"
| "less_eq_pre_ident (StrId s) (StrId t) = (s \<le> t)"

definition less_pre_ident :: "pre_ident \<Rightarrow> pre_ident \<Rightarrow> bool" where
  "less_pre_ident x y \<longleftrightarrow> x \<le> y \<and> \<not> y \<le> x"

instance
proof
  fix x y z :: pre_ident
  show "x < y \<longleftrightarrow> x \<le> y \<and> \<not> y \<le> x" by (rule less_pre_ident_def)
  show "x \<le> x" by (cases x) auto
  show "x \<le> y \<Longrightarrow> y \<le> z \<Longrightarrow> x \<le> z" by (cases x; cases y; cases z) auto
  show "x \<le> y \<Longrightarrow> y \<le> x \<Longrightarrow> x = y" by (cases x; cases y) auto
  show "x \<le> y \<or> y \<le> x" by (cases x; cases y) auto
qed

end

datatype pre_key = Candidate "pre_ident list" | Released

instantiation pre_key :: linorder
begin

fun less_eq_pre_key :: "pre_key \<Rightarrow> pre_key \<Rightarrow> bool" where
  "less_eq_pre_key (Candidate xs) (Candidate ys) = (xs \<le> ys)"
| "less_eq_pre_key (Candidate xs) Released = True"
| "less_eq_pre_key Released (Candidate ys) = False"
| "less_eq_pre_key Released Released = True"

definition less_pre_key :: "pre_key \<Rightarrow> pre_key \<Rightarrow> bool" where
  "less_pre_key x y \<longleftrightarrow> x \<le> y \<and> \<not> y \<le> x"

instance
proof
  fix x y z :: pre_key
  show "x < y \<longleftrightarrow> x \<le> y \<and> \<not> y \<le> x" by (rule less_pre_key_def)
  show "x \<le> x" by (cases x) auto
  show "x \<le> y \<Longrightarrow> y \<le> z \<Longrightarrow> x \<le> z" by (cases x; cases y; cases z) auto
  show "x \<le> y \<Longrightarrow> y \<le> x \<Longrightarrow> x = y" by (cases x; cases y) auto
  show "x \<le> y \<or> y \<le> x" by (cases x; cases y) auto
qed

end

definition ident_key :: "string \<Rightarrow> pre_ident" where
  "ident_key s = (case atoi s of Some n \<Rightarrow> NumId n | None \<Rightarrow> StrId s)"

definition pre_key_of :: "string \<Rightarrow> pre_key" where
  "pre_key_of pre = (if pre = [] then Released
     else Candidate (map ident_key (split_on CHR ''.'' pre)))"

definition version_key :: "string \<Rightarrow> int list \<times> pre_key" where
  "version_key v = (fst (split_version v), pre_key_of (snd (split_version v)))"

section \<open>The comparison implements the order\<close>

lemma pre_ident_less [simp]:
  "NumId m < NumId n \<longleftrightarrow> m < n" "NumId m < StrId t" "\<not> StrId s < NumId n"
  "StrId s < StrId t \<longleftrightarrow> s < t"
  by (auto simp: less_pre_ident_def)

lemma pre_key_less [simp]:
  "Candidate xs < Candidate ys \<longleftrightarrow> xs < ys" "Candidate xs < Released"
  "\<not> Released < Candidate ys" "\<not> Released < Released"
  by (auto simp: less_pre_key_def)

lemma order_sign_Cons:
  "order_sign (x # xs) (y # ys) =
     (if x < y then -1 else if y < x then 1 else order_sign xs (ys :: 'a::linorder list))"
  by (auto simp: order_sign_def Cons_less_Cons)

lemma order_sign_Nil [simp]:
  "order_sign [] [] = 0" "order_sign [] (y # ys) = -1" "order_sign (y # ys) [] = 1"
  by (auto simp: order_sign_def Nil_less_Cons)

lemma compare_idents_eq: "compare_idents as bs = order_sign (map ident_key as) (map ident_key bs)"
proof (induction as bs rule: compare_idents.induct)
  case (1 a as b bs)
  then show ?case
    by (cases "atoi a"; cases "atoi b") (auto simp: ident_key_def order_sign_Cons)
qed auto

lemma compare_core_eq: "length xs = length ys \<Longrightarrow> compare_core xs ys = order_sign xs ys"
  by (induction xs ys rule: list_induct2) (auto simp: order_sign_Cons)

lemma atoi_all_length: "atoi_all ps = Some ns \<Longrightarrow> length ns = length ps"
  by (induction ps arbitrary: ns) (auto split: option.splits)

lemma split_version_length: "length (fst (split_version v)) = 3"
  by (auto simp: split_version_def Let_def split: prod.splits option.splits dest!: atoi_all_length)

lemma order_sign_pair:
  "order_sign (a, b) (c, d) = (if order_sign a c \<noteq> 0 then order_sign a c else order_sign b d)"
  by (auto simp: order_sign_def less_prod_def')

lemma order_sign_pre_key:
  "order_sign (pre_key_of p) (pre_key_of q) =
     (if p = [] \<and> q = [] then 0 else if p = [] then 1 else if q = [] then -1
      else compare_prerelease p q)"
  by (auto simp: pre_key_of_def compare_prerelease_def compare_idents_eq)
    (auto simp: order_sign_def)

lemma compare_versions_key: "compare_versions a b = order_sign (version_key a) (version_key b)"
proof -
  obtain na pa where a: "split_version a = (na, pa)" by (cases "split_version a")
  obtain nb pb where b: "split_version b = (nb, pb)" by (cases "split_version b")
  have "length na = length nb"
    using split_version_length [of a] split_version_length [of b] a b by simp
  then have "compare_core na nb = order_sign na nb" by (rule compare_core_eq)
  then show ?thesis
    by (simp add: compare_versions_def version_key_def a b order_sign_pair order_sign_pre_key)
qed

interpretation ver: comparison compare_versions
  using comparison_order_sign [of version_key] by (simp add: compare_versions_key [abs_def])

lemma newest_mem: "vs \<noteq> [] \<Longrightarrow> newest vs \<in> set vs"
  unfolding newest_def by (rule ver.last_mem)

lemma newest_greatest: "w \<in> set vs \<Longrightarrow> compare_versions w (newest vs) \<le> 0"
  unfolding newest_def by (rule ver.last_greatest)

section \<open>Reading what git prints\<close>

text \<open>One line of \<^verbatim>\<open>git ls-remote --tags\<close> for a release tag: the object's hash, a tab, the ref,
  and \<^verbatim>\<open>^{}\<close> on the line that names the commit of an annotated tag.\<close>

type_synonym tag_line = "string \<times> string \<times> bool"

fun ls_line :: "string \<Rightarrow> tag_line \<Rightarrow> string" where
  "ls_line plugin (sha, v, peeled) =
     sha @ tab # tag_prefix plugin @ v @ (if peeled then peeled_suffix else [])"

definition ls_output :: "string \<Rightarrow> tag_line list \<Rightarrow> string" where
  "ls_output plugin tags = join_with [nl] (map (ls_line plugin) tags)"

text \<open>What git allows in a ref name: no blanks or control characters and no \<^verbatim>\<open>^\<close>. Release tags
  of a plugin begin with \<^verbatim>\<open>v\<close> after the plugin's directory and hold no further slash.\<close>

fun release_line :: "tag_line \<Rightarrow> bool" where
  "release_line (sha, v, peeled) \<longleftrightarrow>
     sha \<noteq> [] \<and> list_all visible sha \<and> list_all visible v \<and> CHR ''^'' \<notin> set v \<and>
     CHR ''/'' \<notin> set v \<and> prefix ''v'' v"

definition plugin_name :: "string \<Rightarrow> bool" where
  "plugin_name p \<longleftrightarrow> p \<noteq> [] \<and> list_all visible p"

lemma not_visible_nl_tab [simp]: "\<not> visible nl" "\<not> visible tab"
  by (simp_all add: visible_def)

lemma visible_tag_prefix:
  "plugin_name plugin \<Longrightarrow> list_all visible (tag_prefix plugin)"
  by (simp add: plugin_name_def tag_prefix_def visible_def)

lemma tag_prefix_ne [simp]: "tag_prefix plugin \<noteq> []"
  by (simp add: tag_prefix_def)

lemma trim_suffix_peeled [simp]: "trim_suffix s (x @ s) = x"
  by (simp add: trim_suffix_def suffix_def)

lemma no_caret_peeled:
  assumes "CHR ''^'' \<notin> set v" and "prefix ''v'' v"
  shows "\<not> suffix peeled_suffix (x @ v)"
proof
  assume "suffix peeled_suffix (x @ v)"
  then consider "suffix peeled_suffix v" | xs where "peeled_suffix = xs @ v"
    by (auto simp: suffix_append)
  then show False
  proof cases
    case 1
    then show False using assms(1) by (auto simp: suffix_def peeled_suffix_def)
  next
    case 2
    then have "set v \<subseteq> set peeled_suffix" by (metis Un_upper2 set_append)
    moreover have "CHR ''v'' \<in> set v" using assms(2) by (auto simp: prefix_def)
    ultimately have "CHR ''v'' \<in> set peeled_suffix" by blast
    then show False by (simp add: peeled_suffix_def)
  qed
qed

lemma trim_suffix_unpeeled:
  "CHR ''^'' \<notin> set v \<Longrightarrow> prefix ''v'' v \<Longrightarrow> trim_suffix peeled_suffix (x @ v) = x @ v"
  by (simp add: trim_suffix_def no_caret_peeled)

lemma ls_line_visible_ends:
  assumes "release_line t"
  shows "ls_line plugin t \<noteq> [] \<and> visible (hd (ls_line plugin t)) \<and> visible (last (ls_line plugin t))"
proof -
  obtain sha v peeled where t: "t = (sha, v, peeled)" by (cases t)
  with assms obtain c cs u where sha: "sha = c # cs" and v: "v = CHR ''v'' # u"
    by (cases sha) (auto simp: prefix_def)
  have "visible (last v)" using assms t v by (auto simp: list_all_iff visible_def)
  moreover have "last (ls_line plugin t) = (if peeled then CHR ''}'' else last v)"
    using t v by (auto simp: peeled_suffix_def)
  moreover have "hd (ls_line plugin t) = c" using t sha by simp
  ultimately show ?thesis using assms t sha by (auto simp: visible_def)
qed

text \<open>How every reader of the listing takes such a line apart.\<close>

lemma cut_ls_line:
  assumes "release_line (sha, v, peeled)"
  shows "str_cut tab (trim_space (ls_line plugin (sha, v, peeled)))
    = (sha, tag_prefix plugin @ v @ (if peeled then peeled_suffix else []), True)"
proof -
  have "trim_space (ls_line plugin (sha, v, peeled)) = ls_line plugin (sha, v, peeled)"
    by (rule trim_space_id) (use ls_line_visible_ends [OF assms] in blast)
  moreover have "tab \<notin> set sha" using assms by (auto simp: list_all_iff)
  ultimately show ?thesis by (simp add: str_cut_found)
qed

lemma trim_peeled_ref:
  assumes "release_line (sha, v, peeled)"
  shows "trim_suffix peeled_suffix (x @ v @ (if peeled then peeled_suffix else [])) = x @ v"
  using assms trim_suffix_peeled [of peeled_suffix "x @ v"] by (simp add: trim_suffix_unpeeled)

lemma suffix_peeled_ref:
  assumes "release_line (sha, v, peeled)"
  shows "suffix peeled_suffix (x @ v @ (if peeled then peeled_suffix else [])) = peeled"
  using assms no_caret_peeled [of v x] by (auto simp: suffix_append)

lemma ref_version_ls_line:
  assumes "release_line (sha, v, peeled)"
  shows "ref_version plugin (ls_line plugin (sha, v, peeled)) = Some v"
  using assms cut_ls_line [OF assms, of plugin] trim_peeled_ref [OF assms, of "tag_prefix plugin"]
  by (simp add: ref_version_def Let_def del: ls_line.simps)

lemma ls_line_no_nl:
  "plugin_name plugin \<Longrightarrow> release_line t \<Longrightarrow> nl \<notin> set (ls_line plugin t)"
  using visible_tag_prefix [of plugin]
  by (cases t) (auto simp: list_all_iff peeled_suffix_def split: if_splits)

lemma split_ls_output:
  "plugin_name plugin \<Longrightarrow> \<forall>t \<in> set tags. release_line t \<Longrightarrow> tags \<noteq> [] \<Longrightarrow>
     split_on nl (ls_output plugin tags) = map (ls_line plugin) tags"
  unfolding ls_output_def by (rule split_join) (auto simp: ls_line_no_nl)

lemma parse_ls_output:
  assumes "plugin_name plugin" and "\<forall>t \<in> set tags. release_line t" and "tags \<noteq> []"
  shows "parse_ref_lines (ls_output plugin tags) plugin = dedup_seen [] (map (fst \<circ> snd) tags)"
proof -
  have "ref_versions plugin (map (ls_line plugin) ts) = map (fst \<circ> snd) ts"
    if "\<forall>t \<in> set ts. release_line t" for ts
    using that by (induction ts) (auto simp: ref_version_ls_line simp del: ls_line.simps)
  with assms show ?thesis by (simp add: parse_ref_lines_def split_ls_output)
qed

text \<open>The commit a version's tag resolves to: the last peeled line for it, or the first plain one
  when there is none.\<close>

definition resolves_to :: "tag_line list \<Rightarrow> string \<Rightarrow> string option" where
  "resolves_to tags v =
     (case rev (filter (\<lambda>(sha, w, peeled). w = v \<and> peeled) tags) of
        (sha, _) # _ \<Rightarrow> Some sha
      | [] \<Rightarrow> map_option fst (find (\<lambda>(sha, w, peeled). w = v) tags))"

definition resolves_at :: "tag_line list \<Rightarrow> string \<Rightarrow> string \<Rightarrow> bool" where
  "resolves_at tags commit v =
     (case resolves_to tags v of None \<Rightarrow> False | Some sha \<Rightarrow> equal_fold sha commit)"

lemma note_target_ls_line:
  assumes "release_line (sha, v, peeled)"
  shows "note_target plugin target (ls_line plugin (sha, v, peeled)) =
    (if map_of target v = None \<or> peeled then put v sha target else target)"
  using assms cut_ls_line [OF assms, of plugin] trim_peeled_ref [OF assms, of "tag_prefix plugin"]
    suffix_peeled_ref [OF assms, of "tag_prefix plugin"]
  by (simp add: note_target_def del: ls_line.simps)

lemma resolves_to_snoc:
  "resolves_to (tags @ [(sha, v, peeled)]) w =
     (if w = v \<and> (peeled \<or> resolves_to tags v = None) then Some sha else resolves_to tags w)"
proof -
  have "find P (xs @ [x]) = (case find P xs of Some y \<Rightarrow> Some y | None \<Rightarrow> if P x then Some x else None)"
    for P and xs :: "tag_line list" and x
    by (induction xs) auto
  then show ?thesis
    by (auto simp: resolves_to_def split: list.splits option.splits)
qed

lemma tag_targets_ls_output:
  assumes "plugin_name plugin" and "\<forall>t \<in> set tags. release_line t" and "tags \<noteq> []"
  shows "map_of (tag_targets (ls_output plugin tags) plugin) = resolves_to tags"
    and "wf_map (tag_targets (ls_output plugin tags) plugin)"
proof -
  have "map_of (foldl (note_target plugin) [] (map (ls_line plugin) ts)) = resolves_to ts
      \<and> wf_map (foldl (note_target plugin) [] (map (ls_line plugin) ts))"
    if "\<forall>t \<in> set ts. release_line t" for ts
    using that
  proof (induction ts rule: rev_induct)
    case Nil
    show ?case by (simp add: resolves_to_def fun_eq_iff)
  next
    case (snoc t ts)
    obtain sha v peeled where t: "t = (sha, v, peeled)" by (cases t)
    with snoc show ?case
      by (auto simp: note_target_ls_line resolves_to_snoc fun_eq_iff simp del: ls_line.simps)
  qed
  with assms show "map_of (tag_targets (ls_output plugin tags) plugin) = resolves_to tags"
    and "wf_map (tag_targets (ls_output plugin tags) plugin)"
    by (simp_all add: tag_targets_def split_ls_output)
qed

section \<open>The tag format in use\<close>

text \<open>A release of the catalogue is tagged \<^verbatim>\<open>vMAJOR.MINOR.PATCH\<close>, a candidate for it adds
  \<^verbatim>\<open>-rc.N\<close>.\<close>

record release =
  major :: nat
  minor :: nat
  patch :: nat
  rc :: "nat option"

definition release_core :: "release \<Rightarrow> string" where
  "release_core r = show_nat (major r) @ ''.'' @ show_nat (minor r) @ ''.'' @ show_nat (patch r)"

definition render_release :: "release \<Rightarrow> string" where
  "render_release r = ''v'' @ release_core r @
     (case rc r of None \<Rightarrow> [] | Some n \<Rightarrow> ''-rc.'' @ show_nat n)"

definition release_in_range :: "release \<Rightarrow> bool" where
  "release_in_range r \<longleftrightarrow> major r < 2 ^ 63 \<and> minor r < 2 ^ 63 \<and> patch r < 2 ^ 63 \<and>
     (case rc r of None \<Rightarrow> True | Some n \<Rightarrow> n < 2 ^ 63)"

text \<open>Candidates in number order, then the release itself.\<close>

definition rc_rank :: "nat option \<Rightarrow> bool \<times> nat" where
  "rc_rank n = (case n of None \<Rightarrow> (True, 0) | Some k \<Rightarrow> (False, k))"

definition release_rank :: "release \<Rightarrow> nat \<times> nat \<times> nat \<times> bool \<times> nat" where
  "release_rank r = (major r, minor r, patch r, rc_rank (rc r))"

lemma show_nat_no: "\<not> is_digit c \<Longrightarrow> c \<notin> set (show_nat n)"
  using show_nat_digits [of n] by (auto simp: list_all_iff)

lemma not_is_digit [simp]: "\<not> is_digit CHR ''.''" "\<not> is_digit CHR ''-''" "\<not> is_digit CHR ''v''"
  by (simp_all add: is_digit_def)

lemma atoi_show_nat: "n < 2 ^ 63 \<Longrightarrow> atoi (show_nat n) = Some (int n)"
  using atoi_digits [of "show_nat n"] show_nat_digits [of n]
  by (simp add: range_checked_def int_in_range_def)

lemma atoi_rc: "atoi ''rc'' = None"
  by (simp add: atoi_def parse_digits_def is_digit_def)

lemma split_dots3:
  "split_on CHR ''.'' (show_nat a @ ''.'' @ show_nat b @ ''.'' @ show_nat c)
     = [show_nat a, show_nat b, show_nat c]"
  by (simp add: split_on_append split_on_no_sep show_nat_no)

lemma split_rc: "split_on CHR ''.'' (''rc.'' @ show_nat n) = [''rc'', show_nat n]"
  using split_on_append [of "CHR ''.''" "''rc''" "show_nat n"]
  by (simp add: split_on_no_sep show_nat_no)

lemma render_release_visible: "\<forall>c \<in> set (render_release r). visible c"
  by (auto simp: render_release_def release_core_def visible_def
      dest!: show_nat_visible split: option.splits)

lemma split_render_release:
  assumes "release_in_range r"
  shows "split_version (render_release r) =
    ([int (major r), int (minor r), int (patch r)],
     case rc r of None \<Rightarrow> [] | Some n \<Rightarrow> ''rc.'' @ show_nat n)"
proof -
  have t: "trim_prefix ''v'' (trim_space (render_release r)) =
      release_core r @ (case rc r of None \<Rightarrow> [] | Some n \<Rightarrow> ''-rc.'' @ show_nat n)"
    using trim_space_visible [OF render_release_visible]
    by (simp add: render_release_def trim_prefix_def)
  have no: "CHR ''-'' \<notin> set (release_core r)"
    by (simp add: release_core_def show_nat_no)
  have c: "str_cut CHR ''-'' (release_core r @
        (case rc r of None \<Rightarrow> [] | Some n \<Rightarrow> ''-rc.'' @ show_nat n)) =
      (release_core r, case rc r of None \<Rightarrow> [] | Some n \<Rightarrow> ''rc.'' @ show_nat n, rc r \<noteq> None)"
    using no by (auto simp: str_cut_found str_cut_missing split: option.splits)
  have "atoi_all (take 3 (split_on CHR ''.'' (release_core r))) =
      Some [int (major r), int (minor r), int (patch r)]"
    using assms unfolding release_core_def split_dots3
    by (simp add: atoi_show_nat release_in_range_def)
  with t c show ?thesis by (simp add: split_version_def)
qed

lemma order_sign_int [simp]: "order_sign (int a) (int b) = order_sign a b"
  by (simp add: order_sign_def)

lemma order_sign_triple:
  "order_sign [int a, int b, int c] [int a', int b', int c'] =
     (if a \<noteq> a' then order_sign a a' else if b \<noteq> b' then order_sign b b' else order_sign c c')"
  by (simp add: order_sign_Cons) (simp add: order_sign_def)

section \<open>Properties\<close>

text \<open>C29: the comparison of two version strings is exactly the comparison of their abstract keys in
  a linear order. So it is antisymmetric, transitive and total, two versions compare equal only when
  their numbers and identifiers agree, and no input makes it inconsistent.\<close>

theorem compare_versions_refines_order:
  "compare_versions a b = order_sign (version_key a) (version_key b)"
  by (rule compare_versions_key)

text \<open>On the tag format the catalogue uses, releases are ordered by major, minor, patch, then by
  candidate number read as a number, and a release ranks above every candidate for it.\<close>

theorem tag_format_order:
  assumes "release_in_range r" and "release_in_range s"
  shows "compare_versions (render_release r) (render_release s)
    = order_sign (release_rank r) (release_rank s)"
proof -
  have pre: "order_sign (pre_key_of (case o1 of None \<Rightarrow> [] | Some n \<Rightarrow> ''rc.'' @ show_nat n))
        (pre_key_of (case o2 of None \<Rightarrow> [] | Some n \<Rightarrow> ''rc.'' @ show_nat n))
      = order_sign (rc_rank o1) (rc_rank o2)"
    if "\<And>n. o1 = Some n \<Longrightarrow> n < 2 ^ 63" "\<And>n. o2 = Some n \<Longrightarrow> n < 2 ^ 63" for o1 o2
    using that
    by (cases o1; cases o2)
      (auto simp: pre_key_of_def split_rc [simplified] ident_key_def atoi_rc atoi_show_nat
        rc_rank_def order_sign_def)
  have rc_pre: "order_sign (pre_key_of (case rc r of None \<Rightarrow> [] | Some n \<Rightarrow> ''rc.'' @ show_nat n))
        (pre_key_of (case rc s of None \<Rightarrow> [] | Some n \<Rightarrow> ''rc.'' @ show_nat n))
      = order_sign (rc_rank (rc r)) (rc_rank (rc s))"
    by (rule pre) (use assms in \<open>simp_all add: release_in_range_def\<close>)
  show ?thesis
    unfolding compare_versions_key version_key_def split_render_release [OF assms(1)]
      split_render_release [OF assms(2)] release_rank_def fst_conv snd_conv
      order_sign_pair rc_pre order_sign_triple
    by simp
qed

definition rc_release :: "nat \<Rightarrow> release" where
  "rc_release n = \<lparr>major = 0, minor = 1, patch = 0, rc = Some n\<rparr>"

theorem tag_format_order_witness:
  "compare_versions (render_release (rc_release 2)) (render_release (rc_release 10)) = -1"
proof -
  have "release_in_range (rc_release 2)" "release_in_range (rc_release 10)"
    by (simp_all add: release_in_range_def rc_release_def)
  from tag_format_order [OF this] show ?thesis
    by (simp add: release_rank_def rc_rank_def rc_release_def order_sign_def)
qed

text \<open>Whatever releases a registry publishes, in whatever order git lists them and whether or not
  their tags are annotated, \<^verbatim>\<open>LatestVersion\<close> returns one of them, and none ranks above it. With
  candidates only, that is the newest candidate; once a release exists, it.\<close>

theorem latest_version_is_newest:
  assumes "repo \<noteq> []" and "plugin_name plugin" and "tags \<noteq> []"
    and "\<forall>t \<in> set tags. release_line t"
    and "ls_remote repo (tag_prefix plugin @ ''*'') = Inr (ls_output plugin tags)"
  shows "\<exists>v. latest_version ls_remote repo plugin = Inr v \<and> v \<in> (fst \<circ> snd) ` set tags \<and>
    (\<forall>w \<in> (fst \<circ> snd) ` set tags. compare_versions w v \<le> 0)"
proof -
  define vs where "vs = parse_ref_lines (ls_output plugin tags) plugin"
  have vs: "vs = dedup_seen [] (map (fst \<circ> snd) tags)"
    unfolding vs_def by (rule parse_ls_output [OF assms(2,4,3)])
  then have set_vs: "set vs = (fst \<circ> snd) ` set tags" by (simp add: dedup_seen_set)
  with assms(3) have "vs \<noteq> []" by (metis image_is_empty set_empty)
  have "latest_version ls_remote repo plugin = Inr (newest vs)"
    using assms(1,2,5) \<open>vs \<noteq> []\<close> by (simp add: latest_version_def plugin_name_def flip: vs_def)
  with newest_mem [OF \<open>vs \<noteq> []\<close>] newest_greatest [of _ vs] set_vs show ?thesis by auto
qed

text \<open>Ten candidates are where a textual order would go wrong.\<close>

definition mail_tags :: "tag_line list" where
  "mail_tags = [(''aa11'', ''v0.1.0-rc.2'', False), (''bb22'', ''v0.1.0-rc.10'', False),
     (''cc33'', ''v0.1.0-rc.10'', True)]"

definition mail_remote :: "string \<Rightarrow> string \<Rightarrow> unit + string" where
  "mail_remote repo pattern = Inr (ls_output ''mail'' mail_tags)"

lemma mail_tags_ok: "plugin_name ''mail''" "\<forall>t \<in> set mail_tags. release_line t" "mail_tags \<noteq> []"
  by (simp_all add: mail_tags_def plugin_name_def visible_def)

theorem latest_version_is_newest_witness:
  "latest_version mail_remote ''repo'' ''mail'' = Inr ''v0.1.0-rc.10''"
proof -
  obtain v where v: "latest_version mail_remote ''repo'' ''mail'' = Inr v"
      "v \<in> {''v0.1.0-rc.2'', ''v0.1.0-rc.10''}" "compare_versions ''v0.1.0-rc.10'' v \<le> 0"
    using latest_version_is_newest [OF _ mail_tags_ok(1,3,2), of "''repo''" mail_remote]
    by (auto simp: mail_remote_def mail_tags_def)
  have "compare_versions ''v0.1.0-rc.10'' ''v0.1.0-rc.2'' = 1" by code_simp
  with v show ?thesis by auto
qed

text \<open>\<^verbatim>\<open>ReleaseAtCommit\<close> names a release only if its tag resolves to the commit asked for (the
  peeled line of an annotated tag, never its tag object), then the newest of them; it answers that
  there is none exactly when no tag resolves to the commit.\<close>

theorem release_at_commit_sound_complete:
  assumes "plugin_name plugin" and "tags \<noteq> []" and "\<forall>t \<in> set tags. release_line t"
  shows "if \<exists>v. resolves_at tags commit v
    then resolves_at tags commit (release_at_commit (ls_output plugin tags) plugin commit) \<and>
      (\<forall>w. resolves_at tags commit w \<longrightarrow>
         compare_versions w (release_at_commit (ls_output plugin tags) plugin commit) \<le> 0)
    else release_at_commit (ls_output plugin tags) plugin commit = []"
proof -
  define target where "target = tag_targets (ls_output plugin tags) plugin"
  define found where "found = map fst (filter (\<lambda>(v, sha). equal_fold sha commit) target)"
  have m: "map_of target = resolves_to tags" and wf: "wf_map target"
    unfolding target_def by (rule tag_targets_ls_output [OF assms(1,3,2)])+
  have found_iff: "v \<in> set found \<longleftrightarrow> resolves_at tags commit v" for v
  proof -
    have "v \<in> set found \<longleftrightarrow> (\<exists>sha. map_of target v = Some sha \<and> equal_fold sha commit)"
      using wf by (force simp: found_def image_iff)
    then show ?thesis by (auto simp: m resolves_at_def split: option.splits)
  qed
  have "release_at_commit (ls_output plugin tags) plugin commit
      = (if found = [] then [] else newest found)"
    by (simp add: release_at_commit_def found_def target_def Let_def)
  moreover have "(\<exists>v. resolves_at tags commit v) \<longleftrightarrow> found \<noteq> []"
    by (metis found_iff last_in_set list.set(1) empty_iff)
  ultimately show ?thesis
    using newest_mem [of found] newest_greatest [of _ found] found_iff by auto
qed

theorem release_at_commit_sound_complete_witness:
  "release_at_commit (ls_output ''mail'' mail_tags) ''mail'' ''CC33'' = ''v0.1.0-rc.10''
    \<and> release_at_commit (ls_output ''mail'' mail_tags) ''mail'' ''bb22'' = []"
proof -
  have r: "resolves_to mail_tags ''v0.1.0-rc.10'' = Some ''cc33''"
      "resolves_to mail_tags ''v0.1.0-rc.2'' = Some ''aa11''"
    by (simp_all add: resolves_to_def mail_tags_def)
  have none: "resolves_to mail_tags v = None"
    if "v \<noteq> ''v0.1.0-rc.10''" "v \<noteq> ''v0.1.0-rc.2''" for v
    using that by (simp add: resolves_to_def mail_tags_def)
  have eq: "equal_fold ''cc33'' ''CC33''" "\<not> equal_fold ''aa11'' ''CC33''"
    "\<not> equal_fold ''cc33'' ''bb22''" "\<not> equal_fold ''aa11'' ''bb22''"
    by code_simp+
  have only: "resolves_at mail_tags ''CC33'' v \<longleftrightarrow> v = ''v0.1.0-rc.10''"
    "\<not> resolves_at mail_tags ''bb22'' v" for v
    using r none [of v] eq
    by (cases "v = ''v0.1.0-rc.10''"; cases "v = ''v0.1.0-rc.2''"; simp add: resolves_at_def)+
  show ?thesis
    using release_at_commit_sound_complete [OF mail_tags_ok(1,3,2), of "''CC33''"]
      release_at_commit_sound_complete [OF mail_tags_ok(1,3,2), of "''bb22''"]
    by (simp add: only)
qed

end
