(* ===== verification/Registry.thy ===== *)
theory Registry
  imports Prelude
begin

text \<open>
  The contract three stores of the client share: entries under names, and one field that points at
  an entry by name (the empty name points nowhere). The active run preset of a project, the default
  remote of the machine and the default console of the credential store are each such a field. What
  a client of one relies on, that the pointer never names an entry that is gone, is proved here once;
  the stores discharge the laws where they are modelled.
\<close>

locale pointer_registry =
  fixes names :: "'s \<Rightarrow> string set"
    and pointer :: "'s \<Rightarrow> string"
    and del :: "string \<Rightarrow> 's \<Rightarrow> 's"
  assumes names_del: "names (del k s) = names s - {k}"
    and pointer_del: "pointer (del k s) = pointer s \<or> pointer (del k s) = []"
    and pointer_del_hit: "k \<in> names s \<Longrightarrow> pointer (del k s) = k \<Longrightarrow> k = []"
begin

definition sound :: "'s \<Rightarrow> bool" where
  "sound s \<longleftrightarrow> pointer s = [] \<or> pointer s \<in> names s"

lemma sound_del: "sound s \<Longrightarrow> sound (del k s)"
  unfolding sound_def names_del by (metis DiffI pointer_del pointer_del_hit singletonD)

lemma sound_del_all: "sound s \<Longrightarrow> sound (fold del ks s)"
  by (induction ks arbitrary: s) (auto intro: sound_del)

lemma names_del_all: "names (fold del ks s) = names s - set ks"
  by (induction ks arbitrary: s) (auto simp: names_del)

lemma pointer_del_all: "pointer (fold del ks s) = pointer s \<or> pointer (fold del ks s) = []"
proof (induction ks arbitrary: s)
  case Nil
  show ?case by simp
next
  case (Cons k ks)
  show ?case using Cons.IH [of "del k s"] pointer_del [of k s] by auto
qed

lemma del_removes: "k \<notin> names (del k s)"
  by (simp add: names_del)

end

datatype 'v reg_op = Add string 'v | Delete string | Select string

locale selectable_registry = pointer_registry names pointer del
  for names :: "'s \<Rightarrow> string set" and pointer :: "'s \<Rightarrow> string" and del :: "string \<Rightarrow> 's \<Rightarrow> 's" +
  fixes add :: "string \<Rightarrow> 'v \<Rightarrow> 's \<Rightarrow> 's"
    and select :: "string \<Rightarrow> 's \<Rightarrow> 's"
  assumes names_add: "names s \<subseteq> names (add k v s) \<and> names (add k v s) \<subseteq> insert k (names s)"
    and pointer_add: "pointer (add k v s) = pointer s \<or>
      pointer (add k v s) = k \<and> k \<in> names (add k v s)"
    and names_select: "names (select k s) = names s"
    and pointer_select: "pointer (select k s) = (if k \<in> names s then k else pointer s)"
begin

fun apply_op :: "'v reg_op \<Rightarrow> 's \<Rightarrow> 's" where
  "apply_op (Add k v) s = add k v s"
| "apply_op (Delete k) s = del k s"
| "apply_op (Select k) s = select k s"

lemma sound_add: "sound s \<Longrightarrow> sound (add k v s)"
  unfolding sound_def by (metis names_add pointer_add subsetD)

lemma sound_select: "sound s \<Longrightarrow> sound (select k s)"
  by (simp add: sound_def names_select pointer_select)

lemma sound_apply_op: "sound s \<Longrightarrow> sound (apply_op p s)"
  by (cases p) (auto intro: sound_add sound_del sound_select)

lemma sound_run: "sound s \<Longrightarrow> sound (fold apply_op ps s)"
  by (induction ps arbitrary: s) (auto intro: sound_apply_op)

end

end
