(* ===== verification/DevConfig.thy ===== *)
theory DevConfig
  imports Registry
begin

text \<open>
  The dev-machine registry \<^verbatim>\<open>~/.w17/config.yaml\<close> (\<^verbatim>\<open>internal/devconfig/devconfig.go\<close>): projects
  with their ports and run presets, named remotes, and the question every command asks first, which
  registry entry a checkout is.

  A pointer the YAML decoder can leave nil is an option here, and a dereference of it is a panic.
  Reading and decoding the file are parameters.
\<close>

section \<open>The document\<close>

record preset =
  ps_services :: "string list"
  ps_env :: "(string, string) gomap"

record project =
  pj_path :: string
  pj_ports :: "(string, int) gomap"
  pj_active_preset :: string
  pj_presets :: "(string, preset option) gomap"
  pj_autosync :: "bool option"
  pj_active_initiative :: string
  pj_mode :: string
  pj_remote :: string
  pj_bind :: string
  pj_public_ack :: bool

record remote_host =
  rh_ssh :: string
  rh_path :: string

record config =
  cf_version :: int
  cf_port_base :: int
  cf_projects :: "(string, project option) gomap"
  cf_remotes :: "(string, remote_host option) gomap"
  cf_default_mode :: string
  cf_default_remote :: string

definition default_port_base :: int where "default_port_base = 14000"

definition fresh_config :: config where
  "fresh_config = \<lparr>cf_version = 1, cf_port_base = 0, cf_projects = [], cf_remotes = [],
     cf_default_mode = [], cf_default_remote = []\<rparr>"

text \<open>\<^verbatim>\<open>normalize\<close> reads the fields of every project, so a nil entry panics there.\<close>

definition has_nil_project :: "config \<Rightarrow> bool" where
  "has_nil_project c \<longleftrightarrow> list_ex (\<lambda>(_, p). p = None) (cf_projects c)"

definition normalize_config :: "config \<Rightarrow> config go" where
  "normalize_config c =
     (if has_nil_project c then Panic
      else Ret (if cf_version c = 0 then c\<lparr>cf_version := 1\<rparr> else c))"

datatype ('e, 'd) read_result = NotExist | ReadFailed 'e | Contents 'd

datatype 'e load_error = ReadError 'e | ParseError

definition load_config ::
  "('d \<Rightarrow> config option) \<Rightarrow> ('e, 'd) read_result \<Rightarrow> ('e load_error + config) go" where
  "load_config decode r =
     (case r of
        NotExist \<Rightarrow> Ret (Inr fresh_config)
      | ReadFailed e \<Rightarrow> Ret (Inl (ReadError e))
      | Contents d \<Rightarrow>
          (case decode d of
             None \<Rightarrow> Ret (Inl ParseError)
           | Some c \<Rightarrow>
               (case normalize_config c of Panic \<Rightarrow> Panic | Ret c' \<Rightarrow> Ret (Inr c'))))"

definition effective_port_base :: "config \<Rightarrow> int" where
  "effective_port_base c = (if cf_port_base c > 0 then cf_port_base c else default_port_base)"

section \<open>Run presets\<close>

definition has_preset :: "string \<Rightarrow> project \<Rightarrow> bool" where
  "has_preset name p \<longleftrightarrow> map_of (pj_presets p) name \<noteq> None"

definition set_preset :: "string \<Rightarrow> preset option \<Rightarrow> project \<Rightarrow> project" where
  "set_preset name ps p = p\<lparr>pj_presets := put name ps (pj_presets p)\<rparr>"

definition delete_preset :: "string \<Rightarrow> project \<Rightarrow> project \<times> bool" where
  "delete_preset name p =
     (if \<not> has_preset name p then (p, False)
      else (p\<lparr>pj_presets := remove_key name (pj_presets p),
              pj_active_preset := (if pj_active_preset p = name then [] else pj_active_preset p)\<rparr>,
            True))"

definition activate_preset :: "string \<Rightarrow> project \<Rightarrow> project \<times> bool" where
  "activate_preset name p =
     (if \<not> has_preset name p then (p, False) else (p\<lparr>pj_active_preset := name\<rparr>, True))"

definition clear_active_preset :: "project \<Rightarrow> project" where
  "clear_active_preset p = p\<lparr>pj_active_preset := []\<rparr>"

section \<open>Which entry a checkout is\<close>

text \<open>\<^verbatim>\<open>FindByPath\<close> walks the names in sorted order and dereferences each entry it passes.\<close>

fun find_path_among ::
  "(string, project option) gomap \<Rightarrow> string \<Rightarrow> string list \<Rightarrow> (string \<times> project) option go" where
  "find_path_among ps abs_path [] = Ret None"
| "find_path_among ps abs_path (n # ns) =
     (case map_of ps n of
        Some (Some p) \<Rightarrow>
          if pj_path p = abs_path then Ret (Some (n, p)) else find_path_among ps abs_path ns
      | _ \<Rightarrow> Panic)"

definition find_by_path :: "config \<Rightarrow> string \<Rightarrow> (string \<times> project) option go" where
  "find_by_path c abs_path = find_path_among (cf_projects c) abs_path (sort (keys_of (cf_projects c)))"

fun note_path ::
  "string \<times> project option \<Rightarrow> (string, string list) gomap \<Rightarrow> (string, string list) gomap" where
  "note_path (name, Some p) by_path =
     (if pj_path p \<noteq> [] then push_to (pj_path p) name by_path else by_path)"
| "note_path (name, None) by_path = by_path"

definition duplicate_paths :: "config \<Rightarrow> (string, string list) gomap" where
  "duplicate_paths c =
     map (\<lambda>(path, names). (path, sort names))
       (filter (\<lambda>(path, names). length names > 1) (fold note_path (cf_projects c) []))"

definition names_at :: "config \<Rightarrow> string \<Rightarrow> string list" where
  "names_at c abs_path =
     (case map_of (duplicate_paths c) abs_path of None \<Rightarrow> [] | Some ns \<Rightarrow> ns)"

datatype name_error = EmptyName | DotName | SeparatorInName | ControlInName

definition is_control :: "char \<Rightarrow> bool" where
  "is_control c \<longleftrightarrow> (of_char c :: nat) < 32 \<or> (of_char c :: nat) = 127"

definition validate_project_name :: "string \<Rightarrow> name_error option" where
  "validate_project_name name =
     (if name = [] then Some EmptyName
      else if name = ''.'' \<or> name = ''..'' then Some DotName
      else if list_ex (\<lambda>c. c = CHR ''/'' \<or> c = backslash) name then Some SeparatorInName
      else if list_ex is_control name then Some ControlInName
      else None)"

datatype resolve_error =
    SeveralEntries "string list"
  | OtherDirectory string
  | AmbiguousPath "string list"

datatype resolve_note = NoNote | NameMismatch string string | NotRegistered

definition resolve_project ::
  "config \<Rightarrow> string \<Rightarrow> string \<Rightarrow> (resolve_error + string \<times> project option \<times> resolve_note) go" where
  "resolve_project c lock_project abs_path =
     (if lock_project \<noteq> [] then
        (case map_of (cf_projects c) lock_project of
           None \<Rightarrow>
             (case find_by_path c abs_path of
                Panic \<Rightarrow> Panic
              | Ret found \<Rightarrow>
                  (case found of
                     Some (name, only) \<Rightarrow>
                       if length (names_at c abs_path) \<le> 1
                       then Ret (Inr (name, Some only, NameMismatch lock_project name))
                       else Ret (Inl (SeveralEntries (names_at c abs_path)))
                   | None \<Rightarrow>
                       if length (names_at c abs_path) > 1
                       then Ret (Inl (SeveralEntries (names_at c abs_path)))
                       else Ret (Inr (lock_project, None, NotRegistered))))
         | Some None \<Rightarrow> Panic
         | Some (Some p) \<Rightarrow>
             if pj_path p \<noteq> [] \<and> abs_path \<noteq> [] \<and> pj_path p \<noteq> abs_path
             then Ret (Inl (OtherDirectory (pj_path p)))
             else Ret (Inr (lock_project, Some p, NoNote)))
      else if length (names_at c abs_path) > 1
      then Ret (Inl (AmbiguousPath (names_at c abs_path)))
      else (case find_by_path c abs_path of
              Panic \<Rightarrow> Panic
            | Ret None \<Rightarrow> Ret (Inr ([], None, NoNote))
            | Ret (Some (name, p)) \<Rightarrow> Ret (Inr (name, Some p, NoNote))))"

section \<open>What the registry holds about a directory\<close>

definition registered_at :: "string \<Rightarrow> string \<times> project option \<Rightarrow> bool" where
  "registered_at abs_path e = (case snd e of None \<Rightarrow> False | Some p \<Rightarrow> pj_path p = abs_path)"

definition entries_at :: "config \<Rightarrow> string \<Rightarrow> string list" where
  "entries_at c abs_path = map fst (filter (registered_at abs_path) (cf_projects c))"

definition wf_config :: "config \<Rightarrow> bool" where
  "wf_config c \<longleftrightarrow> wf_map (cf_projects c) \<and> \<not> has_nil_project c"

lemma no_nil_lookup:
  "\<not> has_nil_project c \<Longrightarrow> n \<in> set (keys_of (cf_projects c)) \<Longrightarrow>
     \<exists>p. map_of (cf_projects c) n = Some (Some p)"
proof -
  assume nil: "\<not> has_nil_project c" and "n \<in> set (keys_of (cf_projects c))"
  then obtain v where v: "map_of (cf_projects c) n = Some v"
    using in_keys_map_of by metis
  then have "(n, v) \<in> set (cf_projects c)" by (rule map_of_SomeD)
  with nil have "v \<noteq> None" by (auto simp: has_nil_project_def list_ex_iff)
  with v show ?thesis by auto
qed

lemma map_of_push_to:
  "map_of (push_to k v m) = (map_of m)(k \<mapsto> (case map_of m k of None \<Rightarrow> [] | Some vs \<Rightarrow> vs) @ [v])"
  by (simp add: push_to_def)

lemma wf_push_to [simp]: "wf_map m \<Longrightarrow> wf_map (push_to k v m)"
  by (simp add: push_to_def)

lemma note_path_spec:
  assumes "wf_map m" and "\<forall>k vs. map_of m k = Some vs \<longrightarrow> vs \<noteq> []" and "path \<noteq> []"
  shows "wf_map (fold note_path xs m)
    \<and> (\<forall>k vs. map_of (fold note_path xs m) k = Some vs \<longrightarrow> vs \<noteq> [])
    \<and> (case map_of (fold note_path xs m) path of None \<Rightarrow> [] | Some vs \<Rightarrow> vs) =
       (case map_of m path of None \<Rightarrow> [] | Some vs \<Rightarrow> vs)
         @ map fst (filter (registered_at path) xs)"
  using assms
proof (induction xs arbitrary: m)
  case Nil
  then show ?case by simp
next
  case (Cons x xs)
  obtain n p where x: "x = (n, p)" by (cases x)
  have 1: "wf_map (note_path x m)"
    using Cons.prems(1) x by (cases p) auto
  have 2: "\<forall>k vs. map_of (note_path x m) k = Some vs \<longrightarrow> vs \<noteq> []"
    using Cons.prems(2) x by (cases p) (auto simp: map_of_push_to)
  have 3: "(case map_of (note_path x m) path of None \<Rightarrow> [] | Some vs \<Rightarrow> vs) =
      (case map_of m path of None \<Rightarrow> [] | Some vs \<Rightarrow> vs)
        @ (if registered_at path x then [n] else [])"
    using Cons.prems(3) x by (cases p) (auto simp: map_of_push_to registered_at_def)
  show ?case using Cons.IH [OF 1 2 Cons.prems(3)] 3 x by (auto simp: registered_at_def)
qed

lemma map_of_filter_map:
  "wf_map m \<Longrightarrow> map_of (map (\<lambda>(k, v). (k, f v)) (filter (\<lambda>(k, v). P v) m)) k =
     (case map_of m k of None \<Rightarrow> None | Some v \<Rightarrow> if P v then Some (f v) else None)"
proof (induction m)
  case Nil
  show ?case by simp
next
  case (Cons x m)
  obtain k' v where x: "x = (k', v)" by (cases x)
  with Cons.prems have "map_of m k' = None" by (simp add: map_of_eq_None_iff)
  with Cons x show ?case by (cases "k = k'") auto
qed

lemma note_path_empty: "map_of (fold note_path xs m) [] = map_of m []"
proof (induction xs arbitrary: m)
  case Nil
  then show ?case by simp
next
  case (Cons x xs)
  have "map_of (note_path x m) [] = map_of m []"
    by (cases "(x, m)" rule: note_path.cases) (auto simp: map_of_push_to)
  with Cons show ?case by simp
qed

lemma names_at_eq:
  "names_at c abs_path =
    (if abs_path \<noteq> [] \<and> length (entries_at c abs_path) > 1 then sort (entries_at c abs_path) else [])"
proof -
  let ?m = "fold note_path (cf_projects c) []"
  have wf: "wf_map ?m"
    using note_path_spec [of "[]" "''x''" "cf_projects c"] by simp
  have at: "names_at c abs_path = (case map_of ?m abs_path of None \<Rightarrow> []
      | Some vs \<Rightarrow> if 1 < length vs then sort vs else [])"
    unfolding names_at_def duplicate_paths_def map_of_filter_map [OF wf]
    by (simp split: option.split)
  show ?thesis
  proof (cases "abs_path = []")
    case True
    then show ?thesis unfolding at by (simp add: note_path_empty)
  next
    case False
    then have "(case map_of ?m abs_path of None \<Rightarrow> [] | Some vs \<Rightarrow> vs) = entries_at c abs_path"
      using note_path_spec [of "[]" abs_path "cf_projects c"] by (simp add: entries_at_def)
    with False show ?thesis by (cases "map_of ?m abs_path") (auto simp: at)
  qed
qed

lemma find_path_among_eq:
  "\<forall>n \<in> set ns. \<exists>p. map_of ps n = Some (Some p) \<Longrightarrow>
     find_path_among ps abs_path ns =
       Ret (case filter (\<lambda>n. \<exists>p. map_of ps n = Some (Some p) \<and> pj_path p = abs_path) ns of
              [] \<Rightarrow> None
            | n # _ \<Rightarrow> Some (n, the (the (map_of ps n))))"
  by (induction ns) auto

lemma find_path_among_Some:
  "find_path_among ps abs_path ns = Ret (Some (n, p)) \<Longrightarrow>
     n \<in> set ns \<and> map_of ps n = Some (Some p) \<and> pj_path p = abs_path"
  by (induction ns) (auto split: option.splits if_splits)

lemma find_by_path_Some:
  "find_by_path c abs_path = Ret (Some (n, p)) \<Longrightarrow>
     map_of (cf_projects c) n = Some (Some p) \<and> pj_path p = abs_path"
  unfolding find_by_path_def by (drule find_path_among_Some) simp

lemma find_by_path_eq:
  assumes "wf_config c"
  shows "find_by_path c abs_path =
    Ret (case sort (entries_at c abs_path) of
           [] \<Rightarrow> None
         | n # _ \<Rightarrow> Some (n, the (the (map_of (cf_projects c) n))))"
proof -
  let ?ps = "cf_projects c"
  let ?at = "\<lambda>n. \<exists>p. map_of ?ps n = Some (Some p) \<and> pj_path p = abs_path"
  have wf: "wf_map ?ps" and nil: "\<not> has_nil_project c" using assms by (auto simp: wf_config_def)
  have "filter ?at (keys_of ?ps) = entries_at c abs_path"
  proof -
    have "?at (fst e) \<longleftrightarrow> registered_at abs_path e" if "e \<in> set ?ps" for e
      using map_of_is_SomeI [OF wf, of "fst e" "snd e"] that
      by (auto simp: registered_at_def split: option.splits)
    then show ?thesis by (simp add: entries_at_def filter_map comp_def cong: filter_cong)
  qed
  then have "filter ?at (sort (keys_of ?ps)) = sort (entries_at c abs_path)"
    by (simp add: filter_sort)
  moreover have "\<forall>n \<in> set (sort (keys_of ?ps)). \<exists>p. map_of ?ps n = Some (Some p)"
    using no_nil_lookup [OF nil] by simp
  ultimately show ?thesis
    by (simp add: find_by_path_def find_path_among_eq)
qed

section \<open>The active preset\<close>

definition preset_names :: "project \<Rightarrow> string set" where
  "preset_names p = set (keys_of (pj_presets p))"

lemma has_preset_iff: "has_preset name p \<longleftrightarrow> name \<in> preset_names p"
  unfolding has_preset_def preset_names_def by (simp add: map_of_eq_None_iff)

interpretation presets: selectable_registry preset_names pj_active_preset
  "\<lambda>k p. fst (delete_preset k p)" set_preset "\<lambda>k p. fst (activate_preset k p)"
  by unfold_locales
    (auto simp: delete_preset_def set_preset_def activate_preset_def has_preset_iff preset_names_def
      split: if_splits)

lemma delete_preset_result:
  "snd (delete_preset name p) \<longleftrightarrow> name \<in> preset_names p"
  "name \<notin> preset_names p \<Longrightarrow> fst (delete_preset name p) = p"
  by (auto simp: delete_preset_def has_preset_iff)

section \<open>Permutations of the registry\<close>

lemma sort_perm: "mset xs = mset ys \<Longrightarrow> sort xs = sort (ys :: 'a::linorder list)"
  by (metis sorted_list_of_multiset_mset)

lemma entries_at_perm:
  assumes "mset ps = mset (cf_projects c)"
  shows "sort (entries_at (c\<lparr>cf_projects := ps\<rparr>) a) = sort (entries_at c a)"
    and "length (entries_at (c\<lparr>cf_projects := ps\<rparr>) a) = length (entries_at c a)"
proof -
  have "mset (entries_at (c\<lparr>cf_projects := ps\<rparr>) a) = mset (entries_at c a)"
    using assms by (simp add: entries_at_def)
  then show "sort (entries_at (c\<lparr>cf_projects := ps\<rparr>) a) = sort (entries_at c a)"
    and "length (entries_at (c\<lparr>cf_projects := ps\<rparr>) a) = length (entries_at c a)"
    by (rule sort_perm, rule mset_eq_length)
qed

lemma find_path_among_cong:
  "map_of ps = map_of qs \<Longrightarrow> find_path_among ps a ns = find_path_among qs a ns"
  by (induction ns) (auto split: option.splits)

lemma find_by_path_perm:
  assumes "wf_map (cf_projects c)" and "mset ps = mset (cf_projects c)"
  shows "find_by_path (c\<lparr>cf_projects := ps\<rparr>) a = find_by_path c a"
proof -
  have "mset (keys_of ps) = mset (keys_of (cf_projects c))" using assms(2) by simp
  then have "sort (keys_of ps) = sort (keys_of (cf_projects c))" by (rule sort_perm)
  then show ?thesis
    using find_path_among_cong [OF wf_perm_map_of [OF assms]] by (simp add: find_by_path_def)
qed

lemma find_path_among_no_panic:
  "\<forall>n \<in> set ns. \<exists>p. map_of ps n = Some (Some p) \<Longrightarrow> find_path_among ps a ns \<noteq> Panic"
  by (simp add: find_path_among_eq)

lemma resolve_project_no_panic:
  assumes "\<not> has_nil_project c"
  shows "resolve_project c lock a \<noteq> Panic"
proof -
  have "find_by_path c a \<noteq> Panic"
    unfolding find_by_path_def
    by (rule find_path_among_no_panic) (use no_nil_lookup [OF assms] in simp)
  moreover have "map_of (cf_projects c) lock \<noteq> Some None"
    using no_nil_lookup [OF assms, of lock] map_of_in_keys [of "cf_projects c" lock] by fastforce
  ultimately show ?thesis
    by (auto simp: resolve_project_def split: go.splits option.splits)
qed

section \<open>Properties\<close>

text \<open>Loading the registry panics exactly on a document with a nil project (a project name with no
  body), and a registry that loads answers every checkout's question without a panic.\<close>

theorem load_panics_only_on_nil_project:
  "(load_config decode r = Panic
      \<longleftrightarrow> (\<exists>d c. r = Contents d \<and> decode d = Some c \<and> has_nil_project c))
   \<and> (\<forall>c lock a. load_config decode r = Ret (Inr c) \<longrightarrow> resolve_project c lock a \<noteq> Panic)"
proof -
  have "\<not> has_nil_project c" if "load_config decode r = Ret (Inr c)" for c
    using that
    by (auto simp: load_config_def normalize_config_def has_nil_project_def fresh_config_def
        split: read_result.splits option.splits if_splits)
  moreover have "load_config decode r = Panic
      \<longleftrightarrow> (\<exists>d c. r = Contents d \<and> decode d = Some c \<and> has_nil_project c)"
    by (auto simp: load_config_def normalize_config_def split: read_result.splits option.splits)
  ultimately show ?thesis using resolve_project_no_panic by blast
qed

definition nil_entry_config :: config where
  "nil_entry_config = fresh_config\<lparr>cf_projects := [(''shop'', None)]\<rparr>"

definition sample_project :: "string \<Rightarrow> project" where
  "sample_project dir = \<lparr>pj_path = dir, pj_ports = [], pj_active_preset = [], pj_presets = [],
     pj_autosync = None, pj_active_initiative = [], pj_mode = [], pj_remote = [], pj_bind = [],
     pj_public_ack = False\<rparr>"

definition two_entry_config :: config where
  "two_entry_config = fresh_config\<lparr>cf_projects :=
     [(''shop'', Some (sample_project ''/w/a'')), (''blog'', Some (sample_project ''/w/a'')),
      (''mail'', Some (sample_project ''/w/b''))]\<rparr>"

lemma two_entry_wf: "wf_config two_entry_config"
  by (simp add: wf_config_def two_entry_config_def has_nil_project_def fresh_config_def)

theorem load_panics_only_on_nil_project_witness:
  "load_config Some (Contents nil_entry_config :: (unit, config) read_result) = Panic
   \<and> resolve_project two_entry_config ''mail'' ''/w/b'' \<noteq> Panic"
proof -
  have "load_config Some (Contents two_entry_config :: (unit, config) read_result)
      = Ret (Inr two_entry_config)"
    by (simp add: load_config_def normalize_config_def two_entry_config_def has_nil_project_def
        fresh_config_def)
  moreover have "has_nil_project nil_entry_config"
    by (simp add: has_nil_project_def nil_entry_config_def)
  ultimately show ?thesis
    using load_panics_only_on_nil_project
        [of Some "Contents nil_entry_config :: (unit, config) read_result"]
      load_panics_only_on_nil_project
        [of Some "Contents two_entry_config :: (unit, config) read_result"]
    by blast
qed

text \<open>C31: the entry a checkout resolves to is its own. An entry is handed back only under the name it
  is registered by, and its directory is the checkout's, so its ports are never another checkout's;
  the one exception is an entry the lock names that records no directory.\<close>

theorem resolve_never_another_checkout:
  assumes "resolve_project c lock abs_path = Ret (Inr (name, Some p, note))" and "abs_path \<noteq> []"
  shows "map_of (cf_projects c) name = Some (Some p) \<and>
    (pj_path p = abs_path \<or> pj_path p = [] \<and> name = lock)"
  using assms
  by (auto simp: resolve_project_def split: if_splits option.splits go.splits
      dest!: find_by_path_Some)

theorem resolve_never_another_checkout_witness:
  "map_of (cf_projects two_entry_config) ''mail'' = Some (Some (sample_project ''/w/b''))"
proof -
  have "resolve_project two_entry_config ''mail'' ''/w/b''
      = Ret (Inr (''mail'', Some (sample_project ''/w/b''), NoNote))"
    by (simp add: resolve_project_def two_entry_config_def sample_project_def fresh_config_def)
  from resolve_never_another_checkout [OF this] show ?thesis by simp
qed

text \<open>The answer does not depend on the order Go iterates the registry in: permuting the map
  changes nothing, for any registry, lock and directory, panics and refusals included.\<close>

theorem resolve_ignores_map_order:
  assumes "wf_map (cf_projects c)" and "mset ps = mset (cf_projects c)"
  shows "resolve_project (c\<lparr>cf_projects := ps\<rparr>) lock abs_path = resolve_project c lock abs_path"
proof -
  have names: "names_at (c\<lparr>cf_projects := ps\<rparr>) abs_path = names_at c abs_path"
    using entries_at_perm [OF assms(2)] by (simp add: names_at_eq)
  have "map_of (cf_projects (c\<lparr>cf_projects := ps\<rparr>)) = map_of (cf_projects c)"
    using wf_perm_map_of [OF assms] by simp
  then show ?thesis
    unfolding resolve_project_def names find_by_path_perm [OF assms] by (rule arg_cong)
qed

theorem resolve_ignores_map_order_witness:
  "resolve_project (two_entry_config\<lparr>cf_projects := rev (cf_projects two_entry_config)\<rparr>) [] ''/w/a''
     = Ret (Inl (AmbiguousPath [''blog'', ''shop'']))"
proof -
  have "wf_map (cf_projects two_entry_config)" using two_entry_wf by (simp add: wf_config_def)
  from resolve_ignores_map_order [OF this, of "rev (cf_projects two_entry_config)" "[]" "''/w/a''"]
  have "resolve_project (two_entry_config\<lparr>cf_projects := rev (cf_projects two_entry_config)\<rparr>) [] ''/w/a''
      = resolve_project two_entry_config [] ''/w/a''" by simp
  also have "names_at two_entry_config ''/w/a'' = [''blog'', ''shop'']"
    by (simp add: names_at_eq entries_at_def two_entry_config_def registered_at_def sample_project_def)
  then have "resolve_project two_entry_config [] ''/w/a'' = Ret (Inl (AmbiguousPath [''blog'', ''shop'']))"
    by (simp add: resolve_project_def)
  finally show ?thesis .
qed

text \<open>With no entry under the lock's name, the directory decides: one entry registered at it is the
  answer, several are refused by name and none is picked, and none at all is reported as an
  unregistered checkout, not as a fault.\<close>

theorem resolve_by_directory:
  assumes "wf_config c" and "abs_path \<noteq> []" and "lock = [] \<or> map_of (cf_projects c) lock = None"
  shows "resolve_project c lock abs_path =
    (case sort (entries_at c abs_path) of
       [] \<Rightarrow> Ret (Inr (lock, None, if lock = [] then NoNote else NotRegistered))
     | [n] \<Rightarrow> Ret (Inr (n, Some (the (the (map_of (cf_projects c) n))),
                 if lock = [] then NoNote else NameMismatch lock n))
     | ns \<Rightarrow> Ret (Inl (if lock = [] then AmbiguousPath ns else SeveralEntries ns)))"
proof -
  have len: "length (entries_at c abs_path) = length (sort (entries_at c abs_path))" by simp
  show ?thesis
    using assms(2,3)
    by (auto simp: resolve_project_def find_by_path_eq [OF assms(1)] names_at_eq len
        simp del: length_sort split: list.splits)
qed

theorem resolve_by_directory_witness:
  "resolve_project two_entry_config ''gone'' ''/w/a'' = Ret (Inl (SeveralEntries [''blog'', ''shop'']))"
proof -
  have "sort (entries_at two_entry_config ''/w/a'') = [''blog'', ''shop'']"
    by (simp add: entries_at_def two_entry_config_def registered_at_def sample_project_def)
  then show ?thesis
    using resolve_by_directory [OF two_entry_wf, of "''/w/a''" "''gone''"]
    by (simp add: two_entry_config_def fresh_config_def)
qed

end
