(* ===== verification/Ports.thy ===== *)
theory Ports
  imports DevConfig
begin

text \<open>
  Host ports (\<^verbatim>\<open>internal/devconfig/allocate.go\<close>, \<^verbatim>\<open>slots.go\<close>, \<^verbatim>\<open>pinned.go\<close>, \<^verbatim>\<open>probe.go\<close>,
  \<^verbatim>\<open>runspec.go\<close>): the slots a rendered compose tree publishes, the ports a developer chose, the
  allocator that hands every other slot a free one, and the environment the stack is started with.

  The operating system's answer whether a port is bound is a parameter \<open>in_use\<close>, fixed for the
  length of one call; reading and decoding the compose files and reading the environment are
  parameters too. The allocator's search for a free port has no bound in the code but the range of its
  counter, a 64-bit \<^verbatim>\<open>int\<close>: \<^const>\<open>None\<close> is a search whose counter leaves that range (after some
  $2^{63}$ probes the code's counter would wrap round to the negative numbers).
\<close>

section \<open>Slots\<close>

record slot =
  sl_key :: string
  sl_env_var :: string
  sl_default :: int
  sl_container :: int
  sl_service :: string
  sl_source :: string

text \<open>The managed port mapping \<^verbatim>\<open>portVarRE\<close>: an optional host-interface prefix and a colon, then
  \<^verbatim>\<open>${VAR}\<close> or \<^verbatim>\<open>${VAR:-N}\<close>, a colon and the container port. A prefix reads as a compose
  expression, an IPv4 literal or a bracketed IPv6 literal.\<close>

definition is_name_start :: "char \<Rightarrow> bool" where
  "is_name_start c \<longleftrightarrow> (let n = of_char c :: nat in 65 \<le> n \<and> n \<le> 90 \<or> 97 \<le> n \<and> n \<le> 122 \<or> n = 95)"

definition is_name_char :: "char \<Rightarrow> bool" where
  "is_name_char c \<longleftrightarrow> is_name_start c \<or> is_digit c"

definition is_ipv6_char :: "char \<Rightarrow> bool" where
  "is_ipv6_char c \<longleftrightarrow> is_digit c \<or> c = CHR '':'' \<or>
     (let n = of_char c :: nat in 65 \<le> n \<and> n \<le> 70 \<or> 97 \<le> n \<and> n \<le> 102)"

definition parse_port_tail :: "string \<Rightarrow> (string \<times> string \<times> string) option" where
  "parse_port_tail s =
     (if \<not> prefix ''${'' s then None
      else
        (let r = drop 2 s;
             name = takeWhile is_name_char r;
             r = dropWhile is_name_char r;
             digits = (if prefix '':-'' r then takeWhile is_digit (drop 2 r) else []);
             r = (if digits = [] then r else dropWhile is_digit (drop 2 r))
         in if name = [] \<or> \<not> is_name_start (hd name) \<or> \<not> prefix ''}:'' r then None
            else (let container = drop 2 r
                  in if container = [] \<or> \<not> list_all is_digit container then None
                     else Some (name, digits, container))))"

text \<open>What follows a host-interface prefix and its colon, if the text begins with one.\<close>

definition after_bind_prefix :: "string \<Rightarrow> string option" where
  "after_bind_prefix s =
     (let rest =
        (if prefix ''${'' s then
           (let r = dropWhile (\<lambda>c. c \<noteq> CHR ''}'') (drop 2 s) in if r = [] then None else Some (tl r))
         else if prefix ''['' s then
           (let a = takeWhile is_ipv6_char (tl s); r = dropWhile is_ipv6_char (tl s)
            in if a \<noteq> [] \<and> prefix '']'' r then Some (tl r) else None)
         else
           (let a = takeWhile (\<lambda>c. is_digit c \<or> c = CHR ''.'') s
            in if a \<noteq> [] then Some (dropWhile (\<lambda>c. is_digit c \<or> c = CHR ''.'') s) else None))
      in case rest of
           Some (c # r) \<Rightarrow> if c = CHR '':'' then Some r else None
         | _ \<Rightarrow> None)"

definition parse_port_mapping :: "string \<Rightarrow> (string \<times> string \<times> string) option" where
  "parse_port_mapping s =
     (case Option.bind (after_bind_prefix s) parse_port_tail of
        Some m \<Rightarrow> Some m
      | None \<Rightarrow> parse_port_tail s)"

text \<open>The value \<^verbatim>\<open>strconv.Atoi\<close> returns beside an ignored error: 0 for no digits, the largest
  \<^verbatim>\<open>int\<close> for too many.\<close>

definition atoi_value :: "string \<Rightarrow> int" where
  "atoi_value digits = min (int (digits_val digits)) (2 ^ 63 - 1)"

definition slot_of :: "string \<Rightarrow> string \<Rightarrow> string \<times> string \<times> string \<Rightarrow> slot" where
  "slot_of source service m =
     (case m of (var, def, container) \<Rightarrow>
        \<lparr>sl_key = var, sl_env_var = var, sl_default = atoi_value def,
         sl_container = atoi_value container, sl_service = service, sl_source = source\<rparr>)"

text \<open>One decoded compose file: its project-relative path and its services with their port lists;
  \<^const>\<open>None\<close> is a file that could not be read or decoded, and is skipped.\<close>

type_synonym compose = "string \<times> (string, string list) gomap option"

fun scan_ports ::
  "string \<Rightarrow> string \<Rightarrow> string list \<Rightarrow> string list \<Rightarrow> slot list \<Rightarrow> string list \<times> slot list" where
  "scan_ports source service [] seen acc = (seen, acc)"
| "scan_ports source service (raw # raws) seen acc =
     (case parse_port_mapping raw of
        None \<Rightarrow> scan_ports source service raws seen acc
      | Some m \<Rightarrow>
          if List.member seen (fst m) then scan_ports source service raws seen acc
          else scan_ports source service raws (fst m # seen) (acc @ [slot_of source service m]))"

fun scan_services ::
  "string \<Rightarrow> (string, string list) gomap \<Rightarrow> string list \<Rightarrow> string list \<Rightarrow> slot list
     \<Rightarrow> string list \<times> slot list" where
  "scan_services source services [] seen acc = (seen, acc)"
| "scan_services source services (n # ns) seen acc =
     (let raws = (case map_of services n of None \<Rightarrow> [] | Some rs \<Rightarrow> rs);
          (seen', acc') = scan_ports source n raws seen acc
      in scan_services source services ns seen' acc')"

fun scan_files ::
  "compose list \<Rightarrow> string list \<Rightarrow> slot list \<Rightarrow> string list \<Rightarrow> string list \<times> slot list \<times> string list" where
  "scan_files [] seen acc services = (seen, acc, services)"
| "scan_files ((source, None) # fs) seen acc services = scan_files fs seen acc services"
| "scan_files ((source, Some ss) # fs) seen acc services =
     (let (seen', acc') = scan_services source ss (sort (keys_of ss)) seen acc
      in scan_files fs seen' acc' (services @ keys_of ss))"

definition slot_less :: "slot \<Rightarrow> slot \<Rightarrow> bool" where
  "slot_less a b =
     (if sl_source a \<noteq> sl_source b then sl_source a < sl_source b
      else if sl_service a \<noteq> sl_service b then sl_service a < sl_service b
      else sl_env_var a < sl_env_var b)"

text \<open>\<^verbatim>\<open>IntrospectSlots\<close>; \<^const>\<open>None\<close> is the refusal of an empty root. \<open>files\<close> are the decoded
  files in the order the code reads them: the infra file, then the sorted bundles.\<close>

definition introspect_slots :: "string \<Rightarrow> compose list \<Rightarrow> (slot list \<times> string list) option" where
  "introspect_slots root files =
     (if root = [] then None
      else (let (_, slots, services) = scan_files files [] [] []
            in Some (sort_slice slot_less slots, sort (remdups services))))"

section \<open>Ports a developer chose\<close>

text \<open>The lines \<^verbatim>\<open>bufio.Scanner\<close> yields: it stops at the first one that does not fit its 64 KiB
  buffer. The trailing empty line and a carriage return are dropped by the trimming below.\<close>

definition scan_lines :: "string \<Rightarrow> string list" where
  "scan_lines s = takeWhile (\<lambda>l. length l < 65536) (split_on nl s)"

definition unquote :: "string \<Rightarrow> string" where
  "unquote v =
     (if length v \<ge> 2 \<and> (hd v = dquote \<or> hd v = squote) \<and> last v = hd v
      then butlast (tl v) else v)"

definition dot_env_line :: "string \<Rightarrow> (string \<times> string) option" where
  "dot_env_line raw =
     (let line = trim_space raw
      in if line = [] \<or> prefix ''#'' line then None
         else (let (k, v, found) = str_cut CHR ''='' (trim_prefix ''export '' line)
               in if \<not> found then None
                  else (let k = trim_space k
                        in if k = [] then None else Some (k, unquote (trim_space v)))))"

definition read_dot_env :: "string option \<Rightarrow> (string, string) gomap" where
  "read_dot_env contents =
     (case contents of
        None \<Rightarrow> []
      | Some s \<Rightarrow>
          fold (\<lambda>l m. case dot_env_line l of None \<Rightarrow> m | Some (k, v) \<Rightarrow> put k v m) (scan_lines s) [])"

definition pinned_value ::
  "(string \<Rightarrow> string option) \<Rightarrow> (string, string) gomap \<Rightarrow> string \<Rightarrow> int option" where
  "pinned_value env from_file key =
     (let raw = (case env key of
          Some v \<Rightarrow> if trim_space v = [] then map_of from_file key else Some v
        | None \<Rightarrow> map_of from_file key)
      in case raw of
           None \<Rightarrow> None
         | Some r \<Rightarrow>
             (case atoi (trim_space r) of
                None \<Rightarrow> None
              | Some n \<Rightarrow> if n \<le> 0 \<or> n > 65535 then None else Some n))"

definition pinned_ports ::
  "(string \<Rightarrow> string option) \<Rightarrow> string option \<Rightarrow> slot list \<Rightarrow> (string, int) gomap" where
  "pinned_ports env dot_env slots =
     fold (\<lambda>s out. case pinned_value env (read_dot_env dot_env) (sl_key s) of
                       None \<Rightarrow> out | Some n \<Rightarrow> put (sl_key s) n out) slots []"

section \<open>The allocator\<close>

text \<open>The operating-system probe: binding every interface on the port fails. \<open>bound\<close> says whether
  something holds the port; the number itself must be a TCP port for a bind to be possible at all.\<close>

definition bind_probe :: "(int \<Rightarrow> bool) \<Rightarrow> int \<Rightarrow> bool" where
  "bind_probe bound port \<longleftrightarrow> port < 0 \<or> port > 65535 \<or> bound port"

record port_pin =
  pin_key :: string
  pin_was :: int
  pin_now :: int
  pin_clash :: string

fun holder_among ::
  "(string, project option) gomap \<Rightarrow> string \<Rightarrow> int \<Rightarrow> string go" where
  "holder_among [] except port = Ret []"
| "holder_among ((n, pr) # rest) except port =
     (if n = except then holder_among rest except port
      else (case pr of
              None \<Rightarrow> Panic
            | Some p \<Rightarrow>
                if list_ex (\<lambda>(_, have). have = port) (pj_ports p) then Ret n
                else holder_among rest except port))"

definition project_holding :: "config \<Rightarrow> string \<Rightarrow> int \<Rightarrow> string go" where
  "project_holding c except port = holder_among (cf_projects c) except port"

text \<open>Honouring the pins, in slot order. \<open>record_pins\<close> is whether a callback takes the report; the
  holder of a clashing port is looked up only for it.\<close>

fun honour_pins ::
  "config \<Rightarrow> string \<Rightarrow> (string, int) gomap \<Rightarrow> bool \<Rightarrow> slot list
     \<Rightarrow> (string, int) gomap \<times> bool \<times> port_pin list \<Rightarrow> ((string, int) gomap \<times> bool \<times> port_pin list) go"
where
  "honour_pins c name pinned record_pins [] st = Ret st"
| "honour_pins c name pinned record_pins (s # ss) (ports, changed, pins) =
     (case map_of pinned (sl_key s) of
        None \<Rightarrow> honour_pins c name pinned record_pins ss (ports, changed, pins)
      | Some port \<Rightarrow>
          if map_of ports (sl_key s) = Some port
          then honour_pins c name pinned record_pins ss (ports, changed, pins)
          else
            (let was = (case map_of ports (sl_key s) of None \<Rightarrow> 0 | Some w \<Rightarrow> w);
                 ports' = put (sl_key s) port ports
             in if record_pins then
                  (case project_holding c name port of
                     Panic \<Rightarrow> Panic
                   | Ret h \<Rightarrow> honour_pins c name pinned record_pins ss
                       (ports', True, pins @ [\<lparr>pin_key = sl_key s, pin_was = was,
                          pin_now = port, pin_clash = h\<rparr>]))
                else honour_pins c name pinned record_pins ss (ports', True, pins)))"

text \<open>The loop \<^verbatim>\<open>for used[next] || portInUse(next)\<close> with the \<^verbatim>\<open>int\<close> it counts in: \<^const>\<open>None\<close> once
  the counter is past the largest \<^verbatim>\<open>int\<close>, where the code's \<^verbatim>\<open>next++\<close> has wrapped round.\<close>

definition max_int :: int where
  "max_int = 2 ^ 63 - 1"

function find_free :: "(int \<Rightarrow> bool) \<Rightarrow> int list \<Rightarrow> int \<Rightarrow> int option" where
  "find_free in_use used next =
     (if max_int < next then None
      else if next \<in> set used \<or> in_use next then find_free in_use used (next + 1)
      else Some next)"
  by pat_completeness auto
termination by (relation "measure (\<lambda>(_, _, next). nat (max_int + 1 - next))") auto

declare find_free.simps [simp del]

fun assign_ports ::
  "(int \<Rightarrow> bool) \<Rightarrow> int list \<Rightarrow> int \<Rightarrow> string list \<Rightarrow> (string, int) gomap \<times> bool
     \<Rightarrow> ((string, int) gomap \<times> bool) option" where
  "assign_ports in_use used next [] st = Some st"
| "assign_ports in_use used next (k # ks) (ports, changed) =
     (if map_of ports k \<noteq> None then assign_ports in_use used next ks (ports, changed)
      else (case find_free in_use used next of
              None \<Rightarrow> None
            | Some port \<Rightarrow>
                assign_ports in_use (port # used) (port + 1) ks (put k port ports, True)))"

text \<open>Every port of every other project; a nil one panics.\<close>

fun ports_of_others :: "(string, project option) gomap \<Rightarrow> string \<Rightarrow> int list go" where
  "ports_of_others [] name = Ret []"
| "ports_of_others ((n, pr) # rest) name =
     (if n = name then ports_of_others rest name
      else (case pr of
              None \<Rightarrow> Panic
            | Some p \<Rightarrow>
                (case ports_of_others rest name of
                   Panic \<Rightarrow> Panic
                 | Ret us \<Rightarrow> Ret (map snd (pj_ports p) @ us))))"

text \<open>\<^verbatim>\<open>allocatePorts\<close>: the registry after the call, whether the project's map changed, and the pins
  reported. The outer option is whether the call returns.\<close>

definition allocate ::
  "(int \<Rightarrow> bool) \<Rightarrow> config \<Rightarrow> string \<Rightarrow> slot list \<Rightarrow> (string, int) gomap \<Rightarrow> bool
     \<Rightarrow> (config \<times> bool \<times> port_pin list) go option" where
  "allocate in_use c name slots pinned record_pins =
     (case map_of (cf_projects c) name of
        None \<Rightarrow> Some (Ret (c, False, []))
      | Some None \<Rightarrow> Some (Ret (c, False, []))
      | Some (Some p) \<Rightarrow>
          (let want = map sl_key slots;
               kept = filter (\<lambda>(k, _). List.member want k) (pj_ports p);
               pruned = list_ex (\<lambda>(k, _). \<not> List.member want k) (pj_ports p)
           in case honour_pins c name pinned record_pins slots (kept, pruned, []) of
                Panic \<Rightarrow> Some Panic
              | Ret (ports, changed, pins) \<Rightarrow>
                  (case ports_of_others (cf_projects c) name of
                     Panic \<Rightarrow> Some Panic
                   | Ret others \<Rightarrow>
                       (case assign_ports in_use (map snd ports @ others) (effective_port_base c)
                           (sort (remdups want)) (ports, changed) of
                          None \<Rightarrow> None
                        | Some (ports', changed') \<Rightarrow>
                            Some (Ret (c\<lparr>cf_projects :=
                                put name (Some (p\<lparr>pj_ports := ports'\<rparr>)) (cf_projects c)\<rparr>,
                              changed', pins))))))"

definition allocate_ports ::
  "(int \<Rightarrow> bool) \<Rightarrow> config \<Rightarrow> string \<Rightarrow> slot list \<Rightarrow> (config \<times> bool) go option" where
  "allocate_ports in_use c name slots =
     map_option (\<lambda>r. case r of Panic \<Rightarrow> Panic | Ret (c', changed, _) \<Rightarrow> Ret (c', changed))
       (allocate in_use c name slots [] False)"

definition allocate_ports_pinned ::
  "(int \<Rightarrow> bool) \<Rightarrow> config \<Rightarrow> string \<Rightarrow> slot list \<Rightarrow> (string, int) gomap
     \<Rightarrow> (config \<times> bool \<times> port_pin list) go option" where
  "allocate_ports_pinned in_use c name slots pinned = allocate in_use c name slots pinned True"

section \<open>The environment of a run\<close>

definition build_up_env :: "project \<Rightarrow> preset option \<Rightarrow> string list" where
  "build_up_env p preset =
     (let ports = map (\<lambda>(k, v). (k, itoa v)) (pj_ports p);
          merged = (case preset of
              None \<Rightarrow> ports
            | Some ps \<Rightarrow> fold (\<lambda>(k, v) m. put k v m) (ps_env ps) ports)
      in map (\<lambda>k. k @ ''='' @ the (map_of merged k)) (sort (keys_of merged)))"

definition preset_services :: "string list \<Rightarrow> preset option \<Rightarrow> string list" where
  "preset_services explicit preset =
     (if explicit \<noteq> [] then explicit
      else (case preset of None \<Rightarrow> [] | Some ps \<Rightarrow> ps_services ps))"

section \<open>The search for a free port\<close>

definition free_from :: "(int \<Rightarrow> bool) \<Rightarrow> int list \<Rightarrow> int \<Rightarrow> int set" where
  "free_from in_use used next = {p. next \<le> p \<and> p \<le> max_int \<and> p \<notin> set used \<and> \<not> in_use p}"

lemma free_from_skip:
  "next \<in> set used \<or> in_use next \<Longrightarrow> free_from in_use used next = free_from in_use used (next + 1)"
  by (auto simp: free_from_def) (metis add_increasing2 order_le_less zless_imp_add1_zle)+

lemma find_free_sound:
  assumes "find_free in_use used next = Some p"
  shows "p \<in> free_from in_use used next \<and> (\<forall>q \<in> free_from in_use used next. p \<le> q)"
  using assms
proof (induction in_use used "next" rule: find_free.induct)
  case (1 in_use used "next")
  show ?case
  proof (cases "next \<in> set used \<or> in_use next")
    case True
    with "1.prems" have "\<not> max_int < next" "find_free in_use used (next + 1) = Some p"
      by (simp_all add: find_free.simps [of in_use used "next"] split: if_splits)
    from "1.IH" [OF this(1) True this(2)] True show ?thesis by (simp add: free_from_skip)
  next
    case False
    with "1.prems" show ?thesis
      by (auto simp: find_free.simps [of in_use used "next"] free_from_def split: if_splits)
  qed
qed

lemma find_free_reaches:
  "free_from in_use used next \<noteq> {} \<Longrightarrow> find_free in_use used next \<noteq> None"
proof (induction in_use used "next" rule: find_free.induct)
  case (1 in_use used "next")
  then have le: "\<not> max_int < next" by (auto simp: free_from_def)
  show ?case
  proof (cases "next \<in> set used \<or> in_use next")
    case True
    with 1 le show ?thesis by (simp add: find_free.simps [of in_use used "next"] free_from_skip)
  next
    case False
    with le show ?thesis by (simp add: find_free.simps [of in_use used "next"])
  qed
qed

lemma find_free_None_iff: "find_free in_use used next = None \<longleftrightarrow> free_from in_use used next = {}"
  using find_free_reaches find_free_sound by (metis equals0D option.exhaust all_not_in_conv)

lemma free_from_after:
  assumes "find_free in_use used next = Some p"
  shows "free_from in_use (p # used) (p + 1) = free_from in_use used next - {p}"
  using find_free_sound [OF assms] by (force simp: free_from_def)

section \<open>Assigning the missing slots\<close>

definition missing :: "(string, int) gomap \<Rightarrow> string list \<Rightarrow> nat" where
  "missing ports ks = length (filter (\<lambda>k. map_of ports k = None) ks)"

lemma finite_free_from [simp]: "finite (free_from in_use used next)"
  by (rule finite_subset [of _ "{next..max_int}"]) (auto simp: free_from_def)

lemma assign_ports_Some_iff:
  assumes "distinct ks"
  shows "assign_ports in_use used next ks (ports, changed) \<noteq> None \<longleftrightarrow>
    missing ports ks \<le> card (free_from in_use used next)"
  using assms
proof (induction ks arbitrary: used "next" ports changed)
  case Nil
  then show ?case by (simp add: missing_def)
next
  case (Cons k ks)
  show ?case
  proof (cases "map_of ports k")
    case (Some v)
    with Cons show ?thesis by (simp add: missing_def)
  next
    case None
    let ?F = "free_from in_use used next"
    have m: "missing (put k p ports) ks = missing ports ks" for p
      using Cons.prems by (auto simp: missing_def intro!: arg_cong [where f = length] filter_cong)
    have M: "missing ports (k # ks) = Suc (missing ports ks)" using None by (simp add: missing_def)
    show ?thesis
    proof (cases "find_free in_use used next")
      case F: None
      with None have "?F = {}" by (simp add: find_free_None_iff)
      then show ?thesis using None F M by simp
    next
      case (Some p)
      have p: "p \<in> ?F" using find_free_sound [OF Some] by blast
      note F' = free_from_after [OF Some]
      have "assign_ports in_use used next (k # ks) (ports, changed) \<noteq> None \<longleftrightarrow>
          missing ports ks \<le> card (?F - {p})"
        using None Some Cons.IH [of "p # used" "p + 1" "put k p ports" True] Cons.prems m F' by simp
      also have "\<dots> \<longleftrightarrow> Suc (missing ports ks) \<le> card ?F"
        using card_Suc_Diff1 [OF finite_free_from p] by linarith
      finally show ?thesis using M by simp
    qed
  qed
qed

text \<open>What an assignment leaves behind: nothing it found is moved, and what it adds is free, unused
  and pairwise different.\<close>

definition fresh_extension ::
  "(int \<Rightarrow> bool) \<Rightarrow> int list \<Rightarrow> int \<Rightarrow> (string, int) gomap \<Rightarrow> (string, int) gomap \<Rightarrow> bool" where
  "fresh_extension in_use used next ports ports' \<longleftrightarrow>
     (\<forall>k v. map_of ports k = Some v \<longrightarrow> map_of ports' k = Some v) \<and>
     (\<forall>k v. map_of ports k = None \<longrightarrow> map_of ports' k = Some v \<longrightarrow> v \<in> free_from in_use used next) \<and>
     (\<forall>k l v. map_of ports k = None \<longrightarrow> map_of ports l = None \<longrightarrow>
        map_of ports' k = Some v \<longrightarrow> map_of ports' l = Some v \<longrightarrow> k = l)"

lemma fresh_extension_put:
  assumes ext: "fresh_extension in_use used' next' (put k p ports) ports'"
    and new: "map_of ports k = None" and p: "p \<in> free_from in_use used next"
    and less: "free_from in_use used' next' = free_from in_use used next - {p}"
  shows "fresh_extension in_use used next ports ports'"
proof -
  have e1: "map_of (put k p ports) l = Some v \<Longrightarrow> map_of ports' l = Some v" for l v
    using ext unfolding fresh_extension_def by blast
  have e2: "map_of (put k p ports) l = None \<Longrightarrow> map_of ports' l = Some v \<Longrightarrow>
      v \<in> free_from in_use used' next'" for l v
    using ext unfolding fresh_extension_def by blast
  have e3: "map_of (put k p ports) l = None \<Longrightarrow> map_of (put k p ports) l' = None \<Longrightarrow>
      map_of ports' l = Some v \<Longrightarrow> map_of ports' l' = Some v \<Longrightarrow> l = l'" for l l' v
    using ext unfolding fresh_extension_def by blast
  have k: "map_of ports' k = Some p" by (rule e1) simp
  have old: "map_of ports' l = Some v" if "map_of ports l = Some v" for l v
    by (rule e1) (use that new in auto)
  have others: "v \<in> free_from in_use used next - {p}"
    if "l \<noteq> k" "map_of ports l = None" "map_of ports' l = Some v" for l v
    unfolding less [symmetric] by (rule e2 [of l]) (use that in simp_all)
  have inj: "l = l'" if "l \<noteq> k" "l' \<noteq> k" "map_of ports l = None" "map_of ports l' = None"
      "map_of ports' l = Some v" "map_of ports' l' = Some v" for l l' v
    by (rule e3 [of l l' v]) (use that in simp_all)
  have "v \<in> free_from in_use used next" if "map_of ports l = None" "map_of ports' l = Some v" for l v
    using others [OF _ that] k p that by (cases "l = k") auto
  moreover have "l = l'" if "map_of ports l = None" "map_of ports l' = None"
      "map_of ports' l = Some v" "map_of ports' l' = Some v" for l l' v
  proof (cases "l = k \<or> l' = k")
    case True
    then have "v = p" using that k by auto
    then show ?thesis using True others [of l v] others [of l' v] that by auto
  next
    case False
    then show ?thesis using inj [of l l' v] that by blast
  qed
  ultimately show ?thesis using old unfolding fresh_extension_def by blast
qed

lemma assign_ports_fresh:
  assumes "assign_ports in_use used next ks (ports, changed) = Some (ports', changed')" and "wf_map ports"
  shows "fresh_extension in_use used next ports ports' \<and> wf_map ports' \<and>
    fst ` set ports' = fst ` set ports \<union> set ks \<and>
    changed' = (changed \<or> (\<exists>k \<in> set ks. map_of ports k = None))"
  using assms
proof (induction ks arbitrary: used "next" ports changed)
  case Nil
  then show ?case by (simp add: fresh_extension_def)
next
  case (Cons k ks)
  show ?case
  proof (cases "map_of ports k")
    case (Some v)
    then have "k \<in> fst ` set ports" by (metis map_of_in_keys list.set_map)
    with Some Cons show ?thesis by auto
  next
    case None
    with Cons.prems obtain p where p: "find_free in_use used next = Some p"
      and rest: "assign_ports in_use (p # used) (p + 1) ks (put k p ports, True) = Some (ports', changed')"
      by (auto split: option.splits)
    have pF: "p \<in> free_from in_use used next" using find_free_sound [OF p] by blast
    note F' = free_from_after [OF p]
    have IH: "fresh_extension in_use (p # used) (p + 1) (put k p ports) ports'" "wf_map ports'"
      "fst ` set ports' = insert k (fst ` set ports) \<union> set ks" changed'
      using Cons.IH [OF rest] Cons.prems(2) by simp_all
    have "fresh_extension in_use used next ports ports'"
      by (rule fresh_extension_put [OF IH(1) None pF F'])
    with IH None show ?thesis by auto
  qed
qed

lemma fresh_extension_old:
  "fresh_extension in_use used next ports ports' \<Longrightarrow> map_of ports k = Some v \<Longrightarrow> map_of ports' k = Some v"
  unfolding fresh_extension_def by blast

lemma fresh_extension_new:
  "fresh_extension in_use used next ports ports' \<Longrightarrow> map_of ports k = None \<Longrightarrow>
     map_of ports' k = Some v \<Longrightarrow> v \<in> free_from in_use used next"
  unfolding fresh_extension_def by blast

lemma fresh_extension_inj:
  "fresh_extension in_use used next ports ports' \<Longrightarrow> map_of ports k = None \<Longrightarrow> map_of ports l = None \<Longrightarrow>
     map_of ports' k = Some v \<Longrightarrow> map_of ports' l = Some v \<Longrightarrow> k = l"
  unfolding fresh_extension_def by blast

section \<open>The allocator as a whole\<close>

definition port_at :: "config \<Rightarrow> string \<Rightarrow> string \<Rightarrow> int option" where
  "port_at c n k =
     (case map_of (cf_projects c) n of Some (Some p) \<Rightarrow> map_of (pj_ports p) k | _ \<Rightarrow> None)"

text \<open>The maps of a registry are maps, and no port is handed out twice on the machine.\<close>

definition wf_registry :: "config \<Rightarrow> bool" where
  "wf_registry c \<longleftrightarrow> wf_map (cf_projects c) \<and>
     (\<forall>n p. map_of (cf_projects c) n = Some (Some p) \<longrightarrow> wf_map (pj_ports p))"

definition ports_unique :: "config \<Rightarrow> bool" where
  "ports_unique c \<longleftrightarrow>
     (\<forall>n k m l v. port_at c n k = Some v \<longrightarrow> port_at c m l = Some v \<longrightarrow> n = m \<and> k = l)"

lemma ports_of_others_set:
  "ports_of_others ps name = Ret us \<Longrightarrow>
     v \<in> set us \<longleftrightarrow> (\<exists>n p k. (n, Some p) \<in> set ps \<and> n \<noteq> name \<and> (k, v) \<in> set (pj_ports p))"
proof (induction ps arbitrary: us)
  case Nil
  then show ?case by simp
next
  case (Cons x ps)
  obtain n pr where x: "x = (n, pr)" by (cases x)
  show ?case
  proof (cases "n = name")
    case True
    with Cons x show ?thesis by auto
  next
    case False
    with Cons.prems x obtain p us' where pr: "pr = Some p" and us': "ports_of_others ps name = Ret us'"
      and us: "us = map snd (pj_ports p) @ us'"
      by (auto split: option.splits go.splits)
    show ?thesis using Cons.IH [OF us'] us x pr False by (force simp: image_iff)
  qed
qed

lemma ports_of_others_total:
  "\<not> list_ex (\<lambda>(_, p). p = None) ps \<Longrightarrow> \<exists>us. ports_of_others ps name = Ret us"
  by (induction ps) (auto split: option.splits)

lemma port_at_Some:
  "port_at c n k = Some v \<longleftrightarrow>
     (\<exists>p. map_of (cf_projects c) n = Some (Some p) \<and> map_of (pj_ports p) k = Some v)"
  by (auto simp: port_at_def split: option.splits)

lemma in_ports_of_others:
  assumes "wf_registry c" and "ports_of_others (cf_projects c) name = Ret us"
  shows "v \<in> set us \<longleftrightarrow> (\<exists>n k. n \<noteq> name \<and> port_at c n k = Some v)"
proof -
  have wf: "wf_map (cf_projects c)" using assms(1) by (simp add: wf_registry_def)
  have entry: "(n, Some p) \<in> set (cf_projects c) \<longleftrightarrow> map_of (cf_projects c) n = Some (Some p)" for n p
    by (simp add: map_of_eq_Some_iff [OF wf])
  have port: "(k, v) \<in> set (pj_ports p) \<longleftrightarrow> map_of (pj_ports p) k = Some v"
    if "map_of (cf_projects c) n = Some (Some p)" for n p k
    using that assms(1) map_of_eq_Some_iff [of "pj_ports p" k v] by (auto simp: wf_registry_def)
  show ?thesis
    unfolding ports_of_others_set [OF assms(2)] entry port_at_Some using port by blast
qed

definition kept_ports :: "project \<Rightarrow> slot list \<Rightarrow> (string, int) gomap" where
  "kept_ports p slots = filter (\<lambda>(k, _). List.member (map sl_key slots) k) (pj_ports p)"

definition prunes :: "project \<Rightarrow> slot list \<Rightarrow> bool" where
  "prunes p slots \<longleftrightarrow> list_ex (\<lambda>(k, _). \<not> List.member (map sl_key slots) k) (pj_ports p)"

definition slot_keys :: "slot list \<Rightarrow> string list" where
  "slot_keys slots = sort (remdups (map sl_key slots))"

definition with_ports :: "config \<Rightarrow> string \<Rightarrow> project \<Rightarrow> (string, int) gomap \<Rightarrow> config" where
  "with_ports c name p ports =
     c\<lparr>cf_projects := put name (Some (p\<lparr>pj_ports := ports\<rparr>)) (cf_projects c)\<rparr>"

lemma slot_keys_set [simp]: "set (slot_keys slots) = sl_key ` set slots"
  by (simp add: slot_keys_def)

lemma slot_keys_distinct [simp]: "distinct (slot_keys slots)"
  by (simp add: slot_keys_def)

lemma wf_kept [simp]: "wf_map (pj_ports p) \<Longrightarrow> wf_map (kept_ports p slots)"
  by (simp add: kept_ports_def)

lemma map_of_filter_key: "map_of (filter (\<lambda>(k, _). P k) m) k = (if P k then map_of m k else None)"
  by (induction m) auto

lemma map_of_kept:
  "map_of (kept_ports p slots) k = (if k \<in> sl_key ` set slots then map_of (pj_ports p) k else None)"
  by (simp add: kept_ports_def map_of_filter_key)

lemma kept_subset: "fst ` set (kept_ports p slots) \<subseteq> sl_key ` set slots"
  by (auto simp: kept_ports_def)

lemma honour_no_pins [simp]: "honour_pins c name [] r slots st = Ret st"
  by (cases st; induction slots) auto

lemma allocate_ports_eq:
  assumes "map_of (cf_projects c) name = Some (Some p)"
  shows "allocate_ports in_use c name slots =
    (case ports_of_others (cf_projects c) name of
       Panic \<Rightarrow> Some Panic
     | Ret others \<Rightarrow>
         map_option (\<lambda>(ports, changed). Ret (with_ports c name p ports, changed))
           (assign_ports in_use (map snd (kept_ports p slots) @ others) (effective_port_base c)
             (slot_keys slots) (kept_ports p slots, prunes p slots)))"
  using assms
  by (auto simp: allocate_ports_def allocate_def kept_ports_def prunes_def slot_keys_def with_ports_def
      Let_def split: go.split option.split)

lemma allocate_ports_unregistered:
  "\<forall>p. map_of (cf_projects c) name \<noteq> Some (Some p) \<Longrightarrow>
     allocate_ports in_use c name slots = Some (Ret (c, False))"
  by (auto simp: allocate_ports_def allocate_def split: option.splits)

lemma port_at_with_ports:
  "port_at (with_ports c name p ports) n k = (if n = name then map_of ports k else port_at c n k)"
  by (simp add: port_at_def with_ports_def)

lemma wf_registry_with_ports:
  "wf_registry c \<Longrightarrow> wf_map ports \<Longrightarrow> wf_registry (with_ports c name p ports)"
  by (simp add: wf_registry_def with_ports_def)

text \<open>Everything the allocator promises of one call on a registered project, over the ports it found
  and the ports it left.\<close>

lemma allocate_ports_result:
  assumes wf: "wf_registry c" and p: "map_of (cf_projects c) name = Some (Some p)"
    and res: "allocate_ports in_use c name slots = Some (Ret (c', changed))"
  obtains ports others where
    "c' = with_ports c name p ports" and "wf_map ports"
    and "ports_of_others (cf_projects c) name = Ret others"
    and "fresh_extension in_use (map snd (kept_ports p slots) @ others) (effective_port_base c)
        (kept_ports p slots) ports"
    and "fst ` set ports = sl_key ` set slots"
    and "changed = (prunes p slots \<or> (\<exists>k \<in> sl_key ` set slots. map_of (pj_ports p) k = None))"
proof -
  from p wf have "wf_map (pj_ports p)" by (auto simp: wf_registry_def)
  then have kept: "wf_map (kept_ports p slots)" by simp
  from res obtain others ports where o: "ports_of_others (cf_projects c) name = Ret others"
    and a: "assign_ports in_use (map snd (kept_ports p slots) @ others) (effective_port_base c)
        (slot_keys slots) (kept_ports p slots, prunes p slots) = Some (ports, changed)"
    and c': "c' = with_ports c name p ports"
    by (auto simp: allocate_ports_eq [OF p] split: go.splits)
  from assign_ports_fresh [OF a kept] kept_subset [of p slots] show ?thesis
    by (intro that [OF c' _ o]) (auto simp: map_of_kept)
qed

lemma allocate_ports_props:
  assumes wf: "wf_registry c" and p: "map_of (cf_projects c) name = Some (Some p)"
    and res: "allocate_ports in_use c name slots = Some (Ret (c', changed))"
  shows "wf_registry c'"
    and "n \<noteq> name \<Longrightarrow> map_of (cf_projects c') n = map_of (cf_projects c) n"
    and "(\<exists>v. port_at c' name k = Some v) \<longleftrightarrow> k \<in> sl_key ` set slots"
    and "port_at c name k = Some v \<Longrightarrow> k \<in> sl_key ` set slots \<Longrightarrow> port_at c' name k = Some v"
    and "port_at c name k = None \<Longrightarrow> port_at c' name k = Some v \<Longrightarrow>
      effective_port_base c \<le> v \<and> \<not> in_use v \<and>
      (\<forall>m l. port_at c' m l = Some v \<longrightarrow> m = name \<and> l = k)"
proof -
  obtain ports others where c': "c' = with_ports c name p ports" and wfp: "wf_map ports"
    and o: "ports_of_others (cf_projects c) name = Ret others"
    and ext: "fresh_extension in_use (map snd (kept_ports p slots) @ others) (effective_port_base c)
        (kept_ports p slots) ports"
    and keys: "fst ` set ports = sl_key ` set slots"
    by (rule allocate_ports_result [OF assms])
  have old: "port_at c name k = map_of (pj_ports p) k" for k using p by (simp add: port_at_def)
  have new: "port_at c' name k = map_of ports k" for k by (simp add: c' port_at_with_ports)
  show "wf_registry c'" using wf wfp by (simp add: c' wf_registry_with_ports)
  show "n \<noteq> name \<Longrightarrow> map_of (cf_projects c') n = map_of (cf_projects c) n"
    by (simp add: c' with_ports_def)
  show "(\<exists>v. port_at c' name k = Some v) \<longleftrightarrow> k \<in> sl_key ` set slots"
    unfolding new keys [symmetric] by (metis in_keys_map_of list.set_map map_of_in_keys)
  show "port_at c name k = Some v \<Longrightarrow> k \<in> sl_key ` set slots \<Longrightarrow> port_at c' name k = Some v"
    unfolding old new by (rule fresh_extension_old [OF ext]) (simp add: map_of_kept)
  assume none: "port_at c name k = None" and some: "port_at c' name k = Some v"
  then have kn: "map_of (kept_ports p slots) k = None" and ks: "map_of ports k = Some v"
    by (simp_all add: old new map_of_kept)
  have free: "v \<in> free_from in_use (map snd (kept_ports p slots) @ others) (effective_port_base c)"
    by (rule fresh_extension_new [OF ext kn ks])
  have "m = name \<and> l = k" if ml: "port_at c' m l = Some v" for m l
  proof (cases "m = name")
    case True
    with ml have l: "map_of ports l = Some v" by (simp add: new)
    show ?thesis
    proof (cases "map_of (kept_ports p slots) l")
      case None
      from fresh_extension_inj [OF ext this kn l ks] True show ?thesis by simp
    next
      case (Some w)
      from fresh_extension_old [OF ext this] l have "w = v" by simp
      with Some have "(l, v) \<in> set (kept_ports p slots)" by (simp add: map_of_SomeD)
      then have "v \<in> set (map snd (kept_ports p slots))" by force
      with free show ?thesis by (simp add: free_from_def)
    qed
  next
    case False
    with ml have "port_at c m l = Some v" by (simp add: c' port_at_with_ports)
    with False have "v \<in> set others" using in_ports_of_others [OF wf o] by blast
    with free show ?thesis by (simp add: free_from_def)
  qed
  with free show "effective_port_base c \<le> v \<and> \<not> in_use v \<and>
      (\<forall>m l. port_at c' m l = Some v \<longrightarrow> m = name \<and> l = k)"
    by (auto simp: free_from_def)
qed

lemma put_same: "map_of m k = Some v \<Longrightarrow> put k v m = m"
  by (induction m) (auto split: if_splits)

lemma assign_ports_none_missing:
  "\<forall>k \<in> set ks. map_of ports k \<noteq> None \<Longrightarrow> assign_ports in_use used next ks (ports, changed) = Some (ports, changed)"
  by (induction ks) auto

section \<open>Properties of the allocator\<close>

text \<open>C28: what one \<^verbatim>\<open>AllocatePorts\<close> does to a registered project. Afterwards its ports are exactly
  the slots asked for; a slot that had a port keeps it; every other slot gets a port at or above the
  port base that nothing is bound to and that no other slot of any project holds; no other project is
  touched.\<close>

theorem allocate_ports_correct:
  assumes "wf_registry c" and "map_of (cf_projects c) name = Some (Some p)"
    and "allocate_ports in_use c name slots = Some (Ret (c', changed))"
  shows "{k. port_at c' name k \<noteq> None} = sl_key ` set slots
    \<and> (\<forall>k \<in> sl_key ` set slots. port_at c name k \<noteq> None \<longrightarrow> port_at c' name k = port_at c name k)
    \<and> (\<forall>k v. port_at c name k = None \<longrightarrow> port_at c' name k = Some v \<longrightarrow>
         effective_port_base c \<le> v \<and> \<not> in_use v \<and>
         (\<forall>m l. port_at c' m l = Some v \<longrightarrow> m = name \<and> l = k))
    \<and> (\<forall>n. n \<noteq> name \<longrightarrow> map_of (cf_projects c') n = map_of (cf_projects c) n)"
  using allocate_ports_props [OF assms] by (auto simp: set_eq_iff)

definition plain_slot :: "string \<Rightarrow> slot" where
  "plain_slot k = \<lparr>sl_key = k, sl_env_var = k, sl_default = 0, sl_container = 8080,
     sl_service = ''svc'', sl_source = ''compose.w17.yaml''\<rparr>"

definition shared_machine :: config where
  "shared_machine = fresh_config\<lparr>cf_projects :=
     [(''shop'', Some ((sample_project ''/w/shop'')\<lparr>pj_ports := [(''DB'', 14000)]\<rparr>)),
      (''blog'', Some ((sample_project ''/w/blog'')\<lparr>pj_ports := [(''OLD'', 14001), (''WEB'', 14002)]\<rparr>))]\<rparr>"

lemma shared_machine_ok: "wf_registry shared_machine"
    "map_of (cf_projects shared_machine) ''blog''
      = Some (Some ((sample_project ''/w/blog'')\<lparr>pj_ports := [(''OLD'', 14001), (''WEB'', 14002)]\<rparr>))"
  by (auto simp: wf_registry_def shared_machine_def fresh_config_def split: if_splits)

definition blog_ports :: "(int \<Rightarrow> bool) \<Rightarrow> (config \<times> bool) go option" where
  "blog_ports in_use = allocate_ports in_use shared_machine ''blog'' [plain_slot ''WEB'', plain_slot ''API'']"

lemma blog_ports_result:
  "blog_ports (\<lambda>p. p = 14001) = Some (Ret (with_ports shared_machine ''blog''
     ((sample_project ''/w/blog'')\<lparr>pj_ports := [(''OLD'', 14001), (''WEB'', 14002)]\<rparr>)
     [(''WEB'', 14002), (''API'', 14003)], True))"
  by (simp add: blog_ports_def allocate_ports_def allocate_def with_ports_def plain_slot_def
      shared_machine_def fresh_config_def effective_port_base_def default_port_base_def
      find_free.simps max_int_def sample_project_def)

theorem allocate_ports_correct_witness:
  "\<exists>c'. blog_ports (\<lambda>p. p = 14001) = Some (Ret (c', True))
    \<and> {k. port_at c' ''blog'' k \<noteq> None} = {''WEB'', ''API''}
    \<and> port_at c' ''blog'' ''WEB'' = Some 14002
    \<and> (\<forall>v. port_at c' ''blog'' ''API'' = Some v \<longrightarrow> 14000 \<le> v \<and> v \<noteq> 14001)"
proof -
  from blog_ports_result obtain c' where c': "blog_ports (\<lambda>p. p = 14001) = Some (Ret (c', True))" by blast
  have old: "port_at shared_machine ''blog'' ''WEB'' = Some 14002" "port_at shared_machine ''blog'' ''API'' = None"
    by (simp_all add: port_at_def shared_machine_def)
  have base: "effective_port_base shared_machine = 14000"
    by (simp add: effective_port_base_def shared_machine_def fresh_config_def default_port_base_def)
  from allocate_ports_correct [OF shared_machine_ok c' [unfolded blog_ports_def]] c' old base
  show ?thesis by (auto simp: plain_slot_def)
qed

definition two_projects :: config where
  "two_projects = fresh_config\<lparr>cf_projects :=
     [(''shop'', Some (sample_project ''/w/shop'')), (''blog'', Some (sample_project ''/w/blog''))]\<rparr>"

text \<open>Allocation is idempotent. Asking again for the same slots, whatever is bound by then,
  changes nothing and reports no change.\<close>

theorem allocate_ports_idempotent:
  assumes "wf_registry c" and "allocate_ports in_use c name slots = Some (Ret (c', changed))"
  shows "allocate_ports in_use' c' name slots = Some (Ret (c', False))"
proof (cases "\<exists>p. map_of (cf_projects c) name = Some (Some p)")
  case False
  then show ?thesis
    using assms(2) allocate_ports_unregistered [of c name in_use slots]
      allocate_ports_unregistered [of c name in_use' slots] by auto
next
  case True
  then obtain p where p: "map_of (cf_projects c) name = Some (Some p)" by blast
  obtain ports others where c': "c' = with_ports c name p ports"
    and o: "ports_of_others (cf_projects c) name = Ret others"
    and keys: "fst ` set ports = sl_key ` set slots"
    by (rule allocate_ports_result [OF assms(1) p assms(2)])
  let ?p = "p\<lparr>pj_ports := ports\<rparr>"
  have p': "map_of (cf_projects c') name = Some (Some ?p)" by (simp add: c' with_ports_def)
  have "\<forall>x \<in> set ports. fst x \<in> sl_key ` set slots" using keys by blast
  then have kept: "kept_ports ?p slots = ports" "\<not> prunes ?p slots"
    by (auto simp: kept_ports_def prunes_def list_ex_iff filter_id_conv)
  have all: "\<forall>k \<in> set (slot_keys slots). map_of ports k \<noteq> None"
    using keys by (simp add: map_of_eq_None_iff)
  have "ports_of_others (put name v ps) name = ports_of_others ps name" for v ps
    by (induction ps) (auto split: option.split)
  then have o': "ports_of_others (cf_projects c') name = Ret others" using o by (simp add: c' with_ports_def)
  have same: "with_ports c' name ?p ports = c'"
    using put_same [OF p'] by (simp add: with_ports_def)
  show ?thesis
    by (simp add: allocate_ports_eq [OF p'] o' kept assign_ports_none_missing [OF all] same)
qed

theorem allocate_ports_idempotent_witness:
  "\<exists>c'. blog_ports (\<lambda>p. p = 14001) = Some (Ret (c', True))
    \<and> allocate_ports (\<lambda>_. True) c' ''blog'' [plain_slot ''WEB'', plain_slot ''API''] = Some (Ret (c', False))"
  using blog_ports_result
    allocate_ports_idempotent [OF shared_machine_ok(1) blog_ports_result [unfolded blog_ports_def]]
  by blast

section \<open>When the allocator returns\<close>

text \<open>The ports a call may still hand out: real TCP ports at or above the base that nothing is bound
  to, no other project holds and no kept slot of this one holds.\<close>

definition grantable :: "(int \<Rightarrow> bool) \<Rightarrow> config \<Rightarrow> string \<Rightarrow> slot list \<Rightarrow> int set" where
  "grantable bound c name slots =
     {v. effective_port_base c \<le> v \<and> v \<le> 65535 \<and> \<not> bound v \<and>
         (\<forall>n k. port_at c n k = Some v \<longrightarrow> n = name \<and> k \<notin> sl_key ` set slots)}"

lemma effective_port_base_pos: "0 < effective_port_base c"
  by (simp add: effective_port_base_def default_port_base_def)

lemma values_of_map: "wf_map m \<Longrightarrow> v \<in> snd ` set m \<longleftrightarrow> (\<exists>k. map_of m k = Some v)"
  by (force simp: map_of_eq_Some_iff)

lemma held_logic:
  "\<not> (\<exists>k \<in> K. P name k) \<and> \<not> (\<exists>n k. n \<noteq> name \<and> P n k)
     \<longleftrightarrow> (\<forall>n k. P n k \<longrightarrow> n = name \<and> k \<notin> K)"
  by metis

lemma free_from_grantable:
  assumes wf: "wf_registry c" and p: "map_of (cf_projects c) name = Some (Some p)"
    and o: "ports_of_others (cf_projects c) name = Ret others"
  shows "free_from (bind_probe bound) (map snd (kept_ports p slots) @ others) (effective_port_base c)
    = grantable bound c name slots"
proof -
  have own: "port_at c name k = map_of (pj_ports p) k" for k using p by (simp add: port_at_def)
  have "wf_map (pj_ports p)" using wf p by (auto simp: wf_registry_def)
  then have kept: "v \<in> snd ` set (kept_ports p slots)
      \<longleftrightarrow> (\<exists>k \<in> sl_key ` set slots. port_at c name k = Some v)" for v
    by (auto simp: values_of_map map_of_kept own split: if_splits)
  have held: "v \<notin> snd ` set (kept_ports p slots) \<and> v \<notin> set others
      \<longleftrightarrow> (\<forall>n k. port_at c n k = Some v \<longrightarrow> n = name \<and> k \<notin> sl_key ` set slots)" for v
    unfolding kept in_ports_of_others [OF wf o] by (rule held_logic)
  have probe: "effective_port_base c \<le> v \<Longrightarrow> \<not> bind_probe bound v \<longleftrightarrow> v \<le> 65535 \<and> \<not> bound v" for v
    using effective_port_base_pos [of c] by (auto simp: bind_probe_def)
  have "v \<in> free_from (bind_probe bound) (map snd (kept_ports p slots) @ others) (effective_port_base c)
      \<longleftrightarrow> effective_port_base c \<le> v \<and> \<not> bind_probe bound v \<and>
        (v \<notin> snd ` set (kept_ports p slots) \<and> v \<notin> set others)" for v
    by (auto simp: free_from_def bind_probe_def max_int_def)
  then show ?thesis unfolding grantable_def held [symmetric] using probe by blast
qed

text \<open>C27: \<^verbatim>\<open>AllocatePorts\<close> returns before the counter of its search leaves the range of \<^verbatim>\<open>int\<close> exactly
  when there are as many grantable ports between the port base and 65535 as slots without one. When
  that band runs out, the probe calls every higher number bound: the call does not fail, it goes on
  probing through all the integers above.\<close>

theorem allocate_returns_iff_enough_ports:
  assumes "wf_registry c" and "\<not> has_nil_project c"
    and "map_of (cf_projects c) name = Some (Some p)"
  shows "allocate_ports (bind_probe bound) c name slots \<noteq> None
    \<longleftrightarrow> card {k \<in> sl_key ` set slots. port_at c name k = None} \<le> card (grantable bound c name slots)"
proof -
  obtain others where o: "ports_of_others (cf_projects c) name = Ret others"
    using ports_of_others_total assms(2) unfolding has_nil_project_def by blast
  let ?F = "free_from (bind_probe bound) (map snd (kept_ports p slots) @ others) (effective_port_base c)"
  have F: "?F = grantable bound c name slots" by (rule free_from_grantable [OF assms(1,3) o])
  have own: "port_at c name k = map_of (pj_ports p) k" for k using assms(3) by (simp add: port_at_def)
  have "missing (kept_ports p slots) (slot_keys slots)
      = card (set (filter (\<lambda>k. map_of (kept_ports p slots) k = None) (slot_keys slots)))"
    unfolding missing_def by (rule distinct_card [symmetric]) simp
  also have "set (filter (\<lambda>k. map_of (kept_ports p slots) k = None) (slot_keys slots))
      = {k \<in> sl_key ` set slots. port_at c name k = None}"
    by (auto simp: map_of_kept own)
  finally have m: "missing (kept_ports p slots) (slot_keys slots)
      = card {k \<in> sl_key ` set slots. port_at c name k = None}" .
  have "allocate_ports (bind_probe bound) c name slots \<noteq> None \<longleftrightarrow>
      assign_ports (bind_probe bound) (map snd (kept_ports p slots) @ others) (effective_port_base c)
        (slot_keys slots) (kept_ports p slots, prunes p slots) \<noteq> None"
    by (simp add: allocate_ports_eq [OF assms(3)] o)
  also have "\<dots> \<longleftrightarrow> missing (kept_ports p slots) (slot_keys slots) \<le> card ?F"
    by (rule assign_ports_Some_iff) simp
  finally show ?thesis by (simp add: F m)
qed

text \<open>A port base with one port left above it: one slot is served, two run out of integers.\<close>

definition last_port_machine :: config where
  "last_port_machine = two_projects\<lparr>cf_port_base := 65535\<rparr>"

theorem allocate_returns_iff_enough_ports_witness:
  "allocate_ports (bind_probe (\<lambda>_. False)) last_port_machine ''shop'' [plain_slot ''A''] \<noteq> None
   \<and> allocate_ports (bind_probe (\<lambda>_. False)) last_port_machine ''shop''
       [plain_slot ''A'', plain_slot ''B''] = None"
proof -
  have ok: "wf_registry last_port_machine" "\<not> has_nil_project last_port_machine"
    "map_of (cf_projects last_port_machine) ''shop'' = Some (Some (sample_project ''/w/shop''))"
    by (auto simp: wf_registry_def has_nil_project_def last_port_machine_def two_projects_def
        sample_project_def split: if_splits)
  have none: "port_at last_port_machine n k = None" for n k
    by (simp add: port_at_def last_port_machine_def two_projects_def sample_project_def)
  have base: "effective_port_base last_port_machine = 65535"
    by (simp add: effective_port_base_def last_port_machine_def)
  have "grantable (\<lambda>_. False) last_port_machine ''shop'' slots = {65535}" for slots
    by (auto simp: grantable_def none base)
  moreover have "{k. k = ''A'' \<or> k = ''B''} = {''A'', ''B''}" by auto
  ultimately show ?thesis
    using allocate_returns_iff_enough_ports [OF ok, of "\<lambda>_. False" "[plain_slot ''A'']"]
      allocate_returns_iff_enough_ports [OF ok, of "\<lambda>_. False" "[plain_slot ''A'', plain_slot ''B'']"]
    by (simp add: none plain_slot_def card_insert_if)
qed

section \<open>Pins\<close>

lemma honour_pins_ports:
  assumes "honour_pins c name pinned rec slots (ports, ch, pins) = Ret (ports', ch', pins')"
    and "wf_map ports"
  shows "wf_map ports' \<and> (\<forall>k. map_of ports' k =
    (if k \<in> sl_key ` set slots \<and> map_of pinned k \<noteq> None then map_of pinned k else map_of ports k))"
  using assms
proof (induction slots arbitrary: ports ch pins)
  case Nil
  then show ?case by simp
next
  case (Cons s ss)
  show ?case
  proof (cases "map_of pinned (sl_key s) = None \<or> map_of ports (sl_key s) = map_of pinned (sl_key s)")
    case True
    with Cons.prems have "honour_pins c name pinned rec ss (ports, ch, pins) = Ret (ports', ch', pins')"
      by (auto split: option.splits)
    from Cons.IH [OF this Cons.prems(2)] True show ?thesis by auto
  next
    case False
    then obtain port where port: "map_of pinned (sl_key s) = Some port"
      and ne: "map_of ports (sl_key s) \<noteq> Some port" by auto
    with Cons.prems obtain ch2 pins2 where
      "honour_pins c name pinned rec ss (put (sl_key s) port ports, ch2, pins2) = Ret (ports', ch', pins')"
      by (auto simp: Let_def split: if_splits go.splits)
    from Cons.IH [OF this] Cons.prems(2) port show ?thesis by auto
  qed
qed

text \<open>A report of a moved slot is true: the developer chose the port, the registry held another one (or
  none), and a named clash really is another project on that port.\<close>

definition pin_true :: "config \<Rightarrow> string \<Rightarrow> (string, int) gomap \<Rightarrow> port_pin \<Rightarrow> bool" where
  "pin_true c name pinned pin \<longleftrightarrow>
     map_of pinned (pin_key pin) = Some (pin_now pin) \<and> pin_was pin \<noteq> pin_now pin \<and>
     (pin_clash pin \<noteq> [] \<longrightarrow> pin_clash pin \<noteq> name \<and>
        (\<exists>p. (pin_clash pin, Some p) \<in> set (cf_projects c) \<and> pin_now pin \<in> snd ` set (pj_ports p)))"

lemma holder_among_true:
  "holder_among ps except port = Ret h \<Longrightarrow> h \<noteq> [] \<Longrightarrow>
     h \<noteq> except \<and> (\<exists>p. (h, Some p) \<in> set ps \<and> port \<in> snd ` set (pj_ports p))"
proof (induction ps)
  case Nil
  then show ?case by simp
next
  case (Cons x ps)
  obtain n pr where x: "x = (n, pr)" by (cases x)
  show ?case
  proof (cases "n = except")
    case True
    with Cons x show ?thesis by auto
  next
    case False
    with Cons.prems x obtain p where pr: "pr = Some p" by (auto split: option.splits)
    show ?thesis
    proof (cases "list_ex (\<lambda>(_, have). have = port) (pj_ports p)")
      case True
      with Cons.prems x pr False have "h = n" by simp
      moreover from True have "port \<in> snd ` set (pj_ports p)" by (force simp: list_ex_iff)
      ultimately show ?thesis using x pr False by auto
    next
      case no: False
      with Cons x pr False show ?thesis by auto
    qed
  qed
qed

lemma honour_pins_reports:
  assumes "honour_pins c name pinned True slots (ports, ch, pins) = Ret (ports', ch', pins')"
    and "\<forall>k v. map_of pinned k = Some v \<longrightarrow> v \<noteq> 0" and "\<forall>pin \<in> set pins. pin_true c name pinned pin"
  shows "\<forall>pin \<in> set pins'. pin_true c name pinned pin"
  using assms
proof (induction slots arbitrary: ports ch pins)
  case Nil
  then show ?case by simp
next
  case (Cons s ss)
  show ?case
  proof (cases "map_of pinned (sl_key s) = None \<or> map_of ports (sl_key s) = map_of pinned (sl_key s)")
    case True
    with Cons.prems have "honour_pins c name pinned True ss (ports, ch, pins) = Ret (ports', ch', pins')"
      by (auto split: option.splits)
    from Cons.IH [OF this Cons.prems(2,3)] show ?thesis .
  next
    case False
    define was where "was = (case map_of ports (sl_key s) of None \<Rightarrow> 0 | Some w \<Rightarrow> w)"
    from False obtain port where port: "map_of pinned (sl_key s) = Some port"
      and ne: "map_of ports (sl_key s) \<noteq> Some port" by auto
    with Cons.prems obtain h where h: "project_holding c name port = Ret h"
      and rest: "honour_pins c name pinned True ss (put (sl_key s) port ports, True,
          pins @ [\<lparr>pin_key = sl_key s, pin_was = was, pin_now = port, pin_clash = h\<rparr>])
        = Ret (ports', ch', pins')"
      by (auto simp: Let_def was_def split: go.splits)
    have "was \<noteq> port" using ne Cons.prems(2) port by (auto simp: was_def split: option.splits)
    then have "pin_true c name pinned \<lparr>pin_key = sl_key s, pin_was = was, pin_now = port, pin_clash = h\<rparr>"
      using port holder_among_true [OF h [unfolded project_holding_def]] by (auto simp: pin_true_def)
    with Cons.IH [OF rest Cons.prems(2)] Cons.prems(3) show ?thesis by auto
  qed
qed

text \<open>After \<^verbatim>\<open>AllocatePortsPinned\<close> every slot the developer chose a port for has exactly that
  port, and every move it reports is true, the project it names as clashing included.\<close>

theorem pins_are_honoured:
  assumes "wf_registry c" and "map_of (cf_projects c) name = Some (Some p)"
    and "\<forall>k v. map_of pinned k = Some v \<longrightarrow> v \<noteq> 0"
    and "allocate_ports_pinned in_use c name slots pinned = Some (Ret (c', changed, pins))"
  shows "(\<forall>k \<in> sl_key ` set slots. map_of pinned k \<noteq> None \<longrightarrow> port_at c' name k = map_of pinned k)
    \<and> (\<forall>pin \<in> set pins. pin_true c name pinned pin)"
proof -
  from assms(1,2) have wf: "wf_map (kept_ports p slots)" by (simp add: wf_registry_def)
  from assms(2,4) obtain ports1 ch1 others ports where
    h: "honour_pins c name pinned True slots (kept_ports p slots, prunes p slots, []) = Ret (ports1, ch1, pins)"
    and a: "assign_ports in_use (map snd ports1 @ others) (effective_port_base c) (slot_keys slots)
        (ports1, ch1) = Some (ports, changed)"
    and c': "c' = with_ports c name p ports"
    by (auto simp: allocate_ports_pinned_def allocate_def Let_def kept_ports_def prunes_def slot_keys_def
        with_ports_def split: go.splits option.splits)
  note hp = honour_pins_ports [OF h wf]
  from assign_ports_fresh [OF a] hp
  have ext: "fresh_extension in_use (map snd ports1 @ others) (effective_port_base c) ports1 ports" by blast
  have "port_at c' name k = map_of pinned k"
    if "k \<in> sl_key ` set slots" and pk: "map_of pinned k \<noteq> None" for k
  proof -
    from pk obtain v where v: "map_of pinned k = Some v" by auto
    with hp that(1) have "map_of ports1 k = Some v" by auto
    from fresh_extension_old [OF ext this] v show ?thesis by (simp add: c' port_at_with_ports)
  qed
  moreover have "\<forall>pin \<in> set pins. pin_true c name pinned pin"
    by (rule honour_pins_reports [OF h assms(3)]) simp
  ultimately show ?thesis by blast
qed

theorem pins_are_honoured_witness:
  "\<exists>c' pin. allocate_ports_pinned (\<lambda>_. False) shared_machine ''blog'' [plain_slot ''WEB''] [(''WEB'', 14000)]
      = Some (Ret (c', True, [pin]))
    \<and> port_at c' ''blog'' ''WEB'' = Some 14000 \<and> pin_clash pin = ''shop''
    \<and> pin_true shared_machine ''blog'' [(''WEB'', 14000)] pin"
proof -
  let ?c = "with_ports shared_machine ''blog''
     ((sample_project ''/w/blog'')\<lparr>pj_ports := [(''OLD'', 14001), (''WEB'', 14002)]\<rparr>) [(''WEB'', 14000)]"
  let ?pin = "\<lparr>pin_key = ''WEB'', pin_was = 14002, pin_now = 14000, pin_clash = ''shop''\<rparr>"
  have run: "allocate_ports_pinned (\<lambda>_. False) shared_machine ''blog'' [plain_slot ''WEB''] [(''WEB'', 14000)]
      = Some (Ret (?c, True, [?pin]))"
    by (simp add: allocate_ports_pinned_def allocate_def with_ports_def plain_slot_def
        shared_machine_def fresh_config_def effective_port_base_def default_port_base_def
        find_free.simps max_int_def sample_project_def project_holding_def)
  have "\<forall>k v. map_of [(''WEB'', 14000 :: int)] k = Some v \<longrightarrow> v \<noteq> 0" by simp
  from pins_are_honoured [OF shared_machine_ok this run] run show ?thesis
    by (auto simp: plain_slot_def)
qed

section \<open>A session of the machine\<close>

text \<open>One allocation after another, for any projects and slots, with and without the ports a developer
  chose, each with whatever the operating system reports at that moment.\<close>

datatype port_call =
    Plain "int \<Rightarrow> bool" string "slot list"
  | Chosen "int \<Rightarrow> bool" string "slot list" "(string, int) gomap"

fun call_registry :: "config \<Rightarrow> port_call \<Rightarrow> config go option" where
  "call_registry c (Plain in_use name slots) =
     map_option (\<lambda>r. case r of Panic \<Rightarrow> Panic | Ret (c', _) \<Rightarrow> Ret c') (allocate_ports in_use c name slots)"
| "call_registry c (Chosen in_use name slots pinned) =
     map_option (\<lambda>r. case r of Panic \<Rightarrow> Panic | Ret (c', _, _) \<Rightarrow> Ret c')
       (allocate_ports_pinned in_use c name slots pinned)"

fun allocate_run :: "config \<Rightarrow> port_call list \<Rightarrow> config go option" where
  "allocate_run c [] = Some (Ret c)"
| "allocate_run c (call # calls) =
     (case call_registry c call of
        None \<Rightarrow> None
      | Some Panic \<Rightarrow> Some Panic
      | Some (Ret c') \<Rightarrow> allocate_run c' calls)"

text \<open>The ports a call was told to use: those a developer chose for one of its slots.\<close>

fun chosen_ports :: "port_call \<Rightarrow> int set" where
  "chosen_ports (Plain _ _ _) = {}"
| "chosen_ports (Chosen _ _ slots pinned) = {v. \<exists>s \<in> set slots. map_of pinned (sl_key s) = Some v}"

definition unique_but :: "int set \<Rightarrow> config \<Rightarrow> bool" where
  "unique_but V c \<longleftrightarrow> (\<forall>n k m l v.
     port_at c n k = Some v \<longrightarrow> port_at c m l = Some v \<longrightarrow> v \<notin> V \<longrightarrow> n = m \<and> k = l)"

lemma allocate_result:
  assumes wf: "wf_registry c" and p: "map_of (cf_projects c) name = Some (Some p)"
    and res: "allocate in_use c name slots pinned r = Some (Ret (c', changed, pins))"
  obtains ports others ports1 where
    "c' = with_ports c name p ports" and "wf_map ports"
    and "ports_of_others (cf_projects c) name = Ret others"
    and "fresh_extension in_use (map snd ports1 @ others) (effective_port_base c) ports1 ports"
    and "\<forall>k. map_of ports1 k = (if k \<in> sl_key ` set slots \<and> map_of pinned k \<noteq> None then map_of pinned k
        else map_of (kept_ports p slots) k)"
proof -
  from wf p have kept: "wf_map (kept_ports p slots)" by (simp add: wf_registry_def)
  from p res obtain ports1 ch1 others ports where
    h: "honour_pins c name pinned r slots (kept_ports p slots, prunes p slots, []) = Ret (ports1, ch1, pins)"
    and o: "ports_of_others (cf_projects c) name = Ret others"
    and a: "assign_ports in_use (map snd ports1 @ others) (effective_port_base c) (slot_keys slots)
        (ports1, ch1) = Some (ports, changed)"
    and c': "c' = with_ports c name p ports"
    by (auto simp: allocate_def Let_def kept_ports_def prunes_def slot_keys_def with_ports_def
        split: go.splits option.splits)
  note hp = honour_pins_ports [OF h kept]
  from assign_ports_fresh [OF a] hp show ?thesis by (intro that [OF c' _ o]) auto
qed

lemma allocate_unregistered:
  "\<forall>p. map_of (cf_projects c) name \<noteq> Some (Some p) \<Longrightarrow>
     allocate in_use c name slots pinned r = Some (Ret (c, False, []))"
  by (auto simp: allocate_def split: option.splits)

text \<open>Where a holding of the registry after a call comes from: it was there before, a developer chose its
  port, or its port is fresh and held nowhere else.\<close>

lemma allocate_holdings:
  assumes wf: "wf_registry c" and p: "map_of (cf_projects c) name = Some (Some p)"
    and res: "allocate in_use c name slots pinned r = Some (Ret (c', changed, pins))"
    and nk: "port_at c' n k = Some v"
  shows "port_at c n k = Some v \<or> (\<exists>s \<in> set slots. map_of pinned (sl_key s) = Some v)
    \<or> (\<forall>m l. port_at c' m l = Some v \<longrightarrow> m = n \<and> l = k)"
proof -
  obtain ports others ports1 where c': "c' = with_ports c name p ports" and "wf_map ports"
    and o: "ports_of_others (cf_projects c) name = Ret others"
    and ext: "fresh_extension in_use (map snd ports1 @ others) (effective_port_base c) ports1 ports"
    and m1: "\<forall>k. map_of ports1 k = (if k \<in> sl_key ` set slots \<and> map_of pinned k \<noteq> None
        then map_of pinned k else map_of (kept_ports p slots) k)"
    by (rule allocate_result [OF wf p res])
  have at: "port_at c' m l = (if m = name then map_of ports l else port_at c m l)" for m l
    by (simp add: c' port_at_with_ports)
  show ?thesis
  proof (cases "n = name")
    case False
    with nk show ?thesis by (simp add: at)
  next
    case n: True
    with nk have k: "map_of ports k = Some v" by (simp add: at)
    show ?thesis
    proof (cases "map_of ports1 k")
      case (Some w)
      from fresh_extension_old [OF ext this] k have "w = v" by simp
      with Some m1 [rule_format, of k] n p show ?thesis by (auto simp: port_at_def map_of_kept split: if_splits)
    next
      case None
      have free: "v \<notin> set (map snd ports1 @ others)"
        using fresh_extension_new [OF ext None k] by (simp add: free_from_def)
      have "m = n \<and> l = k" if ml: "port_at c' m l = Some v" for m l
      proof (cases "m = name")
        case True
        with ml have l: "map_of ports l = Some v" by (simp add: at)
        have "map_of ports1 l = None"
        proof (rule ccontr)
          assume "map_of ports1 l \<noteq> None"
          then obtain w where w: "map_of ports1 l = Some w" by auto
          from fresh_extension_old [OF ext w] l have "w = v" by simp
          with map_of_SomeD [OF w] free show False by force
        qed
        from fresh_extension_inj [OF ext this None l k] True n show ?thesis by simp
      next
        case False
        with ml have "v \<in> set others" using in_ports_of_others [OF wf o] by (auto simp: at)
        with free show ?thesis by simp
      qed
      then show ?thesis by blast
    qed
  qed
qed

lemma allocate_unique_but:
  assumes wf: "wf_registry c" and u: "unique_but V c"
    and res: "allocate in_use c name slots pinned r = Some (Ret (c', changed, pins))"
    and W: "{v. \<exists>s \<in> set slots. map_of pinned (sl_key s) = Some v} \<subseteq> W"
  shows "wf_registry c' \<and> unique_but (V \<union> W) c'"
proof (cases "\<exists>p. map_of (cf_projects c) name = Some (Some p)")
  case False
  then have "c' = c" using res allocate_unregistered [of c name in_use slots pinned r] by auto
  with wf u show ?thesis by (auto simp: unique_but_def)
next
  case True
  then obtain p where p: "map_of (cf_projects c) name = Some (Some p)" by blast
  obtain ports where "c' = with_ports c name p ports" "wf_map ports"
    by (rule allocate_result [OF wf p res]) (rule that)
  then have "wf_registry c'" using wf by (simp add: wf_registry_with_ports)
  moreover have "n = m \<and> k = l"
    if "port_at c' n k = Some v" "port_at c' m l = Some v" "v \<notin> V \<union> W" for n k m l v
    using allocate_holdings [OF wf p res that(1)] allocate_holdings [OF wf p res that(2)] that u W
    unfolding unique_but_def by blast
  ultimately show ?thesis unfolding unique_but_def by blast
qed

lemma call_unique_but:
  assumes "wf_registry c" and "unique_but V c" and "call_registry c call = Some (Ret c')"
  shows "wf_registry c' \<and> unique_but (V \<union> chosen_ports call) c'"
proof (cases call)
  case (Plain in_use name slots)
  with assms(3) obtain ch pins where "allocate in_use c name slots [] False = Some (Ret (c', ch, pins))"
    by (cases "allocate in_use c name slots [] False")
      (auto simp: allocate_ports_def split: go.splits prod.splits)
  from allocate_unique_but [OF assms(1,2) this, of "{}"] Plain show ?thesis by simp
next
  case (Chosen in_use name slots pinned)
  with assms(3) obtain ch pins where "allocate in_use c name slots pinned True = Some (Ret (c', ch, pins))"
    by (cases "allocate in_use c name slots pinned True")
      (auto simp: allocate_ports_pinned_def split: go.splits prod.splits)
  from allocate_unique_but [OF assms(1,2) this order_refl] Chosen show ?thesis by simp
qed

lemma allocate_run_unique:
  "wf_registry c \<Longrightarrow> unique_but V c \<Longrightarrow> allocate_run c calls = Some (Ret c') \<Longrightarrow>
     unique_but (V \<union> \<Union> (chosen_ports ` set calls)) c'"
proof (induction calls arbitrary: c V)
  case Nil
  then show ?case by simp
next
  case (Cons call calls)
  then obtain c1 where c1: "call_registry c call = Some (Ret c1)" and rest: "allocate_run c1 calls = Some (Ret c')"
    by (auto split: option.splits go.splits)
  from call_unique_but [OF Cons.prems(1,2) c1] have "wf_registry c1" "unique_but (V \<union> chosen_ports call) c1"
    by simp_all
  from Cons.IH [OF this rest] show ?case by (simp add: Un_assoc)
qed

text \<open>C3: from a registry in which no two slots share a port, after any session of allocations, plain ones
  and ones with ports a developer chose, for any projects and with any answers of the operating system,
  two slots of the machine share a port only if a developer chose that very port for a slot of one of the
  calls: the allocator by itself never gives a port out twice, next to honoured choices too.\<close>

theorem allocation_never_collides:
  assumes "wf_registry c" and "ports_unique c" and "allocate_run c calls = Some (Ret c')"
    and "port_at c' n k = Some v" and "port_at c' m l = Some v" and "(n, k) \<noteq> (m, l)"
  shows "\<exists>call \<in> set calls. v \<in> chosen_ports call"
proof -
  have "unique_but {} c" using assms(2) by (simp add: unique_but_def ports_unique_def)
  from allocate_run_unique [OF assms(1) this assms(3)] assms(4-6) show ?thesis
    unfolding unique_but_def by blast
qed

text \<open>The blog's WEB slot is chosen to be the port the shop holds; its DB slot gets a free one.\<close>

theorem allocation_never_collides_witness:
  "\<exists>c'. allocate_run two_projects
      [Plain (\<lambda>_. False) ''shop'' [plain_slot ''DB''],
       Chosen (\<lambda>p. p = 14001) ''blog'' [plain_slot ''DB'', plain_slot ''WEB''] [(''WEB'', 14000)]]
        = Some (Ret c')
    \<and> port_at c' ''shop'' ''DB'' = port_at c' ''blog'' ''WEB''
    \<and> 14000 \<in> chosen_ports
        (Chosen (\<lambda>p. p = 14001) ''blog'' [plain_slot ''DB'', plain_slot ''WEB''] [(''WEB'', 14000)])
    \<and> port_at c' ''shop'' ''DB'' \<noteq> port_at c' ''blog'' ''DB''"
proof -
  let ?shop = "Some ((sample_project ''/w/shop'')\<lparr>pj_ports := [(''DB'', 14000)]\<rparr>)"
  let ?blog = "Some ((sample_project ''/w/blog'')\<lparr>pj_ports := [(''WEB'', 14000), (''DB'', 14002)]\<rparr>)"
  let ?c = "two_projects\<lparr>cf_projects := [(''shop'', ?shop), (''blog'', ?blog)]\<rparr>"
  let ?chosen = "Chosen (\<lambda>p. p = 14001) ''blog'' [plain_slot ''DB'', plain_slot ''WEB''] [(''WEB'', 14000)]"
  let ?calls = "[Plain (\<lambda>_. False) ''shop'' [plain_slot ''DB''], ?chosen]"
  have run: "allocate_run two_projects ?calls = Some (Ret ?c)"
    by (simp add: allocate_ports_def allocate_ports_pinned_def allocate_def two_projects_def fresh_config_def
        sample_project_def plain_slot_def effective_port_base_def default_port_base_def find_free.simps
        max_int_def project_holding_def)
  have ok: "wf_registry two_projects" "ports_unique two_projects"
    by (auto simp: wf_registry_def ports_unique_def port_at_def two_projects_def sample_project_def
        split: if_splits)
  have at: "port_at ?c ''shop'' ''DB'' = Some 14000" "port_at ?c ''blog'' ''WEB'' = Some 14000"
    "port_at ?c ''blog'' ''DB'' = Some 14002" by (simp_all add: port_at_def)
  from allocation_never_collides [OF ok run at(1,2)] have "14000 \<in> chosen_ports ?chosen" by simp
  with run at show ?thesis by auto
qed

section \<open>Port mappings\<close>

text \<open>The grammar of the managed mapping, written out: the text a mapping renders to, and the prefixes
  the bind host may take.\<close>

definition mapping_tail :: "string \<Rightarrow> string \<Rightarrow> string \<Rightarrow> string" where
  "mapping_tail var def container =
     ''${'' @ var @ (if def = [] then [] else '':-'' @ def) @ ''}:'' @ container"

definition valid_mapping :: "string \<Rightarrow> string \<Rightarrow> string \<Rightarrow> bool" where
  "valid_mapping var def container \<longleftrightarrow>
     var \<noteq> [] \<and> is_name_start (hd var) \<and> list_all is_name_char var \<and> list_all is_digit def \<and>
     container \<noteq> [] \<and> list_all is_digit container"

inductive bind_prefix :: "string \<Rightarrow> bool" where
  expression: "CHR ''}'' \<notin> set x \<Longrightarrow> bind_prefix (''${'' @ x @ ''}:'')"
| ipv4: "x \<noteq> [] \<Longrightarrow> list_all (\<lambda>c. is_digit c \<or> c = CHR ''.'') x \<Longrightarrow> bind_prefix (x @ '':'')"
| ipv6: "x \<noteq> [] \<Longrightarrow> list_all is_ipv6_char x \<Longrightarrow> bind_prefix (''['' @ x @ '']:'')"

lemma takeWhile_stop:
  "list_all P a \<Longrightarrow> \<not> P x \<Longrightarrow> takeWhile P (a @ x # b) = a"
  by (induction a) auto

lemma dropWhile_stop:
  "list_all P a \<Longrightarrow> \<not> P x \<Longrightarrow> dropWhile P (a @ x # b) = x # b"
  by (induction a) auto

lemma takeWhile_list_all: "list_all P (takeWhile P s)"
  by (induction s) auto

lemma mapping_chars [simp]:
  "\<not> is_name_char CHR '':''" "\<not> is_name_char CHR ''}''" "\<not> is_digit CHR ''}''" "\<not> is_digit CHR '':''"
  "\<not> is_digit CHR ''$''" "\<not> is_digit CHR ''[''" "\<not> is_ipv6_char CHR '']''"
  by (simp_all add: is_name_char_def is_name_start_def is_digit_def is_ipv6_char_def)

lemma parse_mapping_tail:
  assumes "valid_mapping var def container"
  shows "parse_port_tail (mapping_tail var def container) = Some (var, def, container)"
proof (cases "def = []")
  case True
  then show ?thesis
    using assms takeWhile_stop [of is_name_char var "CHR ''}''"] dropWhile_stop [of is_name_char var "CHR ''}''"]
    by (simp add: parse_port_tail_def mapping_tail_def valid_mapping_def)
next
  case False
  then show ?thesis
    using assms takeWhile_stop [of is_name_char var "CHR '':''"] dropWhile_stop [of is_name_char var "CHR '':''"]
      takeWhile_stop [of is_digit "def" "CHR ''}''"] dropWhile_stop [of is_digit "def" "CHR ''}''"]
    by (simp add: parse_port_tail_def mapping_tail_def valid_mapping_def)
qed

lemma prefix_drop: "prefix [a, b] s \<Longrightarrow> s = [a, b] @ drop 2 s"
  by (auto simp: prefix_def)

lemma parse_port_tail_Some:
  assumes "parse_port_tail s = Some (var, def, container)"
  shows "valid_mapping var def container \<and> s = mapping_tail var def container"
proof -
  define r0 where "r0 = drop 2 s"
  define r1 where "r1 = dropWhile is_name_char r0"
  define d where "d = (if prefix '':-'' r1 then takeWhile is_digit (drop 2 r1) else [])"
  define r2 where "r2 = (if d = [] then r1 else dropWhile is_digit (drop 2 r1))"
  from assms have h: "prefix ''${'' s" "var = takeWhile is_name_char r0" "def = d"
    "var \<noteq> []" "is_name_start (hd var)" "prefix ''}:'' r2" "container = drop 2 r2"
    "container \<noteq> []" "list_all is_digit container"
    unfolding parse_port_tail_def Let_def r0_def [symmetric] r1_def [symmetric] d_def [symmetric]
      r2_def [symmetric]
    by (auto split: if_splits)
  have s: "s = ''${'' @ r0" unfolding r0_def by (rule prefix_drop [OF h(1)])
  have r0: "r0 = var @ r1" unfolding h(2) r1_def by simp
  have r2: "r2 = ''}:'' @ container" unfolding h(7) by (rule prefix_drop [OF h(6)])
  have r1: "r1 = (if d = [] then [] else '':-'' @ d) @ r2"
  proof (cases "d = []")
    case True
    then show ?thesis by (simp add: r2_def)
  next
    case False
    then have p: "prefix '':-'' r1" by (auto simp: d_def split: if_splits)
    then have "drop 2 r1 = d @ r2" using False by (simp add: d_def r2_def)
    with prefix_drop [OF p] False show ?thesis by simp
  qed
  have "s = mapping_tail var def container"
    unfolding mapping_tail_def h(3) s r0 by (subst r1) (simp add: r2)
  moreover have "list_all is_digit d" by (simp add: d_def takeWhile_list_all)
  then have "valid_mapping var def container"
    using h takeWhile_list_all [of is_name_char r0] by (simp add: valid_mapping_def)
  ultimately show ?thesis by simp
qed

lemma after_bind_prefix_append: "bind_prefix pre \<Longrightarrow> after_bind_prefix (pre @ r) = Some r"
proof (induction rule: bind_prefix.induct)
  case (expression x)
  then have "list_all (\<lambda>c. c \<noteq> CHR ''}'') x" by (auto simp: list_all_iff)
  then show ?case
    using dropWhile_stop [of "\<lambda>c. c \<noteq> CHR ''}''" x "CHR ''}''" "CHR '':'' # r"]
    by (simp add: after_bind_prefix_def)
next
  case (ipv4 x)
  then obtain c cs where x: "x = c # cs" by (cases x) auto
  with ipv4(2) have "c \<noteq> CHR ''$''" and "c \<noteq> CHR ''[''" by auto
  then show ?case
    using ipv4 x takeWhile_stop [of "\<lambda>c. is_digit c \<or> c = CHR ''.''" x "CHR '':''" r]
      dropWhile_stop [of "\<lambda>c. is_digit c \<or> c = CHR ''.''" x "CHR '':''" r]
    by (simp add: after_bind_prefix_def)
next
  case (ipv6 x)
  then show ?case
    using takeWhile_stop [of is_ipv6_char x "CHR '']''" "CHR '':'' # r"]
      dropWhile_stop [of is_ipv6_char x "CHR '']''" "CHR '':'' # r"]
    by (simp add: after_bind_prefix_def)
qed

lemma after_bind_prefix_Some:
  assumes "after_bind_prefix s = Some r"
  shows "\<exists>pre. bind_prefix pre \<and> s = pre @ r"
proof -
  consider (expr) "prefix ''${'' s" | (six) "\<not> prefix ''${'' s" "prefix ''['' s"
    | (four) "\<not> prefix ''${'' s" "\<not> prefix ''['' s" by blast
  then show ?thesis
  proof cases
    case expr
    let ?x = "takeWhile (\<lambda>c. c \<noteq> CHR ''}'') (drop 2 s)"
    let ?d = "dropWhile (\<lambda>c. c \<noteq> CHR ''}'') (drop 2 s)"
    from expr assms have d: "?d \<noteq> []" "tl ?d = CHR '':'' # r"
      by (auto simp: after_bind_prefix_def Let_def split: if_splits list.splits)
    then have "?d = CHR ''}'' # CHR '':'' # r"
      using hd_dropWhile [of "\<lambda>c. c \<noteq> CHR ''}''" "drop 2 s"] by (cases ?d) auto
    then have "drop 2 s = ?x @ ''}:'' @ r" by (metis append.simps takeWhile_dropWhile_id)
    with prefix_drop [OF expr] have "s = (''${'' @ ?x @ ''}:'') @ r" by (metis append.assoc)
    moreover have "bind_prefix (''${'' @ ?x @ ''}:'')"
      by (rule bind_prefix.expression) (auto dest: set_takeWhileD)
    ultimately show ?thesis by blast
  next
    case six
    let ?x = "takeWhile is_ipv6_char (tl s)"
    let ?d = "dropWhile is_ipv6_char (tl s)"
    from six assms have d: "?x \<noteq> []" "prefix '']'' ?d" "tl ?d = CHR '':'' # r"
      by (auto simp: after_bind_prefix_def Let_def split: if_splits list.splits)
    then have "?d = CHR '']'' # CHR '':'' # r" by (auto simp: prefix_def)
    then have "tl s = ?x @ '']:'' @ r" by (metis append.simps takeWhile_dropWhile_id)
    moreover have "s = ''['' @ tl s" using six(2) by (auto simp: prefix_def)
    ultimately have "s = (''['' @ ?x @ '']:'') @ r" by simp
    moreover have "bind_prefix (''['' @ ?x @ '']:'')"
      by (rule bind_prefix.ipv6 [OF d(1) takeWhile_list_all])
    ultimately show ?thesis by blast
  next
    case four
    let ?P = "\<lambda>c. is_digit c \<or> c = CHR ''.''"
    from four assms have d: "takeWhile ?P s \<noteq> []" "dropWhile ?P s = CHR '':'' # r"
      by (auto simp: after_bind_prefix_def Let_def split: if_splits list.splits)
    then have "s = (takeWhile ?P s @ '':'') @ r" by (metis append.assoc append.simps takeWhile_dropWhile_id)
    moreover have "bind_prefix (takeWhile ?P s @ '':'')"
      by (rule bind_prefix.ipv4 [OF d(1) takeWhile_list_all])
    ultimately show ?thesis by blast
  qed
qed

lemma parse_mapping_no_prefix:
  assumes "valid_mapping var def container"
  shows "Option.bind (after_bind_prefix (mapping_tail var def container)) parse_port_tail = None"
proof -
  let ?x = "var @ (if def = [] then [] else '':-'' @ def)"
  have "CHR ''}'' \<notin> set ?x"
    using assms by (auto simp: valid_mapping_def list_all_iff)
  then have "bind_prefix (''${'' @ ?x @ ''}:'')" by (rule bind_prefix.expression)
  moreover have "mapping_tail var def container = (''${'' @ ?x @ ''}:'') @ container"
    by (simp add: mapping_tail_def)
  ultimately have "after_bind_prefix (mapping_tail var def container) = Some container"
    by (metis after_bind_prefix_append)
  moreover have "parse_port_tail container = None"
    using assms by (auto simp: valid_mapping_def parse_port_tail_def prefix_def)
  ultimately show ?thesis by simp
qed

text \<open>The matcher reads back exactly the mappings the grammar renders. It accepts a text if and
  only if it is an optional bind host followed by \<^verbatim>\<open>${VAR}:N\<close> or \<^verbatim>\<open>${VAR:-M}:N\<close>, and then the
  variable, default and container port it reports are the ones written, bind host or not.\<close>

theorem port_mapping_roundtrip:
  "parse_port_mapping s = Some (var, def, container) \<longleftrightarrow>
     valid_mapping var def container \<and>
     (\<exists>pre. (pre = [] \<or> bind_prefix pre) \<and> s = pre @ mapping_tail var def container)"
proof
  assume l: "parse_port_mapping s = Some (var, def, container)"
  show "valid_mapping var def container \<and>
     (\<exists>pre. (pre = [] \<or> bind_prefix pre) \<and> s = pre @ mapping_tail var def container)"
  proof (cases "Option.bind (after_bind_prefix s) parse_port_tail")
    case None
    with l have "parse_port_tail s = Some (var, def, container)" by (simp add: parse_port_mapping_def)
    from parse_port_tail_Some [OF this] show ?thesis by auto
  next
    case (Some m)
    with l obtain r where "after_bind_prefix s = Some r" and
      r: "parse_port_tail r = Some (var, def, container)"
      by (auto simp: parse_port_mapping_def bind_eq_Some_conv)
    then obtain pre where "bind_prefix pre" and "s = pre @ r" using after_bind_prefix_Some by blast
    with parse_port_tail_Some [OF r] show ?thesis by auto
  qed
next
  assume "valid_mapping var def container \<and>
     (\<exists>pre. (pre = [] \<or> bind_prefix pre) \<and> s = pre @ mapping_tail var def container)"
  then obtain pre where v: "valid_mapping var def container" and pre: "pre = [] \<or> bind_prefix pre"
    and s: "s = pre @ mapping_tail var def container" by blast
  from pre show "parse_port_mapping s = Some (var, def, container)"
  proof
    assume "pre = []"
    with s show ?thesis
      by (simp add: parse_port_mapping_def parse_mapping_no_prefix [OF v] parse_mapping_tail [OF v])
  next
    assume "bind_prefix pre"
    with s show ?thesis
      by (simp add: parse_port_mapping_def after_bind_prefix_append parse_mapping_tail [OF v])
  qed
qed

section \<open>What introspection returns\<close>

definition slot_rank :: "slot \<Rightarrow> string list" where
  "slot_rank s = [sl_source s, sl_service s, sl_env_var s]"

definition compare_slots :: "slot \<Rightarrow> slot \<Rightarrow> int" where
  "compare_slots a b = order_sign (slot_rank a) (slot_rank b)"

interpretation slot_order: comparison compare_slots
  using comparison_order_sign [of slot_rank] by (simp add: compare_slots_def [abs_def])

lemma slot_less_rank: "slot_less = (\<lambda>a b. compare_slots a b < 0)"
  by (auto simp: fun_eq_iff slot_less_def compare_slots_def slot_rank_def Cons_less_Cons)

text \<open>The \<^verbatim>\<open>seenVar\<close> set is the set of keys collected so far, and a slot is named by its variable.\<close>

definition scan_inv :: "string list \<times> slot list \<Rightarrow> bool" where
  "scan_inv st \<longleftrightarrow> set (fst st) = sl_key ` set (snd st) \<and> distinct (map sl_key (snd st)) \<and>
     (\<forall>s \<in> set (snd st). sl_key s = sl_env_var s)"

lemma sl_key_slot_of [simp]: "sl_key (slot_of source service m) = fst m"
    "sl_env_var (slot_of source service m) = fst m"
  by (cases m; simp add: slot_of_def)+

lemma scan_ports_inv:
  "scan_inv (seen, acc) \<Longrightarrow> scan_inv (scan_ports source service raws seen acc)"
  by (induction source service raws seen acc rule: scan_ports.induct)
    (auto simp: scan_inv_def split: option.split)

lemma scan_services_inv:
  "scan_inv (seen, acc) \<Longrightarrow> scan_inv (scan_services source services ns seen acc)"
proof (induction source services ns seen acc rule: scan_services.induct)
  case (1 source services seen acc)
  then show ?case by simp
next
  case (2 source services n ns seen acc)
  show ?case
    using 2 scan_ports_inv [OF "2.prems"] by (auto simp: Let_def split: prod.split)
qed

lemma scan_files_inv:
  "scan_inv (seen, acc) \<Longrightarrow> scan_files fs seen acc services = (seen', acc', services') \<Longrightarrow>
     scan_inv (seen', acc')"
proof (induction fs seen acc services rule: scan_files.induct)
  case (3 source ss fs seen acc services)
  then show ?case
    using scan_services_inv [OF "3.prems"(1), of source ss "sort (keys_of ss)"]
    by (auto split: prod.splits)
qed auto

text \<open>Introspection returns at most one slot per variable, names each slot by its variable, lists
  the slots in the stable order of file, service and variable, and the services sorted without
  repetition, whatever the compose files hold.\<close>

theorem introspection_is_stable:
  assumes "introspect_slots root files = Some (slots, services)"
  shows "distinct (map sl_key slots) \<and> (\<forall>s \<in> set slots. sl_env_var s = sl_key s)
    \<and> sorted_wrt (\<lambda>a b. slot_rank a \<le> slot_rank b) slots
    \<and> sorted services \<and> distinct services"
proof -
  obtain seen acc svcs where scan: "scan_files files [] [] [] = (seen, acc, svcs)"
    by (cases "scan_files files [] [] []")
  with assms have slots: "slots = sort_slice slot_less acc" and services: "services = sort (remdups svcs)"
    by (auto simp: introspect_slots_def split: if_splits)
  have inv: "scan_inv (seen, acc)" by (rule scan_files_inv [OF _ scan]) (simp add: scan_inv_def)
  have "mset (map sl_key slots) = mset (map sl_key acc)" by (simp add: slots)
  from mset_eq_imp_distinct_iff [OF this] inv have "distinct (map sl_key slots)"
    unfolding scan_inv_def snd_conv by blast
  moreover have "sorted_wrt (\<lambda>a b. slot_rank a \<le> slot_rank b) slots"
    using slot_order.sorted_sort_slice [of acc] by (simp add: slots slot_less_rank compare_slots_def)
  ultimately show ?thesis using inv by (simp add: scan_inv_def slots services)
qed

definition sample_compose :: "compose list" where
  "sample_compose = [(''compose.w17.yaml'', Some [(''db'', [''${DB_PORT:-5432}:5432'']),
      (''api'', [''127.0.0.1:${API_PORT}:80'', ''9000:9000''])]), (''b/compose.yaml'', None)]"

theorem introspection_is_stable_witness:
  "\<exists>slots. introspect_slots ''/w'' sample_compose = Some (slots, [''api'', ''db''])
    \<and> map sl_key slots = [''API_PORT'', ''DB_PORT''] \<and> distinct (map sl_key slots)"
proof -
  have "map_option (\<lambda>(s, v). (map sl_key s, v)) (introspect_slots ''/w'' sample_compose)
        = Some ([''API_PORT'', ''DB_PORT''], [''api'', ''db''])"
    by code_simp
  then obtain slots services where r: "introspect_slots ''/w'' sample_compose = Some (slots, services)"
    "map sl_key slots = [''API_PORT'', ''DB_PORT'']" "services = [''api'', ''db'']"
    by (auto split: prod.splits)
  with introspection_is_stable [OF r(1)] show ?thesis by auto
qed

section \<open>From a chosen port to the compose environment\<close>

lemma fold_pins:
  "map_of (fold (\<lambda>s out. case f (sl_key s) of None \<Rightarrow> out | Some n \<Rightarrow> put (sl_key s) n out) slots m) k =
     (if k \<in> sl_key ` set slots \<and> f k \<noteq> None then f k else map_of m k)"
proof (induction slots arbitrary: m)
  case Nil
  show ?case by simp
next
  case (Cons s slots)
  then show ?case by (cases "f (sl_key s)") auto
qed

lemma pinned_ports_lookup:
  "map_of (pinned_ports env dot_env slots) k =
     (if k \<in> sl_key ` set slots then pinned_value env (read_dot_env dot_env) k else None)"
  unfolding pinned_ports_def
  using fold_pins [of "pinned_value env (read_dot_env dot_env)" slots "[]" k] by auto

lemma pinned_value_range: "pinned_value env m k = Some n \<Longrightarrow> 1 \<le> n \<and> n \<le> 65535"
  by (auto simp: pinned_value_def Let_def split: option.splits if_splits)

lemma map_of_itoa: "map_of (map (\<lambda>(k, v). (k, itoa v)) m) k = map_option itoa (map_of m k)"
  by (induction m) auto

lemma map_of_fold_put: "k \<notin> fst ` set e \<Longrightarrow> map_of (fold (\<lambda>(k, v) m. put k v m) e m) k = map_of m k"
  by (induction e arbitrary: m) auto

lemma build_up_env_mem:
  assumes "map_of (pj_ports p) k = Some n"
    and "\<And>ps. preset = Some ps \<Longrightarrow> k \<notin> fst ` set (ps_env ps)"
  shows "k @ ''='' @ itoa n \<in> set (build_up_env p preset)"
proof -
  define merged where "merged = (case preset of
      None \<Rightarrow> map (\<lambda>(k, v). (k, itoa v)) (pj_ports p)
    | Some ps \<Rightarrow> fold (\<lambda>(k, v) m. put k v m) (ps_env ps) (map (\<lambda>(k, v). (k, itoa v)) (pj_ports p)))"
  have v: "map_of merged k = Some (itoa n)"
  proof (cases preset)
    case None
    then show ?thesis by (simp add: merged_def map_of_itoa assms(1))
  next
    case (Some ps)
    from assms(2) [OF Some] show ?thesis
      by (simp add: merged_def Some map_of_fold_put map_of_itoa assms(1))
  qed
  then have "k \<in> set (keys_of merged)" by (rule map_of_in_keys)
  then have k: "k \<in> set (sort (keys_of merged))" by simp
  have "build_up_env p preset = map (\<lambda>k. k @ ''='' @ the (map_of merged k)) (sort (keys_of merged))"
    by (simp add: build_up_env_def merged_def Let_def)
  with imageI [OF k, of "\<lambda>k. k @ ''='' @ the (map_of merged k)"] v show ?thesis by simp
qed

lemma pinned_allocation:
  assumes "wf_registry c" and "map_of (cf_projects c) name = Some (Some p)"
    and "allocate_ports_pinned in_use c name slots pinned = Some (Ret (c', changed, pins))"
    and "k \<in> sl_key ` set slots" and "map_of pinned k = Some v"
  shows "port_at c' name k = Some v"
proof -
  from assms(1,2) have wf: "wf_map (kept_ports p slots)" by (simp add: wf_registry_def)
  from assms(2,3) obtain ports1 ch1 others ports where
    h: "honour_pins c name pinned True slots (kept_ports p slots, prunes p slots, []) = Ret (ports1, ch1, pins)"
    and a: "assign_ports in_use (map snd ports1 @ others) (effective_port_base c) (slot_keys slots)
        (ports1, ch1) = Some (ports, changed)"
    and c': "c' = with_ports c name p ports"
    by (auto simp: allocate_ports_pinned_def allocate_def Let_def kept_ports_def prunes_def slot_keys_def
        with_ports_def split: go.splits option.splits)
  note hp = honour_pins_ports [OF h wf]
  from assign_ports_fresh [OF a] hp
  have ext: "fresh_extension in_use (map snd ports1 @ others) (effective_port_base c) ports1 ports" by blast
  from hp assms(4,5) have "map_of ports1 k = Some v" by auto
  from fresh_extension_old [OF ext this] show ?thesis by (simp add: c' port_at_with_ports)
qed

text \<open>A port the developer chose, in the environment or in the project's \<^verbatim>\<open>.env\<close>, is the one the
  stack is started with: it survives the allocator and reaches the compose environment unless the run
  preset itself sets the variable.\<close>

theorem chosen_port_reaches_compose:
  assumes "wf_registry c" and "map_of (cf_projects c) name = Some (Some p)"
    and "key \<in> sl_key ` set slots"
    and "pinned_value env (read_dot_env dot_env) key = Some n"
    and "allocate_ports_pinned in_use c name slots (pinned_ports env dot_env slots)
           = Some (Ret (c', changed, pins))"
    and "\<forall>ps. preset = Some ps \<longrightarrow> key \<notin> fst ` set (ps_env ps)"
  shows "1 \<le> n \<and> n \<le> 65535 \<and>
    (\<exists>p'. map_of (cf_projects c') name = Some (Some p') \<and>
       key @ ''='' @ itoa n \<in> set (build_up_env p' preset))"
proof -
  have "map_of (pinned_ports env dot_env slots) key = Some n"
    using assms(3,4) by (simp add: pinned_ports_lookup)
  from pinned_allocation [OF assms(1,2,5,3) this] obtain p' where
    p': "map_of (cf_projects c') name = Some (Some p')" "map_of (pj_ports p') key = Some n"
    by (auto simp: port_at_Some)
  from build_up_env_mem [OF p'(2), of preset] assms(6) p'(1) pinned_value_range [OF assms(4)]
  show ?thesis by auto
qed

theorem chosen_port_reaches_compose_witness:
  "\<exists>p' c' pins. allocate_ports_pinned (\<lambda>_. False) shared_machine ''blog'' [plain_slot ''WEB'']
      (pinned_ports (\<lambda>_. None) (Some ''export WEB = 16720'') [plain_slot ''WEB'']) = Some (Ret (c', True, pins))
    \<and> map_of (cf_projects c') ''blog'' = Some (Some p') \<and> ''WEB=16720'' \<in> set (build_up_env p' None)"
proof -
  let ?f = "Some ''export WEB = 16720''"
  have ls: "scan_lines ''export WEB = 16720'' = [''export WEB = 16720'']"
    by (simp add: scan_lines_def split_on_no_sep del: split_on.simps)
  have d: "dot_env_line ''export WEB = 16720'' = Some (''WEB'', ''16720'')" by code_simp
  have a: "trim_space ''16720'' = ''16720''" by code_simp
  have i: "itoa 16720 = ''16720''" by (simp add: itoa_def show_nat.simps digit_char_def char_of_def bit_0)
  have n: "atoi ''16720'' = Some 16720" using atoi_itoa [of 16720] by (simp add: i int_in_range_def)
  have v: "pinned_value (\<lambda>_. None) (read_dot_env ?f) ''WEB'' = Some 16720"
    by (simp add: pinned_value_def read_dot_env_def ls d a n)
  have pins: "pinned_ports (\<lambda>_. None) ?f [plain_slot ''WEB''] = [(''WEB'', 16720)]"
    by (simp add: pinned_ports_def plain_slot_def v)
  have run: "\<exists>c' pins. allocate_ports_pinned (\<lambda>_. False) shared_machine ''blog'' [plain_slot ''WEB'']
      (pinned_ports (\<lambda>_. None) ?f [plain_slot ''WEB'']) = Some (Ret (c', True, pins))"
    unfolding pins
    by (simp add: allocate_ports_pinned_def allocate_def plain_slot_def
        shared_machine_def fresh_config_def effective_port_base_def default_port_base_def
        find_free.simps max_int_def sample_project_def project_holding_def)
  from run obtain c' pins where r: "allocate_ports_pinned (\<lambda>_. False) shared_machine ''blog'' [plain_slot ''WEB'']
      (pinned_ports (\<lambda>_. None) ?f [plain_slot ''WEB'']) = Some (Ret (c', True, pins))" by blast
  from chosen_port_reaches_compose [OF shared_machine_ok _ v r, of None] r i show ?thesis
    by (auto simp: plain_slot_def)
qed

end
