(* ===== verification/Traced.thy ===== *)
theory Traced
  imports Prelude
begin

text \<open>
  Calls with effects. A call that reaches outside the program (a store, a remote service, a process)
  is modelled by the list of effects it performed, in order, beside its result: an error or a value.
  Sequencing runs the second call only when the first succeeded, which is Go's
  \<^verbatim>\<open>if err != nil { return err }\<close>; the effects already performed stay in the list. What the
  effects do is a parameter of each model.
\<close>

named_theorems traced \<open>facts on sequences of effects\<close>

type_synonym ('v, 'e, 'a) io = "'v list \<times> ('e + 'a)"

definition pure :: "'a \<Rightarrow> ('v, 'e, 'a) io" where
  "pure x = ([], Inr x)"

definition raise :: "'e \<Rightarrow> ('v, 'e, 'a) io" where
  "raise e = ([], Inl e)"

text \<open>One effect and its outcome, and one that cannot fail.\<close>

definition perform :: "'v \<Rightarrow> ('e + 'a) \<Rightarrow> ('v, 'e, 'a) io" where
  "perform v r = ([v], r)"

definition emit :: "'v \<Rightarrow> ('v, 'e, unit) io" where
  "emit v = ([v], Inr ())"

definition emit_all :: "'v list \<Rightarrow> ('v, 'e, unit) io" where
  "emit_all vs = (vs, Inr ())"

definition and_then :: "('v, 'e, 'a) io \<Rightarrow> ('a \<Rightarrow> ('v, 'e, 'b) io) \<Rightarrow> ('v, 'e, 'b) io" where
  "and_then m f = (case m of
      (t, Inl e) \<Rightarrow> (t, Inl e)
    | (t, Inr x) \<Rightarrow> (t @ fst (f x), snd (f x)))"

text \<open>An outcome with the error wrapped, and one that carries no value.\<close>

definition wrap_error :: "('e \<Rightarrow> 'f) \<Rightarrow> ('e + 'a) \<Rightarrow> ('f + 'a)" where
  "wrap_error w r = (case r of Inl e \<Rightarrow> Inl (w e) | Inr x \<Rightarrow> Inr x)"

definition outcome :: "('e \<Rightarrow> 'f) \<Rightarrow> 'e option \<Rightarrow> ('f + unit)" where
  "outcome w r = (case r of Some e \<Rightarrow> Inl (w e) | None \<Rightarrow> Inr ())"

lemma trace_basic [simp, traced]:
  "fst (pure x) = []" "fst (raise e) = []" "fst (perform v r) = [v]" "fst (emit v) = [v]" "fst (emit_all vs) = vs"
  by (simp_all add: pure_def raise_def perform_def emit_def emit_all_def)

lemma result_basic [simp, traced]:
  "snd (pure x) = Inr x" "snd (raise e) = Inl e" "snd (perform v r) = r" "snd (emit v) = Inr ()" "snd (emit_all vs) = Inr ()"
  by (simp_all add: pure_def raise_def perform_def emit_def emit_all_def)

lemma trace_and_then [traced]:
  "fst (and_then m f) = fst m @ (case snd m of Inl _ \<Rightarrow> [] | Inr x \<Rightarrow> fst (f x))"
  by (cases m) (simp add: and_then_def split: sum.split)

lemma result_and_then [traced]:
  "snd (and_then m f) = (case snd m of Inl e \<Rightarrow> Inl e | Inr x \<Rightarrow> snd (f x))"
  by (cases m) (simp add: and_then_def split: sum.split)

lemma and_then_ok: "snd m = Inr x \<Longrightarrow> and_then m f = (fst m @ fst (f x), snd (f x))"
  by (cases m) (simp add: and_then_def)

lemma and_then_error: "snd m = Inl e \<Longrightarrow> and_then m f = (fst m, Inl e)"
  by (cases m) (simp add: and_then_def)

lemma in_trace_and_then:
  "v \<in> set (fst (and_then m f)) \<longleftrightarrow>
     v \<in> set (fst m) \<or> (\<exists>x. snd m = Inr x \<and> v \<in> set (fst (f x)))"
  by (auto simp: trace_and_then split: sum.splits)

lemma ok_and_then:
  "snd (and_then m f) = Inr y \<longleftrightarrow> (\<exists>x. snd m = Inr x \<and> snd (f x) = Inr y)"
  by (auto simp: result_and_then split: sum.splits)

lemma and_then_pure [simp]: "and_then (pure x) f = f x" "and_then (raise e) f = raise e"
  by (simp_all add: and_then_def pure_def raise_def)

lemma wrap_error_simps [simp]: "wrap_error w (Inl e) = Inl (w e)" "wrap_error w (Inr x) = Inr x"
    "wrap_error w r = Inr x \<longleftrightarrow> r = Inr x"
  by (auto simp: wrap_error_def split: sum.splits)

lemma outcome_simps [simp]: "outcome w None = Inr ()" "outcome w (Some e) = Inl (w e)"
    "outcome w r = Inr u \<longleftrightarrow> r = None"
  by (auto simp: outcome_def split: option.splits)

section \<open>One effect before another\<close>

text \<open>No effect of \<open>B\<close> happens before the first one of \<open>A\<close>.\<close>

fun guarded_by :: "('v \<Rightarrow> bool) \<Rightarrow> ('v \<Rightarrow> bool) \<Rightarrow> 'v list \<Rightarrow> bool" where
  "guarded_by A B [] \<longleftrightarrow> True"
| "guarded_by A B (v # vs) \<longleftrightarrow> \<not> B v \<and> (A v \<or> guarded_by A B vs)"

lemma guarded_append [traced]:
  "guarded_by A B (s @ t) \<longleftrightarrow> guarded_by A B s \<and> (list_ex A s \<or> guarded_by A B t)"
  by (induction s) auto

lemma guarded_none: "\<forall>v \<in> set t. \<not> B v \<Longrightarrow> guarded_by A B t"
  by (induction t) auto

lemma guarded_before:
  "guarded_by A B (s @ v # t) \<Longrightarrow> B v \<Longrightarrow> \<exists>u \<in> set s. A u"
  by (induction s) auto

text \<open>Once an effect of \<open>A\<close> has happened, no effect of \<open>B\<close> does.\<close>

fun quiet_after :: "('v \<Rightarrow> bool) \<Rightarrow> ('v \<Rightarrow> bool) \<Rightarrow> 'v list \<Rightarrow> bool" where
  "quiet_after A B [] \<longleftrightarrow> True"
| "quiet_after A B (v # vs) \<longleftrightarrow> (if A v then list_all (\<lambda>u. \<not> B u) vs else quiet_after A B vs)"

lemma quiet_calm: "\<forall>v \<in> set t. \<not> B v \<Longrightarrow> quiet_after A B t"
  by (induction t) (auto simp: list_all_iff)

lemma quiet_append:
  "\<forall>v \<in> set s. \<not> A v \<Longrightarrow> quiet_after A B (s @ t) \<longleftrightarrow> quiet_after A B t"
  by (induction s) auto

lemma quiet_append_calm:
  "\<forall>v \<in> set t. \<not> B v \<Longrightarrow> quiet_after A B s \<Longrightarrow> quiet_after A B (s @ t)"
  by (induction s) (auto simp: list_all_iff quiet_calm)

lemma quiet_and_then:
  "\<forall>v \<in> set (fst m). \<not> A v \<Longrightarrow> (\<And>x. snd m = Inr x \<Longrightarrow> quiet_after A B (fst (f x))) \<Longrightarrow>
     quiet_after A B (fst (and_then m f))"
  by (auto simp: trace_and_then quiet_append split: sum.split)

lemma quiet_split:
  "quiet_after A B (s @ v # t) \<Longrightarrow> A v \<Longrightarrow> u \<in> set t \<Longrightarrow> \<not> B u"
  by (induction s) (auto simp: list_all_iff split: if_splits)

end
