(* ===== verification/Plan.thy ===== *)
theory Plan
  imports Traced
begin

text \<open>
  The dev sync (\<^verbatim>\<open>internal/plan/lossy.go\<close>, \<^verbatim>\<open>plan.go\<close>): read what the local databases hold, ask the
  console for a migration plan, decide what to do when the plan destroys something, apply.

  The console (classification and planning), the stores (connecting, reading, snapshotting,
  applying) are the parameters of the record \<open>sync_world\<close>; the protobuf and SDK messages are records
  with the fields the code reads and writes. What a run does to the outside is the list of its
  effects.
\<close>

section \<open>Losses\<close>

record lossy_change =
  lc_connection :: string
  lc_kind :: string
  lc_object :: string
  lc_detail :: string

definition valid_lossy_modes :: string where
  "valid_lossy_modes = join_with '' | '' [''refuse'', ''apply'', ''snapshot'']"

definition describe_loss :: "lossy_change \<Rightarrow> string" where
  "describe_loss l =
     (if lc_kind l = ''drop_table'' then
        ''the table '' @ lc_object l @ '' is dropped, with every row in it''
      else if lc_kind l = ''drop_column'' then
        ''the column '' @ lc_object l @ '' is dropped, with every value in it''
      else if lc_kind l = ''retype_column'' then
        (let subject = (if CHR ''.'' \<in> set (lc_object l) then ''the column '' @ lc_object l
                        else ''the table '' @ lc_object l)
         in if lc_detail l \<noteq> [] then subject @ '': '' @ lc_detail l
            else subject @ '' is retyped, which rewrites every value and can fail or truncate'')
      else lc_kind l @ '' '' @ lc_object l)"

text \<open>The help under a refusal, line by line.\<close>

definition refusal_help :: string where
  "refusal_help = [nl] @ join_with [nl]
     [''  why: a dev sync makes the database match your protos, and matching them here'',
      ''       means removing what they no longer describe. Refused rather than applied,'',
      ''       because this is the one direction that cannot be undone by running it again.'',
      ''  choose:'',
      ''    --lossy=snapshot   snapshot these stores first, then apply (put it back: w17ctl db snapshot activate <name>)'',
      ''    --lossy=apply      apply it; the data is gone'',
      ''    (or change the protos back, and this disappears)'']"

definition losses_by_connection :: "lossy_change list \<Rightarrow> (string, string list) gomap" where
  "losses_by_connection lossy =
     fold (\<lambda>l m. push_to (lc_connection l) (''    '' @ describe_loss l) m) lossy []"

definition loss_block :: "(string, string list) gomap \<Rightarrow> string \<Rightarrow> string" where
  "loss_block m c =
     ''  '' @ (if c = [] then ''(default connection)'' else c) @ '':'' @ [nl]
       @ join_with [nl] (case map_of m c of None \<Rightarrow> [] | Some ls \<Rightarrow> ls) @ [nl]"

definition lossy_refusal :: "lossy_change list \<Rightarrow> string" where
  "lossy_refusal lossy =
     (if lossy = [] then []
      else (let m = losses_by_connection lossy
            in ''this sync would DESTROY data in your local database'' @ [nl]
               @ concat (map (loss_block m) (sort (keys_of m))) @ refusal_help))"

definition lossy_connections :: "lossy_change list \<Rightarrow> string list" where
  "lossy_connections lossy = sort (dedup_seen [] (map lc_connection lossy))"

section \<open>What a store holds, and how it travels\<close>

record live_column =
  col_name :: string
  col_type :: string
  col_nullable :: bool
  col_default :: string
  col_generated :: string
  col_identity :: string

record live_index =
  ix_name :: string
  ix_unique :: bool
  ix_definition :: string

record live_foreign_key =
  fk_name :: string
  fk_columns :: "string list"
  fk_target_table :: string
  fk_target_column :: string
  fk_on_delete :: string
  fk_target_schema :: string
  fk_target_columns :: "string list"
  fk_delete_set_columns :: "string list"
  fk_delete_set_columns_read :: bool
  fk_deferred :: bool
  fk_deferred_read :: bool

record live_table =
  tb_schema :: string
  tb_name :: string
  tb_primary_key :: "string list"
  tb_primary_key_name :: string
  tb_checks :: "string list"
  tb_check_defs :: "(string, string) gomap"
  tb_uniques_read :: bool
  tb_uniques :: "(string \<times> string list) list"
  tb_check_members :: "(string, string list) gomap"
  tb_columns :: "live_column list"
  tb_indexes :: "live_index list"
  tb_foreign_keys :: "live_foreign_key list"

record live_enum =
  en_schema :: string
  en_name :: string
  en_type :: string
  en_labels :: "string list"

record live_schema =
  lv_tables :: "live_table list"
  lv_enums :: "live_enum list"

text \<open>The messages. A field set only under a condition is an option: the wire tells "none" from
  "not read".\<close>

record observed_column =
  oc_name :: string
  oc_type :: string
  oc_nullable :: bool
  oc_default_expr :: string
  oc_generated :: string
  oc_identity :: string

record observed_index =
  oi_name :: string
  oi_unique :: bool
  oi_definition :: string

record observed_foreign_key =
  of_name :: string
  of_columns :: "string list"
  of_target_table :: string
  of_target_column :: string
  of_on_delete :: string
  of_target_schema :: string
  of_target_columns :: "string list"
  of_delete_set_columns :: "string list"
  of_delete_set_columns_read :: bool
  of_deferred :: bool
  of_deferred_read :: bool

record observed_table =
  ot_schema :: string
  ot_name :: string
  ot_primary_key :: "string list"
  ot_primary_key_name :: string
  ot_checks :: "string list"
  ot_check_defs :: "(string, string) gomap"
  ot_unique_constraints :: "(string \<times> string list) list option"
  ot_check_members :: "(string, string list) gomap"
  ot_columns :: "observed_column list"
  ot_indexes :: "observed_index list"
  ot_foreign_keys :: "observed_foreign_key list"

record observed_enum =
  oe_schema :: string
  oe_name :: string
  oe_type :: string
  oe_labels :: "string list"

record observed_store =
  os_connection :: string
  os_tables :: "observed_table list"
  os_enum_types :: "observed_enum list"

definition observe_column :: "live_column \<Rightarrow> observed_column" where
  "observe_column c = \<lparr>oc_name = col_name c, oc_type = col_type c, oc_nullable = col_nullable c,
     oc_default_expr = col_default c, oc_generated = col_generated c, oc_identity = col_identity c\<rparr>"

definition observe_index :: "live_index \<Rightarrow> observed_index" where
  "observe_index i = \<lparr>oi_name = ix_name i, oi_unique = ix_unique i, oi_definition = ix_definition i\<rparr>"

definition observe_foreign_key :: "live_foreign_key \<Rightarrow> observed_foreign_key" where
  "observe_foreign_key f = \<lparr>of_name = fk_name f, of_columns = fk_columns f,
     of_target_table = fk_target_table f, of_target_column = fk_target_column f,
     of_on_delete = fk_on_delete f, of_target_schema = fk_target_schema f,
     of_target_columns = fk_target_columns f, of_delete_set_columns = fk_delete_set_columns f,
     of_delete_set_columns_read = fk_delete_set_columns_read f,
     of_deferred = fk_deferred f, of_deferred_read = fk_deferred_read f\<rparr>"

definition observe_table :: "live_table \<Rightarrow> observed_table" where
  "observe_table t = \<lparr>ot_schema = tb_schema t, ot_name = tb_name t,
     ot_primary_key = tb_primary_key t, ot_primary_key_name = tb_primary_key_name t,
     ot_checks = tb_checks t, ot_check_defs = tb_check_defs t,
     ot_unique_constraints = (if tb_uniques_read t then Some (tb_uniques t) else None),
     ot_check_members = (if length (tb_check_members t) > 0
        then fold (\<lambda>(n, ms) m. put n ms m) (tb_check_members t) [] else []),
     ot_columns = map observe_column (tb_columns t),
     ot_indexes = map observe_index (tb_indexes t),
     ot_foreign_keys = map observe_foreign_key (tb_foreign_keys t)\<rparr>"

definition observe_enum :: "live_enum \<Rightarrow> observed_enum" where
  "observe_enum e = \<lparr>oe_schema = en_schema e, oe_name = en_name e, oe_type = en_type e,
     oe_labels = en_labels e\<rparr>"

definition observe_store :: "string \<Rightarrow> live_schema \<Rightarrow> observed_store" where
  "observe_store conn s = \<lparr>os_connection = conn, os_tables = map observe_table (lv_tables s),
     os_enum_types = map observe_enum (lv_enums s)\<rparr>"

section \<open>The world of a sync\<close>

record bucket =
  bk_connection :: string
  bk_body :: string

record apply_plan =
  ap_migrations :: "bucket list"
  ap_other :: string

record db_finding =
  fd_domain :: string
  fd_severity :: string
  fd_symbol :: string
  fd_message :: string

text \<open>An applier either observes its store, or says whether the store has no schema at all.\<close>

datatype applier = Observer "string + live_schema" | NoObserver bool

record plan_request =
  rq_base :: string
  rq_head :: string
  rq_baselines :: "string list"
  rq_observed :: "observed_store list"
  rq_targets :: "string list option"

record plan_response =
  rs_plan :: string
  rs_lossy :: "lossy_change list"
  rs_checkpoint :: "string option option"

datatype console_error = NoAddress string | DialFailed string | RpcFailed string | UndecodablePlan string

record sync_world =
  sw_classify :: "string \<Rightarrow> string \<Rightarrow> string + db_finding list"
  sw_applier :: "string \<Rightarrow> string + applier"
  sw_console :: "plan_request \<Rightarrow> console_error + plan_response"
  sw_decode :: "string \<Rightarrow> string + apply_plan"
  sw_apply :: "apply_plan \<Rightarrow> string option"

datatype log_line = DestructiveFinding db_finding | LossLine string | NotApplied string

datatype sync_effect =
    Classified
  | Opened string
  | ReadSchema string
  | PlanAsked plan_request
  | WarnedUnreadable string bool
  | Logged log_line
  | Snapshotted "string list" "string option"
  | Applied apply_plan

datatype sync_error =
    ClassifyFailed string
  | ConnectFailed string string
  | ObserveFailed string string
  | PlanFailed console_error
  | Refused string
  | NoSnapshotter
  | SnapshotFailed string
  | ApplyFailed string
  | ApplyDesync string

record planned =
  pn_plan :: apply_plan
  pn_lossy :: "lossy_change list"
  pn_checkpoint :: "string option"

record sync_result =
  sr_plan :: apply_plan
  sr_checkpoint :: "string option"
  sr_withheld :: "string list"

section \<open>The sync\<close>

text \<open>A checkpoint that is present with no bytes is still the console's answer.\<close>

definition decode_response ::
  "sync_world \<Rightarrow> plan_response \<Rightarrow> console_error + planned" where
  "decode_response w resp =
     (case sw_decode w (rs_plan resp) of
        Inl e \<Rightarrow> Inl (UndecodablePlan e)
      | Inr p \<Rightarrow> Inr \<lparr>pn_plan = p, pn_lossy = rs_lossy resp,
          pn_checkpoint = (case rs_checkpoint resp of
              None \<Rightarrow> None
            | Some ir \<Rightarrow> Some (case ir of None \<Rightarrow> [] | Some b \<Rightarrow> b))\<rparr>)"

definition plan_observed ::
  "sync_world \<Rightarrow> string \<Rightarrow> string \<Rightarrow> string list \<Rightarrow> observed_store list \<Rightarrow> string list option
     \<Rightarrow> (sync_effect, sync_error, planned) io" where
  "plan_observed w base current baselines observed targets =
     (let rq = \<lparr>rq_base = base, rq_head = current, rq_baselines = baselines,
                 rq_observed = observed, rq_targets = targets\<rparr>
      in perform (PlanAsked rq)
           (wrap_error PlanFailed
             (case sw_console w rq of Inl e \<Rightarrow> Inl e | Inr resp \<Rightarrow> decode_response w resp)))"

definition plan_migration_observed ::
  "sync_world \<Rightarrow> string \<Rightarrow> string \<Rightarrow> string list \<Rightarrow> observed_store list
     \<Rightarrow> (sync_effect, sync_error, apply_plan) io" where
  "plan_migration_observed w base current baselines observed =
     and_then (plan_observed w base current baselines observed None) (\<lambda>p. pure (pn_plan p))"

definition plan_migration ::
  "sync_world \<Rightarrow> string \<Rightarrow> string \<Rightarrow> string list \<Rightarrow> (sync_effect, sync_error, apply_plan) io" where
  "plan_migration w base current baselines = plan_migration_observed w base current baselines []"

fun observe_stores ::
  "sync_world \<Rightarrow> string list
     \<Rightarrow> (sync_effect, sync_error, observed_store list \<times> string list) io" where
  "observe_stores w [] = pure ([], [])"
| "observe_stores w (c # cs) =
     and_then (perform (Opened c) (wrap_error (ConnectFailed c) (sw_applier w c)))
       (\<lambda>ap. case ap of
          NoObserver schemaless \<Rightarrow>
            and_then (observe_stores w cs)
              (\<lambda>(out, unreadable). pure (out, if schemaless then unreadable else c # unreadable))
        | Observer r \<Rightarrow>
            and_then (perform (ReadSchema c) (wrap_error (ObserveFailed c) r))
              (\<lambda>live. and_then (observe_stores w cs)
                (\<lambda>(out, unreadable). pure (observe_store c live # out, unreadable))))"

definition warn_unreadable :: "string list \<Rightarrow> bool \<Rightarrow> (sync_effect, sync_error, unit) io" where
  "warn_unreadable conns knows_targets = emit_all (map (\<lambda>c. WarnedUnreadable c knows_targets) conns)"

definition no_target :: "string list \<Rightarrow> string \<Rightarrow> bool" where
  "no_target conns c \<longleftrightarrow> c \<noteq> [] \<and> \<not> List.member conns c"

definition untargeted_left_out ::
  "apply_plan \<Rightarrow> lossy_change list \<Rightarrow> string list option
     \<Rightarrow> (sync_effect, sync_error, apply_plan \<times> lossy_change list \<times> string list) io" where
  "untargeted_left_out plan lossy conns =
     (case conns of
        None \<Rightarrow> pure (plan, lossy, [])
      | Some cs \<Rightarrow>
          (let withheld = filter (no_target cs) (map bk_connection (ap_migrations plan));
               kept = filter (\<lambda>m. \<not> no_target cs (bk_connection m)) (ap_migrations plan)
           in and_then (emit_all (map (\<lambda>c. Logged (NotApplied c)) withheld))
                (\<lambda>_. pure (plan\<lparr>ap_migrations := kept\<rparr>,
                     filter (\<lambda>l. \<not> no_target cs (lc_connection l)) lossy, withheld))))"

definition sync_record :: "sync_result \<Rightarrow> string \<Rightarrow> string option" where
  "sync_record r current =
     (case sr_checkpoint r of
        Some c \<Rightarrow> Some c
      | None \<Rightarrow> if sr_withheld r \<noteq> [] then None else Some current)"

definition is_already_exists :: "string \<Rightarrow> bool" where
  "is_already_exists err \<longleftrightarrow> sublist ''already exists'' (to_lower err)"

definition wrap_desync :: "string \<Rightarrow> string \<Rightarrow> sync_error" where
  "wrap_desync base err =
     (if base \<noteq> [] \<or> \<not> is_already_exists err then ApplyFailed err else ApplyDesync err)"

text \<open>The decision on a destructive plan: a mode that is none of the three goes ahead, as
  \<^verbatim>\<open>apply\<close> does.\<close>

definition decide_losses ::
  "lossy_change list \<Rightarrow> string \<Rightarrow> (string list \<Rightarrow> string option \<Rightarrow> string option) option
     \<Rightarrow> string option \<Rightarrow> (sync_effect, sync_error, unit) io" where
  "decide_losses lossy mode snapshot rec =
     (if lossy = [] then pure ()
      else and_then (emit_all (map (\<lambda>l. Logged (LossLine (describe_loss l))) lossy))
        (\<lambda>_. if mode = ''refuse'' then raise (Refused (lossy_refusal lossy))
             else if mode = ''snapshot'' then
               (case snapshot of
                  None \<Rightarrow> raise NoSnapshotter
                | Some snap \<Rightarrow>
                    perform (Snapshotted (lossy_connections lossy) rec)
                      (outcome SnapshotFailed (snap (lossy_connections lossy) rec)))
             else pure ()))"

definition destructive_findings :: "db_finding list \<Rightarrow> db_finding list" where
  "destructive_findings = filter (\<lambda>f. fd_domain f = ''DB'' \<and>
     (fd_severity f = ''WARN'' \<or> fd_severity f = ''BREAKING''))"

definition dev_sync ::
  "sync_world \<Rightarrow> string \<Rightarrow> string \<Rightarrow> string list option \<Rightarrow> string
     \<Rightarrow> (string list \<Rightarrow> string option \<Rightarrow> string option) option
     \<Rightarrow> (sync_effect, sync_error, sync_result) io" where
  "dev_sync w base current conns mode snapshot =
     and_then (perform Classified (wrap_error ClassifyFailed (sw_classify w base current)))
     (\<lambda>findings. and_then (emit_all (map (\<lambda>f. Logged (DestructiveFinding f)) (destructive_findings findings)))
     (\<lambda>_. and_then (observe_stores w (case conns of None \<Rightarrow> [] | Some cs \<Rightarrow> cs))
     (\<lambda>(observed, unreadable). and_then (plan_observed w base current [] observed conns)
     (\<lambda>p. and_then (warn_unreadable unreadable (pn_checkpoint p \<noteq> None))
     (\<lambda>_. and_then
        (if pn_checkpoint p = None then untargeted_left_out (pn_plan p) (pn_lossy p) conns
         else pure (pn_plan p, pn_lossy p, []))
     (\<lambda>(plan, lossy, withheld).
        let res = \<lparr>sr_plan = plan, sr_checkpoint = pn_checkpoint p, sr_withheld = withheld\<rparr>
        in and_then (decide_losses lossy mode snapshot (sync_record res current))
     (\<lambda>_. and_then (perform (Applied plan) (outcome (wrap_desync base) (sw_apply w plan)))
     (\<lambda>_. pure res))))))))"

definition dev_plan_and_apply_lossy ::
  "sync_world \<Rightarrow> string \<Rightarrow> string \<Rightarrow> string list option \<Rightarrow> string
     \<Rightarrow> (string list \<Rightarrow> string option) option \<Rightarrow> (sync_effect, sync_error, apply_plan) io" where
  "dev_plan_and_apply_lossy w base current conns mode snapshot =
     and_then (dev_sync w base current conns mode (map_option (\<lambda>snap c _. snap c) snapshot))
       (\<lambda>res. pure (sr_plan res))"

definition dev_plan_and_apply ::
  "sync_world \<Rightarrow> string \<Rightarrow> string \<Rightarrow> string list option
     \<Rightarrow> (sync_effect, sync_error, apply_plan) io" where
  "dev_plan_and_apply w base current conns =
     dev_plan_and_apply_lossy w base current conns ''apply'' None"

section \<open>Reaching the apply\<close>

lemma observe_stores_trace:
  "v \<in> set (fst (observe_stores w cs)) \<Longrightarrow> (\<exists>c. v = Opened c) \<or> (\<exists>c. v = ReadSchema c)"
proof (induction cs)
  case Nil
  then show ?case by simp
next
  case (Cons c cs)
  show ?case
  proof (cases "sw_applier w c")
    case (Inl e)
    with Cons.prems show ?thesis by (simp add: and_then_error)
  next
    case (Inr ap)
    with Cons show ?thesis
      by (cases ap) (auto simp: in_trace_and_then split: prod.splits)
  qed
qed

lemma observe_stores_no_apply [simp]:
  "Applied pl \<notin> set (fst (observe_stores w cs))" "Snapshotted a b \<notin> set (fst (observe_stores w cs))"
  "PlanAsked rq \<notin> set (fst (observe_stores w cs))"
  using observe_stores_trace by fastforce+

text \<open>What the plan of a response comes to for a run with given targets: the buckets applied, the
  losses at stake and the connections withheld.\<close>

definition in_reach :: "plan_response \<Rightarrow> string list option \<Rightarrow> string \<Rightarrow> bool" where
  "in_reach resp conns c \<longleftrightarrow>
     rs_checkpoint resp \<noteq> None \<or> conns = None \<or> c = [] \<or> c \<in> set (the conns)"

definition losses_at_stake :: "plan_response \<Rightarrow> string list option \<Rightarrow> lossy_change list" where
  "losses_at_stake resp conns = filter (\<lambda>l. in_reach resp conns (lc_connection l)) (rs_lossy resp)"

definition buckets_in_reach :: "plan_response \<Rightarrow> string list option \<Rightarrow> apply_plan \<Rightarrow> bucket list" where
  "buckets_in_reach resp conns plan =
     filter (\<lambda>m. in_reach resp conns (bk_connection m)) (ap_migrations plan)"

lemma no_target_iff: "no_target cs c \<longleftrightarrow> c \<noteq> [] \<and> c \<notin> set cs"
  by (simp add: no_target_def)

definition reachable_part ::
  "planned \<Rightarrow> string list option \<Rightarrow> (sync_effect, sync_error, apply_plan \<times> lossy_change list \<times> string list) io"
where
  "reachable_part p conns =
     (if pn_checkpoint p = None then untargeted_left_out (pn_plan p) (pn_lossy p) conns
      else pure (pn_plan p, pn_lossy p, []))"

lemma reachable_part_result:
  assumes "decode_response w resp = Inr p"
  shows "snd (reachable_part p conns) = Inr
    ((pn_plan p)\<lparr>ap_migrations := buckets_in_reach resp conns (pn_plan p)\<rparr>, losses_at_stake resp conns,
     filter (\<lambda>c. \<not> in_reach resp conns c) (map bk_connection (ap_migrations (pn_plan p))))"
    and "v \<in> set (fst (reachable_part p conns)) \<Longrightarrow> \<exists>c. v = Logged (NotApplied c)"
proof -
  have p: "pn_lossy p = rs_lossy resp" "pn_checkpoint p = None \<longleftrightarrow> rs_checkpoint resp = None"
    using assms by (auto simp: decode_response_def split: sum.splits option.splits)
  show "snd (reachable_part p conns) = Inr
    ((pn_plan p)\<lparr>ap_migrations := buckets_in_reach resp conns (pn_plan p)\<rparr>, losses_at_stake resp conns,
     filter (\<lambda>c. \<not> in_reach resp conns c) (map bk_connection (ap_migrations (pn_plan p))))"
    using p by (auto simp: reachable_part_def untargeted_left_out_def losses_at_stake_def traced
        buckets_in_reach_def in_reach_def no_target_iff Let_def split: option.split intro!: filter_cong)
  show "v \<in> set (fst (reachable_part p conns)) \<Longrightarrow> \<exists>c. v = Logged (NotApplied c)"
    by (auto simp: reachable_part_def untargeted_left_out_def in_trace_and_then Let_def
        split: option.splits if_splits)
qed

text \<open>A run that applies, or succeeds, came through every earlier step; this names what they gave.\<close>

definition applied_result :: "planned \<Rightarrow> plan_response \<Rightarrow> string list option \<Rightarrow> sync_result" where
  "applied_result p resp conns =
     \<lparr>sr_plan = (pn_plan p)\<lparr>ap_migrations := buckets_in_reach resp conns (pn_plan p)\<rparr>,
      sr_checkpoint = pn_checkpoint p,
      sr_withheld = filter (\<lambda>c. \<not> in_reach resp conns c) (map bk_connection (ap_migrations (pn_plan p)))\<rparr>"

definition sync_request :: "string \<Rightarrow> string \<Rightarrow> observed_store list \<Rightarrow> string list option \<Rightarrow> plan_request" where
  "sync_request base current observed conns =
     \<lparr>rq_base = base, rq_head = current, rq_baselines = [], rq_observed = observed, rq_targets = conns\<rparr>"

definition reached :: "sync_effect list \<Rightarrow> sync_error + sync_result \<Rightarrow> bool" where
  "reached t r \<longleftrightarrow> (\<exists>pl. Applied pl \<in> set t) \<or> (\<exists>x. r = Inr x)"

definition sync_tail ::
  "sync_world \<Rightarrow> string \<Rightarrow> string \<Rightarrow> string \<Rightarrow> (string list \<Rightarrow> string option \<Rightarrow> string option) option
     \<Rightarrow> lossy_change list \<Rightarrow> sync_result \<Rightarrow> (sync_effect, sync_error, sync_result) io" where
  "sync_tail w base current mode snapshot lossy res =
     and_then (decide_losses lossy mode snapshot (sync_record res current))
       (\<lambda>_. and_then (perform (Applied (sr_plan res)) (outcome (wrap_desync base) (sw_apply w (sr_plan res))))
         (\<lambda>_. pure res))"

lemma dev_sync_stages:
  "dev_sync w base current conns mode snapshot =
     and_then (perform Classified (wrap_error ClassifyFailed (sw_classify w base current)))
     (\<lambda>findings. and_then (emit_all (map (\<lambda>f. Logged (DestructiveFinding f)) (destructive_findings findings)))
     (\<lambda>_. and_then (observe_stores w (case conns of None \<Rightarrow> [] | Some cs \<Rightarrow> cs))
     (\<lambda>(observed, unreadable). and_then (plan_observed w base current [] observed conns)
     (\<lambda>p. and_then (warn_unreadable unreadable (pn_checkpoint p \<noteq> None))
     (\<lambda>_. and_then (reachable_part p conns)
     (\<lambda>(plan, lossy, withheld). sync_tail w base current mode snapshot lossy
        \<lparr>sr_plan = plan, sr_checkpoint = pn_checkpoint p, sr_withheld = withheld\<rparr>))))))"
  by (simp add: dev_sync_def sync_tail_def reachable_part_def Let_def)

lemma reached_prefix:
  "\<forall>pl. Applied pl \<notin> set s \<Longrightarrow> reached (s @ t) r \<longleftrightarrow> reached t r"
  by (auto simp: reached_def)

lemma no_applied_logs: "\<forall>v \<in> set s. \<exists>l. v = Logged l \<Longrightarrow> \<forall>pl. Applied pl \<notin> set s"
  by auto

lemma dev_sync_reached:
  assumes run: "dev_sync w base current conns mode snapshot = (t, r)" and re: "reached t r"
  shows "\<exists>observed unreadable resp p pre.
    snd (observe_stores w (case conns of None \<Rightarrow> [] | Some cs \<Rightarrow> cs)) = Inr (observed, unreadable)
    \<and> sw_console w (sync_request base current observed conns) = Inr resp
    \<and> decode_response w resp = Inr p
    \<and> PlanAsked (sync_request base current observed conns) \<in> set pre
    \<and> (\<forall>c \<in> set unreadable. \<exists>k. WarnedUnreadable c k \<in> set pre)
    \<and> (\<forall>pl. Applied pl \<notin> set pre)
    \<and> t = pre @ fst (sync_tail w base current mode snapshot (losses_at_stake resp conns)
        (applied_result p resp conns))
    \<and> r = snd (sync_tail w base current mode snapshot (losses_at_stake resp conns)
        (applied_result p resp conns))"
proof -
  obtain findings where f: "sw_classify w base current = Inr findings"
    using run re by (cases "sw_classify w base current")
      (auto simp: dev_sync_stages and_then_error reached_def)
  obtain observed unreadable where
    o: "snd (observe_stores w (case conns of None \<Rightarrow> [] | Some cs \<Rightarrow> cs)) = Inr (observed, unreadable)"
    using run re by (cases "snd (observe_stores w (case conns of None \<Rightarrow> [] | Some cs \<Rightarrow> cs))")
      (auto simp: dev_sync_stages and_then_error and_then_ok f reached_def)
  let ?rq = "sync_request base current observed conns"
  have po: "plan_observed w base current [] observed conns = perform (PlanAsked ?rq)
      (wrap_error PlanFailed (case sw_console w ?rq of Inl e \<Rightarrow> Inl e | Inr resp \<Rightarrow> decode_response w resp))"
    by (simp add: plan_observed_def sync_request_def Let_def)
  obtain resp where resp: "sw_console w ?rq = Inr resp"
    using run re by (cases "sw_console w ?rq")
      (auto simp: dev_sync_stages and_then_error and_then_ok f o po reached_def)
  obtain p where p: "decode_response w resp = Inr p"
    using run re by (cases "decode_response w resp")
      (auto simp: dev_sync_stages and_then_error and_then_ok f o po resp reached_def)
  note part = reachable_part_result [OF p]
  let ?pre = "Classified # map (\<lambda>f. Logged (DestructiveFinding f)) (destructive_findings findings)
    @ fst (observe_stores w (case conns of None \<Rightarrow> [] | Some cs \<Rightarrow> cs)) @ [PlanAsked ?rq]
    @ map (\<lambda>c. WarnedUnreadable c (pn_checkpoint p \<noteq> None)) unreadable @ fst (reachable_part p conns)"
  have "Applied pl \<notin> set ?pre" for pl using part(2) by fastforce
  moreover have "t = ?pre @ fst (sync_tail w base current mode snapshot (losses_at_stake resp conns)
        (applied_result p resp conns))
    \<and> r = snd (sync_tail w base current mode snapshot (losses_at_stake resp conns)
        (applied_result p resp conns))"
    using run by (simp add: dev_sync_stages and_then_ok [OF part(1)] and_then_ok f o po resp p
        warn_unreadable_def applied_result_def)
  ultimately show ?thesis using o resp p by (intro exI [of _ ?pre] exI conjI) auto
qed

section \<open>What a sync may destroy\<close>

text \<open>The decision and the apply, unfolded: applying needs the losses to be allowed, and a
  snapshot-mode run has taken its snapshot by then.\<close>

definition losses_allowed ::
  "lossy_change list \<Rightarrow> string \<Rightarrow> (string list \<Rightarrow> string option \<Rightarrow> string option) option
     \<Rightarrow> string option \<Rightarrow> sync_effect list \<Rightarrow> bool" where
  "losses_allowed lossy mode snapshot rec before \<longleftrightarrow>
     lossy = [] \<or> mode \<noteq> ''refuse'' \<and>
       (mode \<noteq> ''snapshot'' \<or>
         (\<exists>snap. snapshot = Some snap \<and> snap (lossy_connections lossy) rec = None \<and>
            Snapshotted (lossy_connections lossy) rec \<in> set before))"

lemma decide_losses_ok:
  "snd (decide_losses lossy mode snapshot rec) = Inr u \<Longrightarrow>
     losses_allowed lossy mode snapshot rec (fst (decide_losses lossy mode snapshot rec))"
  by (auto simp: decide_losses_def losses_allowed_def traced split: option.splits if_splits)

lemma decide_losses_no_apply: "Applied pl \<notin> set (fst (decide_losses lossy mode snapshot rec))"
  by (auto simp: decide_losses_def traced split: option.splits if_splits)

lemma sync_tail_reached:
  assumes "reached (fst (sync_tail w base current mode snapshot lossy res))
      (snd (sync_tail w base current mode snapshot lossy res))"
  shows "\<exists>before. (\<forall>pl. Applied pl \<notin> set before)
    \<and> losses_allowed lossy mode snapshot (sync_record res current) before
    \<and> fst (sync_tail w base current mode snapshot lossy res) = before @ [Applied (sr_plan res)]
    \<and> (\<forall>x. snd (sync_tail w base current mode snapshot lossy res) = Inr x \<longrightarrow>
        x = res \<and> sw_apply w (sr_plan res) = None)"
proof (cases "snd (decide_losses lossy mode snapshot (sync_record res current))")
  case (Inl e)
  with assms show ?thesis
    by (simp add: sync_tail_def and_then_error reached_def decide_losses_no_apply)
next
  case (Inr u)
  show ?thesis
    using decide_losses_ok [OF Inr] Inr
    by (intro exI [of _ "fst (decide_losses lossy mode snapshot (sync_record res current))"])
      (auto simp: sync_tail_def and_then_ok decide_losses_no_apply traced split: sum.splits)
qed

text \<open>Everything a run that applied or succeeded shows, in one place.\<close>

lemma dev_sync_facts:
  assumes run: "dev_sync w base current conns mode snapshot = (t, r)" and re: "reached t r"
  obtains observed unreadable resp p before where
    "snd (observe_stores w (case conns of None \<Rightarrow> [] | Some cs \<Rightarrow> cs)) = Inr (observed, unreadable)"
    and "sw_console w (sync_request base current observed conns) = Inr resp"
    and "decode_response w resp = Inr p"
    and "PlanAsked (sync_request base current observed conns) \<in> set before"
    and "\<forall>c \<in> set unreadable. \<exists>k. WarnedUnreadable c k \<in> set before"
    and "\<forall>pl. Applied pl \<notin> set before"
    and "t = before @ [Applied (sr_plan (applied_result p resp conns))]"
    and "losses_allowed (losses_at_stake resp conns) mode snapshot
        (sync_record (applied_result p resp conns) current) before"
    and "\<forall>x. r = Inr x \<longrightarrow> x = applied_result p resp conns"
proof -
  from dev_sync_reached [OF assms] obtain observed unreadable resp p pre where
    o: "snd (observe_stores w (case conns of None \<Rightarrow> [] | Some cs \<Rightarrow> cs)) = Inr (observed, unreadable)"
    and q: "sw_console w (sync_request base current observed conns) = Inr resp"
    and p: "decode_response w resp = Inr p"
    and a: "PlanAsked (sync_request base current observed conns) \<in> set pre"
    and wu: "\<forall>c \<in> set unreadable. \<exists>k. WarnedUnreadable c k \<in> set pre"
    and na: "\<forall>pl. Applied pl \<notin> set pre"
    and t: "t = pre @ fst (sync_tail w base current mode snapshot (losses_at_stake resp conns)
        (applied_result p resp conns))"
    and r: "r = snd (sync_tail w base current mode snapshot (losses_at_stake resp conns)
        (applied_result p resp conns))"
    by blast
  have "reached (fst (sync_tail w base current mode snapshot (losses_at_stake resp conns)
        (applied_result p resp conns))) r"
    using re unfolding t reached_prefix [OF na] .
  from sync_tail_reached [OF this [unfolded r]] obtain b where
    nb: "\<forall>pl. Applied pl \<notin> set b"
    and al: "losses_allowed (losses_at_stake resp conns) mode snapshot
        (sync_record (applied_result p resp conns) current) b"
    and f: "fst (sync_tail w base current mode snapshot (losses_at_stake resp conns)
        (applied_result p resp conns)) = b @ [Applied (sr_plan (applied_result p resp conns))]"
    and x: "\<forall>x. r = Inr x \<longrightarrow> x = applied_result p resp conns"
    unfolding r by blast
  have 1: "PlanAsked (sync_request base current observed conns) \<in> set (pre @ b)" using a by simp
  have 2: "\<forall>c \<in> set unreadable. \<exists>k. WarnedUnreadable c k \<in> set (pre @ b)"
    using wu by (metis Un_iff set_append)
  have 3: "\<forall>pl. Applied pl \<notin> set (pre @ b)" using na nb by simp
  have 4: "t = (pre @ b) @ [Applied (sr_plan (applied_result p resp conns))]" unfolding t f by simp
  have 5: "losses_allowed (losses_at_stake resp conns) mode snapshot
      (sync_record (applied_result p resp conns) current) (pre @ b)"
    using al unfolding losses_allowed_def by (metis Un_iff set_append)
  show ?thesis by (rule that [OF o q p 1 2 3 4 5 x])
qed

text \<open>C1: the sync applies at most one plan, as its last effect, and only when its losses are allowed:
  there are none in the connections it applies to, or the mode is not \<^verbatim>\<open>refuse\<close>; and in
  \<^verbatim>\<open>snapshot\<close> mode the snapshot function of the command was called before with exactly the connections
  that lose something, with the very record the caller is told to store, and reported success. (What the
  function of \<^verbatim>\<open>stack build\<close> may leave out and still report success is
  \<^verbatim>\<open>lossy_sync_goes_on_with_a_partial_snapshot\<close> of \<^verbatim>\<open>StackSwitch\<close>.)\<close>

theorem sync_applies_only_what_was_allowed:
  assumes "dev_sync w base current conns mode snapshot = (t, r)" and "Applied pl \<in> set t"
  shows "\<exists>before rq resp rec. t = before @ [Applied pl] \<and> (\<forall>pl'. Applied pl' \<notin> set before)
    \<and> PlanAsked rq \<in> set before \<and> sw_console w rq = Inr resp
    \<and> losses_allowed (losses_at_stake resp conns) mode snapshot rec before
    \<and> (\<forall>res. r = Inr res \<longrightarrow> sr_plan res = pl \<and> sync_record res current = rec)"
proof -
  have "reached t r" using assms(2) by (auto simp: reached_def)
  then obtain observed unreadable resp p before where
    "snd (observe_stores w (case conns of None \<Rightarrow> [] | Some cs \<Rightarrow> cs)) = Inr (observed, unreadable)" and
    f: "sw_console w (sync_request base current observed conns) = Inr resp"
    "decode_response w resp = Inr p"
    "PlanAsked (sync_request base current observed conns) \<in> set before"
    "\<forall>c \<in> set unreadable. \<exists>k. WarnedUnreadable c k \<in> set before"
    "\<forall>pl. Applied pl \<notin> set before"
    "t = before @ [Applied (sr_plan (applied_result p resp conns))]"
    "losses_allowed (losses_at_stake resp conns) mode snapshot
        (sync_record (applied_result p resp conns) current) before"
    "\<forall>x. r = Inr x \<longrightarrow> x = applied_result p resp conns"
    by (rule dev_sync_facts [OF assms(1)])
  have "pl = sr_plan (applied_result p resp conns)" using assms(2) f(5,6) by auto
  with f(1,3,5-8) show ?thesis by blast
qed

text \<open>A sample: one store that is observed, an older console, a plan that drops a column there and
  touches a store this run has no target for.\<close>

definition sample_loss :: lossy_change where
  "sample_loss = \<lparr>lc_connection = ''main'', lc_kind = ''drop_column'', lc_object = ''user.nick'', lc_detail = []\<rparr>"

definition sample_plan :: apply_plan where
  "sample_plan = \<lparr>ap_migrations = [\<lparr>bk_connection = ''main'', bk_body = ''ALTER''\<rparr>,
     \<lparr>bk_connection = ''other'', bk_body = ''CREATE''\<rparr>], ap_other = []\<rparr>"

definition sample_world :: sync_world where
  "sample_world = \<lparr>sw_classify = \<lambda>_ _. Inr [],
     sw_applier = \<lambda>c. if c = ''main'' then Inr (Observer (Inr \<lparr>lv_tables = [], lv_enums = []\<rparr>))
       else Inr (NoObserver (c = ''cache'')),
     sw_console = \<lambda>_. Inr \<lparr>rs_plan = ''P'', rs_lossy = [sample_loss], rs_checkpoint = None\<rparr>,
     sw_decode = \<lambda>_. Inr sample_plan, sw_apply = \<lambda>_. None\<rparr>"

definition sample_run :: "string \<Rightarrow> (sync_effect, sync_error, sync_result) io" where
  "sample_run mode = dev_sync sample_world ''B'' ''H'' (Some [''main'', ''cache'', ''file'']) mode
     (Some (\<lambda>_ _. None))"

definition sample_result :: sync_result where
  "sample_result = \<lparr>sr_plan = sample_plan\<lparr>ap_migrations := [\<lparr>bk_connection = ''main'', bk_body = ''ALTER''\<rparr>]\<rparr>,
     sr_checkpoint = None, sr_withheld = [''other'']\<rparr>"

lemma sample_snapshot_run:
  "snd (sample_run ''snapshot'') = Inr sample_result"
  "Applied (sr_plan sample_result) \<in> set (fst (sample_run ''snapshot''))"
  by (simp_all add: sample_run_def dev_sync_def sample_world_def traced plan_observed_def decode_response_def
      warn_unreadable_def untargeted_left_out_def sample_plan_def no_target_def decide_losses_def
      sample_loss_def sample_result_def Let_def)

theorem sync_applies_only_what_was_allowed_witness:
  "\<exists>before. fst (sample_run ''snapshot'') = before @ [Applied (sr_plan sample_result)]
    \<and> Snapshotted [''main''] None \<in> set before"
proof -
  have run: "dev_sync sample_world ''B'' ''H'' (Some [''main'', ''cache'', ''file'']) ''snapshot'' (Some (\<lambda>_ _. None))
      = (fst (sample_run ''snapshot''), snd (sample_run ''snapshot''))"
    by (simp add: sample_run_def)
  from sync_applies_only_what_was_allowed [OF run sample_snapshot_run(2)]
  obtain before rq resp rec where
    b: "fst (sample_run ''snapshot'') = before @ [Applied (sr_plan sample_result)]"
    and resp: "sw_console sample_world rq = Inr resp"
    and al: "losses_allowed (losses_at_stake resp (Some [''main'', ''cache'', ''file''])) ''snapshot''
      (Some (\<lambda>_ _. None)) rec before"
    and rec: "\<forall>res. snd (sample_run ''snapshot'') = Inr res \<longrightarrow> sync_record res ''H'' = rec"
    by blast
  have l: "losses_at_stake resp (Some [''main'', ''cache'', ''file'']) = [sample_loss]"
    using resp by (auto simp: sample_world_def losses_at_stake_def in_reach_def sample_loss_def)
  have "rec = None"
    using rec sample_snapshot_run(1) by (simp add: sync_record_def sample_result_def)
  then have "Snapshotted [''main''] None \<in> set before"
    using al unfolding l
    by (simp add: losses_allowed_def lossy_connections_def sample_loss_def)
  with b show ?thesis by blast
qed

section \<open>What a sync records\<close>

lemma filter_eq_Nil_iff: "filter P xs = [] \<longleftrightarrow> (\<forall>x \<in> set xs. \<not> P x)"
  by (induction xs) auto

lemma decoded_response:
  "decode_response w resp = Inr p \<Longrightarrow> sw_decode w (rs_plan resp) = Inr (pn_plan p) \<and>
     pn_checkpoint p = (case rs_checkpoint resp of None \<Rightarrow> None
       | Some ir \<Rightarrow> Some (case ir of None \<Rightarrow> [] | Some b \<Rightarrow> b))"
  by (auto simp: decode_response_def split: sum.splits)

lemma applied_buckets:
  "ap_migrations (sr_plan (applied_result p resp conns)) =
     filter (\<lambda>m. in_reach resp conns (bk_connection m)) (ap_migrations (pn_plan p))"
  by (simp add: applied_result_def buckets_in_reach_def)

lemma record_of_old_console:
  "decode_response w resp = Inr p \<Longrightarrow> rs_checkpoint resp = None \<Longrightarrow>
     sync_record (applied_result p resp conns) current =
       (if \<forall>m \<in> set (ap_migrations (pn_plan p)). in_reach resp conns (bk_connection m)
        then Some current else None)"
  by (auto simp: applied_result_def sync_record_def filter_eq_Nil_iff dest!: decoded_response)

lemma record_of_checkpoint:
  "decode_response w resp = Inr p \<Longrightarrow> rs_checkpoint resp = Some ir \<Longrightarrow>
     sr_plan (applied_result p resp conns) = pn_plan p \<and>
     sync_record (applied_result p resp conns) current = Some (case ir of None \<Rightarrow> [] | Some b \<Rightarrow> b)"
  by (auto simp: applied_result_def sync_record_def buckets_in_reach_def in_reach_def dest!: decoded_response)



section \<open>Every store is accounted for\<close>

definition accounted ::
  "sync_world \<Rightarrow> observed_store list \<Rightarrow> string list \<Rightarrow> string \<Rightarrow> bool" where
  "accounted w observed unreadable c \<longleftrightarrow>
     (\<exists>live. sw_applier w c = Inr (Observer (Inr live)) \<and> observe_store c live \<in> set observed) \<or>
     sw_applier w c = Inr (NoObserver True) \<or>
     sw_applier w c = Inr (NoObserver False) \<and> c \<in> set unreadable"

lemma accounted_mono:
  "accounted w out un c \<Longrightarrow> set out \<subseteq> set out' \<Longrightarrow> set un \<subseteq> set un' \<Longrightarrow> accounted w out' un' c"
  unfolding accounted_def by blast

lemma observe_stores_accounted:
  "snd (observe_stores w cs) = Inr (observed, unreadable) \<Longrightarrow> c \<in> set cs \<Longrightarrow> accounted w observed unreadable c"
proof (induction cs arbitrary: observed unreadable)
  case Nil
  then show ?case by simp
next
  case (Cons d cs)
  show ?case
  proof (cases "sw_applier w d")
    case (Inl e)
    with Cons.prems show ?thesis by (simp add: and_then_error)
  next
    case (Inr ap)
    from Cons.prems(1) Inr obtain out un where tl: "snd (observe_stores w cs) = Inr (out, un)"
      by (cases ap) (auto simp: ok_and_then)
    have d: "accounted w observed unreadable d \<and> set out \<subseteq> set observed \<and> set un \<subseteq> set unreadable"
      using Cons.prems(1) Inr tl by (cases ap) (auto simp: ok_and_then accounted_def split: if_splits)
    show ?thesis
    proof (cases "c = d")
      case True
      with d show ?thesis by simp
    next
      case False
      with Cons.prems(2) have "accounted w out un c" by (auto intro: Cons.IH [OF tl])
      with d show ?thesis by (blast intro: accounted_mono)
    qed
  qed
qed

text \<open>A sync that succeeds has skipped no store in silence: of every connection it was given, the
  console was told what the store holds, or the store has no schema, or the developer was warned.\<close>

theorem no_store_is_skipped_in_silence:
  assumes "dev_sync w base current (Some cs) mode snapshot = (t, Inr res)" and "c \<in> set cs"
  shows "\<exists>rq. PlanAsked rq \<in> set t \<and>
    ((\<exists>live. sw_applier w c = Inr (Observer (Inr live)) \<and> observe_store c live \<in> set (rq_observed rq))
     \<or> sw_applier w c = Inr (NoObserver True)
     \<or> sw_applier w c = Inr (NoObserver False) \<and> (\<exists>k. WarnedUnreadable c k \<in> set t))"
proof -
  have "reached t (Inr res)" by (simp add: reached_def)
  with assms(1) obtain observed unreadable resp p before where
    o: "snd (observe_stores w (case Some cs of None \<Rightarrow> [] | Some cs \<Rightarrow> cs)) = Inr (observed, unreadable)" and
    f: "sw_console w (sync_request base current observed (Some cs)) = Inr resp"
    "decode_response w resp = Inr p"
    "PlanAsked (sync_request base current observed (Some cs)) \<in> set before"
    "\<forall>c \<in> set unreadable. \<exists>k. WarnedUnreadable c k \<in> set before"
    "\<forall>pl. Applied pl \<notin> set before"
    "t = before @ [Applied (sr_plan (applied_result p resp (Some cs)))]"
    "losses_allowed (losses_at_stake resp (Some cs)) mode snapshot
        (sync_record (applied_result p resp (Some cs)) current) before"
    "\<forall>x. Inr res = (Inr x :: sync_error + sync_result) \<longrightarrow> x = applied_result p resp (Some cs)"
    by (rule dev_sync_facts)
  have a: "accounted w observed unreadable c"
    using observe_stores_accounted [of w cs] o assms(2) by simp
  have "rq_observed (sync_request base current observed (Some cs)) = observed"
    by (simp add: sync_request_def)
  moreover have "PlanAsked (sync_request base current observed (Some cs)) \<in> set t" using f(3,6) by simp
  moreover have "\<exists>k. WarnedUnreadable c k \<in> set t" if "c \<in> set unreadable"
    using f(4,6) that by (metis Un_iff set_append)
  ultimately show ?thesis using a unfolding accounted_def by metis
qed

theorem no_store_is_skipped_in_silence_witness:
  "\<exists>k. WarnedUnreadable ''file'' k \<in> set (fst (sample_run ''snapshot''))"
proof -
  have run: "dev_sync sample_world ''B'' ''H'' (Some [''main'', ''cache'', ''file'']) ''snapshot'' (Some (\<lambda>_ _. None))
      = (fst (sample_run ''snapshot''), Inr sample_result)"
    unfolding sample_snapshot_run(1) [symmetric] sample_run_def by simp
  have f: "sw_applier sample_world ''file'' = Inr (NoObserver False)" by (simp add: sample_world_def)
  from no_store_is_skipped_in_silence [OF run, of "''file''"] show ?thesis by (simp add: f)
qed

section \<open>Nothing read is lost on the wire\<close>

text \<open>What the console can read back from a message.\<close>

definition read_column :: "observed_column \<Rightarrow> live_column" where
  "read_column c = \<lparr>col_name = oc_name c, col_type = oc_type c, col_nullable = oc_nullable c,
     col_default = oc_default_expr c, col_generated = oc_generated c, col_identity = oc_identity c\<rparr>"

definition read_index :: "observed_index \<Rightarrow> live_index" where
  "read_index i = \<lparr>ix_name = oi_name i, ix_unique = oi_unique i, ix_definition = oi_definition i\<rparr>"

definition read_foreign_key :: "observed_foreign_key \<Rightarrow> live_foreign_key" where
  "read_foreign_key f = \<lparr>fk_name = of_name f, fk_columns = of_columns f,
     fk_target_table = of_target_table f, fk_target_column = of_target_column f,
     fk_on_delete = of_on_delete f, fk_target_schema = of_target_schema f,
     fk_target_columns = of_target_columns f, fk_delete_set_columns = of_delete_set_columns f,
     fk_delete_set_columns_read = of_delete_set_columns_read f,
     fk_deferred = of_deferred f, fk_deferred_read = of_deferred_read f\<rparr>"

definition read_table :: "observed_table \<Rightarrow> live_table" where
  "read_table t = \<lparr>tb_schema = ot_schema t, tb_name = ot_name t,
     tb_primary_key = ot_primary_key t, tb_primary_key_name = ot_primary_key_name t,
     tb_checks = ot_checks t, tb_check_defs = ot_check_defs t,
     tb_uniques_read = (ot_unique_constraints t \<noteq> None),
     tb_uniques = (case ot_unique_constraints t of None \<Rightarrow> [] | Some us \<Rightarrow> us),
     tb_check_members = ot_check_members t,
     tb_columns = map read_column (ot_columns t),
     tb_indexes = map read_index (ot_indexes t),
     tb_foreign_keys = map read_foreign_key (ot_foreign_keys t)\<rparr>"

definition read_enum :: "observed_enum \<Rightarrow> live_enum" where
  "read_enum e = \<lparr>en_schema = oe_schema e, en_name = oe_name e, en_type = oe_type e, en_labels = oe_labels e\<rparr>"

definition read_store :: "observed_store \<Rightarrow> live_schema" where
  "read_store s = \<lparr>lv_tables = map read_table (os_tables s), lv_enums = map read_enum (os_enum_types s)\<rparr>"

definition readable_table :: "live_table \<Rightarrow> bool" where
  "readable_table t \<longleftrightarrow> wf_map (tb_check_members t) \<and> (tb_uniques_read t \<or> tb_uniques t = [])"

lemma update_new: "k \<notin> fst ` set m \<Longrightarrow> put k v m = m @ [(k, v)]"
  by (induction m) auto

lemma copy_map: "wf_map (m @ n) \<Longrightarrow> fold (\<lambda>(k, v) m. put k v m) n m = m @ n"
proof (induction n arbitrary: m)
  case Nil
  show ?case by simp
next
  case (Cons x n)
  obtain k v where x: "x = (k, v)" by (cases x)
  with Cons.prems have "k \<notin> fst ` set m" "wf_map ((m @ [(k, v)]) @ n)" by auto
  then show ?case using Cons.IH [of "m @ [(k, v)]"] x by (simp add: update_new)
qed

lemma read_observed_parts [simp]:
  "read_column \<circ> observe_column = id" "read_index \<circ> observe_index = id"
  "read_foreign_key \<circ> observe_foreign_key = id" "read_enum \<circ> observe_enum = id"
  by (auto simp: fun_eq_iff read_column_def observe_column_def read_index_def observe_index_def
      read_foreign_key_def observe_foreign_key_def read_enum_def observe_enum_def)

lemma read_observed_table: "readable_table t \<Longrightarrow> read_table (observe_table t) = t"
  using copy_map [of "[]" "tb_check_members t"]
  by (cases t) (auto simp: readable_table_def read_table_def observe_table_def)

text \<open>Every fact the client reads from a live schema reaches the console: from the message it
  builds the schema can be read back unchanged, member sets, generated columns and deferrability
  included, with "no unique constraint" kept apart from "not read".\<close>

theorem observation_is_lossless:
  assumes "\<forall>t \<in> set (lv_tables live). readable_table t"
  shows "read_store (observe_store conn live) = live \<and> os_connection (observe_store conn live) = conn"
proof -
  have "map (\<lambda>t. read_table (observe_table t)) (lv_tables live) = lv_tables live"
    using assms read_observed_table by (simp add: map_idI)
  then show ?thesis by (simp add: read_store_def observe_store_def) (simp add: comp_def)
qed

definition sample_table :: live_table where
  "sample_table = \<lparr>tb_schema = ''public'', tb_name = ''user'', tb_primary_key = [''id''],
     tb_primary_key_name = ''user_pk'', tb_checks = [''kind_check''], tb_check_defs = [],
     tb_uniques_read = True, tb_uniques = [(''u_email'', [''email''])],
     tb_check_members = [(''kind_check'', [''a'', ''b'']), (''size_check'', [''s''])],
     tb_columns = [\<lparr>col_name = ''id'', col_type = ''int8'', col_nullable = False, col_default = [],
       col_generated = [], col_identity = ''a''\<rparr>],
     tb_indexes = [], tb_foreign_keys = []\<rparr>"

theorem observation_is_lossless_witness:
  "read_store (observe_store ''main'' \<lparr>lv_tables = [sample_table], lv_enums = []\<rparr>)
     = \<lparr>lv_tables = [sample_table], lv_enums = []\<rparr>"
  using observation_is_lossless [of "\<lparr>lv_tables = [sample_table], lv_enums = []\<rparr>" "''main''"]
  by (simp add: sample_table_def readable_table_def)

section \<open>The refusal\<close>

lemma losses_by_connection_lookup:
  "map_of (fold (\<lambda>l m. push_to (lc_connection l) (''    '' @ describe_loss l) m) ls m) c =
     (case map (\<lambda>l. ''    '' @ describe_loss l) (filter (\<lambda>l. lc_connection l = c) ls) of
        [] \<Rightarrow> map_of m c
      | ds \<Rightarrow> Some ((case map_of m c of None \<Rightarrow> [] | Some vs \<Rightarrow> vs) @ ds))"
proof (induction ls arbitrary: m)
  case Nil
  show ?case by simp
next
  case (Cons l ls)
  then show ?case
    by (cases "lc_connection l = c"; cases "filter (\<lambda>l. lc_connection l = c) ls")
      (auto simp: push_to_def)
qed

lemma sublist_join: "x \<in> set xs \<Longrightarrow> sublist x (join_with sep xs)"
proof (induction sep xs rule: join_with.induct)
  case (3 sep y z zs)
  then show ?case
    by (auto intro: sublist_appendI sublist_order.order.trans [OF _ sublist_append_leftI])
qed auto

lemma sublist_mid: "sublist b c \<Longrightarrow> sublist b (a @ c @ d)"
  by (meson sublist_append_leftI sublist_append_rightI sublist_order.order.trans)

lemma sublist_concat: "x \<in> set xs \<Longrightarrow> sublist x (concat xs)"
  by (auto simp: sublist_def dest!: split_list) blast

text \<open>The refusal is empty exactly when nothing is lost, and otherwise it names every loss in the
  paragraph of its connection, each paragraph introduced by the connection's name.\<close>

theorem refusal_names_every_loss:
  "(lossy_refusal lossy = [] \<longleftrightarrow> lossy = []) \<and>
   (\<forall>l \<in> set lossy. \<exists>para. sublist para (lossy_refusal lossy) \<and>
      prefix (''  '' @ (if lc_connection l = [] then ''(default connection)'' else lc_connection l) @ '':'' @ [nl]) para \<and>
      sublist (''    '' @ describe_loss l) para)"
proof
  show "lossy_refusal lossy = [] \<longleftrightarrow> lossy = []" by (simp add: lossy_refusal_def Let_def)
  show "\<forall>l \<in> set lossy. \<exists>para. sublist para (lossy_refusal lossy) \<and>
      prefix (''  '' @ (if lc_connection l = [] then ''(default connection)'' else lc_connection l) @ '':'' @ [nl]) para \<and>
      sublist (''    '' @ describe_loss l) para"
  proof
    fix l assume l: "l \<in> set lossy"
    define m where "m = losses_by_connection lossy"
    define ds where "ds = map (\<lambda>l. ''    '' @ describe_loss l)
      (filter (\<lambda>k. lc_connection k = lc_connection l) lossy)"
    have d: "''    '' @ describe_loss l \<in> set ds" using l by (auto simp: ds_def)
    then have "ds \<noteq> []" by auto
    then have m: "map_of m (lc_connection l) = Some ds"
      unfolding m_def losses_by_connection_def losses_by_connection_lookup ds_def by (simp split: list.split)
    then have "lc_connection l \<in> set (sort (keys_of m))" by (metis map_of_in_keys set_sort)
    then have "sublist (loss_block m (lc_connection l)) (concat (map (loss_block m) (sort (keys_of m))))"
      by (intro sublist_concat) (metis imageI list.set_map)
    from sublist_mid [OF this, of "''this sync would DESTROY data in your local database'' @ [nl]" refusal_help]
    have "sublist (loss_block m (lc_connection l)) (lossy_refusal lossy)"
      using l by (simp add: lossy_refusal_def Let_def m_def del: append_Cons) (use append.assoc in auto)
    moreover have "sublist (''    '' @ describe_loss l) (loss_block m (lc_connection l))"
      using sublist_mid [OF sublist_join [OF d, of "[nl]"], of
        "''  '' @ (if lc_connection l = [] then ''(default connection)'' else lc_connection l) @ '':'' @ [nl]" "[nl]"]
      by (simp only: loss_block_def m option.simps(5) append.assoc)
    ultimately show "\<exists>para. sublist para (lossy_refusal lossy) \<and>
      prefix (''  '' @ (if lc_connection l = [] then ''(default connection)'' else lc_connection l) @ '':'' @ [nl]) para \<and>
      sublist (''    '' @ describe_loss l) para"
      by (intro exI [of _ "loss_block m (lc_connection l)"]) (simp add: loss_block_def)
  qed
qed

theorem refusal_names_every_loss_witness:
  "\<exists>para. sublist para (lossy_refusal [sample_loss]) \<and> prefix (''  main:'' @ [nl]) para \<and>
     sublist (''    '' @ describe_loss sample_loss) para"
proof -
  have "sample_loss \<in> set [sample_loss]" by simp
  with refusal_names_every_loss [of "[sample_loss]"] obtain para where
    "sublist para (lossy_refusal [sample_loss])"
    and "prefix (''  '' @ (if lc_connection sample_loss = [] then ''(default connection)''
      else lc_connection sample_loss) @ '':'' @ [nl]) para"
    and "sublist (''    '' @ describe_loss sample_loss) para"
    by blast
  moreover have "''  '' @ (if lc_connection sample_loss = [] then ''(default connection)''
      else lc_connection sample_loss) @ '':'' @ [nl] = ''  main:'' @ [nl]"
    by (simp add: sample_loss_def)
  ultimately show ?thesis by metis
qed

end
