(* ===== verification/Reconcile.thy ===== *)
theory Reconcile
  imports Traced
begin

text \<open>
  The branch switch (\<^verbatim>\<open>internal/reconcile/reconcile.go\<close>): when the checked-out branch is not the one
  whose data the local stores hold, quiesce the services, dump the outgoing branch, restore or build
  the incoming one, converge it, record the new live branch, and start the services again on every
  path once they were stopped.

  \<^verbatim>\<open>Deps\<close> is the record \<open>deps\<close>: every injected function is an option (a nil one is \<^const>\<open>None\<close>)
  and answers with its error or nothing. Calling a nil function is a Go panic, which still runs the
  deferred restart; it is the error \<open>NilDep\<close>.
\<close>

datatype progress =
    SwitchDetected string string
  | NotSnapshotting string
  | Snapshotting string
  | Restoring string
  | NoSnapshotFor string
  | ResumeFailed string
  | RunStackUp
  | ReconcileComplete string

datatype branch_effect =
    Quiesced
  | Resumed
  | Dumped string
  | Restored string
  | BuiltFresh
  | Seeded
  | DiffApplied
  | RecordedLive string
  | Progress progress

record deps =
  dp_current_branch :: "string option"
  dp_skip_snapshot :: bool
  dp_last_live :: "(string + string) option"
  dp_set_last_live :: "(string \<Rightarrow> string option) option"
  dp_has_snapshot :: "(string \<Rightarrow> bool) option"
  dp_quiesce :: "string option option"
  dp_resume :: "string option option"
  dp_dump :: "(string \<Rightarrow> string option) option"
  dp_restore :: "(string \<Rightarrow> string option) option"
  dp_build_fresh :: "string option option"
  dp_seed_fixtures :: "string option option"
  dp_diff_apply :: "string option option"

record outcome_of_run =
  oc_switched :: bool
  oc_from :: string
  oc_to :: string
  oc_fresh :: bool
  oc_unsnapshotted :: string

datatype reconcile_error =
    DepsMissing
  | ReadLastLive string
  | RecordLive string
  | QuiesceFailed string
  | SnapshotRefused string string
  | RestoreFailed string string
  | BuildFailed string
  | SeedFailed string
  | DiffFailed string
  | NilDep

definition no_outcome :: outcome_of_run where
  "no_outcome = \<lparr>oc_switched = False, oc_from = [], oc_to = [], oc_fresh = False, oc_unsnapshotted = []\<rparr>"

text \<open>Go returns the outcome beside the error; here an error carries the outcome reached.\<close>

type_synonym 'a run = "(branch_effect, reconcile_error \<times> outcome_of_run, 'a) io"

definition say :: "progress \<Rightarrow> unit run" where
  "say p = emit (Progress p)"

text \<open>Calling an injected function: its effect, then its error wrapped. A nil one has no effect.\<close>

definition call :: "outcome_of_run \<Rightarrow> branch_effect \<Rightarrow> (string \<Rightarrow> reconcile_error) \<Rightarrow> string option option \<Rightarrow> unit run" where
  "call out e w f =
     (case f of
        None \<Rightarrow> raise (NilDep, out)
      | Some r \<Rightarrow> perform e (outcome (\<lambda>err. (w err, out)) r))"

definition call_if_set :: "outcome_of_run \<Rightarrow> branch_effect \<Rightarrow> (string \<Rightarrow> reconcile_error) \<Rightarrow> string option option \<Rightarrow> unit run" where
  "call_if_set out e w f = (if f = None then pure () else call out e w f)"

definition apply_dep :: "(string \<Rightarrow> string option) option \<Rightarrow> string \<Rightarrow> string option option" where
  "apply_dep f b = map_option (\<lambda>g. g b) f"

text \<open>The outgoing half, and the incoming half.\<close>

definition leave_branch :: "deps \<Rightarrow> string \<Rightarrow> outcome_of_run \<Rightarrow> outcome_of_run run" where
  "leave_branch d lst out =
     (if dp_skip_snapshot d then
        and_then (say (NotSnapshotting lst)) (\<lambda>_. pure (out\<lparr>oc_unsnapshotted := lst\<rparr>))
      else
        and_then (say (Snapshotting lst))
          (\<lambda>_. and_then (call out (Dumped lst) (SnapshotRefused lst) (apply_dep (dp_dump d) lst))
            (\<lambda>_. pure out)))"

definition has_snapshot :: "deps \<Rightarrow> string \<Rightarrow> bool" where
  "has_snapshot d b = (case dp_has_snapshot d of None \<Rightarrow> False | Some f \<Rightarrow> f b)"

definition enter_branch :: "deps \<Rightarrow> string \<Rightarrow> outcome_of_run \<Rightarrow> outcome_of_run run" where
  "enter_branch d current out =
     (if has_snapshot d current then
        and_then (say (Restoring current))
          (\<lambda>_. and_then (call out (Restored current) (RestoreFailed current) (apply_dep (dp_restore d) current))
            (\<lambda>_. pure out))
      else
        (let out = out\<lparr>oc_fresh := True\<rparr>
         in and_then (say (NoSnapshotFor current))
              (\<lambda>_. and_then (call out BuiltFresh BuildFailed (dp_build_fresh d))
                (\<lambda>_. and_then (call_if_set out Seeded SeedFailed (dp_seed_fixtures d))
                  (\<lambda>_. pure out)))))"

definition switch_body :: "deps \<Rightarrow> string \<Rightarrow> string \<Rightarrow> outcome_of_run \<Rightarrow> outcome_of_run run" where
  "switch_body d lst current out =
     and_then (leave_branch d lst out)
     (\<lambda>out. and_then (enter_branch d current out)
     (\<lambda>out. and_then (call_if_set out DiffApplied DiffFailed (dp_diff_apply d))
     (\<lambda>_. and_then (call out (RecordedLive current) RecordLive (apply_dep (dp_set_last_live d) current))
     (\<lambda>_. and_then (say (ReconcileComplete current)) (\<lambda>_. pure out)))))"

text \<open>The deferred restart runs whatever the body returned.\<close>

definition with_resume :: "deps \<Rightarrow> 'a run \<Rightarrow> 'a run" where
  "with_resume d m =
     (case dp_resume d of
        None \<Rightarrow> m
      | Some r \<Rightarrow>
          (fst m @ Resumed # (case r of None \<Rightarrow> []
             | Some e \<Rightarrow> [Progress (ResumeFailed e), Progress RunStackUp]), snd m))"

definition reconcile_run :: "deps \<Rightarrow> outcome_of_run run" where
  "reconcile_run d =
     (if dp_current_branch d = None \<or> dp_last_live d = None \<or> dp_set_last_live d = None
      then raise (DepsMissing, no_outcome)
      else
        (let current = the (dp_current_branch d)
         in if current = [] then pure no_outcome
            else
              (let out = no_outcome\<lparr>oc_to := current\<rparr>
               in case the (dp_last_live d) of
                    Inl e \<Rightarrow> raise (ReadLastLive e, out)
                  | Inr lst \<Rightarrow>
                      (let out = out\<lparr>oc_from := lst\<rparr>
                       in if lst = [] \<or> lst = current then
                            and_then (call out (RecordedLive current) RecordLive
                                (apply_dep (dp_set_last_live d) current)) (\<lambda>_. pure out)
                          else
                            (let out = out\<lparr>oc_switched := True\<rparr>
                             in and_then (say (SwitchDetected lst current))
                                (\<lambda>_. and_then (call out Quiesced QuiesceFailed (dp_quiesce d))
                                (\<lambda>_. with_resume d (switch_body d lst current out))))))))"

section \<open>Facts on the steps\<close>

definition overwrites :: "branch_effect \<Rightarrow> bool" where
  "overwrites e \<longleftrightarrow> (\<exists>b. e = Restored b) \<or> e = BuiltFresh \<or> e = Seeded \<or> e = DiffApplied"

definition touches_stores :: "branch_effect \<Rightarrow> bool" where
  "touches_stores e \<longleftrightarrow> overwrites e \<or> (\<exists>b. e = Dumped b)"

named_theorems run_defs \<open>the steps of a switch\<close>

lemmas step_defs [run_defs] = call_def call_if_set_def apply_dep_def say_def leave_branch_def
  enter_branch_def switch_body_def

lemma touches_simps [simp]:
  "\<not> overwrites (Dumped b)" "overwrites (Restored b)" "overwrites BuiltFresh" "overwrites Seeded"
  "overwrites DiffApplied" "\<not> overwrites Quiesced" "\<not> overwrites Resumed"
  "\<not> overwrites (RecordedLive b)" "\<not> overwrites (Progress p)"
  "touches_stores (Dumped b)" "overwrites e \<Longrightarrow> touches_stores e" "\<not> touches_stores Quiesced"
  "\<not> touches_stores Resumed" "\<not> touches_stores (RecordedLive b)" "\<not> touches_stores (Progress p)"
  by (auto simp: overwrites_def touches_stores_def)

text \<open>A branch switch is one where both branches are known and differ.\<close>

definition switching :: "deps \<Rightarrow> string \<Rightarrow> string \<Rightarrow> bool" where
  "switching d lst current \<longleftrightarrow> dp_current_branch d = Some current \<and> current \<noteq> [] \<and>
     dp_last_live d = Some (Inr lst) \<and> lst \<noteq> [] \<and> lst \<noteq> current \<and> dp_set_last_live d \<noteq> None"

definition switch_outcome :: "string \<Rightarrow> string \<Rightarrow> outcome_of_run" where
  "switch_outcome lst current = no_outcome\<lparr>oc_to := current, oc_from := lst, oc_switched := True\<rparr>"

lemma reconcile_run_switch:
  "switching d lst current \<Longrightarrow> reconcile_run d =
     and_then (say (SwitchDetected lst current))
      (\<lambda>_. and_then (call (switch_outcome lst current) Quiesced QuiesceFailed (dp_quiesce d))
        (\<lambda>_. with_resume d (switch_body d lst current (switch_outcome lst current))))"
  by (auto simp: reconcile_run_def switching_def switch_outcome_def Let_def)

lemma reconcile_run_no_switch:
  "\<nexists>lst current. switching d lst current \<Longrightarrow> e \<in> set (fst (reconcile_run d)) \<Longrightarrow>
     dp_current_branch d \<noteq> None \<and> e = RecordedLive (the (dp_current_branch d))"
  by (auto simp: reconcile_run_def switching_def Let_def run_defs in_trace_and_then
      split: sum.splits if_splits option.splits)

lemma call_trace: "e \<in> set (fst (call out v w f)) \<Longrightarrow> e = v"
  by (auto simp: call_def split: option.splits)

lemma call_ok: "snd (call out v w f) = Inr u \<longleftrightarrow> f = Some None"
  by (auto simp: call_def split: option.splits)

lemma call_if_set_trace: "e \<in> set (fst (call_if_set out v w f)) \<Longrightarrow> e = v"
  by (auto simp: call_if_set_def dest: call_trace split: if_splits)

lemma call_if_set_ok: "snd (call_if_set out v w f) = Inr u \<longleftrightarrow> f = None \<or> f = Some None"
  by (auto simp: call_if_set_def call_ok)

lemma apply_dep_ok: "apply_dep f b = Some None \<longleftrightarrow> (\<exists>g. f = Some g \<and> g b = None)"
  by (cases f) (auto simp: apply_dep_def)

definition left_safely :: "deps \<Rightarrow> string \<Rightarrow> bool" where
  "left_safely d lst \<longleftrightarrow> dp_skip_snapshot d \<or> (\<exists>f. dp_dump d = Some f \<and> f lst = None)"

definition entered :: "deps \<Rightarrow> string \<Rightarrow> bool" where
  "entered d current \<longleftrightarrow>
     (if has_snapshot d current then \<exists>f. dp_restore d = Some f \<and> f current = None
      else dp_build_fresh d = Some None \<and> (dp_seed_fixtures d = None \<or> dp_seed_fixtures d = Some None))"

definition converged :: "deps \<Rightarrow> bool" where
  "converged d \<longleftrightarrow> dp_diff_apply d = None \<or> dp_diff_apply d = Some None"

lemma leave_trace:
  "e \<in> set (fst (leave_branch d lst out)) \<Longrightarrow> e = Dumped lst \<and> \<not> dp_skip_snapshot d \<or> (\<exists>p. e = Progress p)"
  by (auto simp: leave_branch_def in_trace_and_then say_def dest: call_trace split: if_splits)

lemma leave_ok: "(\<exists>x. snd (leave_branch d lst out) = Inr x) \<longleftrightarrow> left_safely d lst"
  by (auto simp: leave_branch_def ok_and_then call_ok apply_dep_ok left_safely_def say_def)

lemma leave_dumps:
  "snd (leave_branch d lst out) = Inr x \<Longrightarrow> \<not> dp_skip_snapshot d \<Longrightarrow>
     Dumped lst \<in> set (fst (leave_branch d lst out))"
  by (auto simp: leave_branch_def ok_and_then in_trace_and_then call_ok say_def)
    (simp add: call_def)

lemma enter_trace:
  "e \<in> set (fst (enter_branch d current out)) \<Longrightarrow>
     e = Restored current \<and> has_snapshot d current \<or>
     (e = BuiltFresh \<or> e = Seeded) \<and> \<not> has_snapshot d current \<or> (\<exists>p. e = Progress p)"
  by (auto simp: enter_branch_def in_trace_and_then say_def Let_def
      dest: call_trace call_if_set_trace split: if_splits)

lemma enter_ok: "(\<exists>x. snd (enter_branch d current out) = Inr x) \<longleftrightarrow> entered d current"
  by (auto simp: enter_branch_def ok_and_then call_ok call_if_set_ok apply_dep_ok entered_def say_def Let_def)

lemma enter_overwrites:
  "snd (enter_branch d current out) = Inr x \<Longrightarrow>
     (if has_snapshot d current then Restored current else BuiltFresh) \<in> set (fst (enter_branch d current out))"
  by (auto simp: enter_branch_def ok_and_then in_trace_and_then call_ok say_def Let_def)
    (simp_all add: call_def)

lemma body_overwrites:
  assumes "e \<in> set (fst (switch_body d lst current out))" and "overwrites e"
  shows "left_safely d lst \<and> (\<not> dp_skip_snapshot d \<longrightarrow>
    guarded_by (\<lambda>e. e = Dumped lst) overwrites (fst (switch_body d lst current out)))"
proof (cases "snd (leave_branch d lst out)")
  case (Inl err)
  then have "e \<in> set (fst (leave_branch d lst out))"
    using assms(1) by (simp add: switch_body_def and_then_error)
  with assms(2) show ?thesis by (auto dest: leave_trace)
next
  case (Inr x)
  have "left_safely d lst" using leave_ok Inr by blast
  moreover have "guarded_by (\<lambda>e. e = Dumped lst) overwrites (fst (leave_branch d lst out))"
    by (rule guarded_none) (auto dest: leave_trace)
  ultimately show ?thesis
    using leave_dumps [OF Inr]
    by (auto simp: switch_body_def and_then_ok [OF Inr] guarded_append list_ex_iff)
qed

lemma body_recorded:
  "RecordedLive b \<in> set (fst (switch_body d lst current out)) \<longleftrightarrow>
     b = current \<and> left_safely d lst \<and> entered d current \<and> converged d \<and> dp_set_last_live d \<noteq> None"
proof (cases "snd (leave_branch d lst out)")
  case (Inl err)
  then have "\<not> left_safely d lst" using leave_ok [of d lst out] by auto
  with Inl show ?thesis by (auto simp: switch_body_def and_then_error dest: leave_trace)
next
  case lv: (Inr x)
  then have l: "left_safely d lst" using leave_ok [of d lst out] by auto
  show ?thesis
  proof (cases "snd (enter_branch d current x)")
    case (Inl err)
    then have "\<not> entered d current" using enter_ok [of d current x] by auto
    with Inl lv show ?thesis
      by (auto simp: switch_body_def and_then_error and_then_ok dest: leave_trace enter_trace)
  next
    case en: (Inr y)
    then have e: "entered d current" using enter_ok [of d current x] by auto
    have "RecordedLive b \<in> set (fst (call y (RecordedLive current) RecordLive
        (apply_dep (dp_set_last_live d) current))) \<longleftrightarrow> b = current \<and> dp_set_last_live d \<noteq> None"
      by (cases "dp_set_last_live d") (auto simp: call_def apply_dep_def)
    with l e lv en show ?thesis
      by (auto simp: switch_body_def and_then_ok in_trace_and_then call_if_set_ok converged_def say_def
          dest: leave_trace enter_trace call_if_set_trace)
  qed
qed

section \<open>A whole run\<close>

definition resume_effects :: "deps \<Rightarrow> branch_effect list" where
  "resume_effects d = (case dp_resume d of
      None \<Rightarrow> []
    | Some None \<Rightarrow> [Resumed]
    | Some (Some e) \<Rightarrow> [Resumed, Progress (ResumeFailed e), Progress RunStackUp])"

abbreviation body_of :: "deps \<Rightarrow> string \<Rightarrow> string \<Rightarrow> outcome_of_run run" where
  "body_of d lst current \<equiv> switch_body d lst current (switch_outcome lst current)"

lemma switch_trace:
  "switching d lst current \<Longrightarrow> fst (reconcile_run d) = Progress (SwitchDetected lst current) #
     (case dp_quiesce d of
        None \<Rightarrow> []
      | Some (Some e) \<Rightarrow> [Quiesced]
      | Some None \<Rightarrow> Quiesced # fst (body_of d lst current) @ resume_effects d)"
  by (simp add: reconcile_run_switch say_def call_def with_resume_def resume_effects_def traced
      split: option.split)

lemma switch_result:
  "switching d lst current \<Longrightarrow> dp_quiesce d = Some None \<Longrightarrow>
     snd (reconcile_run d) = snd (body_of d lst current)"
  by (simp add: reconcile_run_switch say_def call_def with_resume_def traced split: option.split)

lemma resume_effects_mem: "e \<in> set (resume_effects d) \<Longrightarrow> e = Resumed \<or> (\<exists>p. e = Progress p)"
  by (auto simp: resume_effects_def split: option.splits)

lemma body_not_quiesced: "Quiesced \<notin> set (fst (switch_body d lst current out)) \<and>
    Resumed \<notin> set (fst (switch_body d lst current out))"
  by (auto simp: switch_body_def in_trace_and_then say_def
      dest: call_trace call_if_set_trace leave_trace enter_trace)

lemma switch_overwrites_in_body:
  assumes "switching d lst current" and "e \<in> set (fst (reconcile_run d))" and "overwrites e"
  shows "dp_quiesce d = Some None \<and> e \<in> set (fst (body_of d lst current))"
  using assms(2,3) unfolding switch_trace [OF assms(1)]
  by (auto split: option.splits dest: resume_effects_mem)


lemma body_quiet:
  "quiet_after (\<lambda>e. e = RecordedLive b) touches_stores (fst (switch_body d lst current out))"
proof -
  have c: "quiet_after (\<lambda>e. e = RecordedLive b) touches_stores (fst (and_then
      (call y (RecordedLive current) RecordLive f) (\<lambda>_. and_then (say p) (\<lambda>_. pure z))))" for y f p and z :: outcome_of_run
    by (rule quiet_calm) (fastforce simp: in_trace_and_then say_def dest: call_trace)
  show ?thesis
    unfolding switch_body_def
    by (intro quiet_and_then c) (auto dest: leave_trace enter_trace call_if_set_trace)
qed

text \<open>C21: the new live branch is recorded exactly when every step succeeded: services stopped, the
  outgoing branch left safely, the incoming one restored or built and seeded, the difference applied;
  and once it is recorded no store is touched again.\<close>

theorem live_branch_recorded_only_on_success:
  assumes "switching d lst current"
  shows "(RecordedLive b \<in> set (fst (reconcile_run d)) \<longleftrightarrow>
      b = current \<and> dp_quiesce d = Some None \<and> left_safely d lst \<and> entered d current \<and> converged d)
    \<and> (\<forall>pre post. fst (reconcile_run d) = pre @ RecordedLive b # post \<longrightarrow>
        (\<forall>e \<in> set post. \<not> touches_stores e))"
proof
  have set_live: "dp_set_last_live d \<noteq> None" using assms by (simp add: switching_def)
  show "RecordedLive b \<in> set (fst (reconcile_run d)) \<longleftrightarrow>
      b = current \<and> dp_quiesce d = Some None \<and> left_safely d lst \<and> entered d current \<and> converged d"
    unfolding switch_trace [OF assms]
    using set_live body_recorded [of b d lst current "switch_outcome lst current"]
    by (auto split: option.splits dest: resume_effects_mem)
  show "\<forall>pre post. fst (reconcile_run d) = pre @ RecordedLive b # post \<longrightarrow>
        (\<forall>e \<in> set post. \<not> touches_stores e)"
  proof (intro allI impI ballI)
    fix pre post e
    assume eq: "fst (reconcile_run d) = pre @ RecordedLive b # post" and e: "e \<in> set post"
    have "quiet_after (\<lambda>e. e = RecordedLive b) touches_stores (fst (reconcile_run d))"
      unfolding switch_trace [OF assms]
      by (auto split: option.split intro!: quiet_append_calm body_quiet dest: resume_effects_mem)
    with eq e show "\<not> touches_stores e" by (metis (mono_tags, lifting) quiet_split)
  qed
qed

text \<open>C23: once a switch has stopped the services, the restart is attempted on every path out of it, whatever
  failed: exactly once, after every effect on the stores and the recording, followed only by the two
  lines that report a restart that failed; and it does not change what the run returns. A switch whose
  stopping of the services fails does none of this: it restarts nothing (not what it had stopped by then
  either), and it touches no store, records nothing and fails.\<close>

theorem stopped_services_are_restarted:
  assumes "switching d lst current" and "dp_resume d = Some r"
  shows "(dp_quiesce d = Some None \<longrightarrow>
      (\<exists>pre post. fst (reconcile_run d) = pre @ Resumed # post \<and> Quiesced \<in> set pre \<and> Resumed \<notin> set pre \<and>
        post = (case r of None \<Rightarrow> [] | Some e \<Rightarrow> [Progress (ResumeFailed e), Progress RunStackUp])) \<and>
      snd (reconcile_run d) = snd (reconcile_run (d\<lparr>dp_resume := None\<rparr>)))
    \<and> (dp_quiesce d \<noteq> Some None \<longrightarrow>
      (\<forall>e \<in> set (fst (reconcile_run d)). e \<noteq> Resumed \<and> \<not> touches_stores e \<and> (\<forall>b. e \<noteq> RecordedLive b)) \<and>
      (\<exists>err. snd (reconcile_run d) = Inl err))"
proof (intro conjI impI)
  assume q: "dp_quiesce d = Some None"
  let ?post = "case r of None \<Rightarrow> [] | Some e \<Rightarrow> [Progress (ResumeFailed e), Progress RunStackUp]"
  have r: "resume_effects d = Resumed # ?post"
    using assms(2) by (auto simp: resume_effects_def split: option.split)
  have "fst (reconcile_run d)
      = (Progress (SwitchDetected lst current) # Quiesced # fst (body_of d lst current)) @ Resumed # ?post"
    by (simp add: switch_trace [OF assms(1)] q r)
  moreover have "Resumed \<notin> set (Progress (SwitchDetected lst current) # Quiesced # fst (body_of d lst current))"
    using body_not_quiesced [of d lst current "switch_outcome lst current"] by simp
  ultimately show "\<exists>pre post. fst (reconcile_run d) = pre @ Resumed # post \<and> Quiesced \<in> set pre \<and>
      Resumed \<notin> set pre \<and> post = ?post" by force
  have sw: "switching (d\<lparr>dp_resume := None\<rparr>) lst current" using assms(1) by (simp add: switching_def)
  have "leave_branch (d\<lparr>dp_resume := None\<rparr>) = leave_branch d" "enter_branch (d\<lparr>dp_resume := None\<rparr>) = enter_branch d"
    by (intro ext, simp add: leave_branch_def, intro ext, simp add: enter_branch_def has_snapshot_def)
  then have "body_of (d\<lparr>dp_resume := None\<rparr>) lst current = body_of d lst current"
    by (simp add: switch_body_def)
  then show "snd (reconcile_run d) = snd (reconcile_run (d\<lparr>dp_resume := None\<rparr>))"
    using switch_result [OF assms(1) q] switch_result [OF sw] q by simp
next
  assume q: "dp_quiesce d \<noteq> Some None"
  show "\<forall>e \<in> set (fst (reconcile_run d)). e \<noteq> Resumed \<and> \<not> touches_stores e \<and> (\<forall>b. e \<noteq> RecordedLive b)"
    using q unfolding switch_trace [OF assms(1)] by (auto split: option.split)
  show "\<exists>err. snd (reconcile_run d) = Inl err"
    using q unfolding reconcile_run_switch [OF assms(1)]
    by (auto simp: say_def call_def and_then_def emit_def raise_def perform_def outcome_def split: option.split)
qed

section \<open>A sample machine\<close>

definition sample_deps :: "bool \<Rightarrow> string \<Rightarrow> string \<Rightarrow> (string \<Rightarrow> bool) \<Rightarrow> deps" where
  "sample_deps skip lst current has =
     \<lparr>dp_current_branch = Some current, dp_skip_snapshot = skip, dp_last_live = Some (Inr lst),
      dp_set_last_live = Some (\<lambda>_. None), dp_has_snapshot = Some has, dp_quiesce = Some None,
      dp_resume = Some None, dp_dump = Some (\<lambda>_. None), dp_restore = Some (\<lambda>_. None),
      dp_build_fresh = Some None, dp_seed_fixtures = Some None, dp_diff_apply = Some None\<rparr>"

lemma sample_deps_runs:
  "switching (sample_deps skip ''old'' ''new'' has) ''old'' ''new''"
  "fst (reconcile_run (sample_deps False ''old'' ''new'' (\<lambda>_. False))) =
     [Progress (SwitchDetected ''old'' ''new''), Quiesced, Progress (Snapshotting ''old''), Dumped ''old'',
      Progress (NoSnapshotFor ''new''), BuiltFresh, Seeded, DiffApplied, RecordedLive ''new'',
      Progress (ReconcileComplete ''new''), Resumed]"
  by (simp_all add: switching_def sample_deps_def reconcile_run_def run_defs with_resume_def has_snapshot_def
      and_then_def perform_def emit_def pure_def Let_def)


theorem live_branch_recorded_only_on_success_witness:
  "RecordedLive ''new'' \<in> set (fst (reconcile_run (sample_deps False ''old'' ''new'' (\<lambda>_. False)))) \<and>
   RecordedLive ''new'' \<notin> set (fst (reconcile_run
     ((sample_deps False ''old'' ''new'' (\<lambda>_. False))\<lparr>dp_seed_fixtures := Some (Some ''no fixtures'')\<rparr>)))"
proof -
  have sw: "switching (sample_deps False ''old'' ''new'' (\<lambda>_. False)) ''old'' ''new''"
    "switching ((sample_deps False ''old'' ''new'' (\<lambda>_. False))\<lparr>dp_seed_fixtures := Some (Some ''no fixtures'')\<rparr>) ''old'' ''new''"
    by (simp_all add: switching_def sample_deps_def)
  show ?thesis
    using live_branch_recorded_only_on_success [OF sw(1), of "''new''"]
      live_branch_recorded_only_on_success [OF sw(2), of "''new''"]
    by (simp add: sample_deps_def left_safely_def entered_def has_snapshot_def converged_def)
qed

theorem stopped_services_are_restarted_witness:
  "(\<exists>pre post. fst (reconcile_run ((sample_deps False ''old'' ''new'' (\<lambda>_. False))\<lparr>dp_dump := None\<rparr>))
     = pre @ Resumed # post \<and> Resumed \<notin> set pre)
   \<and> (\<exists>err. snd (reconcile_run ((sample_deps False ''old'' ''new'' (\<lambda>_. False))\<lparr>dp_quiesce := Some (Some ''no'')\<rparr>)) = Inl err)"
proof -
  let ?d = "(sample_deps False ''old'' ''new'' (\<lambda>_. False))\<lparr>dp_dump := None\<rparr>"
  let ?e = "(sample_deps False ''old'' ''new'' (\<lambda>_. False))\<lparr>dp_quiesce := Some (Some ''no'')\<rparr>"
  have sw: "switching ?d ''old'' ''new''" "switching ?e ''old'' ''new''"
    by (simp_all add: switching_def sample_deps_def)
  have "dp_resume ?d = Some None" "dp_quiesce ?d = Some None" "dp_resume ?e = Some None" "dp_quiesce ?e \<noteq> Some None"
    by (simp_all add: sample_deps_def)
  with stopped_services_are_restarted [OF sw(1), of None] stopped_services_are_restarted [OF sw(2), of None]
  show ?thesis by blast
qed

text \<open>A branch left without a snapshot does not come back empty when an older snapshot of it
  exists: switching back to it restores that older snapshot. (The progress line of the switch says
  that switching back will find none.)\<close>

theorem skipped_branch_comes_back_stale:
  assumes "switching leave lst current" and "dp_skip_snapshot leave"
    and "switching ret current lst" and "dp_has_snapshot ret = Some has" and "has lst"
    and "snd (reconcile_run ret) = Inr out"
  shows "(\<forall>b. Dumped b \<notin> set (fst (reconcile_run leave))) \<and>
    Restored lst \<in> set (fst (reconcile_run ret)) \<and> BuiltFresh \<notin> set (fst (reconcile_run ret))"
proof (intro conjI allI)
  have "Dumped b \<notin> set (fst (switch_body leave lst current (switch_outcome lst current)))" for b
    using assms(2) by (auto simp: switch_body_def in_trace_and_then say_def
        dest: call_trace call_if_set_trace leave_trace enter_trace)
  then show "Dumped b \<notin> set (fst (reconcile_run leave))" for b
    unfolding switch_trace [OF assms(1)] by (auto split: option.splits dest: resume_effects_mem)
  have has: "has_snapshot ret lst" using assms(4,5) by (simp add: has_snapshot_def)
  have q: "dp_quiesce ret = Some None"
    using assms(6) unfolding reconcile_run_switch [OF assms(3)] by (auto simp: ok_and_then call_ok)
  have "snd (body_of ret current lst) = Inr out" using assms(6) switch_result [OF assms(3) q] by simp
  then obtain x y where "snd (leave_branch ret current (switch_outcome current lst)) = Inr x"
    and "snd (enter_branch ret lst x) = Inr y"
    unfolding switch_body_def ok_and_then by blast
  then have "Restored lst \<in> set (fst (body_of ret current lst))"
    using enter_overwrites [of ret lst x y] has by (auto simp: switch_body_def in_trace_and_then)
  then show "Restored lst \<in> set (fst (reconcile_run ret))"
    unfolding switch_trace [OF assms(3)] q by simp
  have "BuiltFresh \<notin> set (fst (body_of ret current lst))"
    using has by (auto simp: switch_body_def in_trace_and_then say_def
        dest: call_trace call_if_set_trace leave_trace enter_trace)
  then show "BuiltFresh \<notin> set (fst (reconcile_run ret))"
    unfolding switch_trace [OF assms(3)] q by (auto dest: resume_effects_mem)
qed

theorem skipped_branch_comes_back_stale_witness:
  "Restored ''old'' \<in> set (fst (reconcile_run (sample_deps False ''new'' ''old'' (\<lambda>b. b = ''old''))))"
proof -
  have sw: "switching (sample_deps True ''old'' ''new'' (\<lambda>_. False)) ''old'' ''new''"
    "switching (sample_deps False ''new'' ''old'' (\<lambda>b. b = ''old'')) ''new'' ''old''"
    by (simp_all add: switching_def sample_deps_def)
  have "\<exists>out. snd (reconcile_run (sample_deps False ''new'' ''old'' (\<lambda>b. b = ''old''))) = Inr out"
    by (simp add: sample_deps_def reconcile_run_def run_defs with_resume_def has_snapshot_def
      and_then_def perform_def emit_def pure_def Let_def)
  then obtain out where "snd (reconcile_run (sample_deps False ''new'' ''old'' (\<lambda>b. b = ''old''))) = Inr out" ..
  from skipped_branch_comes_back_stale [OF sw(1) _ sw(2) _ _ this] show ?thesis
    by (simp add: sample_deps_def)
qed

end
