(* ===== verification/Paths.thy ===== *)
theory Paths
  imports Prelude
begin

text \<open>
  Slash-separated paths as \<^verbatim>\<open>path/filepath\<close> reads them on Unix: \<^verbatim>\<open>Clean\<close>, \<^verbatim>\<open>Join\<close>,
  \<^verbatim>\<open>IsAbs\<close>, \<^verbatim>\<open>Base\<close> and \<^verbatim>\<open>Rel\<close>, through the list of a path's elements.
\<close>

abbreviation slash :: char where "slash \<equiv> CHR ''/''"

definition is_abs :: "string \<Rightarrow> bool" where
  "is_abs p \<longleftrightarrow> prefix [slash] p"

definition clean_step :: "bool \<Rightarrow> string list \<Rightarrow> string \<Rightarrow> string list" where
  "clean_step rooted acc e =
     (if e = [] \<or> e = ''.'' then acc
      else if e = ''..'' then
        (if acc \<noteq> [] \<and> last acc \<noteq> ''..'' then butlast acc
         else if rooted then acc else acc @ [e])
      else acc @ [e])"

definition path_elems :: "string \<Rightarrow> string list" where
  "path_elems p = foldl (clean_step (is_abs p)) [] (split_on slash p)"

definition path_of :: "bool \<Rightarrow> string list \<Rightarrow> string" where
  "path_of rooted es =
     (if rooted then slash # join_with [slash] es
      else if es = [] then ''.'' else join_with [slash] es)"

definition clean_path :: "string \<Rightarrow> string" where
  "clean_path p = path_of (is_abs p) (path_elems p)"

definition join_path :: "string list \<Rightarrow> string" where
  "join_path ps = (let qs = dropWhile (\<lambda>p. p = []) ps
     in if qs = [] then [] else clean_path (join_with [slash] qs))"

definition base_name :: "string \<Rightarrow> string" where
  "base_name p =
     (if p = [] then ''.''
      else (let q = rev (dropWhile (\<lambda>c. c = slash) (rev p))
            in if q = [] then [slash] else last (split_on slash q)))"

fun strip_common :: "string list \<Rightarrow> string list \<Rightarrow> string list \<times> string list" where
  "strip_common (b # bs) (t # ts) = (if b = t then strip_common bs ts else (b # bs, t # ts))"
| "strip_common bs ts = (bs, ts)"

text \<open>\<^verbatim>\<open>Rel\<close>: no answer when only one path is absolute, or when the base would have to go up through
  an unknown \<^verbatim>\<open>..\<close>.\<close>

definition rel_path :: "string \<Rightarrow> string \<Rightarrow> string option" where
  "rel_path base targ =
     (let (bs, ts) = strip_common (path_elems base) (path_elems targ)
      in if clean_path base = clean_path targ then Some ''.''
         else if is_abs base \<noteq> is_abs targ then None
         else if bs \<noteq> [] \<and> hd bs = ''..'' then None
         else Some (join_with [slash] (map (\<lambda>_. ''..'') bs @ ts)))"

lemma strip_common_split:
  "strip_common bs ts = (bs', ts') \<Longrightarrow> \<exists>c. bs = c @ bs' \<and> ts = c @ ts'"
proof (induction bs ts rule: strip_common.induct)
  case (1 b bs t ts)
  then show ?case by (auto split: if_splits)
qed auto

text \<open>The elements of a rooted path name no parent.\<close>

lemma clean_step_rooted:
  "\<forall>e \<in> set acc. e \<noteq> ''..'' \<and> e \<noteq> [] \<Longrightarrow> \<forall>e \<in> set (clean_step True acc x). e \<noteq> ''..'' \<and> e \<noteq> []"
  by (auto simp: clean_step_def dest: in_set_butlastD)

lemma rooted_elems: "is_abs p \<Longrightarrow> e \<in> set (path_elems p) \<Longrightarrow> e \<noteq> ''..'' \<and> e \<noteq> []"
proof -
  have "\<forall>e \<in> set (foldl (clean_step True) acc es). e \<noteq> ''..'' \<and> e \<noteq> []"
    if "\<forall>e \<in> set acc. e \<noteq> ''..'' \<and> e \<noteq> []" for acc es
    using that
  proof (induction es arbitrary: acc)
    case Nil
    then show ?case by simp
  next
    case (Cons x es)
    have "\<forall>e \<in> set (foldl (clean_step True) (clean_step True acc x) es). e \<noteq> ''..'' \<and> e \<noteq> []"
      by (rule Cons.IH [OF clean_step_rooted [OF Cons.prems]])
    then show ?case by simp
  qed
  from this [of "[]" "split_on slash p"]
  show "is_abs p \<Longrightarrow> e \<in> set (path_elems p) \<Longrightarrow> e \<noteq> ''..'' \<and> e \<noteq> []"
    by (simp add: path_elems_def)
qed

lemma join_dots: "join_with [slash] (''..'' # xs) = ''..'' \<or> prefix ''../'' (join_with [slash] (''..'' # xs))"
  by (cases xs) auto

text \<open>A relative path between two rooted ones that does not start by going up stays below the base.\<close>

lemma rel_path_below:
  assumes "is_abs base" and "is_abs targ" and "rel_path base targ = Some r"
    and "r \<noteq> ''..''" and "\<not> prefix ''../'' r"
  shows "prefix (path_elems base) (path_elems targ) \<or> clean_path base = clean_path targ"
proof (cases "clean_path base = clean_path targ")
  case False
  obtain bs ts where s: "strip_common (path_elems base) (path_elems targ) = (bs, ts)"
    by (cases "strip_common (path_elems base) (path_elems targ)")
  with False assms(1-3) have r: "r = join_with [slash] (map (\<lambda>_. ''..'') bs @ ts)"
    by (simp add: rel_path_def split: if_splits)
  have "bs = []"
  proof (rule ccontr)
    assume "bs \<noteq> []"
    then obtain b bs' where "bs = b # bs'" by (cases bs) auto
    then have "r = ''..'' \<or> prefix ''../'' r"
      using join_dots [of "map (\<lambda>_. ''..'') bs' @ ts"] by (simp add: r)
    with assms(4,5) show False by blast
  qed
  with strip_common_split [OF s] show ?thesis by (auto simp: prefix_def)
qed simp

text \<open>The elements of a relative path are those of its clean form.\<close>

lemma path_elems_plain: "e \<in> set (path_elems p) \<Longrightarrow> slash \<notin> set e \<and> e \<noteq> []"
proof -
  have step: "\<forall>e \<in> set (foldl (clean_step r) acc es). slash \<notin> set e \<and> e \<noteq> []"
    if "\<forall>e \<in> set acc. slash \<notin> set e \<and> e \<noteq> []" and "\<forall>e \<in> set es. slash \<notin> set e" for r acc es
    using that
  proof (induction es arbitrary: acc)
    case (Cons x es)
    have nxt: "\<forall>e \<in> set (clean_step r acc x). slash \<notin> set e \<and> e \<noteq> []"
      using Cons.prems by (auto simp: clean_step_def dest: in_set_butlastD)
    have rest: "\<forall>e \<in> set es. slash \<notin> set e" using Cons.prems(2) by simp
    show ?case using Cons.IH [OF nxt rest] by (simp only: foldl_Cons)
  qed simp
  have parts: "\<forall>e \<in> set (split_on slash p). slash \<notin> set e" using split_on_parts [of _ slash p] by auto
  have "\<forall>e \<in> set (path_elems p). slash \<notin> set e \<and> e \<noteq> []"
    unfolding path_elems_def by (rule step [OF _ parts]) simp
  then show "e \<in> set (path_elems p) \<Longrightarrow> slash \<notin> set e \<and> e \<noteq> []" by (rule bspec)
qed

lemma clean_path_elems: "\<not> is_abs p \<Longrightarrow> path_elems p \<noteq> [] \<Longrightarrow> split_on slash (clean_path p) = path_elems p"
  by (simp add: clean_path_def path_of_def split_join path_elems_plain)

end
