(* ===== verification/Decisions.thy ===== *)
theory Decisions
  imports Paths
begin

text \<open>
  Migration decisions (\<^verbatim>\<open>internal/migdecisions/decisions.go\<close>): the files under
  \<^verbatim>\<open>w17/migrate-decisions\<close>, which of them may be sent to the console, what is sent, and the file
  written for a new question.

  Reading files, decoding YAML, resolving symbolic links, the clock and the hash are parameters.
  Texts outside ASCII are the bytes of their UTF-8 encoding.
\<close>

section \<open>Files\<close>

datatype problem =
    Unreadable string
  | NotYaml string
  | NoFinding
  | NoBaseLine
  | NoId
  | NoOption
  | ManyOptions nat
  | UnusableOption

record decision_file =
  fl_path :: string
  fl_key :: string
  fl_choice :: string
  fl_custom_path :: string
  fl_base :: string
  fl_id :: string
  fl_change :: string
  fl_table :: string
  fl_unbound :: bool
  fl_undecided :: bool
  fl_problem :: "problem option"

text \<open>The console's finding, with the fields the code reads.\<close>

record finding =
  fn_decide_key :: string
  fn_finding_id :: string
  fn_table_fqn :: string
  fn_prev_summary :: string
  fn_curr_summary :: string
  fn_rationale :: string
  fn_proposed :: string
  fn_options :: "string list"
  fn_custom_refused :: bool

definition bind_key :: "string \<Rightarrow> string \<Rightarrow> string" where
  "bind_key key ident = (if ident = [] then key else key @ ''@'' @ ident)"

definition file_ident :: "decision_file \<Rightarrow> string" where
  "file_ident f = bind_key (fl_key f) (fl_id f)"

definition finding_ident :: "finding \<Rightarrow> string" where
  "finding_ident f = bind_key (fn_decide_key f) (fn_finding_id f)"

definition decide_flag :: "decision_file \<Rightarrow> string" where
  "decide_flag f =
     (if fl_choice f = ''custom'' then file_ident f @ ''=custom:'' @ fl_custom_path f
      else file_ident f @ ''='' @ fl_choice f)"

text \<open>One entry of \<^verbatim>\<open>choose:\<close>: a scalar, a mapping (decoded to strings, or not), or another node.\<close>

datatype choose_node = Scalar string | MappingNode "(string, string) gomap option" | OtherNode

record on_disk =
  od_finding :: string
  od_id :: string
  od_base :: string
  od_change :: string
  od_table :: string
  od_choose :: "choose_node list"

definition base_label :: "string \<Rightarrow> string" where
  "base_label console_base = (if console_base = [] then ''none'' else console_base)"

definition empty_file :: "string \<Rightarrow> decision_file" where
  "empty_file path = \<lparr>fl_path = path, fl_key = [], fl_choice = [], fl_custom_path = [], fl_base = [],
     fl_id = [], fl_change = [], fl_table = [], fl_unbound = False, fl_undecided = False, fl_problem = None\<rparr>"

definition node_choice :: "choose_node \<Rightarrow> string \<times> string" where
  "node_choice n = (case n of
      Scalar v \<Rightarrow> (trim_space v, [])
    | MappingNode (Some m) \<Rightarrow>
        (let c = (case map_of m ''custom'' of None \<Rightarrow> [] | Some v \<Rightarrow> trim_space v)
         in if length m = 1 \<and> c \<noteq> [] then (''custom'', c) else ([], []))
    | _ \<Rightarrow> ([], []))"

fun read_choice :: "decision_file \<Rightarrow> choose_node list \<Rightarrow> decision_file" where
  "read_choice f [] = f\<lparr>fl_undecided := True, fl_problem := Some NoOption\<rparr>"
| "read_choice f [n] =
     (let g = f\<lparr>fl_choice := fst (node_choice n), fl_custom_path := snd (node_choice n)\<rparr>
      in if fl_choice g = [] then g\<lparr>fl_problem := Some UnusableOption\<rparr> else g)"
| "read_choice f (n # m # ns) =
     f\<lparr>fl_undecided := True, fl_problem := Some (ManyOptions (length (n # m # ns)))\<rparr>"

definition decode_file :: "string \<Rightarrow> on_disk \<Rightarrow> decision_file" where
  "decode_file path d =
     (let f = (empty_file path)\<lparr>fl_key := trim_space (od_finding d), fl_base := trim_space (od_base d)\<rparr>
      in if fl_key f = [] then f\<lparr>fl_problem := Some NoFinding\<rparr>
         else if fl_base f = [] then f\<lparr>fl_problem := Some NoBaseLine\<rparr>
         else
           (let g = read_choice (f\<lparr>fl_id := trim_space (od_id d), fl_change := trim_space (od_change d),
                      fl_table := trim_space (od_table d)\<rparr>) (od_choose d)
            in if fl_id g = [] then g\<lparr>fl_unbound := True, fl_undecided := False, fl_problem := Some NoId\<rparr>
               else g))"

definition read_one ::
  "(string \<Rightarrow> string + string) \<Rightarrow> (string \<Rightarrow> string + on_disk) \<Rightarrow> string \<Rightarrow> decision_file" where
  "read_one read_file unmarshal path =
     (case read_file path of
        Inl e \<Rightarrow> (empty_file path)\<lparr>fl_problem := Some (Unreadable e)\<rparr>
      | Inr body \<Rightarrow>
          (case unmarshal body of
             Inl e \<Rightarrow> (empty_file path)\<lparr>fl_problem := Some (NotYaml e)\<rparr>
           | Inr d \<Rightarrow> decode_file path d))"

text \<open>A directory listing: absent, unreadable, or its entries with whether each is a directory.\<close>

datatype listing = NoDirectory | ListFailed string | Entries "(string \<times> bool) list"

definition load_decisions ::
  "(string \<Rightarrow> listing) \<Rightarrow> (string \<Rightarrow> string + string) \<Rightarrow> (string \<Rightarrow> string + on_disk) \<Rightarrow> string
     \<Rightarrow> string + decision_file list" where
  "load_decisions read_dir read_file unmarshal dir =
     (case read_dir dir of
        NoDirectory \<Rightarrow> Inr []
      | ListFailed e \<Rightarrow> Inl e
      | Entries es \<Rightarrow>
          Inr (sort_slice (\<lambda>a b. fl_path a < fl_path b)
            (map (\<lambda>(n, _). read_one read_file unmarshal (join_path [dir, n]))
              (filter (\<lambda>(n, is_dir). \<not> is_dir \<and> suffix ''.yaml'' n) es))))"

section \<open>Which decisions are sent\<close>

definition by_ident :: "decision_file list \<Rightarrow> (string, decision_file list) gomap" where
  "by_ident files =
     fold (\<lambda>f m. push_to (file_ident f) f m) (filter (\<lambda>f. fl_problem f = None) files) []"

definition group_at :: "(string, decision_file list) gomap \<Rightarrow> string \<Rightarrow> decision_file list" where
  "group_at m k = pushed m k"

definition agree :: "decision_file list \<Rightarrow> bool" where
  "agree g \<longleftrightarrow> list_all (\<lambda>f. decide_flag f = decide_flag (hd g)) (tl g)"

definition duplicates :: "decision_file list \<Rightarrow> decision_file list list \<times> decision_file list list" where
  "duplicates files =
     (let m = by_ident files;
          groups = filter (\<lambda>g. length g \<ge> 2) (map (group_at m) (sort (keys_of m)))
      in (filter agree groups, filter (\<lambda>g. \<not> agree g) groups))"

fun applicable_from :: "string list \<Rightarrow> string list \<Rightarrow> decision_file list \<Rightarrow> decision_file list" where
  "applicable_from skip seen [] = []"
| "applicable_from skip seen (f # fs) =
     (if fl_problem f \<noteq> None \<or> List.member skip (file_ident f) \<or> List.member seen (file_ident f)
      then applicable_from skip seen fs
      else f # applicable_from skip (file_ident f # seen) fs)"

definition applicable :: "decision_file list \<Rightarrow> decision_file list" where
  "applicable files =
     applicable_from (map (\<lambda>g. file_ident (hd g)) (snd (duplicates files))) [] files"

section \<open>What is sent\<close>

datatype outside_error = AbsolutePath | ResolveFailed string | OutsideRoot string

definition inside_root :: "(string \<Rightarrow> string + string) \<Rightarrow> string \<Rightarrow> string \<Rightarrow> outside_error + string" where
  "inside_root eval_symlinks root rel =
     (if is_abs rel then Inl AbsolutePath
      else (case eval_symlinks root of
         Inl e \<Rightarrow> Inl (ResolveFailed e)
       | Inr real_root \<Rightarrow>
           (case eval_symlinks (join_path [root, rel]) of
              Inl e \<Rightarrow> Inl (ResolveFailed e)
            | Inr real \<Rightarrow>
                (case rel_path real_root real of
                   None \<Rightarrow> Inl (OutsideRoot real)
                 | Some r \<Rightarrow>
                     if r = ''..'' \<or> prefix ''../'' r then Inl (OutsideRoot real) else Inr real))))"

datatype payload_error = Outside string string outside_error | ReadSqlFailed string string string

fun payload_from ::
  "(string \<Rightarrow> string + string) \<Rightarrow> (string \<Rightarrow> string + string) \<Rightarrow> string \<Rightarrow> decision_file list
     \<Rightarrow> string list \<times> (string, string) gomap \<Rightarrow> payload_error + string list \<times> (string, string) gomap"
where
  "payload_from eval_symlinks read_file root [] acc = Inr acc"
| "payload_from eval_symlinks read_file root (f # fs) (flags, custom) =
     (if fl_choice f \<noteq> ''custom''
      then payload_from eval_symlinks read_file root fs (flags @ [decide_flag f], custom)
      else (case inside_root eval_symlinks root (fl_custom_path f) of
         Inl e \<Rightarrow> Inl (Outside (fl_path f) (fl_custom_path f) e)
       | Inr path \<Rightarrow>
           (case read_file path of
              Inl e \<Rightarrow> Inl (ReadSqlFailed (fl_path f) (fl_custom_path f) e)
            | Inr body \<Rightarrow> payload_from eval_symlinks read_file root fs
                (flags @ [decide_flag f], put (fl_custom_path f) body custom))))"

definition payload ::
  "(string \<Rightarrow> string + string) \<Rightarrow> (string \<Rightarrow> string + string) \<Rightarrow> string \<Rightarrow> decision_file list
     \<Rightarrow> payload_error + string list \<times> (string, string) gomap" where
  "payload eval_symlinks read_file root files = payload_from eval_symlinks read_file root files ([], [])"

section \<open>Writing a question\<close>

definition em_dash :: string where "em_dash = [CHR 0xE2, CHR 0x80, CHR 0x94]"
definition right_arrow :: string where "right_arrow = [CHR 0xE2, CHR 0x86, CHR 0x92]"
definition warning_sign :: string where "warning_sign = [CHR 0xE2, CHR 0x9A, CHR 0xA0]"

definition option_help :: "string \<Rightarrow> string" where
  "option_help o' =
     (if o' = ''safe'' then ''apply as planned; existing data is not at risk''
      else if o' = ''lossless_using'' then
        ''convert existing values in place '' @ em_dash @ '' the migration fails if a value does not convert''
      else if o' = ''needs_confirm'' then
        ''apply the planned change as is '' @ em_dash @ '' `why:` above says what it does to existing data''
      else if o' = ''drop_and_create'' then
        warning_sign @ '' DROPS the column's existing data and recreates it''
      else [])"

definition is_slug_char :: "char \<Rightarrow> bool" where
  "is_slug_char c \<longleftrightarrow> is_digit c \<or> (let n = of_char c :: nat in 97 \<le> n \<and> n \<le> 122)"

text \<open>Every run of other characters becomes one dash (\<^verbatim>\<open>unsafeName.ReplaceAllString\<close>), and the dashes
  at the ends go.\<close>

fun dash_runs :: "bool \<Rightarrow> string \<Rightarrow> string" where
  "dash_runs in_run [] = []"
| "dash_runs in_run (c # cs) =
     (if is_slug_char c then c # dash_runs False cs
      else if in_run then dash_runs True cs
      else CHR ''-'' # dash_runs True cs)"

definition trim_dashes :: "string \<Rightarrow> string" where
  "trim_dashes s = rev (dropWhile (\<lambda>c. c = CHR ''-'') (rev (dropWhile (\<lambda>c. c = CHR ''-'') s)))"

definition file_name :: "(string \<Rightarrow> string) \<Rightarrow> string \<Rightarrow> string \<Rightarrow> string \<Rightarrow> string" where
  "file_name short_hash stamp commit ident =
     (let (key, _, _) = str_cut CHR ''@'' ident;
          slug = trim_dashes (dash_runs False (to_lower key))
      in join_with ''-'' ([stamp] @ (if commit \<noteq> [] then [commit] else []) @ [slug, short_hash ident])
           @ ''.yaml'')"

definition replaced_for :: "finding \<Rightarrow> decision_file list \<Rightarrow> decision_file list" where
  "replaced_for f files =
     filter (\<lambda>e. fl_key e = fn_decide_key f \<and>
       (fl_table e = [] \<or> fn_table_fqn f = [] \<or> fl_table e = fn_table_fqn f)) files"

text \<open>\<^verbatim>\<open>%-16s\<close>: padded with blanks on the right.\<close>

definition pad16 :: "string \<Rightarrow> string" where
  "pad16 s = s @ replicate (16 - length s) CHR '' ''"

definition replaces_lines :: "decision_file \<Rightarrow> string list" where
  "replaces_lines e =
     (let chose = (if fl_choice e = ''custom'' then ''custom: '' @ fl_custom_path e
                   else if fl_choice e \<noteq> [] then fl_choice e else ''nothing yet'');
          was = (if fl_change e \<noteq> [] then '' ('' @ fl_change e @ '')'' else [])
      in [''# Replaces '' @ base_name (fl_path e) @ '', which chose '' @ chose @ '' for a different change''
            @ was @ ''. Not applied here '' @ em_dash,
          ''# choose again for the change below.'']
         @ (if fl_table e = []
            then [''# (It records no table, so it may have been made for another table sharing'',
                  ''# this finding key.)'']
            else []))"

definition option_line :: "bool \<Rightarrow> string \<Rightarrow> string" where
  "option_line lone o' =
     (let p = (if lone then ''  # - '' else ''  - '')
      in if option_help o' \<noteq> [] then p @ pad16 o' @ '' # '' @ option_help o' else p @ o')"

definition render_head :: "(string \<Rightarrow> string) \<Rightarrow> finding \<Rightarrow> string \<Rightarrow> string \<Rightarrow> string \<Rightarrow> decision_file list \<Rightarrow> string list" where
  "render_head yaml_quote f base commit branch earlier =
     [''# A database owner decides this '' @ em_dash @ '' delete every option under `choose:`'',
      ''# but ONE, then approve. `w17ctl migrate generate` applies it at release'',
      ''# and deletes this file.'']
     @ (let whr = (if commit \<noteq> [] then [''commit '' @ commit] else [])
                  @ (if branch \<noteq> [] then [''branch '' @ branch] else [])
        in if whr \<noteq> [] then [''# Found by `w17ctl migrate check` on '' @ join_with '', '' whr @ ''.''] else [])
     @ concat (map replaces_lines earlier)
     @ [''finding: '' @ fn_decide_key f,
        ''id: '' @ fn_finding_id f @ ''   # the change this decides '' @ em_dash
          @ '' another change of the column needs a new decision'']
     @ (if fn_table_fqn f \<noteq> [] then [''table: '' @ fn_table_fqn f] else [])
     @ [''base: '' @ base_label base @ ''   # the stored schema this is decided against '' @ em_dash
          @ '' a release consumes it'']
     @ (if fn_prev_summary f \<noteq> [] \<or> fn_curr_summary f \<noteq> []
        then [''change: '' @ yaml_quote (trim_space (fn_prev_summary f @ '' '' @ right_arrow @ '' '' @ fn_curr_summary f))]
        else [])
     @ (if fn_rationale f \<noteq> [] then [''why: '' @ yaml_quote (fn_rationale f)] else [])
     @ (if fn_proposed f \<noteq> [] then [''proposed: '' @ fn_proposed f] else [])"

definition render_choose :: "finding \<Rightarrow> string list" where
  "render_choose f =
     (let lone = (length (fn_options f) = 1)
      in (if lone then [''# One option: uncomment it to choose it. As written, nothing is decided.''] else [])
         @ [''choose:''] @ map (option_line lone) (fn_options f)
         @ (if fn_custom_refused f then []
            else [''  # - custom: path/to/your.sql   # your own SQL instead (path from the project root)'']))"

definition render_file ::
  "(string \<Rightarrow> string) \<Rightarrow> finding \<Rightarrow> string \<Rightarrow> string \<Rightarrow> string \<Rightarrow> decision_file list \<Rightarrow> string" where
  "render_file yaml_quote f base commit branch earlier =
     concat (map (\<lambda>l. l @ [nl]) (render_head yaml_quote f base commit branch earlier @ render_choose f))"

section \<open>Who is sent\<close>

definition usable :: "decision_file list \<Rightarrow> string \<Rightarrow> decision_file list" where
  "usable files k = filter (\<lambda>f. fl_problem f = None \<and> file_ident f = k) files"

text \<open>The files that decide one change disagree on it.\<close>

definition conflicting :: "decision_file list \<Rightarrow> string \<Rightarrow> bool" where
  "conflicting files k \<longleftrightarrow> (\<exists>f \<in> set (usable files k). \<exists>g \<in> set (usable files k). decide_flag f \<noteq> decide_flag g)"

lemma group_at_usable: "group_at (by_ident files) k = usable files k"
  by (simp add: group_at_def by_ident_def usable_def pushed_fold [where v = id, simplified] conj_commute)

lemma by_ident_keys: "k \<in> set (keys_of (by_ident files)) \<longleftrightarrow> usable files k \<noteq> []"
  unfolding by_ident_def set_map keys_fold_push [where v = id, simplified]
  by (auto simp: usable_def filter_empty_conv)

lemma usable_ident: "f \<in> set (usable files k) \<Longrightarrow> file_ident f = k"
  by (simp add: usable_def)

lemma agree_iff: "agree g \<longleftrightarrow> (\<forall>a \<in> set g. \<forall>b \<in> set g. decide_flag a = decide_flag b)"
  by (cases g) (auto simp: agree_def list_all_iff)

lemma short_agree: "length g < 2 \<Longrightarrow> agree g"
  by (cases g) (auto simp: agree_def)

lemma conflicting_groups:
  "set (snd (duplicates files)) = usable files ` {k. usable files k \<noteq> [] \<and> \<not> agree (usable files k)}"
proof -
  have "2 \<le> length (usable files k)" if "\<not> agree (usable files k)" for k
    using that short_agree not_le by blast
  moreover have ga: "group_at (by_ident files) = usable files" by (rule ext) (rule group_at_usable)
  have keys: "set (keys_of (by_ident files)) = {k. usable files k \<noteq> []}" using by_ident_keys by blast
  have "set (snd (duplicates files)) =
      {g \<in> usable files ` {k. usable files k \<noteq> []}. length g \<ge> 2 \<and> \<not> agree g}"
    by (auto simp: duplicates_def Let_def ga keys [simplified])
  with calculation show ?thesis by (auto simp: image_iff)
qed

lemma skipped_iff: "k \<in> set (map (\<lambda>g. file_ident (hd g)) (snd (duplicates files))) \<longleftrightarrow> conflicting files k"
proof -
  have hd: "file_ident (hd (usable files c)) = c" if "usable files c \<noteq> []" for c
    using that usable_ident list.set_sel(1) by metis
  have "k \<in> set (map (\<lambda>g. file_ident (hd g)) (snd (duplicates files))) \<longleftrightarrow>
      (\<exists>c. usable files c \<noteq> [] \<and> \<not> agree (usable files c) \<and> k = file_ident (hd (usable files c)))"
    unfolding set_map conflicting_groups by blast
  also have "\<dots> \<longleftrightarrow> usable files k \<noteq> [] \<and> \<not> agree (usable files k)" using hd by metis
  also have "\<dots> \<longleftrightarrow> conflicting files k" by (auto simp: agree_iff conflicting_def)
  finally show ?thesis .
qed

lemma applicable_from_sound:
  "f \<in> set (applicable_from skip seen fs) \<Longrightarrow>
     f \<in> set fs \<and> fl_problem f = None \<and> file_ident f \<notin> set skip \<and> file_ident f \<notin> set seen"
  by (induction skip seen fs rule: applicable_from.induct) (auto split: if_splits)

lemma applicable_from_distinct: "distinct (map file_ident (applicable_from skip seen fs))"
  by (induction skip seen fs rule: applicable_from.induct) (auto dest: applicable_from_sound)

lemma applicable_from_complete:
  "f \<in> set fs \<Longrightarrow> fl_problem f = None \<Longrightarrow> file_ident f \<notin> set skip \<Longrightarrow> file_ident f \<notin> set seen \<Longrightarrow>
     file_ident f \<in> file_ident ` set (applicable_from skip seen fs)"
  by (induction skip seen fs rule: applicable_from.induct) auto

text \<open>What is sent decides each change at most once, is one of the files in the directory that can
  be applied, and a change is left out exactly when no file can be applied to it or two of them
  disagree: no winner nobody chose is ever picked, and no agreed decision is dropped.\<close>

theorem applicable_sends_the_agreed_decisions:
  "distinct (map file_ident (applicable files)) \<and>
   set (applicable files) \<subseteq> {f \<in> set files. fl_problem f = None} \<and>
   (\<forall>f \<in> set (applicable files). \<forall>g \<in> set files.
      fl_problem g = None \<longrightarrow> file_ident g = file_ident f \<longrightarrow> decide_flag g = decide_flag f) \<and>
   (\<forall>k. k \<in> file_ident ` set (applicable files) \<longleftrightarrow> usable files k \<noteq> [] \<and> \<not> conflicting files k)"
proof -
  let ?skip = "map (\<lambda>g. file_ident (hd g)) (snd (duplicates files))"
  have s: "f \<in> set files \<and> fl_problem f = None \<and> \<not> conflicting files (file_ident f)"
    if "f \<in> set (applicable files)" for f
    using that applicable_from_sound [of f ?skip "[]" files] skipped_iff [of "file_ident f" files]
    by (simp add: applicable_def)
  have u: "f \<in> set (usable files k) \<longleftrightarrow> f \<in> set files \<and> fl_problem f = None \<and> file_ident f = k" for f k
    by (auto simp: usable_def)
  have c: "k \<in> file_ident ` set (applicable files)" if "f \<in> set (usable files k)" "\<not> conflicting files k" for f k
    using that applicable_from_complete [of f files ?skip "[]"] skipped_iff [of k files]
    by (auto simp: u applicable_def)
  have 4: "\<forall>k. k \<in> file_ident ` set (applicable files) \<longleftrightarrow> usable files k \<noteq> [] \<and> \<not> conflicting files k"
  proof (intro allI iffI)
    fix k assume "k \<in> file_ident ` set (applicable files)"
    then obtain f where "f \<in> set (applicable files)" "k = file_ident f" by blast
    with s [of f] show "usable files k \<noteq> [] \<and> \<not> conflicting files k"
      by (auto simp: usable_def filter_empty_conv)
  next
    fix k assume "usable files k \<noteq> [] \<and> \<not> conflicting files k"
    then show "k \<in> file_ident ` set (applicable files)" using c [of "hd (usable files k)" k] by simp
  qed
  have 3: "\<forall>f \<in> set (applicable files). \<forall>g \<in> set files.
      fl_problem g = None \<longrightarrow> file_ident g = file_ident f \<longrightarrow> decide_flag g = decide_flag f"
  proof (intro ballI impI)
    fix f g
    assume f: "f \<in> set (applicable files)" and g: "g \<in> set files" "fl_problem g = None" "file_ident g = file_ident f"
    have "g \<in> set (usable files (file_ident f))" using g unfolding u by blast
    moreover have "f \<in> set (usable files (file_ident f))" using s [OF f] unfolding u by blast
    ultimately show "decide_flag g = decide_flag f" using s [OF f] unfolding conflicting_def by blast
  qed
  have 1: "distinct (map file_ident (applicable files))"
    unfolding applicable_def by (rule applicable_from_distinct)
  have 2: "set (applicable files) \<subseteq> {f \<in> set files. fl_problem f = None}" using s by blast
  from 1 2 3 4 show ?thesis by (intro conjI)
qed

definition sample_file :: "string \<Rightarrow> string \<Rightarrow> string \<Rightarrow> decision_file" where
  "sample_file path key choice = (empty_file path)\<lparr>fl_key := key, fl_id := ''7'', fl_base := ''b1'', fl_choice := choice\<rparr>"

definition sample_files :: "decision_file list" where
  "sample_files = [sample_file ''a'' ''user.kind:type'' ''safe'', sample_file ''b'' ''user.age:type'' ''safe'',
     sample_file ''c'' ''user.age:type'' ''drop_and_create'', sample_file ''d'' ''user.kind:type'' ''safe'']"

lemma sample_idents:
  "file_ident (sample_file p k c) = k @ ''@7''" "fl_problem (sample_file p k c) = None"
  "c \<noteq> ''custom'' \<Longrightarrow> decide_flag (sample_file p k c) = k @ ''@7='' @ c"
  by (simp_all add: sample_file_def empty_file_def file_ident_def bind_key_def decide_flag_def)

theorem applicable_sends_the_agreed_decisions_witness:
  "''user.kind:type@7'' \<in> file_ident ` set (applicable sample_files) \<and>
   ''user.age:type@7'' \<notin> file_ident ` set (applicable sample_files)"
proof -
  have "usable sample_files ''user.kind:type@7'' =
      [sample_file ''a'' ''user.kind:type'' ''safe'', sample_file ''d'' ''user.kind:type'' ''safe'']"
    "usable sample_files ''user.age:type@7'' =
      [sample_file ''b'' ''user.age:type'' ''safe'', sample_file ''c'' ''user.age:type'' ''drop_and_create'']"
    by (simp_all add: usable_def sample_files_def sample_idents)
  then have "usable sample_files ''user.kind:type@7'' \<noteq> [] \<and> \<not> conflicting sample_files ''user.kind:type@7''"
    "conflicting sample_files ''user.age:type@7''"
    by (auto simp: conflicting_def sample_idents)
  with applicable_sends_the_agreed_decisions [of sample_files] show ?thesis by blast
qed

section \<open>What a sent decision is bound to\<close>

lemma read_choice_keeps [simp]:
  "fl_key (read_choice f ns) = fl_key f" "fl_base (read_choice f ns) = fl_base f"
  "fl_id (read_choice f ns) = fl_id f" "fl_path (read_choice f ns) = fl_path f"
  by (cases "(f, ns)" rule: read_choice.cases; simp add: Let_def)+

lemma read_choice_usable:
  assumes "fl_problem (read_choice f ns) = None" and "fl_choice f = []" and "fl_custom_path f = []"
  shows "\<exists>n. ns = [n] \<and> node_choice n = (fl_choice (read_choice f ns), fl_custom_path (read_choice f ns))
    \<and> fl_choice (read_choice f ns) \<noteq> []"
  using assms by (cases "(f, ns)" rule: read_choice.cases) (auto simp: Let_def split: if_splits)

definition bound_by :: "on_disk \<Rightarrow> decision_file \<Rightarrow> bool" where
  "bound_by d f \<longleftrightarrow> fl_key f = trim_space (od_finding d) \<and> fl_key f \<noteq> [] \<and>
     fl_id f = trim_space (od_id d) \<and> fl_id f \<noteq> [] \<and>
     fl_base f = trim_space (od_base d) \<and> fl_base f \<noteq> [] \<and>
     (\<exists>n. od_choose d = [n] \<and> node_choice n = (fl_choice f, fl_custom_path f) \<and> fl_choice f \<noteq> [])"

lemma decode_file_usable: "fl_problem (decode_file path d) = None \<Longrightarrow> bound_by d (decode_file path d)"
proof -
  define g where "g = (empty_file path)\<lparr>fl_key := trim_space (od_finding d), fl_base := trim_space (od_base d),
    fl_id := trim_space (od_id d), fl_change := trim_space (od_change d), fl_table := trim_space (od_table d)\<rparr>"
  assume p: "fl_problem (decode_file path d) = None"
  then have ne: "trim_space (od_finding d) \<noteq> []" "trim_space (od_base d) \<noteq> []" "trim_space (od_id d) \<noteq> []"
    and eq: "decode_file path d = read_choice g (od_choose d)"
    by (auto simp: decode_file_def g_def Let_def split: if_splits)
  have "\<exists>n. od_choose d = [n] \<and> node_choice n = (fl_choice (read_choice g (od_choose d)),
      fl_custom_path (read_choice g (od_choose d))) \<and> fl_choice (read_choice g (od_choose d)) \<noteq> []"
    by (rule read_choice_usable) (use p eq in \<open>simp_all add: g_def empty_file_def\<close>)
  with ne show ?thesis unfolding bound_by_def eq read_choice_keeps by (simp add: g_def)
qed

lemma applicable_subset: "f \<in> set (applicable files) \<Longrightarrow> f \<in> set files \<and> fl_problem f = None"
  unfolding applicable_def by (auto dest: applicable_from_sound)

text \<open>Every decision sent comes from a readable file whose key, schema base and change id are
  recorded and which holds exactly one option; the flag sent names that change and that option. A
  file written before ids existed, an undecided or a broken one is never sent.\<close>

theorem only_bound_decisions_are_sent:
  assumes "load_decisions read_dir read_file unmarshal dir = Inr files" and "f \<in> set (applicable files)"
  shows "\<exists>n body d. read_file (join_path [dir, n]) = Inr body \<and> unmarshal body = Inr d \<and>
    suffix ''.yaml'' n \<and> fl_path f = join_path [dir, n] \<and> bound_by d f \<and>
    prefix (trim_space (od_finding d) @ ''@'' @ trim_space (od_id d) @ ''='') (decide_flag f)"
proof -
  from applicable_subset [OF assms(2)] have f: "f \<in> set files" "fl_problem f = None" by auto
  from assms(1) f(1) obtain n where n: "suffix ''.yaml'' n"
    and r: "f = read_one read_file unmarshal (join_path [dir, n])"
    by (auto simp: load_decisions_def split: listing.splits)
  from f(2) r obtain body d where b: "read_file (join_path [dir, n]) = Inr body" "unmarshal body = Inr d"
    and fd: "f = decode_file (join_path [dir, n]) d"
    by (auto simp: read_one_def split: sum.splits)
  have bd: "bound_by d f" using decode_file_usable f(2) unfolding fd by blast
  have "fl_path f = join_path [dir, n]"
    unfolding fd by (simp add: decode_file_def empty_file_def Let_def)
  moreover have "prefix (trim_space (od_finding d) @ ''@'' @ trim_space (od_id d) @ ''='') (decide_flag f)"
    using bd by (auto simp: bound_by_def decide_flag_def file_ident_def bind_key_def prefix_def)
  ultimately show ?thesis using n b bd by blast
qed

definition sample_disk :: on_disk where
  "sample_disk = \<lparr>od_finding = '' user.age:type '', od_id = ''f1'', od_base = ''b1'', od_change = [], od_table = [],
     od_choose = [MappingNode (Some [(''custom'', ''fix.sql'')])]\<rparr>"

definition sample_unmarshal :: "string \<Rightarrow> string + on_disk" where
  "sample_unmarshal b = Inr (if b = ''d/x.yaml'' then sample_disk else sample_disk\<lparr>od_id := []\<rparr>)"

definition sample_load :: "string + decision_file list" where
  "sample_load = load_decisions (\<lambda>_. Entries [(''x.yaml'', False), (''old.yaml'', False), (''notes'', True)])
     Inr sample_unmarshal ''d''"

lemma sample_load_files:
  "\<exists>f g. sample_load = Inr [g, f] \<and> fl_problem f = None \<and> fl_path f = ''d/x.yaml'' \<and> fl_problem g = Some NoId"
proof -
  have j: "join_path [''d'', ''x.yaml''] = ''d/x.yaml''" "join_path [''d'', ''old.yaml''] = ''d/old.yaml''"
    by code_simp+
  have ts: "trim_space '' user.age:type '' = ''user.age:type''" "trim_space ''f1'' = ''f1''"
    "trim_space ''b1'' = ''b1''" "trim_space ''fix.sql'' = ''fix.sql''"
    by code_simp+
  have sx: "suffix ''.yaml'' ''x.yaml''" "suffix ''.yaml'' ''old.yaml''" by code_simp+
  define f where "f = decode_file ''d/x.yaml'' sample_disk"
  define g where "g = decode_file ''d/old.yaml'' (sample_disk\<lparr>od_id := []\<rparr>)"
  have fp: "fl_problem f = None" "fl_path f = ''d/x.yaml''" "fl_path g = ''d/old.yaml''" "fl_problem g = Some NoId"
    by (simp_all add: f_def g_def decode_file_def sample_disk_def empty_file_def ts node_choice_def)
  have "sample_load = Inr [g, f]"
    by (simp add: sample_load_def sample_unmarshal_def load_decisions_def read_one_def j
        f_def [symmetric] g_def [symmetric] sort_slice_def fp sx)
  with fp show ?thesis by blast
qed

theorem only_bound_decisions_are_sent_witness:
  "\<exists>files f. sample_load = Inr files \<and> f \<in> set (applicable files) \<and> fl_path f = ''d/x.yaml'' \<and>
     prefix ''user.age:type@f1='' (decide_flag f)"
proof -
  obtain f g where l: "sample_load = Inr [g, f]" and fp: "fl_problem f = None" "fl_path f = ''d/x.yaml''"
    "fl_problem g = Some NoId"
    using sample_load_files by blast
  have a: "f \<in> set (applicable [g, f])"
    by (simp add: applicable_def duplicates_def by_ident_def fp group_at_def pushed_def push_to_def)
  from only_bound_decisions_are_sent [OF l [unfolded sample_load_def] a] obtain n body d where
    "Inr (join_path [''d'', n]) = (Inr body :: string + string)" and "sample_unmarshal body = Inr d"
    and "fl_path f = join_path [''d'', n]"
    and "prefix (trim_space (od_finding d) @ ''@'' @ trim_space (od_id d) @ ''='') (decide_flag f)"
    by blast
  moreover have "trim_space '' user.age:type '' = ''user.age:type''" "trim_space ''f1'' = ''f1''" by code_simp+
  ultimately have "prefix ''user.age:type@f1='' (decide_flag f)"
    using fp(2) by (auto simp: sample_unmarshal_def sample_disk_def)
  with l a fp(2) show ?thesis by blast
qed

section \<open>Only files of the project are sent\<close>

text \<open>A file is inside the project when the project root's elements are the first of its own.\<close>

definition below :: "string \<Rightarrow> string \<Rightarrow> bool" where
  "below root p \<longleftrightarrow> prefix (path_elems root) (path_elems p) \<or> clean_path root = clean_path p"

lemma is_abs_join: "is_abs root \<Longrightarrow> is_abs (join_path [root, p])"
  by (auto simp: is_abs_def join_path_def clean_path_def path_of_def prefix_def)

lemma inside_root_below:
  assumes "inside_root eval_symlinks root rel = Inr real"
    and "\<forall>a b. is_abs a \<longrightarrow> eval_symlinks a = Inr b \<longrightarrow> is_abs b" and "is_abs root"
  shows "\<exists>real_root. eval_symlinks root = Inr real_root \<and> below real_root real
    \<and> eval_symlinks (join_path [root, rel]) = Inr real"
proof -
  from assms(1) obtain real_root r where
    1: "eval_symlinks root = Inr real_root" "eval_symlinks (join_path [root, rel]) = Inr real"
    and 2: "rel_path real_root real = Some r" "r \<noteq> ''..''" "\<not> prefix ''../'' r"
    by (auto simp: inside_root_def split: sum.splits option.splits if_splits)
  have "is_abs real_root" "is_abs real"
    using assms(2,3) 1 is_abs_join [OF assms(3), of rel] by blast+
  from rel_path_below [OF this 2] 1 show ?thesis by (auto simp: below_def)
qed

lemma payload_from_custom:
  assumes "payload_from eval_symlinks read_file root fs acc = Inr (flags, custom)"
  shows "flags = fst acc @ map decide_flag fs \<and>
    (\<forall>p. map_of custom p = map_of (snd acc) p \<or>
      (\<exists>path body. inside_root eval_symlinks root p = Inr path \<and> read_file path = Inr body \<and>
         map_of custom p = Some body))"
  using assms
proof (induction eval_symlinks read_file root fs acc arbitrary: flags custom rule: payload_from.induct)
  case (1 eval_symlinks read_file root acc)
  then show ?case by (cases acc) auto
next
  case (2 eval_symlinks read_file root f fs flags0 custom0)
  show ?case
  proof (cases "fl_choice f = ''custom''")
    case False
    with 2 show ?thesis by auto
  next
    case True
    with "2.prems" obtain path body where p: "inside_root eval_symlinks root (fl_custom_path f) = Inr path"
      and b: "read_file path = Inr body"
      by (auto split: sum.splits)
    with True "2.prems" have r: "payload_from eval_symlinks read_file root fs
        (flags0 @ [decide_flag f], put (fl_custom_path f) body custom0) = Inr (flags, custom)" by simp
    from "2.IH"(2) [OF _ p b r] True p b show ?thesis by auto metis
  qed
qed

text \<open>C30: whatever the decision files of a repository say, every file whose body the payload of the agreed decision
  files sends to the console lies inside the project root, symbolic links resolved. (A file named on the command line,
  \<^verbatim>\<open>--decide key=custom:path\<close>, is the developer's own choice and not part of that payload.)\<close>

theorem payload_stays_inside_the_project:
  assumes "payload eval_symlinks read_file root files = Inr (flags, custom)"
    and "map_of custom p = Some body" and "is_abs root"
    and "\<forall>a b. is_abs a \<longrightarrow> eval_symlinks a = Inr b \<longrightarrow> is_abs b"
  shows "\<exists>real_root path. eval_symlinks root = Inr real_root \<and>
    eval_symlinks (join_path [root, p]) = Inr path \<and> read_file path = Inr body \<and> below real_root path"
proof -
  from payload_from_custom [OF assms(1) [unfolded payload_def]] assms(2)
  obtain path where p: "inside_root eval_symlinks root p = Inr path" "read_file path = Inr body"
    by (auto dest!: spec [of _ p])
  from inside_root_below [OF p(1) assms(4,3)] p(2) show ?thesis by blast
qed

text \<open>In the sample the project is a link to \<^verbatim>\<open>/real\<close>; a file through a link to \<^verbatim>\<open>/etc\<close> is refused.\<close>

definition sample_links :: "string \<Rightarrow> string + string" where
  "sample_links p =
     (if p = ''/w'' then Inr ''/real'' else if p = ''/w/fix.sql'' then Inr ''/real/fix.sql''
      else if p = ''/w/link.sql'' then Inr ''/etc/passwd'' else Inl ''no such file'')"

definition custom_file :: "string \<Rightarrow> decision_file" where
  "custom_file sql = (sample_file ''a'' ''user.age:type'' ''custom'')\<lparr>fl_custom_path := sql\<rparr>"

theorem payload_stays_inside_the_project_witness:
  "payload sample_links (\<lambda>p. Inr ''UPDATE'') ''/w'' [custom_file ''fix.sql'']
     = Inr ([''user.age:type@7=custom:fix.sql''], [(''fix.sql'', ''UPDATE'')])
   \<and> (\<exists>path. sample_links ''/w/fix.sql'' = Inr path \<and> below ''/real'' path)
   \<and> payload sample_links (\<lambda>p. Inr ''UPDATE'') ''/w'' [custom_file ''link.sql'']
     = Inl (Outside ''a'' ''link.sql'' (OutsideRoot ''/etc/passwd''))"
proof -
  have run: "payload sample_links (\<lambda>p. Inr ''UPDATE'') ''/w'' [custom_file ''fix.sql'']
     = Inr ([''user.age:type@7=custom:fix.sql''], [(''fix.sql'', ''UPDATE'')])"
    by code_simp
  have bad: "payload sample_links (\<lambda>p. Inr ''UPDATE'') ''/w'' [custom_file ''link.sql'']
     = Inl (Outside ''a'' ''link.sql'' (OutsideRoot ''/etc/passwd''))"
    by code_simp
  have j: "join_path [''/w'', ''fix.sql''] = ''/w/fix.sql''" "is_abs ''/w''" by code_simp+
  have a: "is_abs ''/real''" "is_abs ''/real/fix.sql''" "is_abs ''/etc/passwd''" by code_simp+
  have "\<forall>p q. is_abs p \<longrightarrow> sample_links p = Inr q \<longrightarrow> is_abs q"
    using a by (auto simp: sample_links_def split: if_splits)
  from payload_stays_inside_the_project [OF run _ j(2) this, of "''fix.sql''" "''UPDATE''"]
  have "\<exists>path. sample_links ''/w/fix.sql'' = Inr path \<and> below ''/real'' path"
    by (auto simp: j sample_links_def)
  with run bad show ?thesis by blast
qed

section \<open>A question decides nothing by itself\<close>

text \<open>The lines of a file that offer an option the decoder would read.\<close>

definition option_lines :: "string list \<Rightarrow> string list" where
  "option_lines ls = filter (prefix ''  - '') ls"

lemma head_offers_nothing: "option_lines (render_head yaml_quote f base commit branch earlier) = []"
  by (auto simp: option_lines_def render_head_def replaces_lines_def filter_empty_conv Let_def)

lemma option_line_prefix: "prefix ''  - '' (option_line lone o') \<longleftrightarrow> \<not> lone"
  by (auto simp: option_line_def Let_def)

lemma choose_offers: "length (option_lines (render_choose f)) =
    (if length (fn_options f) = 1 then 0 else length (fn_options f))"
  by (auto simp: option_lines_def render_choose_def option_line_prefix Let_def comp_def)

text \<open>A question as written decides nothing: its lines offer every option the console named and
  no other, except that a lone option is written commented out, so the file never holds exactly one
  choice before a person has edited it; and \<^verbatim>\<open>check\<close> reading such a file reports it undecided.\<close>

theorem question_decides_nothing_as_written:
  "length (option_lines (render_head yaml_quote f base commit branch earlier @ render_choose f)) \<noteq> 1 \<and>
   (length (fn_options f) \<noteq> 1 \<longrightarrow>
      option_lines (render_head yaml_quote f base commit branch earlier @ render_choose f)
        = map (option_line False) (fn_options f)) \<and>
   (length ns \<noteq> 1 \<longrightarrow> fl_undecided (read_choice e ns) \<and> fl_problem (read_choice e ns) \<noteq> None)"
proof (intro conjI impI)
  have a: "option_lines (render_head yaml_quote f base commit branch earlier @ render_choose f) =
      option_lines (render_choose f)"
    using head_offers_nothing by (simp add: option_lines_def)
  show "length (option_lines (render_head yaml_quote f base commit branch earlier @ render_choose f)) \<noteq> 1"
    unfolding a choose_offers by simp
  show "option_lines (render_head yaml_quote f base commit branch earlier @ render_choose f)
        = map (option_line False) (fn_options f)" if "length (fn_options f) \<noteq> 1"
    unfolding a using that
    by (auto simp: option_lines_def render_choose_def option_line_prefix Let_def comp_def)
  assume "length ns \<noteq> 1"
  then show "fl_undecided (read_choice e ns)" "fl_problem (read_choice e ns) \<noteq> None"
    by (cases "(e, ns)" rule: read_choice.cases; simp)+
qed

definition sample_finding :: "string list \<Rightarrow> finding" where
  "sample_finding os = \<lparr>fn_decide_key = ''user.age:type'', fn_finding_id = ''f1'', fn_table_fqn = ''user'',
     fn_prev_summary = ''int'', fn_curr_summary = ''text'', fn_rationale = [], fn_proposed = [],
     fn_options = os, fn_custom_refused = False\<rparr>"

theorem question_decides_nothing_as_written_witness:
  "option_lines (render_head (\<lambda>s. s) (sample_finding [''x'', ''y'']) ''b'' ''c1'' [] [] @ render_choose (sample_finding [''x'', ''y'']))
     = [''  - x'', ''  - y''] \<and>
   option_lines (render_choose (sample_finding [''x''])) = []"
  using question_decides_nothing_as_written [of "\<lambda>s. s" "sample_finding [''x'', ''y'']" "''b''" "''c1''" "[]" "[]" "[]"]
    choose_offers [of "sample_finding [''x'']"]
  by (simp add: sample_finding_def option_line_def option_help_def)

end
