(* ===== verification/Remotes.thy ===== *)
theory Remotes
  imports DevConfig
begin

text \<open>
  Where a stack runs (\<^verbatim>\<open>internal/devconfig/remote.go\<close>): the execution mode, the interface ports are
  published on, and the registry of remote hosts with the references to it.
\<close>

section \<open>Modes and interfaces\<close>

datatype choice_error = InvalidBind string | InvalidMode string

text \<open>A mode is its string, as in the code: \<^verbatim>\<open>""\<close> is unset.\<close>

definition parse_bind :: "string \<Rightarrow> choice_error + string" where
  "parse_bind s =
     (if s = [] \<or> s = ''loopback'' then Inr ''loopback''
      else if s = ''public'' then Inr ''public''
      else Inl (InvalidBind s))"

definition bind_host :: "string \<Rightarrow> string" where
  "bind_host b = (if b = ''public'' then ''0.0.0.0'' else ''127.0.0.1'')"

definition resolve_bind_host :: "string \<Rightarrow> string \<Rightarrow> string" where
  "resolve_bind_host mode b =
     (if b = ''public'' then ''0.0.0.0''
      else if b = ''loopback'' then ''127.0.0.1''
      else if mode = ''remote'' then ''127.0.0.1''
      else ''0.0.0.0'')"

definition parse_mode :: "string \<Rightarrow> choice_error + string" where
  "parse_mode s =
     (if s = [] then Inr []
      else if s = ''local'' then Inr ''local''
      else if s = ''remote'' then Inr ''remote''
      else Inl (InvalidMode s))"

datatype mode_error = FlagMode choice_error | ProjectMode string choice_error | DefaultMode choice_error

definition default_mode_of :: "config \<Rightarrow> mode_error + string" where
  "default_mode_of c =
     (case parse_mode (cf_default_mode c) of
        Inl e \<Rightarrow> Inl (DefaultMode e)
      | Inr m \<Rightarrow> if m \<noteq> [] then Inr m else Inr ''local'')"

definition resolve_mode :: "config \<Rightarrow> string \<Rightarrow> string \<Rightarrow> (mode_error + string) go" where
  "resolve_mode c abs_path flag =
     (case parse_mode flag of
        Inl e \<Rightarrow> Ret (Inl (FlagMode e))
      | Inr m \<Rightarrow>
          if m \<noteq> [] then Ret (Inr m)
          else (case find_by_path c abs_path of
                  Panic \<Rightarrow> Panic
                | Ret None \<Rightarrow> Ret (default_mode_of c)
                | Ret (Some (_, p)) \<Rightarrow>
                    (case parse_mode (pj_mode p) of
                       Inl e \<Rightarrow> Ret (Inl (ProjectMode abs_path e))
                     | Inr m \<Rightarrow> if m \<noteq> [] then Ret (Inr m) else Ret (default_mode_of c))))"

section \<open>The registry of remotes\<close>

definition remote_names :: "config \<Rightarrow> string" where
  "remote_names c =
     (if cf_remotes c = [] then ''(none)''
      else join_with '', '' (sort (keys_of (cf_remotes c))))"

datatype remote_error = NoRemote | UnknownRemote string string

definition remote_wanted :: "config \<Rightarrow> string \<Rightarrow> string \<Rightarrow> string go" where
  "remote_wanted c abs_path flag =
     (if flag \<noteq> [] then Ret flag
      else (case find_by_path c abs_path of
              Panic \<Rightarrow> Panic
            | Ret None \<Rightarrow> Ret (cf_default_remote c)
            | Ret (Some (_, p)) \<Rightarrow> Ret (if pj_remote p \<noteq> [] then pj_remote p else cf_default_remote c)))"

definition resolve_remote ::
  "config \<Rightarrow> string \<Rightarrow> string \<Rightarrow> (remote_error + string \<times> remote_host) go" where
  "resolve_remote c abs_path flag =
     (case remote_wanted c abs_path flag of
        Panic \<Rightarrow> Panic
      | Ret name \<Rightarrow>
          if name = [] then Ret (Inl NoRemote)
          else (case map_of (cf_remotes c) name of
                  Some (Some r) \<Rightarrow> Ret (Inr (name, r))
                | _ \<Rightarrow> Ret (Inl (UnknownRemote name (remote_names c)))))"

definition set_remote :: "string \<Rightarrow> remote_host option \<Rightarrow> config \<Rightarrow> config" where
  "set_remote name r c = c\<lparr>cf_remotes := put name r (cf_remotes c)\<rparr>"

definition unpin :: "string \<Rightarrow> project \<Rightarrow> project" where
  "unpin name p = (if pj_remote p = name then p\<lparr>pj_remote := []\<rparr> else p)"

definition forget_remote :: "string \<Rightarrow> config \<Rightarrow> config" where
  "forget_remote name c =
     c\<lparr>cf_remotes := remove_key name (cf_remotes c),
       cf_default_remote := (if cf_default_remote c = name then [] else cf_default_remote c),
       cf_projects := map (\<lambda>(n, p). (n, map_option (unpin name) p)) (cf_projects c)\<rparr>"

text \<open>The loop over the projects reads each one, so a nil project panics.\<close>

definition delete_remote :: "string \<Rightarrow> config \<Rightarrow> (config \<times> bool) go" where
  "delete_remote name c =
     (if map_of (cf_remotes c) name = None then Ret (c, False)
      else if has_nil_project c then Panic
      else Ret (forget_remote name c, True))"

section \<open>References\<close>

definition remotes_of :: "config \<Rightarrow> string set" where
  "remotes_of c = set (keys_of (cf_remotes c))"

interpretation default_remote: pointer_registry remotes_of cf_default_remote forget_remote
  by unfold_locales (auto simp: remotes_of_def forget_remote_def split: if_splits)

text \<open>Each project's pin is such a pointer too.\<close>

definition pin_of :: "string \<Rightarrow> config \<Rightarrow> string" where
  "pin_of n c = (case map_of (cf_projects c) n of Some (Some p) \<Rightarrow> pj_remote p | _ \<Rightarrow> [])"

lemma forget_lookup:
  "map_of (cf_projects (forget_remote name c)) n =
     map_option (map_option (unpin name)) (map_of (cf_projects c) n)"
  by (simp add: forget_remote_def map_of_map_values)

lemma pin_of_forget: "pin_of n (forget_remote name c) = (if pin_of n c = name then [] else pin_of n c)"
  by (auto simp: pin_of_def forget_lookup unpin_def split: option.splits)

interpretation project_remote: pointer_registry remotes_of "pin_of n" forget_remote for n
  by unfold_locales (auto simp: default_remote.names_del pin_of_forget split: if_splits)

lemma forget_keeps_rest:
  "map_of (cf_projects (forget_remote name c)) n = Some (Some q) \<Longrightarrow>
     \<exists>p. map_of (cf_projects c) n = Some (Some p) \<and> q = p\<lparr>pj_remote := pj_remote q\<rparr>"
  by (auto simp: forget_lookup unpin_def)

text \<open>C32: removing a remote leaves no reference to it: the default and every project's pin point at a
  remote that is still registered or nowhere, when they did before; nothing else of a project changes,
  and removing an unknown remote changes nothing.\<close>

theorem deleted_remote_leaves_no_reference:
  assumes "delete_remote name c = Ret (c', removed)"
  shows "(removed \<longleftrightarrow> name \<in> remotes_of c) \<and> (\<not> removed \<longrightarrow> c' = c)
    \<and> remotes_of c' = remotes_of c - {name}
    \<and> (removed \<longrightarrow> name \<noteq> [] \<longrightarrow> cf_default_remote c' \<noteq> name \<and> (\<forall>n. pin_of n c' \<noteq> name))
    \<and> (default_remote.sound c \<longrightarrow> default_remote.sound c')
    \<and> (\<forall>n. project_remote.sound n c \<longrightarrow> project_remote.sound n c')
    \<and> (\<forall>n q. map_of (cf_projects c') n = Some (Some q) \<longrightarrow>
         (\<exists>p. map_of (cf_projects c) n = Some (Some p) \<and> q = p\<lparr>pj_remote := pj_remote q\<rparr>))"
proof (cases "name \<in> remotes_of c")
  case False
  then have "map_of (cf_remotes c) name = None" by (simp add: remotes_of_def map_of_eq_None_iff)
  with assms have "c' = c" "\<not> removed" by (auto simp: delete_remote_def)
  with False show ?thesis by (auto intro: exI)
next
  case True
  then have "map_of (cf_remotes c) name \<noteq> None" by (simp add: remotes_of_def map_of_eq_None_iff)
  with assms have c': "c' = forget_remote name c" and "removed"
    by (auto simp: delete_remote_def split: if_splits)
  moreover have "cf_default_remote c' \<noteq> name \<and> (\<forall>n. pin_of n c' \<noteq> name)" if "name \<noteq> []"
    using that unfolding c' pin_of_forget by (auto simp: forget_remote_def)
  ultimately show ?thesis
    using True forget_keeps_rest default_remote.sound_del project_remote.sound_del
      default_remote.names_del
    unfolding c' by blast
qed

definition remote_machine :: config where
  "remote_machine = fresh_config\<lparr>
     cf_projects := [(''blog'', Some ((sample_project ''/w/blog'')\<lparr>pj_remote := ''big'', pj_mode := ''remote''\<rparr>))],
     cf_remotes := [(''big'', Some \<lparr>rh_ssh = ''u@h'', rh_path = ''/srv''\<rparr>)], cf_default_remote := ''big''\<rparr>"

theorem deleted_remote_leaves_no_reference_witness:
  "\<exists>c'. delete_remote ''big'' remote_machine = Ret (c', True) \<and> remotes_of c' = {} \<and> default_remote.sound c'
    \<and> pin_of ''blog'' c' \<noteq> ''big''"
proof -
  have "delete_remote ''big'' remote_machine = Ret (forget_remote ''big'' remote_machine, True)"
    by (simp add: delete_remote_def remote_machine_def has_nil_project_def)
  moreover have "default_remote.sound remote_machine"
    by (simp add: default_remote.sound_def remotes_of_def remote_machine_def)
  moreover have "remotes_of remote_machine = {''big''}" by (simp add: remotes_of_def remote_machine_def)
  ultimately show ?thesis using deleted_remote_leaves_no_reference [of "''big''" remote_machine] by auto
qed

text \<open>A stack runs in a mode that exists: on a registry with no nil project the answer is local,
  remote or an error that names the source of an invalid value, the flag winning over the project and
  the project over the machine's default; and in remote mode ports are published on every interface
  only when the project asked for \<^verbatim>\<open>public\<close>.\<close>

theorem remote_is_never_public_by_default:
  assumes "resolve_mode c abs_path flag = Ret (Inr mode)"
  shows "(mode = ''local'' \<or> mode = ''remote'') \<and> (flag \<noteq> [] \<longrightarrow> mode = flag)
    \<and> (flag = [] \<longrightarrow> (\<forall>n p. find_by_path c abs_path = Ret (Some (n, p)) \<longrightarrow> pj_mode p \<noteq> [] \<longrightarrow> mode = pj_mode p))
    \<and> (mode = ''remote'' \<longrightarrow> resolve_bind_host mode b = ''0.0.0.0'' \<longrightarrow> b = ''public'')
    \<and> (parse_bind b \<noteq> Inl (InvalidBind b) \<longrightarrow> b \<noteq> [] \<longrightarrow> resolve_bind_host mode b = bind_host b)"
  using assms
  by (auto simp: resolve_mode_def parse_mode_def default_mode_of_def resolve_bind_host_def parse_bind_def
      bind_host_def split: if_splits sum.splits go.splits option.splits)

theorem remote_is_never_public_by_default_witness:
  "resolve_mode remote_machine ''/w/blog'' [] = Ret (Inr ''remote'') \<and>
   resolve_bind_host ''remote'' [] \<noteq> ''0.0.0.0''"
proof -
  have "resolve_mode remote_machine ''/w/blog'' [] = Ret (Inr ''remote'')"
    by (simp add: resolve_mode_def remote_machine_def parse_mode_def find_by_path_def sample_project_def)
  with remote_is_never_public_by_default [OF this, of "[]"] show ?thesis by auto
qed

end
