(* ===== verification/AuthStore.thy ===== *)
theory AuthStore
  imports Registry
begin

text \<open>
  The credential store (\<^verbatim>\<open>internal/authstore/authstore.go\<close>): one entry per console a developer
  logged into, keyed by the console's address, a default console, and the OAuth client ids.

  Times are seconds and parsing or formatting one is a parameter (\<^verbatim>\<open>time.Parse\<close>,
  \<^verbatim>\<open>time.Format\<close>); so is the dial that asks whether anything listens on an address. The two I/O
  wrappers around the default path are not modelled; \<^verbatim>\<open>Save\<close> is its sequence of file operations.
\<close>

section \<open>The document\<close>

record org =
  og_id :: string
  og_slug :: string
  og_name :: string
  og_kind :: string
  og_role :: string

record console_instance =
  in_url :: string
  in_token :: string
  in_device :: string
  in_user :: "(string \<times> string) option"
  in_orgs :: "org option list"
  in_default_org :: string
  in_expires_at :: string

record auth_store =
  st_version :: int
  st_default :: string
  st_instances :: "(string, console_instance option) gomap"
  st_oauth_clients :: "(string, string) gomap"

definition fresh_store :: auth_store where
  "fresh_store = \<lparr>st_version = 1, st_default = [], st_instances = [], st_oauth_clients = []\<rparr>"

definition oauth_client_id :: "string \<Rightarrow> auth_store \<Rightarrow> string" where
  "oauth_client_id issuer s = (case map_of (st_oauth_clients s) issuer of None \<Rightarrow> [] | Some i \<Rightarrow> i)"

definition set_oauth_client_id :: "string \<Rightarrow> string \<Rightarrow> auth_store \<Rightarrow> auth_store" where
  "set_oauth_client_id issuer client s =
     (if client = [] then s\<lparr>st_oauth_clients := remove_key issuer (st_oauth_clients s)\<rparr>
      else s\<lparr>st_oauth_clients := put issuer client (st_oauth_clients s)\<rparr>)"

text \<open>\<^verbatim>\<open>normalize\<close>: nil entries go, and an entry without its address takes its key.\<close>

definition fill_url :: "string \<Rightarrow> console_instance \<Rightarrow> console_instance" where
  "fill_url key i = (if in_url i = [] then i\<lparr>in_url := key\<rparr> else i)"

function normal_instances ::
  "(string, console_instance option) gomap \<Rightarrow> (string, console_instance option) gomap" where
  "normal_instances [] = []"
| "normal_instances ((k, None) # m) = normal_instances (remove_key k m)"
| "normal_instances ((k, Some i) # m) = (k, Some (fill_url k i)) # normal_instances m"
  by pat_completeness auto
termination
  by (relation "measure length") (auto simp: le_imp_less_Suc length_delete_le)

definition normalize_store :: "auth_store \<Rightarrow> auth_store" where
  "normalize_store s =
     s\<lparr>st_version := (if st_version s = 0 then 1 else st_version s),
       st_instances := normal_instances (st_instances s)\<rparr>"

datatype 'd store_file = NoFile | UnreadableFile string | StoreBytes 'd

datatype store_error = StoreRead string | StoreParse string

definition load_store :: "('d \<Rightarrow> string + auth_store) \<Rightarrow> 'd store_file \<Rightarrow> store_error + auth_store" where
  "load_store unmarshal f =
     (case f of
        NoFile \<Rightarrow> Inr fresh_store
      | UnreadableFile e \<Rightarrow> Inl (StoreRead e)
      | StoreBytes b \<Rightarrow>
          (case unmarshal b of Inl e \<Rightarrow> Inl (StoreParse e) | Inr s \<Rightarrow> Inr (normalize_store s)))"

section \<open>Sessions\<close>

definition session_expiry :: "(string \<Rightarrow> int option) \<Rightarrow> console_instance option \<Rightarrow> int option" where
  "session_expiry parse_time i =
     (case i of
        None \<Rightarrow> None
      | Some i \<Rightarrow> if in_expires_at i = [] then None else parse_time (in_expires_at i))"

text \<open>The zero time (\<^const>\<open>None\<close>) is "unknown" and clears the field.\<close>

definition record_session_expiry ::
  "(int \<Rightarrow> string) \<Rightarrow> int option \<Rightarrow> console_instance option \<Rightarrow> console_instance option \<times> bool" where
  "record_session_expiry format_time at i =
     (case i of
        None \<Rightarrow> (None, False)
      | Some i \<Rightarrow>
          (let nxt = (case at of None \<Rightarrow> [] | Some t \<Rightarrow> format_time t)
           in if in_expires_at i = nxt then (Some i, False)
              else (Some (i\<lparr>in_expires_at := nxt\<rparr>), True)))"

section \<open>The entries\<close>

definition instance_at :: "string \<Rightarrow> auth_store \<Rightarrow> console_instance option" where
  "instance_at url s = (case map_of (st_instances s) url of Some (Some i) \<Rightarrow> Some i | _ \<Rightarrow> None)"

definition set_instance :: "console_instance option \<Rightarrow> auth_store \<Rightarrow> auth_store" where
  "set_instance i s =
     (case i of
        None \<Rightarrow> s
      | Some i \<Rightarrow>
          if in_url i = [] then s
          else (let s = normalize_store s;
                    s = s\<lparr>st_instances := put (in_url i) (Some i) (st_instances s)\<rparr>
                in if st_default s = [] then s\<lparr>st_default := in_url i\<rparr> else s))"

definition remove_instance :: "string \<Rightarrow> auth_store \<Rightarrow> auth_store" where
  "remove_instance url s =
     s\<lparr>st_instances := remove_key url (st_instances s),
       st_default := (if st_default s = url then [] else st_default s)\<rparr>"

definition active_instance :: "auth_store \<Rightarrow> console_instance option" where
  "active_instance s = (if st_default s = [] then None else instance_at (st_default s) s)"

definition set_default_instance :: "string \<Rightarrow> auth_store \<Rightarrow> auth_store \<times> bool" where
  "set_default_instance url s =
     (if instance_at url s = None then (s, False) else (s\<lparr>st_default := url\<rparr>, True))"

definition token_for :: "string \<Rightarrow> auth_store \<Rightarrow> string" where
  "token_for url s = (case instance_at url s of None \<Rightarrow> [] | Some i \<Rightarrow> in_token i)"

fun first_org :: "string \<Rightarrow> org option list \<Rightarrow> org option" where
  "first_org slug [] = None"
| "first_org slug (None # os) = first_org slug os"
| "first_org slug (Some g # os) = (if og_slug g = slug then Some g else first_org slug os)"

definition org_of :: "string \<Rightarrow> console_instance option \<Rightarrow> org option" where
  "org_of slug i = (case i of None \<Rightarrow> None | Some i \<Rightarrow> first_org slug (in_orgs i))"

section \<open>Dead local consoles\<close>

text \<open>\<^verbatim>\<open>strings.Index\<close> of the scheme separator.\<close>

fun after_scheme :: "string \<Rightarrow> string option" where
  "after_scheme [] = None"
| "after_scheme (c # cs) = (if prefix ''://'' (c # cs) then Some (drop 3 (c # cs)) else after_scheme cs)"

definition strip_scheme :: "string \<Rightarrow> string" where
  "strip_scheme url = (case after_scheme url of Some r \<Rightarrow> r | None \<Rightarrow> url)"

definition is_loopback_url :: "string \<Rightarrow> bool" where
  "is_loopback_url url \<longleftrightarrow>
     list_ex (\<lambda>p. prefix p (strip_scheme url)) [''localhost:'', ''127.0.0.1:'', ''[::1]:'']"

definition prunable :: "string \<Rightarrow> (string \<Rightarrow> bool) \<Rightarrow> string \<Rightarrow> bool" where
  "prunable keep listening url \<longleftrightarrow>
     url \<noteq> keep \<and> is_loopback_url url \<and> \<not> listening (strip_scheme url)"

fun prune_keys ::
  "string \<Rightarrow> (string \<Rightarrow> bool) \<Rightarrow> string list \<Rightarrow> auth_store \<times> nat \<Rightarrow> auth_store \<times> nat" where
  "prune_keys keep listening [] st = st"
| "prune_keys keep listening (url # urls) (s, dropped) =
     (if url = keep \<or> \<not> is_loopback_url url then prune_keys keep listening urls (s, dropped)
      else if listening (strip_scheme url) then prune_keys keep listening urls (s, dropped)
      else prune_keys keep listening urls (remove_instance url s, dropped + 1))"

definition prune_dead_loopback_instances ::
  "string \<Rightarrow> (string \<Rightarrow> bool) option \<Rightarrow> auth_store \<Rightarrow> auth_store \<times> nat" where
  "prune_dead_loopback_instances keep listening s =
     (case listening of
        None \<Rightarrow> (s, 0)
      | Some l \<Rightarrow>
          (let s = normalize_store s
           in prune_keys keep l (keys_of (st_instances s)) (s, 0)))"

section \<open>The store as a registry\<close>

definition stored :: "auth_store \<Rightarrow> string set" where
  "stored s = {url. instance_at url s \<noteq> None}"

lemma instance_at_Some:
  "instance_at url s = Some i \<longleftrightarrow> map_of (st_instances s) url = Some (Some i)"
  by (auto simp: instance_at_def split: option.splits)

lemma map_of_normal:
  "map_of (normal_instances m) k =
     (case map_of m k of Some (Some i) \<Rightarrow> Some (Some (fill_url k i)) | _ \<Rightarrow> None)"
  by (induction m rule: normal_instances.induct) (auto split: option.split)

lemma instance_at_normalize:
  "instance_at url (normalize_store s) = map_option (fill_url url) (instance_at url s)"
  by (auto simp: instance_at_def normalize_store_def map_of_normal split: option.split)

lemma stored_normalize [simp]: "stored (normalize_store s) = stored s"
  by (simp add: stored_def instance_at_normalize)

lemma instance_at_remove: "instance_at u (remove_instance url s) = (if u = url then None else instance_at u s)"
  by (simp add: instance_at_def remove_instance_def)

lemma instance_at_set:
  "in_url i \<noteq> [] \<Longrightarrow> instance_at u (set_instance (Some i) s) =
     (if u = in_url i then Some i else map_option (fill_url u) (instance_at u s))"
  by (auto simp: set_instance_def Let_def instance_at_normalize [symmetric])
    (auto simp: instance_at_def)

lemma set_instance_default:
  "st_default (set_instance (Some i) s) = (if in_url i \<noteq> [] \<and> st_default s = [] then in_url i else st_default s)"
  by (simp add: set_instance_def Let_def normalize_store_def)

definition log_in :: "string \<Rightarrow> console_instance \<Rightarrow> auth_store \<Rightarrow> auth_store" where
  "log_in url i s = set_instance (Some (i\<lparr>in_url := url\<rparr>)) s"

lemma stored_log_in: "stored (log_in url i s) = (if url = [] then stored s else insert url (stored s))"
proof (cases "url = []")
  case True
  then show ?thesis by (simp add: log_in_def set_instance_def)
next
  case False
  then show ?thesis by (auto simp: log_in_def stored_def instance_at_set)
qed

interpretation accounts: selectable_registry stored st_default remove_instance log_in
  "\<lambda>url s. fst (set_default_instance url s)"
proof unfold_locales
  fix s :: auth_store and k url i
  show "stored (remove_instance k s) = stored s - {k}"
    by (auto simp: stored_def instance_at_remove)
  show "st_default (remove_instance k s) = st_default s \<or> st_default (remove_instance k s) = []"
    by (simp add: remove_instance_def)
  show "k = []" if "k \<in> stored s" "st_default (remove_instance k s) = k"
    using that by (auto simp: remove_instance_def split: if_splits)
  show "stored s \<subseteq> stored (log_in k i s) \<and> stored (log_in k i s) \<subseteq> insert k (stored s)"
    by (auto simp: stored_log_in)
  show "st_default (log_in k i s) = st_default s \<or>
      st_default (log_in k i s) = k \<and> k \<in> stored (log_in k i s)"
    unfolding stored_log_in by (simp add: log_in_def set_instance_default)
  show "stored (fst (set_default_instance k s)) = stored s"
    by (auto simp: set_default_instance_def stored_def instance_at_def)
  show "st_default (fst (set_default_instance k s)) = (if k \<in> stored s then k else st_default s)"
    by (simp add: set_default_instance_def stored_def)
qed

section \<open>Pruning\<close>

lemma prune_keys_result:
  "prune_keys keep listening urls (s, n) =
     (fold remove_instance (filter (prunable keep listening) urls) s,
      n + length (filter (prunable keep listening) urls))"
  by (induction urls arbitrary: s n) (simp_all add: prunable_def)

lemma instance_at_remove_all:
  "instance_at u (fold remove_instance us s) = (if u \<in> set us then None else instance_at u s)"
  by (induction us arbitrary: s) (auto simp: instance_at_remove)

lemma normal_keys:
  "set (keys_of (st_instances (normalize_store s))) = stored s"
proof -
  have "url \<in> set (keys_of (normal_instances m)) \<longleftrightarrow> (\<exists>i. map_of m url = Some (Some i))" for url m
    using map_of_eq_None_iff [of "normal_instances m" url]
    by (auto simp: map_of_normal split: option.splits)
  moreover have "stored s = {url. \<exists>i. map_of (st_instances s) url = Some (Some i)}"
    by (auto simp: stored_def instance_at_def split: option.splits)
  ultimately show ?thesis by (simp add: normalize_store_def set_eq_iff del: set_map)
qed

lemma normal_wf: "wf_map m \<Longrightarrow> wf_map (normal_instances m)"
proof (induction m rule: normal_instances.induct)
  case (3 k i m)
  then have "map_of m k = None" by (simp add: map_of_eq_None_iff)
  then have "map_of (normal_instances m) k = None" by (simp add: map_of_normal)
  with 3 show ?case by (auto simp: map_of_eq_None_iff)
qed auto

text \<open>Pruning forgets exactly the credentials of local consoles nothing listens on, the one being
  logged into excepted: a remote console keeps its credential whatever answers, every other entry is
  kept as it was, the count is the number forgotten, and the default still names a stored console.\<close>

theorem prune_forgets_exactly_dead_local_consoles:
  assumes "wf_map (st_instances s)"
    and "prune_dead_loopback_instances keep (Some listening) s = (s', n)"
  shows "stored s' = {url \<in> stored s. \<not> prunable keep listening url}
    \<and> n = card (stored s - stored s')
    \<and> (\<forall>url \<in> stored s'. instance_at url s' = map_option (fill_url url) (instance_at url s))
    \<and> (accounts.sound s \<longrightarrow> accounts.sound s')
    \<and> (st_default s' = st_default s \<or> st_default s' = [])"
proof -
  define ns where "ns = normalize_store s"
  define dead where "dead = filter (prunable keep listening) (keys_of (st_instances ns))"
  have d: "distinct dead"
    unfolding dead_def ns_def using normal_wf [OF assms(1)] by (simp add: normalize_store_def)
  have n: "n = length dead" and s': "s' = fold remove_instance dead ns"
    using assms(2) unfolding prune_dead_loopback_instances_def Let_def option.simps prune_keys_result
        dead_def [symmetric] ns_def [symmetric] by auto
  have dead: "set dead = {url \<in> stored s. prunable keep listening url}"
    unfolding dead_def set_filter ns_def normal_keys ..
  have st: "stored s' = {url \<in> stored s. \<not> prunable keep listening url}"
    unfolding s' accounts.names_del_all ns_def stored_normalize dead by blast
  have "n = card (set dead)" unfolding n by (rule distinct_card [OF d, symmetric])
  also have "set dead = stored s - stored s'" unfolding dead st by blast
  finally have 2: "n = card (stored s - stored s')" .
  have 3: "\<forall>url \<in> stored s'. instance_at url s' = map_option (fill_url url) (instance_at url s)"
  proof
    fix url assume "url \<in> stored s'"
    then have "url \<notin> set dead" unfolding dead st by blast
    then show "instance_at url s' = map_option (fill_url url) (instance_at url s)"
      unfolding s' instance_at_remove_all ns_def instance_at_normalize by simp
  qed
  have "accounts.sound ns" if "accounts.sound s"
    using that unfolding accounts.sound_def ns_def stored_normalize by (simp add: normalize_store_def)
  then have 4: "accounts.sound s \<longrightarrow> accounts.sound s'"
    unfolding s' using accounts.sound_del_all by blast
  have 5: "st_default s' = st_default s \<or> st_default s' = []"
    using accounts.pointer_del_all [of dead ns] unfolding s' by (simp add: ns_def normalize_store_def)
  from st 2 3 4 5 show ?thesis by (intro conjI)
qed

definition sample_instance :: "string \<Rightarrow> console_instance" where
  "sample_instance url = \<lparr>in_url = url, in_token = ''T'', in_device = [], in_user = None, in_orgs = [],
     in_default_org = [], in_expires_at = []\<rparr>"

definition sample_store :: auth_store where
  "sample_store = fresh_store\<lparr>st_default := ''http://localhost:4000'', st_instances :=
     [(''http://localhost:4000'', Some (sample_instance ''http://localhost:4000'')),
      (''console.w17.dev:443'', Some (sample_instance ''console.w17.dev:443''))]\<rparr>"

theorem prune_forgets_exactly_dead_local_consoles_witness:
  "\<exists>s'. prune_dead_loopback_instances [] (Some (\<lambda>_. False)) sample_store = (s', 1)
    \<and> stored s' = {''console.w17.dev:443''} \<and> st_default s' = []"
proof -
  obtain s' n where r: "prune_dead_loopback_instances [] (Some (\<lambda>_. False)) sample_store = (s', n)"
    by (cases "prune_dead_loopback_instances [] (Some (\<lambda>_. False)) sample_store")
  have lb: "is_loopback_url ''http://localhost:4000''" "\<not> is_loopback_url ''console.w17.dev:443''"
    by code_simp+
  have st: "stored sample_store = {''http://localhost:4000'', ''console.w17.dev:443''}"
    by (auto simp: stored_def instance_at_def sample_store_def split: if_splits)
  have wf: "wf_map (st_instances sample_store)" by (simp add: sample_store_def)
  note p = prune_forgets_exactly_dead_local_consoles [OF wf r]
  have s': "stored s' = {''console.w17.dev:443''}"
    unfolding p [THEN conjunct1] st using lb by (auto simp: prunable_def)
  have "accounts.sound sample_store"
    unfolding accounts.sound_def st by (simp add: sample_store_def)
  then have "accounts.sound s'" using p [THEN conjunct2, THEN conjunct2, THEN conjunct2, THEN conjunct1] by blast
  then have "st_default s' = [] \<or> st_default s' = ''console.w17.dev:443''"
    by (simp add: accounts.sound_def s')
  moreover have "st_default s' = ''http://localhost:4000'' \<or> st_default s' = []"
    using p [THEN conjunct2, THEN conjunct2, THEN conjunct2, THEN conjunct2] by (simp add: sample_store_def)
  ultimately have "st_default s' = []" by auto
  moreover have "n = 1"
    unfolding p [THEN conjunct2, THEN conjunct1] st s' by (simp add: insert_Diff_if)
  ultimately show ?thesis using r s' by blast
qed

text \<open>Whatever sequence of logins, logouts and choices of a default the store goes through from a
  fresh one, the default console is one that is stored, so \<^verbatim>\<open>ActiveInstance\<close> finds it; the first
  login chooses it, and logging out of it never promotes another.\<close>

theorem default_console_is_always_stored:
  assumes "s = fold accounts.apply_op ops fresh_store"
  shows "(st_default s \<noteq> [] \<longrightarrow> active_instance s \<noteq> None)
    \<and> (st_default s = [] \<longrightarrow> url \<noteq> [] \<longrightarrow> st_default (log_in url i s) = url)
    \<and> active_instance (remove_instance (st_default s) s) = None"
proof -
  have "accounts.sound s"
    unfolding assms by (rule accounts.sound_run) (simp add: accounts.sound_def fresh_store_def)
  then show ?thesis
    by (auto simp: accounts.sound_def active_instance_def stored_def log_in_def set_instance_default
        remove_instance_def)
qed

theorem default_console_is_always_stored_witness:
  "\<exists>s. s = fold accounts.apply_op [Add ''a:1'' (sample_instance []), Add ''b:2'' (sample_instance []), Select ''b:2'']
       fresh_store \<and> st_default s = ''b:2'' \<and> active_instance s \<noteq> None"
proof -
  define s where "s = fold accounts.apply_op [Add ''a:1'' (sample_instance []), Add ''b:2'' (sample_instance []),
    Select ''b:2''] fresh_store"
  have s: "s = fst (set_default_instance ''b:2'' (log_in ''b:2'' (sample_instance [])
      (log_in ''a:1'' (sample_instance []) fresh_store)))"
    by (simp add: s_def)
  have "st_default s = ''b:2''"
    by (simp add: s set_default_instance_def instance_at_set log_in_def)
  with default_console_is_always_stored [OF s_def] s_def show ?thesis by auto
qed

end
