(* ===== verification/Tunnel.thy ===== *)
theory Tunnel
  imports Ports
begin

text \<open>
  Remote stacks (\<^verbatim>\<open>internal/tunnel/tunnel.go\<close>, \<^verbatim>\<open>state.go\<close>, \<^verbatim>\<open>internal/remote/dest.go\<close>, and
  \<^verbatim>\<open>openTunnels\<close>, \<^verbatim>\<open>closeTunnels\<close> of \<^verbatim>\<open>cmd/stack/mode.go\<close>): the SSH destination, the local
  forwards of a project, the supervisor of the ssh child, and the record by which a later process
  finds and stops that child.

  Starting a process, whether a start, a write or a remove fails, and which processes run are the
  environment's; the record and the set of running ssh children are the state. Processes that open
  and close one project's tunnel at the same time are a step relation over that state and the lock.
\<close>

section \<open>SSH destinations\<close>

record dest =
  ds_target :: string
  ds_port :: int

datatype dest_error = EmptyDest | PortRange int string | NoHost string

definition parse_dest :: "string \<Rightarrow> dest_error + dest" where
  "parse_dest raw =
     (let s = trim_space raw
      in if s = [] then Inl EmptyDest
         else (case last_colon s of
                 None \<Rightarrow> Inr \<lparr>ds_target = s, ds_port = 0\<rparr>
               | Some (host, port) \<Rightarrow>
                   (case atoi port of
                      None \<Rightarrow> Inr \<lparr>ds_target = s, ds_port = 0\<rparr>
                    | Some n \<Rightarrow>
                        if n < 1 \<or> n > 65535 then Inl (PortRange n s)
                        else if host = [] then Inl (NoHost s)
                        else Inr \<lparr>ds_target = host, ds_port = n\<rparr>)))"

definition ssh_port_args :: "dest \<Rightarrow> string list" where
  "ssh_port_args d = (if ds_port d = 0 then [] else [''-p'', itoa (ds_port d)])"

definition rsync_shell :: "dest \<Rightarrow> string" where
  "rsync_shell d = (if ds_port d = 0 then [] else ''ssh -p '' @ itoa (ds_port d))"

definition exec_args :: "dest \<Rightarrow> string \<Rightarrow> string list" where
  "exec_args d command = ssh_port_args d @ [ds_target d, command]"

definition shell_quote :: "string \<Rightarrow> string" where
  "shell_quote s =
     squote # concat (map (\<lambda>c. if c = squote then [squote, backslash, squote, squote] else [c]) s) @ [squote]"

section \<open>Forwards\<close>

record forward =
  fw_local :: int
  fw_remote :: int

definition forward_spec :: "forward \<Rightarrow> string" where
  "forward_spec f = itoa (fw_local f) @ '':127.0.0.1:'' @ itoa (fw_remote f)"

definition forwards_from_ports :: "(string, int) gomap \<Rightarrow> forward list \<Rightarrow> forward list" where
  "forwards_from_ports ports extra =
     (let by_port = fold (\<lambda>(_, p) m. if p = 0 then m else put p \<lparr>fw_local = p, fw_remote = p\<rparr> m) ports [];
          by_local = fold (\<lambda>f m. if fw_local f = 0 then m else put (fw_local f) f m) extra by_port
      in sort_slice (\<lambda>a b. fw_local a < fw_local b) (map snd by_local))"

section \<open>The supervisor\<close>

record supervisor =
  sv_dest :: dest
  sv_forwards :: "forward list"
  sv_proc :: "int option"

definition ssh_args :: "supervisor \<Rightarrow> string list" where
  "ssh_args s =
     [''-N'', ''-o'', ''ExitOnForwardFailure=yes'', ''-o'', ''ServerAliveInterval=15'',
      ''-o'', ''ServerAliveCountMax=3'']
     @ ssh_port_args (sv_dest s)
     @ concat (map (\<lambda>f. [''-L'', forward_spec f]) (sv_forwards s))
     @ [ds_target (sv_dest s)]"

datatype open_error = AlreadyOpen | StartFailed string

definition open_supervisor ::
  "(string list \<Rightarrow> string + int) \<Rightarrow> supervisor \<Rightarrow> open_error + supervisor" where
  "open_supervisor start s =
     (if sv_forwards s = [] then Inr s
      else if sv_proc s \<noteq> None then Inl AlreadyOpen
      else (case start (ssh_args s) of
              Inl e \<Rightarrow> Inl (StartFailed e)
            | Inr pid \<Rightarrow> Inr (s\<lparr>sv_proc := Some pid\<rparr>)))"

text \<open>\<^verbatim>\<open>KillPID\<close> on the running children: a pid that is not positive is left alone. A signalled child
  stops.\<close>

definition kill_pid :: "int \<Rightarrow> int list \<Rightarrow> int list" where
  "kill_pid pid running = (if pid \<le> 0 then running else removeAll pid running)"

definition close_supervisor :: "supervisor \<Rightarrow> int list \<Rightarrow> supervisor \<times> int list" where
  "close_supervisor s running =
     (case sv_proc s of
        None \<Rightarrow> (s, running)
      | Some pid \<Rightarrow> (s\<lparr>sv_proc := None\<rparr>, kill_pid pid running))"

definition supervisor_pid :: "supervisor \<Rightarrow> int" where
  "supervisor_pid s = (case sv_proc s of None \<Rightarrow> 0 | Some pid \<Rightarrow> pid)"

section \<open>The record of an open tunnel\<close>

record tunnel_state =
  ts_pid :: int
  ts_remote :: string
  ts_forwards :: "forward list"

datatype record_file = NoRecord | CorruptRecord string | Record tunnel_state

datatype tunnel_error = LockFailed string | BadRecord string | RemoveFailed string | OpenFailed open_error | SaveFailed string

text \<open>The teardown under the lock, on the record and the running children; \<open>remove_error\<close> is what
  \<^verbatim>\<open>os.Remove\<close> answers.\<close>

definition close_locked ::
  "string option \<Rightarrow> record_file \<times> int list \<Rightarrow> tunnel_error option \<times> record_file \<times> int list" where
  "close_locked remove_error st =
     (case st of
        (NoRecord, running) \<Rightarrow> (None, NoRecord, running)
      | (CorruptRecord e, running) \<Rightarrow> (Some (BadRecord e), CorruptRecord e, running)
      | (Record r, running) \<Rightarrow>
          (case remove_error of
             None \<Rightarrow> (None, NoRecord, kill_pid (ts_pid r) running)
           | Some e \<Rightarrow> (Some (RemoveFailed e), Record r, kill_pid (ts_pid r) running)))"

text \<open>\<^verbatim>\<open>openTunnels\<close>'s callback: start the supervisor and describe it.\<close>

definition open_tunnel ::
  "(string list \<Rightarrow> string + int) \<Rightarrow> dest \<Rightarrow> string \<Rightarrow> forward list \<Rightarrow> open_error + tunnel_state" where
  "open_tunnel start d name fwds =
     (case open_supervisor start \<lparr>sv_dest = d, sv_forwards = fwds, sv_proc = None\<rparr> of
        Inl e \<Rightarrow> Inl e
      | Inr s \<Rightarrow> Inr \<lparr>ts_pid = supervisor_pid s, ts_remote = name, ts_forwards = fwds\<rparr>)"

text \<open>\<^verbatim>\<open>Replace\<close> as one uninterrupted run: \<open>lock_error\<close>, \<open>remove_error\<close> and \<open>save_error\<close> are
  the answers of the lock and the file system.\<close>

definition replace_tunnel ::
  "string option \<Rightarrow> string option \<Rightarrow> (open_error + tunnel_state) \<Rightarrow> string option
     \<Rightarrow> record_file \<times> int list \<Rightarrow> tunnel_error option \<times> record_file \<times> int list" where
  "replace_tunnel lock_error remove_error opened save_error st =
     (case lock_error of
        Some e \<Rightarrow> (Some (LockFailed e), st)
      | None \<Rightarrow>
          (case close_locked remove_error st of
             (Some e, st) \<Rightarrow> (Some e, st)
           | (None, file, running) \<Rightarrow>
               (case opened of
                  Inl e \<Rightarrow> (Some (OpenFailed e), file, running)
                | Inr ts \<Rightarrow>
                    (let running = (if ts_pid ts > 0 then ts_pid ts # running else running)
                     in case save_error of
                          Some e \<Rightarrow> (Some (SaveFailed e), file, running)
                        | None \<Rightarrow> (None, Record ts, running)))))"

definition close_tunnel ::
  "string option \<Rightarrow> string option \<Rightarrow> record_file \<times> int list \<Rightarrow> tunnel_error option \<times> record_file \<times> int list" where
  "close_tunnel lock_error remove_error st =
     (case lock_error of Some e \<Rightarrow> (Some (LockFailed e), st) | None \<Rightarrow> close_locked remove_error st)"

definition open_tunnels ::
  "string option \<Rightarrow> string option \<Rightarrow> string option \<Rightarrow> (string list \<Rightarrow> string + int) \<Rightarrow> dest \<Rightarrow> string
     \<Rightarrow> (string, int) gomap \<Rightarrow> forward list \<Rightarrow> record_file \<times> int list
     \<Rightarrow> tunnel_error option \<times> record_file \<times> int list" where
  "open_tunnels lock_error remove_error save_error start d name ports extra st =
     (let fwds = forwards_from_ports ports extra
      in if fwds = [] then close_tunnel lock_error remove_error st
         else replace_tunnel lock_error remove_error (open_tunnel start d name fwds) save_error st)"

section \<open>Quoting and destinations\<close>

text \<open>How a POSIX shell reads a word of quoted and escaped text: \<^const>\<open>None\<close> when a quote is left
  open or any character stands outside quotes, where the shell would act on it.\<close>

fun shell_word :: "bool \<Rightarrow> string \<Rightarrow> string option" where
  "shell_word True [] = None"
| "shell_word False [] = Some []"
| "shell_word True (c # cs) =
     (if c = squote then shell_word False cs else map_option (Cons c) (shell_word True cs))"
| "shell_word False [c] = (if c = squote then shell_word True [] else None)"
| "shell_word False (c # d # ds) =
     (if c = squote then shell_word True (d # ds)
      else if c = backslash then map_option (Cons d) (shell_word False ds) else None)"

lemma shell_word_open: "shell_word False (squote # cs) = shell_word True cs"
  by (cases cs) auto

lemma shell_word_body:
  "shell_word True (concat (map (\<lambda>c. if c = squote then [squote, backslash, squote, squote] else [c]) s) @ [squote])
     = Some s"
  by (induction s) (auto simp: shell_word_open)

text \<open>The shell of the remote host reads a quoted value back unchanged, whatever it holds, and acts
  on no part of it.\<close>

theorem quoted_value_is_read_back: "shell_word False (shell_quote s) = Some s"
  by (simp add: shell_quote_def shell_word_open shell_word_body)

section \<open>Forwards of a project\<close>

definition wanted_forward :: "(string, int) gomap \<Rightarrow> forward list \<Rightarrow> int \<Rightarrow> forward option" where
  "wanted_forward ports extra l =
     (case filter (\<lambda>f. fw_local f = l) extra of
        [] \<Rightarrow> if l \<in> snd ` set ports then Some \<lparr>fw_local = l, fw_remote = l\<rparr> else None
      | fs \<Rightarrow> Some (last fs))"

lemma port_forwards_lookup:
  "map_of (fold (\<lambda>(_, p) m. if p = 0 then m else put p \<lparr>fw_local = p, fw_remote = p\<rparr> m) ports m) l =
     (if l \<noteq> 0 \<and> l \<in> snd ` set ports then Some \<lparr>fw_local = l, fw_remote = l\<rparr> else map_of m l)"
proof (induction ports arbitrary: m)
  case Nil
  show ?case by simp
next
  case (Cons x ports)
  obtain k p where x: "x = (k, p)" by (cases x)
  show ?case
    using Cons.IH [of m] Cons.IH [of "put p \<lparr>fw_local = p, fw_remote = p\<rparr> m"]
    by (cases "p = 0"; cases "p = l"; simp add: x)
qed

lemma extra_forwards_lookup:
  "map_of (fold (\<lambda>f m. if fw_local f = 0 then m else put (fw_local f) f m) extra m) l =
     (case filter (\<lambda>f. fw_local f = l) extra of
        [] \<Rightarrow> map_of m l
      | fs \<Rightarrow> if l = 0 then map_of m l else Some (last fs))"
proof (induction extra arbitrary: m)
  case Nil
  show ?case by simp
next
  case (Cons f extra)
  show ?case
    using Cons.IH [of m] Cons.IH [of "put (fw_local f) f m"]
    by (cases "fw_local f = 0"; cases "fw_local f = l"; cases "filter (\<lambda>f. fw_local f = l) extra"; simp)
qed

lemma wf_port_forwards:
  "wf_map m \<Longrightarrow> wf_map (fold (\<lambda>(_, p) m. if p = 0 then m else put p \<lparr>fw_local = p, fw_remote = p\<rparr> m) ports m)"
  by (induction ports arbitrary: m) auto

lemma wf_extra_forwards:
  "wf_map m \<Longrightarrow> wf_map (fold (\<lambda>f m. if fw_local f = 0 then m else put (fw_local f) f m) extra m)"
  by (induction extra arbitrary: m) auto

definition by_local :: "(string, int) gomap \<Rightarrow> forward list \<Rightarrow> (int, forward) gomap" where
  "by_local ports extra = fold (\<lambda>f m. if fw_local f = 0 then m else put (fw_local f) f m) extra
     (fold (\<lambda>(_, p) m. if p = 0 then m else put p \<lparr>fw_local = p, fw_remote = p\<rparr> m) ports [])"

lemma by_local_lookup:
  "map_of (by_local ports extra) l = (if l = 0 then None else wanted_forward ports extra l)"
  by (auto simp: by_local_def extra_forwards_lookup port_forwards_lookup wanted_forward_def split: list.split)

lemma wanted_forward_local: "wanted_forward ports extra l = Some f \<Longrightarrow> fw_local f = l"
proof (cases "filter (\<lambda>f. fw_local f = l) extra")
  case Nil
  assume "wanted_forward ports extra l = Some f"
  with Nil show ?thesis by (auto simp: wanted_forward_def split: if_splits)
next
  case (Cons a fs)
  assume "wanted_forward ports extra l = Some f"
  with Cons have f: "f = last (filter (\<lambda>f. fw_local f = l) extra)" by (simp add: wanted_forward_def)
  have "last (filter (\<lambda>f. fw_local f = l) extra) \<in> set (filter (\<lambda>f. fw_local f = l) extra)"
    using Cons by (intro last_in_set) simp
  then show ?thesis by (simp add: f)
qed

lemma by_local_entry: "(l, f) \<in> set (by_local ports extra) \<longleftrightarrow> l \<noteq> 0 \<and> wanted_forward ports extra l = Some f"
proof -
  have "wf_map (by_local ports extra)"
    unfolding by_local_def by (intro wf_extra_forwards wf_port_forwards) simp
  from map_of_eq_Some_iff [OF this, of l f] show ?thesis by (auto simp: by_local_lookup split: if_splits)
qed

interpretation local_order: comparison "\<lambda>a b. order_sign (fw_local a) (fw_local b)"
  by (rule comparison_order_sign)

text \<open>The forwards of a project are one per non-zero local port it needs, an extra forward taking
  the place of the port's own, in strictly increasing order of the local port whatever order the map
  is iterated in: ssh gets the same arguments every time and never two forwards for one port.\<close>

theorem forwards_are_deterministic:
  "sorted_wrt (\<lambda>a b. fw_local a < fw_local b) (forwards_from_ports ports extra) \<and>
   (f \<in> set (forwards_from_ports ports extra) \<longleftrightarrow>
      fw_local f \<noteq> 0 \<and> wanted_forward ports extra (fw_local f) = Some f)"
proof -
  have fwds: "forwards_from_ports ports extra = sort_slice (\<lambda>a b. fw_local a < fw_local b) (map snd (by_local ports extra))"
    by (simp add: forwards_from_ports_def by_local_def Let_def)
  have wf: "wf_map (by_local ports extra)"
    unfolding by_local_def by (intro wf_extra_forwards wf_port_forwards) simp
  have key: "map fw_local (map snd (by_local ports extra)) = map fst (by_local ports extra)"
    using by_local_entry wanted_forward_local by (auto simp: comp_def)
  have le: "sorted_wrt (\<lambda>a b. fw_local a \<le> fw_local b) (forwards_from_ports ports extra)"
    using local_order.sorted_sort_slice [of "map snd (by_local ports extra)"] by (simp add: fwds)
  have "mset (map fw_local (forwards_from_ports ports extra)) = mset (map fst (by_local ports extra))"
    unfolding key [symmetric] fwds mset_map mset_sort_slice ..
  from mset_eq_imp_distinct_iff [OF this] wf have "distinct (map fw_local (forwards_from_ports ports extra))" by blast
  with le have 1: "sorted_wrt (\<lambda>a b. fw_local a < fw_local b) (forwards_from_ports ports extra)"
    by (simp add: sorted_wrt_map [symmetric] strict_sorted_iff)
  have "f \<in> set (forwards_from_ports ports extra) \<longleftrightarrow> (\<exists>l. (l, f) \<in> set (by_local ports extra))"
    unfolding fwds set_sort_slice set_map by force
  also have "\<dots> \<longleftrightarrow> fw_local f \<noteq> 0 \<and> wanted_forward ports extra (fw_local f) = Some f"
    unfolding by_local_entry using wanted_forward_local by blast
  finally show ?thesis using 1 by blast
qed

lemma plain_forwards:
  "f \<in> set (forwards_from_ports ports []) \<Longrightarrow> f = \<lparr>fw_local = fw_local f, fw_remote = fw_local f\<rparr> \<and>
     fw_local f \<in> snd ` set ports"
proof -
  assume "f \<in> set (forwards_from_ports ports [])"
  then obtain l where "(l, f) \<in> set (by_local ports [])"
    by (auto simp: forwards_from_ports_def by_local_def Let_def)
  then have "wanted_forward ports [] l = Some f" by (simp add: by_local_entry)
  with wanted_forward_local [OF this] show ?thesis by (auto simp: wanted_forward_def split: if_splits)
qed

text \<open>Two projects on one machine never compete for a local port: on a registry that hands no port
  out twice, which the allocator keeps, the tunnels of different projects share no local port.\<close>

theorem tunnels_of_projects_never_collide:
  assumes "wf_registry c" and "ports_unique c" and "n \<noteq> m"
    and "map_of (cf_projects c) n = Some (Some p)" and "map_of (cf_projects c) m = Some (Some q)"
  shows "fw_local ` set (forwards_from_ports (pj_ports p) []) \<inter> fw_local ` set (forwards_from_ports (pj_ports q) []) = {}"
proof -
  have at: "\<exists>k. port_at c a k = Some l"
    if "map_of (cf_projects c) a = Some (Some r)" "l \<in> fw_local ` set (forwards_from_ports (pj_ports r) [])" for a r l
  proof -
    from that(2) have "l \<in> snd ` set (pj_ports r)" using plain_forwards by blast
    then obtain k where "(k, l) \<in> set (pj_ports r)" by auto
    moreover have "wf_map (pj_ports r)" using assms(1) that(1) by (auto simp: wf_registry_def)
    ultimately show ?thesis using that(1) by (auto simp: port_at_Some map_of_eq_Some_iff)
  qed
  show ?thesis using at [OF assms(4)] at [OF assms(5)] assms(2,3) unfolding ports_unique_def by blast
qed

definition tunnel_machine :: config where
  "tunnel_machine = fresh_config\<lparr>cf_projects :=
     [(''blog'', Some ((sample_project ''/w/blog'')\<lparr>pj_ports := [(''WEB'', 14000)]\<rparr>)),
      (''shop'', Some ((sample_project ''/w/shop'')\<lparr>pj_ports := [(''WEB'', 14001), (''DB'', 14002)]\<rparr>))]\<rparr>"

theorem tunnels_of_projects_never_collide_witness:
  "fw_local ` set (forwards_from_ports [(''WEB'', 14000)] []) \<inter>
   fw_local ` set (forwards_from_ports [(''WEB'', 14001), (''DB'', 14002)] []) = {}"
proof -
  have wf: "wf_registry tunnel_machine"
    by (auto simp: wf_registry_def tunnel_machine_def split: if_splits)
  have u: "ports_unique tunnel_machine"
    by (auto simp: ports_unique_def port_at_def tunnel_machine_def split: if_splits)
  show ?thesis
    using tunnels_of_projects_never_collide [OF wf u, of "''blog''" "''shop''"
        "(sample_project ''/w/blog'')\<lparr>pj_ports := [(''WEB'', 14000)]\<rparr>"
        "(sample_project ''/w/shop'')\<lparr>pj_ports := [(''WEB'', 14001), (''DB'', 14002)]\<rparr>"]
    by (simp add: tunnel_machine_def)
qed

section \<open>Concurrent processes\<close>

datatype tunnel_op = Up | Down

datatype phase = Absent | Waiting tunnel_op | Holding tunnel_op | TornDown | Spawned tunnel_state | Finished

text \<open>One project's tunnel: the record, the running ssh children, who holds the lock, and where each
  process is in \<^verbatim>\<open>Replace\<close> or \<^verbatim>\<open>Close\<close>.\<close>

record tunnels =
  tn_file :: record_file
  tn_running :: "int list"
  tn_holder :: "nat option"
  tn_phase :: "nat \<Rightarrow> phase"

datatype tunnel_event =
    Arrive nat tunnel_op
  | Acquire nat
  | TearDown nat "string option"
  | Spawn nat tunnel_state
  | SpawnFails nat
  | Save nat
  | SaveFails nat
  | Crash nat
  | ChildDies int

definition at_phase :: "nat \<Rightarrow> phase \<Rightarrow> tunnels \<Rightarrow> tunnels" where
  "at_phase p ph s = s\<lparr>tn_phase := (tn_phase s)(p := ph)\<rparr>"

definition release :: "nat \<Rightarrow> tunnels \<Rightarrow> tunnels" where
  "release p s = (at_phase p Finished s)\<lparr>tn_holder := None\<rparr>"

text \<open>After the teardown a \<^verbatim>\<open>Close\<close> or a failed one is done; \<^verbatim>\<open>Replace\<close> goes on.\<close>

definition after_teardown :: "nat \<Rightarrow> tunnel_op \<Rightarrow> tunnel_error option \<Rightarrow> tunnels \<Rightarrow> tunnels" where
  "after_teardown p op err s = (if err = None \<and> op = Up then at_phase p TornDown s else release p s)"

inductive tunnel_step :: "tunnels \<Rightarrow> tunnel_event \<Rightarrow> tunnels \<Rightarrow> bool" where
  arrive: "tn_phase s p = Absent \<Longrightarrow> tunnel_step s (Arrive p op) (at_phase p (Waiting op) s)"
| acquire: "tn_phase s p = Waiting op \<Longrightarrow> tn_holder s = None \<Longrightarrow>
     tunnel_step s (Acquire p) ((at_phase p (Holding op) s)\<lparr>tn_holder := Some p\<rparr>)"
| teardown: "tn_phase s p = Holding op \<Longrightarrow>
     close_locked remove_error (tn_file s, tn_running s) = (err, file, running) \<Longrightarrow>
     tunnel_step s (TearDown p remove_error)
       (after_teardown p op err (s\<lparr>tn_file := file, tn_running := running\<rparr>))"
| spawn: "tn_phase s p = TornDown \<Longrightarrow> 0 < ts_pid ts \<Longrightarrow> ts_pid ts \<notin> set (tn_running s) \<Longrightarrow>
     tunnel_step s (Spawn p ts) ((at_phase p (Spawned ts) s)\<lparr>tn_running := ts_pid ts # tn_running s\<rparr>)"
| spawn_fails: "tn_phase s p = TornDown \<Longrightarrow> tunnel_step s (SpawnFails p) (release p s)"
| save: "tn_phase s p = Spawned ts \<Longrightarrow> tunnel_step s (Save p) ((release p s)\<lparr>tn_file := Record ts\<rparr>)"
| save_fails: "tn_phase s p = Spawned ts \<Longrightarrow> tunnel_step s (SaveFails p) (release p s)"
| crash: "tunnel_step s (Crash p)
     ((at_phase p Finished s)\<lparr>tn_holder := (if tn_holder s = Some p then None else tn_holder s)\<rparr>)"
| dies: "tunnel_step s (ChildDies pid) (s\<lparr>tn_running := removeAll pid (tn_running s)\<rparr>)"

inductive_cases tunnel_stepE: "tunnel_step s e t"

definition no_tunnels :: tunnels where
  "no_tunnels = \<lparr>tn_file = NoRecord, tn_running = [], tn_holder = None, tn_phase = (\<lambda>_. Absent)\<rparr>"

text \<open>The lost children: those still running whose \<^verbatim>\<open>stack up\<close> started them and then could not write the
  record, or was killed before it did. Nothing the code keeps names them.\<close>

definition lost_after :: "tunnels \<Rightarrow> tunnel_event \<Rightarrow> int set \<Rightarrow> int set" where
  "lost_after s e lost =
     (let losing = (\<lambda>p. case tn_phase s p of
             Spawned ts \<Rightarrow> if ts_pid ts \<in> set (tn_running s) then insert (ts_pid ts) lost else lost
           | _ \<Rightarrow> lost)
      in case e of SaveFails p \<Rightarrow> losing p | Crash p \<Rightarrow> losing p | ChildDies pid \<Rightarrow> lost - {pid} | _ \<Rightarrow> lost)"

inductive tunnel_reach :: "tunnels \<Rightarrow> int set \<Rightarrow> bool" where
  start: "tunnel_reach no_tunnels {}"
| step: "tunnel_reach s lost \<Longrightarrow> tunnel_step s e t \<Longrightarrow> tunnel_reach t (lost_after s e lost)"

definition in_section :: "phase \<Rightarrow> bool" where
  "in_section ph \<longleftrightarrow> (\<exists>op. ph = Holding op) \<or> ph = TornDown \<or> (\<exists>ts. ph = Spawned ts)"

definition recorded :: "tunnels \<Rightarrow> int set" where
  "recorded s = (case tn_file s of Record r \<Rightarrow> {ts_pid r} | _ \<Rightarrow> {})"

text \<open>The children the current holder of the lock accounts for, beside the record.\<close>

definition in_flight :: "tunnels \<Rightarrow> int set" where
  "in_flight s = (case tn_holder s of
      None \<Rightarrow> recorded s
    | Some p \<Rightarrow> (case tn_phase s p of TornDown \<Rightarrow> {} | Spawned ts \<Rightarrow> {ts_pid ts} | _ \<Rightarrow> recorded s))"

definition tunnel_inv :: "tunnels \<Rightarrow> int set \<Rightarrow> bool" where
  "tunnel_inv s lost \<longleftrightarrow>
     (\<forall>p. in_section (tn_phase s p) \<longleftrightarrow> tn_holder s = Some p) \<and>
     set (tn_running s) \<subseteq> in_flight s \<union> lost \<and> lost \<subseteq> set (tn_running s) \<and>
     in_flight s \<inter> lost = {} \<and> recorded s \<inter> lost = {} \<and>
     (\<forall>p. tn_phase s p = TornDown \<or> (\<exists>ts. tn_phase s p = Spawned ts) \<longrightarrow> tn_file s = NoRecord) \<and>
     (\<forall>pid \<in> set (tn_running s). 0 < pid) \<and> (\<forall>e. tn_file s \<noteq> CorruptRecord e)"

lemma in_section_simps [simp]:
  "in_section (Holding op)" "in_section TornDown" "in_section (Spawned ts)"
  "\<not> in_section Absent" "\<not> in_section (Waiting op)" "\<not> in_section Finished"
  by (auto simp: in_section_def)

lemma phase_simps [simp]:
  "tn_phase (at_phase p ph s) q = (if q = p then ph else tn_phase s q)"
  "tn_holder (at_phase p ph s) = tn_holder s" "tn_file (at_phase p ph s) = tn_file s"
  "tn_running (at_phase p ph s) = tn_running s"
  "tn_phase (release p s) q = (if q = p then Finished else tn_phase s q)"
  "tn_holder (release p s) = None" "tn_file (release p s) = tn_file s"
  "tn_running (release p s) = tn_running s"
  by (simp_all add: at_phase_def release_def)

lemma recorded_simps [simp]:
  "recorded (s\<lparr>tn_holder := h\<rparr>) = recorded s" "recorded (at_phase p ph s) = recorded s"
  by (simp_all add: recorded_def)

text \<open>A teardown of a sound record leaves no child running but the lost ones.\<close>

lemma kill_recorded:
  assumes "set running \<subseteq> insert pid lost" and "\<forall>pid \<in> set running. 0 < pid" and "pid \<notin> lost"
  shows "kill_pid pid running = filter (\<lambda>x. x \<in> lost) running"
proof (cases "pid \<le> 0")
  case True
  with assms(1,2) have "set running \<subseteq> lost" by fastforce
  then have "filter (\<lambda>x. x \<in> lost) running = running" by (auto simp: filter_id_conv)
  with True show ?thesis by (simp add: kill_pid_def)
next
  case False
  with assms(1,3) show ?thesis
    by (auto simp: kill_pid_def removeAll_filter_not_eq intro!: filter_cong)
qed

lemma close_locked_sound:
  assumes "close_locked remove_error (f, running) = (err, f', running')"
    and "set running \<subseteq> (case f of Record r \<Rightarrow> {ts_pid r} | _ \<Rightarrow> {}) \<union> lost"
    and "(case f of Record r \<Rightarrow> {ts_pid r} | _ \<Rightarrow> {}) \<inter> lost = {}"
    and "\<forall>pid \<in> set running. 0 < pid" and "\<forall>e. f \<noteq> CorruptRecord e"
  shows "running' = filter (\<lambda>x. x \<in> lost) running \<and> (f' = f \<or> f' = NoRecord) \<and> (err = None \<longrightarrow> f' = NoRecord)"
proof (cases f)
  case NoRecord
  with assms(2) have "filter (\<lambda>x. x \<in> lost) running = running" by (auto simp: filter_id_conv)
  with NoRecord assms(1) show ?thesis by (auto simp: close_locked_def)
next
  case (CorruptRecord e)
  with assms(5) show ?thesis by simp
next
  case (Record r)
  with assms(2-4) have "kill_pid (ts_pid r) running = filter (\<lambda>x. x \<in> lost) running"
    by (intro kill_recorded) auto
  with Record assms(1) show ?thesis by (auto simp: close_locked_def split: option.splits)
qed

lemma in_flight_other:
  "tn_holder t = tn_holder s \<Longrightarrow> recorded t = recorded s \<Longrightarrow>
     (\<And>q. tn_holder s = Some q \<Longrightarrow> tn_phase t q = tn_phase s q) \<Longrightarrow> in_flight t = in_flight s"
  unfolding in_flight_def by (cases "tn_holder s") (simp_all split: phase.split)

lemma tunnel_inv_step:
  assumes "tunnel_inv s lost" and "tunnel_step s e t"
  shows "tunnel_inv t (lost_after s e lost)"
  using assms(2)
proof cases
  have sec: "in_section (tn_phase s q) \<longleftrightarrow> tn_holder s = Some q" for q
    using assms(1) by (simp add: tunnel_inv_def)
  have run: "set (tn_running s) \<subseteq> in_flight s \<union> lost" "lost \<subseteq> set (tn_running s)" "in_flight s \<inter> lost = {}"
    "recorded s \<inter> lost = {}" "\<forall>pid \<in> set (tn_running s). 0 < pid" "\<forall>e. tn_file s \<noteq> CorruptRecord e"
    using assms(1) by (simp_all add: tunnel_inv_def)
  have none: "tn_phase s q = TornDown \<Longrightarrow> tn_file s = NoRecord"
      "tn_phase s q = Spawned ts \<Longrightarrow> tn_file s = NoRecord" for q ts
    using assms(1) unfolding tunnel_inv_def by blast+
  {
    case (arrive p op)
    have np: "tn_holder s \<noteq> Some p" using sec [of p] arrive(3) by simp
    have "in_flight t = in_flight s"
      unfolding arrive(2) by (rule in_flight_other) (use np in auto)
    then show ?thesis using np sec run unfolding arrive(1,2)
      by (auto simp: tunnel_inv_def lost_after_def dest: none split: if_splits)
  next
    case (acquire p op)
    have "in_flight t = in_flight s"
      unfolding acquire(2) using acquire(4) by (simp add: in_flight_def)
    then show ?thesis using acquire(4) sec run unfolding acquire(1,2)
      by (auto simp: tunnel_inv_def lost_after_def dest: none split: if_splits)
  next
    case (teardown p op remove_error err f running)
    have h: "tn_holder s = Some p" using sec [of p] teardown(3) by simp
    have "in_flight s = recorded s" using h teardown(3) by (simp add: in_flight_def)
    with close_locked_sound [OF teardown(4), of lost] run
    have r: "running = filter (\<lambda>x. x \<in> lost) (tn_running s)" "f = tn_file s \<or> f = NoRecord"
      "err = None \<Longrightarrow> f = NoRecord" by (auto simp: recorded_def)
    then have lost: "set running = lost" using run(2) by auto
    have other: "tn_phase s q \<noteq> TornDown" "tn_phase s q \<noteq> Spawned ts" if "q \<noteq> p" for q ts
      using sec [of q] h that by auto
    have rec: "recorded t \<subseteq> recorded s"
      using r(2) unfolding teardown(2) by (auto simp: after_teardown_def recorded_def release_def at_phase_def)
    have fl: "in_flight t \<subseteq> recorded t"
      using h unfolding teardown(2) by (auto simp: after_teardown_def in_flight_def)
    have l: "lost_after s e lost = lost" by (simp add: teardown(1) lost_after_def)
    have "tn_file t = f" "set (tn_running t) = lost" using lost unfolding teardown(2)
      by (simp_all add: after_teardown_def)
    moreover have "in_section (tn_phase t q) \<longleftrightarrow> tn_holder t = Some q" for q
      using sec [of q] h unfolding teardown(2) by (auto simp: after_teardown_def)
    moreover have "tn_phase t q = TornDown \<or> (\<exists>ts. tn_phase t q = Spawned ts) \<Longrightarrow> f = NoRecord" for q
      using r(3) other [of q] unfolding teardown(2) by (auto simp: after_teardown_def split: if_splits)
    moreover have "\<forall>e. f \<noteq> CorruptRecord e" using r(2) run(6) by (metis record_file.distinct(1))
    ultimately show ?thesis using run(2,4,5) rec fl unfolding l tunnel_inv_def by blast
  next
    case (spawn p ts)
    have h: "tn_holder s = Some p" using sec [of p] spawn(3) by simp
    have f: "tn_file s = NoRecord" using none [of p] spawn(3) by simp
    from h run(1) spawn(3) have "set (tn_running s) \<subseteq> lost" by (simp add: in_flight_def)
    then show ?thesis using h f sec run spawn(4,5) unfolding spawn(1,2)
      by (auto simp: tunnel_inv_def in_flight_def recorded_def lost_after_def)
  next
    case (spawn_fails p)
    have h: "tn_holder s = Some p" using sec [of p] spawn_fails(3) by simp
    have f: "tn_file s = NoRecord" using none [of p] spawn_fails(3) by simp
    from h run(1) spawn_fails(3) have "set (tn_running s) \<subseteq> lost" by (simp add: in_flight_def)
    then show ?thesis using h f sec run unfolding spawn_fails(1,2)
      by (auto simp: tunnel_inv_def in_flight_def recorded_def lost_after_def)
  next
    case (save p ts)
    have h: "tn_holder s = Some p" using sec [of p] save(3) by simp
    have other: "tn_phase s q \<noteq> TornDown" "tn_phase s q \<noteq> Spawned ts'" if "q \<noteq> p" for q ts'
      using sec [of q] h that by auto
    from h save(3) have "in_flight s = {ts_pid ts}" by (simp add: in_flight_def)
    then show ?thesis using h sec run other unfolding save(1,2)
      by (auto simp: tunnel_inv_def in_flight_def recorded_def lost_after_def)
  next
    case (save_fails p ts)
    have h: "tn_holder s = Some p" using sec [of p] save_fails(3) by simp
    have f: "tn_file s = NoRecord" using none [of p] save_fails(3) by simp
    from h save_fails(3) have "in_flight s = {ts_pid ts}" by (simp add: in_flight_def)
    then show ?thesis using h f sec run save_fails(3) unfolding save_fails(1,2)
      by (auto simp: tunnel_inv_def in_flight_def recorded_def lost_after_def)
  next
    case (crash p)
    show ?thesis
    proof (cases "tn_holder s = Some p")
      case held: True
      then have other: "tn_phase s q \<noteq> TornDown" "tn_phase s q \<noteq> Spawned ts'" if "q \<noteq> p" for q ts'
        using sec [of q] that by auto
      have t: "in_flight t = recorded s" "recorded t = recorded s"
        using held unfolding crash(2) by (simp_all add: in_flight_def)
      show ?thesis
      proof (cases "\<exists>ts. tn_phase s p = Spawned ts")
        case True
        then obtain ts where ts: "tn_phase s p = Spawned ts" by blast
        then have "tn_file s = NoRecord" using none [of p] by blast
        moreover have "in_flight s = {ts_pid ts}" using held ts by (simp add: in_flight_def)
        ultimately show ?thesis using held ts sec run t unfolding crash(1,2)
          by (auto simp: tunnel_inv_def recorded_def lost_after_def)
      next
        case False
        with held sec [of p] have "in_flight s \<subseteq> recorded s"
          by (auto simp: in_flight_def in_section_def)
        moreover have "lost_after s e lost = lost"
          using False by (auto simp: crash(1) lost_after_def split: phase.split)
        ultimately show ?thesis using held sec run t other unfolding crash(2)
          by (auto simp: tunnel_inv_def split: if_splits)
      qed
    next
      case False
      then have "\<not> in_section (tn_phase s p)" using sec by blast
      then have l: "lost_after s e lost = lost"
        by (auto simp: crash(1) lost_after_def split: phase.split)
      have "in_flight t = in_flight s"
        unfolding crash(2) by (rule in_flight_other) (use False in auto)
      then show ?thesis using False sec run unfolding l crash(2)
        by (auto simp: tunnel_inv_def dest: none split: if_splits)
    qed
  next
    case (dies pid)
    have "in_flight t = in_flight s" "recorded t = recorded s"
      unfolding dies(2) by (rule in_flight_other) (auto simp: recorded_def)
    then show ?thesis using sec run unfolding dies(1,2)
      by (auto simp: tunnel_inv_def lost_after_def dest: none)
  }
qed

lemma tunnel_reach_inv: "tunnel_reach s lost \<Longrightarrow> tunnel_inv s lost"
proof (induction rule: tunnel_reach.induct)
  case start
  show ?case by (simp add: tunnel_inv_def no_tunnels_def in_flight_def recorded_def)
next
  case (step s lost e t)
  then show ?case using tunnel_inv_step by blast
qed

text \<open>C8: however the \<^verbatim>\<open>stack up\<close>s and \<^verbatim>\<open>stack down\<close>s of a project interleave, with children that fail to
  start or die, records that cannot be written and processes killed at any moment, at most one process
  is between taking and releasing the lock, and at most one ssh child runs beside the lost ones, those
  whose own \<^verbatim>\<open>stack up\<close> started them and then failed at writing the record or was killed before it. When
  the lock is free that one child is the recorded one, so a \<^verbatim>\<open>stack down\<close> then ends it and leaves
  exactly the lost ones running.\<close>

theorem only_a_failed_up_orphans_a_child:
  assumes "tunnel_reach s lost"
  shows "(in_section (tn_phase s p) \<longrightarrow> in_section (tn_phase s q) \<longrightarrow> p = q)
    \<and> (\<exists>pid. set (tn_running s) \<subseteq> insert pid lost)
    \<and> (tn_holder s = None \<longrightarrow> set (tn_running s) \<subseteq> recorded s \<union> lost \<and>
         close_tunnel None None (tn_file s, tn_running s)
           = (None, NoRecord, filter (\<lambda>pid. pid \<in> lost) (tn_running s)))"
proof -
  have inv: "tunnel_inv s lost" by (rule tunnel_reach_inv [OF assms])
  have "\<exists>pid. in_flight s \<subseteq> {pid}"
    by (auto simp: in_flight_def recorded_def split: option.split phase.split record_file.split)
  then have one: "\<exists>pid. set (tn_running s) \<subseteq> insert pid lost"
    using inv by (auto simp: tunnel_inv_def)
  have sec: "in_section (tn_phase s p) \<longrightarrow> in_section (tn_phase s q) \<longrightarrow> p = q"
    using inv by (auto simp: tunnel_inv_def)
  have "set (tn_running s) \<subseteq> recorded s \<union> lost \<and> close_tunnel None None (tn_file s, tn_running s)
      = (None, NoRecord, filter (\<lambda>pid. pid \<in> lost) (tn_running s))"
    if "tn_holder s = None"
  proof
    show r: "set (tn_running s) \<subseteq> recorded s \<union> lost"
      using inv that by (simp add: tunnel_inv_def in_flight_def)
    obtain err f running where c: "close_locked None (tn_file s, tn_running s) = (err, f, running)"
      by (cases "close_locked None (tn_file s, tn_running s)") auto
    have "\<forall>e. tn_file s \<noteq> CorruptRecord e" using inv by (simp add: tunnel_inv_def)
    with c have "err = None" by (auto simp: close_locked_def split: record_file.splits)
    with close_locked_sound [OF c, of lost] r inv
    have "running = filter (\<lambda>pid. pid \<in> lost) (tn_running s) \<and> f = NoRecord"
      by (auto simp: recorded_def tunnel_inv_def)
    with c \<open>err = None\<close> show "close_tunnel None None (tn_file s, tn_running s)
        = (None, NoRecord, filter (\<lambda>pid. pid \<in> lost) (tn_running s))"
      by (simp add: close_tunnel_def)
  qed
  with one sec show ?thesis by blast
qed

definition sample_tunnel :: tunnel_state where
  "sample_tunnel = \<lparr>ts_pid = 4711, ts_remote = ''big'', ts_forwards = []\<rparr>"

text \<open>The sample: one process starts a child and is killed before it records it, a second one brings the
  tunnel up, a third one waits for the lock.\<close>

definition lost_tunnel :: tunnel_state where
  "lost_tunnel = \<lparr>ts_pid = 4700, ts_remote = ''big'', ts_forwards = []\<rparr>"

definition one_up :: tunnels where
  "one_up = \<lparr>tn_file = Record sample_tunnel, tn_running = [4711, 4700], tn_holder = None,
     tn_phase = (\<lambda>_. Absent)(3 := Waiting Down, 1 := Finished, 2 := Finished)\<rparr>"

definition up_at :: "nat \<Rightarrow> phase \<Rightarrow> (nat \<Rightarrow> phase) \<Rightarrow> int list \<Rightarrow> tunnels" where
  "up_at p ph phases running = \<lparr>tn_file = NoRecord, tn_running = running, tn_holder = Some p,
     tn_phase = phases(p := ph)\<rparr>"

text \<open>One \<^verbatim>\<open>stack up\<close> from its arrival to its child, when nothing is recorded.\<close>

lemma up_spawns:
  assumes "tunnel_reach \<lparr>tn_file = NoRecord, tn_running = running, tn_holder = None, tn_phase = phases\<rparr> lost"
    and "phases p = Absent" and "0 < ts_pid ts" and "ts_pid ts \<notin> set running"
  shows "tunnel_reach (up_at p (Spawned ts) phases (ts_pid ts # running)) lost"
proof -
  let ?s = "\<lparr>tn_file = NoRecord, tn_running = running, tn_holder = None, tn_phase = phases\<rparr>"
  have "tunnel_reach (at_phase p (Waiting Up) ?s) lost"
    using tunnel_reach.step [OF assms(1) tunnel_step.arrive [of ?s p Up]] assms(2)
    by (simp add: lost_after_def)
  from tunnel_reach.step [OF this tunnel_step.acquire [of _ p Up]]
  have "tunnel_reach (up_at p (Holding Up) phases running) lost"
    by (simp add: lost_after_def up_at_def at_phase_def)
  from tunnel_reach.step [OF this tunnel_step.teardown [of _ p Up None None NoRecord running]]
  have "tunnel_reach (up_at p TornDown phases running) lost"
    by (simp add: lost_after_def up_at_def at_phase_def after_teardown_def close_locked_def)
  from tunnel_reach.step [OF this tunnel_step.spawn [of _ p ts]] assms(3,4)
  show ?thesis by (simp add: lost_after_def up_at_def at_phase_def)
qed

lemma one_up_reached: "tunnel_reach one_up {4700}"
proof -
  let ?a = "(\<lambda>_. Absent)(3 := Waiting Down)"
  have "tunnel_reach \<lparr>tn_file = NoRecord, tn_running = [], tn_holder = None, tn_phase = ?a\<rparr> {}"
    using tunnel_reach.step [OF tunnel_reach.start tunnel_step.arrive [of no_tunnels 3 Down]]
    by (simp add: no_tunnels_def lost_after_def at_phase_def)
  from up_spawns [OF this, of 1 lost_tunnel]
  have "tunnel_reach (up_at 1 (Spawned lost_tunnel) ?a [4700]) {}" by (simp add: lost_tunnel_def)
  from tunnel_reach.step [OF this tunnel_step.crash [of _ 1]]
  have "tunnel_reach \<lparr>tn_file = NoRecord, tn_running = [4700], tn_holder = None,
      tn_phase = ?a(1 := Finished)\<rparr> {4700}"
    by (simp add: up_at_def at_phase_def lost_after_def lost_tunnel_def)
  from up_spawns [OF this, of 2 sample_tunnel]
  have "tunnel_reach (up_at 2 (Spawned sample_tunnel) (?a(1 := Finished)) [4711, 4700]) {4700}"
    by (simp add: sample_tunnel_def)
  from tunnel_reach.step [OF this tunnel_step.save [of _ 2 sample_tunnel]]
  show ?thesis by (simp add: up_at_def at_phase_def release_def lost_after_def one_up_def)
qed

theorem only_a_failed_up_orphans_a_child_witness:
  "tn_running one_up = [4711, 4700]
   \<and> close_tunnel None None (tn_file one_up, tn_running one_up) = (None, NoRecord, [4700])"
proof -
  have "tn_holder one_up = None" "tn_running one_up = [4711, 4700]" by (simp_all add: one_up_def)
  with only_a_failed_up_orphans_a_child [OF one_up_reached] show ?thesis by simp
qed

text \<open>When writing the record fails after the child was started, \<^verbatim>\<open>Replace\<close> reports the error and
  leaves the child running with no record of it: every later \<^verbatim>\<open>stack down\<close> succeeds and leaves it
  running.\<close>

theorem failed_save_orphans_the_child:
  assumes "replace_tunnel None None (Inr ts) (Some e) (NoRecord, running) = (err, f, running')"
    and "0 < ts_pid ts"
  shows "err = Some (SaveFailed e) \<and> ts_pid ts \<in> set running' \<and>
    close_tunnel None None (f, running') = (None, NoRecord, running')"
  using assms by (auto simp: replace_tunnel_def close_locked_def close_tunnel_def)

theorem failed_save_orphans_the_child_witness:
  "close_tunnel None None (snd (replace_tunnel None None (Inr sample_tunnel) (Some ''disk full'') (NoRecord, [])))
     = (None, NoRecord, [4711])"
proof -
  have "replace_tunnel None None (Inr sample_tunnel) (Some ''disk full'') (NoRecord, [])
      = (Some (SaveFailed ''disk full''), NoRecord, [4711])"
    by (simp add: replace_tunnel_def close_locked_def sample_tunnel_def)
  with failed_save_orphans_the_child [OF this] show ?thesis by (simp add: sample_tunnel_def)
qed

end
