(* ===== verification/Credentials.thy ===== *)
theory Credentials
  imports AuthStore Paths
begin

text \<open>
  What a console call carries (\<^verbatim>\<open>internal/core/auth.go\<close>, \<^verbatim>\<open>envtoken.go\<close>,
  \<^verbatim>\<open>consolecreds.go\<close>, \<^verbatim>\<open>orgresolve.go\<close>, \<^verbatim>\<open>sessionexpiry.go\<close>): which token is presented to
  the console being dialed, in which form, for which organization, and what an expired session leaves
  in the store.

  The environment variables, the credential file, the lock on disk, the device key file, the proof
  library, the console's answer to \<^verbatim>\<open>ListMyOrgs\<close>, the clock and \<^verbatim>\<open>net.ParseIP\<close> are parameters.
\<close>

section \<open>Addresses of one console\<close>

definition split_console_scheme :: "string \<Rightarrow> string \<times> string" where
  "split_console_scheme addr =
     (case find (\<lambda>s. prefix (s @ ''://'') addr) [''https'', ''grpcs'', ''http'', ''grpc''] of
        Some s \<Rightarrow> (s, drop (length s + 3) addr)
      | None \<Rightarrow> ([], addr))"

text \<open>\<^verbatim>\<open>net.SplitHostPort\<close>, with \<^const>\<open>None\<close> for its errors, and \<^verbatim>\<open>net.JoinHostPort\<close>.\<close>

definition split_host_port :: "string \<Rightarrow> (string \<times> string) option" where
  "split_host_port s =
     (case last_colon s of
        None \<Rightarrow> None
      | Some (before, port) \<Rightarrow>
          if prefix ''['' s then
            (let host = takeWhile (\<lambda>c. c \<noteq> CHR '']'') (tl s);
                 rest = drop (length host + 1) s
             in if rest = [] \<or> length host + 2 \<noteq> length before then None
                else if CHR ''['' \<in> set (tl s) \<or> CHR '']'' \<in> set (tl rest) then None
                else Some (host, port))
          else if CHR '':'' \<in> set before \<or> CHR ''['' \<in> set s \<or> CHR '']'' \<in> set s then None
          else Some (before, port))"

definition join_host_port :: "string \<Rightarrow> string \<Rightarrow> string" where
  "join_host_port host port =
     (if CHR '':'' \<in> set host then ''['' @ host @ '']:'' @ port else host @ '':'' @ port)"

text \<open>\<open>loopback\<close> says whether a text parses as a loopback IP address.\<close>

definition normalize_console_addr :: "(string \<Rightarrow> bool) \<Rightarrow> string \<Rightarrow> string" where
  "normalize_console_addr loopback addr =
     (let target = snd (split_console_scheme addr);
          (host, port) = (case split_host_port target of Some hp \<Rightarrow> hp | None \<Rightarrow> (target, []));
          host = to_lower (trim_suffix '']'' (trim_prefix ''['' host));
          host = (if host = ''localhost'' \<or> loopback host then ''127.0.0.1'' else host)
      in if port = [] then host else join_host_port host port)"

section \<open>The environment of a process\<close>

record cred_env =
  ce_getenv :: "string \<Rightarrow> string"
  ce_default_addr :: string
  ce_store :: "string + auth_store"
  ce_loopback :: "string \<Rightarrow> bool"

abbreviation norm_addr :: "cred_env \<Rightarrow> string \<Rightarrow> string" where
  "norm_addr e \<equiv> normalize_console_addr (ce_loopback e)"

definition env_bound_addr :: "cred_env \<Rightarrow> string" where
  "env_bound_addr e =
     (if ce_getenv e ''W17_CONSOLE_ADDR'' \<noteq> [] then ce_getenv e ''W17_CONSOLE_ADDR'' else ce_default_addr e)"

definition env_token_for :: "cred_env \<Rightarrow> string \<Rightarrow> string" where
  "env_token_for e addr =
     (let token = ce_getenv e ''W17_TOKEN''; bound = env_bound_addr e
      in if token = [] then []
         else if bound = [] then []
         else if norm_addr e addr \<noteq> norm_addr e bound then []
         else token)"

definition env_token_binding :: "cred_env \<Rightarrow> string \<Rightarrow> string \<times> bool" where
  "env_token_binding e addr =
     (let bound = env_bound_addr e
      in if ce_getenv e ''W17_TOKEN'' = [] then ([], False)
         else if bound = [] then ([], False)
         else (bound, norm_addr e addr = norm_addr e bound))"

text \<open>The loop runs over the map in some order; the list order is that order.\<close>

fun instance_alike ::
  "(string \<Rightarrow> string) \<Rightarrow> string \<Rightarrow> (string, console_instance option) gomap \<Rightarrow> console_instance option" where
  "instance_alike norm want [] = None"
| "instance_alike norm want ((k, None) # m) = instance_alike norm want m"
| "instance_alike norm want ((k, Some i) # m) =
     (if norm k = want then Some i else instance_alike norm want m)"

definition lookup_instance :: "cred_env \<Rightarrow> auth_store \<Rightarrow> string \<Rightarrow> console_instance option" where
  "lookup_instance e st addr =
     (if addr = [] then active_instance st
      else (case instance_at addr st of
              Some i \<Rightarrow> Some i
            | None \<Rightarrow> instance_alike (norm_addr e) (norm_addr e addr) (st_instances st)))"

definition instance_for :: "cred_env \<Rightarrow> string \<Rightarrow> console_instance option" where
  "instance_for e addr = (case ce_store e of Inl _ \<Rightarrow> None | Inr st \<Rightarrow> lookup_instance e st addr)"

definition auth_token :: "cred_env \<Rightarrow> string \<Rightarrow> string" where
  "auth_token e addr =
     (if env_token_for e addr \<noteq> [] then env_token_for e addr
      else (case instance_for e addr of Some i \<Rightarrow> in_token i | None \<Rightarrow> []))"

fun org_by_id :: "string \<Rightarrow> org option list \<Rightarrow> org option" where
  "org_by_id i [] = None"
| "org_by_id i (None # os) = org_by_id i os"
| "org_by_id i (Some g # os) = (if og_id g = i then Some g else org_by_id i os)"

definition org_slug_for :: "cred_env \<Rightarrow> string \<Rightarrow> string" where
  "org_slug_for e addr =
     (case instance_for e addr of
        None \<Rightarrow> []
      | Some i \<Rightarrow>
          if in_default_org i = [] then []
          else (case org_by_id (in_default_org i) (in_orgs i) of None \<Rightarrow> [] | Some g \<Rightarrow> og_slug g))"

section \<open>The form a token goes out in\<close>

record token_binding =
  tb_bound :: bool
  tb_device :: string

definition unbound :: token_binding where
  "unbound = \<lparr>tb_bound = False, tb_device = []\<rparr>"

definition binding_for :: "cred_env \<Rightarrow> string \<Rightarrow> string \<Rightarrow> token_binding" where
  "binding_for e addr token =
     (if token = [] then unbound
      else if ce_getenv e ''W17_TOKEN'' \<noteq> [] \<and> ce_getenv e ''W17_TOKEN'' = token
      then \<lparr>tb_bound = (ce_getenv e ''W17_DPOP_KEY'' \<noteq> []), tb_device = []\<rparr>
      else (case instance_for e addr of
              Some i \<Rightarrow> if in_token i = token \<and> in_device i \<noteq> []
                        then \<lparr>tb_bound = True, tb_device = in_device i\<rparr> else unbound
            | None \<Rightarrow> unbound))"

text \<open>A device key is known by its thumbprint.\<close>

datatype key_error = NoDeviceKey | BadDeviceKey string | KeyFileError string

datatype bound_error =
    EnvKeyRefused key_error
  | EnvKeyMissing key_error
  | NamedFileIsNoKey key_error
  | SessionKeyRefused key_error
  | SessionKeyMissing key_error
  | WrongKey string

record key_files =
  kf_load :: "key_error + string"
  kf_reload :: "key_error + string"
  kf_path :: string
  kf_explicit :: bool

fun is_bad_key :: "key_error \<Rightarrow> bool" where
  "is_bad_key (BadDeviceKey m) = True"
| "is_bad_key _ = False"

definition bound_key :: "key_files \<Rightarrow> token_binding \<Rightarrow> bound_error + string" where
  "bound_key kf b =
     (case kf_load kf of
        Inl e \<Rightarrow>
          if tb_device b = [] then
            (if e \<noteq> NoDeviceKey \<and> \<not> is_bad_key e then Inl (EnvKeyRefused e) else Inl (EnvKeyMissing e))
          else if kf_explicit kf \<and> is_bad_key e then Inl (NamedFileIsNoKey e)
          else if e \<noteq> NoDeviceKey then Inl (SessionKeyRefused e)
          else Inl (SessionKeyMissing e)
      | Inr k \<Rightarrow>
          if tb_device b \<noteq> [] \<and> k \<noteq> tb_device b then
            (case kf_reload kf of
               Inr k' \<Rightarrow> if k' = tb_device b then Inr k' else Inl (WrongKey (kf_path kf))
             | Inl _ \<Rightarrow> Inl (WrongKey (kf_path kf)))
          else Inr k)"

text \<open>What a call's context says: a token handed to the call, whether it is a sign-in, and whether it
  names its organization itself.\<close>

record call_ctx =
  cx_token :: string
  cx_binding :: token_binding
  cx_mint :: bool
  cx_names_org :: bool

record call_plan =
  cp_token :: string
  cp_binding :: token_binding
  cp_key :: "string option"
  cp_mint :: bool

datatype call_error = KeyUnavailable key_error | BoundKey bound_error | ProofFailed string | NoOrganization string

definition plan_call ::
  "cred_env \<Rightarrow> key_files \<Rightarrow> bool \<Rightarrow> string \<Rightarrow> call_ctx \<Rightarrow> call_error + call_plan" where
  "plan_call e kf from_store addr cx =
     (let token = (if from_store \<and> cx_token cx = [] then auth_token e addr else cx_token cx);
          b = (if from_store \<and> cx_token cx = [] then binding_for e addr token else cx_binding cx);
          p = \<lparr>cp_token = token, cp_binding = b, cp_key = None, cp_mint = False\<rparr>
      in if token = [] \<and> cx_mint cx then
           (case kf_load kf of
              Inl err \<Rightarrow> Inl (KeyUnavailable err)
            | Inr k \<Rightarrow> Inr (p\<lparr>cp_key := Some k, cp_mint := True\<rparr>))
         else if tb_bound b then
           (case bound_key kf b of
              Inl err \<Rightarrow> Inl (BoundKey err)
            | Inr k \<Rightarrow> Inr (p\<lparr>cp_key := Some k\<rparr>))
         else Inr p)"

text \<open>\<open>proof_headers\<close> is the proof library: the headers of a call signed by a key for a token.
  \<open>org_slug\<close> is the organization the call acts in, or why there is none.\<close>

definition request_metadata ::
  "cred_env \<Rightarrow> key_files \<Rightarrow> (string \<Rightarrow> string \<Rightarrow> string + (string, string) gomap) \<Rightarrow> (string + string)
     \<Rightarrow> bool \<Rightarrow> string \<Rightarrow> call_ctx \<Rightarrow> call_error + (string, string) gomap" where
  "request_metadata e kf proof_headers org_slug from_store addr cx =
     (case plan_call e kf from_store addr cx of
        Inl err \<Rightarrow> Inl err
      | Inr p \<Rightarrow>
          let with_org = (\<lambda>md.
            if from_store \<and> \<not> cx_names_org cx then
              (case org_slug of
                 Inl m \<Rightarrow> Inl (NoOrganization m)
               | Inr slug \<Rightarrow> Inr (if slug \<noteq> [] then put ''w17-org'' slug md else md))
            else Inr md)
          in (case cp_key p of
                Some k \<Rightarrow>
                  (case proof_headers k (cp_token p) of
                     Inl m \<Rightarrow> Inl (ProofFailed m)
                   | Inr md \<Rightarrow> if cp_mint p then Inr md else with_org md)
              | None \<Rightarrow>
                  if cp_token p = [] then Inr []
                  else with_org [(''authorization'', ''Bearer '' @ cp_token p)]))"

section \<open>The organization of a call\<close>

record lock_org =
  lo_id :: string
  lo_slug :: string
  lo_url :: string
  lo_path :: string

definition no_lock_org :: lock_org where
  "no_lock_org = \<lparr>lo_id = [], lo_slug = [], lo_url = [], lo_path = []\<rparr>"

definition for_console :: "cred_env \<Rightarrow> lock_org \<Rightarrow> string \<Rightarrow> bool" where
  "for_console e lo addr \<longleftrightarrow> lo_url lo \<noteq> [] \<and> norm_addr e (lo_url lo) = norm_addr e addr"

text \<open>Reading a lock gives its organization id, slug and console address, or an error.\<close>

definition read_lock_org :: "(string \<Rightarrow> (string \<times> string \<times> string) option) \<Rightarrow> string \<Rightarrow> lock_org" where
  "read_lock_org read_lock path =
     (case read_lock path of
        None \<Rightarrow> no_lock_org
      | Some (i, slug, url) \<Rightarrow> \<lparr>lo_id = i, lo_slug = slug, lo_url = url, lo_path = path\<rparr>)"

text \<open>The nearest lock from a rooted directory upwards; the directory is its elements, innermost
  first.\<close>

definition lock_path_in :: "string list \<Rightarrow> string" where
  "lock_path_in es = join_path [path_of True (rev es), ''w17/lock.yaml'']"

fun lock_above :: "(string \<Rightarrow> bool) \<Rightarrow> string list \<Rightarrow> string option" where
  "lock_above exists [] = (if exists (lock_path_in []) then Some (lock_path_in []) else None)"
| "lock_above exists (d # ds) =
     (if exists (lock_path_in (d # ds)) then Some (lock_path_in (d # ds)) else lock_above exists ds)"

definition lock_org_above ::
  "(string \<Rightarrow> bool) \<Rightarrow> (string \<Rightarrow> (string \<times> string \<times> string) option) \<Rightarrow> string \<Rightarrow> lock_org option" where
  "lock_org_above exists read_lock dir =
     map_option (read_lock_org read_lock) (lock_above exists (rev (path_elems dir)))"

definition lock_org_best_effort ::
  "(string \<Rightarrow> bool) \<Rightarrow> (string \<Rightarrow> (string \<times> string \<times> string) option) \<Rightarrow> string \<Rightarrow> string option \<Rightarrow> lock_org"
where
  "lock_org_best_effort exists read_lock dir root =
     (let by_root = (case root of
          None \<Rightarrow> no_lock_org
        | Some r \<Rightarrow> read_lock_org read_lock (join_path [r, ''w17/lock.yaml'']))
      in if dir \<noteq> [] then
           (case lock_org_above exists read_lock dir of Some lo \<Rightarrow> lo | None \<Rightarrow> by_root)
         else by_root)"

datatype rpc_code =
    PermissionDenied | FailedPrecondition | Unauthenticated | Unavailable | DeadlineExceeded
  | Canceled | UnknownCode | OtherCode nat

text \<open>An error of a call: a status with the codes of its error details, or no status at all.\<close>

datatype rpc_error = StatusError rpc_code "string list" | PlainError

fun status_code :: "rpc_error \<Rightarrow> rpc_code" where
  "status_code (StatusError c _) = c"
| "status_code PlainError = UnknownCode"

fun needs_organization :: "rpc_error \<Rightarrow> bool" where
  "needs_organization (StatusError PermissionDenied _) = True"
| "needs_organization (StatusError FailedPrecondition ds) = List.member ds ''ORGANIZATION_REQUIRED''"
| "needs_organization _ = False"

record auth_org =
  ao_id :: string
  ao_slug :: string
  ao_name :: string
  ao_kind :: string
  ao_role :: string

record org_listing =
  ol_orgs :: "auth_org list"
  ol_err :: "rpc_error option"
  ol_key_refused :: bool

definition listing_of :: "rpc_error + auth_org list \<Rightarrow> bool \<Rightarrow> org_listing" where
  "listing_of r refused = (case r of
      Inl err \<Rightarrow> \<lparr>ol_orgs = [], ol_err = Some err, ol_key_refused = refused\<rparr>
    | Inr orgs \<Rightarrow> \<lparr>ol_orgs = orgs, ol_err = None, ol_key_refused = refused\<rparr>)"

definition list_orgs :: "(string \<Rightarrow> rpc_error + auth_org list) \<Rightarrow> string \<Rightarrow> org_listing" where
  "list_orgs ask key_slug =
     (case ask [] of
        Inl err \<Rightarrow>
          if needs_organization err \<and> key_slug \<noteq> [] then
            (let r = ask key_slug
             in listing_of r (case r of
                  Inl err2 \<Rightarrow> needs_organization err2 \<or> status_code err2 = Unauthenticated
                | Inr _ \<Rightarrow> False))
          else listing_of (Inl err) False
      | Inr orgs \<Rightarrow> listing_of (Inr orgs) False)"

definition transport_failure :: "rpc_error option \<Rightarrow> bool" where
  "transport_failure err = (case err of
      None \<Rightarrow> False
    | Some e \<Rightarrow> status_code e \<in> {Unavailable, DeadlineExceeded, Canceled, UnknownCode})"

type_synonym org_memo = "(string, org_listing) gomap"

definition list_orgs_once ::
  "cred_env \<Rightarrow> (string \<Rightarrow> rpc_error + auth_org list) \<Rightarrow> string \<Rightarrow> string \<Rightarrow> org_memo \<Rightarrow> org_listing \<times> org_memo"
where
  "list_orgs_once e ask addr key_slug memo =
     (let key = norm_addr e addr @ ''|'' @ key_slug
      in case map_of memo key of
           Some l \<Rightarrow> (l, memo)
         | None \<Rightarrow>
             (let l = list_orgs ask key_slug
              in if transport_failure (ol_err l) then (l, memo) else (l, put key l memo)))"

datatype org_error = ListingFailed rpc_error | NotMember

text \<open>\<open>override\<close> is \<^verbatim>\<open>ActInOrg\<close>'s choice; \<open>ask\<close> is \<^verbatim>\<open>ListMyOrgs\<close> with a token, presented in a
  form, in an organization.\<close>

definition org_slug_for_request ::
  "cred_env \<Rightarrow> string option \<Rightarrow> lock_org
     \<Rightarrow> (string \<Rightarrow> token_binding \<Rightarrow> string \<Rightarrow> rpc_error + auth_org list) \<Rightarrow> string \<Rightarrow> org_memo
     \<Rightarrow> (org_error + string) \<times> org_memo" where
  "org_slug_for_request e override lo ask addr memo =
     (case override of
        Some slug \<Rightarrow> (Inr (if slug \<noteq> [] then slug else org_slug_for e addr), memo)
      | None \<Rightarrow>
          if lo_id lo = [] then (Inr (org_slug_for e addr), memo)
          else
            (case Option.bind (instance_for e addr) (\<lambda>i. org_by_id (lo_id lo) (in_orgs i)) of
               Some g \<Rightarrow> (Inr (og_slug g), memo)
             | None \<Rightarrow>
                 if \<not> for_console e lo addr then (Inr (org_slug_for e addr), memo)
                 else
                   (let token = auth_token e addr
                    in if token = [] then (Inr [], memo)
                       else
                         (let (l, memo') = list_orgs_once e (ask token (binding_for e addr token)) addr (lo_slug lo) memo
                          in case ol_err l of
                               Some err \<Rightarrow>
                                 if \<not> ol_key_refused l then (Inl (ListingFailed err), memo')
                                 else (case find (\<lambda>g. ao_id g = lo_id lo) (ol_orgs l) of
                                         Some g \<Rightarrow> (Inr (ao_slug g), memo')
                                       | None \<Rightarrow> (Inl NotMember, memo'))
                             | None \<Rightarrow>
                                 (case find (\<lambda>g. ao_id g = lo_id lo) (ol_orgs l) of
                                    Some g \<Rightarrow> (Inr (ao_slug g), memo')
                                  | None \<Rightarrow> (Inl NotMember, memo'))))))"

section \<open>Expired sessions\<close>

datatype error_detail = ErrorInfo string string "(string, string) gomap" | ErrorDetail string | OtherDetail

fun session_expired_detail ::
  "(string \<Rightarrow> int option) \<Rightarrow> bool \<Rightarrow> error_detail list \<Rightarrow> bool \<times> int option" where
  "session_expired_detail parse_time expired [] = (expired, None)"
| "session_expired_detail parse_time expired (ErrorInfo reason domain md # ds) =
     (if reason \<noteq> ''SESSION_EXPIRED'' \<or> domain \<noteq> ''auth.w17''
      then session_expired_detail parse_time expired ds
      else (case parse_time (case map_of md ''expires_at'' of None \<Rightarrow> [] | Some v \<Rightarrow> v) of
              Some t \<Rightarrow> (True, Some t)
            | None \<Rightarrow> session_expired_detail parse_time True ds))"
| "session_expired_detail parse_time expired (ErrorDetail code # ds) =
     session_expired_detail parse_time (expired \<or> code = ''SESSION_EXPIRED'') ds"
| "session_expired_detail parse_time expired (OtherDetail # ds) = session_expired_detail parse_time expired ds"

text \<open>The key of the entry \<open>lookup_instance\<close> finds.\<close>

fun key_alike :: "(string \<Rightarrow> string) \<Rightarrow> string \<Rightarrow> (string, console_instance option) gomap \<Rightarrow> string option" where
  "key_alike norm want [] = None"
| "key_alike norm want ((k, None) # m) = key_alike norm want m"
| "key_alike norm want ((k, Some i) # m) = (if norm k = want then Some k else key_alike norm want m)"

definition lookup_key :: "cred_env \<Rightarrow> auth_store \<Rightarrow> string \<Rightarrow> string option" where
  "lookup_key e st addr =
     (if addr = [] then (if active_instance st = None then None else Some (st_default st))
      else if instance_at addr st \<noteq> None then Some addr
      else key_alike (norm_addr e) (norm_addr e addr) (st_instances st))"

text \<open>What \<^verbatim>\<open>recordSessionExpiry\<close> saves, if anything: \<open>now_store\<close> is the file read again. The entry
  is written in place.\<close>

definition record_expired ::
  "cred_env \<Rightarrow> (int \<Rightarrow> string) \<Rightarrow> string + auth_store \<Rightarrow> string \<Rightarrow> string \<Rightarrow> int \<Rightarrow> auth_store option" where
  "record_expired e format_time now_store addr sent at =
     (case now_store of
        Inl _ \<Rightarrow> None
      | Inr st \<Rightarrow>
          (case lookup_key e st addr of
             None \<Rightarrow> None
           | Some k \<Rightarrow>
               (case instance_at k st of
                  None \<Rightarrow> None
                | Some i \<Rightarrow>
                    if in_token i = [] \<or> in_token i \<noteq> sent then None
                    else (case record_session_expiry format_time (Some at) (Some i) of
                            (Some i', True) \<Rightarrow> Some (st\<lparr>st_instances := put k (Some i') (st_instances st)\<rparr>)
                          | _ \<Rightarrow> None))))"

text \<open>The verdict on a refusal: the date if known, and what is saved. \<open>sent\<close> is the token last
  presented to the address (\<^verbatim>\<open>""\<close> for none).\<close>

definition explain_expired_session ::
  "cred_env \<Rightarrow> (string \<Rightarrow> int option) \<Rightarrow> (int \<Rightarrow> string) \<Rightarrow> string + auth_store \<Rightarrow> int \<Rightarrow> string \<Rightarrow> string
     \<Rightarrow> error_detail list \<Rightarrow> int option option \<times> auth_store option" where
  "explain_expired_session e parse_time format_time now_store now sent addr details =
     (if snd (env_token_binding e addr) then (None, None)
      else
        (let (expired, at) = session_expired_detail parse_time False details;
             inst = instance_for e addr;
             known = (case inst of
                 None \<Rightarrow> None
               | Some i \<Rightarrow> if sent \<noteq> [] \<and> in_token i \<noteq> sent then None
                           else session_expiry parse_time inst);
             past = (case known of Some t \<Rightarrow> if t \<le> now then Some t else None | None \<Rightarrow> None)
         in case (expired, at) of
              (True, Some t) \<Rightarrow> (Some (Some t), record_expired e format_time now_store addr sent t)
            | (True, None) \<Rightarrow> (Some past, None)
            | (False, _) \<Rightarrow> (case past of Some t \<Rightarrow> (Some (Some t), None) | None \<Rightarrow> (None, None))))"

section \<open>Where a token may go\<close>

lemma instance_alike_Some:
  "instance_alike norm want m = Some i \<Longrightarrow> \<exists>k. (k, Some i) \<in> set m \<and> norm k = want"
  by (induction norm want m rule: instance_alike.induct) (auto split: if_splits)

text \<open>An entry of the store that belongs to the console at an address, or the default one when no
  address is given.\<close>

definition entry_for :: "cred_env \<Rightarrow> string \<Rightarrow> console_instance \<Rightarrow> bool" where
  "entry_for e addr i \<longleftrightarrow> (\<exists>st k. ce_store e = Inr st \<and> (k, Some i) \<in> set (st_instances st) \<and>
     (if addr = [] then k = st_default st else norm_addr e k = norm_addr e addr))"

lemma instance_for_entry: "instance_for e addr = Some i \<Longrightarrow> entry_for e addr i"
  by (auto simp: instance_for_def lookup_instance_def active_instance_def instance_at_Some entry_for_def
      split: sum.splits if_splits option.splits dest!: map_of_SomeD instance_alike_Some)

text \<open>C4: a token leaves the process only for the console it belongs to. What is presented to an address
  is the environment's token, when that is bound to the same console, or the token of a stored login
  whose address names the same console; a stranger gets none.\<close>

theorem token_reaches_only_its_console:
  assumes "auth_token e addr = t" and "t \<noteq> []"
  shows "t = ce_getenv e ''W17_TOKEN'' \<and> env_bound_addr e \<noteq> [] \<and> norm_addr e addr = norm_addr e (env_bound_addr e)
    \<or> (\<exists>i. entry_for e addr i \<and> in_token i = t)"
proof (cases "env_token_for e addr = []")
  case True
  with assms obtain i where "instance_for e addr = Some i" "in_token i = t"
    by (auto simp: auth_token_def split: option.splits)
  with instance_for_entry show ?thesis by blast
next
  case False
  with assms show ?thesis by (auto simp: auth_token_def env_token_for_def Let_def split: if_splits)
qed

definition sample_cred_env :: cred_env where
  "sample_cred_env = \<lparr>ce_getenv = (\<lambda>v. if v = ''W17_TOKEN'' then ''ci'' else if v = ''W17_CONSOLE_ADDR'' then ''https://C.w17.dev:443'' else []),
     ce_default_addr = [], ce_store = Inr sample_store, ce_loopback = (\<lambda>h. h = ''127.0.0.1'')\<rparr>"

theorem token_reaches_only_its_console_witness:
  "auth_token sample_cred_env ''c.w17.dev:443'' = ''ci'' \<and> auth_token sample_cred_env ''evil.example:443'' = []
   \<and> auth_token sample_cred_env ''127.0.0.1:4000'' = ''T'' \<and> (\<exists>i. entry_for sample_cred_env ''127.0.0.1:4000'' i)"
proof -
  have a: "auth_token sample_cred_env ''c.w17.dev:443'' = ''ci''" by code_simp
  have b: "auth_token sample_cred_env ''evil.example:443'' = []" by code_simp
  have c: "auth_token sample_cred_env ''127.0.0.1:4000'' = ''T''" by code_simp
  have n: "norm_addr sample_cred_env ''127.0.0.1:4000'' \<noteq> norm_addr sample_cred_env (env_bound_addr sample_cred_env)"
    by code_simp
  from token_reaches_only_its_console [OF c] n have "\<exists>i. entry_for sample_cred_env ''127.0.0.1:4000'' i" by auto
  with a b c show ?thesis by blast
qed

lemma bound_key_matches: "bound_key kf b = Inr k \<Longrightarrow> tb_device b \<noteq> [] \<Longrightarrow> k = tb_device b"
  by (auto simp: bound_key_def split: sum.splits if_splits)

text \<open>The two forms a token goes out in: with the headers of a proof by the key \<open>k\<close>, or as a plain bearer;
  beside either, the organization's header.\<close>

definition sent_with_proof ::
  "(string \<Rightarrow> string \<Rightarrow> string + (string, string) gomap) \<Rightarrow> string \<Rightarrow> string \<Rightarrow> (string, string) gomap \<Rightarrow> bool" where
  "sent_with_proof proof_headers k token md \<longleftrightarrow>
     (\<exists>md0. proof_headers k token = Inr md0 \<and> (\<forall>h. h \<noteq> ''w17-org'' \<longrightarrow> map_of md h = map_of md0 h))"

definition sent_as_bearer :: "string \<Rightarrow> (string, string) gomap \<Rightarrow> bool" where
  "sent_as_bearer token md \<longleftrightarrow> map_of md ''authorization'' = Some (''Bearer '' @ token)
     \<and> set (keys_of md) \<subseteq> {''authorization'', ''w17-org''}"

lemma request_with_key:
  assumes "plan_call e kf st addr cx = Inr p" and "cp_key p = Some k" and "\<not> cp_mint p"
    and "request_metadata e kf proof_headers org_slug st addr cx = Inr md"
  shows "sent_with_proof proof_headers k (cp_token p) md"
  using assms by (auto simp: request_metadata_def sent_with_proof_def Let_def split: sum.splits if_splits)

lemma request_without_key:
  assumes "plan_call e kf st addr cx = Inr p" and "cp_key p = None" and "cp_token p \<noteq> []"
    and "request_metadata e kf proof_headers org_slug st addr cx = Inr md"
  shows "sent_as_bearer (cp_token p) md"
proof -
  define bearer where "bearer = ''Bearer '' @ cp_token p"
  have md: "(if st \<and> \<not> cx_names_org cx
      then (case org_slug of Inl m \<Rightarrow> Inl (NoOrganization m)
         | Inr slug \<Rightarrow> Inr (if slug \<noteq> [] then put ''w17-org'' slug [(''authorization'', bearer)]
             else [(''authorization'', bearer)]))
      else Inr [(''authorization'', bearer)]) = Inr md"
    using assms(3,4) unfolding request_metadata_def assms(1) Let_def sum.case assms(2) option.case
      bearer_def [symmetric] by simp
  then have "md = [(''authorization'', bearer)] \<or>
      (\<exists>slug. md = put ''w17-org'' slug [(''authorization'', bearer)])"
    by (auto split: if_splits sum.splits)
  then show ?thesis unfolding sent_as_bearer_def bearer_def [symmetric] by auto
qed

lemma plan_call_key:
  assumes "plan_call e kf st addr cx = Inr p" and "cp_token p \<noteq> []"
  shows "\<not> cp_mint p" and "tb_bound (cp_binding p) \<Longrightarrow> \<exists>k. cp_key p = Some k \<and> bound_key kf (cp_binding p) = Inr k"
    and "\<not> tb_bound (cp_binding p) \<Longrightarrow> cp_key p = None"
  using assms by (auto simp: plan_call_def Let_def split: if_splits sum.splits)

lemma plan_call_token:
  assumes "plan_call e kf st addr cx = Inr p"
  shows "cp_token p = (if st \<and> cx_token cx = [] then auth_token e addr else cx_token cx)"
    and "cp_binding p = (if st \<and> cx_token cx = [] then binding_for e addr (auth_token e addr) else cx_binding cx)"
  using assms by (auto simp: plan_call_def Let_def split: if_splits sum.splits)

lemma request_form:
  assumes "request_metadata e kf proof_headers org_slug st addr cx = Inr md"
    and "t = (if st \<and> cx_token cx = [] then auth_token e addr else cx_token cx)" and "t \<noteq> []"
    and "b = (if st \<and> cx_token cx = [] then binding_for e addr t else cx_binding cx)"
  shows "if tb_bound b then \<exists>k. bound_key kf b = Inr k \<and> sent_with_proof proof_headers k t md
    else sent_as_bearer t md"
proof -
  from assms(1) obtain p where p: "plan_call e kf st addr cx = Inr p"
    by (auto simp: request_metadata_def split: sum.splits)
  have t: "cp_token p = t" "cp_binding p = b" using plan_call_token [OF p] assms(2,4) by auto
  with assms(3) have ne: "cp_token p \<noteq> []" by simp
  note k = plan_call_key [OF p ne]
  show ?thesis
  proof (cases "tb_bound b")
    case True
    with k(2) t obtain key where key: "cp_key p = Some key" "bound_key kf b = Inr key" by auto
    from request_with_key [OF p key(1) k(1) assms(1)] key(2) True t show ?thesis by auto
  next
    case False
    with k(3) t have "cp_key p = None" by simp
    from request_without_key [OF p this ne assms(1)] False t show ?thesis by simp
  qed
qed

lemma bound_key_loaded: "bound_key kf b = Inr k \<Longrightarrow> tb_device b = [] \<Longrightarrow> kf_load kf = Inr k"
  by (auto simp: bound_key_def split: sum.splits if_splits)

text \<open>C16: how a call that succeeds carries its token, from what the environment and the store say of it.
  The environment's token (or a stored one with the same text) goes out with a proof by the loaded key
  when \<^verbatim>\<open>W17_DPOP_KEY\<close> names one, else as a bearer. Any other stored token goes out with a proof by the
  key of the stored login's device and no other key when the login is bound to one, else as a bearer.
  A token handed to the call goes out the way its handed binding says: with a proof, by the key the
  binding names when it names one, or as a bearer. So no token bound to a device key is ever sent as a
  bearer, or proved by another key.\<close>

theorem bound_token_is_never_sent_as_bearer:
  assumes "request_metadata e kf proof_headers org_slug from_store addr cx = Inr md"
  shows "(from_store \<and> cx_token cx = [] \<and> auth_token e addr \<noteq> [] \<longrightarrow>
      (if ce_getenv e ''W17_TOKEN'' = auth_token e addr
       then (if ce_getenv e ''W17_DPOP_KEY'' \<noteq> []
             then \<exists>k. kf_load kf = Inr k \<and> sent_with_proof proof_headers k (auth_token e addr) md
             else sent_as_bearer (auth_token e addr) md)
       else \<exists>i. instance_for e addr = Some i \<and> in_token i = auth_token e addr \<and>
             (if in_device i \<noteq> [] then sent_with_proof proof_headers (in_device i) (in_token i) md
              else sent_as_bearer (in_token i) md)))
    \<and> (cx_token cx \<noteq> [] \<longrightarrow>
      (if tb_bound (cx_binding cx)
       then \<exists>k. (tb_device (cx_binding cx) \<noteq> [] \<longrightarrow> k = tb_device (cx_binding cx)) \<and>
             sent_with_proof proof_headers k (cx_token cx) md
       else sent_as_bearer (cx_token cx) md))"
proof -
  have handed: "if tb_bound (cx_binding cx)
      then \<exists>k. (tb_device (cx_binding cx) \<noteq> [] \<longrightarrow> k = tb_device (cx_binding cx)) \<and>
        sent_with_proof proof_headers k (cx_token cx) md
      else sent_as_bearer (cx_token cx) md"
    if "cx_token cx \<noteq> []"
    using request_form [OF assms _ that refl] that bound_key_matches [of kf "cx_binding cx"]
    by (auto split: if_splits)
  define t where "t = auth_token e addr"
  have stored: "if ce_getenv e ''W17_TOKEN'' = t
       then (if ce_getenv e ''W17_DPOP_KEY'' \<noteq> []
             then \<exists>k. kf_load kf = Inr k \<and> sent_with_proof proof_headers k t md
             else sent_as_bearer t md)
       else \<exists>i. instance_for e addr = Some i \<and> in_token i = t \<and>
             (if in_device i \<noteq> [] then sent_with_proof proof_headers (in_device i) (in_token i) md
              else sent_as_bearer (in_token i) md)"
    if st: "from_store" "cx_token cx = []" "t \<noteq> []"
  proof -
    from st have form: "if tb_bound (binding_for e addr t)
        then \<exists>k. bound_key kf (binding_for e addr t) = Inr k \<and> sent_with_proof proof_headers k t md
        else sent_as_bearer t md"
      by (intro request_form [OF assms _ st(3)]) (simp_all add: t_def)
    show ?thesis
    proof (cases "ce_getenv e ''W17_TOKEN'' = t")
      case True
      with st(3) have "binding_for e addr t = \<lparr>tb_bound = (ce_getenv e ''W17_DPOP_KEY'' \<noteq> []), tb_device = []\<rparr>"
        by (simp add: binding_for_def)
      with form True show ?thesis by (auto dest: bound_key_loaded split: if_splits)
    next
      case False
      have "env_token_for e addr = []"
        using False st(3) unfolding t_def by (auto simp: auth_token_def env_token_for_def Let_def split: if_splits)
      with st(3) obtain i where i: "instance_for e addr = Some i" "in_token i = t"
        unfolding t_def by (auto simp: auth_token_def split: option.splits)
      with False st(3) have "binding_for e addr t =
          (if in_device i \<noteq> [] then \<lparr>tb_bound = True, tb_device = in_device i\<rparr> else unbound)"
        by (simp add: binding_for_def)
      with form i False show ?thesis
        using bound_key_matches [of kf "binding_for e addr t"] by (auto simp: unbound_def split: if_splits)
    qed
  qed
  from handed stored show ?thesis unfolding t_def by blast
qed

definition sample_keys :: key_files where
  "sample_keys = \<lparr>kf_load = Inr ''old'', kf_reload = Inr ''new'', kf_path = ''/k'', kf_explicit = False\<rparr>"

text \<open>A login bound to the key \<^verbatim>\<open>new\<close>, which another process has put there since this one read \<^verbatim>\<open>old\<close>.\<close>

definition bound_cred_env :: cred_env where
  "bound_cred_env = sample_cred_env\<lparr>ce_store := Inr (fresh_store\<lparr>st_default := ''c.w17.dev:443'', st_instances :=
       [(''c.w17.dev:443'', Some ((sample_instance ''c.w17.dev:443'')\<lparr>in_token := ''T'', in_device := ''new''\<rparr>))]\<rparr>),
     ce_getenv := (\<lambda>_. [])\<rparr>"

definition plain_ctx :: call_ctx where
  "plain_ctx = \<lparr>cx_token = [], cx_binding = unbound, cx_mint = False, cx_names_org = True\<rparr>"

theorem bound_token_is_never_sent_as_bearer_witness:
  "\<exists>md. request_metadata bound_cred_env sample_keys (\<lambda>k t. Inr [(''authorization'', ''DPoP '' @ t), (''dpop'', k)])
      (Inr ''acme'') True ''c.w17.dev:443'' plain_ctx = Inr md
    \<and> map_of md ''authorization'' = Some ''DPoP T'' \<and> map_of md ''dpop'' = Some ''new''"
proof -
  let ?ph = "\<lambda>k t. Inr [(''authorization'', ''DPoP '' @ t), (''dpop'', k)] :: string + (string, string) gomap"
  have t: "auth_token bound_cred_env ''c.w17.dev:443'' = ''T''" by code_simp
  have i: "map_option in_token (instance_for bound_cred_env ''c.w17.dev:443'') = Some ''T''"
    "map_option in_device (instance_for bound_cred_env ''c.w17.dev:443'') = Some ''new''" by code_simp+
  have env: "ce_getenv bound_cred_env v = []" for v by (simp add: bound_cred_env_def)
  have "binding_for bound_cred_env ''c.w17.dev:443'' ''T'' = \<lparr>tb_bound = True, tb_device = ''new''\<rparr>"
    using i env by (auto simp: binding_for_def split: option.splits)
  then have r: "request_metadata bound_cred_env sample_keys ?ph (Inr ''acme'') True ''c.w17.dev:443'' plain_ctx
      = Inr [(''authorization'', ''DPoP T''), (''dpop'', ''new'')]"
    by (simp add: request_metadata_def plan_call_def t plain_ctx_def bound_key_def sample_keys_def)
  from bound_token_is_never_sent_as_bearer [OF r] t i env r show ?thesis
    by (auto simp: sent_with_proof_def plain_ctx_def)
qed

section \<open>Never another organization than the lock's\<close>

lemma org_by_id_Some: "org_by_id i os = Some g \<Longrightarrow> Some g \<in> set os \<and> og_id g = i"
  by (induction i os rule: org_by_id.induct) (auto split: if_splits)

text \<open>C17: in a directory whose lock names an organization of the console being dialed, and with no
  explicit choice, a call acts in that organization or is refused: the slug sent belongs to an
  organization with the lock's id, in the membership cache or in the console's own listing. No slug
  is sent only when the call carries no token either, and the machine's default is never used.\<close>

theorem call_never_acts_in_another_organization:
  assumes "org_slug_for_request e None lo ask addr memo = (Inr slug, memo')"
    and "lo_id lo \<noteq> []" and "for_console e lo addr"
  shows "(\<exists>i g. instance_for e addr = Some i \<and> Some g \<in> set (in_orgs i) \<and> og_id g = lo_id lo \<and> slug = og_slug g)
    \<or> slug = [] \<and> auth_token e addr = []
    \<or> (\<exists>g \<in> set (ol_orgs (fst (list_orgs_once e (ask (auth_token e addr) (binding_for e addr (auth_token e addr)))
           addr (lo_slug lo) memo))). ao_id g = lo_id lo \<and> slug = ao_slug g)"
proof (cases "Option.bind (instance_for e addr) (\<lambda>i. org_by_id (lo_id lo) (in_orgs i))")
  case (Some g)
  then obtain i where i: "instance_for e addr = Some i" "org_by_id (lo_id lo) (in_orgs i) = Some g"
    by (auto simp: bind_eq_Some_conv)
  have "slug = og_slug g" using assms Some by (simp add: org_slug_for_request_def)
  with i org_by_id_Some [OF i(2)] show ?thesis by blast
next
  case None
  define l where "l = list_orgs_once e (ask (auth_token e addr) (binding_for e addr (auth_token e addr)))
     addr (lo_slug lo) memo"
  show ?thesis
  proof (cases "auth_token e addr = []")
    case True
    with assms None show ?thesis by (simp add: org_slug_for_request_def)
  next
    case False
    with assms None have "(case find (\<lambda>g. ao_id g = lo_id lo) (ol_orgs (fst l)) of
        Some g \<Rightarrow> (Inr (ao_slug g), snd l) | None \<Rightarrow> (Inl NotMember, snd l)) = (Inr slug, memo')"
      by (auto simp: org_slug_for_request_def l_def [symmetric] Let_def case_prod_unfold
          split: option.splits if_splits)
    then obtain g where "find (\<lambda>g. ao_id g = lo_id lo) (ol_orgs (fst l)) = Some g" "slug = ao_slug g"
      by (auto split: option.splits)
    then have "g \<in> set (ol_orgs (fst l))" "ao_id g = lo_id lo" "slug = ao_slug g"
      by (auto simp: find_Some_iff)
    then show ?thesis unfolding l_def by blast
  qed
qed

definition sample_lock :: lock_org where
  "sample_lock = \<lparr>lo_id = ''org-7'', lo_slug = ''acme'', lo_url = ''https://c.w17.dev:443'', lo_path = ''/w/w17/lock.yaml''\<rparr>"

definition sample_ask :: "string \<Rightarrow> token_binding \<Rightarrow> string \<Rightarrow> rpc_error + auth_org list" where
  "sample_ask token b slug =
     (if slug = [] then Inl (StatusError PermissionDenied [])
      else Inr [\<lparr>ao_id = ''org-3'', ao_slug = ''acme'', ao_name = [], ao_kind = [], ao_role = []\<rparr>,
        \<lparr>ao_id = ''org-7'', ao_slug = ''acme-new'', ao_name = [], ao_kind = [], ao_role = []\<rparr>])"

theorem call_never_acts_in_another_organization_witness:
  "fst (org_slug_for_request sample_cred_env None sample_lock sample_ask ''c.w17.dev:443'' []) = Inr ''acme-new''"
proof -
  have r: "fst (org_slug_for_request sample_cred_env None sample_lock sample_ask ''c.w17.dev:443'' []) = Inr ''acme-new''"
    by code_simp
  have fc: "for_console sample_cred_env sample_lock ''c.w17.dev:443''" by code_simp
  obtain memo' where "org_slug_for_request sample_cred_env None sample_lock sample_ask ''c.w17.dev:443'' [] = (Inr ''acme-new'', memo')"
    using r by (metis prod.collapse)
  from call_never_acts_in_another_organization [OF this _ fc] r show ?thesis by blast
qed

section \<open>A fresh session is never marked expired\<close>

lemma alike_same: "instance_alike norm want m = None \<longleftrightarrow> key_alike norm want m = None"
  by (induction norm want m rule: key_alike.induct) auto

text \<open>Recording an expiry the console reported touches one entry at most, the one whose token is
  the very token that was refused, and changes nothing of it but the expiry: a login that replaced the
  session in the meantime, or any other session, is never marked expired.\<close>

theorem only_the_refused_session_is_marked:
  assumes "record_expired e format_time (Inr st) addr sent at = Some st'"
  shows "sent \<noteq> [] \<and> st_default st' = st_default st
    \<and> (\<exists>k i. instance_at k st = Some i \<and> in_token i = sent
        \<and> instance_at k st' = Some (i\<lparr>in_expires_at := format_time at\<rparr>)
        \<and> (\<forall>u. u \<noteq> k \<longrightarrow> instance_at u st' = instance_at u st))"
proof -
  from assms obtain k i where k: "lookup_key e st addr = Some k" and i: "instance_at k st = Some i"
    and t: "in_token i \<noteq> []" "in_token i = sent"
    and st': "st' = st\<lparr>st_instances := put k (Some (i\<lparr>in_expires_at := format_time at\<rparr>)) (st_instances st)\<rparr>"
    by (auto simp: record_expired_def record_session_expiry_def Let_def split: option.splits if_splits)
  then show ?thesis by (auto simp: instance_at_def)
qed

theorem only_the_refused_session_is_marked_witness:
  "\<exists>st'. record_expired sample_cred_env (\<lambda>_. ''2026-01-01'') (Inr sample_store) ''localhost:4000'' ''T'' 7 = Some st'
    \<and> record_expired sample_cred_env (\<lambda>_. ''2026-01-01'') (Inr sample_store) ''localhost:4000'' ''S'' 7 = None
    \<and> instance_at ''console.w17.dev:443'' st' = instance_at ''console.w17.dev:443'' sample_store"
proof -
  let ?r = "\<lambda>sent. record_expired sample_cred_env (\<lambda>_. ''2026-01-01'') (Inr sample_store) ''localhost:4000'' sent 7"
  have key: "lookup_key sample_cred_env sample_store ''localhost:4000'' = Some ''http://localhost:4000''" by code_simp
  then obtain st' where r: "?r ''T'' = Some st'"
    by (simp add: record_expired_def record_session_expiry_def instance_at_def sample_store_def sample_instance_def)
  have no: "?r ''S'' = None"
    using key by (simp add: record_expired_def instance_at_def sample_store_def sample_instance_def)
  obtain k i where k: "instance_at k sample_store = Some i"
      "instance_at k st' = Some (i\<lparr>in_expires_at := ''2026-01-01''\<rparr>)"
    and rest: "\<forall>u. u \<noteq> k \<longrightarrow> instance_at u st' = instance_at u sample_store"
    using only_the_refused_session_is_marked [OF r] by blast
  have "st' = sample_store\<lparr>st_instances := put ''http://localhost:4000''
      (Some ((sample_instance ''http://localhost:4000'')\<lparr>in_expires_at := ''2026-01-01''\<rparr>)) (st_instances sample_store)\<rparr>"
    using r key by (simp add: record_expired_def record_session_expiry_def instance_at_def sample_store_def
        sample_instance_def)
  with k have "k \<noteq> ''console.w17.dev:443''"
    by (auto simp: instance_at_def sample_store_def sample_instance_def)
  with rest r no show ?thesis by metis
qed

text \<open>A refusal is explained as an expired session only on evidence: the console's own detail, or
  the stored date of the session that was presented, already past; and never while the environment's
  token was what the console refused.\<close>

theorem expiry_is_explained_on_evidence:
  assumes "explain_expired_session e parse_time format_time now_store now sent addr details = (Some when, saved)"
  shows "\<not> snd (env_token_binding e addr) \<and>
    (fst (session_expired_detail parse_time False details) \<or>
     (\<exists>i t. instance_for e addr = Some i \<and> (sent = [] \<or> in_token i = sent) \<and>
        session_expiry parse_time (Some i) = Some t \<and> t \<le> now \<and> when = Some t)) \<and>
    (saved \<noteq> None \<longrightarrow> snd (session_expired_detail parse_time False details) = when \<and> when \<noteq> None)"
  using assms
  by (auto simp: explain_expired_session_def Let_def split: if_splits prod.splits bool.splits option.splits)

theorem expiry_is_explained_on_evidence_witness:
  "explain_expired_session (sample_cred_env\<lparr>ce_getenv := (\<lambda>_. [])\<rparr>) (\<lambda>_. Some 5) (\<lambda>_. ''d'') (Inl ''unreadable'') 9 []
     ''console.w17.dev:443'' [ErrorInfo ''SESSION_EXPIRED'' ''auth.w17'' []] = (Some (Some 5), None)
   \<and> explain_expired_session (sample_cred_env\<lparr>ce_getenv := (\<lambda>_. [])\<rparr>) (\<lambda>_. Some 5) (\<lambda>_. ''d'') (Inl ''unreadable'') 9 []
     ''console.w17.dev:443'' [] = (None, None)"
proof -
  let ?x = "\<lambda>ds. explain_expired_session (sample_cred_env\<lparr>ce_getenv := (\<lambda>_. [])\<rparr>) (\<lambda>_. Some 5) (\<lambda>_. ''d'') (Inl ''unreadable'') 9 []
     ''console.w17.dev:443'' ds"
  have a: "?x [ErrorInfo ''SESSION_EXPIRED'' ''auth.w17'' []] = (Some (Some 5), None)" by code_simp
  have b: "?x [] = (None, None)" by code_simp
  from expiry_is_explained_on_evidence [OF a] a b show ?thesis by blast
qed

end
