(* ===== verification/Dumpcheck.thy ===== *)
theory Dumpcheck
  imports Prelude
begin

text \<open>
  The watch on a dump that streams past (\<^verbatim>\<open>internal/snapstore/dumpcheck.go\<close>): did anything in it
  create an object. The dump arrives in chunks of any size; the watch keeps the last bytes of what it
  has seen, so that a marker cut in two by a chunk boundary is still found. The theorem is that it
  answers exactly what a search of the whole dump would.
\<close>

definition object_markers :: "string list" where
  "object_markers =
     [''CREATE TABLE'', ''CREATE SEQUENCE'', ''CREATE TYPE'', ''CREATE VIEW'', ''CREATE MATERIALIZED VIEW'',
      ''CREATE INDEX'', ''CREATE UNIQUE INDEX'', ''CREATE FUNCTION'', ''CREATE FOREIGN TABLE'']"

definition longest_marker :: nat where
  "longest_marker = foldl (\<lambda>n m. if length m > n then length m else n) 0 object_markers"

record object_watch =
  ow_tail :: string
  ow_seen :: bool

definition new_object_watch :: object_watch where
  "new_object_watch = \<lparr>ow_tail = [], ow_seen = False\<rparr>"

definition watch_write :: "object_watch \<Rightarrow> string \<Rightarrow> object_watch" where
  "watch_write ow p =
     (if ow_seen ow then ow
      else (let hay = ow_tail ow @ p
            in if list_ex (\<lambda>m. sublist m hay) object_markers
               then ow\<lparr>ow_seen := True, ow_tail := []\<rparr>
               else (let keep = (if length hay < longest_marker - 1 then length hay else longest_marker - 1)
                     in ow\<lparr>ow_tail := drop (length hay - keep) hay\<rparr>)))"

definition saw_object :: "string list \<Rightarrow> bool" where
  "saw_object chunks = ow_seen (foldl watch_write new_object_watch chunks)"

text \<open>The specification: a search of the whole text.\<close>

definition holds_object :: "string \<Rightarrow> bool" where
  "holds_object s \<longleftrightarrow> (\<exists>m \<in> set object_markers. sublist m s)"

lemma longest_marker_value: "longest_marker = 24"
  by (simp add: longest_marker_def object_markers_def)

lemma marker_bounds: "m \<in> set object_markers \<Longrightarrow> 0 < length m \<and> length m \<le> longest_marker"
  by (auto simp: longest_marker_value object_markers_def)

abbreviation tail_of :: "string \<Rightarrow> string" where
  "tail_of s \<equiv> drop (length s - (longest_marker - 1)) s"

text \<open>Only the last bytes of a text without a marker matter to what is appended to it.\<close>

lemma marker_at_boundary:
  assumes "m \<in> set object_markers" and "\<not> sublist m s"
  shows "sublist m (s @ p) \<longleftrightarrow> sublist m (tail_of s @ p)"
proof
  assume "sublist m (s @ p)"
  with assms(2) consider "sublist m p"
    | xs ys where "m = xs @ ys" "suffix xs s" "prefix ys p"
    by (auto simp: sublist_append)
  then show "sublist m (tail_of s @ p)"
  proof cases
    case 1
    then show ?thesis by (simp add: sublist_append)
  next
    case (2 xs ys)
    show ?thesis
    proof (cases "ys = []")
      case True
      with 2 assms(2) show ?thesis by (auto dest: suffix_imp_sublist)
    next
      case False
      with 2(1) marker_bounds [OF assms(1)] have short: "length xs \<le> longest_marker - 1"
        by (cases ys) auto
      obtain s' where s: "s = s' @ xs" using 2(2) by (auto simp: suffix_def)
      have "tail_of s = drop (length s' + length xs - (longest_marker - 1)) s' @ xs"
        using short by (simp add: s)
      then have "suffix xs (tail_of s)" by (auto simp: suffix_def)
      with 2(1,3) show ?thesis by (auto simp: sublist_append)
    qed
  qed
next
  assume "sublist m (tail_of s @ p)"
  moreover have "s @ p = take (length s - (longest_marker - 1)) s @ tail_of s @ p" by simp
  ultimately show "sublist m (s @ p)" by (metis sublist_append)
qed

lemma tail_of_tail: "tail_of (tail_of s @ p) = tail_of (s @ p)"
  by (cases "length s \<le> longest_marker - 1") (auto simp: add.commute)

lemma holds_object_append: "\<not> holds_object s \<Longrightarrow> holds_object (s @ p) \<longleftrightarrow> holds_object (tail_of s @ p)"
  by (auto simp: holds_object_def marker_at_boundary)

lemma holds_object_mono: "holds_object s \<Longrightarrow> holds_object (s @ p)"
  by (auto simp: holds_object_def sublist_append)

text \<open>The state of the watch says what went past.\<close>

definition watched :: "object_watch \<Rightarrow> string \<Rightarrow> bool" where
  "watched ow s \<longleftrightarrow> ow_seen ow = holds_object s \<and> (\<not> ow_seen ow \<longrightarrow> ow_tail ow = tail_of s)"

lemma watched_write: "watched ow s \<Longrightarrow> watched (watch_write ow p) (s @ p)"
proof (cases "holds_object s")
  case True
  then show "watched ow s \<Longrightarrow> ?thesis"
    by (simp add: watched_def watch_write_def holds_object_mono)
next
  case False
  assume "watched ow s"
  with False have ow: "\<not> ow_seen ow" "ow_tail ow = tail_of s" by (auto simp: watched_def)
  have ex: "list_ex (\<lambda>m. sublist m (tail_of s @ p)) object_markers = holds_object (s @ p)"
    using holds_object_append [OF False] by (auto simp: holds_object_def list_ex_iff)
  have cut: "drop (length h - (if length h < longest_marker - 1 then length h else longest_marker - 1)) h = tail_of h" for h :: string
    by auto
  show ?thesis
    unfolding watched_def watch_write_def Let_def ow(2) ex cut tail_of_tail using ow(1)
    by simp
qed

lemma saw_object_search: "saw_object chunks = holds_object (concat chunks)"
proof -
  have "watched (foldl watch_write ow chunks) (s @ concat chunks)" if "watched ow s" for ow s
    using that
  proof (induction chunks arbitrary: ow s)
    case Nil
    then show ?case by simp
  next
    case (Cons p chunks)
    show ?case using Cons.IH [OF watched_write [OF Cons.prems, of p]] by simp
  qed
  moreover have "watched new_object_watch []"
    by (auto simp: watched_def new_object_watch_def holds_object_def dest: marker_bounds)
  ultimately show ?thesis by (force simp: saw_object_def watched_def)
qed

text \<open>In whatever pieces a dump arrives, the watch sees an object in it exactly when some marker
  occurs in the whole dump; so two ways of cutting the same dump never get different answers.\<close>

theorem watch_is_a_whole_search:
  "saw_object chunks = holds_object (concat chunks)
   \<and> (concat chunks = concat chunks' \<longrightarrow> saw_object chunks = saw_object chunks')"
  by (simp add: saw_object_search)

theorem watch_is_a_whole_search_witness:
  "saw_object [''-- dump CREATE UNIQ'', ''UE'', '' INDEX a'', '' ON b;''] = saw_object [''-- dump '', ''CREATE UNIQUE INDEX a ON b;'']
   \<and> saw_object [''-- dump CREATE UNIQ'', ''UE'', '' INDEX a'', '' ON b;'']"
proof -
  have "concat [''-- dump CREATE UNIQ'', ''UE'', '' INDEX a'', '' ON b;''] = concat [''-- dump '', ''CREATE UNIQUE INDEX a ON b;'']"
    by simp
  moreover have "saw_object [''-- dump CREATE UNIQ'', ''UE'', '' INDEX a'', '' ON b;'']" by code_simp
  ultimately show ?thesis using watch_is_a_whole_search by blast
qed

end
