(* ===== verification/Snapstore.thy ===== *)
theory Snapstore
  imports Traced Dumpcheck
begin

text \<open>
  Snapshots of the local stores on disk (\<^verbatim>\<open>internal/snapstore/snapstore.go\<close>): one directory per
  branch below \<^verbatim>\<open>w17/tmp\<close>, with a dump per connection, named savepoints per initiative, the record
  of the live branch, and the eviction of old branches.

  A path is the list of its elements below \<^verbatim>\<open>w17/tmp\<close>. The disk maps paths to directories, with the
  time of their last change, and files. An operation that writes is the list of the disk steps it
  performs, in order, beside its result, so a crash is a run that stops after any prefix of them.
  Dumping and restoring a store, the disk's failures and the suffix of a temporary file are parameters.
\<close>

section \<open>A name as one path element\<close>

definition is_alnum :: "char \<Rightarrow> bool" where
  "is_alnum c \<longleftrightarrow>
     is_digit c
     \<or> (65 \<le> (of_char c :: nat) \<and> (of_char c :: nat) \<le> 90)
     \<or> (97 \<le> (of_char c :: nat) \<and> (of_char c :: nat) \<le> 122)"

text \<open>\<^verbatim>\<open>url.PathEscape\<close> and \<^verbatim>\<open>url.PathUnescape\<close>.\<close>

definition segment_marks :: string where
  "segment_marks = ''-_.~$&+:=@''"

definition should_escape :: "char \<Rightarrow> bool" where
  "should_escape c \<longleftrightarrow> \<not> (is_alnum c \<or> List.member segment_marks c)"

definition upper_hex :: "nat \<Rightarrow> char" where
  "upper_hex d = (if d < 10 then char_of (48 + d) else char_of (55 + d))"

definition unhex :: "char \<Rightarrow> nat option" where
  "unhex c = (let n = (of_char c :: nat)
     in if 48 \<le> n \<and> n \<le> 57 then Some (n - 48)
        else if 97 \<le> n \<and> n \<le> 102 then Some (n - 87)
        else if 65 \<le> n \<and> n \<le> 70 then Some (n - 55)
        else None)"

fun path_escape :: "string \<Rightarrow> string" where
  "path_escape [] = []"
| "path_escape (c # cs) =
     (if should_escape c
      then CHR ''%'' # upper_hex (of_char c div 16) # upper_hex (of_char c mod 16) # path_escape cs
      else c # path_escape cs)"

fun path_unescape :: "string \<Rightarrow> string option" where
  "path_unescape [] = Some []"
| "path_unescape (c # cs) =
     (if c = CHR ''%'' then
        (case cs of
           a # b # rest \<Rightarrow>
             (case (unhex a, unhex b) of
                (Some h, Some l) \<Rightarrow> map_option (\<lambda>r. char_of (16 * h + l) # r) (path_unescape rest)
              | _ \<Rightarrow> None)
         | _ \<Rightarrow> None)
      else map_option (\<lambda>r. c # r) (path_unescape cs))"

definition branch_key :: "string \<Rightarrow> string option" where
  "branch_key name =
     (let key = path_escape name
      in if key = [] \<or> key = ''.'' \<or> key = ''..'' \<or> List.member key CHR ''/'' then None else Some key)"

lemma unhex_upper_hex: "d < 16 \<Longrightarrow> unhex (upper_hex d) = Some d"
  by (auto simp: unhex_def upper_hex_def Let_def of_char_of)

lemma of_char_bound: "(of_char (c :: char) :: nat) < 256"
  using of_char_of [of "of_char c :: nat"] by (metis mod_less_divisor char_of_char zero_less_numeral)

lemma hex_digits [simp]: "(of_char (c :: char) :: nat) div 16 < 16"
  by (rule less_mult_imp_div_less) (simp add: of_char_bound)

lemma unescape_escape [simp]: "path_unescape (path_escape s) = Some s"
proof (induction s)
  case Nil
  show ?case by simp
next
  case (Cons c s)
  have "(of_char c :: nat) mod 16 < 16" by simp
  moreover have "16 * (of_char c div 16) + of_char c mod 16 = (of_char c :: nat)" by simp
  moreover have "\<not> should_escape c \<Longrightarrow> c \<noteq> CHR ''%''"
    by (auto simp: should_escape_def segment_marks_def is_alnum_def is_digit_def)
  ultimately show ?case using Cons by (auto simp: unhex_upper_hex simp del: mult_div_mod_eq)
qed

lemma path_escape_inj: "path_escape a = path_escape b \<longleftrightarrow> a = b"
  by (metis option.inject unescape_escape)

lemma upper_hex_alnum: "d < 16 \<Longrightarrow> is_alnum (upper_hex d)"
  by (auto simp: is_alnum_def is_digit_def upper_hex_def of_char_of)

lemma escaped_char: "c \<in> set (path_escape s) \<Longrightarrow> is_alnum c \<or> c = CHR ''%'' \<or> c \<in> set segment_marks"
proof (induction s)
  case (Cons x s)
  show ?case
  proof (cases "should_escape x")
    case True
    have "is_alnum (upper_hex (of_char x div 16))" "is_alnum (upper_hex (of_char x mod 16))"
      by (rule upper_hex_alnum, simp)+
    with True Cons show ?thesis by auto
  next
    case False
    then have "is_alnum x \<or> x \<in> set segment_marks" by (simp add: should_escape_def)
    with False Cons show ?thesis by auto
  qed
qed simp

lemma escaped_no_slash: "CHR ''/'' \<notin> set (path_escape s)"
  using escaped_char [of "CHR ''/''" s] by (auto simp: is_alnum_def is_digit_def segment_marks_def)

lemma escaped_dots: "path_escape s = ''.'' \<longleftrightarrow> s = ''.''" "path_escape s = ''..'' \<longleftrightarrow> s = ''..''"
    "path_escape s = [] \<longleftrightarrow> s = []"
  using path_escape_inj [of s "''.''"] path_escape_inj [of s "''..''"] path_escape_inj [of s "[]"]
  by (simp_all add: should_escape_def segment_marks_def)

text \<open>Every name but three is a key of its own.\<close>

lemma branch_key_Some:
  "branch_key name = Some k \<longleftrightarrow> name \<noteq> [] \<and> name \<noteq> ''.'' \<and> name \<noteq> ''..'' \<and> k = path_escape name"
  using escaped_no_slash [of name] by (auto simp: branch_key_def Let_def escaped_dots)

lemma branch_key_inj: "branch_key a = Some k \<Longrightarrow> branch_key b = Some k \<Longrightarrow> a = b"
  by (simp add: branch_key_Some path_escape_inj)

section \<open>The disk below \<^verbatim>\<open>w17/tmp\<close>\<close>

datatype node = Directory int | Content string

type_synonym disk = "(string list, node) gomap"

definition content_at :: "disk \<Rightarrow> string list \<Rightarrow> string option" where
  "content_at d p = (case map_of d p of Some (Content s) \<Rightarrow> Some s | _ \<Rightarrow> None)"

definition is_dir :: "disk \<Rightarrow> string list \<Rightarrow> bool" where
  "is_dir d p = (case map_of d p of Some (Directory _) \<Rightarrow> True | _ \<Rightarrow> False)"

definition mod_time :: "disk \<Rightarrow> string list \<Rightarrow> int option" where
  "mod_time d p = (case map_of d p of Some (Directory t) \<Rightarrow> Some t | _ \<Rightarrow> None)"

text \<open>The names of the directories directly in one, in the order the entries are read.\<close>

definition sub_dirs :: "disk \<Rightarrow> string list \<Rightarrow> string list" where
  "sub_dirs d p = List.map_filter (\<lambda>(q, n). case n of
      Directory _ \<Rightarrow> if q \<noteq> [] \<and> butlast q = p then Some (last q) else None
    | Content _ \<Rightarrow> None) d"

definition plain_files :: "disk \<Rightarrow> string list \<Rightarrow> string list" where
  "plain_files d p = List.map_filter (\<lambda>(q, n). case n of
      Content _ \<Rightarrow> if q \<noteq> [] \<and> butlast q = p then Some (last q) else None
    | Directory _ \<Rightarrow> None) d"

text \<open>The steps of the operations. Adding or removing an entry stamps its directory. \<open>CreateFile\<close>
  keeps a file that is there; \<open>TempFile\<close> is \<^verbatim>\<open>os.CreateTemp\<close>, whose name is never one that exists.\<close>

datatype snap_step =
    MakeDir "string list"
  | CreateFile "string list"
  | TempFile "string list"
  | Append "string list" string
  | Truncate "string list"
  | Delete "string list"
  | DeleteTree "string list"
  | Move "string list" "string list"
  | Restores string string

definition stamp :: "int \<Rightarrow> string list \<Rightarrow> disk \<Rightarrow> disk" where
  "stamp now p d = (if is_dir d p then put p (Directory now) d else d)"

definition enter :: "int \<Rightarrow> string list \<Rightarrow> node \<Rightarrow> disk \<Rightarrow> disk" where
  "enter now p n d = put p n (stamp now (butlast p) d)"

definition leave :: "int \<Rightarrow> string list \<Rightarrow> disk \<Rightarrow> disk" where
  "leave now p d = stamp now (butlast p) (remove_key p d)"

fun apply_step :: "int \<Rightarrow> snap_step \<Rightarrow> disk \<Rightarrow> disk" where
  "apply_step now (MakeDir p) d =
     fold (\<lambda>q d. if map_of d q = None then enter now q (Directory now) d else d) (prefixes p) d"
| "apply_step now (CreateFile p) d = (if map_of d p = None then enter now p (Content []) d else d)"
| "apply_step now (TempFile p) d = enter now p (Content []) d"
| "apply_step now (Append p s) d =
     (case content_at d p of Some c \<Rightarrow> put p (Content (c @ s)) d | None \<Rightarrow> d)"
| "apply_step now (Truncate p) d =
     (if map_of d p = None then enter now p (Content []) d else put p (Content []) d)"
| "apply_step now (Delete p) d = leave now p d"
| "apply_step now (DeleteTree p) d = stamp now (butlast p) (filter (\<lambda>(q, _). \<not> prefix p q) d)"
| "apply_step now (Move a b) d =
     (case content_at d a of Some c \<Rightarrow> enter now b (Content c) (leave now a d) | None \<Rightarrow> d)"
| "apply_step now (Restores c s) d = d"

definition run_steps :: "int \<Rightarrow> snap_step list \<Rightarrow> disk \<Rightarrow> disk" where
  "run_steps now ss d = fold (apply_step now) ss d"

section \<open>Connections and failures\<close>

text \<open>A connection with what its store answers: the chunks a dump writes before it ends or fails,
  the restore of some bytes, and, when the snapshotter can be asked, what the store holds.\<close>

record conn =
  cn_name :: string
  cn_ext :: string
  cn_chunks :: "string list"
  cn_dump_error :: "string option"
  cn_restore :: "string \<Rightarrow> string option"
  cn_objects :: "(string + string list) option"
  cn_fallback_note :: string
  cn_require_objects :: bool

definition conn_file :: "conn \<Rightarrow> string" where
  "conn_file c = cn_name c @ ''.'' @ cn_ext c"

datatype sys_call =
    Mkdir | CreateTemp | CloseTemp | Rename | RemoveFile | RemoveTree | OpenLock | Flock | OpenFile
  | WriteFile | ReadFile | ReadDirectory

record snap_env =
  se_fails :: "sys_call \<Rightarrow> string list \<Rightarrow> string option"
  se_temp :: string
  se_ignored :: "string option"

datatype snap_error =
    InvalidName string
  | IgnoreFailed string
  | MkdirFailed string
  | SetLockFailed string
  | TempFailed string string
  | DumpFailed string string string
  | CloseFailed string string
  | Misdirected string "string list"
  | Unaskable string
  | RenameFailed string string
  | TouchFailed string
  | NoSnapshot string
  | NoSavepoint string string
  | OpenFailed string string
  | RestoreError string string
  | PinFailed string
  | ReadDirFailed string
  | RemoveError string
  | LiveFailed string

type_synonym 'a snap = "(snap_step, snap_error, 'a) io"

definition sys :: "snap_env \<Rightarrow> sys_call \<Rightarrow> string list \<Rightarrow> (string \<Rightarrow> snap_error) \<Rightarrow> snap_step list \<Rightarrow> unit snap" where
  "sys e c p w ss = (case se_fails e c p of Some m \<Rightarrow> raise (w m) | None \<Rightarrow> emit_all ss)"

definition discard :: "snap_env \<Rightarrow> string list \<Rightarrow> unit snap" where
  "discard e p = (if se_fails e RemoveFile p = None then emit (Delete p) else pure ())"

definition unless :: "snap_error option \<Rightarrow> unit snap" where
  "unless r = (case r of Some err \<Rightarrow> raise err | None \<Rightarrow> pure ())"

section \<open>Saving a set\<close>

definition branch_root :: "string \<Rightarrow> string list option" where
  "branch_root branch = map_option (\<lambda>k. [k]) (branch_key branch)"

definition db_dir :: "string \<Rightarrow> string list option" where
  "db_dir branch = map_option (\<lambda>k. [k, ''db'']) (branch_key branch)"

text \<open>\<^verbatim>\<open>lockfile.ForUpdate\<close> on the set's sentinel: its directory is created before the lock is
  taken.\<close>

definition lock_set :: "snap_env \<Rightarrow> string list \<Rightarrow> unit snap" where
  "lock_set e dir =
     and_then (sys e Mkdir dir SetLockFailed [MakeDir dir])
     (\<lambda>_. and_then (sys e OpenLock (dir @ [''.set.lock'']) SetLockFailed [CreateFile (dir @ [''.set.lock''])])
     (\<lambda>_. sys e Flock (dir @ [''.set.lock'']) SetLockFailed []))"

definition store_objects :: "conn \<Rightarrow> string list option" where
  "store_objects c = (case cn_objects c of Some (Inr os) \<Rightarrow> Some os | _ \<Rightarrow> None)"

definition refuse_empty :: "conn \<Rightarrow> snap_error option" where
  "refuse_empty c =
     (if cn_require_objects c \<and> \<not> saw_object (cn_chunks c) then
        (case store_objects c of
           Some os \<Rightarrow> if os = [] then None else Some (Misdirected (cn_name c) os)
         | None \<Rightarrow> Some (Unaskable (cn_name c)))
      else None)"

definition final_path :: "string list \<Rightarrow> conn \<Rightarrow> string list" where
  "final_path dir c = dir @ [conn_file c]"

definition temp_path :: "snap_env \<Rightarrow> string list \<Rightarrow> conn \<Rightarrow> string list" where
  "temp_path e dir c = dir @ [''.'' @ conn_file c @ ''.tmp-'' @ se_temp e]"

definition save_one_to :: "snap_env \<Rightarrow> string list \<Rightarrow> conn \<Rightarrow> unit snap" where
  "save_one_to e dir c =
     (let tmp = temp_path e dir c
      in and_then (sys e CreateTemp tmp (TempFailed (cn_name c)) [TempFile tmp])
         (\<lambda>_. and_then (emit_all (map (Append tmp) (cn_chunks c)))
         (\<lambda>_. case cn_dump_error c of
            Some m \<Rightarrow> and_then (discard e tmp) (\<lambda>_. raise (DumpFailed (cn_name c) m (cn_fallback_note c)))
          | None \<Rightarrow>
              (case se_fails e CloseTemp tmp of
                 Some m \<Rightarrow> and_then (discard e tmp) (\<lambda>_. raise (CloseFailed (cn_name c) m))
               | None \<Rightarrow>
                   (case refuse_empty c of
                      Some err \<Rightarrow> and_then (discard e tmp) (\<lambda>_. raise err)
                    | None \<Rightarrow>
                        (case se_fails e Rename tmp of
                           Some m \<Rightarrow> and_then (discard e tmp) (\<lambda>_. raise (RenameFailed (cn_name c) m))
                         | None \<Rightarrow> emit (Move tmp (final_path dir c))))))))"

fun save_each :: "snap_env \<Rightarrow> string list \<Rightarrow> conn list \<Rightarrow> unit snap" where
  "save_each e dir [] = pure ()"
| "save_each e dir (c # cs) = and_then (save_one_to e dir c) (\<lambda>_. save_each e dir cs)"

definition save_conns :: "snap_env \<Rightarrow> string list \<Rightarrow> conn list \<Rightarrow> unit snap" where
  "save_conns e dir conns = and_then (sys e Mkdir dir MkdirFailed [MakeDir dir]) (\<lambda>_. save_each e dir conns)"

definition touch :: "snap_env \<Rightarrow> string \<Rightarrow> unit snap" where
  "touch e branch =
     (case branch_root branch of
        None \<Rightarrow> raise (InvalidName branch)
      | Some root \<Rightarrow>
          (let p = root @ [''.touch-'' @ se_temp e]
           in and_then (sys e CreateTemp p TouchFailed [TempFile p]) (\<lambda>_. sys e RemoveFile p TouchFailed [Delete p])))"

definition ensure_gitignored :: "snap_env \<Rightarrow> unit snap" where
  "ensure_gitignored e = unless (map_option IgnoreFailed (se_ignored e))"

definition save_snapshot :: "snap_env \<Rightarrow> string \<Rightarrow> conn list \<Rightarrow> unit snap" where
  "save_snapshot e branch conns =
     and_then (ensure_gitignored e)
     (\<lambda>_. case db_dir branch of
        None \<Rightarrow> raise (InvalidName branch)
      | Some dir \<Rightarrow>
          and_then (lock_set e dir) (\<lambda>_. and_then (save_conns e dir conns) (\<lambda>_. touch e branch)))"

section \<open>Restoring, listing and removing\<close>

definition has_branch :: "disk \<Rightarrow> string \<Rightarrow> bool" where
  "has_branch d branch = (case db_dir branch of None \<Rightarrow> False | Some dir \<Rightarrow> is_dir d dir)"

definition load_one :: "snap_env \<Rightarrow> disk \<Rightarrow> string list \<Rightarrow> conn \<Rightarrow> unit snap" where
  "load_one e d dir c =
     (case se_fails e OpenFile (final_path dir c) of
        Some m \<Rightarrow> raise (OpenFailed (cn_name c) m)
      | None \<Rightarrow>
          (case content_at d (final_path dir c) of
             None \<Rightarrow> raise (OpenFailed (cn_name c) ''no such file or directory'')
           | Some s \<Rightarrow> perform (Restores (cn_name c) s) (outcome (RestoreError (cn_name c)) (cn_restore c s))))"

fun load_conns :: "snap_env \<Rightarrow> disk \<Rightarrow> string list \<Rightarrow> conn list \<Rightarrow> unit snap" where
  "load_conns e d dir [] = pure ()"
| "load_conns e d dir (c # cs) = and_then (load_one e d dir c) (\<lambda>_. load_conns e d dir cs)"

definition load_snapshot :: "snap_env \<Rightarrow> disk \<Rightarrow> string \<Rightarrow> conn list \<Rightarrow> unit snap" where
  "load_snapshot e d branch conns =
     (if \<not> has_branch d branch then raise (NoSnapshot branch)
      else (case db_dir branch of
              None \<Rightarrow> raise (InvalidName branch)
            | Some dir \<Rightarrow> and_then (lock_set e dir) (\<lambda>_. load_conns e d dir conns)))"

definition remove_branch :: "snap_env \<Rightarrow> string \<Rightarrow> unit snap" where
  "remove_branch e branch =
     (case branch_root branch of
        None \<Rightarrow> raise (InvalidName branch)
      | Some root \<Rightarrow> sys e RemoveTree root RemoveError [DeleteTree root])"

definition branches :: "snap_env \<Rightarrow> disk \<Rightarrow> snap_error + string list" where
  "branches e d =
     (case se_fails e ReadDirectory [] of
        Some m \<Rightarrow> Inl (ReadDirFailed m)
      | None \<Rightarrow> Inr (sort (List.map_filter path_unescape (sub_dirs d []))))"

definition with_age :: "disk \<Rightarrow> string list \<Rightarrow> (string \<times> int) list" where
  "with_age d bs = List.map_filter (\<lambda>b. Option.bind (branch_root b)
     (\<lambda>root. map_option (\<lambda>t. (b, t)) (mod_time d root))) bs"

text \<open>An error ends the eviction with what was dropped so far.\<close>

fun drop_branches :: "snap_env \<Rightarrow> string list \<Rightarrow> string list \<Rightarrow> (snap_step, snap_error \<times> string list, string list) io" where
  "drop_branches e dropped [] = pure (sort dropped)"
| "drop_branches e dropped (b # bs) =
     (case remove_branch e b of
        (ss, Inl err) \<Rightarrow> and_then (emit_all ss) (\<lambda>_. raise (err, dropped))
      | (ss, Inr _) \<Rightarrow> and_then (emit_all ss) (\<lambda>_. drop_branches e (dropped @ [b]) bs))"

definition evict :: "snap_env \<Rightarrow> disk \<Rightarrow> int \<Rightarrow> (snap_step, snap_error \<times> string list, string list) io" where
  "evict e d keep =
     (if keep \<le> 0 then pure []
      else (case branches e d of
              Inl err \<Rightarrow> raise (err, [])
            | Inr bs \<Rightarrow>
                if int (length bs) \<le> keep then pure []
                else (let aged = sort_slice (\<lambda>a b. snd a > snd b) (with_age d bs)
                      in drop_branches e [] (map fst (drop (nat keep) aged)))))"

definition snapshot_files :: "snap_env \<Rightarrow> disk \<Rightarrow> string \<Rightarrow> snap_error + string list" where
  "snapshot_files e d branch =
     (case db_dir branch of
        None \<Rightarrow> Inl (InvalidName branch)
      | Some dir \<Rightarrow>
          (case se_fails e ReadDirectory dir of
             Some m \<Rightarrow> Inl (ReadDirFailed m)
           | None \<Rightarrow> Inr (sort (filter (\<lambda>n. \<not> prefix ''.'' n) (plain_files d dir)))))"

text \<open>The object names a refusal shows; the ellipsis is one UTF-8 character.\<close>

definition summarize_objects :: "string list \<Rightarrow> string" where
  "summarize_objects names =
     (if length names \<le> 6 then join_with '', '' names
      else join_with '', '' (take 6 names) @ '', '' @ [CHR 0xE2, CHR 0x80, CHR 0xA6] @ '' and ''
        @ itoa (int (length names) - 6) @ '' more'')"

section \<open>Named savepoints\<close>

definition named_root :: "string \<Rightarrow> string \<Rightarrow> string list option" where
  "named_root initiative name =
     Option.bind (branch_key initiative) (\<lambda>ik. map_option (\<lambda>nk. [ik, ''snapshots'', nk]) (branch_key name))"

definition named_db_dir :: "string \<Rightarrow> string \<Rightarrow> string list option" where
  "named_db_dir initiative name = map_option (\<lambda>root. root @ [''db'']) (named_root initiative name)"

definition has_named :: "disk \<Rightarrow> string \<Rightarrow> string \<Rightarrow> bool" where
  "has_named d initiative name = (case named_db_dir initiative name of None \<Rightarrow> False | Some dir \<Rightarrow> is_dir d dir)"

definition write_file :: "snap_env \<Rightarrow> string list \<Rightarrow> string \<Rightarrow> (string \<Rightarrow> snap_error) \<Rightarrow> unit snap" where
  "write_file e p s w = sys e WriteFile p w [Truncate p, Append p s]"

definition save_named_undoing ::
  "snap_env \<Rightarrow> string \<Rightarrow> string \<Rightarrow> string \<Rightarrow> string \<Rightarrow> conn list \<Rightarrow> unit snap" where
  "save_named_undoing e initiative name schema_hash undoes conns =
     and_then (ensure_gitignored e)
     (\<lambda>_. case named_root initiative name of
        None \<Rightarrow> raise (InvalidName name)
      | Some root \<Rightarrow>
          and_then (lock_set e (root @ [''db'']))
          (\<lambda>_. and_then (save_conns e (root @ [''db'']) conns)
          (\<lambda>_. and_then (if undoes \<noteq> [] then write_file e (root @ [''undoes'']) (undoes @ [nl]) PinFailed else pure ())
          (\<lambda>_. write_file e (root @ [''schema'']) (schema_hash @ [nl]) PinFailed))))"

definition save_named :: "snap_env \<Rightarrow> string \<Rightarrow> string \<Rightarrow> string \<Rightarrow> conn list \<Rightarrow> unit snap" where
  "save_named e initiative name schema_hash conns = save_named_undoing e initiative name schema_hash [] conns"

definition load_named :: "snap_env \<Rightarrow> disk \<Rightarrow> string \<Rightarrow> string \<Rightarrow> conn list \<Rightarrow> unit snap" where
  "load_named e d initiative name conns =
     (if \<not> has_named d initiative name then raise (NoSavepoint initiative name)
      else (case named_db_dir initiative name of
              None \<Rightarrow> raise (InvalidName name)
            | Some dir \<Rightarrow> and_then (lock_set e dir) (\<lambda>_. load_conns e d dir conns)))"

definition read_pin :: "snap_env \<Rightarrow> disk \<Rightarrow> string list \<Rightarrow> snap_error + string" where
  "read_pin e d p =
     (case se_fails e ReadFile p of
        Some m \<Rightarrow> Inl (PinFailed m)
      | None \<Rightarrow> Inr (case content_at d p of None \<Rightarrow> [] | Some s \<Rightarrow> trim_space s))"

definition named_schema_hash :: "snap_env \<Rightarrow> disk \<Rightarrow> string \<Rightarrow> string \<Rightarrow> snap_error + string" where
  "named_schema_hash e d initiative name =
     (case named_root initiative name of
        None \<Rightarrow> Inl (InvalidName name)
      | Some root \<Rightarrow> read_pin e d (root @ [''schema'']))"

definition named_undoes_hash :: "snap_env \<Rightarrow> disk \<Rightarrow> string \<Rightarrow> string \<Rightarrow> snap_error + string" where
  "named_undoes_hash e d initiative name =
     (case named_root initiative name of
        None \<Rightarrow> Inl (InvalidName name)
      | Some root \<Rightarrow> read_pin e d (root @ [''undoes'']))"

definition list_named :: "snap_env \<Rightarrow> disk \<Rightarrow> string \<Rightarrow> snap_error + string list" where
  "list_named e d initiative =
     (case branch_key initiative of
        None \<Rightarrow> Inl (InvalidName initiative)
      | Some ik \<Rightarrow>
          (case se_fails e ReadDirectory [ik, ''snapshots''] of
             Some m \<Rightarrow> Inl (ReadDirFailed m)
           | None \<Rightarrow> Inr (sort (List.map_filter path_unescape (sub_dirs d [ik, ''snapshots''])))))"

definition remove_named :: "snap_env \<Rightarrow> string \<Rightarrow> string \<Rightarrow> unit snap" where
  "remove_named e initiative name =
     (case named_root initiative name of
        None \<Rightarrow> raise (InvalidName name)
      | Some root \<Rightarrow> sys e RemoveTree root RemoveError [DeleteTree root])"

text \<open>The record of the live branch.\<close>

definition last_live :: "snap_env \<Rightarrow> disk \<Rightarrow> snap_error + string" where
  "last_live e d =
     (case se_fails e ReadFile [''.last-live-branch''] of
        Some m \<Rightarrow> Inl (LiveFailed m)
      | None \<Rightarrow> Inr (case content_at d [''.last-live-branch''] of None \<Rightarrow> [] | Some s \<Rightarrow> trim_space s))"

definition set_last_live :: "snap_env \<Rightarrow> string \<Rightarrow> unit snap" where
  "set_last_live e branch =
     and_then (sys e Mkdir [] LiveFailed [MakeDir []])
     (\<lambda>_. write_file e [''.last-live-branch''] (branch @ [nl]) LiveFailed)"

text \<open>Restoring a savepoint from the command line (\<^verbatim>\<open>cmd/db/cmd.go\<close>): the guard on the schema it
  was taken at. \<open>current\<close> is the console's answer.\<close>

definition is_return_trip :: "string \<Rightarrow> string \<Rightarrow> bool" where
  "is_return_trip undoes current \<longleftrightarrow> undoes \<noteq> [] \<and> current \<noteq> [] \<and> undoes = current"

definition schema_guard_blocks :: "string \<Rightarrow> string \<Rightarrow> bool \<Rightarrow> bool" where
  "schema_guard_blocks pinned current force \<longleftrightarrow>
     \<not> (force \<or> pinned = [] \<or> current = []) \<and> pinned \<noteq> current"

datatype activate_error = NoSuchSavepoint | PinUnreadable | ConsoleUnreachable string | OtherSchema string string | NotRestored snap_error

text \<open>Go's results beside an error are empty strings.\<close>

definition value_of :: "'e + string \<Rightarrow> string" where
  "value_of r = (case r of Inl _ \<Rightarrow> [] | Inr s \<Rightarrow> s)"

definition activate_savepoint ::
  "snap_env \<Rightarrow> disk \<Rightarrow> string \<Rightarrow> string \<Rightarrow> string + string \<Rightarrow> bool \<Rightarrow> conn list
     \<Rightarrow> (snap_step, activate_error, unit) io" where
  "activate_savepoint e d initiative name current force conns =
     (if \<not> has_named d initiative name then raise NoSuchSavepoint
      else (case (named_schema_hash e d initiative name, current, force) of
              (Inl _, _, False) \<Rightarrow> raise PinUnreadable
            | (_, Inl m, False) \<Rightarrow> raise (ConsoleUnreachable m)
            | (p, c, _) \<Rightarrow>
                (let pinned = value_of p; cur = value_of c; undoes = value_of (named_undoes_hash e d initiative name)
                 in if \<not> is_return_trip undoes cur \<and> schema_guard_blocks pinned cur force
                    then raise (OtherSchema pinned cur)
                    else (fst (load_named e d initiative name conns),
                          wrap_error NotRestored (snd (load_named e d initiative name conns))))))"

section \<open>What a step can change\<close>

fun step_paths :: "snap_step \<Rightarrow> string list list" where
  "step_paths (MakeDir p) = []"
| "step_paths (CreateFile p) = [p]"
| "step_paths (TempFile p) = [p]"
| "step_paths (Append p s) = [p]"
| "step_paths (Truncate p) = [p]"
| "step_paths (Delete p) = [p]"
| "step_paths (DeleteTree p) = [p]"
| "step_paths (Move a b) = [a, b]"
| "step_paths (Restores c s) = []"

lemma content_stamp [simp]: "content_at (stamp now p d) q = content_at d q"
  by (auto simp: stamp_def content_at_def is_dir_def split: option.splits node.splits)

lemma content_enter [simp]:
  "content_at (enter now p (Content s) d) q = (if q = p then Some s else content_at d q)"
proof -
  have "content_at (enter now p (Content s) d) q
      = (if q = p then Some s else content_at (stamp now (butlast p) d) q)"
    by (simp add: enter_def content_at_def)
  then show ?thesis by simp
qed

lemma content_enter_dir:
  "map_of d p = None \<Longrightarrow> content_at (enter now p (Directory t) d) q = content_at d q"
proof -
  assume n: "map_of d p = None"
  have "content_at (enter now p (Directory t) d) q
      = (if q = p then None else content_at (stamp now (butlast p) d) q)"
    by (simp add: enter_def content_at_def)
  moreover have "content_at d p = None" using n by (simp add: content_at_def)
  ultimately show ?thesis by simp
qed

lemma content_leave [simp]: "content_at (leave now p d) q = (if q = p then None else content_at d q)"
proof -
  have "content_at (leave now p d) q = content_at (remove_key p d) q" by (simp add: leave_def)
  then show ?thesis by (simp add: content_at_def)
qed

lemma content_make_dir [simp]: "content_at (apply_step now (MakeDir p) d) q = content_at d q"
proof -
  have "content_at (fold (\<lambda>q d. if map_of d q = None then enter now q (Directory now) d else d) qs d) q
      = content_at d q" for qs
    by (induction qs arbitrary: d) (auto simp: content_enter_dir)
  then show ?thesis by simp
qed

lemma content_delete_tree:
  "content_at (apply_step now (DeleteTree p) d) q = (if prefix p q then None else content_at d q)"
proof -
  have "map_of (filter (\<lambda>(q, _). \<not> prefix p q) d) q = (if prefix p q then None else map_of d q)"
    by (induction d) auto
  then have "content_at (filter (\<lambda>(q, _). \<not> prefix p q) d) q = (if prefix p q then None else content_at d q)"
    by (simp add: content_at_def)
  then show ?thesis by simp
qed

lemma content_frame:
  "\<forall>p \<in> set (step_paths s). \<not> prefix p q \<Longrightarrow> content_at (apply_step now s d) q = content_at d q"
proof (cases s)
  case (MakeDir p)
  then show ?thesis by (simp del: apply_step.simps)
next
  case (DeleteTree p)
  then show "\<forall>p \<in> set (step_paths s). \<not> prefix p q \<Longrightarrow> ?thesis"
    using content_delete_tree [of now p d q] by simp
next
  case (Append p t)
  then show "\<forall>p \<in> set (step_paths s). \<not> prefix p q \<Longrightarrow> ?thesis"
    by (auto simp: content_at_def split: option.splits node.splits)
next
  case (Truncate p)
  then show "\<forall>p \<in> set (step_paths s). \<not> prefix p q \<Longrightarrow> ?thesis"
    by (auto simp: content_at_def [of "put p (Content []) d"] content_at_def [of d])
qed (auto split: option.splits)

lemma run_append [simp]: "run_steps now (ss @ ts) d = run_steps now ts (run_steps now ss d)"
  by (simp add: run_steps_def)

lemma run_Cons [simp]: "run_steps now (s # ss) d = run_steps now ss (apply_step now s d)"
  by (simp add: run_steps_def)

lemma run_Nil [simp]: "run_steps now [] d = d"
  by (simp add: run_steps_def)

lemma content_frame_run:
  "\<forall>s \<in> set ss. \<forall>p \<in> set (step_paths s). \<not> prefix p q \<Longrightarrow> content_at (run_steps now ss d) q = content_at d q"
proof (induction ss arbitrary: d)
  case (Cons s ss)
  have "content_at (run_steps now (s # ss) d) q = content_at (apply_step now s d) q"
    unfolding run_Cons by (rule Cons.IH) (use Cons.prems in simp)
  also have "\<dots> = content_at d q" by (rule content_frame) (use Cons.prems in simp)
  finally show ?case .
qed simp

section \<open>A dump is replaced by a complete one or not at all\<close>

text \<open>A dump that was written to the end and not refused.\<close>

definition accepted :: "conn \<Rightarrow> bool" where
  "accepted c \<longleftrightarrow> cn_dump_error c = None \<and> refuse_empty c = None"

definition dump_of :: "conn \<Rightarrow> string" where
  "dump_of c = concat (cn_chunks c)"

definition dotted :: "string list \<Rightarrow> bool" where
  "dotted p \<longleftrightarrow> p \<noteq> [] \<and> prefix ''.'' (last p)"

lemma dotted_temp [simp]: "dotted (temp_path e dir c)" "dotted (dir @ [''.set.lock''])" "dotted (dir @ [CHR ''.'' # n])"
  by (simp_all add: dotted_def temp_path_def)

lemma sys_steps: "fst (sys e c p w ss) = [] \<or> fst (sys e c p w ss) = ss"
  by (simp add: sys_def split: option.split)

lemma sys_ok [simp]: "snd (sys e c p w ss) = Inr u \<longleftrightarrow> se_fails e c p = None"
  by (simp add: sys_def split: option.split)

lemma sys_none: "se_fails e c p = None \<Longrightarrow> sys e c p w ss = emit_all ss"
  by (simp add: sys_def)

lemma discard_steps: "fst (discard e p) = [] \<or> fst (discard e p) = [Delete p]"
  by (simp add: discard_def)

lemma discard_then [simp]: "snd (and_then (discard e p) (\<lambda>_. raise x)) = Inl x"
  by (simp add: discard_def result_and_then)

text \<open>The steps of one save: nothing, or the dump into the temporary file and then at most one step.\<close>

lemma save_one_steps:
  "fst (save_one_to e dir c) = [] \<or>
   (\<exists>rest. fst (save_one_to e dir c) = TempFile (temp_path e dir c) # map (Append (temp_path e dir c)) (cn_chunks c) @ rest
      \<and> (rest = [] \<or> rest = [Delete (temp_path e dir c)]
          \<or> rest = [Move (temp_path e dir c) (final_path dir c)] \<and> accepted c))"
  by (auto simp: save_one_to_def Let_def sys_def trace_and_then discard_def accepted_def
      split: option.split)

lemma save_one_ok:
  "snd (save_one_to e dir c) = Inr u \<Longrightarrow>
     fst (save_one_to e dir c) = TempFile (temp_path e dir c) # map (Append (temp_path e dir c)) (cn_chunks c)
       @ [Move (temp_path e dir c) (final_path dir c)] \<and> accepted c"
  by (auto simp: save_one_to_def Let_def sys_def and_then_ok accepted_def split: option.splits)

text \<open>Between two moments of a run of steps, a file with a plain name either kept its content or
  became the complete, accepted dump of one of the connections.\<close>

definition kept :: "string list \<Rightarrow> conn list \<Rightarrow> disk \<Rightarrow> disk \<Rightarrow> bool" where
  "kept dir cs d0 d \<longleftrightarrow> (\<forall>p. \<not> dotted p \<longrightarrow> content_at d p = content_at d0 p \<or>
     (\<exists>c \<in> set cs. accepted c \<and> p = final_path dir c \<and> content_at d p = Some (dump_of c)))"

definition careful :: "string list \<Rightarrow> conn list \<Rightarrow> snap_step list \<Rightarrow> bool" where
  "careful dir cs ss \<longleftrightarrow> (\<forall>n now d. kept dir cs d (run_steps now (take n ss) d))"

lemma kept_trans: "kept dir cs d0 d1 \<Longrightarrow> kept dir cs d1 d2 \<Longrightarrow> kept dir cs d0 d2"
  unfolding kept_def by metis

lemma kept_mono: "kept dir cs d0 d \<Longrightarrow> set cs \<subseteq> set cs' \<Longrightarrow> kept dir cs' d0 d"
  unfolding kept_def by blast

lemma careful_mono: "careful dir cs ss \<Longrightarrow> set cs \<subseteq> set cs' \<Longrightarrow> careful dir cs' ss"
  unfolding careful_def by (blast intro: kept_mono)

lemma careful_append:
  assumes "careful dir cs ss" and "careful dir cs ts"
  shows "careful dir cs (ss @ ts)"
  unfolding careful_def
proof (intro allI)
  fix n now d
  have "kept dir cs d (run_steps now (take n ss) d)" using assms(1) by (simp add: careful_def)
  moreover have "kept dir cs (run_steps now (take n ss) d)
      (run_steps now (take (n - length ss) ts) (run_steps now (take n ss) d))"
    using assms(2) by (simp add: careful_def)
  ultimately show "kept dir cs d (run_steps now (take n (ss @ ts)) d)"
    unfolding take_append run_append by (rule kept_trans)
qed

lemma careful_Nil [simp]: "careful dir cs []"
  by (simp add: careful_def kept_def)

lemma careful_and_then:
  "careful dir cs (fst m) \<Longrightarrow> (\<And>x. snd m = Inr x \<Longrightarrow> careful dir cs (fst (f x))) \<Longrightarrow> careful dir cs (fst (and_then m f))"
  by (auto simp: trace_and_then split: sum.split intro: careful_append)

text \<open>Steps on temporary files change no other file.\<close>

fun quiet_step :: "snap_step \<Rightarrow> bool" where
  "quiet_step (MakeDir p) \<longleftrightarrow> True"
| "quiet_step (CreateFile p) \<longleftrightarrow> dotted p"
| "quiet_step (TempFile p) \<longleftrightarrow> dotted p"
| "quiet_step (Append p s) \<longleftrightarrow> dotted p"
| "quiet_step (Truncate p) \<longleftrightarrow> dotted p"
| "quiet_step (Delete p) \<longleftrightarrow> dotted p"
| "quiet_step (DeleteTree p) \<longleftrightarrow> False"
| "quiet_step (Move a b) \<longleftrightarrow> False"
| "quiet_step (Restores c s) \<longleftrightarrow> True"

lemma quiet_content: "quiet_step s \<Longrightarrow> \<not> dotted p \<Longrightarrow> content_at (apply_step now s d) p = content_at d p"
proof (cases s)
  case (MakeDir q)
  then show ?thesis by (simp del: apply_step.simps)
next
  case (Append q t)
  then show "quiet_step s \<Longrightarrow> \<not> dotted p \<Longrightarrow> ?thesis"
    by (auto simp: content_at_def split: option.splits node.splits)
next
  case (Truncate q)
  have "p \<noteq> q \<Longrightarrow> content_at (put q (Content []) d) p = content_at d p" by (simp add: content_at_def)
  with Truncate show "quiet_step s \<Longrightarrow> \<not> dotted p \<Longrightarrow> ?thesis" by auto
qed auto

lemma quiet_run:
  "\<forall>s \<in> set ss. quiet_step s \<Longrightarrow> \<not> dotted p \<Longrightarrow> content_at (run_steps now ss d) p = content_at d p"
  by (induction ss arbitrary: d) (auto simp: quiet_content)

lemma careful_quiet: "\<forall>s \<in> set ss. quiet_step s \<Longrightarrow> careful dir cs ss"
  unfolding careful_def kept_def by (meson in_set_takeD quiet_run)

lemma run_appends:
  "content_at d p = Some t \<Longrightarrow> content_at (run_steps now (map (Append p) ts) d) p = Some (t @ concat ts)"
proof (induction ts arbitrary: d t)
  case (Cons x ts)
  then have "content_at (apply_step now (Append p x) d) p = Some (t @ x)"
    by (simp add: content_at_def)
  from Cons.IH [OF this] show ?case by simp
qed simp

lemma dump_written:
  "content_at (run_steps now (TempFile p # map (Append p) ts) d) p = Some (concat ts)"
  using run_appends [of "apply_step now (TempFile p) d" p "[]" now ts] by simp

lemma move_content:
  "content_at d a = Some s \<Longrightarrow> q \<noteq> a \<Longrightarrow>
     content_at (apply_step now (Move a b) d) q = (if q = b then Some s else content_at d q)"
  by simp

lemma careful_save_one: "careful dir [c] (fst (save_one_to e dir c))"
proof -
  define t where "t = temp_path e dir c"
  define w where "w = TempFile t # map (Append t) (cn_chunks c)"
  have q: "\<forall>s \<in> set w. quiet_step s" by (auto simp: w_def t_def)
  consider "fst (save_one_to e dir c) = []"
    | rest where "fst (save_one_to e dir c) = w @ rest" "rest = [] \<or> rest = [Delete t]"
    | "fst (save_one_to e dir c) = w @ [Move t (final_path dir c)]" "accepted c"
    using save_one_steps [of e dir c] by (auto simp: w_def t_def)
  then show ?thesis
  proof cases
    case 1
    then show ?thesis by simp
  next
    case 2
    then show ?thesis using q by (auto simp: t_def intro!: careful_quiet)
  next
    case 3
    show ?thesis
      unfolding careful_def 3(1)
    proof (intro allI)
      fix n now d
      show "kept dir [c] d (run_steps now (take n (w @ [Move t (final_path dir c)])) d)"
      proof (cases "n \<le> length w")
        case True
        then have "take n (w @ [Move t (final_path dir c)]) = take n w" by simp
        with careful_quiet [OF q] show ?thesis by (simp only: careful_def)
      next
        case False
        define d1 where "d1 = run_steps now w d"
        have t: "content_at d1 t = Some (dump_of c)"
          unfolding d1_def w_def dump_of_def by (rule dump_written)
        have new: "content_at (apply_step now (Move t (final_path dir c)) d1) p
            = (if p = final_path dir c then Some (dump_of c) else content_at d p)" if "\<not> dotted p" for p
        proof -
          have "p \<noteq> t" using that by (auto simp: t_def)
          from move_content [OF t this] quiet_run [OF q that] show ?thesis by (simp add: d1_def)
        qed
        have "take n (w @ [Move t (final_path dir c)]) = w @ [Move t (final_path dir c)]"
          using False by simp
        then have "run_steps now (take n (w @ [Move t (final_path dir c)])) d
            = apply_step now (Move t (final_path dir c)) d1" by (simp add: d1_def)
        with new 3(2) show ?thesis by (simp add: kept_def)
      qed
    qed
  qed
qed

lemma careful_save_each: "careful dir cs (fst (save_each e dir cs))"
proof (induction cs)
  case (Cons c cs)
  have "careful dir (c # cs) (fst (save_one_to e dir c))"
    by (rule careful_mono [OF careful_save_one]) simp
  moreover have "careful dir (c # cs) (fst (save_each e dir cs))"
    by (rule careful_mono [OF Cons]) auto
  ultimately show ?case by (auto intro: careful_and_then)
qed simp

lemma careful_sys: "\<forall>s \<in> set ss. quiet_step s \<Longrightarrow> careful dir cs (fst (sys e c p w ss))"
  using sys_steps [of e c p w ss] by (auto intro: careful_quiet)

lemma careful_lock: "careful dir cs (fst (lock_set e dir))"
  unfolding lock_set_def by (intro careful_and_then careful_sys) auto

lemma careful_save_conns: "careful dir cs (fst (save_conns e dir cs))"
  unfolding save_conns_def by (intro careful_and_then careful_sys careful_save_each) auto

lemma careful_touch: "careful dir cs (fst (touch e b))"
  unfolding touch_def
  by (auto simp: Let_def dotted_def split: option.split intro!: careful_and_then careful_sys)

text \<open>What an accepted dump is: written to the end, and, when objects are required, either a dump that
  creates one or a dump of a store that was asked and holds nothing.\<close>

lemma accepted_iff:
  "accepted c \<longleftrightarrow> cn_dump_error c = None \<and>
     (if cn_require_objects c then holds_object (dump_of c) \<or> cn_objects c = Some (Inr []) else True)"
  by (auto simp: accepted_def refuse_empty_def dump_of_def saw_object_search store_objects_def
      split: option.split sum.split list.split)

text \<open>C7: a snapshot file is replaced by a complete dump or not at all. Wherever a save of a branch
  stops, by a failed dump, a failing disk or a crash between any two steps, every file of every branch
  and savepoint, temporary ones apart, has the content it had before or is the whole dump of its
  connection: one that was written to the end and that, for a store dumped as SQL, creates some object
  unless the store was asked and holds none.\<close>

theorem snapshot_file_is_old_or_complete:
  assumes "db_dir branch = Some dir" and "\<not> dotted p"
  shows "content_at (run_steps now (take n (fst (save_snapshot e branch conns))) d) p = content_at d p
    \<or> (\<exists>c \<in> set conns. p = final_path dir c \<and> cn_dump_error c = None
        \<and> (if cn_require_objects c then holds_object (dump_of c) \<or> cn_objects c = Some (Inr []) else True)
        \<and> content_at (run_steps now (take n (fst (save_snapshot e branch conns))) d) p = Some (dump_of c))"
proof -
  have "careful dir conns (fst (save_snapshot e branch conns))"
    unfolding save_snapshot_def ensure_gitignored_def unless_def assms(1) option.case
    by (intro careful_and_then careful_lock careful_save_conns careful_touch)
       (simp split: option.split)
  with assms(2) show ?thesis unfolding careful_def kept_def accepted_iff by blast
qed

section \<open>What is saved is what is restored\<close>

definition within :: "string list \<Rightarrow> snap_step list \<Rightarrow> bool" where
  "within root ss \<longleftrightarrow> (\<forall>s \<in> set ss. \<forall>p \<in> set (step_paths s). prefix root p)"

lemma within_simps [simp]: "within root []" "within root (ss @ ts) \<longleftrightarrow> within root ss \<and> within root ts"
  by (auto simp: within_def)

lemma within_and_then:
  "within root (fst m) \<Longrightarrow> (\<And>x. snd m = Inr x \<Longrightarrow> within root (fst (f x))) \<Longrightarrow> within root (fst (and_then m f))"
  by (auto simp: trace_and_then split: sum.split)

lemma within_sys: "within root ss \<Longrightarrow> within root (fst (sys e c p w ss))"
  using sys_steps [of e c p w ss] by auto

lemma within_mono: "within root ss \<Longrightarrow> prefix root' root \<Longrightarrow> within root' ss"
  unfolding within_def by (meson prefix_order.trans)

lemma within_lock: "within dir (fst (lock_set e dir))"
  unfolding lock_set_def by (intro within_and_then within_sys) (simp_all add: within_def)

lemma within_save_one: "within dir (fst (save_one_to e dir c))"
  using save_one_steps [of e dir c] by (auto simp: within_def temp_path_def final_path_def)

lemma within_save_conns: "within dir (fst (save_conns e dir cs))"
proof -
  have "within dir (fst (save_each e dir cs))"
    by (induction cs) (auto intro: within_and_then within_save_one)
  then show ?thesis unfolding save_conns_def by (intro within_and_then within_sys) (simp_all add: within_def)
qed

lemma within_write: "prefix root p \<Longrightarrow> within root (fst (write_file e p s w))"
  unfolding write_file_def by (rule within_sys) (simp add: within_def)

lemma within_load: "within dir (fst (load_conns e d dir cs))"
proof (induction cs)
  case (Cons c cs)
  have "within dir (fst (load_one e d dir c))"
    by (auto simp: load_one_def within_def split: option.split)
  with Cons show ?case by (auto intro: within_and_then)
qed simp

lemma within_save:
  "branch_key b = Some k \<Longrightarrow> within [k] (fst (save_snapshot e b cs))"
  unfolding save_snapshot_def ensure_gitignored_def unless_def db_dir_def touch_def branch_root_def Let_def
  by (auto intro!: within_and_then within_sys within_mono [OF within_lock] within_mono [OF within_save_conns]
      split: option.split simp: within_def [of _ "[_]"])

text \<open>The commands on a project, and the ones that leave a branch's dumps alone.\<close>

datatype snap_op =
    SaveBranch string "conn list"
  | LoadBranch string "conn list"
  | RemoveBranch string
  | SaveNamed string string string string "conn list"
  | LoadNamed string string "conn list"
  | RemoveNamed string string
  | SetLive string

fun op_steps :: "snap_env \<Rightarrow> disk \<Rightarrow> snap_op \<Rightarrow> snap_step list" where
  "op_steps e d (SaveBranch b cs) = fst (save_snapshot e b cs)"
| "op_steps e d (LoadBranch b cs) = fst (load_snapshot e d b cs)"
| "op_steps e d (RemoveBranch b) = fst (remove_branch e b)"
| "op_steps e d (SaveNamed i n h u cs) = fst (save_named_undoing e i n h u cs)"
| "op_steps e d (LoadNamed i n cs) = fst (load_named e d i n cs)"
| "op_steps e d (RemoveNamed i n) = fst (remove_named e i n)"
| "op_steps e d (SetLive b) = fst (set_last_live e b)"

fun spares :: "string \<Rightarrow> snap_op \<Rightarrow> bool" where
  "spares b (SaveBranch b' cs) \<longleftrightarrow> b' \<noteq> b"
| "spares b (RemoveBranch b') \<longleftrightarrow> b' \<noteq> b"
| "spares b op \<longleftrightarrow> True"

fun run_ops :: "(snap_env \<times> int \<times> snap_op) list \<Rightarrow> disk \<Rightarrow> disk" where
  "run_ops [] d = d"
| "run_ops ((e, now, op) # ops) d = run_ops ops (run_steps now (op_steps e d op) d)"

text \<open>A path of another branch, of a savepoint, or of a lock is no path to a dump of the branch.\<close>

definition misses :: "string list \<Rightarrow> snap_step list \<Rightarrow> bool" where
  "misses q ss \<longleftrightarrow> (\<forall>s \<in> set ss. \<forall>p \<in> set (step_paths s). \<not> prefix p q)"

lemma misses_simps [simp]: "misses q []" "misses q (ss @ ts) \<longleftrightarrow> misses q ss \<and> misses q ts"
  by (auto simp: misses_def)

lemma misses_and_then:
  "misses q (fst m) \<Longrightarrow> (\<And>x. snd m = Inr x \<Longrightarrow> misses q (fst (f x))) \<Longrightarrow> misses q (fst (and_then m f))"
  by (auto simp: trace_and_then split: sum.split)

lemma misses_sys: "misses q ss \<Longrightarrow> misses q (fst (sys e c p w ss))"
  using sys_steps [of e c p w ss] by auto

lemma within_misses: "within root ss \<Longrightarrow> \<not> prefix root q \<Longrightarrow> misses q ss"
  unfolding within_def misses_def by (meson prefix_order.trans)

lemma misses_load: "misses q (fst (load_conns e d dir cs))"
proof (induction cs)
  case (Cons c cs)
  have "misses q (fst (load_one e d dir c))"
    by (auto simp: load_one_def misses_def split: option.split)
  with Cons show ?case by (auto intro: misses_and_then)
qed simp

lemma misses_lock: "\<not> prefix (dir @ [''.set.lock'']) q \<Longrightarrow> misses q (fst (lock_set e dir))"
  unfolding lock_set_def by (intro misses_and_then misses_sys) (simp_all add: misses_def)

lemma spared_dump:
  assumes "spares b op" and "branch_key b = Some k" and "b \<noteq> ''.last-live-branch''"
    and q: "q = [k, ''db''] \<or> q = [k, ''db'', f] \<and> f \<noteq> ''.set.lock''"
  shows "misses q (op_steps e d op)"
proof -
  have other: "misses q ss" if "within [k'] ss" "k' \<noteq> k" for k' ss
    by (rule within_misses [OF that(1)]) (use that(2) q in auto)
  have savepoint: "misses q ss" if "within (ik # ''snapshots'' # r) ss" for ik r ss
    by (rule within_misses [OF that]) (use q in auto)
  have lock: "misses q (fst (lock_set e dir))" if "length dir \<ge> 2" for dir
    by (rule misses_lock) (use q that in \<open>auto simp: prefix_def append_eq_Cons_conv\<close>)
  show ?thesis
  proof (cases op)
    case (SaveBranch b' cs)
    show ?thesis
    proof (cases "branch_key b'")
      case None
      then show ?thesis
        by (simp add: SaveBranch save_snapshot_def db_dir_def ensure_gitignored_def unless_def split: option.split)
    next
      case (Some k')
      with SaveBranch assms(1,2) have "k' \<noteq> k" using branch_key_inj by auto
      with within_save [OF Some, of e cs] SaveBranch show ?thesis by (auto intro: other)
    qed
  next
    case (LoadBranch b' cs)
    then show ?thesis
      by (auto simp: load_snapshot_def db_dir_def intro!: misses_and_then lock misses_load split: option.split)
  next
    case (RemoveBranch b')
    show ?thesis
    proof (cases "branch_key b'")
      case (Some k')
      with RemoveBranch assms(1,2) have "k' \<noteq> k" using branch_key_inj by auto
      moreover have "within [k'] (fst (remove_branch e b'))"
        unfolding remove_branch_def branch_root_def Some
        by (simp, rule within_sys) (simp add: within_def)
      ultimately show ?thesis using RemoveBranch by (auto intro: other)
    qed (simp add: RemoveBranch remove_branch_def branch_root_def)
  next
    case (SaveNamed i n h u cs)
    have "within root (fst (save_named_undoing e i n h u cs))" if "named_root i n = Some root" for root
      unfolding save_named_undoing_def ensure_gitignored_def unless_def that option.case
      by (intro within_and_then within_mono [OF within_lock] within_mono [OF within_save_conns] within_write)
         (auto intro: within_write split: option.split)
    then show ?thesis
      using SaveNamed by (cases "named_root i n")
        (auto simp: named_root_def bind_eq_Some_conv save_named_undoing_def ensure_gitignored_def unless_def
          intro: savepoint split: option.split)
  next
    case (LoadNamed i n cs)
    then show ?thesis
      by (auto simp: load_named_def named_db_dir_def named_root_def bind_eq_Some_conv
          intro!: misses_and_then lock misses_load split: option.split)
  next
    case (RemoveNamed i n)
    show ?thesis
    proof (cases "named_root i n")
      case (Some root)
      then obtain ik nk where "root = [ik, ''snapshots'', nk]"
        by (auto simp: named_root_def bind_eq_Some_conv)
      moreover have "within root (fst (sys e RemoveTree root RemoveError [DeleteTree root]))"
        by (rule within_sys) (simp add: within_def)
      ultimately show ?thesis using savepoint RemoveNamed Some by (simp add: remove_named_def)
    qed (simp add: RemoveNamed remove_named_def)
  next
    case (SetLive b')
    have "k \<noteq> ''.last-live-branch''"
    proof
      assume "k = ''.last-live-branch''"
      moreover have "path_unescape ''.last-live-branch'' = Some ''.last-live-branch''" by simp
      moreover have "path_unescape k = Some b" using assms(2) by (simp add: branch_key_Some)
      ultimately show False using assms(3) by simp
    qed
    then have "misses q (fst (set_last_live e b'))"
      unfolding set_last_live_def write_file_def
      by (intro misses_and_then misses_sys) (use q in \<open>auto simp: misses_def\<close>)
    with SetLive show ?thesis by simp
  qed
qed

lemma content_run_misses: "misses q ss \<Longrightarrow> content_at (run_steps now ss d) q = content_at d q"
  by (rule content_frame_run) (simp add: misses_def)

lemma dir_frame:
  assumes "\<forall>p \<in> set (step_paths s). \<not> prefix p q" and "is_dir d q"
  shows "is_dir (apply_step now s d) q"
proof -
  have stamp: "is_dir (stamp now p d) q" if "is_dir d q" for p d
    using that by (auto simp: stamp_def is_dir_def)
  have enter: "is_dir (enter now p n d) q" if "is_dir d q" "p \<noteq> q \<or> n = Directory now" for p n d
    using that stamp [of d "butlast p"] by (auto simp: enter_def is_dir_def)
  have leave: "is_dir (leave now p d) q" if "is_dir d q" "p \<noteq> q" for p d
    unfolding leave_def using that by (intro stamp) (simp add: is_dir_def)
  show ?thesis
  proof (cases s)
    case (MakeDir p)
    have "is_dir (fold (\<lambda>q d. if map_of d q = None then enter now q (Directory now) d else d) ps d) q" for ps
      using assms(2) by (induction ps arbitrary: d) (auto intro: enter)
    with MakeDir show ?thesis by simp
  next
    case (DeleteTree p)
    have "map_of (filter (\<lambda>(q, _). \<not> prefix p q) d) q = map_of d q"
      using assms(1) DeleteTree by (induction d) auto
    with assms(2) have "is_dir (filter (\<lambda>(q, _). \<not> prefix p q) d) q" by (simp add: is_dir_def)
    then have "is_dir (stamp now (butlast p) (filter (\<lambda>(q, _). \<not> prefix p q) d)) q" by (rule stamp)
    with DeleteTree show ?thesis by simp
  next
    case (Append p t)
    have "is_dir (put p n d) q" if "p \<noteq> q" for n using that assms(2) by (simp add: is_dir_def)
    with Append assms show ?thesis by (auto split: option.split)
  next
    case (Truncate p)
    have "is_dir (put p (Content []) d) q" if "p \<noteq> q" using that assms(2) by (simp add: is_dir_def)
    with Truncate assms show ?thesis by (auto intro: enter)
  next
    case (Move a b)
    with assms show ?thesis by (auto intro!: enter leave split: option.split)
  qed (use assms in \<open>auto intro: enter leave\<close>)
qed

lemma dir_run_misses: "misses q ss \<Longrightarrow> is_dir d q \<Longrightarrow> is_dir (run_steps now ss d) q"
  by (induction ss arbitrary: d) (auto simp: misses_def dir_frame)

lemma made_dir:
  assumes "content_at d p = None"
  shows "is_dir (apply_step now (MakeDir p) d) p"
proof -
  let ?mk = "\<lambda>q d. if map_of d q = None then enter now q (Directory now) d else d"
  obtain qs where qs: "prefixes p = qs @ [p]" by (metis prefixes_snoc prefixes.simps(1) append_Nil rev_cases)
  define d1 where "d1 = fold ?mk qs d"
  have "content_at (fold ?mk qs d) p = content_at d p"
    by (induction qs arbitrary: d) (auto simp: content_enter_dir)
  with assms have "content_at d1 p = None" by (simp add: d1_def)
  then have "is_dir (?mk p d1) p"
    by (auto simp: enter_def is_dir_def content_at_def split: option.splits node.splits)
  moreover have "apply_step now (MakeDir p) d = ?mk p d1"
    unfolding apply_step.simps qs d1_def fold_append comp_def by simp
  ultimately show ?thesis by simp
qed

lemma save_each_ok:
  assumes "snd (save_each e dir cs) = Inr u" and "distinct (map conn_file cs)"
    and "\<forall>c \<in> set cs. \<not> prefix ''.'' (conn_file c)" and "c \<in> set cs"
  shows "content_at (run_steps now (fst (save_each e dir cs)) d) (final_path dir c) = Some (dump_of c)"
  using assms
proof (induction cs arbitrary: d)
  case (Cons x cs)
  from Cons.prems(1) obtain v where ok: "snd (save_one_to e dir x) = Inr v" "snd (save_each e dir cs) = Inr u"
    by (auto simp: ok_and_then)
  have steps: "fst (save_each e dir (x # cs)) = fst (save_one_to e dir x) @ fst (save_each e dir cs)"
    using ok(1) by (simp add: trace_and_then)
  define d1 where "d1 = run_steps now (fst (save_one_to e dir x)) d"
  show ?case
  proof (cases "c = x")
    case True
    have plain: "\<not> dotted (final_path dir x)" using Cons.prems(3) by (simp add: dotted_def final_path_def)
    define w where "w = TempFile (temp_path e dir x) # map (Append (temp_path e dir x)) (cn_chunks x)"
    have "fst (save_one_to e dir x) = w @ [Move (temp_path e dir x) (final_path dir x)]"
      using save_one_ok [OF ok(1)] by (simp add: w_def)
    moreover have "content_at (run_steps now w d) (temp_path e dir x) = Some (dump_of x)"
      unfolding w_def dump_of_def by (rule dump_written)
    moreover have "final_path dir x \<noteq> temp_path e dir x" using plain by auto
    ultimately have d1: "content_at d1 (final_path dir x) = Some (dump_of x)" by (simp add: d1_def)
    have "kept dir cs d1 (run_steps now (take (length (fst (save_each e dir cs))) (fst (save_each e dir cs))) d1)"
      using careful_save_each [of dir cs e] unfolding careful_def by blast
    then have "kept dir cs d1 (run_steps now (fst (save_each e dir cs)) d1)" by simp
    moreover have "\<forall>c \<in> set cs. final_path dir c \<noteq> final_path dir x"
      using Cons.prems(2) by (auto simp: final_path_def image_iff)
    ultimately have "content_at (run_steps now (fst (save_each e dir cs)) d1) (final_path dir x) = content_at d1 (final_path dir x)"
      using plain unfolding kept_def by metis
    with d1 steps True show ?thesis by (simp add: d1_def)
  next
    case False
    with Cons.prems have "c \<in> set cs" by simp
    with Cons.IH [OF ok(2)] Cons.prems(2,3) steps show ?thesis by simp
  qed
qed simp

lemma save_dumps:
  assumes "snd (save_snapshot e b cs) = Inr u"
  shows "\<forall>c \<in> set cs. cn_dump_error c = None"
proof -
  have "\<forall>c \<in> set cs. cn_dump_error c = None" if "snd (save_each e dir cs) = Inr v" for dir v
    using that by (induction cs) (auto simp: ok_and_then accepted_def dest: save_one_ok)
  with assms show ?thesis
    by (auto simp: save_snapshot_def ok_and_then save_conns_def split: option.splits)
qed

text \<open>The restores among the steps of an operation.\<close>

fun restored :: "snap_step list \<Rightarrow> (string \<times> string) list" where
  "restored [] = []"
| "restored (Restores c s # ss) = (c, s) # restored ss"
| "restored (_ # ss) = restored ss"

lemma restored_append [simp]: "restored (ss @ ts) = restored ss @ restored ts"
  by (induction ss rule: restored.induct) auto

lemma load_conns_ok:
  assumes "\<forall>sc p. se_fails e sc p = None" and "\<forall>c \<in> set cs. content_at d (final_path dir c) = Some (bytes c)"
    and "\<forall>c \<in> set cs. cn_restore c (bytes c) = None"
  shows "snd (load_conns e d dir cs) = Inr () \<and>
    restored (fst (load_conns e d dir cs)) = map (\<lambda>c. (cn_name c, bytes c)) cs"
  using assms(2,3)
  by (induction cs) (auto simp: load_one_def assms(1) and_then_ok)

lemma spared_run:
  assumes "\<forall>(e, now, op) \<in> set ops. spares b op" and "branch_key b = Some k" and "b \<noteq> ''.last-live-branch''"
  shows "(is_dir d [k, ''db''] \<longrightarrow> is_dir (run_ops ops d) [k, ''db'']) \<and>
    (f \<noteq> ''.set.lock'' \<longrightarrow> content_at (run_ops ops d) [k, ''db'', f] = content_at d [k, ''db'', f])"
  using assms(1)
proof (induction ops d rule: run_ops.induct)
  case (2 e now op ops d)
  let ?d = "run_steps now (op_steps e d op) d"
  have sp: "spares b op" and rest: "\<forall>(e, now, op) \<in> set ops. spares b op" using "2.prems" by auto
  have "misses [k, ''db''] (op_steps e d op)"
    by (rule spared_dump [OF sp assms(2,3), where f = "[]"]) simp
  then have "is_dir d [k, ''db''] \<longrightarrow> is_dir ?d [k, ''db'']" by (blast intro: dir_run_misses)
  moreover have "content_at ?d [k, ''db'', f] = content_at d [k, ''db'', f]" if "f \<noteq> ''.set.lock''"
    by (rule content_run_misses, rule spared_dump [OF sp assms(2,3), where f = f]) (use that in simp)
  ultimately show ?case using "2.IH" [OF rest] by simp
qed simp

lemma saved_disk:
  assumes "snd (save_snapshot e b cs) = Inr u" and "branch_key b = Some k"
    and "distinct (map conn_file cs)" and "\<forall>c \<in> set cs. \<not> prefix ''.'' (conn_file c)"
    and "content_at d [k, ''db''] = None"
  shows "is_dir (run_steps now (fst (save_snapshot e b cs)) d) [k, ''db''] \<and>
    (\<forall>c \<in> set cs. content_at (run_steps now (fst (save_snapshot e b cs)) d) [k, ''db'', conn_file c] = Some (dump_of c))"
proof -
  let ?dir = "[k, ''db'']"
  have dir: "db_dir b = Some ?dir" by (simp add: db_dir_def assms(2))
  from assms(1) obtain v w where ok: "snd (ensure_gitignored e) = Inr v" "snd (lock_set e ?dir) = Inr ()"
      "snd (sys e Mkdir ?dir MkdirFailed [MakeDir ?dir]) = Inr ()" "snd (save_each e ?dir cs) = Inr w"
    by (auto simp: save_snapshot_def dir ok_and_then save_conns_def)
  define l where "l = fst (lock_set e ?dir)"
  define m where "m = fst (save_each e ?dir cs)"
  define t where "t = fst (touch e b)"
  have ign: "fst (ensure_gitignored e) = []" by (simp add: ensure_gitignored_def unless_def split: option.split)
  have mk: "fst (sys e Mkdir ?dir MkdirFailed [MakeDir ?dir]) = [MakeDir ?dir]"
    using ok(3) by (simp add: sys_none)
  have steps: "fst (save_snapshot e b cs) = l @ [MakeDir ?dir] @ m @ t"
    using ok by (simp add: save_snapshot_def dir trace_and_then result_and_then save_conns_def ign mk l_def m_def t_def
        del: sys_ok)
  have quiet: "content_at (run_steps now l d) p = content_at d p" if "\<not> dotted p" for p
  proof -
    have "\<forall>s \<in> set l. quiet_step s"
      using ok(2) by (auto simp: l_def lock_set_def ok_and_then sys_none trace_and_then dotted_def)
    with that show ?thesis by (rule quiet_run [rotated])
  qed
  define d1 where "d1 = apply_step now (MakeDir ?dir) (run_steps now l d)"
  have "content_at (run_steps now l d) ?dir = None" using quiet [of ?dir] assms(5) by (simp add: dotted_def)
  then have dir1: "is_dir d1 ?dir" unfolding d1_def by (rule made_dir)
  have each: "misses ?dir m"
    unfolding m_def
  proof (induction cs)
    case (Cons c cs)
    have "misses ?dir (fst (save_one_to e ?dir c))"
      using save_one_steps [of e ?dir c] by (auto simp: misses_def temp_path_def final_path_def)
    with Cons show ?case by (auto intro: misses_and_then)
  qed simp
  have touch: "misses ?dir t" "\<forall>f. misses [k, ''db'', f] t"
    by (auto simp: t_def touch_def branch_root_def assms(2) Let_def misses_def sys_def trace_and_then
        split: option.splits)
  have run: "run_steps now (fst (save_snapshot e b cs)) d = run_steps now t (run_steps now m d1)"
    by (simp add: steps d1_def)
  have "is_dir (run_steps now t (run_steps now m d1)) ?dir"
    by (intro dir_run_misses touch each dir1)
  moreover have "content_at (run_steps now t (run_steps now m d1)) [k, ''db'', conn_file c] = Some (dump_of c)"
    if "c \<in> set cs" for c
    using save_each_ok [OF ok(4) assms(3,4) that, of now d1] content_run_misses touch(2)
    by (simp add: m_def final_path_def)
  ultimately show ?thesis by (simp add: run)
qed

text \<open>What was saved for a branch is what is restored for it. After a save that succeeded, and
  after any commands that neither save nor remove this branch, such as saves and removals of other
  branches, savepoints of this very branch taken and deleted, and restores, successful or failed,
  restoring the branch hands each store exactly the bytes it was dumped as.\<close>

theorem saved_snapshot_is_restored:
  assumes "snd (save_snapshot e b cs) = Inr u"
    and "distinct (map conn_file cs)" and "\<forall>c \<in> set cs. \<not> prefix ''.'' (conn_file c)"
    and "b \<noteq> ''.last-live-branch''" and "content_at d [path_escape b, ''db''] = None"
    and "\<forall>(e, now, op) \<in> set ops. spares b op"
    and "\<forall>sc p. se_fails e' sc p = None" and "\<forall>c \<in> set cs. cn_restore c (dump_of c) = None"
  shows "snd (load_snapshot e' (run_ops ops (run_steps now (fst (save_snapshot e b cs)) d)) b cs) = Inr ()
    \<and> restored (fst (load_snapshot e' (run_ops ops (run_steps now (fst (save_snapshot e b cs)) d)) b cs))
        = map (\<lambda>c. (cn_name c, dump_of c)) cs"
proof -
  let ?d = "run_ops ops (run_steps now (fst (save_snapshot e b cs)) d)"
  from assms(1) obtain k where k: "branch_key b = Some k"
    by (cases "branch_key b") (auto simp: save_snapshot_def db_dir_def result_and_then split: sum.splits)
  then have "k = path_escape b" by (simp add: branch_key_Some)
  with assms(5) have d: "content_at d [k, ''db''] = None" by simp
  note saved = saved_disk [OF assms(1) k assms(2,3) d, of now]
  have plain: "conn_file c \<noteq> ''.set.lock''" if "c \<in> set cs" for c using assms(3) that by auto
  note spared = spared_run [OF assms(6) k assms(4), of "run_steps now (fst (save_snapshot e b cs)) d"]
  have "is_dir ?d [k, ''db'']" using saved spared by blast
  then have has: "has_branch ?d b" by (simp add: has_branch_def db_dir_def k)
  have "\<forall>c \<in> set cs. content_at ?d (final_path [k, ''db''] c) = Some (dump_of c)"
    using saved spared plain by (auto simp: final_path_def)
  from load_conns_ok [OF assms(7) this assms(8)] have load:
    "snd (load_conns e' ?d [k, ''db''] cs) = Inr ()"
    "restored (fst (load_conns e' ?d [k, ''db''] cs)) = map (\<lambda>c. (cn_name c, dump_of c)) cs" by auto
  have "lock_set e' [k, ''db''] = ([MakeDir [k, ''db''], CreateFile [k, ''db'', ''.set.lock'']], Inr ())"
    by (simp add: lock_set_def sys_none assms(7) and_then_ok emit_all_def)
  with load has show ?thesis
    by (simp add: load_snapshot_def db_dir_def k and_then_ok)
qed

section \<open>Eviction\<close>

lemma set_map_filter: "set (List.map_filter f xs) = {y. \<exists>x \<in> set xs. f x = Some y}"
  by (induction xs) (auto simp: List.map_filter_simps split: option.splits)

interpretation newest_first: comparison "\<lambda>a b :: string \<times> int. snd b - snd a"
  by unfold_locales simp_all

lemma drop_branches_ok:
  assumes "snd (drop_branches e done bs) = Inr dropped" and "\<forall>b \<in> set bs. branch_root b = Some (root b)"
  shows "dropped = sort (done @ bs) \<and> fst (drop_branches e done bs) = map (\<lambda>b. DeleteTree (root b)) bs"
  using assms
proof (induction bs arbitrary: "done")
  case (Cons b bs)
  show ?case
  proof (cases "se_fails e RemoveTree (root b)")
    case None
    with Cons.prems(2) have r: "remove_branch e b = ([DeleteTree (root b)], Inr ())"
      by (simp add: remove_branch_def sys_none emit_all_def)
    with Cons.prems(1) have "snd (drop_branches e (done @ [b]) bs) = Inr dropped"
      by (simp add: result_and_then)
    from Cons.IH [OF this] Cons.prems(2) r show ?thesis by (simp add: trace_and_then)
  next
    case (Some m)
    with Cons.prems(2) have "snd (remove_branch e b) = Inl (RemoveError m)"
      by (simp add: remove_branch_def sys_def)
    with Cons.prems(1) show ?thesis by (cases "remove_branch e b") (auto simp: result_and_then)
  qed
qed simp

lemma with_age_iff: "(b, t) \<in> set (with_age d bs) \<longleftrightarrow>
    b \<in> set bs \<and> (\<exists>root. branch_root b = Some root \<and> mod_time d root = Some t)"
  by (force simp: with_age_def set_map_filter bind_eq_Some_conv)

text \<open>An eviction with a budget of at least one keeps the most recently saved branches. When
  there are more branches than the budget, exactly all but \<open>keep\<close> of the dated ones are dropped, every
  dropped branch was saved no later than every branch kept, and the only steps are the removals of the
  dropped ones; otherwise nothing is touched.\<close>

theorem eviction_keeps_the_most_recent:
  assumes "evict e d keep = (ss, Inr dropped)" and "branches e d = Inr bs" and "0 < keep"
    and "distinct bs"
  shows "set ss = (\<lambda>b. DeleteTree [path_escape b]) ` set dropped
    \<and> length dropped = (if int (length bs) \<le> keep then 0 else length (with_age d bs) - nat keep)
    \<and> set dropped \<subseteq> fst ` set (with_age d bs)
    \<and> (\<forall>(b, t) \<in> set (with_age d bs). \<forall>(c, u) \<in> set (with_age d bs).
         b \<in> set dropped \<longrightarrow> c \<notin> set dropped \<longrightarrow> t \<le> u)"
proof (cases "int (length bs) \<le> keep")
  case True
  with assms show ?thesis by (auto simp: evict_def pure_def)
next
  case False
  define aged where "aged = sort_slice (\<lambda>a b. snd a > snd b) (with_age d bs)"
  have lt: "(\<lambda>a b :: string \<times> int. snd a > snd b) = (\<lambda>a b. snd b - snd a < 0)" by auto
  have srt: "sorted_wrt (\<lambda>a b. snd b - snd a \<le> 0) aged"
    unfolding aged_def lt by (rule newest_first.sorted_sort_slice)
  have run: "drop_branches e [] (map fst (drop (nat keep) aged)) = (ss, Inr dropped)"
    using assms False by (simp add: evict_def Let_def aged_def)
  have aged_set: "set aged = set (with_age d bs)" by (simp add: aged_def)
  have roots: "\<forall>b \<in> set (map fst (drop (nat keep) aged)). branch_root b = Some [path_escape b]"
  proof
    fix b assume "b \<in> set (map fst (drop (nat keep) aged))"
    then obtain t where "(b, t) \<in> set (with_age d bs)" using aged_set by (auto dest: in_set_dropD)
    then show "branch_root b = Some [path_escape b]"
      by (auto simp: with_age_iff branch_root_def branch_key_Some)
  qed
  have d: "dropped = sort (map fst (drop (nat keep) aged))"
    and ss: "ss = map (\<lambda>b. DeleteTree [path_escape b]) (map fst (drop (nat keep) aged))"
    using drop_branches_ok [of e "[]" _ dropped, OF _ roots] run by auto
  have "distinct (map fst (with_age d bs))"
    using assms(4) by (induction bs) (auto simp: with_age_def List.map_filter_simps set_map_filter bind_eq_Some_conv split: option.split)
  then have dist: "distinct (map fst aged)"
    unfolding aged_def by (metis mset_map mset_sort_slice mset_eq_imp_distinct_iff)
  have newer: "t \<le> u" if "(b, t) \<in> set aged" "(c, u) \<in> set aged" "b \<in> set dropped" "c \<notin> set dropped" for b t c u
  proof -
    have split: "aged = take (nat keep) aged @ drop (nat keep) aged" by simp
    from that(3) obtain t' where t': "(b, t') \<in> set (drop (nat keep) aged)" by (auto simp: d)
    then have "(b, t') \<in> set aged" by (rule in_set_dropD)
    with dist that(1) have "t' = t" by (metis eq_key_imp_eq_value)
    moreover have "(c, u) \<in> set (take (nat keep) aged)"
      using that(2,4) split by (metis (no_types) Un_iff d fst_conv image_eqI list.set_map set_append set_sort)
    moreover have "\<forall>x \<in> set (take (nat keep) aged). \<forall>y \<in> set (drop (nat keep) aged). snd y - snd x \<le> 0"
      using srt split by (metis sorted_wrt_append)
    ultimately show ?thesis using t' by force
  qed
  have "set ss = (\<lambda>b. DeleteTree [path_escape b]) ` set dropped" by (auto simp: ss d)
  moreover have "length dropped = length (with_age d bs) - nat keep" by (simp add: d aged_def)
  moreover have "set dropped \<subseteq> fst ` set (with_age d bs)"
    using aged_set by (auto simp: d dest: in_set_dropD)
  moreover have "\<forall>(b, t) \<in> set (with_age d bs). \<forall>(c, u) \<in> set (with_age d bs).
      b \<in> set dropped \<longrightarrow> c \<notin> set dropped \<longrightarrow> t \<le> u"
    using newer aged_set by blast
  ultimately show ?thesis using False by simp
qed

section \<open>A save that fails half-way\<close>

lemma save_one_result:
  assumes "\<forall>sc p. se_fails e sc p = None"
  shows "accepted c \<Longrightarrow> snd (save_one_to e dir c) = Inr ()"
    and "cn_dump_error c = Some m \<Longrightarrow>
      save_one_to e dir c = (TempFile (temp_path e dir c) # map (Append (temp_path e dir c)) (cn_chunks c)
        @ [Delete (temp_path e dir c)], Inl (DumpFailed (cn_name c) m (cn_fallback_note c)))"
  by (simp_all add: save_one_to_def Let_def sys_none assms accepted_def and_then_def discard_def
      emit_all_def emit_def raise_def)

lemma save_each_stops:
  assumes "\<forall>x \<in> set as. snd (save_one_to e dir x) = Inr ()" and "save_one_to e dir c = (ss, Inl err)"
  shows "snd (save_each e dir as) = Inr () \<and>
    save_each e dir (as @ c # bs) = (fst (save_each e dir as) @ ss, Inl err)"
  using assms by (induction as) (auto simp: and_then_ok and_then_error)

lemma misses_save_each: "misses [k, ''db''] (fst (save_each e [k, ''db''] cs))"
proof (induction cs)
  case (Cons c cs)
  have "misses [k, ''db''] (fst (save_one_to e [k, ''db''] c))"
    using save_one_steps [of e "[k, ''db'']" c] by (auto simp: misses_def temp_path_def final_path_def)
  with Cons show ?case by (auto intro: misses_and_then)
qed simp

text \<open>A save that fails at one connection is not undone. The files of the connections before it
  are already the new dumps, the files of the others are still the old ones, and the branch counts as
  having a snapshot even when it had none: a later restore of it hands the stores dumps of two
  different moments, or fails on a file that was never written.\<close>

theorem failed_save_leaves_a_mixed_set:
  assumes "\<forall>sc p. se_fails e sc p = None" and "se_ignored e = None" and "branch_key b = Some k"
    and "distinct (map conn_file (as @ c # bs))" and "\<forall>x \<in> set (as @ c # bs). \<not> prefix ''.'' (conn_file x)"
    and "\<forall>x \<in> set as. accepted x" and "cn_dump_error c = Some m" and "content_at d [k, ''db''] = None"
  shows "snd (save_snapshot e b (as @ c # bs)) = Inl (DumpFailed (cn_name c) m (cn_fallback_note c))
    \<and> has_branch (run_steps now (fst (save_snapshot e b (as @ c # bs))) d) b
    \<and> (\<forall>x \<in> set as. content_at (run_steps now (fst (save_snapshot e b (as @ c # bs))) d) [k, ''db'', conn_file x] = Some (dump_of x))
    \<and> (\<forall>x \<in> set (c # bs). content_at (run_steps now (fst (save_snapshot e b (as @ c # bs))) d) [k, ''db'', conn_file x]
        = content_at d [k, ''db'', conn_file x])"
proof -
  let ?dir = "[k, ''db'']" and ?t = "temp_path e [k, ''db''] c"
  define w where "w = TempFile ?t # map (Append ?t) (cn_chunks c) @ [Delete ?t]"
  define v where "v = fst (save_each e ?dir as)"
  define l where "l = [MakeDir ?dir, CreateFile [k, ''db'', ''.set.lock''], MakeDir ?dir]"
  have saved: "\<forall>x \<in> set as. snd (save_one_to e ?dir x) = Inr ()"
    using save_one_result(1) [OF assms(1)] assms(6) by blast
  have "save_one_to e ?dir c = (w, Inl (DumpFailed (cn_name c) m (cn_fallback_note c)))"
    using save_one_result(2) [OF assms(1,7)] by (simp add: w_def)
  note each = save_each_stops [OF saved this, of bs]
  have run: "save_snapshot e b (as @ c # bs) = (l @ v @ w, Inl (DumpFailed (cn_name c) m (cn_fallback_note c)))"
    using each by (simp add: save_snapshot_def ensure_gitignored_def unless_def assms(2,3) db_dir_def lock_set_def
        sys_none assms(1) save_conns_def and_then_def emit_all_def pure_def l_def v_def)
  define d1 where "d1 = run_steps now l d"
  have quiet_l: "content_at d1 p = content_at d p" if "\<not> dotted p" for p
    unfolding d1_def by (rule quiet_run [OF _ that]) (simp add: l_def dotted_def)
  have quiet_w: "content_at (run_steps now w d') p = content_at d' p" if "\<not> dotted p" for p d'
    by (rule quiet_run [OF _ that]) (auto simp: w_def)
  have plain: "\<not> dotted [k, ''db'', conn_file x]" if "x \<in> set (as @ c # bs)" for x
    using assms(5) that by (auto simp: dotted_def)
  have d': "run_steps now (fst (save_snapshot e b (as @ c # bs))) d = run_steps now w (run_steps now v d1)"
    by (simp add: run d1_def)
  have "content_at (run_steps now [MakeDir ?dir, CreateFile [k, ''db'', ''.set.lock'']] d) ?dir = content_at d ?dir"
    by (rule quiet_run) (simp_all add: dotted_def)
  with assms(8) have "content_at (run_steps now [MakeDir ?dir, CreateFile [k, ''db'', ''.set.lock'']] d) ?dir = None"
    by (simp only:)
  from made_dir [OF this, of now] have "is_dir d1 ?dir" by (simp only: d1_def l_def run_Cons run_Nil)
  moreover have "misses ?dir v" "misses ?dir w"
    by (simp add: v_def misses_save_each) (auto simp: w_def misses_def temp_path_def)
  ultimately have "is_dir (run_steps now w (run_steps now v d1)) ?dir" by (blast intro: dir_run_misses)
  then have has: "has_branch (run_steps now (fst (save_snapshot e b (as @ c # bs))) d) b"
    by (simp add: has_branch_def db_dir_def assms(3) d')
  have new: "content_at (run_steps now w (run_steps now v d1)) [k, ''db'', conn_file x] = Some (dump_of x)"
    if "x \<in> set as" for x
  proof -
    have "content_at (run_steps now v d1) (final_path ?dir x) = Some (dump_of x)"
      unfolding v_def by (rule save_each_ok [OF conjunct1 [OF each]]) (use assms(4,5) that in auto)
    with quiet_w [OF plain, of x] that show ?thesis by (simp add: final_path_def)
  qed
  have old: "content_at (run_steps now w (run_steps now v d1)) [k, ''db'', conn_file x] = content_at d [k, ''db'', conn_file x]"
    if "x \<in> set (c # bs)" for x
  proof -
    have "kept ?dir as d1 (run_steps now (take (length v) v) d1)"
      using careful_save_each [of ?dir as e] unfolding careful_def v_def by blast
    moreover have "\<forall>y \<in> set as. final_path ?dir y \<noteq> [k, ''db'', conn_file x]"
    proof
      fix y assume "y \<in> set as"
      then have "conn_file y \<in> conn_file ` set as" by (rule imageI)
      moreover have "conn_file x \<in> conn_file ` set (c # bs)" using that by (rule imageI)
      moreover have "conn_file ` set as \<inter> conn_file ` set (c # bs) = {}" using assms(4) by simp
      ultimately have "conn_file y \<noteq> conn_file x" by (metis disjoint_iff)
      then show "final_path ?dir y \<noteq> [k, ''db'', conn_file x]" by (simp add: final_path_def)
    qed
    ultimately have "content_at (run_steps now v d1) [k, ''db'', conn_file x] = content_at d1 [k, ''db'', conn_file x]"
      using plain [of x] that unfolding kept_def by (metis Un_iff set_append take_all_iff order_refl)
    moreover have "x \<in> set (as @ c # bs)" using that by auto
    ultimately show ?thesis by (simp only: quiet_w [OF plain] quiet_l [OF plain])
  qed
  from new have "\<forall>x \<in> set as. content_at (run_steps now w (run_steps now v d1)) [k, ''db'', conn_file x] = Some (dump_of x)"
    by blast
  moreover from old have "\<forall>x \<in> set (c # bs). content_at (run_steps now w (run_steps now v d1)) [k, ''db'', conn_file x]
      = content_at d [k, ''db'', conn_file x]" by blast
  moreover have "snd (save_snapshot e b (as @ c # bs)) = Inl (DumpFailed (cn_name c) m (cn_fallback_note c))"
    by (simp add: run)
  ultimately show ?thesis using has unfolding d' by blast
qed

section \<open>Savepoints and the schema they belong to\<close>

text \<open>Restoring a savepoint is guarded by its schema. Without \<^verbatim>\<open>--force\<close> a store is written only
  when the pinned schema and the console's answer could both be read, and then only when one of them is
  not recorded, they agree, or the savepoint records the current schema as the one it is the way back
  from.\<close>

theorem activation_is_guarded:
  assumes "restored (fst (activate_savepoint e d i n current force conns)) \<noteq> []"
  shows "has_named d i n \<and> (\<not> force \<longrightarrow> (\<exists>pinned cur. named_schema_hash e d i n = Inr pinned \<and> current = Inr cur
    \<and> (pinned = [] \<or> cur = [] \<or> pinned = cur \<or> named_undoes_hash e d i n = Inr cur)))"
proof -
  have named: "has_named d i n" using assms by (auto simp: activate_savepoint_def split: if_splits)
  show ?thesis
  proof (cases force)
    case False
    with assms named obtain pinned cur where "named_schema_hash e d i n = Inr pinned" "current = Inr cur"
      by (cases "named_schema_hash e d i n"; cases current) (auto simp: activate_savepoint_def)
    with assms named False show ?thesis
      by (auto simp: activate_savepoint_def value_of_def is_return_trip_def schema_guard_blocks_def Let_def
          split: if_splits sum.splits)
  qed (use named in simp)
qed

lemma write_steps: "se_fails e WriteFile p = None \<Longrightarrow> write_file e p s w = ([Truncate p, Append p s], Inr ())"
  by (simp add: write_file_def sys_none emit_all_def)

lemma written: "content_at (run_steps now [Truncate p, Append p s] d) p = Some s"
proof -
  have "content_at (apply_step now (Truncate p) d) p = Some []"
    by (simp add: content_at_def [of "put p (Content []) d"])
  then show ?thesis using run_appends [of "apply_step now (Truncate p) d" p "[]" now "[s]"] by simp
qed

lemma misses_named_pin:
  assumes "named_root i n = Some root"
  shows "misses (root @ [''undoes'']) (fst (save_named e i n h cs))"
  unfolding save_named_def save_named_undoing_def ensure_gitignored_def unless_def assms option.case
  by (intro misses_and_then within_misses [OF within_lock] within_misses [OF within_save_conns]
      within_misses [OF within_write [OF prefix_order.refl]])
    (auto split: option.split)

text \<open>A line written is read back.\<close>

lemma trim_space_line:
  assumes "u \<noteq> []" and "\<forall>c \<in> set u. visible c"
  shows "trim_space (u @ [nl]) = u"
proof -
  have u: "visible (hd u)" "visible (last u)" using assms by auto
  have "trim_left (u @ [nl]) = u @ [nl]" by (rule trim_left_id) (use u assms(1) in simp)
  moreover have "rev (u @ [nl]) = nl # rev u" by simp
  moreover have "strip_leading (map rev space_encodings) (nl # rev u) = strip_leading (map rev space_encodings) (rev u)"
    by (subst strip_leading.simps) (simp add: space_encodings_def)
  moreover have "strip_leading (map rev space_encodings) (rev u) = rev u"
    using trim_right_id [of u] u by (simp add: trim_right_def rev_swap)
  ultimately show ?thesis by (simp add: trim_space_def trim_right_def)
qed

text \<open>Saving over a savepoint keeps what the old one undoes. A destructive sync records the schema
  its savepoint is the way back from; an ordinary save under the same name replaces the dumps and the
  pinned schema and leaves that record, so the new savepoint still claims to be the way back from the
  old change, and restoring it is let through on that schema whatever schema it was really taken at.\<close>

theorem overwritten_savepoint_keeps_what_it_undid:
  assumes "snd (save_named_undoing e i n h u cs) = Inr v" and "u \<noteq> []" and "\<forall>c \<in> set u. visible c"
    and "\<forall>sc p. se_fails e' sc p = None"
    and "d2 = run_steps now' (fst (save_named e i n h' cs')) (run_steps now (fst (save_named_undoing e i n h u cs)) d)"
  shows "named_undoes_hash e' d2 i n = Inr u
    \<and> (if has_named d2 i n
       then activate_savepoint e' d2 i n (Inr u) False conns
         = (fst (load_named e' d2 i n conns), wrap_error NotRestored (snd (load_named e' d2 i n conns)))
       else activate_savepoint e' d2 i n (Inr u) False conns = raise NoSuchSavepoint)"
proof -
  from assms(1) obtain root where root: "named_root i n = Some root"
    by (cases "named_root i n") (auto simp: save_named_undoing_def result_and_then split: sum.splits)
  let ?u = "root @ [''undoes'']" and ?s = "root @ [''schema'']"
  from assms(1,2) have ok: "se_fails e WriteFile ?u = None" "se_fails e WriteFile ?s = None"
    by (auto simp: save_named_undoing_def root ok_and_then write_file_def)
  define a where "a = fst (ensure_gitignored e) @ fst (lock_set e (root @ [''db''])) @ fst (save_conns e (root @ [''db'']) cs)"
  have "fst (save_named_undoing e i n h u cs) = a @ [Truncate ?u, Append ?u (u @ [nl])] @ [Truncate ?s, Append ?s (h @ [nl])]"
    using assms(1,2) by (auto simp: save_named_undoing_def root ok_and_then trace_and_then write_steps ok a_def)
  then have "content_at (run_steps now (fst (save_named_undoing e i n h u cs)) d) ?u
      = content_at (run_steps now [Truncate ?s, Append ?s (h @ [nl])]
          (run_steps now [Truncate ?u, Append ?u (u @ [nl])] (run_steps now a d))) ?u"
    by (simp only: run_append)
  also have "\<dots> = content_at (run_steps now [Truncate ?u, Append ?u (u @ [nl])] (run_steps now a d)) ?u"
    by (rule content_run_misses) (simp add: misses_def)
  also have "\<dots> = Some (u @ [nl])" by (rule written)
  finally have "content_at d2 ?u = Some (u @ [nl])"
    using content_run_misses [OF misses_named_pin [OF root]] assms(5) by simp
  moreover have "trim_space (u @ [nl]) = u" by (rule trim_space_line [OF assms(2,3)])
  ultimately have und: "named_undoes_hash e' d2 i n = Inr u"
    by (simp add: named_undoes_hash_def root read_pin_def assms(4))
  obtain p where pin: "named_schema_hash e' d2 i n = Inr p"
    by (simp add: named_schema_hash_def root read_pin_def assms(4))
  show ?thesis
    using assms(2) by (simp add: und activate_savepoint_def pin value_of_def is_return_trip_def Let_def)
qed

section \<open>Applications\<close>

definition calm_disk :: snap_env where
  "calm_disk = \<lparr>se_fails = (\<lambda>_ _. None), se_temp = ''42'', se_ignored = None\<rparr>"

definition users_conn :: conn where
  "users_conn = \<lparr>cn_name = ''users'', cn_ext = ''sql'', cn_chunks = [''CREATE TA'', ''BLE u;''], cn_dump_error = None,
     cn_restore = (\<lambda>_. None), cn_objects = None, cn_fallback_note = [], cn_require_objects = True\<rparr>"

definition cache_conn :: conn where
  "cache_conn = \<lparr>cn_name = ''cache'', cn_ext = ''gob'', cn_chunks = [''k=v''], cn_dump_error = None,
     cn_restore = (\<lambda>_. None), cn_objects = None, cn_fallback_note = [], cn_require_objects = False\<rparr>"

lemma calm [simp]: "se_fails calm_disk sc p = None" "se_ignored calm_disk = None"
  by (simp_all add: calm_disk_def)

lemma sample_accepted [simp]: "accepted users_conn" "accepted cache_conn"
proof -
  have "saw_object (cn_chunks users_conn)" by code_simp
  then show "accepted users_conn" by (simp add: accepted_def refuse_empty_def users_conn_def)
  show "accepted cache_conn" by (simp add: accepted_def refuse_empty_def cache_conn_def)
qed

lemma sample_files: "conn_file users_conn = ''users.sql''" "conn_file cache_conn = ''cache.gob''"
  by (simp_all add: conn_file_def users_conn_def cache_conn_def)

lemma sample_key: "branch_key ''feat/x'' = Some ''feat%2Fx''" "path_escape ''feat/x'' = ''feat%2Fx''"
  by code_simp+

lemma sample_save: "snd (save_snapshot calm_disk ''feat/x'' [users_conn, cache_conn]) = Inr ()"
proof -
  have "snd (save_one_to calm_disk dir users_conn) = Inr ()" "snd (save_one_to calm_disk dir cache_conn) = Inr ()" for dir
    by (auto intro: save_one_result(1))
  then show ?thesis
    by (simp add: save_snapshot_def ensure_gitignored_def unless_def db_dir_def sample_key lock_set_def save_conns_def
        touch_def branch_root_def ok_and_then Let_def)
qed

theorem snapshot_file_is_old_or_complete_witness:
  "let f = [''feat%2Fx'', ''db'', ''users.sql'']; d = [(f, Content ''old'')];
       ss = fst (save_snapshot calm_disk ''feat/x'' [users_conn, cache_conn])
   in content_at (run_steps 1 (take 5 ss) d) f = Some ''old'' \<or> content_at (run_steps 1 (take 5 ss) d) f = Some ''CREATE TABLE u;''"
proof -
  have dir: "db_dir ''feat/x'' = Some [''feat%2Fx'', ''db'']" by (simp add: db_dir_def sample_key)
  have plain: "\<not> dotted [''feat%2Fx'', ''db'', ''users.sql'']" by (simp add: dotted_def)
  have "dump_of users_conn = ''CREATE TABLE u;''" by (simp add: dump_of_def users_conn_def)
  with snapshot_file_is_old_or_complete [OF dir plain, of 1 5 calm_disk "[users_conn, cache_conn]"
      "[([''feat%2Fx'', ''db'', ''users.sql''], Content ''old'')]"]
  show ?thesis by (auto simp: Let_def final_path_def sample_files content_at_def [of "[(_, Content ''old'')]"])
qed

theorem saved_snapshot_is_restored_witness:
  "restored (fst (load_snapshot calm_disk (run_ops [(calm_disk, 2, SaveNamed ''feat/x'' ''a'' ''h'' [] [users_conn]),
       (calm_disk, 3, RemoveBranch ''main'')]
     (run_steps 1 (fst (save_snapshot calm_disk ''feat/x'' [users_conn, cache_conn])) [])) ''feat/x'' [users_conn, cache_conn]))
   = [(''users'', ''CREATE TABLE u;''), (''cache'', ''k=v'')]"
proof -
  have n: "map (\<lambda>c. (cn_name c, dump_of c)) [users_conn, cache_conn] = [(''users'', ''CREATE TABLE u;''), (''cache'', ''k=v'')]"
    by (simp add: dump_of_def users_conn_def cache_conn_def)
  have "restored (fst (load_snapshot calm_disk (run_ops [(calm_disk, 2, SaveNamed ''feat/x'' ''a'' ''h'' [] [users_conn]),
       (calm_disk, 3, RemoveBranch ''main'')]
     (run_steps 1 (fst (save_snapshot calm_disk ''feat/x'' [users_conn, cache_conn])) [])) ''feat/x'' [users_conn, cache_conn]))
    = map (\<lambda>c. (cn_name c, dump_of c)) [users_conn, cache_conn]"
    by (rule conjunct2 [OF saved_snapshot_is_restored [OF sample_save]])
      (auto simp: sample_files content_at_def, simp_all add: users_conn_def cache_conn_def)
  with n show ?thesis by simp
qed

definition sample_tree :: disk where
  "sample_tree = [([], Directory 9), ([''main''], Directory 5), ([''feat%2Fx''], Directory 8), ([''old''], Directory 2)]"

theorem eviction_keeps_the_most_recent_witness:
  "\<exists>ss. evict calm_disk sample_tree 1 = (ss, Inr [''main'', ''old'']) \<and> length [''main'', ''old''] = length (with_age sample_tree [''feat/x'', ''main'', ''old'']) - 1"
proof -
  have b: "branches calm_disk sample_tree = Inr [''feat/x'', ''main'', ''old'']" by code_simp
  have ev: "evict calm_disk sample_tree 1 = ([DeleteTree [''main''], DeleteTree [''old'']], Inr [''main'', ''old''])" by code_simp
  from eviction_keeps_the_most_recent [OF ev b] ev show ?thesis by simp
qed

theorem failed_save_leaves_a_mixed_set_witness:
  "let c = cache_conn\<lparr>cn_dump_error := Some ''pipe closed''\<rparr>;
       d = run_steps 1 (fst (save_snapshot calm_disk ''feat/x'' [users_conn, c])) []
   in has_branch d ''feat/x'' \<and> content_at d [''feat%2Fx'', ''db'', ''users.sql''] = Some ''CREATE TABLE u;''
      \<and> content_at d [''feat%2Fx'', ''db'', ''cache.gob''] = None"
proof -
  let ?c = "cache_conn\<lparr>cn_dump_error := Some ''pipe closed''\<rparr>"
  have f: "conn_file ?c = ''cache.gob''" by (simp add: conn_file_def cache_conn_def)
  have n: "dump_of users_conn = ''CREATE TABLE u;''" by (simp add: dump_of_def users_conn_def)
  have "\<forall>sc p. se_fails calm_disk sc p = None" by simp
  from failed_save_leaves_a_mixed_set [OF this _ sample_key(1), of "[users_conn]" ?c "[]" _ "[]" 1]
  show ?thesis by (simp add: Let_def f sample_files n content_at_def [of "[]"])
qed

definition savepoint_disk :: disk where
  "savepoint_disk = [([''i'', ''snapshots'', ''p'', ''db''], Directory 1),
     ([''i'', ''snapshots'', ''p'', ''db'', ''cache.gob''], Content ''k=v''),
     ([''i'', ''snapshots'', ''p'', ''schema''], Content (''h1'' @ [nl]))]"

lemma savepoint_named: "has_named savepoint_disk ''i'' ''p''" "named_schema_hash calm_disk savepoint_disk ''i'' ''p'' = Inr ''h1''"
    "named_undoes_hash calm_disk savepoint_disk ''i'' ''p'' = Inr []"
  by code_simp+

theorem activation_is_guarded_witness:
  "restored (fst (activate_savepoint calm_disk savepoint_disk ''i'' ''p'' (Inr ''h1'') False [cache_conn])) = [(''cache'', ''k=v'')]
   \<and> restored (fst (activate_savepoint calm_disk savepoint_disk ''i'' ''p'' (Inr ''h2'') False [cache_conn])) = []"
proof -
  have r: "restored (fst (activate_savepoint calm_disk savepoint_disk ''i'' ''p'' (Inr ''h1'') False [cache_conn])) = [(''cache'', ''k=v'')]"
    by code_simp
  have "restored (fst (activate_savepoint calm_disk savepoint_disk ''i'' ''p'' (Inr ''h2'') False [cache_conn])) = []"
    using activation_is_guarded [of calm_disk savepoint_disk "''i''" "''p''" "Inr ''h2''" False "[cache_conn]"]
    by (auto simp: savepoint_named)
  with r show ?thesis by blast
qed

theorem overwritten_savepoint_keeps_what_it_undid_witness:
  "named_undoes_hash calm_disk (run_steps 2 (fst (save_named calm_disk ''i'' ''p'' ''h9'' [cache_conn]))
     (run_steps 1 (fst (save_named_undoing calm_disk ''i'' ''p'' ''h1'' ''h2'' [cache_conn])) [])) ''i'' ''p'' = Inr ''h2''"
proof -
  have "snd (save_one_to calm_disk dir cache_conn) = Inr ()" for dir by (auto intro: save_one_result(1))
  moreover have "named_root ''i'' ''p'' = Some [''i'', ''snapshots'', ''p'']" by code_simp
  ultimately have "snd (save_named_undoing calm_disk ''i'' ''p'' ''h1'' ''h2'' [cache_conn]) = Inr ()"
    by (simp add: save_named_undoing_def ensure_gitignored_def unless_def lock_set_def save_conns_def ok_and_then
        write_file_def)
  from overwritten_savepoint_keeps_what_it_undid [OF this _ _ _ refl] show ?thesis by (simp add: visible_def)
qed

end
