(* ===== verification/StackSwitch.thy ===== *)
theory StackSwitch
  imports Reconcile Snapstore Plan
begin

text \<open>
  What \<^verbatim>\<open>stack build\<close> gives the branch switch and the lossy sync to work with
  (\<^verbatim>\<open>cmd/stack/reconcile.go\<close>, \<^verbatim>\<open>cmd/stack/targets.go\<close>, \<^verbatim>\<open>cmd/stack/build.go\<close>): the connections of the
  local stores, the compose services to stop and start, the snapshot before a destructive sync, and
  the world in which the effects of a switch happen, the disk of snapshots and the live stores.

  The compose client, the snapshotters of the stores, the lookup of a client program and the container
  route are parameters.
\<close>

section \<open>Services to stop and to start again\<close>

definition split_compose_lines :: "string \<Rightarrow> string list" where
  "split_compose_lines out = filter (\<lambda>s. s \<noteq> []) (map trim_space (split_on nl (trim_space out)))"

definition non_store_services :: "string list \<Rightarrow> string list \<Rightarrow> string list" where
  "non_store_services all store_names = filter (\<lambda>s. \<not> List.member store_names s) all"

record compose_ctl =
  cc_list_services :: "string + string list"
  cc_list_running :: "(string + string list) option"
  cc_stop :: "string list \<Rightarrow> string option"
  cc_run :: "string list \<Rightarrow> string option"

definition running_among :: "compose_ctl \<Rightarrow> string list \<Rightarrow> string + string list" where
  "running_among cc services =
     (case cc_list_running cc of
        None \<Rightarrow> Inr services
      | Some (Inl e) \<Rightarrow> Inl e
      | Some (Inr running) \<Rightarrow> Inr (filter (\<lambda>s. List.member running s) services))"

datatype ctl_effect = StoppedServices "string list" | Composed "string list"

datatype ctl_error = ListFailed string | StopFailed string | StartFailed string

definition start_args :: "string list \<Rightarrow> string list" where
  "start_args services = [''up'', ''-d'', ''--no-deps'', ''--no-recreate'', ''--no-build''] @ services"

text \<open>\<^verbatim>\<open>Quiesce\<close> and \<^verbatim>\<open>Resume\<close> share the list of what was stopped; each returns it.\<close>

definition quiesce :: "compose_ctl \<Rightarrow> string list \<Rightarrow> string list \<Rightarrow> (ctl_effect, ctl_error, string list) io" where
  "quiesce cc store_names quiesced =
     (case cc_list_services cc of
        Inl e \<Rightarrow> raise (ListFailed e)
      | Inr all \<Rightarrow>
          (let stop = non_store_services all store_names
           in if stop = [] then pure quiesced
              else (case running_among cc stop of
                      Inl e \<Rightarrow> raise (ListFailed e)
                    | Inr live \<Rightarrow>
                        perform (StoppedServices stop)
                          (case cc_stop cc stop of Some e \<Rightarrow> Inl (StopFailed e) | None \<Rightarrow> Inr live))))"

definition resume :: "compose_ctl \<Rightarrow> string list \<Rightarrow> (ctl_effect, ctl_error, unit) io" where
  "resume cc quiesced =
     (if quiesced = [] then pure ()
      else perform (Composed (start_args quiesced)) (outcome StartFailed (cc_run cc (start_args quiesced))))"

section \<open>Connections of the local stores\<close>

record target_spec =
  tg_connection :: string
  tg_dsn :: string

text \<open>A snapshotter dumps what a store holds and restores bytes into it.\<close>

record snapshotter =
  sn_dump :: "string \<Rightarrow> string list \<times> string option"
  sn_restore :: "string \<Rightarrow> string + string"
  sn_objects :: "string \<Rightarrow> (string + string list) option"

record snap_factory =
  fa_snapshotter :: "string \<Rightarrow> string + snapshotter"
  fa_ext :: "string \<Rightarrow> string"
  fa_look_path :: "string \<Rightarrow> bool"
  fa_in_container :: "string \<Rightarrow> snapshotter option \<times> string"
  fa_service :: "string \<Rightarrow> string"

definition client_bin_for :: "string \<Rightarrow> string" where
  "client_bin_for dsn =
     (if prefix ''postgres://'' dsn \<or> prefix ''postgresql://'' dsn then ''pg_dump''
      else if prefix ''mysql://'' dsn then ''mysqldump'' else [])"

definition host_has_client_for :: "snap_factory \<Rightarrow> string \<Rightarrow> bool" where
  "host_has_client_for f dsn = (client_bin_for dsn = [] \<or> fa_look_path f (client_bin_for dsn))"

text \<open>The snapshotter a target is dumped with, and the note on a declined fallback.\<close>

definition chosen_snapshotter :: "snap_factory \<Rightarrow> target_spec \<Rightarrow> string + snapshotter \<times> string" where
  "chosen_snapshotter f t =
     (case fa_snapshotter f (tg_connection t) of
        Inl e \<Rightarrow> Inl e
      | Inr sn \<Rightarrow>
          if host_has_client_for f (tg_dsn t) then Inr (sn, [])
          else (case fa_in_container f (tg_dsn t) of
                  (Some sn', _) \<Rightarrow> Inr (sn', [])
                | (None, why) \<Rightarrow> Inr (sn, if why = [] then []
                    else ''no '' @ client_bin_for (tg_dsn t)
                      @ '' on this machine either, and the dump cannot run inside a container: '' @ why)))"

definition conn_of :: "snap_factory \<Rightarrow> (string \<Rightarrow> string) \<Rightarrow> target_spec \<Rightarrow> snapshotter \<times> string \<Rightarrow> conn" where
  "conn_of f live t sn =
     \<lparr>cn_name = tg_connection t, cn_ext = fa_ext f (tg_dsn t),
      cn_chunks = fst (sn_dump (fst sn) (live (tg_connection t))),
      cn_dump_error = snd (sn_dump (fst sn) (live (tg_connection t))),
      cn_restore = (\<lambda>s. case sn_restore (fst sn) s of Inl e \<Rightarrow> Some e | Inr _ \<Rightarrow> None),
      cn_objects = sn_objects (fst sn) (live (tg_connection t)),
      cn_fallback_note = snd sn,
      cn_require_objects = (fa_ext f (tg_dsn t) = ''sql'')\<rparr>"

fun snapshot_conns :: "snap_factory \<Rightarrow> (string \<Rightarrow> string) \<Rightarrow> target_spec list \<Rightarrow> conn list \<times> string list" where
  "snapshot_conns f live [] = ([], [])"
| "snapshot_conns f live (t # ts) =
     (let (cs, skipped) = snapshot_conns f live ts
      in case chosen_snapshotter f t of
           Inl e \<Rightarrow> (cs, (tg_connection t @ '' ('' @ e @ '')'') # skipped)
         | Inr sn \<Rightarrow> (conn_of f live t sn # cs, skipped))"

definition store_names_of :: "snap_factory \<Rightarrow> target_spec list \<Rightarrow> string list" where
  "store_names_of f specs =
     concat (map (\<lambda>t. tg_connection t # (if fa_service f (tg_dsn t) \<noteq> [] then [fa_service f (tg_dsn t)] else [])) specs)"

section \<open>The snapshot before a destructive sync\<close>

datatype sync_snapshot_error = NoneSnapshotted "string list" | NotSaved snap_error

definition snapshot_fn ::
  "snap_factory \<Rightarrow> snap_env \<Rightarrow> (string \<Rightarrow> string) \<Rightarrow> target_spec list \<Rightarrow> string \<Rightarrow> string \<Rightarrow> string
     \<Rightarrow> (string \<Rightarrow> string) \<Rightarrow> string list \<Rightarrow> string option \<Rightarrow> (snap_step, sync_snapshot_error, unit) io" where
  "snapshot_fn f e live specs initiative schema_hash name hash_of conns record =
     (let (snap_conns, skipped) = snapshot_conns f live (filter (\<lambda>t. List.member conns (tg_connection t)) specs)
      in if snap_conns = [] then raise (NoneSnapshotted conns)
         else (let r = save_named_undoing e initiative name schema_hash
                         (case record of None \<Rightarrow> [] | Some ir \<Rightarrow> hash_of ir) snap_conns
               in (fst r, wrap_error NotSaved (snd r))))"

section \<open>The world of a branch switch\<close>

record stack_world =
  wd_disk :: disk
  wd_live :: "string \<Rightarrow> string"

record stack_project =
  sp_factory :: snap_factory
  sp_env :: snap_env
  sp_specs :: "target_spec list"
  sp_clock :: int
  sp_fresh :: "string \<Rightarrow> string"
  sp_quiesce_error :: "string option"
  sp_resume_error :: "string option"
  sp_build_error :: "string option"
  sp_seed_error :: "string option"
  sp_text :: "snap_error \<Rightarrow> string"

definition project_conns :: "stack_project \<Rightarrow> (string \<Rightarrow> string) \<Rightarrow> conn list \<times> string list" where
  "project_conns p live = snapshot_conns (sp_factory p) live (sp_specs p)"

definition failure :: "stack_project \<Rightarrow> snap_error + unit \<Rightarrow> string option" where
  "failure p r = (case r of Inl e \<Rightarrow> Some (sp_text p e) | Inr _ \<Rightarrow> None)"

text \<open>A dump is refused when a store of the project could not be given a snapshotter.\<close>

definition dump_branch :: "stack_project \<Rightarrow> stack_world \<Rightarrow> string \<Rightarrow> snap_step list \<times> string option" where
  "dump_branch p w b =
     (case project_conns p (wd_live w) of (cs, skipped) \<Rightarrow>
        if skipped \<noteq> [] then ([], Some ''partial snapshot'')
        else (fst (save_snapshot (sp_env p) b cs), failure p (snd (save_snapshot (sp_env p) b cs))))"

text \<open>The disk when the incoming branch is looked up: the outgoing one has been dumped.\<close>

definition disk_at_entry :: "stack_project \<Rightarrow> stack_world \<Rightarrow> bool \<Rightarrow> disk" where
  "disk_at_entry p w skip =
     (case last_live (sp_env p) (wd_disk w) of
        Inr lst \<Rightarrow> if skip then wd_disk w else run_steps (sp_clock p) (fst (dump_branch p w lst)) (wd_disk w)
      | Inl _ \<Rightarrow> wd_disk w)"

definition load_branch :: "stack_project \<Rightarrow> stack_world \<Rightarrow> string \<Rightarrow> unit snap" where
  "load_branch p w b = load_snapshot (sp_env p) (wd_disk w) b (fst (project_conns p (wd_live w)))"

definition reconcile_deps :: "stack_project \<Rightarrow> stack_world \<Rightarrow> string \<Rightarrow> bool \<Rightarrow> deps" where
  "reconcile_deps p w current skip =
     \<lparr>dp_current_branch = Some current, dp_skip_snapshot = skip,
      dp_last_live = Some (case last_live (sp_env p) (wd_disk w) of Inl e \<Rightarrow> Inl (sp_text p e) | Inr b \<Rightarrow> Inr b),
      dp_set_last_live = Some (\<lambda>b. failure p (snd (set_last_live (sp_env p) b))),
      dp_has_snapshot = Some (has_branch (disk_at_entry p w skip)),
      dp_quiesce = Some (sp_quiesce_error p), dp_resume = Some (sp_resume_error p),
      dp_dump = Some (\<lambda>b. snd (dump_branch p w b)),
      dp_restore = Some (\<lambda>b. failure p (snd (load_branch p (w\<lparr>wd_disk := disk_at_entry p w skip\<rparr>) b))),
      dp_build_fresh = Some (sp_build_error p), dp_seed_fixtures = Some (sp_seed_error p),
      dp_diff_apply = None\<rparr>"

text \<open>What the effects of a switch do: a dump and the record of the live branch write the disk, a
  restore writes the stores, a fresh build replaces what they hold.\<close>

definition restore_into :: "stack_project \<Rightarrow> target_spec list \<Rightarrow> string \<times> string \<Rightarrow> (string \<Rightarrow> string) \<Rightarrow> (string \<Rightarrow> string)" where
  "restore_into p specs cs live =
     (case find (\<lambda>t. tg_connection t = fst cs) specs of
        None \<Rightarrow> live
      | Some t \<Rightarrow>
          (case chosen_snapshotter (sp_factory p) t of
             Inl _ \<Rightarrow> live
           | Inr sn \<Rightarrow> (case sn_restore (fst sn) (snd cs) of Inl _ \<Rightarrow> live | Inr x \<Rightarrow> live(fst cs := x))))"

fun apply_effect :: "stack_project \<Rightarrow> branch_effect \<Rightarrow> stack_world \<Rightarrow> stack_world" where
  "apply_effect p (Dumped b) w = w\<lparr>wd_disk := run_steps (sp_clock p) (fst (dump_branch p w b)) (wd_disk w)\<rparr>"
| "apply_effect p (Restored b) w =
     w\<lparr>wd_disk := run_steps (sp_clock p) (fst (load_branch p w b)) (wd_disk w),
       wd_live := fold (restore_into p (sp_specs p)) (restored (fst (load_branch p w b))) (wd_live w)\<rparr>"
| "apply_effect p BuiltFresh w = w\<lparr>wd_live := sp_fresh p\<rparr>"
| "apply_effect p (RecordedLive b) w =
     w\<lparr>wd_disk := run_steps (sp_clock p) (fst (set_last_live (sp_env p) b)) (wd_disk w)\<rparr>"
| "apply_effect p e w = w"

definition switch_to :: "stack_project \<Rightarrow> string \<Rightarrow> bool \<Rightarrow> stack_world \<Rightarrow> (reconcile_error \<times> outcome_of_run + outcome_of_run) \<times> stack_world" where
  "switch_to p current skip w =
     (let (t, r) = reconcile_run (reconcile_deps p w current skip) in (r, fold (apply_effect p) t w))"

section \<open>Quiescing\<close>

text \<open>What a switch starts again is what it stopped and what was running: never a store, never a
  service that had exited, such as a one-shot seed. Stopping covers every service that is not a
  store, and nothing is stopped when the running ones cannot be listed.\<close>

theorem resume_restarts_what_was_running:
  assumes "quiesce cc names [] = (t, Inr live)" and "cc_list_services cc = Inr all"
    and "cc_list_running cc = Some (Inr running)"
  shows "set live = {s \<in> set all. s \<notin> set names \<and> s \<in> set running}
    \<and> (if \<exists>s \<in> set all. s \<notin> set names
       then t = [StoppedServices (filter (\<lambda>s. s \<notin> set names) all)] else t = [])
    \<and> fst (resume cc live) = (if live = [] then [] else [Composed (start_args live)])"
  using assms
  by (auto simp: quiesce_def non_store_services_def running_among_def resume_def perform_def pure_def
      filter_empty_conv Let_def split: if_splits option.splits)

definition sample_ctl :: compose_ctl where
  "sample_ctl = \<lparr>cc_list_services = Inr [''db'', ''web'', ''seed''], cc_list_running = Some (Inr [''db'', ''web'']),
     cc_stop = (\<lambda>_. None), cc_run = (\<lambda>_. None)\<rparr>"

theorem resume_restarts_what_was_running_witness:
  "quiesce sample_ctl [''db''] [] = ([StoppedServices [''web'', ''seed'']], Inr [''web''])
   \<and> set [''web''] = {s \<in> set [''db'', ''web'', ''seed'']. s \<notin> set [''db''] \<and> s \<in> set [''db'', ''web'']}"
proof -
  have q: "quiesce sample_ctl [''db''] [] = ([StoppedServices [''web'', ''seed'']], Inr [''web''])" by code_simp
  moreover have "cc_list_services sample_ctl = Inr [''db'', ''web'', ''seed'']"
    and "cc_list_running sample_ctl = Some (Inr [''db'', ''web''])" by (simp_all add: sample_ctl_def)
  ultimately show ?thesis using resume_restarts_what_was_running by blast
qed

section \<open>There and back again\<close>

text \<open>The effects of a switch that the world feels, in order.\<close>

definition felt :: "branch_effect \<Rightarrow> bool" where
  "felt eff \<longleftrightarrow> (\<exists>b. eff = Dumped b \<or> eff = Restored b \<or> eff = RecordedLive b) \<or> eff = BuiltFresh"

lemma apply_unfelt: "\<not> felt eff \<Longrightarrow> apply_effect p eff w = w"
  by (cases eff) (auto simp: felt_def)

lemma apply_felt: "fold (apply_effect p) t w = fold (apply_effect p) (filter felt t) w"
  by (induction t arbitrary: w) (auto simp: apply_unfelt)

lemma felt_simps [simp]:
  "felt (Dumped b)" "felt (Restored b)" "felt (RecordedLive b)" "felt BuiltFresh" "\<not> felt Quiesced" "\<not> felt Resumed"
  "\<not> felt Seeded" "\<not> felt DiffApplied" "\<not> felt (Progress q)"
  by (auto simp: felt_def)

lemma call_felt:
  "snd (call out v w f) = Inr u \<Longrightarrow> fst (call out v w f) = [v]"
  by (auto simp: call_def split: option.splits)

lemma leave_felt:
  assumes "snd (leave_branch d lst out) = Inr x" and "\<not> dp_skip_snapshot d"
  shows "filter felt (fst (leave_branch d lst out)) = [Dumped lst] \<and> (\<exists>f. dp_dump d = Some f \<and> f lst = None)"
proof -
  have "left_safely d lst" using leave_ok [of d lst out] assms(1) by blast
  with assms(2) obtain f where f: "dp_dump d = Some f" "f lst = None" by (auto simp: left_safely_def)
  have "fst (leave_branch d lst out) = [Progress (Snapshotting lst), Dumped lst]"
    using assms(2) f by (simp add: leave_branch_def say_def call_def apply_dep_def traced)
  with f show ?thesis by simp
qed

lemma enter_felt:
  assumes "snd (enter_branch d current out) = Inr x"
  shows "filter felt (fst (enter_branch d current out)) = [if has_snapshot d current then Restored current else BuiltFresh]
    \<and> (has_snapshot d current \<longrightarrow> (\<exists>f. dp_restore d = Some f \<and> f current = None))"
proof -
  have e: "entered d current" using enter_ok [of d current out] assms by blast
  show ?thesis
  proof (cases "has_snapshot d current")
    case True
    with e obtain f where f: "dp_restore d = Some f" "f current = None" by (auto simp: entered_def)
    have "fst (enter_branch d current out) = [Progress (Restoring current), Restored current]"
      using True f by (simp add: enter_branch_def say_def call_def apply_dep_def traced)
    with True f show ?thesis by simp
  next
    case False
    have calls: "filter felt (fst (call_if_set out' Seeded SeedFailed f)) = []" for out' f
      by (auto simp: call_if_set_def call_def split: option.split)
    have "filter felt (fst (enter_branch d current out)) = [BuiltFresh]"
      using False e
      by (simp add: enter_branch_def say_def traced entered_def Let_def call_def calls split: sum.split)
    with False show ?thesis by simp
  qed
qed

lemma successful_switch:
  assumes "reconcile_run d = (t, Inr out)" and "switching d lst current" and "\<not> dp_skip_snapshot d"
    and "dp_diff_apply d = None"
  shows "filter felt t = [Dumped lst, if has_snapshot d current then Restored current else BuiltFresh, RecordedLive current]
    \<and> (\<exists>f. dp_dump d = Some f \<and> f lst = None)
    \<and> (has_snapshot d current \<longrightarrow> (\<exists>f. dp_restore d = Some f \<and> f current = None))
    \<and> (\<exists>f. dp_set_last_live d = Some f \<and> f current = None)"
proof -
  have t: "t = fst (reconcile_run d)" using assms(1) by simp
  have quiet: "dp_quiesce d = Some None"
  proof (rule ccontr)
    assume "dp_quiesce d \<noteq> Some None"
    then obtain e where "snd (reconcile_run d) = Inl e"
      using assms(2) by (cases "dp_quiesce d") (auto simp: reconcile_run_switch say_def call_def result_and_then outcome_def)
    with assms(1) show False by simp
  qed
  with assms(1,2) have body: "snd (body_of d lst current) = Inr out" by (simp add: switch_result [symmetric])
  obtain x where x: "snd (leave_branch d lst (switch_outcome lst current)) = Inr x"
    using body unfolding switch_body_def ok_and_then by blast
  obtain y where y: "snd (enter_branch d current x) = Inr y"
    using body unfolding switch_body_def and_then_ok [OF x] snd_conv ok_and_then by blast
  have set_live: "snd (call y (RecordedLive current) RecordLive (apply_dep (dp_set_last_live d) current)) = Inr ()"
    using body unfolding switch_body_def and_then_ok [OF x] and_then_ok [OF y] snd_conv
    by (auto simp: ok_and_then call_if_set_def assms(4))
  have "filter felt (fst (body_of d lst current))
      = [Dumped lst, if has_snapshot d current then Restored current else BuiltFresh, RecordedLive current]"
    using leave_felt [OF x assms(3)] enter_felt [OF y] call_felt [OF set_live]
    by (simp add: switch_body_def and_then_ok [OF x] and_then_ok [OF y] and_then_ok [OF set_live]
        call_if_set_def assms(4) say_def traced)
  moreover have "filter felt (resume_effects d) = []"
    by (auto simp: resume_effects_def split: option.split)
  ultimately have "filter felt t
      = [Dumped lst, if has_snapshot d current then Restored current else BuiltFresh, RecordedLive current]"
    by (simp add: t switch_trace [OF assms(2)] quiet)
  moreover have "\<exists>f. dp_set_last_live d = Some f \<and> f current = None"
    using set_live by (simp add: call_ok apply_dep_ok)
  ultimately show ?thesis using leave_felt [OF x assms(3)] enter_felt [OF y] by blast
qed

definition good_branch :: "string \<Rightarrow> bool" where
  "good_branch b \<longleftrightarrow> b \<noteq> [] \<and> b \<noteq> ''.'' \<and> b \<noteq> ''..'' \<and> b \<noteq> ''.last-live-branch'' \<and> (\<forall>c \<in> set b. visible c)"

lemma good_key: "good_branch b \<Longrightarrow> branch_key b = Some (path_escape b)"
  by (simp add: good_branch_def branch_key_Some)

text \<open>A project whose stores can all be dumped and whose snapshotters restore what they dumped, on a
  disk that does not fail.\<close>

definition file_of :: "stack_project \<Rightarrow> target_spec \<Rightarrow> string" where
  "file_of p t = tg_connection t @ ''.'' @ fa_ext (sp_factory p) (tg_dsn t)"

definition faithful :: "snapshotter \<Rightarrow> bool" where
  "faithful sn \<longleftrightarrow> (\<forall>x. snd (sn_dump sn x) = None \<longrightarrow> sn_restore sn (concat (fst (sn_dump sn x))) = Inr x)"

definition healthy :: "stack_project \<Rightarrow> bool" where
  "healthy p \<longleftrightarrow> (\<forall>sc q. se_fails (sp_env p) sc q = None) \<and>
     distinct (map tg_connection (sp_specs p)) \<and> distinct (map (file_of p) (sp_specs p)) \<and>
     (\<forall>t \<in> set (sp_specs p). \<not> prefix ''.'' (file_of p t) \<and>
        (\<exists>sn. chosen_snapshotter (sp_factory p) t = Inr sn \<and> faithful (fst sn)))"

definition sn_of :: "stack_project \<Rightarrow> target_spec \<Rightarrow> snapshotter \<times> string" where
  "sn_of p t = projr (chosen_snapshotter (sp_factory p) t)"

abbreviation conns_at :: "stack_project \<Rightarrow> (string \<Rightarrow> string) \<Rightarrow> conn list" where
  "conns_at p live \<equiv> map (\<lambda>t. conn_of (sp_factory p) live t (sn_of p t)) (sp_specs p)"

lemma healthy_conns: "healthy p \<Longrightarrow> project_conns p live = (conns_at p live, [])"
proof -
  assume "healthy p"
  then have "\<forall>t \<in> set (sp_specs p). \<exists>sn. chosen_snapshotter (sp_factory p) t = Inr sn"
    unfolding healthy_def by blast
  moreover have "snapshot_conns (sp_factory p) live ts = (map (\<lambda>t. conn_of (sp_factory p) live t (sn_of p t)) ts, [])"
    if "\<forall>t \<in> set ts. \<exists>sn. chosen_snapshotter (sp_factory p) t = Inr sn" for ts
    using that by (induction ts) (auto simp: sn_of_def)
  ultimately have "snapshot_conns (sp_factory p) live (sp_specs p) = (conns_at p live, [])" by blast
  then show ?thesis by (simp add: project_conns_def)
qed

lemma healthy_store:
  "healthy p \<Longrightarrow> t \<in> set (sp_specs p) \<Longrightarrow> \<exists>sn. chosen_snapshotter (sp_factory p) t = Inr sn \<and> faithful (fst sn)"
  unfolding healthy_def by blast

lemma conn_of_file: "conn_file (conn_of (sp_factory p) live t sn) = file_of p t"
  by (simp add: conn_of_def conn_file_def file_of_def)

lemma healthy_files:
  "healthy p \<Longrightarrow> distinct (map conn_file (conns_at p live)) \<and> (\<forall>c \<in> set (conns_at p live). \<not> prefix ''.'' (conn_file c))"
  by (auto simp: healthy_def conn_of_file comp_def)

lemma restore_all:
  assumes "healthy p" and "\<forall>t \<in> set ts. sn_restore (fst (sn_of p t)) (bytes t) = Inr (val t)"
    and "set ts \<subseteq> set (sp_specs p)" and "distinct (map tg_connection ts)" and "t \<in> set ts"
  shows "fold (restore_into p (sp_specs p)) (map (\<lambda>t. (tg_connection t, bytes t)) ts) live (tg_connection t) = val t"
proof -
  have one: "restore_into p (sp_specs p) (tg_connection t, bytes t) live = live(tg_connection t := val t)"
    if "t \<in> set ts" for t live
  proof -
    have t: "t \<in> set (sp_specs p)" using that assms(3) by blast
    then have "\<exists>u. find (\<lambda>u. tg_connection u = tg_connection t) (sp_specs p) = Some u"
      by (metis (mono_tags, lifting) find_None_iff option.exhaust)
    then obtain u where u: "find (\<lambda>u. tg_connection u = tg_connection t) (sp_specs p) = Some u" ..
    then have "u \<in> set (sp_specs p)" "tg_connection u = tg_connection t" by (auto simp: find_Some_iff)
    with t assms(1) have "u = t" by (auto simp: healthy_def distinct_map dest: inj_onD)
    moreover obtain sn where sn: "chosen_snapshotter (sp_factory p) t = Inr sn"
      using t assms(1) by (auto simp: healthy_def)
    moreover have "sn_restore (fst sn) (bytes t) = Inr (val t)"
      using assms(2) that by (auto simp: sn_of_def sn dest!: bspec [of _ _ t])
    ultimately show ?thesis using u by (simp add: restore_into_def)
  qed
  have other: "fold (restore_into p (sp_specs p)) (map (\<lambda>t. (tg_connection t, bytes t)) us) live c = live c"
    if "set us \<subseteq> set ts" "c \<notin> tg_connection ` set us" for us live c
    using that by (induction us arbitrary: live) (auto simp: one)
  show ?thesis
    using assms(4,5) subset_refl [of "set ts"]
  proof -
    have "fold (restore_into p (sp_specs p)) (map (\<lambda>t. (tg_connection t, bytes t)) us) live (tg_connection t) = val t"
      if "set us \<subseteq> set ts" "distinct (map tg_connection us)" "t \<in> set us" for us live
      using that
    proof (induction us arbitrary: live)
      case (Cons u us)
      show ?case
      proof (cases "u = t")
        case True
        with Cons.prems have "tg_connection t \<notin> tg_connection ` set us" by auto
        with True Cons.prems other [of us "tg_connection t"] show ?thesis by (simp add: one)
      next
        case False
        with Cons show ?thesis by simp
      qed
    qed simp
    then show ?thesis using assms(4,5) by blast
  qed
qed

lemma last_live_recorded:
  assumes "healthy p" and "b \<noteq> []" and "\<forall>c \<in> set b. visible c"
  shows "last_live (sp_env p) (run_steps now (fst (set_last_live (sp_env p) b)) d) = Inr b"
proof -
  have ok: "\<forall>sc q. se_fails (sp_env p) sc q = None" using assms(1) by (simp add: healthy_def)
  let ?l = "[''.last-live-branch'']"
  have "fst (set_last_live (sp_env p) b) = [MakeDir []] @ [Truncate ?l, Append ?l (b @ [nl])]"
    by (simp add: set_last_live_def sys_none ok write_steps and_then_ok)
  then have "content_at (run_steps now (fst (set_last_live (sp_env p) b)) d) ?l = Some (b @ [nl])"
    by (simp only: run_append written)
  then show ?thesis using trim_space_line [OF assms(2,3)] ok by (simp add: last_live_def)
qed

text \<open>C5: switching away from a branch and back gives every store what it held. After a switch to
  another branch, whatever is done to the stores there, a switch back that succeeds puts into each
  store of the project exactly what it held when the branch was left.\<close>

theorem switching_back_restores_the_stores:
  assumes "healthy p" and "good_branch a" and "good_branch b" and "a \<noteq> b"
    and "last_live (sp_env p) (wd_disk w) = Inr a" and "content_at (wd_disk w) [path_escape a, ''db''] = None"
    and "switch_to p b False w = (Inr out, w')"
    and "switch_to p a False (w'\<lparr>wd_live := work\<rparr>) = (Inr out', w'')"
    and "t \<in> set (sp_specs p)"
  shows "wd_live w'' (tg_connection t) = wd_live w (tg_connection t)"
proof -
  let ?e = "sp_env p" and ?k = "path_escape a" and ?now = "sp_clock p"
  have ok: "\<forall>sc q. se_fails ?e sc q = None" using assms(1) by (simp add: healthy_def)
  note conns = healthy_conns [OF assms(1)]
  have key: "branch_key a = Some ?k" by (rule good_key [OF assms(2)])
  define cs where "cs = conns_at p (wd_live w)"
  obtain t1 where run1: "reconcile_run (reconcile_deps p w b False) = (t1, Inr out)"
      and w': "w' = fold (apply_effect p) t1 w"
    using assms(7) by (auto simp: switch_to_def split: prod.splits)
  have sw1: "switching (reconcile_deps p w b False) a b"
    using assms(2-5) by (simp add: switching_def reconcile_deps_def good_branch_def)
  have f1: "filter felt t1 = [Dumped a, if has_snapshot (reconcile_deps p w b False) b then Restored b else BuiltFresh, RecordedLive b]"
    and d1: "snd (dump_branch p w a) = None"
    using successful_switch [OF run1 sw1] by (auto simp: reconcile_deps_def)
  have saved: "snd (save_snapshot ?e a cs) = Inr ()"
    using d1 by (simp add: dump_branch_def conns cs_def failure_def split: sum.splits)
  define s where "s = run_steps ?now (fst (save_snapshot ?e a cs)) (wd_disk w)"
  have dump1: "run_steps ?now (fst (dump_branch p w a)) (wd_disk w) = s"
    by (simp add: dump_branch_def conns cs_def s_def)
  define ops where "ops = (if has_snapshot (reconcile_deps p w b False) b then [(?e, ?now, LoadBranch b cs)] else [])
      @ [(?e, ?now, SetLive b)]"
  have disk1: "wd_disk w' = run_ops ops s"
    by (simp add: w' apply_felt [of p t1] f1 dump1 ops_def load_branch_def conns cs_def)
  have live_b: "last_live ?e (wd_disk w') = Inr b"
  proof -
    have "wd_disk w' = run_steps ?now (fst (set_last_live ?e b)) (run_ops (butlast ops) s)"
      unfolding disk1 by (simp add: ops_def)
    then show ?thesis using last_live_recorded [OF assms(1)] assms(3) by (simp add: good_branch_def)
  qed
  let ?w = "w'\<lparr>wd_live := work\<rparr>"
  obtain t2 where run2: "reconcile_run (reconcile_deps p ?w a False) = (t2, Inr out')"
      and w'': "w'' = fold (apply_effect p) t2 ?w"
    using assms(8) by (auto simp: switch_to_def split: prod.splits)
  have sw2: "switching (reconcile_deps p ?w a False) b a"
    using assms(2-4) live_b by (simp add: switching_def reconcile_deps_def good_branch_def)
  define cs2 where "cs2 = conns_at p work"
  define ops2 where "ops2 = ops @ [(?e, ?now, SaveBranch b cs2)]"
  have runs: "run_ops (os @ [(e, n, op)]) d = run_steps n (op_steps e (run_ops os d) op) (run_ops os d)" for os e n op d
    by (induction os d rule: run_ops.induct) auto
  have entry: "run_steps ?now (fst (dump_branch p ?w b)) (wd_disk ?w) = run_ops ops2 s"
    by (simp add: ops2_def runs dump_branch_def conns cs2_def disk1)
  have spare: "\<forall>(e, now, op) \<in> set ops2. spares a op"
    using assms(4) by (auto simp: ops2_def ops_def)
  have plain: "a \<noteq> ''.last-live-branch''" using assms(2) by (simp add: good_branch_def)
  note files = healthy_files [OF assms(1)]
  have sd: "is_dir s [?k, ''db''] \<and> (\<forall>c \<in> set cs. content_at s [?k, ''db'', conn_file c] = Some (dump_of c))"
    unfolding s_def by (rule saved_disk [OF saved key]) (use files assms(6) in \<open>auto simp: cs_def simp del: set_map\<close>)
  note sp = spared_run [OF spare key plain, of s]
  have has: "has_branch (run_ops ops2 s) a"
    using sd sp by (simp add: has_branch_def db_dir_def key)
  have "disk_at_entry p ?w False = run_ops ops2 s"
    using live_b entry by (simp add: disk_at_entry_def)
  then have hs: "has_snapshot (reconcile_deps p ?w a False) a"
    using has by (simp add: has_snapshot_def reconcile_deps_def)
  have f2: "filter felt t2 = [Dumped b, Restored a, RecordedLive a]"
    using successful_switch [OF run2 sw2] hs by (simp add: reconcile_deps_def)
  define bytes where "bytes = (\<lambda>t. dump_of (conn_of (sp_factory p) (wd_live w) t (sn_of p t)))"
  have accepted: "snd (sn_dump (fst (sn_of p t)) (wd_live w (tg_connection t))) = None" if "t \<in> set (sp_specs p)" for t
    using save_dumps [OF saved] that by (auto simp: cs_def conn_of_def)
  have faith: "sn_restore (fst (sn_of p t)) (bytes t) = Inr (wd_live w (tg_connection t))" if "t \<in> set (sp_specs p)" for t
  proof -
    from healthy_store [OF assms(1) that]
    obtain sn where "chosen_snapshotter (sp_factory p) t = Inr sn" "faithful (fst sn)" by blast
    with accepted [OF that] show ?thesis by (auto simp: bytes_def dump_of_def conn_of_def sn_of_def faithful_def)
  qed
  have held: "content_at (run_ops ops2 s) (final_path [?k, ''db''] (conn_of (sp_factory p) work t (sn_of p t))) = Some (bytes t)"
    if t: "t \<in> set (sp_specs p)" for t
  proof -
    have "content_at s [?k, ''db'', file_of p t] = Some (bytes t)"
      using sd t by (auto simp: cs_def conn_of_file bytes_def)
    moreover have "file_of p t \<noteq> ''.set.lock''" using assms(1) t by (auto simp: healthy_def)
    ultimately show ?thesis using sp by (simp add: final_path_def conn_of_file)
  qed
  have load: "restored (fst (load_branch p (?w\<lparr>wd_disk := run_ops ops2 s\<rparr>) a)) = map (\<lambda>t. (tg_connection t, bytes t)) (sp_specs p)"
  proof -
    have "restored (fst (load_conns ?e (run_ops ops2 s) [?k, ''db''] (map (\<lambda>t. conn_of (sp_factory p) work t (sn_of p t)) ts)))
        = map (\<lambda>t. (tg_connection t, bytes t)) ts
      \<and> snd (load_conns ?e (run_ops ops2 s) [?k, ''db''] (map (\<lambda>t. conn_of (sp_factory p) work t (sn_of p t)) ts)) = Inr ()"
      if "set ts \<subseteq> set (sp_specs p)" for ts
      using that
    proof (induction ts)
      case (Cons t ts)
      then have t: "t \<in> set (sp_specs p)" by simp
      have "load_one ?e (run_ops ops2 s) [?k, ''db''] (conn_of (sp_factory p) work t (sn_of p t))
          = ([Restores (tg_connection t) (bytes t)], Inr ())"
        using held [OF t] faith [OF t] ok by (simp add: load_one_def conn_of_def perform_def)
      with Cons show ?case by (simp add: and_then_def)
    qed simp
    then have "restored (fst (load_conns ?e (run_ops ops2 s) [?k, ''db''] cs2)) = map (\<lambda>t. (tg_connection t, bytes t)) (sp_specs p)"
      unfolding cs2_def by blast
    then show ?thesis
      by (simp add: load_branch_def load_snapshot_def has db_dir_def key lock_set_def sys_none ok conns cs2_def and_then_def
          emit_all_def)
  qed
  have "wd_live w'' = fold (restore_into p (sp_specs p)) (map (\<lambda>t. (tg_connection t, bytes t)) (sp_specs p)) work"
    unfolding w'' apply_felt [of p t2] f2 using load entry by simp
  moreover have "distinct (map tg_connection (sp_specs p))" using assms(1) by (simp add: healthy_def)
  ultimately show ?thesis
    using restore_all [OF assms(1) _ subset_refl _ assms(9), of bytes "\<lambda>t. wd_live w (tg_connection t)" work] faith by simp
qed

definition plain_snapshotter :: snapshotter where
  "plain_snapshotter = \<lparr>sn_dump = (\<lambda>x. ([x], None)), sn_restore = Inr, sn_objects = (\<lambda>_. None)\<rparr>"

definition plain_factory :: snap_factory where
  "plain_factory = \<lparr>fa_snapshotter = (\<lambda>c. if c = ''events'' then Inl ''no snapshot adapter'' else Inr plain_snapshotter),
     fa_ext = (\<lambda>_. ''gob''), fa_look_path = (\<lambda>_. False), fa_in_container = (\<lambda>_. (None, [])), fa_service = (\<lambda>_. [])\<rparr>"

definition target :: "string \<Rightarrow> target_spec" where
  "target c = \<lparr>tg_connection = c, tg_dsn = ''redis://h''\<rparr>"

definition plain_project :: stack_project where
  "plain_project = \<lparr>sp_factory = plain_factory, sp_env = calm_disk, sp_specs = [target ''users'', target ''cache''],
     sp_clock = 1, sp_fresh = (\<lambda>_. []), sp_quiesce_error = None, sp_resume_error = None, sp_build_error = None,
     sp_seed_error = None, sp_text = (\<lambda>_. ''error'')\<rparr>"

definition on_main :: stack_world where
  "on_main = \<lparr>wd_disk = [([''.last-live-branch''], Content (''main'' @ [nl]))], wd_live = (\<lambda>c. if c = ''users'' then ''ann'' else ''k'')\<rparr>"

theorem switching_back_restores_the_stores_witness:
  "wd_live (snd (switch_to plain_project ''main'' False
     ((snd (switch_to plain_project ''feat/x'' False on_main))\<lparr>wd_live := (\<lambda>_. ''work'')\<rparr>))) ''users'' = ''ann''"
proof -
  have h: "healthy plain_project"
    by (simp add: healthy_def plain_project_def file_of_def target_def plain_factory_def chosen_snapshotter_def
        host_has_client_for_def client_bin_for_def faithful_def plain_snapshotter_def)
  have g: "good_branch ''main''" "good_branch ''feat/x''" by (simp_all add: good_branch_def visible_def)
  have l: "last_live (sp_env plain_project) (wd_disk on_main) = Inr ''main''" by code_simp
  have n: "content_at (wd_disk on_main) [path_escape ''main'', ''db''] = None" by code_simp
  have "\<not> isl (fst (switch_to plain_project ''feat/x'' False on_main))" by code_simp
  then obtain o1 w1 where s1: "switch_to plain_project ''feat/x'' False on_main = (Inr o1, w1)"
    by (metis prod.collapse sum.collapse(2))
  have "\<not> isl (fst (switch_to plain_project ''main'' False
     ((snd (switch_to plain_project ''feat/x'' False on_main))\<lparr>wd_live := (\<lambda>_. ''work'')\<rparr>)))" by code_simp
  then obtain o2 w2 where s2: "switch_to plain_project ''main'' False (w1\<lparr>wd_live := (\<lambda>_. ''work'')\<rparr>) = (Inr o2, w2)"
    unfolding s1 snd_conv by (metis prod.collapse sum.collapse(2))
  have t: "target ''users'' \<in> set (sp_specs plain_project)" by (simp add: plain_project_def)
  have "wd_live w2 (tg_connection (target ''users'')) = wd_live on_main (tg_connection (target ''users''))"
    by (rule switching_back_restores_the_stores [OF h g _ l n s1 s2 t]) simp
  moreover have "wd_live on_main ''users'' = ''ann''" by (simp add: on_main_def)
  moreover have "tg_connection (target ''users'') = ''users''" by (simp add: target_def)
  ultimately show ?thesis by (simp only: s1 s2 snd_conv)
qed

section \<open>A destructive sync and the stores its snapshot covers\<close>

lemma snapshot_conns_fst:
  "fst (snapshot_conns f live ts) =
     map (\<lambda>t. conn_of f live t (projr (chosen_snapshotter f t))) (filter (\<lambda>t. \<not> isl (chosen_snapshotter f t)) ts)"
  by (induction ts) (auto simp: Let_def case_prod_unfold split: sum.split)

text \<open>The call \<^verbatim>\<open>DevSync\<close> makes of \<^verbatim>\<open>snapshotFn\<close>, with its error as text.\<close>

definition sync_snapshotter ::
  "(sync_snapshot_error \<Rightarrow> string) \<Rightarrow> snap_factory \<Rightarrow> snap_env \<Rightarrow> (string \<Rightarrow> string) \<Rightarrow> target_spec list \<Rightarrow> string \<Rightarrow> string
     \<Rightarrow> string \<Rightarrow> (string \<Rightarrow> string) \<Rightarrow> string list \<Rightarrow> string option \<Rightarrow> string option" where
  "sync_snapshotter txt f e live specs initiative schema_hash name hash_of conns record =
     (case snd (snapshot_fn f e live specs initiative schema_hash name hash_of conns record) of
        Inl err \<Rightarrow> Some (txt err) | Inr _ \<Rightarrow> None)"

text \<open>In \<^verbatim>\<open>snapshot\<close> mode a destructive sync goes on exactly when the savepoint of the stores that
  can be snapshotted could be taken and there is at least one such store. A store that loses data and
  has no snapshotter, or no target in this run, is left out of the savepoint and does not stop the
  sync.\<close>

theorem lossy_sync_goes_on_with_a_partial_snapshot:
  assumes "lossy \<noteq> []"
    and "covered = filter (\<lambda>t. \<not> isl (chosen_snapshotter f t))
      (filter (\<lambda>t. tg_connection t \<in> set (lossy_connections lossy)) specs)"
  shows "snd (decide_losses lossy ''snapshot''
       (Some (sync_snapshotter txt f e live specs initiative schema_hash name hash_of)) rec) = Inr ()
    \<longleftrightarrow> covered \<noteq> [] \<and> snd (save_named_undoing e initiative name schema_hash
         (case rec of None \<Rightarrow> [] | Some ir \<Rightarrow> hash_of ir)
         (map (\<lambda>t. conn_of f live t (projr (chosen_snapshotter f t))) covered)) = Inr ()"
proof -
  have "fst (snapshot_conns f live (filter (\<lambda>t. List.member (lossy_connections lossy) (tg_connection t)) specs))
      = map (\<lambda>t. conn_of f live t (projr (chosen_snapshotter f t))) covered"
    unfolding snapshot_conns_fst assms(2) by simp
  then have "sync_snapshotter txt f e live specs initiative schema_hash name hash_of (lossy_connections lossy) rec = None
      \<longleftrightarrow> covered \<noteq> [] \<and> snd (save_named_undoing e initiative name schema_hash
         (case rec of None \<Rightarrow> [] | Some ir \<Rightarrow> hash_of ir)
         (map (\<lambda>t. conn_of f live t (projr (chosen_snapshotter f t))) covered)) = Inr ()"
    by (auto simp: sync_snapshotter_def snapshot_fn_def case_prod_unfold Let_def wrap_error_def split: sum.splits)
  with assms(1) show ?thesis by (simp add: decide_losses_def result_and_then)
qed

definition loses :: "string \<Rightarrow> lossy_change" where
  "loses c = \<lparr>lc_connection = c, lc_kind = ''drop_table'', lc_object = ''t'', lc_detail = []\<rparr>"

theorem lossy_sync_goes_on_with_a_partial_snapshot_witness:
  "snd (decide_losses [loses ''users'', loses ''events''] ''snapshot''
     (Some (sync_snapshotter (\<lambda>_. ''error'') plain_factory calm_disk (\<lambda>_. ''data'') [target ''users'', target ''events'']
        ''main'' ''h'' ''before'' (\<lambda>x. x))) None) = Inr ()
   \<and> chosen_snapshotter plain_factory (target ''events'') = Inl ''no snapshot adapter''"
proof -
  have cs: "chosen_snapshotter plain_factory (target ''users'') = Inr (plain_snapshotter, [])"
      "chosen_snapshotter plain_factory (target ''events'') = Inl ''no snapshot adapter''"
    by (simp_all add: chosen_snapshotter_def plain_factory_def target_def host_has_client_for_def client_bin_for_def)
  have lc: "set (lossy_connections [loses ''users'', loses ''events'']) = {''users'', ''events''}" by code_simp
  have c: "[target ''users''] = filter (\<lambda>t. \<not> isl (chosen_snapshotter plain_factory t))
      (filter (\<lambda>t. tg_connection t \<in> set (lossy_connections [loses ''users'', loses ''events''])) [target ''users'', target ''events''])"
    by (simp add: lc cs) (simp add: target_def)
  have sv: "snd (save_named_undoing calm_disk ''main'' ''before'' ''h'' []
      [conn_of plain_factory (\<lambda>_. ''data'') (target ''users'') (plain_snapshotter, [])]) = Inr ()" by code_simp
  show ?thesis
    using lossy_sync_goes_on_with_a_partial_snapshot [OF _ c, of "\<lambda>_. ''error''" calm_disk "\<lambda>_. ''data''" "''main''" "''h''" "''before''" "\<lambda>x. x" None]
      sv cs by simp
qed

end
