(* ===== verification/ProjectTree.thy ===== *)
theory ProjectTree
  imports Paths
begin

text \<open>
  The files below a project's root as \<^verbatim>\<open>os\<close> and \<^verbatim>\<open>filepath\<close> show them: a map from the
  elements of a path to a file with its bytes or a directory. The root itself is always a directory.
  A call that may fail does so where the record of the disk says, with what it leaves behind.
  Symbolic links, permissions and times are not modelled.
\<close>

type_synonym path = "string list"

datatype node = File string | Dir

type_synonym tree = "(path, node) gomap"

text \<open>What the disk refuses, as a function of what it holds: reading a file, listing a directory,
  creating one, writing (with the bytes the failed write leaves, or none when the file could not even
  be opened), renaming and deleting.\<close>

record disk =
  unreadable :: "tree \<Rightarrow> path \<Rightarrow> bool"
  unlistable :: "tree \<Rightarrow> path \<Rightarrow> bool"
  no_mkdir :: "tree \<Rightarrow> path \<Rightarrow> bool"
  bad_write :: "tree \<Rightarrow> path \<Rightarrow> string \<Rightarrow> string option option"
  no_rename :: "tree \<Rightarrow> path \<Rightarrow> bool"
  no_delete :: "tree \<Rightarrow> path \<Rightarrow> bool"

definition healthy_disk :: disk where
  "healthy_disk = \<lparr>unreadable = \<lambda>_ _. False, unlistable = \<lambda>_ _. False, no_mkdir = \<lambda>_ _. False,
     bad_write = \<lambda>_ _ _. None, no_rename = \<lambda>_ _. False, no_delete = \<lambda>_ _. False\<rparr>"

named_theorems tree_ops \<open>what the file operations change\<close>

section \<open>Reading\<close>

definition node_at :: "tree \<Rightarrow> path \<Rightarrow> node option" where
  "node_at t p = (if p = [] then Some Dir else map_of t p)"

definition is_file :: "tree \<Rightarrow> path \<Rightarrow> bool" where
  "is_file t p \<longleftrightarrow> (case node_at t p of Some (File _) \<Rightarrow> True | _ \<Rightarrow> False)"

text \<open>\<^verbatim>\<open>os.Stat\<close> succeeds.\<close>

definition exists_at :: "tree \<Rightarrow> path \<Rightarrow> bool" where
  "exists_at t p \<longleftrightarrow> node_at t p \<noteq> None"

text \<open>\<^verbatim>\<open>os.ReadFile\<close>: a path below a file is not a missing one (\<^verbatim>\<open>ENOTDIR\<close>).\<close>

datatype read = Bytes string | NotExist | ReadError

definition below_file :: "tree \<Rightarrow> path \<Rightarrow> bool" where
  "below_file t p \<longleftrightarrow> list_ex (is_file t) (filter (\<lambda>q. q \<noteq> p) (prefixes p))"

definition read_file :: "disk \<Rightarrow> tree \<Rightarrow> path \<Rightarrow> read" where
  "read_file d t p =
     (case node_at t p of
        None \<Rightarrow> if below_file t p then ReadError else NotExist
      | Some Dir \<Rightarrow> ReadError
      | Some (File b) \<Rightarrow> if unreadable d t p then ReadError else Bytes b)"

section \<open>Changing\<close>

text \<open>\<^verbatim>\<open>os.MkdirAll\<close>: each missing directory on the way is made, outermost first.\<close>

fun make_dirs :: "disk \<Rightarrow> path list \<Rightarrow> tree \<Rightarrow> tree \<times> bool" where
  "make_dirs d [] t = (t, True)"
| "make_dirs d (q # qs) t =
     (case node_at t q of
        Some Dir \<Rightarrow> make_dirs d qs t
      | Some (File _) \<Rightarrow> (t, False)
      | None \<Rightarrow> if no_mkdir d t q then (t, False) else make_dirs d qs (put q Dir t))"

definition mkdir_all :: "disk \<Rightarrow> path \<Rightarrow> tree \<Rightarrow> tree \<times> bool" where
  "mkdir_all d p t = make_dirs d (prefixes p) t"

text \<open>\<^verbatim>\<open>os.WriteFile\<close>: the parent must be a directory and the path not one.\<close>

definition write_file :: "disk \<Rightarrow> path \<Rightarrow> string \<Rightarrow> tree \<Rightarrow> tree \<times> bool" where
  "write_file d p b t =
     (if node_at t p = Some Dir \<or> node_at t (butlast p) \<noteq> Some Dir then (t, False)
      else case bad_write d t p b of
        None \<Rightarrow> (put p (File b) t, True)
      | Some None \<Rightarrow> (t, False)
      | Some (Some left) \<Rightarrow> (put p (File left) t, False))"

text \<open>\<^verbatim>\<open>os.Rename\<close> of a file.\<close>

definition rename_file :: "disk \<Rightarrow> path \<Rightarrow> path \<Rightarrow> tree \<Rightarrow> tree \<times> bool" where
  "rename_file d p q t =
     (case node_at t p of
        Some (File b) \<Rightarrow>
          if node_at t q = Some Dir \<or> node_at t (butlast q) \<noteq> Some Dir \<or> no_rename d t q then (t, False)
          else (put q (File b) (remove_key p t), True)
      | _ \<Rightarrow> (t, False))"

definition has_children :: "tree \<Rightarrow> path \<Rightarrow> bool" where
  "has_children t p \<longleftrightarrow> list_ex (strict_prefix p) (keys_of t)"

text \<open>\<^verbatim>\<open>os.Remove\<close>: a file or an empty directory.\<close>

definition remove_one :: "disk \<Rightarrow> path \<Rightarrow> tree \<Rightarrow> tree \<times> bool" where
  "remove_one d p t =
     (if p = [] \<or> node_at t p = None \<or> has_children t p \<or> no_delete d t p then (t, False)
      else (remove_key p t, True))"

text \<open>\<^verbatim>\<open>os.RemoveAll\<close>: everything at and below the path that can be deleted; a directory goes only
  with all that is in it, a missing path is a success.\<close>

definition remove_all :: "disk \<Rightarrow> path \<Rightarrow> tree \<Rightarrow> tree \<times> bool" where
  "remove_all d p t =
     (let stuck = filter (\<lambda>q. prefix p q \<and> no_delete d t q) (keys_of t);
          keep = (\<lambda>q. \<not> prefix p q \<or> list_ex (prefix q) stuck)
      in (filter (\<lambda>(q, _). keep q) t, stuck = []))"

section \<open>Walking\<close>

text \<open>\<^verbatim>\<open>filepath.WalkDir\<close> visits the directory it is given and then what is below in lexical order, a
  directory before what it holds, which is the lexicographic order of the elements.\<close>

definition walk_order :: "tree \<Rightarrow> path \<Rightarrow> path list" where
  "walk_order t base = base # sort (filter (strict_prefix base) (keys_of t))"

section \<open>A tree that a file system can hold\<close>

definition wf_tree :: "tree \<Rightarrow> bool" where
  "wf_tree t \<longleftrightarrow> wf_map t \<and> [] \<notin> fst ` set t \<and>
     list_all (\<lambda>p. node_at t (butlast p) = Some Dir) (keys_of t)"

lemma node_at_Nil [simp]: "node_at t [] = Some Dir"
  by (simp add: node_at_def)

lemma node_at_put [simp]: "p \<noteq> [] \<Longrightarrow> node_at (put p n t) q = (if q = p then Some n else node_at t q)"
  by (simp add: node_at_def)

lemma node_at_remove_key [simp]: "p \<noteq> [] \<Longrightarrow> node_at (remove_key p t) q = (if q = p then None else node_at t q)"
  by (simp add: node_at_def)

lemma node_at_keys: "p \<noteq> [] \<Longrightarrow> p \<in> fst ` set t \<longleftrightarrow> node_at t p \<noteq> None"
  by (simp add: node_at_def map_of_eq_None_iff)

lemma node_at_listed: "p \<in> fst ` set t \<Longrightarrow> node_at t p \<noteq> None"
  by (cases "p = []") (simp_all add: node_at_keys)

lemma wf_treeI:
  assumes "wf_map t" and "[] \<notin> fst ` set t"
    and "\<And>p. p \<in> set (keys_of t) \<Longrightarrow> node_at t (butlast p) = Some Dir"
  shows "wf_tree t"
  using assms by (auto simp: wf_tree_def list_all_iff)

lemma wf_tree_map: "wf_tree t \<Longrightarrow> wf_map t"
  by (simp add: wf_tree_def)

lemma wf_tree_listed:
  "wf_tree t \<Longrightarrow> p \<in> fst ` set t \<Longrightarrow> p \<noteq> [] \<and> node_at t (butlast p) = Some Dir"
  by (auto simp: wf_tree_def list_all_iff image_iff)

lemma wf_tree_parent: "wf_tree t \<Longrightarrow> node_at t p \<noteq> None \<Longrightarrow> node_at t (butlast p) = Some Dir"
  using wf_tree_listed [of t p] node_at_keys [of p t] by (cases "p = []") auto

text \<open>Every directory above something that is there is there.\<close>

lemma wf_tree_ancestor:
  assumes "wf_tree t" and "node_at t p \<noteq> None" and "strict_prefix q p"
  shows "node_at t q = Some Dir"
  using assms(2,3)
proof (induction p rule: rev_induct)
  case (snoc x p)
  have parent: "node_at t p = Some Dir"
    using wf_tree_parent [OF assms(1) snoc.prems(1)] by simp
  from snoc.prems(2) have "q = p \<or> strict_prefix q p" by (auto simp: strict_prefix_def prefix_snoc)
  then show ?case using parent snoc.IH by auto
qed simp

lemma wf_tree_put:
  assumes "wf_tree t" and "p \<noteq> []" and "node_at t (butlast p) = Some Dir"
    and "n = Dir \<or> node_at t p \<noteq> Some Dir"
  shows "wf_tree (put p n t)"
proof (rule wf_treeI)
  show "wf_map (put p n t)" and "[] \<notin> fst ` set (put p n t)"
    using assms(1,2) by (auto simp: wf_tree_def)
next
  fix q assume q: "q \<in> set (keys_of (put p n t))"
  have b: "butlast p \<noteq> p" using assms(2) by (metis append_butlast_last_id not_Cons_self2 self_append_conv)
  show "node_at (put p n t) (butlast q) = Some Dir"
  proof (cases "q = p")
    case True
    with assms(2,3) b show ?thesis by simp
  next
    case False
    with q have "q \<in> set (keys_of t)" by simp
    then have d: "node_at t (butlast q) = Some Dir" using assms(1) by (auto simp: wf_tree_def list_all_iff)
    with assms(2,4) show ?thesis by auto
  qed
qed

lemma wf_tree_remove_leaf:
  assumes "wf_tree t" and "p \<noteq> []" and "\<not> has_children t p"
  shows "wf_tree (remove_key p t)"
proof (rule wf_treeI)
  show "wf_map (remove_key p t)" and "[] \<notin> fst ` set (remove_key p t)"
    using assms(1) by (auto simp: wf_tree_def)
next
  fix q assume q: "q \<in> set (keys_of (remove_key p t))"
  then have "q \<in> fst ` set t" and "q \<noteq> p" by auto
  then have d: "node_at t (butlast q) = Some Dir" and "q \<noteq> []"
    using wf_tree_listed [OF assms(1)] by blast+
  have "butlast q \<noteq> p"
  proof
    assume b: "butlast q = p"
    have "q = p @ [last q]" using \<open>q \<noteq> []\<close> b append_butlast_last_id [of q] by simp
    then have "strict_prefix p q" by (metis not_Cons_self2 prefixI self_append_conv strict_prefixI)
    with assms(3) \<open>q \<in> fst ` set t\<close> show False by (auto simp: has_children_def list_ex_iff)
  qed
  with assms(2) d show "node_at (remove_key p t) (butlast q) = Some Dir" by simp
qed

lemma file_has_no_children: "wf_tree t \<Longrightarrow> node_at t p = Some (File b) \<Longrightarrow> \<not> has_children t p"
proof
  assume w: "wf_tree t" and f: "node_at t p = Some (File b)" and "has_children t p"
  then obtain q where q: "q \<in> fst ` set t" and s: "strict_prefix p q"
    by (auto simp: has_children_def list_ex_iff)
  have "node_at t q \<noteq> None" by (rule node_at_listed [OF q])
  from wf_tree_ancestor [OF w this s] f show False by simp
qed

text \<open>What is read at a path depends only on what is there.\<close>

lemma read_file_same:
  "unreadable d = (\<lambda>_ _. False) \<Longrightarrow> node_at t p \<noteq> None \<Longrightarrow> node_at t' p = node_at t p \<Longrightarrow>
     read_file d t' p = read_file d t p"
  by (auto simp: read_file_def split: node.split)

section \<open>What each operation changes\<close>

text \<open>Two trees agree away from a set of paths.\<close>

definition same_but :: "path set \<Rightarrow> tree \<Rightarrow> tree \<Rightarrow> bool" where
  "same_but P t t' \<longleftrightarrow> (\<forall>p. p \<notin> P \<longrightarrow> node_at t' p = node_at t p)"

lemma same_but_refl [intro, simp]: "same_but P t t"
  by (simp add: same_but_def)

lemma same_but_trans: "same_but P t t' \<Longrightarrow> same_but Q t' t'' \<Longrightarrow> same_but (P \<union> Q) t t''"
  by (simp add: same_but_def)

lemma same_but_mono: "same_but P t t' \<Longrightarrow> P \<subseteq> Q \<Longrightarrow> same_but Q t t'"
  by (auto simp: same_but_def)

lemma same_butD: "same_but P t t' \<Longrightarrow> p \<notin> P \<Longrightarrow> node_at t' p = node_at t p"
  by (simp add: same_but_def)

text \<open>Making directories keeps every file and every directory that is there.\<close>

definition grows :: "tree \<Rightarrow> tree \<Rightarrow> bool" where
  "grows t t' \<longleftrightarrow> (\<forall>p. node_at t' p = node_at t p \<or> (node_at t p = None \<and> node_at t' p = Some Dir))"

lemma grows_refl [intro, simp]: "grows t t"
  by (simp add: grows_def)

lemma grows_trans: "grows t t' \<Longrightarrow> grows t' t'' \<Longrightarrow> grows t t''"
  by (simp add: grows_def) metis

lemma grows_keeps: "grows t t' \<Longrightarrow> node_at t p = Some n \<Longrightarrow> node_at t' p = Some n"
  by (auto simp: grows_def dest: spec [of _ p])

lemma grows_file: "grows t t' \<Longrightarrow> node_at t' p = Some (File b) \<longleftrightarrow> node_at t p = Some (File b)"
  by (auto simp: grows_def dest: spec [of _ p])

lemma make_dirs_grows: "make_dirs d qs t = (t', ok) \<Longrightarrow> grows t t'"
proof (induction qs arbitrary: t)
  case (Cons q qs)
  show ?case
  proof (cases "node_at t q = None \<and> \<not> no_mkdir d t q")
    case True
    then have "q \<noteq> []" by auto
    have "make_dirs d qs (put q Dir t) = (t', ok)" using True Cons.prems by simp
    then have "grows (put q Dir t) t'" by (rule Cons.IH)
    moreover have "grows t (put q Dir t)" using True \<open>q \<noteq> []\<close> by (simp add: grows_def)
    ultimately show ?thesis by (rule grows_trans [rotated])
  next
    case False
    with Cons.prems Cons.IH show ?thesis by (auto split: option.splits node.splits if_splits)
  qed
qed simp

lemma mkdir_all_grows: "mkdir_all d p t = (t', ok) \<Longrightarrow> grows t t'"
  by (simp add: mkdir_all_def make_dirs_grows)

lemma make_dirs_ok: "make_dirs d qs t = (t', True) \<Longrightarrow> q \<in> set qs \<Longrightarrow> node_at t' q = Some Dir"
proof (induction qs arbitrary: t)
  case (Cons r qs)
  have step: "\<exists>t1. make_dirs d qs t1 = (t', True) \<and> node_at t1 r = Some Dir"
    using Cons.prems(1) by (cases "r = []") (auto split: option.splits node.splits if_splits)
  then obtain t1 where t1: "make_dirs d qs t1 = (t', True)" "node_at t1 r = Some Dir" by blast
  from Cons.prems(2) show ?case
  proof (cases "q \<in> set qs")
    case True
    with Cons.IH t1(1) show ?thesis by blast
  next
    case False
    with Cons.prems(2) have "q = r" by simp
    with grows_keeps [OF make_dirs_grows [OF t1(1)] t1(2)] show ?thesis by simp
  qed
qed simp

lemma make_dirs_changes: "make_dirs d qs t = (t', ok) \<Longrightarrow> node_at t' q \<noteq> node_at t q \<Longrightarrow> q \<in> set qs"
proof (induction qs arbitrary: t)
  case (Cons r qs)
  show ?case
  proof (cases "node_at t r = None \<and> \<not> no_mkdir d t r \<and> q \<noteq> r")
    case True
    then have "r \<noteq> []" by auto
    have "make_dirs d qs (put r Dir t) = (t', ok)" using True Cons.prems(1) by simp
    from Cons.IH [OF this] Cons.prems(2) True \<open>r \<noteq> []\<close> show ?thesis by simp
  next
    case False
    with Cons.prems Cons.IH [of t] show ?thesis by (auto split: option.splits node.splits if_splits)
  qed
qed simp

lemma mkdir_all_changes: "mkdir_all d p t = (t', ok) \<Longrightarrow> node_at t' q \<noteq> node_at t q \<Longrightarrow> prefix q p"
  unfolding mkdir_all_def using make_dirs_changes by fastforce

lemma mkdir_all_ok: "mkdir_all d p t = (t', True) \<Longrightarrow> node_at t' p = Some Dir"
  by (simp add: mkdir_all_def make_dirs_ok)

lemma make_dirs_wf:
  assumes "make_dirs d qs t = (t', ok)" and "wf_tree t"
    and "\<And>a q b. qs = a @ q # b \<Longrightarrow> q = [] \<or> butlast q \<in> set a \<or> node_at t (butlast q) = Some Dir"
  shows "wf_tree t'"
  using assms
proof (induction qs arbitrary: t)
  case Nil
  then show ?case by simp
next
  case (Cons q qs)
  have top: "q = [] \<or> node_at t (butlast q) = Some Dir" using Cons.prems(3) [of "[]" q qs] by simp
  have rest: "r = [] \<or> butlast r \<in> set a \<or> node_at t1 (butlast r) = Some Dir"
    if "qs = a @ r # b" and "grows t t1" and "node_at t1 q = Some Dir" for a r b t1
    using Cons.prems(3) [of "q # a" r b] that grows_keeps [OF that(2)] by auto
  show ?case
  proof (cases "node_at t q")
    case None
    then have ne: "q \<noteq> []" by auto
    show ?thesis
    proof (cases "no_mkdir d t q")
      case False
      have w: "wf_tree (put q Dir t)" using wf_tree_put [OF Cons.prems(2) ne] top ne by simp
      have g: "grows t (put q Dir t)" using None ne by (simp add: grows_def)
      have m: "make_dirs d qs (put q Dir t) = (t', ok)" using Cons.prems(1) None False by simp
      show ?thesis by (rule Cons.IH [OF m w]) (use rest [OF _ g] ne in auto)
    qed (use None Cons.prems in auto)
  next
    case (Some n)
    show ?thesis
    proof (cases n)
      case Dir
      have m: "make_dirs d qs t = (t', ok)" using Cons.prems(1) Some Dir by simp
      show ?thesis by (rule Cons.IH [OF m Cons.prems(2)]) (use rest [of _ _ _ t] Some Dir in auto)
    qed (use Some Cons.prems in auto)
  qed
qed

lemma prefixes_parent:
  "prefixes p = a @ q # b \<Longrightarrow> q = [] \<or> butlast q \<in> set a"
proof (induction p arbitrary: b rule: rev_induct)
  case Nil
  then show ?case by (auto simp: Cons_eq_append_conv)
next
  case (snoc x p)
  have e: "prefixes p @ [p @ [x]] = a @ q # b" using snoc.prems by simp
  show ?case
  proof (cases b rule: rev_cases)
    case Nil
    then have "q = p @ [x]" and "a = prefixes p" using e by auto
    then show ?thesis by simp
  next
    case (snoc b' y)
    then have "prefixes p = a @ q # b'" using e by simp
    then show ?thesis by (rule snoc.IH)
  qed
qed

lemma mkdir_all_wf: "wf_tree t \<Longrightarrow> wf_tree (fst (mkdir_all d p t))"
proof -
  assume w: "wf_tree t"
  obtain t' ok where m: "make_dirs d (prefixes p) t = (t', ok)" by (cases "make_dirs d (prefixes p) t")
  show "wf_tree (fst (mkdir_all d p t))"
    using make_dirs_wf [OF m w] prefixes_parent [of p] m by (auto simp: mkdir_all_def)
qed

lemma write_file_same_but [tree_ops]: "write_file d p b t = (t', ok) \<Longrightarrow> same_but {p} t t'"
  by (cases "p = []") (auto simp: write_file_def same_but_def split: if_splits option.splits)

lemma write_file_ok [tree_ops]: "write_file d p b t = (t', True) \<Longrightarrow> node_at t' p = Some (File b)"
  by (cases "p = []") (auto simp: write_file_def split: if_splits option.splits)

lemma write_file_keeps_dirs: "write_file d p b t = (t', ok) \<Longrightarrow> node_at t q = Some Dir \<Longrightarrow> node_at t' q = Some Dir"
  by (cases "p = []") (auto simp: write_file_def split: if_splits option.splits)

lemma write_file_wf: "wf_tree t \<Longrightarrow> wf_tree (fst (write_file d p b t))"
  by (cases "p = []") (auto simp: write_file_def intro: wf_tree_put split: option.splits)

lemma rename_file_same_but [tree_ops]: "rename_file d p q t = (t', ok) \<Longrightarrow> same_but {p, q} t t'"
  by (cases "p = []"; cases "q = []")
    (auto simp: rename_file_def same_but_def split: if_splits option.splits node.splits)

lemma rename_file_ok [tree_ops]:
  "rename_file d p q t = (t', True) \<Longrightarrow> node_at t p = Some (File b) \<Longrightarrow> node_at t' q = Some (File b)"
  by (cases "p = []"; cases "q = []") (auto simp: rename_file_def split: if_splits option.splits node.splits)

lemma rename_file_wf: "wf_tree t \<Longrightarrow> wf_tree (fst (rename_file d p q t))"
proof (cases "node_at t p")
  case (Some n)
  assume w: "wf_tree t"
  show ?thesis
  proof (cases n)
    case (File b)
    have p: "p \<noteq> []" and leaf: "\<not> has_children t p"
      using Some File file_has_no_children [OF w] by auto
    have w': "wf_tree (remove_key p t)" by (rule wf_tree_remove_leaf [OF w p leaf])
    show ?thesis
    proof (cases "node_at t q = Some Dir \<or> node_at t (butlast q) \<noteq> Some Dir \<or> no_rename d t q")
      case False
      then have q: "q \<noteq> []" and "butlast q \<noteq> p" using Some File by auto
      then have "wf_tree (put q (File b) (remove_key p t))"
        using False p by (intro wf_tree_put [OF w']) auto
      then show ?thesis using Some File False by (simp add: rename_file_def)
    qed (use Some File w in \<open>simp add: rename_file_def\<close>)
  qed (use Some w in \<open>simp add: rename_file_def\<close>)
qed (simp add: rename_file_def)

lemma remove_one_same_but [tree_ops]: "remove_one d p t = (t', ok) \<Longrightarrow> same_but {p} t t'"
  by (auto simp: remove_one_def same_but_def split: if_splits)

lemma remove_one_ok [tree_ops]: "remove_one d p t = (t', True) \<Longrightarrow> node_at t' p = None"
  by (auto simp: remove_one_def split: if_splits)

lemma remove_one_wf: "wf_tree t \<Longrightarrow> wf_tree (fst (remove_one d p t))"
  by (auto simp: remove_one_def intro: wf_tree_remove_leaf)

lemma node_at_filter:
  "node_at (filter (\<lambda>(q, _). P q) t) p = (if p = [] then Some Dir else if P p then node_at t p else None)"
proof -
  have "map_of (filter (\<lambda>(q, _). P q) t) p = (if P p then map_of t p else None)"
    by (induction t) auto
  then show ?thesis by (simp add: node_at_def)
qed

text \<open>What \<^const>\<open>remove_all\<close> leaves: what is elsewhere, and what could not be deleted with the directories
  that hold it.\<close>

lemma node_at_remove_all:
  "node_at (fst (remove_all d p t)) q =
     (if q = [] then Some Dir
      else if \<not> prefix p q \<or> list_ex (prefix q) (filter (\<lambda>q. prefix p q \<and> no_delete d t q) (keys_of t))
      then node_at t q else None)"
  unfolding remove_all_def Let_def fst_conv by (rule node_at_filter)

lemma remove_all_same_but [tree_ops]:
  "remove_all d p t = (t', ok) \<Longrightarrow> same_but {q. prefix p q} t t'"
  using node_at_remove_all [of d p t] by (auto simp: same_but_def)

lemma remove_all_ok [tree_ops]:
  assumes "remove_all d p t = (t', True)" and "prefix p q" and "q \<noteq> []"
  shows "node_at t' q = None"
proof -
  have "filter (\<lambda>q. prefix p q \<and> no_delete d t q) (keys_of t) = []"
    using assms(1) by (simp add: remove_all_def Let_def)
  with assms show ?thesis using node_at_remove_all [of d p t q] by simp
qed

lemma remove_all_wf:
  assumes w: "wf_tree t"
  shows "wf_tree (fst (remove_all d p t))"
proof (rule wf_treeI)
  show "wf_map (fst (remove_all d p t))" and "[] \<notin> fst ` set (fst (remove_all d p t))"
    using w by (auto simp: remove_all_def Let_def wf_tree_def)
next
  fix q assume "q \<in> set (keys_of (fst (remove_all d p t)))"
  define stuck where "stuck = filter (\<lambda>q. prefix p q \<and> no_delete d t q) (keys_of t)"
  define keep where "keep q \<longleftrightarrow> \<not> prefix p q \<or> list_ex (prefix q) stuck" for q
  have r: "fst (remove_all d p t) = filter (\<lambda>(q, _). keep q) t"
    by (simp add: remove_all_def Let_def keep_def stuck_def)
  from \<open>q \<in> _\<close> have q: "q \<in> set (keys_of t)" "keep q" by (auto simp: r)
  then have d: "node_at t (butlast q) = Some Dir" using wf_tree_listed [OF w] by simp
  have "prefix (butlast q) q" by (rule prefixeq_butlast)
  then have "keep (butlast q)" using q(2) by (auto simp: keep_def list_ex_iff intro: prefix_order.trans)
  with d show "node_at (fst (remove_all d p t)) (butlast q) = Some Dir"
    by (simp add: r node_at_filter)
qed

lemma walk_order_mem: "p \<in> set (walk_order t base) \<longleftrightarrow> p = base \<or> (strict_prefix base p \<and> p \<in> fst ` set t)"
  by (auto simp: walk_order_def)

lemma walk_order_distinct: "wf_map t \<Longrightarrow> distinct (walk_order t base)"
  by (simp add: walk_order_def)

end
