(* ===== verification/Banners.thy ===== *)
theory Banners
  imports ProjectTree
begin

text \<open>
  The banners by which codegen knows its own files (\<^verbatim>\<open>internal/codegen/codegen.go\<close>): the regular
  expressions, matched as \<^verbatim>\<open>regexp\<close> matches them, on the first 4096 bytes of a file.
\<close>

section \<open>Regular expressions\<close>

text \<open>The constructs the patterns use: a literal, any rune but a newline (\<^verbatim>\<open>.\<close> and \<^verbatim>\<open>[^\n]\<close>), one
  byte of a class, the beginning of a line (\<^verbatim>\<open>^\<close> under \<^verbatim>\<open>(?m)\<close>), a word boundary (\<^verbatim>\<open>\b\<close>), sequence,
  choice, at most \<open>n\<close> and any number of repetitions.\<close>

datatype rx =
    Lit string
  | AnyRune
  | OneOf "char \<Rightarrow> bool"
  | LineStart
  | WordEdge
  | Then rx rx
  | Or rx rx
  | UpTo nat rx
  | Many rx

text \<open>The length of the rune a text begins with; a byte that starts no valid encoding stands for
  itself.\<close>

definition continuation :: "char \<Rightarrow> bool" where
  "continuation c \<longleftrightarrow> (of_char c :: nat) div 64 = 2"

definition rune_len :: "string \<Rightarrow> nat" where
  "rune_len s = (case s of
       [] \<Rightarrow> 0
     | c # rest \<Rightarrow>
         (let b = (of_char c :: nat);
              tail = (\<lambda>n. length rest \<ge> n \<and> list_all continuation (take n rest));
              second = (case rest of [] \<Rightarrow> 0 | c' # _ \<Rightarrow> (of_char c' :: nat))
          in if 0xC2 \<le> b \<and> b \<le> 0xDF \<and> tail 1 then 2
             else if 0xE0 \<le> b \<and> b \<le> 0xEF \<and> tail 2 \<and> (b = 0xE0 \<longrightarrow> 0xA0 \<le> second) \<and>
                     (b = 0xED \<longrightarrow> second \<le> 0x9F) then 3
             else if 0xF0 \<le> b \<and> b \<le> 0xF4 \<and> tail 3 \<and> (b = 0xF0 \<longrightarrow> 0x90 \<le> second) \<and>
                     (b = 0xF4 \<longrightarrow> second \<le> 0x8F) then 4
             else 1))"

definition word_char :: "char \<Rightarrow> bool" where
  "word_char c \<longleftrightarrow> (let b = (of_char c :: nat)
     in (48 \<le> b \<and> b \<le> 57) \<or> (65 \<le> b \<and> b \<le> 90) \<or> b = 95 \<or> (97 \<le> b \<and> b \<le> 122))"

primrec repeats :: "(nat \<Rightarrow> nat list) \<Rightarrow> nat \<Rightarrow> nat \<Rightarrow> nat list" where
  "repeats f 0 i = [i]"
| "repeats f (Suc n) i = i # concat (map (repeats f n) (f i))"

text \<open>The ends of the matches that begin at a position.\<close>

primrec ends :: "string \<Rightarrow> rx \<Rightarrow> nat \<Rightarrow> nat list" where
  "ends s (Lit l) i = (if prefix l (drop i s) then [i + length l] else [])"
| "ends s AnyRune i = (if i < length s \<and> s ! i \<noteq> nl then [i + rune_len (drop i s)] else [])"
| "ends s (OneOf P) i = (if i < length s \<and> P (s ! i) then [Suc i] else [])"
| "ends s LineStart i = (if i = 0 \<or> s ! (i - 1) = nl then [i] else [])"
| "ends s WordEdge i =
     (if (0 < i \<and> word_char (s ! (i - 1))) \<noteq> (i < length s \<and> word_char (s ! i)) then [i] else [])"
| "ends s (Then a b) i = concat (map (ends s b) (ends s a i))"
| "ends s (Or a b) i = ends s a i @ ends s b i"
| "ends s (UpTo n a) i = repeats (ends s a) n i"
| "ends s (Many a) i = repeats (ends s a) (length s - i) i"

text \<open>\<^verbatim>\<open>Regexp.Match\<close>: a match begins somewhere.\<close>

definition rx_match :: "rx \<Rightarrow> string \<Rightarrow> bool" where
  "rx_match r s \<longleftrightarrow> list_ex (\<lambda>i. ends s r i \<noteq> []) [0..<Suc (length s)]"

section \<open>The banners\<close>

definition line_opener :: "nat \<Rightarrow> rx" where
  "line_opener n = Then LineStart (UpTo n AnyRune)"

definition infra_marker_re :: rx where
  "infra_marker_re =
     Then (Lit ''Code generated by w17 (infra target '')
       (Then (OneOf (\<lambda>c. c \<in> set ''abcdefghijklmnopqrstuvwxyz0123456789-''))
         (Then (Many (OneOf (\<lambda>c. c \<in> set ''abcdefghijklmnopqrstuvwxyz0123456789-''))) (Lit '')'')))"

definition client_marker_re :: rx where
  "client_marker_re = Then (line_opener 16) (Lit ''Generated by wandering-compiler client generator'')"

definition em_dash :: string where
  "em_dash = [CHR 0xE2, CHR 0x80, CHR 0x94]"

definition generated_marker_re :: rx where
  "generated_marker_re =
     Or (Then (line_opener 16)
          (Then (Or (Lit ''Code generated'')
                    (Then (Lit ''Generated by '') (Then (Or (Lit ''w17'') (Lit ''wandering-compiler'')) WordEdge)))
            (Then (Many AnyRune)
              (Then (UpTo 1 (Then (Lit [nl]) (UpTo 16 AnyRune))) (Lit ''DO NOT EDIT'')))))
     (Or client_marker_re
     (Or (Then (line_opener 48) (Lit ''generated by w17ctl projectmap. DO NOT EDIT''))
         (Then LineStart (Then (Lit ''# '') (Then (Many AnyRune)
           (Lit (''(GENERATED '' @ em_dash @ '' DO NOT EDIT; refresh with'')))))))"

definition marker_window :: nat where
  "marker_window = 4096"

text \<open>A file that cannot be opened or read has no banner.\<close>

definition head_matches :: "rx \<Rightarrow> disk \<Rightarrow> tree \<Rightarrow> path \<Rightarrow> bool" where
  "head_matches r d t p =
     (case read_file d t p of Bytes b \<Rightarrow> rx_match r (take marker_window b) | _ \<Rightarrow> False)"

definition has_infra_marker :: "disk \<Rightarrow> tree \<Rightarrow> path \<Rightarrow> bool" where
  "has_infra_marker d t p = head_matches infra_marker_re d t p"

definition has_generated_marker :: "disk \<Rightarrow> tree \<Rightarrow> path \<Rightarrow> bool" where
  "has_generated_marker d t p = head_matches generated_marker_re d t p"

definition has_client_marker :: "disk \<Rightarrow> tree \<Rightarrow> path \<Rightarrow> bool" where
  "has_client_marker d t p = head_matches client_marker_re d t p"

text \<open>A body no banner speaks for.\<close>

definition headerless_output :: "string \<Rightarrow> bool" where
  "headerless_output b \<longleftrightarrow>
     \<not> rx_match generated_marker_re (take marker_window b) \<and>
     \<not> rx_match infra_marker_re (take marker_window b)"

section \<open>What a match of the first bytes says\<close>

text \<open>A file whose bytes codegen would stamp is one it recognises by its banner, and the other way
  round.\<close>

lemma headerless_on_disk:
  "read_file d t p = Bytes b \<Longrightarrow>
     headerless_output b \<longleftrightarrow> \<not> has_generated_marker d t p \<and> \<not> has_infra_marker d t p"
  by (simp add: headerless_output_def has_generated_marker_def has_infra_marker_def head_matches_def)

lemma rx_match_Or: "rx_match (Or a b) s \<longleftrightarrow> rx_match a s \<or> rx_match b s"
  by (auto simp: rx_match_def list_ex_iff)

text \<open>The client generator's banner is one of the general ones.\<close>

lemma client_is_generated: "rx_match client_marker_re s \<Longrightarrow> rx_match generated_marker_re s"
  by (simp add: generated_marker_re_def rx_match_Or)

lemma rx_match_at: "i \<le> length s \<Longrightarrow> j \<in> set (ends s r i) \<Longrightarrow> rx_match r s"
proof -
  assume i: "i \<le> length s" and "j \<in> set (ends s r i)"
  then have "ends s r i \<noteq> []" by auto
  with i show ?thesis unfolding rx_match_def list_ex_iff by (intro bexI [of _ i]) auto
qed

text \<open>A pattern that is a literal matches the texts that contain it.\<close>

lemma rx_match_Lit: "rx_match (Lit l) s \<longleftrightarrow> sublist l s"
proof
  assume "rx_match (Lit l) s"
  then obtain i where "prefix l (drop i s)" by (auto simp: rx_match_def list_ex_iff split: if_splits)
  then obtain r where "drop i s = l @ r" by (auto simp: prefix_def)
  then have "s = take i s @ l @ r" by (metis append_take_drop_id)
  then show "sublist l s" by (metis sublist_appendI)
next
  assume "sublist l s"
  then obtain a b where s: "s = a @ l @ b" by (auto simp: sublist_def)
  show "rx_match (Lit l) s" by (rule rx_match_at [of "length a" _ "length a + length l"]) (simp_all add: s)
qed

end
