(* ===== verification/GoMod.thy ===== *)
theory GoMod
  imports ProjectTree
begin

text \<open>
  The \<^verbatim>\<open>go.mod\<close> files of a generated project (\<^verbatim>\<open>internal/codegen/codegen.go\<close>): the operator's
  \<^verbatim>\<open>replace\<close> lines and the resolved \<^verbatim>\<open>sdk/go\<close> requirement that a regeneration must not lose, the
  pinning of the placeholder the generator emits, and the workspace's list of modules.

  \<^verbatim>\<open>golang.org/x/mod/modfile\<close> and \<^verbatim>\<open>semver\<close> are not part of the program. They are the record
  \<open>modlib\<close> here and \<open>semver\<close> in \<open>SdkPins\<close>; what the code relies on is \<open>mod_laws\<close> and that versions are compared by
  a \<open>comparison\<close>.
\<close>

section \<open>The module file library\<close>

record replacement =
  old_path :: string
  old_version :: string
  new_path :: string
  new_version :: string

type_synonym requirement = "string \<times> string"

record 'm modlib =
  mod_parse :: "string \<Rightarrow> 'm option"
  mod_requires :: "'m \<Rightarrow> requirement list"
  mod_replaces :: "'m \<Rightarrow> replacement list"
  add_require :: "string \<Rightarrow> string \<Rightarrow> 'm \<Rightarrow> 'm option"
  add_replace :: "replacement \<Rightarrow> 'm \<Rightarrow> 'm option"
  mod_cleanup :: "'m \<Rightarrow> 'm"
  mod_format :: "'m \<Rightarrow> string option"

text \<open>What the package documents: a formatted file parses back to what it said, \<^verbatim>\<open>AddRequire\<close> leaves
  one requirement of that path at that version and every other, \<^verbatim>\<open>AddReplace\<close> of a path the file does
  not replace adds that line and keeps the others, neither touches the other list, and \<^verbatim>\<open>Cleanup\<close>
  only removes what was marked removed.\<close>

definition mod_laws :: "'m modlib \<Rightarrow> bool" where
  "mod_laws L \<longleftrightarrow>
     (\<forall>m s. mod_format L m = Some s \<longrightarrow>
        (\<exists>m'. mod_parse L s = Some m' \<and> mod_requires L m' = mod_requires L m \<and>
              mod_replaces L m' = mod_replaces L m)) \<and>
     (\<forall>p v m m'. add_require L p v m = Some m' \<longrightarrow>
        mod_replaces L m' = mod_replaces L m \<and>
        filter (\<lambda>r. fst r = p) (mod_requires L m') = [(p, v)] \<and>
        filter (\<lambda>r. fst r \<noteq> p) (mod_requires L m') = filter (\<lambda>r. fst r \<noteq> p) (mod_requires L m)) \<and>
     (\<forall>r m m'. add_replace L r m = Some m' \<longrightarrow>
        mod_requires L m' = mod_requires L m \<and>
        (old_path r \<notin> old_path ` set (mod_replaces L m) \<longrightarrow>
           set (mod_replaces L m') = insert r (set (mod_replaces L m)))) \<and>
     (\<forall>m. mod_requires L (mod_cleanup L m) = mod_requires L m \<and>
          mod_replaces L (mod_cleanup L m) = mod_replaces L m)"

lemma format_law:
  "mod_laws L \<Longrightarrow> mod_format L m = Some s \<Longrightarrow>
     \<exists>m'. mod_parse L s = Some m' \<and> mod_requires L m' = mod_requires L m \<and> mod_replaces L m' = mod_replaces L m"
  by (simp add: mod_laws_def)

lemma require_law:
  assumes "mod_laws L" and "add_require L p v m = Some m'"
  shows "mod_replaces L m' = mod_replaces L m"
    and "filter (\<lambda>r. fst r = p) (mod_requires L m') = [(p, v)]"
    and "filter (\<lambda>r. fst r \<noteq> p) (mod_requires L m') = filter (\<lambda>r. fst r \<noteq> p) (mod_requires L m)"
  using assms by (simp_all add: mod_laws_def)

lemma replace_law:
  assumes "mod_laws L" and "add_replace L r m = Some m'"
  shows "mod_requires L m' = mod_requires L m"
    and "old_path r \<notin> old_path ` set (mod_replaces L m) \<Longrightarrow>
           set (mod_replaces L m') = insert r (set (mod_replaces L m))"
  using assms by (simp_all add: mod_laws_def)

lemma cleanup_law:
  "mod_laws L \<Longrightarrow> mod_requires L (mod_cleanup L m) = mod_requires L m"
  "mod_laws L \<Longrightarrow> mod_replaces L (mod_cleanup L m) = mod_replaces L m"
  by (simp_all add: mod_laws_def)

section \<open>What a regeneration preserves\<close>

definition sdk_module_base :: string where
  "sdk_module_base = ''github.com/wandering-compiler''"

definition srcgo_module_base :: string where
  "srcgo_module_base = ''github.com/wandering-compiler/platform''"

definition sdk_mod :: string where
  "sdk_mod = sdk_module_base @ ''/sdk/go''"

definition is_placeholder_version :: "string \<Rightarrow> bool" where
  "is_placeholder_version v \<longleftrightarrow> v = ''v0.0.0'' \<or> prefix ''v0.0.0-00010101000000'' v"

definition required_version :: "requirement list \<Rightarrow> string \<Rightarrow> string" where
  "required_version rs m = (case map_of rs m of Some v \<Rightarrow> v | None \<Rightarrow> [])"

datatype mod_error = ParseNew | ReadExisting | ParseExisting | KeepPin | AddLine | FormatMod

definition preserve_resolved_sdk_pin ::
    "'m modlib \<Rightarrow> disk \<Rightarrow> tree \<Rightarrow> path \<Rightarrow> string \<Rightarrow> mod_error + string" where
  "preserve_resolved_sdk_pin L d t existing new =
     (case mod_parse L new of
        None \<Rightarrow> Inl ParseNew
      | Some m \<Rightarrow>
          (let incoming = required_version (mod_requires L m) sdk_mod
           in if incoming = [] \<or> \<not> is_placeholder_version incoming then Inr new
              else case read_file d t existing of
                NotExist \<Rightarrow> Inr new
              | ReadError \<Rightarrow> Inl ReadExisting
              | Bytes b \<Rightarrow>
                  (case mod_parse L b of
                     None \<Rightarrow> Inl ParseExisting
                   | Some e \<Rightarrow>
                       (let resolved = required_version (mod_requires L e) sdk_mod
                        in if resolved = [] \<or> is_placeholder_version resolved then Inr new
                           else case add_require L sdk_mod resolved m of
                             None \<Rightarrow> Inl KeepPin
                           | Some m' \<Rightarrow>
                               (case mod_format L (mod_cleanup L m') of
                                  None \<Rightarrow> Inl FormatMod
                                | Some out \<Rightarrow> Inr out)))))"

definition dead_path :: "string \<Rightarrow> bool" where
  "dead_path p \<longleftrightarrow> p = srcgo_module_base @ ''/srcgo'' \<or> p = srcgo_module_base @ ''/sdk/go'' \<or>
     prefix (srcgo_module_base @ ''/plugins/'') p"

text \<open>The existing lines the new file does not have: every one of them is added, in order; \<open>have\<close> is what
  the new file came with and is not extended.\<close>

definition missing_replaces :: "string list \<Rightarrow> replacement list \<Rightarrow> replacement list" where
  "missing_replaces have rs = filter (\<lambda>r. old_path r \<notin> set have \<and> \<not> dead_path (old_path r)) rs"

fun add_replaces :: "'m modlib \<Rightarrow> replacement list \<Rightarrow> 'm \<Rightarrow> 'm option" where
  "add_replaces L [] m = Some m"
| "add_replaces L (r # rs) m = (case add_replace L r m of None \<Rightarrow> None | Some m' \<Rightarrow> add_replaces L rs m')"

definition merge_go_mod_replaces ::
    "'m modlib \<Rightarrow> disk \<Rightarrow> tree \<Rightarrow> path \<Rightarrow> string \<Rightarrow> mod_error + string" where
  "merge_go_mod_replaces L d t existing new =
     (case read_file d t existing of
        NotExist \<Rightarrow> Inr new
      | ReadError \<Rightarrow> Inl ReadExisting
      | Bytes b \<Rightarrow>
          (case mod_parse L b of
             None \<Rightarrow> Inl ParseExisting
           | Some e \<Rightarrow>
               if mod_replaces L e = [] then Inr new
               else case mod_parse L new of
                 None \<Rightarrow> Inl ParseNew
               | Some m \<Rightarrow>
                   (let add = missing_replaces (map old_path (mod_replaces L m)) (mod_replaces L e)
                    in case add_replaces L add m of
                         None \<Rightarrow> Inl AddLine
                       | Some m' \<Rightarrow>
                           if add = [] then Inr new
                           else case mod_format L (mod_cleanup L m') of
                             None \<Rightarrow> Inl FormatMod
                           | Some out \<Rightarrow> Inr out)))"

text \<open>The two, as the write plan runs them on every \<^verbatim>\<open>go.mod\<close>.\<close>

definition preserve_go_mod ::
    "'m modlib \<Rightarrow> disk \<Rightarrow> tree \<Rightarrow> path \<Rightarrow> string \<Rightarrow> mod_error + string" where
  "preserve_go_mod L d t existing new =
     (case merge_go_mod_replaces L d t existing new of
        Inl e \<Rightarrow> Inl e
      | Inr merged \<Rightarrow> preserve_resolved_sdk_pin L d t existing merged)"

lemma required_version_filter:
  "required_version rs m = (case filter (\<lambda>r. fst r = m) rs of [] \<Rightarrow> [] | (_, v) # _ \<Rightarrow> v)"
  by (induction rs) (auto simp: required_version_def)

lemma required_version_added:
  assumes "mod_laws L" and "add_require L p v m = Some m'"
  shows "required_version (mod_requires L m') q = (if q = p then v else required_version (mod_requires L m) q)"
proof (cases "q = p")
  case True
  with require_law(2) [OF assms] show ?thesis by (simp add: required_version_filter)
next
  case False
  have e: "filter (\<lambda>r. fst r = q) rs = filter (\<lambda>r. fst r = q) (filter (\<lambda>r. fst r \<noteq> p) rs)"
    for rs :: "requirement list"
    using False by (induction rs) auto
  have "filter (\<lambda>r. fst r = q) (mod_requires L m') = filter (\<lambda>r. fst r = q) (mod_requires L m)"
    using e [of "mod_requires L m'"] e [of "mod_requires L m"] require_law(3) [OF assms] by simp
  with False show ?thesis by (simp add: required_version_filter)
qed

lemma add_replaces_requires:
  assumes L: "mod_laws L"
  shows "add_replaces L rs m = Some m' \<Longrightarrow> mod_requires L m' = mod_requires L m"
proof (induction rs arbitrary: m)
  case (Cons r rs)
  then show ?case using replace_law(1) [OF L] by (auto split: option.splits)
qed simp

lemma add_replaces_adds:
  assumes L: "mod_laws L"
  shows "add_replaces L rs m = Some m' \<Longrightarrow> distinct (map old_path rs) \<Longrightarrow>
     set (map old_path rs) \<inter> old_path ` set (mod_replaces L m) = {} \<Longrightarrow>
     set (mod_replaces L m') = set rs \<union> set (mod_replaces L m)"
proof (induction rs arbitrary: m)
  case (Cons r rs)
  from Cons.prems(1) obtain m1 where m1: "add_replace L r m = Some m1" and rest: "add_replaces L rs m1 = Some m'"
    by (auto split: option.splits)
  have new: "old_path r \<notin> old_path ` set (mod_replaces L m)" using Cons.prems(3) by auto
  note law = replace_law(2) [OF L m1 new]
  have "set (mod_replaces L m') = set rs \<union> set (mod_replaces L m1)"
    by (rule Cons.IH [OF rest]) (use Cons.prems law in auto)
  with law show ?case by auto
qed simp

text \<open>What the merge hands on says what the new file said, and more.\<close>

lemma merge_cases:
  assumes m: "merge_go_mod_replaces L d t p new = Inr out"
  obtains (same) "out = new"
  | (added) b e m0 m1 where "read_file d t p = Bytes b" and "mod_parse L b = Some e" and "mod_parse L new = Some m0"
      and "add_replaces L (missing_replaces (map old_path (mod_replaces L m0)) (mod_replaces L e)) m0 = Some m1"
      and "mod_format L (mod_cleanup L m1) = Some out"
proof (cases "out = new")
  case False
  with m obtain b e m0 m1 where "read_file d t p = Bytes b" "mod_parse L b = Some e" "mod_parse L new = Some m0"
      "add_replaces L (missing_replaces (map old_path (mod_replaces L m0)) (mod_replaces L e)) m0 = Some m1"
      "mod_format L (mod_cleanup L m1) = Some out"
    by (auto simp: merge_go_mod_replaces_def Let_def split: read.splits option.splits if_splits)
  then show ?thesis by (rule added)
qed (rule same)

lemma merge_requires:
  assumes L: "mod_laws L" and m: "merge_go_mod_replaces L d t p new = Inr out" and n: "mod_parse L new = Some m0"
  shows "\<exists>m'. mod_parse L out = Some m' \<and> mod_requires L m' = mod_requires L m0"
  using m
proof (cases rule: merge_cases)
  case same
  with n show ?thesis by auto
next
  case (added b e m0' m1)
  with n have "mod_requires L m1 = mod_requires L m0" using add_replaces_requires [OF L] by auto
  then show ?thesis using format_law [OF L added(5)] cleanup_law [OF L] by auto
qed

lemma merge_keeps_replaces:
  assumes L: "mod_laws L" and m: "merge_go_mod_replaces L d t p new = Inr out" and n: "mod_parse L new = Some m0"
    and b: "read_file d t p = Bytes b" and e: "mod_parse L b = Some e"
    and dist: "distinct (map old_path (mod_replaces L e))"
    and r: "r \<in> set (mod_replaces L e)" and live: "\<not> dead_path (old_path r)"
    and gone: "old_path r \<notin> old_path ` set (mod_replaces L m0)"
  shows "\<exists>m'. mod_parse L out = Some m' \<and> r \<in> set (mod_replaces L m')"
proof -
  let ?add = "missing_replaces (map old_path (mod_replaces L m0)) (mod_replaces L e)"
  have mem: "r \<in> set ?add" using r live gone by (simp add: missing_replaces_def)
  then have ne: "?add \<noteq> []" "mod_replaces L e \<noteq> []" using r by auto
  have full: "merge_go_mod_replaces L d t p new =
      (case add_replaces L ?add m0 of None \<Rightarrow> Inl AddLine
       | Some m' \<Rightarrow> (case mod_format L (mod_cleanup L m') of None \<Rightarrow> Inl FormatMod | Some out \<Rightarrow> Inr out))"
    using b e n ne by (simp add: merge_go_mod_replaces_def Let_def split: option.split)
  obtain m1 where m1: "add_replaces L ?add m0 = Some m1" and f: "mod_format L (mod_cleanup L m1) = Some out"
    using m unfolding full by (auto split: option.splits)
  have fresh: "distinct (map old_path ?add)" "set (map old_path ?add) \<inter> old_path ` set (mod_replaces L m0) = {}"
    using dist by (auto simp: missing_replaces_def distinct_map inj_on_def)
  have "set (mod_replaces L m1) = set ?add \<union> set (mod_replaces L m0)"
    by (rule add_replaces_adds [OF L m1 fresh])
  then show ?thesis using mem format_law [OF L f] cleanup_law [OF L] by auto
qed

lemma preserve_pin_cases:
  assumes k: "preserve_resolved_sdk_pin L d t p new = Inr out"
  obtains (same) "out = new" and
      "\<And>m0. mod_parse L new = Some m0 \<Longrightarrow> is_placeholder_version (required_version (mod_requires L m0) sdk_mod) \<Longrightarrow>
         \<forall>b e. read_file d t p = Bytes b \<longrightarrow> mod_parse L b = Some e \<longrightarrow>
           required_version (mod_requires L e) sdk_mod = [] \<or>
           is_placeholder_version (required_version (mod_requires L e) sdk_mod)"
  | (kept) b e m0 m1 where "read_file d t p = Bytes b" and "mod_parse L b = Some e" and "mod_parse L new = Some m0"
      and "is_placeholder_version (required_version (mod_requires L m0) sdk_mod)"
      and "required_version (mod_requires L e) sdk_mod \<noteq> []"
      and "\<not> is_placeholder_version (required_version (mod_requires L e) sdk_mod)"
      and "add_require L sdk_mod (required_version (mod_requires L e) sdk_mod) m0 = Some m1"
      and "mod_format L (mod_cleanup L m1) = Some out"
proof -
  obtain m0 where n: "mod_parse L new = Some m0"
    using k by (auto simp: preserve_resolved_sdk_pin_def split: option.splits)
  let ?in = "required_version (mod_requires L m0) sdk_mod"
  show ?thesis
  proof (cases "?in = [] \<or> \<not> is_placeholder_version ?in")
    case True
    with k n have "out = new" by (simp add: preserve_resolved_sdk_pin_def)
    moreover have "\<not> is_placeholder_version ?in" using True by (auto simp: is_placeholder_version_def)
    ultimately show ?thesis using same n by simp
  next
    case ph: False
    show ?thesis
    proof (cases "read_file d t p")
      case (Bytes b)
      obtain e where e: "mod_parse L b = Some e"
        using k n ph Bytes by (auto simp: preserve_resolved_sdk_pin_def Let_def split: option.splits)
      let ?old = "required_version (mod_requires L e) sdk_mod"
      show ?thesis
      proof (cases "?old = [] \<or> is_placeholder_version ?old")
        case True
        with k n ph Bytes e have "out = new" by (simp add: preserve_resolved_sdk_pin_def)
        then show ?thesis using same True n Bytes e by simp
      next
        case False
        then obtain m1 where "add_require L sdk_mod ?old m0 = Some m1" and "mod_format L (mod_cleanup L m1) = Some out"
          using k n ph Bytes e by (auto simp: preserve_resolved_sdk_pin_def Let_def split: option.splits)
        then show ?thesis using kept Bytes e n ph False by simp
      qed
    next
      case NotExist
      with k n ph have "out = new" by (simp add: preserve_resolved_sdk_pin_def)
      then show ?thesis using same NotExist by simp
    next
      case ReadError
      with k n ph show ?thesis by (simp add: preserve_resolved_sdk_pin_def)
    qed
  qed
qed

section \<open>A regeneration loses nothing of the project's\<close>

text \<open>C33: a regenerated \<^verbatim>\<open>go.mod\<close>, where the file on disk replaces no path twice, carries every \<^verbatim>\<open>replace\<close>
  line of that file whose path is alive and that the render does not replace itself; its \<^verbatim>\<open>sdk/go\<close> requirement is the one
  on disk when the render brings the placeholder and the disk a resolved version, and the render's own otherwise. (Of two
  lines on disk for one path, the second, when it names no version, takes the place of the first:
  \<^verbatim>\<open>AddReplace\<close> without a version stands for all of them.)\<close>

theorem regenerated_go_mod_keeps_the_projects_lines:
  assumes L: "mod_laws L"
    and ok: "preserve_go_mod L d t p new = Inr out"
    and new: "mod_parse L new = Some m"
    and disk: "read_file d t p = Bytes b" "mod_parse L b = Some e"
    and once: "distinct (map old_path (mod_replaces L e))"
  shows "\<exists>m'. mod_parse L out = Some m' \<and>
      {r \<in> set (mod_replaces L e). \<not> dead_path (old_path r) \<and> old_path r \<notin> old_path ` set (mod_replaces L m)}
        \<subseteq> set (mod_replaces L m') \<and>
      required_version (mod_requires L m') sdk_mod =
        (let incoming = required_version (mod_requires L m) sdk_mod;
             resolved = required_version (mod_requires L e) sdk_mod
         in if is_placeholder_version incoming \<and> resolved \<noteq> [] \<and> \<not> is_placeholder_version resolved
            then resolved else incoming)"
proof -
  obtain merged where g: "merge_go_mod_replaces L d t p new = Inr merged"
    and k: "preserve_resolved_sdk_pin L d t p merged = Inr out"
    using ok by (auto simp: preserve_go_mod_def split: sum.splits)
  obtain m2 where m2: "mod_parse L merged = Some m2" "mod_requires L m2 = mod_requires L m"
    using merge_requires [OF L g new] by blast
  have lines: "{r \<in> set (mod_replaces L e). \<not> dead_path (old_path r) \<and>
      old_path r \<notin> old_path ` set (mod_replaces L m)} \<subseteq> set (mod_replaces L m2)"
    using merge_keeps_replaces [OF L g new disk once] m2(1) by auto
  show ?thesis
    using k
  proof (cases rule: preserve_pin_cases)
    case same
    show ?thesis using m2 lines same(1) same(2) [OF m2(1)] disk by (intro exI [of _ m2]) (auto simp: Let_def)
  next
    case (kept b' e' m0 m1)
    with disk m2 have e: "e' = e" "m0 = m2" by auto
    obtain m' where m': "mod_parse L out = Some m'" "mod_requires L m' = mod_requires L m1"
      "mod_replaces L m' = mod_replaces L m1"
      using format_law [OF L kept(8)] cleanup_law [OF L] by auto
    show ?thesis
      using m' lines require_law(1) [OF L kept(7)] required_version_added [OF L kept(7), of sdk_mod] kept(4-6) e m2(2)
      by (intro exI [of _ m']) (simp add: Let_def)
  qed
qed

text \<open>A library that reads and writes the texts of a table, for concrete runs.\<close>

type_synonym mod_table = "(string \<times> (requirement list \<times> replacement list)) list"

definition table_lib :: "mod_table \<Rightarrow> (requirement list \<times> replacement list) modlib" where
  "table_lib table = \<lparr>mod_parse = map_of table, mod_requires = fst, mod_replaces = snd,
     add_require = (\<lambda>p v m. Some ((p, v) # filter (\<lambda>r. fst r \<noteq> p) (fst m), snd m)),
     add_replace = (\<lambda>r m. Some (fst m, filter (\<lambda>x. old_path x \<noteq> old_path r) (snd m) @ [r])),
     mod_cleanup = (\<lambda>m. m),
     mod_format = (\<lambda>m. map_option fst (find (\<lambda>x. snd x = m) table))\<rparr>"

lemma found: "find P xs = Some x \<Longrightarrow> x \<in> set xs \<and> P x"
  by (induction xs) (auto split: if_splits)

lemma table_lib_laws:
  assumes "distinct (map fst table)"
  shows "mod_laws (table_lib table)"
proof -
  have f: "map_of table (fst x) = Some m" if x: "find (\<lambda>x. snd x = m) table = Some x" for m x
  proof -
    have "(fst x, m) \<in> set table" using found [OF x] by (metis prod.collapse)
    then show ?thesis by (simp add: map_of_is_SomeI [OF assms])
  qed
  have h: "filter (\<lambda>r. fst r = p \<and> fst r \<noteq> p) xs = []" for p and xs :: "requirement list" by (induction xs) auto
  show ?thesis by (auto simp: mod_laws_def table_lib_def h image_iff dest: f)
qed

definition dev_replace :: replacement where
  "dev_replace = \<lparr>old_path = ''example.com/a'', old_version = [], new_path = ''../a'', new_version = []\<rparr>"

definition sample_mods :: mod_table where
  "sample_mods =
     [(''new'', [(sdk_mod, ''v0.0.0'')], []),
      (''old'', [(sdk_mod, ''v1.2.0''), (''example.com/b'', ''v1.0.0'')], [dev_replace]),
      (''merged'', [(sdk_mod, ''v0.0.0'')], [dev_replace]),
      (''kept'', [(sdk_mod, ''v1.2.0'')], [dev_replace])]"

lemma sample_laws: "mod_laws (table_lib sample_mods)"
  by (rule table_lib_laws) (simp add: sample_mods_def)

theorem regenerated_go_mod_keeps_the_projects_lines_witness:
  "\<exists>m'. mod_parse (table_lib sample_mods) ''kept'' = Some m' \<and>
      {r \<in> set (mod_replaces (table_lib sample_mods) ([(sdk_mod, ''v1.2.0''), (''example.com/b'', ''v1.0.0'')], [dev_replace])).
         \<not> dead_path (old_path r) \<and> old_path r \<notin> old_path ` set (mod_replaces (table_lib sample_mods) ([(sdk_mod, ''v0.0.0'')], []))}
        \<subseteq> set (mod_replaces (table_lib sample_mods) m') \<and>
      required_version (mod_requires (table_lib sample_mods) m') sdk_mod =
        (let incoming = required_version (mod_requires (table_lib sample_mods) ([(sdk_mod, ''v0.0.0'')], [])) sdk_mod;
             resolved = required_version (mod_requires (table_lib sample_mods) ([(sdk_mod, ''v1.2.0''), (''example.com/b'', ''v1.0.0'')], [dev_replace])) sdk_mod
         in if is_placeholder_version incoming \<and> resolved \<noteq> [] \<and> \<not> is_placeholder_version resolved
            then resolved else incoming)"
  by (rule regenerated_go_mod_keeps_the_projects_lines
      [OF sample_laws, of healthy_disk "[([''go.mod''], File ''old'')]" "[''go.mod'']" "''new''" _ _ "''old''"])
    (simp_all add: preserve_go_mod_def merge_go_mod_replaces_def preserve_resolved_sdk_pin_def table_lib_def
      sample_mods_def read_file_def node_at_def healthy_disk_def missing_replaces_def dev_replace_def dead_path_def
      srcgo_module_base_def sdk_mod_def sdk_module_base_def required_version_def is_placeholder_version_def)

end
