(* ===== verification/Codegen.thy ===== *)
theory Codegen
  imports Banners GoMod
begin

text \<open>
  What \<^verbatim>\<open>w17ctl codegen\<close> does to the files of a project (\<^verbatim>\<open>internal/codegen\<close>: \<^verbatim>\<open>codegen.go\<close>,
  \<^verbatim>\<open>written_manifest.go\<close>, \<^verbatim>\<open>volatile.go\<close>): the plan that decides for every rendered file whether it
  may be written, the write pass, the record of what was written, the deletes and the orphan prune.
\<close>

section \<open>What the code calls\<close>

text \<open>The disk, the \<^verbatim>\<open>pathguard\<close> of the SDK (the elements of a path joined below the root, or a
  refusal), the module file library, \<^verbatim>\<open>sha256\<close> in hexadecimal, the JSON form of the record, and the
  project's root.\<close>

record 'm gen_env =
  gdisk :: disk
  guard_join :: "string \<Rightarrow> path option"
  guard_valid :: "string \<Rightarrow> bool"
  gmods :: "'m modlib"
  sha256 :: "string \<Rightarrow> string"
  marshal :: "(string, string) gomap \<Rightarrow> string"
  unmarshal :: "string \<Rightarrow> (int \<times> (string, string) gomap option) option"
  project_root :: string

text \<open>What \<^verbatim>\<open>pathguard.Join\<close> promises: it refuses an empty or absolute path, one that leaves the root and
  the root itself.\<close>

definition guard_laws :: "'m gen_env \<Rightarrow> bool" where
  "guard_laws E \<longleftrightarrow> (\<forall>rel p. guard_join E rel = Some p \<longrightarrow>
     p \<noteq> [] \<and> p = path_elems rel \<and> \<not> is_abs rel \<and> ''..'' \<notin> set p)"

text \<open>What is written as JSON is read back.\<close>

definition json_laws :: "'m gen_env \<Rightarrow> bool" where
  "json_laws E \<longleftrightarrow> (\<forall>m. wf_map m \<longrightarrow>
     (\<exists>m'. unmarshal E (marshal E m @ [nl]) = Some (1, Some m') \<and> wf_map m' \<and> map_of m' = map_of m))"

lemma json_law:
  "json_laws E \<Longrightarrow> wf_map m \<Longrightarrow>
     \<exists>m'. unmarshal E (marshal E m @ [nl]) = Some (1, Some m') \<and> wf_map m' \<and> map_of m' = map_of m"
  by (simp add: json_laws_def)

definition contained_join :: "'m gen_env \<Rightarrow> string \<Rightarrow> path option" where
  "contained_join E rel =
     (case guard_join E rel of
        None \<Rightarrow> None
      | Some p \<Rightarrow>
          if list_ex (\<lambda>seg. equal_fold seg ''.git'') (split_on slash (clean_path rel)) then None else Some p)"

section \<open>Volatile fields\<close>

definition volatile_fields :: "string list" where
  "volatile_fields = [''POT-Creation-Date'', ''generated_at'']"

definition contains_volatile :: "string \<Rightarrow> bool" where
  "contains_volatile line \<longleftrightarrow> list_ex (\<lambda>f. sublist f line) volatile_fields"

definition strip_volatile :: "string \<Rightarrow> string" where
  "strip_volatile b = join_with [nl] (filter (\<lambda>l. \<not> contains_volatile l) (split_on nl b))"

definition unchanged_apart_from_timestamp :: "disk \<Rightarrow> tree \<Rightarrow> path \<Rightarrow> string \<Rightarrow> bool" where
  "unchanged_apart_from_timestamp d t p fresh =
     (case read_file d t p of
        Bytes old \<Rightarrow> old = fresh \<or> strip_volatile old = strip_volatile fresh
      | _ \<Rightarrow> False)"

section \<open>The record of what was written\<close>

definition manifest_path :: path where
  "manifest_path = [''w17'', ''.codegen-manifest.json'']"

definition manifest_tmp :: path where
  "manifest_tmp = [''w17'', ''.codegen-manifest.json.tmp'']"

type_synonym digests = "(string, string) gomap"

definition written_manifest_exists :: "tree \<Rightarrow> bool" where
  "written_manifest_exists t \<longleftrightarrow> node_at t manifest_path \<noteq> None"

datatype record_error = RecordDamaged

definition load_written_manifest :: "'m gen_env \<Rightarrow> tree \<Rightarrow> record_error + digests option" where
  "load_written_manifest E t =
     (case read_file (gdisk E) t manifest_path of
        NotExist \<Rightarrow> Inr None
      | ReadError \<Rightarrow> Inl RecordDamaged
      | Bytes b \<Rightarrow>
          (case unmarshal E b of
             Some (v, Some files) \<Rightarrow> if v = 1 then Inr (Some files) else Inl RecordDamaged
           | _ \<Rightarrow> Inl RecordDamaged))"

text \<open>\<^verbatim>\<open>bytes.ReplaceAll(b, "\r\n", "\n")\<close>.\<close>

fun crlf_to_lf :: "string \<Rightarrow> string" where
  "crlf_to_lf (a # b # s) =
     (if a = CHR 0x0D \<and> b = nl then nl # crlf_to_lf s else a # crlf_to_lf (b # s))"
| "crlf_to_lf s = s"

definition file_digest :: "'m gen_env \<Rightarrow> tree \<Rightarrow> path \<Rightarrow> string option" where
  "file_digest E t p =
     (case read_file (gdisk E) t p of Bytes b \<Rightarrow> Some (sha256 E (crlf_to_lf b)) | _ \<Rightarrow> None)"

definition wrote :: "'m gen_env \<Rightarrow> digests \<Rightarrow> tree \<Rightarrow> string \<Rightarrow> path \<Rightarrow> bool" where
  "wrote E files t rel p \<longleftrightarrow>
     (case map_of files rel of None \<Rightarrow> False | Some want \<Rightarrow> file_digest E t p = Some want)"

record write_op =
  op_path :: string
  op_contents :: string
  op_if_missing :: bool

definition record_op :: "'m gen_env \<Rightarrow> tree \<Rightarrow> write_op \<Rightarrow> digests \<Rightarrow> digests" where
  "record_op E t w m =
     (if op_if_missing w then m
      else case contained_join E (op_path w) of
        None \<Rightarrow> m
      | Some p \<Rightarrow> (case file_digest E t p of None \<Rightarrow> m | Some h \<Rightarrow> put (op_path w) h m))"

definition keep_entry :: "'m gen_env \<Rightarrow> tree \<Rightarrow> string list \<Rightarrow> string \<times> string \<Rightarrow> digests \<Rightarrow> digests" where
  "keep_entry E t in_run entry m =
     (if fst entry \<in> set in_run then m
      else case contained_join E (fst entry) of
        None \<Rightarrow> m
      | Some p \<Rightarrow> if exists_at t p then put (fst entry) (snd entry) m else m)"

definition written_entries :: "'m gen_env \<Rightarrow> write_op list \<Rightarrow> tree \<Rightarrow> digests" where
  "written_entries E ops t =
     (let m = fold (record_op E t) ops []
      in case load_written_manifest E t of
           Inr (Some prior) \<Rightarrow> fold (keep_entry E t (map op_path ops)) prior m
         | _ \<Rightarrow> m)"

definition write_manifest_file :: "'m gen_env \<Rightarrow> digests \<Rightarrow> tree \<Rightarrow> tree \<times> bool" where
  "write_manifest_file E m t =
     (case mkdir_all (gdisk E) (butlast manifest_path) t of
        (t1, False) \<Rightarrow> (t1, False)
      | (t1, True) \<Rightarrow>
          (case write_file (gdisk E) manifest_tmp (marshal E m @ [nl]) t1 of
             (t2, False) \<Rightarrow> (t2, False)
           | (t2, True) \<Rightarrow> rename_file (gdisk E) manifest_tmp manifest_path t2))"

definition record_written_manifest :: "'m gen_env \<Rightarrow> write_op list \<Rightarrow> tree \<Rightarrow> tree" where
  "record_written_manifest E ops t =
     (case write_manifest_file E (written_entries E ops t) t of
        (t', True) \<Rightarrow> t'
      | (t', False) \<Rightarrow> fst (remove_one (gdisk E) manifest_path t'))"

section \<open>Whose file it is\<close>

definition staged_plugin_file :: "string \<Rightarrow> path \<Rightarrow> bool" where
  "staged_plugin_file services p =
     (if services = [] then False
      else (let rel = join_with [slash] p; pre = trim_suffix [slash] (clean_path services) @ [slash]
            in if \<not> prefix pre rel then False
               else case split_on slash (drop (length pre) rel) of
                 a # b # c # act # f # fs \<Rightarrow>
                   b = ''src'' \<and> c = ''plugins'' \<and> a \<noteq> [] \<and> act \<noteq> [] \<and> join_with [slash] (f # fs) \<noteq> []
               | _ \<Rightarrow> False))"

text \<open>The reason a file is not one codegen may replace, or the empty text when it is.\<close>

definition not_owned_by_codegen ::
    "'m gen_env \<Rightarrow> string \<Rightarrow> tree \<Rightarrow> string \<Rightarrow> path \<Rightarrow> string \<Rightarrow> digests option \<Rightarrow> string" where
  "not_owned_by_codegen E services t rel p incoming files =
     (if staged_plugin_file services p then []
      else if \<not> headerless_output incoming then
        (if has_generated_marker (gdisk E) t p \<or> has_infra_marker (gdisk E) t p then []
         else case files of
           Some fs \<Rightarrow> if wrote E fs t rel p then [] else ''no generated header''
         | None \<Rightarrow> ''no generated header'')
      else case files of
        None \<Rightarrow> []
      | Some fs \<Rightarrow>
          if base_name rel = ''go.mod'' then []
          else if map_of fs rel = None then ''not written by codegen''
          else if \<not> wrote E fs t rel p then ''changed since codegen wrote it''
          else [])"

section \<open>The plan\<close>

datatype decision = Leave | YoursInfra | NotOurs string | Differs | Write path string

datatype gen_error =
    Unreadable_Record
  | Refused string
  | GoModFailed path mod_error
  | InfraIsYours "string list"
  | Foreign "string list"
  | Collisions "string list"
  | MkdirFailed path
  | WriteFailed path
  | DeleteRefused string
  | DeleteFailed path
  | RootRefused string
  | WalkFailed path
  | PruneFailed path

record gen_config =
  languages_dir :: string
  services_dir :: string
  gforce :: bool

definition is_po_catalog :: "gen_config \<Rightarrow> string \<Rightarrow> bool" where
  "is_po_catalog C rel \<longleftrightarrow> prefix (trim_suffix [slash] (languages_dir C) @ [slash]) rel \<and> suffix ''.po'' rel"

definition lock_path :: string where
  "lock_path = ''w17/lock.yaml''"

definition final_body :: "'m gen_env \<Rightarrow> tree \<Rightarrow> string \<Rightarrow> path \<Rightarrow> string \<Rightarrow> mod_error + string" where
  "final_body E t rel p contents =
     (if base_name rel = ''go.mod'' then preserve_go_mod (gmods E) (gdisk E) t p contents else Inr contents)"

definition plan_op ::
    "'m gen_env \<Rightarrow> gen_config \<Rightarrow> string list \<Rightarrow> digests option \<Rightarrow> tree \<Rightarrow> write_op \<Rightarrow> gen_error + decision" where
  "plan_op E C unchanged files t w =
     (let rel = op_path w in
      if rel \<in> set unchanged then Inr Leave
      else case contained_join E rel of
        None \<Rightarrow> Inl (Refused rel)
      | Some p \<Rightarrow>
          if op_if_missing w \<and> exists_at t p then Inr Leave
          else if rx_match infra_marker_re (op_contents w) \<and> exists_at t p \<and> \<not> has_infra_marker (gdisk E) t p
          then Inr YoursInfra
          else case final_body E t rel p (op_contents w) of
            Inl e \<Rightarrow> Inl (GoModFailed p e)
          | Inr body \<Rightarrow>
              if \<not> exists_at t p then Inr (Write p body)
              else if unchanged_apart_from_timestamp (gdisk E) t p body then Inr Leave
              else
                (let free = is_po_catalog C rel \<or> rel = lock_path;
                     why = not_owned_by_codegen E (services_dir C) t rel p body files
                 in if \<not> free \<and> why \<noteq> [] then Inr (NotOurs why)
                    else if \<not> free \<and> \<not> gforce C then Inr Differs
                    else Inr (Write p body)))"

fun plan_ops ::
    "'m gen_env \<Rightarrow> gen_config \<Rightarrow> string list \<Rightarrow> digests option \<Rightarrow> tree \<Rightarrow> write_op list \<Rightarrow>
       gen_error + (write_op \<times> decision) list" where
  "plan_ops E C unchanged files t [] = Inr []"
| "plan_ops E C unchanged files t (w # ws) =
     (case plan_op E C unchanged files t w of
        Inl e \<Rightarrow> Inl e
      | Inr x \<Rightarrow>
          (case plan_ops E C unchanged files t ws of Inl e \<Rightarrow> Inl e | Inr xs \<Rightarrow> Inr ((w, x) # xs)))"

definition target_name :: "'m gen_env \<Rightarrow> string \<Rightarrow> string" where
  "target_name E rel = join_path [project_root E, rel]"

definition infra_paths :: "(write_op \<times> decision) list \<Rightarrow> string list" where
  "infra_paths ds = map (\<lambda>x. op_path (fst x)) (filter (\<lambda>x. snd x = YoursInfra) ds)"

definition foreign_names :: "'m gen_env \<Rightarrow> (write_op \<times> decision) list \<Rightarrow> string list" where
  "foreign_names E ds =
     List.map_filter (\<lambda>x. case snd x of
       NotOurs why \<Rightarrow> Some (target_name E (op_path (fst x)) @ '' ('' @ why @ '')'') | _ \<Rightarrow> None) ds"

definition colliding_names :: "'m gen_env \<Rightarrow> (write_op \<times> decision) list \<Rightarrow> string list" where
  "colliding_names E ds = map (\<lambda>x. target_name E (op_path (fst x))) (filter (\<lambda>x. snd x = Differs) ds)"

definition planned_writes :: "(write_op \<times> decision) list \<Rightarrow> (path \<times> string) list" where
  "planned_writes ds = List.map_filter (\<lambda>x. case snd x of Write p b \<Rightarrow> Some (p, b) | _ \<Rightarrow> None) ds"

definition write_plan ::
    "'m gen_env \<Rightarrow> gen_config \<Rightarrow> string list \<Rightarrow> tree \<Rightarrow> write_op list \<Rightarrow> gen_error + (path \<times> string) list" where
  "write_plan E C unchanged t ops =
     (case load_written_manifest E t of
        Inl _ \<Rightarrow> Inl Unreadable_Record
      | Inr files \<Rightarrow>
          (case plan_ops E C unchanged files t ops of
             Inl e \<Rightarrow> Inl e
           | Inr ds \<Rightarrow>
               if infra_paths ds \<noteq> [] then Inl (InfraIsYours (sort (infra_paths ds)))
               else if foreign_names E ds \<noteq> [] then Inl (Foreign (sort (foreign_names E ds)))
               else if colliding_names E ds \<noteq> [] then Inl (Collisions (sort (colliding_names E ds)))
               else Inr (planned_writes ds)))"

section \<open>The write pass\<close>

definition write_one :: "disk \<Rightarrow> path \<Rightarrow> string \<Rightarrow> tree \<Rightarrow> tree \<times> gen_error option" where
  "write_one d p b t =
     (if unchanged_apart_from_timestamp d t p b then (t, None)
      else case mkdir_all d (butlast p) t of
        (t1, False) \<Rightarrow> (t1, Some (MkdirFailed (butlast p)))
      | (t1, True) \<Rightarrow>
          (case write_file d p b t1 of
             (t2, False) \<Rightarrow> (t2, Some (WriteFailed p))
           | (t2, True) \<Rightarrow> (t2, None)))"

fun write_pass :: "disk \<Rightarrow> (path \<times> string) list \<Rightarrow> tree \<Rightarrow> tree \<times> gen_error option" where
  "write_pass d [] t = (t, None)"
| "write_pass d ((p, b) # ps) t =
     (case write_one d p b t of
        (t1, Some e) \<Rightarrow> (t1, Some e)
      | (t1, None) \<Rightarrow> write_pass d ps t1)"

definition apply_write_ops ::
    "'m gen_env \<Rightarrow> gen_config \<Rightarrow> string list \<Rightarrow> write_op list \<Rightarrow> tree \<Rightarrow> tree \<times> gen_error option" where
  "apply_write_ops E C unchanged ops t =
     (case write_plan E C unchanged t ops of
        Inl e \<Rightarrow> (t, Some e)
      | Inr planned \<Rightarrow>
          (let (t1, e) = write_pass (gdisk E) planned t in (record_written_manifest E ops t1, e)))"

section \<open>Deletes and the orphan prune\<close>

fun apply_deletes :: "'m gen_env \<Rightarrow> string list \<Rightarrow> tree \<Rightarrow> tree \<times> gen_error option" where
  "apply_deletes E [] t = (t, None)"
| "apply_deletes E (rel # rels) t =
     (case contained_join E rel of
        None \<Rightarrow> (t, Some (DeleteRefused rel))
      | Some p \<Rightarrow>
          (case remove_all (gdisk E) p t of
             (t1, False) \<Rightarrow> (t1, Some (DeleteFailed p))
           | (t1, True) \<Rightarrow> apply_deletes E rels t1))"

text \<open>The directories the prune does not enter: \<^verbatim>\<open>node_modules\<close> and \<^verbatim>\<open>vendor\<close>, from the walked root
  down. The walked root's own name counts, also when it is the project's.\<close>

definition dir_name :: "'m gen_env \<Rightarrow> path \<Rightarrow> string" where
  "dir_name E p = (if p = [] then base_name (project_root E) else last p)"

definition closed_dir :: "'m gen_env \<Rightarrow> path \<Rightarrow> bool" where
  "closed_dir E p \<longleftrightarrow> dir_name E p = ''node_modules'' \<or> dir_name E p = ''vendor''"

definition out_of_reach :: "'m gen_env \<Rightarrow> path \<Rightarrow> path \<Rightarrow> bool" where
  "out_of_reach E base p \<longleftrightarrow>
     list_ex (\<lambda>q. prefix base q \<and> closed_dir E q) (filter (\<lambda>q. q \<noteq> p) (prefixes p))"

definition prune_visit ::
    "'m gen_env \<Rightarrow> string list \<Rightarrow> (tree \<Rightarrow> path \<Rightarrow> bool) \<Rightarrow> digests option \<Rightarrow> path \<Rightarrow> path \<Rightarrow>
       tree \<Rightarrow> tree \<times> gen_error option" where
  "prune_visit E kept marked files base p t =
     (if out_of_reach E base p then (t, None)
      else case node_at t p of
        None \<Rightarrow> (t, None)
      | Some Dir \<Rightarrow>
          if \<not> closed_dir E p \<and> unlistable (gdisk E) t p then (t, Some (WalkFailed p)) else (t, None)
      | Some (File _) \<Rightarrow>
          (let rel = join_with [slash] p
           in if rel \<in> set kept \<or> \<not> marked t p then (t, None)
              else if (case files of Some fs \<Rightarrow> \<not> wrote E fs t rel p | None \<Rightarrow> False) then (t, None)
              else case remove_one (gdisk E) p t of
                (t1, False) \<Rightarrow> (t1, Some (PruneFailed p))
              | (t1, True) \<Rightarrow> (t1, None)))"

fun prune_walk ::
    "'m gen_env \<Rightarrow> string list \<Rightarrow> (tree \<Rightarrow> path \<Rightarrow> bool) \<Rightarrow> digests option \<Rightarrow> path \<Rightarrow> path list \<Rightarrow>
       tree \<Rightarrow> tree \<times> gen_error option" where
  "prune_walk E kept marked files base [] t = (t, None)"
| "prune_walk E kept marked files base (p # ps) t =
     (case prune_visit E kept marked files base p t of
        (t1, Some e) \<Rightarrow> (t1, Some e)
      | (t1, None) \<Rightarrow> prune_walk E kept marked files base ps t1)"

fun prune_orphans_recorded ::
    "'m gen_env \<Rightarrow> string list \<Rightarrow> string list \<Rightarrow> (tree \<Rightarrow> path \<Rightarrow> bool) \<Rightarrow> digests option \<Rightarrow>
       tree \<Rightarrow> tree \<times> gen_error option" where
  "prune_orphans_recorded E [] kept marked files t = (t, None)"
| "prune_orphans_recorded E (r # rs) kept marked files t =
     (if \<not> guard_valid E r then (t, Some (RootRefused r))
      else
        (let base = path_elems r
         in if node_at t base \<noteq> Some Dir then prune_orphans_recorded E rs kept marked files t
            else case prune_walk E kept marked files base (walk_order t base) t of
              (t1, Some e) \<Rightarrow> (t1, Some e)
            | (t1, None) \<Rightarrow> prune_orphans_recorded E rs kept marked files t1))"

definition prune_stale ::
    "'m gen_env \<Rightarrow> string list \<Rightarrow> string list \<Rightarrow> string list \<Rightarrow> string \<Rightarrow> bool \<Rightarrow> tree \<Rightarrow> tree \<times> gen_error option" where
  "prune_stale E clean prune kept services had_record t =
     (if \<not> had_record then (t, None)
      else case load_written_manifest E t of
        Inl _ \<Rightarrow> (t, Some Unreadable_Record)
      | Inr None \<Rightarrow> (t, None)
      | Inr (Some files) \<Rightarrow>
          (case prune_orphans_recorded E clean kept
                  (\<lambda>t p. has_generated_marker (gdisk E) t p \<or> staged_plugin_file services p) (Some files) t of
             (t1, Some e) \<Rightarrow> (t1, Some e)
           | (t1, None) \<Rightarrow>
               prune_orphans_recorded E prune kept (has_infra_marker (gdisk E)) (Some files) t1))"

section \<open>Which files a step may change\<close>

text \<open>Away from a set of paths only directories appear.\<close>

definition files_kept :: "path set \<Rightarrow> tree \<Rightarrow> tree \<Rightarrow> bool" where
  "files_kept P t t' \<longleftrightarrow>
     (\<forall>q. q \<notin> P \<longrightarrow> node_at t' q = node_at t q \<or> (node_at t q = None \<and> node_at t' q = Some Dir))"

lemma files_kept_refl [intro, simp]: "files_kept P t t"
  by (simp add: files_kept_def)

lemma files_kept_trans: "files_kept P t t' \<Longrightarrow> files_kept Q t' t'' \<Longrightarrow> files_kept (P \<union> Q) t t''"
  by (simp add: files_kept_def) metis

lemma files_kept_mono: "files_kept P t t' \<Longrightarrow> P \<subseteq> Q \<Longrightarrow> files_kept Q t t'"
  by (auto simp: files_kept_def)

lemma files_keptD: "files_kept P t t' \<Longrightarrow> q \<notin> P \<Longrightarrow> node_at t' q = Some (File b) \<longleftrightarrow> node_at t q = Some (File b)"
  by (auto simp: files_kept_def dest: spec [of _ q])

lemma files_kept_there: "files_kept P t t' \<Longrightarrow> q \<notin> P \<Longrightarrow> node_at t q = Some n \<Longrightarrow> node_at t' q = Some n"
  by (auto simp: files_kept_def dest: spec [of _ q])

lemma grows_files_kept: "grows t t' \<Longrightarrow> files_kept P t t'"
  by (simp add: files_kept_def grows_def)

lemma same_but_files_kept: "same_but P t t' \<Longrightarrow> files_kept P t t'"
  by (simp add: files_kept_def same_but_def)

lemma write_one_files_kept: "write_one d p b t = (t', e) \<Longrightarrow> files_kept {p} t t'"
proof -
  assume w: "write_one d p b t = (t', e)"
  show ?thesis
  proof (cases "unchanged_apart_from_timestamp d t p b")
    case False
    obtain t1 ok where m: "mkdir_all d (butlast p) t = (t1, ok)" by (cases "mkdir_all d (butlast p) t")
    obtain t2 ok2 where f: "write_file d p b t1 = (t2, ok2)" by (cases "write_file d p b t1")
    have "files_kept {p} t t1" by (rule grows_files_kept [OF mkdir_all_grows [OF m]])
    moreover have "files_kept {p} t1 t2" by (rule same_but_files_kept [OF write_file_same_but [OF f]])
    ultimately show ?thesis
      using w False m f files_kept_trans [of "{p}" t t1 "{p}" t2]
      by (auto simp: write_one_def split: bool.splits)
  qed (use w in \<open>simp add: write_one_def\<close>)
qed

lemma write_pass_files_kept: "write_pass d ps t = (t', e) \<Longrightarrow> files_kept (fst ` set ps) t t'"
proof (induction ps arbitrary: t)
  case (Cons x ps)
  obtain p b where x: "x = (p, b)" by (cases x)
  obtain t1 e1 where w: "write_one d p b t = (t1, e1)" by (cases "write_one d p b t")
  note k = write_one_files_kept [OF w]
  show ?case
  proof (cases e1)
    case None
    with Cons.prems x w have "write_pass d ps t1 = (t', e)" by simp
    from files_kept_trans [OF k Cons.IH [OF this]] show ?thesis by (simp add: x)
  next
    case (Some _)
    with Cons.prems x w k show ?thesis by (auto simp: x intro: files_kept_mono)
  qed
qed simp

lemma write_pass_error: "write_pass d ps t = (t', Some e) \<Longrightarrow> \<exists>q. e = MkdirFailed q \<or> e = WriteFailed q"
proof (induction ps arbitrary: t)
  case (Cons x ps)
  obtain p b where x: "x = (p, b)" by (cases x)
  obtain t1 e1 where w: "write_one d p b t = (t1, e1)" by (cases "write_one d p b t")
  show ?case
  proof (cases e1)
    case None
    with Cons x w show ?thesis by simp
  next
    case (Some e2)
    with Cons.prems x w have "e = e2" by simp
    with Some w show ?thesis by (auto simp: write_one_def split: if_splits prod.splits bool.splits)
  qed
qed simp

lemma write_manifest_file_kept: "write_manifest_file E m t = (t', ok) \<Longrightarrow> files_kept {manifest_path, manifest_tmp} t t'"
proof -
  assume w: "write_manifest_file E m t = (t', ok)"
  obtain t1 ok1 where m: "mkdir_all (gdisk E) (butlast manifest_path) t = (t1, ok1)"
    by (cases "mkdir_all (gdisk E) (butlast manifest_path) t")
  obtain t2 ok2 where f: "write_file (gdisk E) manifest_tmp (marshal E m @ [nl]) t1 = (t2, ok2)"
    by (cases "write_file (gdisk E) manifest_tmp (marshal E m @ [nl]) t1")
  obtain t3 ok3 where r: "rename_file (gdisk E) manifest_tmp manifest_path t2 = (t3, ok3)"
    by (cases "rename_file (gdisk E) manifest_tmp manifest_path t2")
  let ?P = "{manifest_path, manifest_tmp}"
  have 1: "files_kept ?P t t1" by (rule grows_files_kept [OF mkdir_all_grows [OF m]])
  have 2: "files_kept ?P t1 t2"
    by (rule files_kept_mono [OF same_but_files_kept [OF write_file_same_but [OF f]]]) simp
  have 3: "files_kept ?P t2 t3"
    by (rule files_kept_mono [OF same_but_files_kept [OF rename_file_same_but [OF r]]]) auto
  have 12: "files_kept ?P t t2" using files_kept_trans [OF 1 2] by simp
  have 123: "files_kept ?P t t3" using files_kept_trans [OF 12 3] by simp
  show ?thesis
    using w m f r 1 12 123 by (auto simp: write_manifest_file_def split: bool.splits)
qed

lemma record_files_kept: "files_kept {manifest_path, manifest_tmp} t (record_written_manifest E ops t)"
proof -
  obtain t1 ok where w: "write_manifest_file E (written_entries E ops t) t = (t1, ok)"
    by (cases "write_manifest_file E (written_entries E ops t) t")
  obtain t2 ok2 where r: "remove_one (gdisk E) manifest_path t1 = (t2, ok2)"
    by (cases "remove_one (gdisk E) manifest_path t1")
  have 1: "files_kept {manifest_path, manifest_tmp} t t1" by (rule write_manifest_file_kept [OF w])
  have "files_kept {manifest_path, manifest_tmp} t1 t2"
    by (rule files_kept_mono [OF same_but_files_kept [OF remove_one_same_but [OF r]]]) simp
  from files_kept_trans [OF 1 this] 1 show ?thesis
    using w r by (auto simp: record_written_manifest_def split: bool.split)
qed

section \<open>What is planned\<close>

lemma plan_ops_Inr:
  "plan_ops E C u files t ws = Inr ds \<Longrightarrow>
     map fst ds = ws \<and> (\<forall>(w, x) \<in> set ds. plan_op E C u files t w = Inr x)"
proof (induction ws arbitrary: ds)
  case (Cons w ws)
  then obtain x xs where "plan_op E C u files t w = Inr x" "plan_ops E C u files t ws = Inr xs" "ds = (w, x) # xs"
    by (auto split: sum.splits)
  with Cons.IH show ?case by auto
qed simp

lemma plan_ops_ok:
  "\<forall>w \<in> set ws. \<exists>x. plan_op E C u files t w = Inr x \<Longrightarrow>
     plan_ops E C u files t ws = Inr (map (\<lambda>w. (w, projr (plan_op E C u files t w))) ws)"
  by (induction ws) auto

lemma plan_op_contained:
  "plan_op E C u files t w = Inr (Write p b) \<Longrightarrow> contained_join E (op_path w) = Some p"
  by (auto simp: plan_op_def Let_def split: if_splits option.splits sum.splits)

text \<open>A write the plan lets through, over something that is there.\<close>

lemma plan_op_overwrites:
  assumes "plan_op E C u files t w = Inr (Write p b)" and "exists_at t p"
  shows "contained_join E (op_path w) = Some p \<and> \<not> op_if_missing w \<and>
    (rx_match infra_marker_re (op_contents w) \<longrightarrow> has_infra_marker (gdisk E) t p) \<and>
    final_body E t (op_path w) p (op_contents w) = Inr b \<and>
    (is_po_catalog C (op_path w) \<or> op_path w = lock_path \<or>
       gforce C \<and> not_owned_by_codegen E (services_dir C) t (op_path w) p b files = [])"
  using assms by (auto simp: plan_op_def Let_def split: if_splits option.splits sum.splits)

lemma write_plan_Inr:
  assumes "write_plan E C u t ops = Inr planned"
  obtains files ds where "load_written_manifest E t = Inr files" and "plan_ops E C u files t ops = Inr ds"
    and "infra_paths ds = []" and "foreign_names E ds = []" and "colliding_names E ds = []"
    and "planned = planned_writes ds"
  using assms by (auto simp: write_plan_def split: sum.splits if_splits)

lemma planned_writes_mem: "(p, b) \<in> set (planned_writes ds) \<longleftrightarrow> (\<exists>w. (w, Write p b) \<in> set ds)"
  unfolding planned_writes_def
proof (induction ds)
  case (Cons x ds)
  obtain w k where "x = (w, k)" by (cases x)
  with Cons show ?case by (cases k) (auto simp: List.map_filter_simps)
qed (simp add: List.map_filter_simps)

lemma planned_op:
  assumes "write_plan E C u t ops = Inr planned" and "(p, b) \<in> set planned"
  obtains w files where "w \<in> set ops" and "load_written_manifest E t = Inr files"
    and "plan_op E C u files t w = Inr (Write p b)"
proof -
  obtain files ds where f: "load_written_manifest E t = Inr files" and d: "plan_ops E C u files t ops = Inr ds"
    and "planned = planned_writes ds" using assms(1) by (rule write_plan_Inr)
  with assms(2) obtain w where w: "(w, Write p b) \<in> set ds" by (auto simp: planned_writes_mem)
  with plan_ops_Inr [OF d] have "w \<in> set ops" and "plan_op E C u files t w = Inr (Write p b)" by force+
  with f show ?thesis by (intro that)
qed

lemma contained_join_inside:
  assumes "guard_laws E" and "contained_join E rel = Some p"
  shows "p \<noteq> [] \<and> (\<forall>seg \<in> set p. seg \<noteq> ''..'' \<and> seg \<noteq> [] \<and> \<not> equal_fold seg ''.git'')"
proof -
  have g: "guard_join E rel = Some p" and no: "\<forall>seg \<in> set (split_on slash (clean_path rel)). \<not> equal_fold seg ''.git''"
    using assms(2) by (auto simp: contained_join_def list_ex_iff split: option.splits if_splits)
  with assms(1) have p: "p \<noteq> []" "p = path_elems rel" "\<not> is_abs rel" "''..'' \<notin> set p"
    by (auto simp: guard_laws_def)
  then have "split_on slash (clean_path rel) = p" by (simp add: clean_path_elems)
  with p no path_elems_plain [of _ rel] show ?thesis by auto
qed

text \<open>What an application of the writes did to the files, whatever its outcome.\<close>

lemma apply_write_ops_changes:
  assumes r: "apply_write_ops E C u ops t = (t', e)"
    and ch: "\<not> (node_at t' p = Some (File b) \<longleftrightarrow> node_at t p = Some (File b))"
    and out: "p \<notin> {manifest_path, manifest_tmp}"
  obtains w files body where "w \<in> set ops" and "load_written_manifest E t = Inr files"
    and "plan_op E C u files t w = Inr (Write p body)"
proof -
  obtain planned where plan: "write_plan E C u t ops = Inr planned"
    using r ch by (cases "write_plan E C u t ops") (auto simp: apply_write_ops_def)
  obtain t1 e1 where w: "write_pass (gdisk E) planned t = (t1, e1)" by (cases "write_pass (gdisk E) planned t")
  have "t' = record_written_manifest E ops t1" using r plan w by (simp add: apply_write_ops_def)
  with record_files_kept [of t1 E ops] write_pass_files_kept [OF w]
  have "files_kept (fst ` set planned \<union> {manifest_path, manifest_tmp}) t t'" using files_kept_trans by blast
  with ch out files_keptD [of _ t t' p] have "p \<in> fst ` set planned" by blast
  then obtain body where "(p, body) \<in> set planned" by auto
  from planned_op [OF plan this] show ?thesis using that by blast
qed

definition refused :: "gen_error + decision \<Rightarrow> bool" where
  "refused x \<longleftrightarrow> (case x of Inl _ \<Rightarrow> True | Inr YoursInfra \<Rightarrow> True | Inr (NotOurs _) \<Rightarrow> True | Inr Differs \<Rightarrow> True | _ \<Rightarrow> False)"

lemma plan_refuses:
  assumes w: "w \<in> set ops" and f: "load_written_manifest E t = Inr files"
    and x: "refused (plan_op E C u files t w)"
  shows "\<exists>e. write_plan E C u t ops = Inl e"
proof (cases "plan_ops E C u files t ops")
  case (Inl e)
  with f show ?thesis by (simp add: write_plan_def)
next
  case (Inr ds)
  from plan_ops_Inr [OF Inr] have "map fst ds = ops" and all: "\<forall>(w, x) \<in> set ds. plan_op E C u files t w = Inr x"
    by simp_all
  with w obtain k where k: "(w, k) \<in> set ds" by force
  with all have p: "plan_op E C u files t w = Inr k" by auto
  show ?thesis
  proof (cases k)
    case YoursInfra
    with k have "infra_paths ds \<noteq> []" by (force simp: infra_paths_def filter_empty_conv)
    with f Inr show ?thesis by (simp add: write_plan_def)
  next
    case (NotOurs why)
    have "foreign_names E ds \<noteq> []" using k NotOurs
      unfolding foreign_names_def
    proof (induction ds)
      case (Cons y ds)
      then show ?case by (cases "snd y") (auto simp: List.map_filter_simps)
    qed simp
    with f Inr show ?thesis by (simp add: write_plan_def)
  next
    case Differs
    with k have "colliding_names E ds \<noteq> []" by (force simp: colliding_names_def filter_empty_conv)
    with f Inr show ?thesis by (simp add: write_plan_def)
  qed (use x p in \<open>simp_all add: refused_def\<close>)
qed

text \<open>An application whose plan goes through: the write pass, then the record.\<close>

lemma apply_write_ops_planned:
  assumes "apply_write_ops E C u ops t = (t', None)"
  obtains planned t1 where "write_plan E C u t ops = Inr planned"
    and "write_pass (gdisk E) planned t = (t1, None)" and "t' = record_written_manifest E ops t1"
    and "files_kept {manifest_path, manifest_tmp} t1 t'"
proof -
  obtain planned where p: "write_plan E C u t ops = Inr planned"
    using assms by (cases "write_plan E C u t ops") (auto simp: apply_write_ops_def)
  obtain t1 e1 where w: "write_pass (gdisk E) planned t = (t1, e1)" by (cases "write_pass (gdisk E) planned t")
  with assms p have "e1 = None" and "t' = record_written_manifest E ops t1" by (simp_all add: apply_write_ops_def)
  with p w record_files_kept [of t1 E ops] show ?thesis by (intro that) simp_all
qed

definition says :: "tree \<Rightarrow> path \<Rightarrow> string \<Rightarrow> bool" where
  "says t p b \<longleftrightarrow> (\<exists>old. node_at t p = Some (File old) \<and> (old = b \<or> strip_volatile old = strip_volatile b))"

lemma says_unchanged:
  "unreadable d = (\<lambda>_ _. False) \<Longrightarrow> unchanged_apart_from_timestamp d t p b \<longleftrightarrow> says t p b"
  by (auto simp: unchanged_apart_from_timestamp_def says_def read_file_def split: option.splits node.splits)

lemma says_kept: "files_kept P t t' \<Longrightarrow> p \<notin> P \<Longrightarrow> says t p b \<Longrightarrow> says t' p b"
  by (auto simp: says_def dest: files_kept_there)

lemma write_one_says:
  assumes R: "unreadable d = (\<lambda>_ _. False)" and w: "write_one d p b t = (t', None)"
  shows "says t' p b"
proof (cases "unchanged_apart_from_timestamp d t p b")
  case True
  with w R show ?thesis by (simp add: write_one_def says_unchanged)
next
  case False
  then obtain t1 where "write_file d p b t1 = (t', True)"
    using w by (auto simp: write_one_def split: prod.splits bool.splits)
  from write_file_ok [OF this] show ?thesis by (simp add: says_def)
qed

lemma write_pass_says:
  assumes R: "unreadable d = (\<lambda>_ _. False)"
  shows "write_pass d ps t = (t', None) \<Longrightarrow> distinct (map fst ps) \<Longrightarrow> (p, b) \<in> set ps \<Longrightarrow> says t' p b"
proof (induction ps arbitrary: t)
  case (Cons x ps)
  obtain q c where x: "x = (q, c)" by (cases x)
  obtain t1 where w: "write_one d q c t = (t1, None)" and rest: "write_pass d ps t1 = (t', None)"
    using Cons.prems(1) x by (cases "write_one d q c t") (auto split: option.splits)
  show ?case
  proof (cases "(p, b) \<in> set ps")
    case True
    from Cons.IH [OF rest _ True] Cons.prems(2) show ?thesis by simp
  next
    case False
    with Cons.prems(3) x have "p = q" "b = c" by auto
    then have "says t1 p b" using write_one_says [OF R w] by simp
    moreover have "p \<notin> fst ` set ps" using Cons.prems(2) x \<open>p = q\<close> by simp
    ultimately show ?thesis using says_kept [OF write_pass_files_kept [OF rest]] by blast
  qed
qed simp

definition targets_distinct :: "'m gen_env \<Rightarrow> write_op list \<Rightarrow> bool" where
  "targets_distinct E ops \<longleftrightarrow> distinct (map (\<lambda>w. contained_join E (op_path w)) ops)"

lemma planned_distinct:
  assumes d: "targets_distinct E ops" and p: "write_plan E C u t ops = Inr planned"
  shows "distinct (map fst planned)"
proof -
  obtain files ds where ds: "plan_ops E C u files t ops = Inr ds" and pl: "planned = planned_writes ds"
    using p by (rule write_plan_Inr)
  note all = plan_ops_Inr [OF ds]
  have "distinct (map (\<lambda>x. contained_join E (op_path (fst x))) ds)"
  proof -
    have "map (\<lambda>x. contained_join E (op_path (fst x))) ds = map (\<lambda>w. contained_join E (op_path w)) (map fst ds)"
      by simp
    then show ?thesis using d all by (simp only: targets_distinct_def)
  qed
  moreover have "\<forall>x \<in> set ds. \<forall>p b. snd x = Write p b \<longrightarrow> contained_join E (op_path (fst x)) = Some p"
    using all plan_op_contained by fastforce
  ultimately show ?thesis
    unfolding pl planned_writes_def
  proof (induction ds)
    case (Cons x ds)
    show ?case
    proof (cases "snd x")
      case (Write q c)
      have "q \<notin> fst ` set (planned_writes ds)"
      proof
        assume "q \<in> fst ` set (planned_writes ds)"
        then obtain w c' where "(w, Write q c') \<in> set ds" by (auto simp: planned_writes_mem)
        with Cons.prems(2) have "contained_join E (op_path w) = Some q" by fastforce
        moreover have "contained_join E (op_path (fst x)) = Some q" using Cons.prems(2) Write by simp
        ultimately show False using Cons.prems(1) \<open>(w, Write q c') \<in> set ds\<close> by force
      qed
      with Cons Write show ?thesis by (simp add: List.map_filter_simps planned_writes_def)
    qed (use Cons in \<open>simp_all add: List.map_filter_simps\<close>)
  qed (simp add: List.map_filter_simps)
qed

lemma planned_or_left:
  assumes p: "write_plan E C u t ops = Inr planned" and w: "w \<in> set ops"
  obtains files where "load_written_manifest E t = Inr files" and "plan_op E C u files t w = Inr Leave"
  | files q b where "load_written_manifest E t = Inr files" and "plan_op E C u files t w = Inr (Write q b)"
      and "(q, b) \<in> set planned"
proof -
  obtain files ds where f: "load_written_manifest E t = Inr files" and ds: "plan_ops E C u files t ops = Inr ds"
    and none: "infra_paths ds = []" "foreign_names E ds = []" "colliding_names E ds = []" and pl: "planned = planned_writes ds"
    using p by (rule write_plan_Inr)
  have "\<not> refused (plan_op E C u files t w)"
  proof
    assume "refused (plan_op E C u files t w)"
    from plan_refuses [OF w f this] p show False by auto
  qed
  moreover obtain k where "(w, k) \<in> set ds" and k: "plan_op E C u files t w = Inr k"
    using plan_ops_Inr [OF ds] w by force
  ultimately show ?thesis
    using that f pl planned_writes_mem [of _ _ ds] by (cases k) (auto simp: refused_def)
qed

section \<open>Nothing of a person's is written over\<close>

text \<open>Whatever the outcome of a run's writes, a file that was changed or created, codegen's own record
  apart, is the target of a rendered file inside the project and outside \<^verbatim>\<open>.git\<close>. If something was
  there before, the rendered file is not one that is only written when missing; if it carries the infra
  banner, the old one did; and it is a translation catalog, the lock, or, under \<^verbatim>\<open>--force\<close>, a file
  codegen owns.\<close>

theorem only_codegens_own_files_are_overwritten:
  assumes G: "guard_laws E"
    and r: "apply_write_ops E C u ops t = (t', e)"
    and ch: "\<not> (node_at t' p = Some (File b) \<longleftrightarrow> node_at t p = Some (File b))"
    and out: "p \<notin> {manifest_path, manifest_tmp}"
  shows "\<exists>w \<in> set ops. contained_join E (op_path w) = Some p \<and>
     (\<forall>seg \<in> set p. seg \<noteq> ''..'' \<and> \<not> equal_fold seg ''.git'') \<and>
     (exists_at t p \<longrightarrow>
        \<not> op_if_missing w \<and>
        (rx_match infra_marker_re (op_contents w) \<longrightarrow> has_infra_marker (gdisk E) t p) \<and>
        (is_po_catalog C (op_path w) \<or> op_path w = lock_path \<or>
         gforce C \<and> (\<exists>files body. load_written_manifest E t = Inr files \<and>
            not_owned_by_codegen E (services_dir C) t (op_path w) p body files = [])))"
proof -
  obtain w files body where w: "w \<in> set ops" and f: "load_written_manifest E t = Inr files"
    and k: "plan_op E C u files t w = Inr (Write p body)"
    using apply_write_ops_changes [OF r ch out] .
  note c = plan_op_contained [OF k]
  have inside: "\<forall>seg \<in> set p. seg \<noteq> ''..'' \<and> \<not> equal_fold seg ''.git''"
    using contained_join_inside [OF G c] by blast
  show ?thesis
  proof (cases "exists_at t p")
    case True
    from plan_op_overwrites [OF k True] w c inside f show ?thesis by blast
  next
    case False
    with w c inside show ?thesis by blast
  qed
qed

text \<open>A disk that never fails, a guard that only cleans paths, a digest that is the text itself and a record
  of length-prefixed texts, for concrete runs.\<close>

definition plain_join :: "string \<Rightarrow> path option" where
  "plain_join rel = (let p = path_elems rel
     in if is_abs rel \<or> p = [] \<or> ''..'' \<in> set p then None else Some p)"

definition enc_text :: "string \<Rightarrow> string" where
  "enc_text s = replicate (length s) CHR ''x'' @ CHR ''y'' # s"

definition dec_text :: "string \<Rightarrow> string \<times> string" where
  "dec_text s = (let n = length (takeWhile (\<lambda>c. c = CHR ''x'') s); r = drop (Suc n) s in (take n r, drop n r))"

definition enc_map :: "digests \<Rightarrow> string" where
  "enc_map m = concat (map (\<lambda>(k, v). enc_text k @ enc_text v) m)"

primrec dec_map :: "nat \<Rightarrow> string \<Rightarrow> digests" where
  "dec_map 0 s = []"
| "dec_map (Suc n) s =
     (if s = [] \<or> hd s = nl then []
      else case dec_text s of (k, r) \<Rightarrow> (case dec_text r of (v, r') \<Rightarrow> (k, v) # dec_map n r'))"

lemma dec_enc_text [simp]: "dec_text (enc_text s @ r) = (s, r)"
proof -
  have "takeWhile (\<lambda>c. c = CHR ''x'') (replicate n (CHR ''x'') @ CHR ''y'' # q) = replicate n (CHR ''x'')" for n q
    by (induction n) simp_all
  then show ?thesis by (simp add: dec_text_def enc_text_def)
qed

lemma enc_text_start: "enc_text s \<noteq> [] \<and> hd (enc_text s) \<noteq> nl \<and> 0 < length (enc_text s)"
  by (cases s) (simp_all add: enc_text_def)

lemma dec_enc_map: "length m \<le> n \<Longrightarrow> dec_map n (enc_map m @ [nl]) = m"
proof (induction m arbitrary: n)
  case Nil
  then show ?case by (cases n) (simp_all add: enc_map_def)
next
  case (Cons x m)
  obtain k v where x: "x = (k, v)" by (cases x)
  from Cons.prems obtain j where n: "n = Suc j" and j: "length m \<le> j" by (cases n) auto
  have e: "enc_map (x # m) @ [nl] = enc_text k @ (enc_text v @ (enc_map m @ [nl]))" by (simp add: enc_map_def x)
  have s: "enc_text k @ (enc_text v @ (enc_map m @ [nl])) \<noteq> []"
    and h: "hd (enc_text k @ (enc_text v @ (enc_map m @ [nl]))) \<noteq> nl"
    using enc_text_start [of k] by auto
  show ?case unfolding n e dec_map.simps using s h Cons.IH [OF j] x by simp
qed

lemma length_enc_map: "length m \<le> length (enc_map m @ [nl])"
proof (induction m)
  case (Cons x m)
  obtain k v where x: "x = (k, v)" by (cases x)
  have "0 < length (enc_text k)" using enc_text_start by blast
  with Cons show ?case by (simp add: enc_map_def x del: length_greater_0_conv)
qed simp

definition sample_env :: "(requirement list \<times> replacement list) gen_env" where
  "sample_env = \<lparr>gdisk = healthy_disk, guard_join = plain_join, guard_valid = (\<lambda>r. \<not> is_abs r \<and> ''..'' \<notin> set (path_elems r)),
     gmods = table_lib sample_mods, sha256 = (\<lambda>s. s),
     marshal = enc_map, unmarshal = (\<lambda>s. Some (1, Some (dec_map (length s) s))),
     project_root = ''/home/dev/shop''\<rparr>"

definition sample_config :: gen_config where
  "sample_config = \<lparr>languages_dir = ''languages'', services_dir = ''w17/services'', gforce = True\<rparr>"

definition go_banner :: string where
  "go_banner = ''// Code generated by w17. DO NOT EDIT.''"

definition sample_files :: digests where
  "sample_files = [(''w17/a.json'', ''{}''), (''w17/old.go'', go_banner)]"

definition sample_tree :: tree where
  "sample_tree =
     [([''w17''], Dir), (manifest_path, File (enc_map sample_files @ [nl])), ([''w17'', ''a.json''], File ''{}''),
      ([''w17'', ''b.json''], File ''mine''), ([''w17'', ''c.go''], File go_banner),
      ([''w17'', ''old.go''], File go_banner)]"

definition op_of :: "string \<Rightarrow> string \<Rightarrow> write_op" where
  "op_of rel b = \<lparr>op_path = rel, op_contents = b, op_if_missing = False\<rparr>"

lemma sample_json: "json_laws sample_env"
  by (simp add: json_laws_def sample_env_def dec_enc_map [OF length_enc_map, simplified])

lemma sample_guard: "guard_laws sample_env"
  by (auto simp: guard_laws_def sample_env_def plain_join_def Let_def split: if_splits)

theorem only_codegens_own_files_are_overwritten_witness:
  "node_at (fst (apply_write_ops sample_env sample_config [] [op_of ''w17/a.json'' ''{1}''] sample_tree)) [''w17'', ''a.json'']
     = Some (File ''{1}'') \<and>
   (\<exists>files body. load_written_manifest sample_env sample_tree = Inr files \<and>
      not_owned_by_codegen sample_env (services_dir sample_config) sample_tree ''w17/a.json'' [''w17'', ''a.json''] body files = [])"
proof -
  let ?r = "apply_write_ops sample_env sample_config [] [op_of ''w17/a.json'' ''{1}''] sample_tree"
  have n: "node_at (fst ?r) [''w17'', ''a.json''] = Some (File ''{1}'')" by code_simp
  have old: "node_at sample_tree [''w17'', ''a.json''] = Some (File ''{}'')" by code_simp
  have r: "apply_write_ops sample_env sample_config [] [op_of ''w17/a.json'' ''{1}''] sample_tree = (fst ?r, snd ?r)"
    by simp
  have "\<not> (node_at (fst ?r) [''w17'', ''a.json''] = Some (File ''{}'') \<longleftrightarrow>
           node_at sample_tree [''w17'', ''a.json''] = Some (File ''{}''))"
    using n old by simp
  moreover have "\<not> is_po_catalog sample_config ''w17/a.json''" and "''w17/a.json'' \<noteq> lock_path" by code_simp+
  ultimately have "\<exists>files body. load_written_manifest sample_env sample_tree = Inr files \<and>
      not_owned_by_codegen sample_env (services_dir sample_config) sample_tree ''w17/a.json'' [''w17'', ''a.json''] body files = []"
    using only_codegens_own_files_are_overwritten [OF sample_guard r, of "[''w17'', ''a.json'']" "''{}''"] old
    by (simp add: manifest_path_def manifest_tmp_def exists_at_def op_of_def)
  with n show ?thesis by simp
qed

section \<open>One refusal refuses the run\<close>

text \<open>A run that fails has changed nothing, unless the disk failed while it wrote; and it fails as soon
  as the record cannot be read or a single rendered file may not be written: a path outside the project, a
  \<^verbatim>\<open>go.mod\<close> that does not parse, a file that is not codegen's, or, without \<^verbatim>\<open>--force\<close>, one that
  differs.\<close>

theorem a_refused_run_changes_nothing:
  assumes r: "apply_write_ops E C u ops t = (t', e)"
  shows "(e \<noteq> None \<longrightarrow> t' = t \<or> (\<exists>q. e = Some (MkdirFailed q) \<or> e = Some (WriteFailed q))) \<and>
    (load_written_manifest E t = Inl RecordDamaged \<or>
     (\<exists>files. \<exists>w \<in> set ops. load_written_manifest E t = Inr files \<and> refused (plan_op E C u files t w)) \<longrightarrow>
       t' = t \<and> e \<noteq> None)"
proof (cases "write_plan E C u t ops")
  case (Inl err)
  with r show ?thesis by (auto simp: apply_write_ops_def)
next
  case (Inr planned)
  then obtain files where f: "load_written_manifest E t = Inr files" by (rule write_plan_Inr)
  obtain t1 e1 where w: "write_pass (gdisk E) planned t = (t1, e1)" by (cases "write_pass (gdisk E) planned t")
  with r Inr have "e = e1" by (simp add: apply_write_ops_def)
  with write_pass_error [of "gdisk E" planned t t1] w have "e \<noteq> None \<longrightarrow> (\<exists>q. e = Some (MkdirFailed q) \<or> e = Some (WriteFailed q))"
    by auto
  moreover have "\<not> (\<exists>w \<in> set ops. refused (plan_op E C u files t w))"
    using plan_refuses [OF _ f] Inr by force
  ultimately show ?thesis using f by auto
qed

theorem a_refused_run_changes_nothing_witness:
  "fst (apply_write_ops sample_env sample_config [] [op_of ''w17/a.json'' ''{1}'', op_of ''w17/b.json'' ''{2}''] sample_tree)
     = sample_tree \<and>
   snd (apply_write_ops sample_env sample_config [] [op_of ''w17/a.json'' ''{1}'', op_of ''w17/b.json'' ''{2}''] sample_tree)
     \<noteq> None"
proof -
  let ?ops = "[op_of ''w17/a.json'' ''{1}'', op_of ''w17/b.json'' ''{2}'']"
  have f: "load_written_manifest sample_env sample_tree = Inr (Some sample_files)" by code_simp
  have x: "refused (plan_op sample_env sample_config [] (Some sample_files) sample_tree
      (op_of ''w17/b.json'' ''{2}''))" by code_simp
  show ?thesis
    using a_refused_run_changes_nothing [of sample_env sample_config "[]" ?ops sample_tree
        "fst (apply_write_ops sample_env sample_config [] ?ops sample_tree)"
        "snd (apply_write_ops sample_env sample_config [] ?ops sample_tree)"] f x
    by auto
qed

text \<open>C2: the run refuses, even with \<^verbatim>\<open>--force\<close>, and writes nothing at all, when it would write over a file
  that was edited since codegen wrote it, where only the record can tell: the record is readable and lists the file with
  another digest than it has; the rendered file has no banner; it is no \<^verbatim>\<open>go.mod\<close>, no translation catalogue, not the lock,
  not marked as infrastructure, not written only when missing, no staged file of a plugin and not left out by the formatter;
  and it differs from what is there in more than a timestamp. (Catalogues, the lock and \<^verbatim>\<open>go.mod\<close> are meant to be
  written over.)\<close>

theorem an_edited_file_is_never_overwritten:
  assumes f: "load_written_manifest E t = Inr (Some files)"
    and known: "map_of files (op_path w) = Some h" and edited: "file_digest E t p \<noteq> Some h"
    and w: "w \<in> set ops" "op_path w \<notin> set u" "contained_join E (op_path w) = Some p"
    and there: "exists_at t p"
    and plain: "headerless_output (op_contents w)" "\<not> rx_match infra_marker_re (op_contents w)" "base_name (op_path w) \<noteq> ''go.mod''"
    and mine: "\<not> op_if_missing w" "\<not> is_po_catalog C (op_path w)" "op_path w \<noteq> lock_path"
      "\<not> staged_plugin_file (services_dir C) p"
    and differs: "\<not> unchanged_apart_from_timestamp (gdisk E) t p (op_contents w)"
  shows "fst (apply_write_ops E C u ops t) = t \<and> snd (apply_write_ops E C u ops t) \<noteq> None"
proof -
  have "\<not> wrote E files t (op_path w) p" using known edited by (simp add: wrote_def)
  then have "not_owned_by_codegen E (services_dir C) t (op_path w) p (op_contents w) (Some files)
      = ''changed since codegen wrote it''"
    using known mine(4) plain by (simp add: not_owned_by_codegen_def)
  then have "refused (plan_op E C u (Some files) t w)"
    using w there plain mine differs by (simp add: plan_op_def Let_def final_body_def refused_def)
  with plan_refuses [OF w(1) f, of C u] show ?thesis by (auto simp: apply_write_ops_def)
qed

theorem an_edited_file_is_never_overwritten_witness:
  "fst (apply_write_ops sample_env sample_config [] [op_of ''w17/a.json'' ''{1}'']
      (put [''w17'', ''a.json''] (File ''{edited}'') sample_tree))
     = put [''w17'', ''a.json''] (File ''{edited}'') sample_tree"
proof -
  let ?t = "put [''w17'', ''a.json''] (File ''{edited}'') sample_tree"
  let ?w = "op_of ''w17/a.json'' ''{1}''"
  have "fst (apply_write_ops sample_env sample_config [] [?w] ?t) = ?t \<and>
        snd (apply_write_ops sample_env sample_config [] [?w] ?t) \<noteq> None"
  proof (rule an_edited_file_is_never_overwritten [where p = "[''w17'', ''a.json'']" and h = "''{}''"])
    show "load_written_manifest sample_env ?t = Inr (Some sample_files)" by code_simp
    show "map_of sample_files (op_path ?w) = Some ''{}''" by code_simp
    show "file_digest sample_env ?t [''w17'', ''a.json''] \<noteq> Some ''{}''" by code_simp
    show "contained_join sample_env (op_path ?w) = Some [''w17'', ''a.json'']" by code_simp
    show "headerless_output (op_contents ?w)" and "\<not> rx_match infra_marker_re (op_contents ?w)"
      and "base_name (op_path ?w) \<noteq> ''go.mod''" and "\<not> is_po_catalog sample_config (op_path ?w)"
      and "op_path ?w \<noteq> lock_path" by code_simp+
    show "\<not> staged_plugin_file (services_dir sample_config) [''w17'', ''a.json'']" by code_simp
    show "\<not> unchanged_apart_from_timestamp (gdisk sample_env) ?t [''w17'', ''a.json''] (op_contents ?w)" by code_simp
    show "exists_at ?t [''w17'', ''a.json'']" by code_simp
  qed (simp_all add: op_of_def)
  then show ?thesis by simp
qed

section \<open>What a run that succeeds leaves\<close>

lemma same_target_same_op:
  assumes "targets_distinct E ops" and "w \<in> set ops" and "w' \<in> set ops"
    and "contained_join E (op_path w) = contained_join E (op_path w')"
  shows "w = w'"
  using assms by (auto simp: targets_distinct_def distinct_map dest: inj_onD)

text \<open>A rendered file that was left alone is as it was.\<close>

lemma left_alone:
  assumes D: "targets_distinct E ops" and p: "write_plan E C u t ops = Inr planned"
    and pass: "write_pass (gdisk E) planned t = (t1, e)"
    and w: "w \<in> set ops" "load_written_manifest E t = Inr files" "plan_op E C u files t w = Inr Leave"
    and c: "contained_join E (op_path w) = Some q" and there: "node_at t q = Some n"
  shows "node_at t1 q = Some n"
proof -
  have "q \<notin> fst ` set planned"
  proof
    assume "q \<in> fst ` set planned"
    then obtain b where "(q, b) \<in> set planned" by auto
    from planned_op [OF p this] obtain w' files' where w': "w' \<in> set ops"
      "load_written_manifest E t = Inr files'" "plan_op E C u files' t w' = Inr (Write q b)" by blast
    with plan_op_contained [OF w'(3)] same_target_same_op [OF D w(1) w'(1)] c have "w = w'" by simp
    with w w' show False by simp
  qed
  from files_kept_there [OF write_pass_files_kept [OF pass] this there] show ?thesis .
qed

lemma plan_op_Leave:
  assumes "plan_op E C u files t w = Inr Leave" and "op_path w \<notin> set u"
    and "contained_join E (op_path w) = Some p"
  shows "(op_if_missing w \<and> exists_at t p) \<or>
     (\<exists>b. final_body E t (op_path w) p (op_contents w) = Inr b \<and> exists_at t p \<and>
        unchanged_apart_from_timestamp (gdisk E) t p b \<and>
        (rx_match infra_marker_re (op_contents w) \<longrightarrow> has_infra_marker (gdisk E) t p))"
  using assms by (auto simp: plan_op_def Let_def split: if_splits option.splits sum.splits)

lemma plan_op_Write:
  assumes "plan_op E C u files t w = Inr (Write p b)"
  shows "contained_join E (op_path w) = Some p \<and> op_path w \<notin> set u \<and>
     final_body E t (op_path w) p (op_contents w) = Inr b \<and>
     (exists_at t p \<longrightarrow> \<not> unchanged_apart_from_timestamp (gdisk E) t p b)"
  using assms by (auto simp: plan_op_def Let_def split: if_splits option.splits sum.splits)

lemma run_leaves_rendered:
  assumes R: "unreadable (gdisk E) = (\<lambda>_ _. False)" and D: "targets_distinct E ops"
    and r: "apply_write_ops E C u ops t = (t', None)"
    and w: "w \<in> set ops" "op_path w \<notin> set u" "contained_join E (op_path w) = Some p"
    and out: "p \<notin> {manifest_path, manifest_tmp}"
  shows "(op_if_missing w \<and> exists_at t p \<and> node_at t' p = node_at t p) \<or>
     (\<exists>b. final_body E t (op_path w) p (op_contents w) = Inr b \<and> says t' p b)"
proof -
  obtain planned t1 where plan: "write_plan E C u t ops = Inr planned"
    and pass: "write_pass (gdisk E) planned t = (t1, None)" and kept: "files_kept {manifest_path, manifest_tmp} t1 t'"
    using apply_write_ops_planned [OF r] by blast
  from plan w(1) show ?thesis
  proof (cases rule: planned_or_left)
    case (1 files)
    note stays = left_alone [OF D plan pass w(1) 1 w(3)]
    from plan_op_Leave [OF 1(2) w(2,3)] show ?thesis
    proof (elim disjE exE conjE)
      assume m: "op_if_missing w" "exists_at t p"
      then obtain n where n: "node_at t p = Some n" by (auto simp: exists_at_def)
      from files_kept_there [OF kept out stays [OF n]] n m show ?thesis by simp
    next
      fix b assume b: "final_body E t (op_path w) p (op_contents w) = Inr b"
        and s: "unchanged_apart_from_timestamp (gdisk E) t p b"
      from s obtain old where old: "node_at t p = Some (File old)" "old = b \<or> strip_volatile old = strip_volatile b"
        by (auto simp: says_unchanged [OF R] says_def)
      from files_kept_there [OF kept out stays [OF old(1)]] old(2) have "says t' p b" by (auto simp: says_def)
      with b show ?thesis by blast
    qed
  next
    case (2 files q b)
    note k = plan_op_Write [OF 2(2)]
    have "says t1 q b" by (rule write_pass_says [OF R pass planned_distinct [OF D plan] 2(3)])
    with k w(3) says_kept [OF kept out] show ?thesis by auto
  qed
qed

text \<open>C26: after a write step (\<^verbatim>\<open>applyWriteOps\<close>) that succeeds, every file it was given to write, the ones the
  formatter left out apart, is on disk as rendered (a \<^verbatim>\<open>go.mod\<close> as merged), volatile lines apart, or, when it is only
  written when missing and was there, as it was. (What the later steps of a run leave of it is
  \<^verbatim>\<open>what_a_run_rendered_is_there_at_the_end\<close> of \<^verbatim>\<open>RunOnDisk\<close>.)\<close>

theorem a_successful_run_leaves_what_was_rendered:
  assumes R: "unreadable (gdisk E) = (\<lambda>_ _. False)" and D: "targets_distinct E ops"
    and r: "apply_write_ops E C u ops t = (t', None)"
    and w: "w \<in> set ops" "op_path w \<notin> set u" "contained_join E (op_path w) = Some p"
    and out: "p \<notin> {manifest_path, manifest_tmp}"
  shows "(op_if_missing w \<and> exists_at t p \<and> node_at t' p = node_at t p) \<or>
     (\<exists>b. final_body E t (op_path w) p (op_contents w) = Inr b \<and> says t' p b)"
  by (rule run_leaves_rendered [OF assms])

lemma sample_writes: "apply_write_ops sample_env sample_config [] [op_of ''w17/a.json'' ''{1}'', op_of ''w17/d/e.txt'' ''new''] sample_tree
    = (fst (apply_write_ops sample_env sample_config [] [op_of ''w17/a.json'' ''{1}'', op_of ''w17/d/e.txt'' ''new''] sample_tree), None)"
proof -
  have "snd (apply_write_ops sample_env sample_config [] [op_of ''w17/a.json'' ''{1}'', op_of ''w17/d/e.txt'' ''new''] sample_tree) = None"
    by code_simp
  then show ?thesis by (metis prod.collapse)
qed

theorem a_successful_run_leaves_what_was_rendered_witness:
  "says (fst (apply_write_ops sample_env sample_config [] [op_of ''w17/a.json'' ''{1}'', op_of ''w17/d/e.txt'' ''new''] sample_tree))
     [''w17'', ''d'', ''e.txt''] ''new''"
proof -
  let ?ops = "[op_of ''w17/a.json'' ''{1}'', op_of ''w17/d/e.txt'' ''new'']"
  have d: "targets_distinct sample_env ?ops" by code_simp
  have c: "contained_join sample_env (op_path (op_of ''w17/d/e.txt'' ''new'')) = Some [''w17'', ''d'', ''e.txt'']" by code_simp
  have b: "final_body sample_env sample_tree ''w17/d/e.txt'' [''w17'', ''d'', ''e.txt''] ''new'' = Inr ''new''" by code_simp
  have h: "unreadable (gdisk sample_env) = (\<lambda>_ _. False)" by (simp add: sample_env_def healthy_disk_def)
  show ?thesis
    using a_successful_run_leaves_what_was_rendered [OF h d sample_writes _ _ c] b
    by (simp add: manifest_path_def manifest_tmp_def op_of_def)
qed

section \<open>The record says what codegen left\<close>

definition digest_of :: "'m gen_env \<Rightarrow> tree \<Rightarrow> string \<Rightarrow> string option" where
  "digest_of E t rel = Option.bind (contained_join E rel) (file_digest E t)"

lemma map_of_fold_record:
  "map_of (fold (record_op E t) ops m) rel =
     (if (\<exists>w \<in> set ops. op_path w = rel \<and> \<not> op_if_missing w) \<and> digest_of E t rel \<noteq> None
      then digest_of E t rel else map_of m rel)"
proof (induction ops arbitrary: m)
  case (Cons w ops)
  have "map_of (record_op E t w m) rel =
      (if op_path w = rel \<and> \<not> op_if_missing w \<and> digest_of E t rel \<noteq> None then digest_of E t rel else map_of m rel)"
    by (auto simp: record_op_def digest_of_def split: option.split)
  with Cons show ?case by auto
qed simp

lemma wf_fold_record: "wf_map m \<Longrightarrow> wf_map (fold (record_op E t) ops m)"
  by (induction ops arbitrary: m) (auto simp: record_op_def split: option.split)

definition still_there :: "'m gen_env \<Rightarrow> tree \<Rightarrow> string \<Rightarrow> bool" where
  "still_there E t rel \<longleftrightarrow> (case contained_join E rel of None \<Rightarrow> False | Some p \<Rightarrow> exists_at t p)"

lemma map_of_keep_entry:
  "map_of (keep_entry E t rels (k, v) m) rel =
     (if rel = k \<and> k \<notin> set rels \<and> still_there E t k then Some v else map_of m rel)"
  by (auto simp: keep_entry_def still_there_def split: option.split)

lemma map_of_fold_keep:
  "wf_map prior \<Longrightarrow> map_of (fold (keep_entry E t rels) prior m) rel =
     (if rel \<notin> set rels \<and> still_there E t rel \<and> map_of prior rel \<noteq> None then map_of prior rel else map_of m rel)"
proof (induction prior arbitrary: m)
  case (Cons x prior)
  obtain k v where x: "x = (k, v)" by (cases x)
  have k: "map_of prior k = None" using Cons.prems by (simp add: x map_of_eq_None_iff)
  have w: "wf_map prior" using Cons.prems by simp
  show ?case
  proof (cases "rel = k")
    case True
    with k show ?thesis by (simp add: Cons.IH [OF w, unfolded True] map_of_keep_entry x)
  next
    case False
    then show ?thesis by (auto simp: Cons.IH [OF w] map_of_keep_entry x)
  qed
qed simp

lemma wf_fold_keep: "wf_map m \<Longrightarrow> wf_map (fold (keep_entry E t rels) prior m)"
  by (induction prior arbitrary: m) (auto simp: keep_entry_def split: option.split)

lemma wf_written_entries: "wf_map (written_entries E ops t)"
  by (simp add: written_entries_def Let_def wf_fold_record wf_fold_keep split: sum.split option.split)

lemma mkdir_all_present: "node_at t [x] = Some Dir \<Longrightarrow> mkdir_all d [x] t = (t, True)"
  by (simp add: mkdir_all_def)

text \<open>On a disk that does not fail the record is read back as it was written.\<close>

lemma record_read_back:
  assumes H: "gdisk E = healthy_disk" and J: "json_laws E" and w17: "node_at t [''w17''] = Some Dir"
    and nodir: "node_at t manifest_path \<noteq> Some Dir" "node_at t manifest_tmp \<noteq> Some Dir"
  shows "\<exists>fs. load_written_manifest E (record_written_manifest E ops t) = Inr (Some fs) \<and> wf_map fs \<and>
           map_of fs = map_of (written_entries E ops t)"
    and "same_but {manifest_path, manifest_tmp} t (record_written_manifest E ops t)"
proof -
  let ?m = "written_entries E ops t"
  let ?b = "marshal E ?m @ [nl]"
  obtain t1 where t1: "write_file healthy_disk manifest_tmp ?b t = (t1, True)"
    using w17 nodir by (simp add: write_file_def healthy_disk_def manifest_tmp_def)
  have n1: "node_at t1 manifest_tmp = Some (File ?b)" "node_at t1 [''w17''] = Some Dir"
      "node_at t1 manifest_path \<noteq> Some Dir"
    using write_file_ok [OF t1] same_butD [OF write_file_same_but [OF t1]] w17 nodir
    by (simp_all add: manifest_tmp_def manifest_path_def)
  obtain t2 where t2: "rename_file healthy_disk manifest_tmp manifest_path t1 = (t2, True)"
    using n1 by (simp add: rename_file_def healthy_disk_def manifest_path_def)
  have n2: "node_at t2 manifest_path = Some (File ?b)" by (rule rename_file_ok [OF t2 n1(1)])
  have "mkdir_all healthy_disk (butlast manifest_path) t = (t, True)"
    using mkdir_all_present [OF w17] by (simp add: manifest_path_def)
  then have rec: "record_written_manifest E ops t = t2"
    using t1 t2 by (simp add: record_written_manifest_def write_manifest_file_def H)
  have "\<exists>fs. unmarshal E ?b = Some (1, Some fs) \<and> wf_map fs \<and> map_of fs = map_of ?m"
    by (rule json_law [OF J wf_written_entries])
  then show "\<exists>fs. load_written_manifest E (record_written_manifest E ops t) = Inr (Some fs) \<and> wf_map fs \<and>
           map_of fs = map_of ?m"
    using n2 by (auto simp: rec load_written_manifest_def read_file_def H healthy_disk_def)
  show "same_but {manifest_path, manifest_tmp} t (record_written_manifest E ops t)"
    unfolding rec using same_but_trans [OF write_file_same_but [OF t1] rename_file_same_but [OF t2]]
    by (rule same_but_mono) auto
qed

definition away_from_record :: "'m gen_env \<Rightarrow> write_op list \<Rightarrow> bool" where
  "away_from_record E ops \<longleftrightarrow>
     list_all (\<lambda>w. case contained_join E (op_path w) of
        None \<Rightarrow> True | Some p \<Rightarrow> \<not> prefix manifest_path p \<and> \<not> prefix manifest_tmp p) ops"

lemma write_one_changes: "write_one d p b t = (t', e) \<Longrightarrow> node_at t' q \<noteq> node_at t q \<Longrightarrow> prefix q p"
proof -
  assume w: "write_one d p b t = (t', e)" and q: "node_at t' q \<noteq> node_at t q"
  show ?thesis
  proof (cases "unchanged_apart_from_timestamp d t p b")
    case False
    obtain t1 ok where m: "mkdir_all d (butlast p) t = (t1, ok)" by (cases "mkdir_all d (butlast p) t")
    obtain t2 ok2 where f: "write_file d p b t1 = (t2, ok2)" by (cases "write_file d p b t1")
    have "t' = t1 \<or> t' = t2" using w False m f by (auto simp: write_one_def split: bool.splits)
    with q have "node_at t1 q \<noteq> node_at t q \<or> node_at t2 q \<noteq> node_at t1 q" by auto
    then show ?thesis
    proof
      assume "node_at t1 q \<noteq> node_at t q"
      from mkdir_all_changes [OF m this] show ?thesis by (metis prefixeq_butlast prefix_order.trans)
    next
      assume "node_at t2 q \<noteq> node_at t1 q"
      with same_butD [OF write_file_same_but [OF f], of q] show ?thesis by auto
    qed
  qed (use w q in \<open>simp add: write_one_def\<close>)
qed

lemma write_pass_changes:
  "write_pass d ps t = (t', e) \<Longrightarrow> node_at t' q \<noteq> node_at t q \<Longrightarrow> \<exists>p \<in> fst ` set ps. prefix q p"
proof (induction ps arbitrary: t)
  case (Cons x ps)
  obtain p b where x: "x = (p, b)" by (cases x)
  obtain t1 e1 where w: "write_one d p b t = (t1, e1)" by (cases "write_one d p b t")
  show ?case
  proof (cases "node_at t1 q = node_at t q")
    case True
    with Cons.prems x w have "write_pass d ps t1 = (t', e)" by (auto split: option.splits)
    with Cons.IH [OF this] True Cons.prems(2) show ?thesis by auto
  next
    case False
    from write_one_changes [OF w False] show ?thesis by (simp add: x)
  qed
qed simp

lemma write_pass_keeps_dirs:
  "write_pass d ps t = (t', e) \<Longrightarrow> node_at t q = Some Dir \<Longrightarrow> node_at t' q = Some Dir"
proof (induction ps arbitrary: t)
  case (Cons x ps)
  obtain p b where x: "x = (p, b)" by (cases x)
  obtain t1 e1 where w: "write_one d p b t = (t1, e1)" by (cases "write_one d p b t")
  have "node_at t1 q = Some Dir"
  proof (cases "unchanged_apart_from_timestamp d t p b")
    case False
    obtain t2 ok where m: "mkdir_all d (butlast p) t = (t2, ok)" by (cases "mkdir_all d (butlast p) t")
    obtain t3 ok3 where f: "write_file d p b t2 = (t3, ok3)" by (cases "write_file d p b t2")
    have 2: "node_at t2 q = Some Dir" by (rule grows_keeps [OF mkdir_all_grows [OF m] Cons.prems(2)])
    have "t1 = t2 \<or> t1 = t3" using w False m f by (auto simp: write_one_def split: bool.splits)
    with 2 write_file_keeps_dirs [OF f 2] show ?thesis by auto
  qed (use w Cons.prems(2) in \<open>simp add: write_one_def\<close>)
  with Cons x w show ?case by (auto split: option.splits)
qed simp

lemma planned_away:
  assumes "away_from_record E ops" and p: "write_plan E C u t ops = Inr planned" and q: "q \<in> fst ` set planned"
  shows "\<not> prefix manifest_path q \<and> \<not> prefix manifest_tmp q"
proof -
  from q obtain b where "(q, b) \<in> set planned" by auto
  from planned_op [OF p this] obtain w files where "w \<in> set ops" "plan_op E C u files t w = Inr (Write q b)" .
  then have "w \<in> set ops" "contained_join E (op_path w) = Some q" using plan_op_contained by blast+
  with assms(1) show ?thesis by (force simp: away_from_record_def list_all_iff)
qed

text \<open>What is read at a path is the same in two trees that agree there.\<close>

lemma digest_same:
  "unreadable (gdisk E) = (\<lambda>_ _. False) \<Longrightarrow> node_at t' p = node_at t p \<Longrightarrow> file_digest E t' p = file_digest E t p"
  by (auto simp: file_digest_def read_file_def split: option.split node.split)

lemma digest_kept:
  assumes R: "unreadable (gdisk E) = (\<lambda>_ _. False)" and k: "files_kept P t t'" and p: "p \<notin> P"
  shows "file_digest E t' p = file_digest E t p"
proof (cases "node_at t' p = node_at t p")
  case True
  with R show ?thesis by (rule digest_same)
next
  case False
  with k p have "node_at t p = None" "node_at t' p = Some Dir" by (auto simp: files_kept_def)
  then show ?thesis by (simp add: file_digest_def read_file_def)
qed

lemma record_after_run:
  assumes H: "gdisk E = healthy_disk" and J: "json_laws E" and w17: "node_at t [''w17''] = Some Dir"
    and nodir: "node_at t manifest_path \<noteq> Some Dir" "node_at t manifest_tmp \<noteq> Some Dir"
    and away: "away_from_record E ops"
    and prior: "load_written_manifest E t = Inr prior" "prior = None \<or> wf_map (the prior)"
    and r: "apply_write_ops E C u ops t = (t', e)" and acc: "write_plan E C u t ops = Inr planned"
  shows "\<exists>fs. load_written_manifest E t' = Inr (Some fs) \<and>
     (\<forall>rel p. contained_join E rel = Some p \<longrightarrow> p \<notin> {manifest_path, manifest_tmp} \<longrightarrow>
        map_of fs rel =
          (if (\<exists>w \<in> set ops. op_path w = rel \<and> \<not> op_if_missing w) then file_digest E t' p
           else if rel \<notin> op_path ` set ops \<and> exists_at t' p then Option.bind prior (\<lambda>m. map_of m rel)
           else None))"
proof -
  have R: "unreadable (gdisk E) = (\<lambda>_ _. False)" by (simp add: H healthy_disk_def)
  obtain t1 e1 where pass: "write_pass (gdisk E) planned t = (t1, e1)" by (cases "write_pass (gdisk E) planned t")
  have t': "t' = record_written_manifest E ops t1" using r acc pass by (simp add: apply_write_ops_def)
  have w17': "node_at t1 [''w17''] = Some Dir" by (rule write_pass_keeps_dirs [OF pass w17])
  have same: "node_at t1 q = node_at t q" if "q = manifest_path \<or> q = manifest_tmp" for q
    using write_pass_changes [OF pass, of q] planned_away [OF away acc] that by metis
  obtain fs where fs: "load_written_manifest E t' = Inr (Some fs)" "map_of fs = map_of (written_entries E ops t1)"
    using record_read_back(1) [OF H J w17', of ops] same nodir t' by auto
  have load1: "load_written_manifest E t1 = Inr prior"
  proof -
    have "read_file (gdisk E) t1 manifest_path = read_file (gdisk E) t manifest_path"
      if "node_at t manifest_path \<noteq> None"
      by (rule read_file_same [OF R that same]) simp
    moreover have "load_written_manifest E t0 = Inr None" if "node_at t0 manifest_path = None" "node_at t0 [''w17''] = Some Dir" for t0
      using that by (simp add: load_written_manifest_def read_file_def below_file_def manifest_path_def is_file_def list_ex_iff)
    ultimately show ?thesis using prior(1) same w17 w17' by (cases "node_at t manifest_path") (auto simp: load_written_manifest_def)
  qed
  have kept: "same_but {manifest_path, manifest_tmp} t1 t'"
    unfolding t' using record_read_back(2) [OF H J w17', of ops] same nodir by simp
  have "map_of fs rel =
          (if (\<exists>w \<in> set ops. op_path w = rel \<and> \<not> op_if_missing w) then file_digest E t' p
           else if rel \<notin> op_path ` set ops \<and> exists_at t' p then Option.bind prior (\<lambda>m. map_of m rel)
           else None)"
    if c: "contained_join E rel = Some p" and out: "p \<notin> {manifest_path, manifest_tmp}" for rel p
  proof -
    note n = same_butD [OF kept out]
    have d: "file_digest E t' p = file_digest E t1 p" by (rule digest_same [OF R n])
    have x: "still_there E t1 rel \<longleftrightarrow> exists_at t' p" by (simp add: still_there_def c exists_at_def n)
    have e: "map_of (fold (record_op E t1) ops []) rel =
        (if (\<exists>w \<in> set ops. op_path w = rel \<and> \<not> op_if_missing w) then file_digest E t' p else None)"
      by (auto simp: map_of_fold_record digest_of_def c d)
    show ?thesis
    proof (cases prior)
      case None
      with e show ?thesis by (auto simp: fs(2) written_entries_def load1)
    next
      case (Some m)
      with prior(2) have "wf_map m" by simp
      from map_of_fold_keep [OF this, of E t1 "map op_path ops" "fold (record_op E t1) ops []" rel] Some e x
      show ?thesis by (auto simp: fs(2) written_entries_def load1 Let_def)
    qed
  qed
  with fs(1) show ?thesis by blast
qed

text \<open>However the write pass of an accepted run ends, the record that it leaves names, for every rendered
  file that codegen owns, the digest of what is on disk now; and for a path this run did not render, what
  the earlier record said, as long as something is there.\<close>

theorem the_record_says_what_codegen_left:
  assumes H: "gdisk E = healthy_disk" and J: "json_laws E" and w17: "node_at t [''w17''] = Some Dir"
    and nodir: "node_at t manifest_path \<noteq> Some Dir" "node_at t manifest_tmp \<noteq> Some Dir"
    and away: "away_from_record E ops"
    and prior: "load_written_manifest E t = Inr prior" "prior = None \<or> wf_map (the prior)"
    and r: "apply_write_ops E C u ops t = (t', e)" and acc: "write_plan E C u t ops = Inr planned"
  shows "\<exists>fs. load_written_manifest E t' = Inr (Some fs) \<and>
     (\<forall>rel p. contained_join E rel = Some p \<longrightarrow> p \<notin> {manifest_path, manifest_tmp} \<longrightarrow>
        map_of fs rel =
          (if (\<exists>w \<in> set ops. op_path w = rel \<and> \<not> op_if_missing w) then file_digest E t' p
           else if rel \<notin> op_path ` set ops \<and> exists_at t' p then Option.bind prior (\<lambda>m. map_of m rel)
           else None))"
  by (rule record_after_run [OF assms])

theorem the_record_says_what_codegen_left_witness:
  "\<exists>fs. load_written_manifest sample_env (fst (apply_write_ops sample_env sample_config [] [op_of ''w17/a.json'' ''{1}''] sample_tree))
       = Inr (Some fs) \<and> map_of fs ''w17/a.json'' = Some ''{1}'' \<and> map_of fs ''w17/old.go'' = Some go_banner"
proof -
  let ?ops = "[op_of ''w17/a.json'' ''{1}'']"
  let ?t = "fst (apply_write_ops sample_env sample_config [] ?ops sample_tree)"
  have r: "apply_write_ops sample_env sample_config [] ?ops sample_tree
      = (?t, snd (apply_write_ops sample_env sample_config [] ?ops sample_tree))" by simp
  have p: "load_written_manifest sample_env sample_tree = Inr (Some sample_files)" by code_simp
  have a: "write_plan sample_env sample_config [] sample_tree ?ops = Inr [([''w17'', ''a.json''], ''{1}'')]" by code_simp
  have w: "node_at sample_tree [''w17''] = Some Dir" "node_at sample_tree manifest_path \<noteq> Some Dir"
    "node_at sample_tree manifest_tmp \<noteq> Some Dir" "away_from_record sample_env ?ops" "wf_map sample_files"
    by code_simp+
  have h: "gdisk sample_env = healthy_disk" by (simp add: sample_env_def)
  obtain fs where fs: "load_written_manifest sample_env ?t = Inr (Some fs)"
    and all: "\<forall>rel p. contained_join sample_env rel = Some p \<longrightarrow> p \<notin> {manifest_path, manifest_tmp} \<longrightarrow>
        map_of fs rel =
          (if (\<exists>w \<in> set ?ops. op_path w = rel \<and> \<not> op_if_missing w) then file_digest sample_env ?t p
           else if rel \<notin> op_path ` set ?ops \<and> exists_at ?t p then Option.bind (Some sample_files) (\<lambda>m. map_of m rel)
           else None)"
    using the_record_says_what_codegen_left [OF h sample_json w(1-4) p _ r a] w(5) by auto
  have c: "contained_join sample_env ''w17/a.json'' = Some [''w17'', ''a.json'']"
    "contained_join sample_env ''w17/old.go'' = Some [''w17'', ''old.go'']"
    "file_digest sample_env ?t [''w17'', ''a.json''] = Some ''{1}''" "exists_at ?t [''w17'', ''old.go'']"
    "map_of sample_files ''w17/old.go'' = Some go_banner" "''w17/a.json'' \<noteq> ''w17/old.go''"
    by code_simp+
  have "map_of fs ''w17/a.json'' = Some ''{1}''"
    using spec [OF spec [OF all], of "''w17/a.json''" "[''w17'', ''a.json'']"] c
    by (simp add: op_of_def manifest_path_def manifest_tmp_def)
  moreover have "map_of fs ''w17/old.go'' = Some go_banner"
    using spec [OF spec [OF all], of "''w17/old.go''" "[''w17'', ''old.go'']"] c
    by (simp add: op_of_def manifest_path_def manifest_tmp_def)
  ultimately show ?thesis using fs by blast
qed

section \<open>The second run has nothing to do\<close>

text \<open>What a write pass that succeeds puts at a planned target: the body, unless what was there already said
  the same.\<close>

lemma write_pass_puts:
  assumes R: "unreadable d = (\<lambda>_ _. False)"
  shows "write_pass d ps t = (t', None) \<Longrightarrow> distinct (map fst ps) \<Longrightarrow> (p, b) \<in> set ps \<Longrightarrow> \<not> says t p b \<Longrightarrow>
     node_at t' p = Some (File b)"
proof (induction ps arbitrary: t)
  case (Cons x ps)
  obtain q c where x: "x = (q, c)" by (cases x)
  obtain t1 where w: "write_one d q c t = (t1, None)" and rest: "write_pass d ps t1 = (t', None)"
    using Cons.prems(1) x by (cases "write_one d q c t") (auto split: option.splits)
  show ?case
  proof (cases "(p, b) \<in> set ps")
    case True
    with Cons.prems(2) x have "p \<noteq> q" by (force simp: image_iff)
    then have "node_at t1 p = Some (File o') \<longleftrightarrow> node_at t p = Some (File o')" for o'
      using files_keptD [OF write_one_files_kept [OF w]] by simp
    then have "\<not> says t1 p b" using Cons.prems(4) by (simp add: says_def)
    with Cons.IH [OF rest _ True] Cons.prems(2) show ?thesis by simp
  next
    case False
    with Cons.prems(3) x have q: "p = q" "b = c" by auto
    then have n: "\<not> unchanged_apart_from_timestamp d t q c" using Cons.prems(4) R by (simp add: says_unchanged)
    then obtain t2 where "write_file d q c t2 = (t1, True)"
      using w by (auto simp: write_one_def split: prod.splits bool.splits)
    from write_file_ok [OF this] have "node_at t1 p = Some (File b)" by (simp add: q)
    moreover have "p \<notin> fst ` set ps" using Cons.prems(2) x q(1) by simp
    ultimately show ?thesis using files_kept_there [OF write_pass_files_kept [OF rest]] by blast
  qed
qed simp

text \<open>The banner of an infra file stands in its first bytes, and merging a \<^verbatim>\<open>go.mod\<close> with what the merge left
  changes nothing.\<close>

definition stable_op :: "'m gen_env \<Rightarrow> tree \<Rightarrow> tree \<Rightarrow> write_op \<Rightarrow> bool" where
  "stable_op E t t' w \<longleftrightarrow>
     (rx_match infra_marker_re (op_contents w) \<longrightarrow>
        rx_match infra_marker_re (take marker_window (op_contents w)) \<and> base_name (op_path w) \<noteq> ''go.mod'') \<and>
     (base_name (op_path w) = ''go.mod'' \<longrightarrow>
        (\<forall>p b. contained_join E (op_path w) = Some p \<longrightarrow> final_body E t (op_path w) p (op_contents w) = Inr b \<longrightarrow>
           says t' p b \<longrightarrow> (\<exists>b'. final_body E t' (op_path w) p (op_contents w) = Inr b' \<and> says t' p b')))"

lemma stable_body:
  assumes "stable_op E t t' w" and "contained_join E (op_path w) = Some p"
    and "final_body E t (op_path w) p (op_contents w) = Inr b" and "says t' p b"
  shows "\<exists>b'. final_body E t' (op_path w) p (op_contents w) = Inr b' \<and> says t' p b'"
proof (cases "base_name (op_path w) = ''go.mod''")
  case True
  with assms show ?thesis unfolding stable_op_def by blast
next
  case False
  with assms(3,4) show ?thesis by (simp add: final_body_def)
qed

lemma marker_same:
  "unreadable d = (\<lambda>_ _. False) \<Longrightarrow> node_at t' p = Some n \<Longrightarrow> node_at t p = Some n \<Longrightarrow>
     has_infra_marker d t' p = has_infra_marker d t p"
  using read_file_same [of d t p t'] by (simp add: has_infra_marker_def head_matches_def)

lemma second_plan_leaves:
  assumes R: "unreadable (gdisk E) = (\<lambda>_ _. False)" and D: "targets_distinct E ops"
    and r: "apply_write_ops E C u ops t = (t', None)"
    and w: "w \<in> set ops" and out: "contained_join E (op_path w) \<notin> {Some manifest_path, Some manifest_tmp}"
    and st: "stable_op E t t' w"
  shows "plan_op E C' u files' t' w = Inr Leave"
proof (cases "op_path w \<in> set u")
  case True
  then show ?thesis by (simp add: plan_op_def)
next
  case nu: False
  obtain planned t1 where plan: "write_plan E C u t ops = Inr planned"
    and pass: "write_pass (gdisk E) planned t = (t1, None)" and kept: "files_kept {manifest_path, manifest_tmp} t1 t'"
    using apply_write_ops_planned [OF r] by blast
  have leave: "plan_op E C' u files' t' w = Inr Leave"
    if c: "contained_join E (op_path w) = Some p" and there: "exists_at t' p"
      and m: "rx_match infra_marker_re (op_contents w) \<Longrightarrow> has_infra_marker (gdisk E) t' p"
      and b: "final_body E t' (op_path w) p (op_contents w) = Inr b" "says t' p b" for p b
    using nu c there m b says_unchanged [OF R, of t' p b] by (auto simp: plan_op_def Let_def)
  have missing: "plan_op E C' u files' t' w = Inr Leave"
    if "contained_join E (op_path w) = Some p" "op_if_missing w" "exists_at t' p" for p
    using nu that by (simp add: plan_op_def)
  from plan w show ?thesis
  proof (cases rule: planned_or_left)
    case (1 files)
    obtain p where c: "contained_join E (op_path w) = Some p"
      using 1(2) nu by (auto simp: plan_op_def Let_def split: if_splits option.splits)
    have out': "p \<notin> {manifest_path, manifest_tmp}" using out c by simp
    note stays = left_alone [OF D plan pass w 1 c]
    from plan_op_Leave [OF 1(2) nu c] show ?thesis
    proof (elim disjE exE conjE)
      assume m: "op_if_missing w" and x: "exists_at t p"
      from x obtain n where n: "node_at t p = Some n" by (auto simp: exists_at_def)
      have "exists_at t' p" using files_kept_there [OF kept out' stays [OF n]] by (simp add: exists_at_def)
      with missing c m show ?thesis by blast
    next
      fix b assume b: "final_body E t (op_path w) p (op_contents w) = Inr b"
        and s: "unchanged_apart_from_timestamp (gdisk E) t p b"
        and m: "rx_match infra_marker_re (op_contents w) \<longrightarrow> has_infra_marker (gdisk E) t p"
      from s obtain old where old: "node_at t p = Some (File old)" "old = b \<or> strip_volatile old = strip_volatile b"
        by (auto simp: says_unchanged [OF R] says_def)
      note n' = files_kept_there [OF kept out' stays [OF old(1)]]
      then have "says t' p b" using old(2) by (auto simp: says_def)
      from stable_body [OF st c b this] obtain b' where b': "final_body E t' (op_path w) p (op_contents w) = Inr b'" "says t' p b'"
        by blast
      show ?thesis
        by (rule leave [OF c _ _ b']) (use n' m marker_same [OF R n' old(1)] in \<open>simp_all add: exists_at_def\<close>)
    qed
  next
    case (2 files p b)
    note k = plan_op_Write [OF 2(2)]
    have c: "contained_join E (op_path w) = Some p" and b: "final_body E t (op_path w) p (op_contents w) = Inr b"
      using k by simp_all
    have out': "p \<notin> {manifest_path, manifest_tmp}" using out c by simp
    have "\<not> says t p b"
      using k says_unchanged [OF R, of t p b] by (auto simp: says_def exists_at_def)
    from write_pass_puts [OF R pass planned_distinct [OF D plan] 2(3) this]
    have n': "node_at t' p = Some (File b)" by (rule files_kept_there [OF kept out'])
    then have s: "says t' p b" by (simp add: says_def)
    from stable_body [OF st c b this] obtain b' where b': "final_body E t' (op_path w) p (op_contents w) = Inr b'" "says t' p b'"
      by blast
    have mk: "has_infra_marker (gdisk E) t' p" if i: "rx_match infra_marker_re (op_contents w)"
    proof -
      have "rx_match infra_marker_re (take marker_window (op_contents w))" and "b = op_contents w"
        using st i b by (auto simp: stable_op_def final_body_def)
      then show ?thesis using n' R by (simp add: has_infra_marker_def head_matches_def read_file_def)
    qed
    show ?thesis by (rule leave [OF c _ mk b']) (use n' in \<open>simp_all add: exists_at_def\<close>)
  qed
qed

lemma plan_of_leaves:
  assumes "\<And>w. w \<in> set ops \<Longrightarrow> plan_op E C u files t w = Inr Leave"
  shows "plan_ops E C u files t ops = Inr (map (\<lambda>w. (w, Leave)) ops)"
  using assms by (induction ops) auto

text \<open>The same rendered files, asked for again right after a run that succeeded, are refused by nobody and
  written by nobody, with \<^verbatim>\<open>--force\<close> or without, under any configuration of the directories.\<close>

theorem a_second_run_has_nothing_to_write:
  assumes H: "gdisk E = healthy_disk" and J: "json_laws E" and w17: "node_at t [''w17''] = Some Dir"
    and nodir: "node_at t manifest_path \<noteq> Some Dir" "node_at t manifest_tmp \<noteq> Some Dir"
    and away: "away_from_record E ops" and D: "targets_distinct E ops"
    and r: "apply_write_ops E C u ops t = (t', None)"
    and st: "\<And>w. w \<in> set ops \<Longrightarrow> stable_op E t t' w"
  shows "write_plan E C' u t' ops = Inr []"
proof -
  have R: "unreadable (gdisk E) = (\<lambda>_ _. False)" by (simp add: H healthy_disk_def)
  obtain planned t1 where plan: "write_plan E C u t ops = Inr planned"
    and pass: "write_pass (gdisk E) planned t = (t1, None)" and t': "t' = record_written_manifest E ops t1"
    using apply_write_ops_planned [OF r] by blast
  have w17': "node_at t1 [''w17''] = Some Dir" by (rule write_pass_keeps_dirs [OF pass w17])
  have same: "node_at t1 q = node_at t q" if "q = manifest_path \<or> q = manifest_tmp" for q
    using write_pass_changes [OF pass, of q] planned_away [OF away plan] that by metis
  obtain fs where fs: "load_written_manifest E t' = Inr (Some fs)"
    using record_read_back(1) [OF H J w17', of ops] same nodir t' by auto
  have out: "contained_join E (op_path w) \<notin> {Some manifest_path, Some manifest_tmp}" if "w \<in> set ops" for w
    using away that by (force simp: away_from_record_def list_all_iff)
  have "plan_ops E C' u (Some fs) t' ops = Inr (map (\<lambda>w. (w, Leave)) ops)"
    by (rule plan_of_leaves) (rule second_plan_leaves [OF R D r _ out st])
  moreover have "infra_paths (map (\<lambda>w. (w, Leave)) ops) = []" "foreign_names E (map (\<lambda>w. (w, Leave)) ops) = []"
    "colliding_names E (map (\<lambda>w. (w, Leave)) ops) = []" "planned_writes (map (\<lambda>w. (w, Leave)) ops) = []"
    by (induction ops)
      (simp_all add: infra_paths_def foreign_names_def colliding_names_def planned_writes_def List.map_filter_simps)
  ultimately show ?thesis by (simp add: write_plan_def fs)
qed

theorem a_second_run_has_nothing_to_write_witness:
  "write_plan sample_env (sample_config\<lparr>gforce := False\<rparr>) []
     (fst (apply_write_ops sample_env sample_config [] [op_of ''w17/a.json'' ''{1}'', op_of ''w17/d/e.txt'' ''new''] sample_tree))
     [op_of ''w17/a.json'' ''{1}'', op_of ''w17/d/e.txt'' ''new''] = Inr []"
proof (rule a_second_run_has_nothing_to_write)
  let ?ops = "[op_of ''w17/a.json'' ''{1}'', op_of ''w17/d/e.txt'' ''new'']"
  show "apply_write_ops sample_env sample_config [] ?ops sample_tree
      = (fst (apply_write_ops sample_env sample_config [] ?ops sample_tree), None)" by (rule sample_writes)
  show "gdisk sample_env = healthy_disk" by (simp add: sample_env_def)
  show "json_laws sample_env" by (rule sample_json)
  show "node_at sample_tree [''w17''] = Some Dir" "node_at sample_tree manifest_path \<noteq> Some Dir"
    "node_at sample_tree manifest_tmp \<noteq> Some Dir" "away_from_record sample_env ?ops" "targets_distinct sample_env ?ops"
    by code_simp+
  show "stable_op sample_env sample_tree t' w" if "w \<in> set ?ops" for t' w
  proof -
    have "\<not> rx_match infra_marker_re ''{1}''" "\<not> rx_match infra_marker_re ''new''"
      "base_name ''w17/a.json'' \<noteq> ''go.mod''" "base_name ''w17/d/e.txt'' \<noteq> ''go.mod''" by code_simp+
    with that show ?thesis by (auto simp: stable_op_def op_of_def)
  qed
qed

section \<open>The orphan prune\<close>

text \<open>What makes a file an orphan the prune takes: under one of the roots and in reach of the walk, not
  rendered by this run, marked as generated, recorded, and as codegen left it.\<close>

definition prunable ::
    "'m gen_env \<Rightarrow> string list \<Rightarrow> (tree \<Rightarrow> path \<Rightarrow> bool) \<Rightarrow> digests \<Rightarrow> path \<Rightarrow> tree \<Rightarrow> path \<Rightarrow> bool" where
  "prunable E kept marked files base t p \<longleftrightarrow>
     is_file t p \<and> \<not> out_of_reach E base p \<and> join_with [slash] p \<notin> set kept \<and> marked t p \<and>
     wrote E files t (join_with [slash] p) p"

definition orphan_under ::
    "'m gen_env \<Rightarrow> string list \<Rightarrow> (tree \<Rightarrow> path \<Rightarrow> bool) \<Rightarrow> digests \<Rightarrow> string list \<Rightarrow> tree \<Rightarrow> path \<Rightarrow> bool" where
  "orphan_under E kept marked files roots t p \<longleftrightarrow>
     (\<exists>r \<in> set roots. strict_prefix (path_elems r) p \<and> prunable E kept marked files (path_elems r) t p)"

text \<open>A mark that looks only at the file.\<close>

definition local_mark :: "(tree \<Rightarrow> path \<Rightarrow> bool) \<Rightarrow> bool" where
  "local_mark marked \<longleftrightarrow>
     (\<forall>t t' p. node_at t p \<noteq> None \<longrightarrow> node_at t' p = node_at t p \<longrightarrow> marked t' p = marked t p)"

text \<open>The files one prune takes: those that are there afterwards are there before, and what went is known.\<close>

definition pruned_to :: "path set \<Rightarrow> tree \<Rightarrow> tree \<Rightarrow> bool" where
  "pruned_to P t t' \<longleftrightarrow> (\<forall>p. node_at t' p = (if p \<in> P then None else node_at t p))"

lemma pruned_to_trans:
  assumes "pruned_to {p. A p} t t1" and "pruned_to {p. B1 p} t1 t'" and "\<And>p. \<not> A p \<Longrightarrow> B1 p \<longleftrightarrow> B p"
  shows "pruned_to {p. A p \<or> B p} t t'"
  unfolding pruned_to_def
proof
  fix p
  have 1: "node_at t1 p = (if A p then None else node_at t p)" and 2: "node_at t' p = (if B1 p then None else node_at t1 p)"
    using assms(1,2) by (simp_all add: pruned_to_def)
  show "node_at t' p = (if p \<in> {p. A p \<or> B p} then None else node_at t p)"
    using 1 2 assms(3) [of p] by (cases "A p") simp_all
qed

lemma prune_visit_cases:
  assumes v: "prune_visit E kept marked (Some files) base p t = (t', None)"
  shows "(t' = t \<and> \<not> prunable E kept marked files base t p) \<or>
    (pruned_to {p} t t' \<and> prunable E kept marked files base t p)"
proof (cases "is_file t p \<and> \<not> out_of_reach E base p")
  case True
  then obtain b where f: "node_at t p = Some (File b)" by (auto simp: is_file_def split: option.splits node.splits)
  then have ne: "p \<noteq> []" by auto
  show ?thesis
  proof (cases "join_with [slash] p \<in> set kept \<or> \<not> marked t p \<or> \<not> wrote E files t (join_with [slash] p) p")
    case True
    then have "t' = t" using v f by (auto simp: prune_visit_def Let_def split: if_splits prod.splits bool.splits)
    with True show ?thesis by (auto simp: prunable_def)
  next
    case False
    then have g: "prunable E kept marked files base t p" using True by (simp add: prunable_def)
    have "remove_one (gdisk E) p t = (t', True)"
      using v f True False by (simp add: prune_visit_def Let_def split: prod.splits bool.splits)
    then have "pruned_to {p} t t'" using ne by (auto simp: remove_one_def pruned_to_def split: if_splits)
    with g show ?thesis by blast
  qed
next
  case False
  then have "t' = t"
    using v by (auto simp: prune_visit_def is_file_def split: if_splits option.splits node.splits)
  with False show ?thesis by (auto simp: prunable_def)
qed

lemma prunable_same:
  assumes R: "unreadable (gdisk E) = (\<lambda>_ _. False)" and M: "local_mark marked" and n: "node_at t' p = node_at t p"
  shows "prunable E kept marked files base t' p = prunable E kept marked files base t p"
proof (cases "node_at t p = None")
  case True
  with n show ?thesis by (simp add: prunable_def is_file_def)
next
  case False
  then have "marked t' p = marked t p" using M n unfolding local_mark_def by blast
  moreover have "wrote E files t' rel p = wrote E files t rel p" for rel
    using digest_same [OF R n] by (simp add: wrote_def split: option.split)
  ultimately show ?thesis using n by (simp add: prunable_def is_file_def)
qed

lemma prune_walk_exact:
  assumes R: "unreadable (gdisk E) = (\<lambda>_ _. False)" and M: "local_mark marked"
  shows "prune_walk E kept marked (Some files) base ps t = (t', None) \<Longrightarrow> distinct ps \<Longrightarrow>
     pruned_to {p \<in> set ps. prunable E kept marked files base t p} t t'"
proof (induction ps arbitrary: t)
  case Nil
  then show ?case by (simp add: pruned_to_def)
next
  case (Cons q ps)
  let ?gone = "prunable E kept marked files base"
  obtain t1 where v: "prune_visit E kept marked (Some files) base q t = (t1, None)"
    and rest: "prune_walk E kept marked (Some files) base ps t1 = (t', None)"
    using Cons.prems(1) by (cases "prune_visit E kept marked (Some files) base q t") (auto split: option.splits)
  have ih: "pruned_to {p \<in> set ps. ?gone t1 p} t1 t'" using Cons.IH [OF rest] Cons.prems(2) by simp
  have one: "(t1 = t \<and> \<not> ?gone t q) \<or> (pruned_to {q} t t1 \<and> ?gone t q)" by (rule prune_visit_cases [OF v])
  have same: "?gone t1 p \<longleftrightarrow> ?gone t p" if "p \<noteq> q" for p
    by (rule prunable_same [OF R M]) (use one that in \<open>auto simp: pruned_to_def\<close>)
  have "p \<noteq> q" if "p \<in> set ps" for p using that Cons.prems(2) by auto
  with same have eq: "{p \<in> set ps. ?gone t1 p} = {p \<in> set ps. ?gone t p}" by blast
  from one show ?case
  proof
    assume a: "t1 = t \<and> \<not> ?gone t q"
    then have "{p \<in> set (q # ps). ?gone t p} = {p \<in> set ps. ?gone t p}" by auto
    with ih a show ?thesis by simp
  next
    assume a: "pruned_to {q} t t1 \<and> ?gone t q"
    then have "{p \<in> set (q # ps). ?gone t p} = insert q {p \<in> set ps. ?gone t p}" by auto
    with ih a eq show ?thesis by (simp add: pruned_to_def)
  qed
qed

lemma pruned_to_wf_dirs: "pruned_to P t t' \<Longrightarrow> \<forall>p \<in> P. is_file t p \<Longrightarrow> node_at t' q = Some Dir \<longleftrightarrow> node_at t q = Some Dir"
  by (auto simp: pruned_to_def is_file_def)

lemma prune_visit_wf: "wf_tree t \<Longrightarrow> wf_tree (fst (prune_visit E kept marked files base p t))"
proof -
  assume w: "wf_tree t"
  obtain t1 ok where r: "remove_one (gdisk E) p t = (t1, ok)" by (cases "remove_one (gdisk E) p t")
  have "wf_tree t1" using remove_one_wf [OF w, of "gdisk E" p] r by simp
  with w r show ?thesis
    by (auto simp: prune_visit_def Let_def split: option.split node.split bool.split)
qed

lemma prune_walk_wf: "wf_tree t \<Longrightarrow> wf_tree (fst (prune_walk E kept marked files base ps t))"
proof (induction ps arbitrary: t)
  case (Cons p ps)
  obtain t1 e where v: "prune_visit E kept marked files base p t = (t1, e)"
    by (cases "prune_visit E kept marked files base p t")
  have "wf_tree t1" using prune_visit_wf [OF Cons.prems, of E kept marked files base p] v by simp
  with Cons.IH v show ?case by (simp split: option.split)
qed simp

lemma prune_orphans_wf: "wf_tree t \<Longrightarrow> wf_tree (fst (prune_orphans_recorded E roots kept marked files t))"
proof (induction roots arbitrary: t)
  case (Cons r rs)
  let ?base = "path_elems r"
  obtain t1 e where v: "prune_walk E kept marked files ?base (walk_order t ?base) t = (t1, e)"
    by (cases "prune_walk E kept marked files ?base (walk_order t ?base) t")
  have "wf_tree t1" using prune_walk_wf [OF Cons.prems, of E kept marked files ?base "walk_order t ?base"] v by simp
  with Cons v show ?case by (simp add: Let_def split: option.split)
qed simp

text \<open>A prune of some roots takes exactly the orphans below them.\<close>

lemma prune_orphans_exact:
  assumes R: "unreadable (gdisk E) = (\<lambda>_ _. False)" and M: "local_mark marked"
  shows "wf_tree t \<Longrightarrow> prune_orphans_recorded E roots kept marked (Some files) t = (t', None) \<Longrightarrow>
     pruned_to {p. orphan_under E kept marked files roots t p} t t'"
proof (induction roots arbitrary: t)
  case Nil
  then show ?case by (simp add: pruned_to_def orphan_under_def)
next
  case (Cons r rs)
  let ?base = "path_elems r"
  let ?gone = "\<lambda>p. strict_prefix ?base p \<and> prunable E kept marked files ?base t p"
  have split: "orphan_under E kept marked files (r # rs) t p \<longleftrightarrow> ?gone p \<or> orphan_under E kept marked files rs t p" for p
    by (auto simp: orphan_under_def)
  show ?case
  proof (cases "node_at t ?base = Some Dir")
    case False
    have no: "\<not> ?gone p" for p
    proof
      assume g: "?gone p"
      then have "node_at t p \<noteq> None" by (auto simp: prunable_def is_file_def split: option.splits)
      with wf_tree_ancestor [OF Cons.prems(1)] g False show False by blast
    qed
    have "prune_orphans_recorded E rs kept marked (Some files) t = (t', None)"
      using Cons.prems(2) False by (simp add: Let_def split: if_splits)
    from Cons.IH [OF Cons.prems(1) this]
    have "pruned_to {p. orphan_under E kept marked files rs t p} t t'" .
    moreover have "{p. orphan_under E kept marked files (r # rs) t p} = {p. orphan_under E kept marked files rs t p}"
      using split no by blast
    ultimately show ?thesis by simp
  next
    case True
    obtain t1 where v: "prune_walk E kept marked (Some files) ?base (walk_order t ?base) t = (t1, None)"
      and rest: "prune_orphans_recorded E rs kept marked (Some files) t1 = (t', None)"
      using Cons.prems(2) True
      by (cases "prune_walk E kept marked (Some files) ?base (walk_order t ?base) t")
        (auto simp: Let_def split: if_splits option.splits)
    have w1: "wf_tree t1" using prune_walk_wf [OF Cons.prems(1), of E kept marked "Some files" ?base "walk_order t ?base"] v
      by simp
    have "pruned_to {p \<in> set (walk_order t ?base). prunable E kept marked files ?base t p} t t1"
      by (rule prune_walk_exact [OF R M v walk_order_distinct [OF wf_tree_map [OF Cons.prems(1)]]])
    moreover have "{p \<in> set (walk_order t ?base). prunable E kept marked files ?base t p} = {p. ?gone p}"
    proof -
      have "p \<in> fst ` set t" if "?gone p" for p
      proof -
        have "p \<noteq> []" using that by (cases p) auto
        with that node_at_keys [of p t] show ?thesis by (auto simp: prunable_def is_file_def split: option.splits)
      qed
      moreover have "\<not> prunable E kept marked files ?base t ?base" using True by (simp add: prunable_def is_file_def)
      ultimately show ?thesis by (auto simp: walk_order_mem simp del: set_map)
    qed
    ultimately have first: "pruned_to {p. ?gone p} t t1" by simp
    have second: "pruned_to {p. orphan_under E kept marked files rs t1 p} t1 t'" by (rule Cons.IH [OF w1 rest])
    have "orphan_under E kept marked files rs t1 p \<longleftrightarrow> orphan_under E kept marked files rs t p" if "\<not> ?gone p" for p
    proof -
      have "node_at t1 p = (if ?gone p then None else node_at t p)" using first by (simp add: pruned_to_def)
      then have "node_at t1 p = node_at t p" by (simp only: if_not_P [OF that])
      from prunable_same [OF R M this] show ?thesis by (simp add: orphan_under_def)
    qed
    from pruned_to_trans [OF first second this] show ?thesis unfolding split .
  qed
qed

lemma local_head_matches: "unreadable d = (\<lambda>_ _. False) \<Longrightarrow> local_mark (head_matches r d)"
  unfolding local_mark_def head_matches_def by (metis read_file_same)

lemma local_mark_or: "local_mark m \<Longrightarrow> local_mark (\<lambda>t p. m t p \<or> m' p)"
  unfolding local_mark_def by metis

lemma orphan_under_same:
  "unreadable (gdisk E) = (\<lambda>_ _. False) \<Longrightarrow> local_mark marked \<Longrightarrow> node_at t' p = node_at t p \<Longrightarrow>
     orphan_under E kept marked files roots t' p \<longleftrightarrow> orphan_under E kept marked files roots t p"
  unfolding orphan_under_def by (metis prunable_same)

abbreviation generated_mark :: "'m gen_env \<Rightarrow> string \<Rightarrow> tree \<Rightarrow> path \<Rightarrow> bool" where
  "generated_mark E services \<equiv> \<lambda>t p. has_generated_marker (gdisk E) t p \<or> staged_plugin_file services p"

lemma local_marks:
  assumes "unreadable (gdisk E) = (\<lambda>_ _. False)"
  shows "local_mark (generated_mark E services)" and "local_mark (has_infra_marker (gdisk E))"
proof -
  have "has_generated_marker (gdisk E) = head_matches generated_marker_re (gdisk E)"
    "has_infra_marker (gdisk E) = head_matches infra_marker_re (gdisk E)"
    by (intro ext; simp only: has_generated_marker_def has_infra_marker_def)+
  with local_head_matches [OF assms] have m: "local_mark (has_generated_marker (gdisk E))"
    and i: "local_mark (has_infra_marker (gdisk E))" by simp_all
  show "local_mark (generated_mark E services)" by (rule local_mark_or [OF m])
  show "local_mark (has_infra_marker (gdisk E))" by (rule i)
qed

lemma prune_stale_run:
  assumes "load_written_manifest E t = Inr (Some files)"
    and "prune_stale E clean prune kept services True t = (t', None)"
  obtains t1 where "prune_orphans_recorded E clean kept (generated_mark E services) (Some files) t = (t1, None)"
    and "prune_orphans_recorded E prune kept (has_infra_marker (gdisk E)) (Some files) t1 = (t', None)"
  using assms
  by (cases "prune_orphans_recorded E clean kept (generated_mark E services) (Some files) t")
    (auto simp: prune_stale_def split: option.splits)

text \<open>A prune that ends well takes exactly the orphans: the files no longer rendered, recorded by a run
  before this one and byte for byte as codegen left them, that lie in reach below one of the roots the console
  named and carry that root's mark. Every other path, directories too, is as it was.\<close>

theorem the_prune_takes_exactly_the_orphans:
  assumes R: "unreadable (gdisk E) = (\<lambda>_ _. False)" and w: "wf_tree t"
    and l: "load_written_manifest E t = Inr (Some files)"
    and r: "prune_stale E clean prune kept services True t = (t', None)"
  shows "node_at t' p =
    (if orphan_under E kept (generated_mark E services) files clean t p \<or>
        orphan_under E kept (has_infra_marker (gdisk E)) files prune t p
     then None else node_at t p)"
proof -
  obtain t1 where r1: "prune_orphans_recorded E clean kept (generated_mark E services) (Some files) t = (t1, None)"
    and r2: "prune_orphans_recorded E prune kept (has_infra_marker (gdisk E)) (Some files) t1 = (t', None)"
    using prune_stale_run [OF l r] .
  let ?A = "orphan_under E kept (generated_mark E services) files clean t"
  have w1: "wf_tree t1" using prune_orphans_wf [OF w, of E clean kept "generated_mark E services" "Some files"] r1 by simp
  have first: "pruned_to {p. ?A p} t t1" by (rule prune_orphans_exact [OF R local_marks(1) [OF R] w r1])
  have "orphan_under E kept (has_infra_marker (gdisk E)) files prune t1 q \<longleftrightarrow>
      orphan_under E kept (has_infra_marker (gdisk E)) files prune t q" if no: "\<not> ?A q" for q
  proof (rule orphan_under_same [OF R local_marks(2) [OF R]])
    have "node_at t1 q = (if ?A q then None else node_at t q)" using first by (simp add: pruned_to_def)
    then show "node_at t1 q = node_at t q" by (simp only: if_not_P [OF no])
  qed
  from pruned_to_trans [OF first prune_orphans_exact [OF R local_marks(2) [OF R] w1 r2] this]
  show ?thesis unfolding pruned_to_def mem_Collect_eq by blast
qed

definition staged :: "string \<Rightarrow> path" where
  "staged f = [''w17'', ''services'', ''a'', ''src'', ''plugins'', ''p'', f]"

definition prune_files :: digests where
  "prune_files = [(join_with [slash] (staged ''old''), ''x'')]"

definition prune_tree :: tree where
  "prune_tree =
     map (\<lambda>p. (p, Dir)) (tl (prefixes (butlast (staged ''old'')))) @
     [(manifest_path, File (enc_map prune_files @ [nl])), (staged ''old'', File ''x''), (staged ''own'', File ''y'')]"

theorem the_prune_takes_exactly_the_orphans_witness:
  "node_at (fst (prune_stale sample_env [''w17''] [] [] ''w17/services'' True prune_tree)) (staged ''old'') = None \<and>
   node_at (fst (prune_stale sample_env [''w17''] [] [] ''w17/services'' True prune_tree)) (staged ''own'') = Some (File ''y'')"
proof -
  let ?r = "prune_stale sample_env [''w17''] [] [] ''w17/services'' True prune_tree"
  let ?o = "\<lambda>p. orphan_under sample_env [] (generated_mark sample_env ''w17/services'') prune_files [''w17''] prune_tree p \<or>
     orphan_under sample_env [] (has_infra_marker (gdisk sample_env)) prune_files [] prune_tree p"
  have "snd ?r = None" by code_simp
  then have r: "?r = (fst ?r, None)" by (metis prod.collapse)
  have R: "unreadable (gdisk sample_env) = (\<lambda>_ _. False)" by (simp add: sample_env_def healthy_disk_def)
  have w: "wf_tree prune_tree" by code_simp
  have l: "load_written_manifest sample_env prune_tree = Inr (Some prune_files)" by code_simp
  note exact = the_prune_takes_exactly_the_orphans [OF R w l r]
  have "?o (staged ''old'')" by code_simp
  moreover have "\<not> ?o (staged ''own'')" by code_simp
  moreover have "node_at prune_tree (staged ''own'') = Some (File ''y'')" by code_simp
  ultimately show ?thesis using exact by simp
qed

end
