(* ===== verification/Gofmt.thy ===== *)
theory Gofmt
  imports Codegen
begin

text \<open>
  \<^verbatim>\<open>src/internal/gofmtc\<close>: the Go a run rendered is formatted on this machine, and a file the project
  already holds in that form is left out of the write (\<^verbatim>\<open>formatIncoming\<close> in
  \<^verbatim>\<open>src/internal/codegen/codegen.go\<close>). Go's own formatter and the programs of a pinned run are
  parameters.
\<close>

section \<open>The emit hash\<close>

definition emit_marker :: string where
  "emit_marker = ''// emit-sha256: ''"

text \<open>What follows the last occurrence.\<close>

fun after_last :: "string \<Rightarrow> string \<Rightarrow> string option" where
  "after_last m [] = (if m = [] then Some [] else None)"
| "after_last m (c # cs) =
     (case after_last m cs of
        Some r \<Rightarrow> Some r
      | None \<Rightarrow> if prefix m (c # cs) then Some (drop (length m) (c # cs)) else None)"

definition tail_of :: "string \<Rightarrow> string" where
  "tail_of b = drop (length b - 256) b"

definition emit_hash :: "string \<Rightarrow> string option" where
  "emit_hash body =
     (case after_last emit_marker (tail_of body) of
        None \<Rightarrow> None
      | Some r \<Rightarrow> let h = trim_space r in if length h \<noteq> 64 then None else Some h)"

text \<open>\<^verbatim>\<open>filepath.Join\<close> of the root and a path: inside the project, or wherever the parent steps lead.\<close>

definition read_rel :: "disk \<Rightarrow> tree \<Rightarrow> (string \<Rightarrow> read) \<Rightarrow> string \<Rightarrow> read" where
  "read_rel d t outside rel = (if ''..'' \<in> set (path_elems rel) then outside rel else read_file d t (path_elems rel))"

definition same_on_disk :: "(string \<Rightarrow> read) \<Rightarrow> string \<Rightarrow> string \<Rightarrow> bool" where
  "same_on_disk rd rel want \<longleftrightarrow> (case rd rel of Bytes b \<Rightarrow> b = want | _ \<Rightarrow> False)"

definition on_disk_has_hash :: "(string \<Rightarrow> read) \<Rightarrow> string \<Rightarrow> string \<Rightarrow> bool" where
  "on_disk_has_hash rd rel want \<longleftrightarrow> (case rd rel of Bytes b \<Rightarrow> emit_hash (tail_of b) = Some want | _ \<Rightarrow> False)"

section \<open>Formatting\<close>

record go_file =
  gf_path :: string
  gf_contents :: string
  gf_skip :: bool
  gf_formatted :: bool

datatype gofmt_error = InvalidGo string | NoGoDirective | NoFormatter string

definition is_go :: "string \<Rightarrow> bool" where
  "is_go rel \<longleftrightarrow> suffix ''.go'' rel"

definition apply_file ::
    "(string \<Rightarrow> read) \<Rightarrow> (string \<Rightarrow> string option) \<Rightarrow> bool \<Rightarrow> go_file \<Rightarrow> gofmt_error + go_file" where
  "apply_file rd fmt trust f =
     (if \<not> is_go (gf_path f) then Inr (if same_on_disk rd (gf_path f) (gf_contents f) then f\<lparr>gf_skip := True\<rparr> else f)
      else if (case emit_hash (gf_contents f) of Some h \<Rightarrow> on_disk_has_hash rd (gf_path f) h | None \<Rightarrow> False)
      then Inr (f\<lparr>gf_skip := True\<rparr>)
      else if gf_formatted f \<and> trust then Inr f
      else case fmt (gf_contents f) of
        None \<Rightarrow> Inl (InvalidGo (gf_path f))
      | Some b \<Rightarrow> Inr (f\<lparr>gf_contents := b\<rparr>))"

fun apply_files ::
    "(string \<Rightarrow> read) \<Rightarrow> (string \<Rightarrow> string option) \<Rightarrow> bool \<Rightarrow> go_file list \<Rightarrow> gofmt_error + go_file list" where
  "apply_files rd fmt trust [] = Inr []"
| "apply_files rd fmt trust (f # fs) =
     (case apply_file rd fmt trust f of
        Inl e \<Rightarrow> Inl e
      | Inr f' \<Rightarrow> (case apply_files rd fmt trust fs of Inl e \<Rightarrow> Inl e | Inr fs' \<Rightarrow> Inr (f' # fs')))"

section \<open>The formatter of a pinned run\<close>

datatype mode = Embedded | Pinned

definition parse_gofmt_mode :: "string \<Rightarrow> mode option" where
  "parse_gofmt_mode s =
     (if s = [] \<or> s = ''embedded'' then Some Embedded else if s = ''pinned'' then Some Pinned else None)"

text \<open>The first two dotted parts of a version.\<close>

definition minor_of :: "string \<Rightarrow> string" where
  "minor_of v = (case split_on (CHR ''.'') v of a # b # _ \<Rightarrow> a @ ''.'' @ b | _ \<Rightarrow> v)"

text \<open>A line \<^verbatim>\<open>go 1.26\<close> or \<^verbatim>\<open>go 1.26.3\<close>: white space may surround the
  version, and white space of the pattern may run over line ends.\<close>

definition re_space :: "char \<Rightarrow> bool" where
  "re_space c \<longleftrightarrow> c \<in> {CHR '' '', tab, nl, CHR 0x0C, CHR 0x0D}"

fun all_digits :: "string \<Rightarrow> bool" where
  "all_digits s \<longleftrightarrow> s \<noteq> [] \<and> list_all is_digit s"

definition go_version_text :: "string \<Rightarrow> bool" where
  "go_version_text v =
     (case split_on (CHR ''.'') v of
        [a, b] \<Rightarrow> all_digits a \<and> all_digits b
      | [a, b, c] \<Rightarrow> all_digits a \<and> all_digits b \<and> all_digits c
      | _ \<Rightarrow> False)"

definition version_char :: "char \<Rightarrow> bool" where
  "version_char c \<longleftrightarrow> is_digit c \<or> c = CHR ''.''"

text \<open>A match of the directive that starts here.\<close>

definition go_directive_here :: "string \<Rightarrow> string option" where
  "go_directive_here s =
     (if prefix ''go'' s then
        let r = drop 2 s; r1 = dropWhile re_space r; v = takeWhile version_char r1; r2 = dropWhile version_char r1
        in if takeWhile re_space r \<noteq> [] \<and> go_version_text v \<and>
              (dropWhile re_space r2 = [] \<or> nl \<in> set (takeWhile re_space r2))
           then Some v else None
      else None)"

fun go_directive_from :: "bool \<Rightarrow> string \<Rightarrow> string option" where
  "go_directive_from line_start [] = None"
| "go_directive_from line_start (c # cs) =
     (case (if line_start then go_directive_here (c # cs) else None) of
        Some v \<Rightarrow> Some v
      | None \<Rightarrow> go_directive_from (c = nl) cs)"

definition go_directive :: "string \<Rightarrow> string option" where
  "go_directive b = go_directive_from True b"

fun first_directive :: "disk \<Rightarrow> tree \<Rightarrow> path list \<Rightarrow> string option" where
  "first_directive d t [] = None"
| "first_directive d t (p # ps) =
     (case read_file d t p of
        Bytes b \<Rightarrow> (case go_directive b of Some v \<Rightarrow> Some v | None \<Rightarrow> first_directive d t ps)
      | _ \<Rightarrow> first_directive d t ps)"

definition project_go_version :: "disk \<Rightarrow> tree \<Rightarrow> string option" where
  "project_go_version d t = first_directive d t [[''go.work''], [''go.mod''], [''srcgo'', ''go.mod'']]"

text \<open>The programs of this machine: where \<^verbatim>\<open>go\<close> is, what it prints of its version, whether there is a
  docker, and what a command line makes of its standard input.\<close>

record machine =
  look_go :: "string option"
  go_version_output :: "string option"
  has_docker :: bool
  run_program :: "string list \<Rightarrow> string \<Rightarrow> string option"

text \<open>\<^verbatim>\<open>strings.Fields\<close>.\<close>

fun fields_from :: "nat \<Rightarrow> string \<Rightarrow> string \<Rightarrow> string list" where
  "fields_from skip acc [] = (if acc = [] then [] else [acc])"
| "fields_from skip acc (c # cs) =
     (if 0 < skip then fields_from (skip - 1) acc cs
      else case find (\<lambda>e. prefix e (c # cs)) space_encodings of
        Some e \<Rightarrow> (if acc = [] then [] else [acc]) @ fields_from (length e - 1) [] cs
      | None \<Rightarrow> fields_from 0 (acc @ [c]) cs)"

definition local_gofmt :: "machine \<Rightarrow> string \<Rightarrow> string list option" where
  "local_gofmt X want =
     (case look_go X of
        None \<Rightarrow> None
      | Some go \<Rightarrow>
          (case go_version_output X of
             None \<Rightarrow> None
           | Some out \<Rightarrow>
               (case fields_from 0 [] out of
                  a # b # v # _ \<Rightarrow>
                    if prefix ''go'' v \<and> minor_of (trim_prefix ''go'' v) = want then Some [go, ''fmt''] else None
                | _ \<Rightarrow> None)))"

definition pinned_formatter :: "machine \<Rightarrow> disk \<Rightarrow> tree \<Rightarrow> gofmt_error + (string \<Rightarrow> string option)" where
  "pinned_formatter X d t =
     (case project_go_version d t of
        None \<Rightarrow> Inl NoGoDirective
      | Some v \<Rightarrow>
          (let want = minor_of v
           in case local_gofmt X want of
                Some argv \<Rightarrow> Inr (run_program X argv)
              | None \<Rightarrow>
                  if has_docker X
                  then Inr (run_program X [''docker'', ''run'', ''--rm'', ''-i'', ''golang:'' @ want, ''gofmt''])
                  else Inl (NoFormatter v)))"

definition apply_mode ::
    "(string \<Rightarrow> string option) \<Rightarrow> machine \<Rightarrow> disk \<Rightarrow> tree \<Rightarrow> (string \<Rightarrow> read) \<Rightarrow> mode \<Rightarrow> go_file list
       \<Rightarrow> gofmt_error + go_file list" where
  "apply_mode gofmt X d t outside m files =
     (case (case m of Embedded \<Rightarrow> Inr gofmt | Pinned \<Rightarrow> pinned_formatter X d t) of
        Inl e \<Rightarrow> Inl e
      | Inr fmt \<Rightarrow> apply_files (read_rel d t outside) fmt (m \<noteq> Pinned) files)"

definition source_if_go :: "(string \<Rightarrow> string option) \<Rightarrow> string \<Rightarrow> string \<Rightarrow> gofmt_error + string" where
  "source_if_go gofmt rel b =
     (if \<not> is_go rel then Inr b else case gofmt b of None \<Rightarrow> Inl (InvalidGo rel) | Some b' \<Rightarrow> Inr b')"

section \<open>Into the write\<close>

abbreviation staged_file :: "write_op \<times> bool \<Rightarrow> go_file" where
  "staged_file x \<equiv> \<lparr>gf_path = op_path (fst x), gf_contents = op_contents (fst x), gf_skip = False, gf_formatted = snd x\<rparr>"

text \<open>The files the project already holds are named beside the writes, which stay complete: the prune reads them
  as what the run rendered.\<close>

definition format_incoming ::
    "(string \<Rightarrow> string option) \<Rightarrow> machine \<Rightarrow> disk \<Rightarrow> tree \<Rightarrow> (string \<Rightarrow> read) \<Rightarrow> mode \<Rightarrow> (write_op \<times> bool) list
       \<Rightarrow> gofmt_error + (write_op list \<times> string list)" where
  "format_incoming gofmt X d t outside m ws =
     (case apply_mode gofmt X d t outside m (map staged_file ws) of
        Inl e \<Rightarrow> Inl e
      | Inr fs \<Rightarrow>
          Inr (map2 (\<lambda>w f. if gf_skip f then w else w\<lparr>op_contents := gf_contents f\<rparr>) (map fst ws) fs,
               map gf_path (filter gf_skip fs)))"

section \<open>What is left out\<close>

lemma apply_files_all2:
  "apply_files rd fmt trust fs = Inr fs' \<Longrightarrow> list_all2 (\<lambda>f f'. apply_file rd fmt trust f = Inr f') fs fs'"
proof (induction fs arbitrary: fs')
  case (Cons f fs)
  then obtain f' gs where "apply_file rd fmt trust f = Inr f'" "apply_files rd fmt trust fs = Inr gs" "fs' = f' # gs"
    by (auto split: sum.splits)
  with Cons.IH show ?case by simp
qed simp

lemma emit_tail_again [simp]: "tail_of (tail_of b) = tail_of b"
  by (simp add: tail_of_def)

lemma emit_hash_tail [simp]: "emit_hash (tail_of b) = emit_hash b"
  by (simp add: emit_hash_def)

definition held :: "(string \<Rightarrow> read) \<Rightarrow> string \<Rightarrow> string \<Rightarrow> bool" where
  "held rd rel sent \<longleftrightarrow>
     (\<exists>b. rd rel = Bytes b \<and> (if is_go rel then emit_hash sent \<noteq> None \<and> emit_hash b = emit_hash sent else b = sent))"

definition shaped :: "(string \<Rightarrow> string option) \<Rightarrow> bool \<Rightarrow> go_file \<Rightarrow> string \<Rightarrow> bool" where
  "shaped fmt trust f b \<longleftrightarrow>
     (if is_go (gf_path f) \<and> \<not> (gf_formatted f \<and> trust) then fmt (gf_contents f) = Some b else b = gf_contents f)"

lemma apply_file_cases:
  assumes "apply_file rd fmt trust f = Inr f'" and "\<not> gf_skip f"
  shows "gf_path f' = gf_path f \<and>
    (if gf_skip f' then held rd (gf_path f) (gf_contents f) \<and> gf_contents f' = gf_contents f
     else \<not> held rd (gf_path f) (gf_contents f) \<and> shaped fmt trust f (gf_contents f'))"
  using assms
  by (auto simp: apply_file_def held_def shaped_def same_on_disk_def on_disk_has_hash_def
      split: if_splits option.splits read.splits)

lemma format_incoming_run:
  assumes "format_incoming gofmt X d t outside m ws = Inr (ops, u)"
  obtains fmt fs where "(case m of Embedded \<Rightarrow> Inr gofmt | Pinned \<Rightarrow> pinned_formatter X d t) = Inr fmt"
    and "list_all2 (\<lambda>x f'. apply_file (read_rel d t outside) fmt (m \<noteq> Pinned) (staged_file x) = Inr f') ws fs"
    and "ops = map2 (\<lambda>w f. if gf_skip f then w else w\<lparr>op_contents := gf_contents f\<rparr>) (map fst ws) fs"
    and "u = map gf_path (filter gf_skip fs)"
proof -
  obtain fmt where fmt: "(case m of Embedded \<Rightarrow> Inr gofmt | Pinned \<Rightarrow> pinned_formatter X d t) = Inr fmt"
    using assms
    by (cases "case m of Embedded \<Rightarrow> Inr gofmt | Pinned \<Rightarrow> pinned_formatter X d t") (auto simp: format_incoming_def apply_mode_def)
  obtain fs where fs: "apply_files (read_rel d t outside) fmt (m \<noteq> Pinned) (map staged_file ws) = Inr fs"
    and o: "ops = map2 (\<lambda>w f. if gf_skip f then w else w\<lparr>op_contents := gf_contents f\<rparr>) (map fst ws) fs"
    and u: "u = map gf_path (filter gf_skip fs)"
    using assms fmt by (auto simp: format_incoming_def apply_mode_def case_prod_beta split: sum.splits)
  have "list_all2 (\<lambda>x f'. apply_file (read_rel d t outside) fmt (m \<noteq> Pinned) (staged_file x) = Inr f') ws fs"
    using apply_files_all2 [OF fs] by (simp add: list_all2_map1)
  from that [OF fmt this o u] show thesis .
qed

text \<open>C35: formatting leaves the list of writes complete and in order, and names as unchanged only files that are
  on disk: byte for byte as sent, or, of a Go file, with the emit hash that was sent. Every other file is written as
  sent, or as the one formatter of the run shapes it.\<close>

theorem formatting_leaves_out_only_what_is_held:
  assumes "format_incoming gofmt X d t outside m ws = Inr (ops, u)"
  shows "map op_path ops = map (op_path \<circ> fst) ws \<and>
    (\<forall>rel \<in> set u. \<exists>w f. (w, f) \<in> set ws \<and> op_path w = rel \<and> held (read_rel d t outside) rel (op_contents w)) \<and>
    (\<exists>fmt. (case m of Embedded \<Rightarrow> Inr gofmt | Pinned \<Rightarrow> pinned_formatter X d t) = Inr fmt \<and>
       list_all2 (\<lambda>x w. op_contents w = op_contents (fst x) \<or> shaped fmt (m \<noteq> Pinned) (staged_file x) (op_contents w)) ws ops)"
proof -
  obtain fmt fs where fmt: "(case m of Embedded \<Rightarrow> Inr gofmt | Pinned \<Rightarrow> pinned_formatter X d t) = Inr fmt"
    and all: "list_all2 (\<lambda>x f'. apply_file (read_rel d t outside) fmt (m \<noteq> Pinned) (staged_file x) = Inr f') ws fs"
    and o: "ops = map2 (\<lambda>w f. if gf_skip f then w else w\<lparr>op_contents := gf_contents f\<rparr>) (map fst ws) fs"
    and u: "u = map gf_path (filter gf_skip fs)"
    using format_incoming_run [OF assms] .
  have len: "length fs = length ws" using all by (simp add: list_all2_lengthD)
  have c: "gf_path (fs ! i) = op_path (fst (ws ! i)) \<and>
      (if gf_skip (fs ! i) then held (read_rel d t outside) (op_path (fst (ws ! i))) (op_contents (fst (ws ! i)))
       else shaped fmt (m \<noteq> Pinned) (staged_file (ws ! i)) (gf_contents (fs ! i)))"
    if "i < length ws" for i
    using apply_file_cases [OF list_all2_nthD [OF all that]] by (simp split: if_splits)
  have 1: "map op_path ops = map (op_path \<circ> fst) ws"
    by (rule nth_equalityI) (auto simp: o len)
  have 2: "\<exists>w f. (w, f) \<in> set ws \<and> op_path w = rel \<and> held (read_rel d t outside) rel (op_contents w)" if r: "rel \<in> set u" for rel
  proof -
    obtain f where "f \<in> set fs" "gf_skip f" "rel = gf_path f" using r by (auto simp: u)
    then obtain i where i: "i < length fs" "gf_skip (fs ! i)" "rel = gf_path (fs ! i)" by (auto simp: in_set_conv_nth)
    then have "ws ! i \<in> set ws" and "op_path (fst (ws ! i)) = rel"
      and "held (read_rel d t outside) rel (op_contents (fst (ws ! i)))"
      using c [of i] len by auto
    then show ?thesis by (metis prod.collapse)
  qed
  have 3: "list_all2 (\<lambda>x w. op_contents w = op_contents (fst x) \<or> shaped fmt (m \<noteq> Pinned) (staged_file x) (op_contents w)) ws ops"
    unfolding list_all2_conv_all_nth using c len by (auto simp: o)
  from 1 2 3 fmt show ?thesis by blast
qed

section \<open>A pinned run on a machine with the right Go\<close>

text \<open>A pinned run on a machine whose own Go has the project's minor version hands every file to
  \<^verbatim>\<open>go fmt\<close>, which formats the packages it is given and does not read its standard input: every Go file
  that is not left out gets the same contents, whatever was rendered for it.\<close>

theorem pinned_go_fmt_loses_the_source:
  assumes v: "project_go_version d t = Some v" and g: "local_gofmt X (minor_of v) = Some [go, ''fmt'']"
    and docs: "\<And>src. run_program X [go, ''fmt''] src = run_program X [go, ''fmt''] []"
    and r: "apply_mode gofmt X d t outside Pinned files = Inr fs"
    and f: "f \<in> set fs" "is_go (gf_path f)" "\<not> gf_skip f" and fresh: "\<forall>x \<in> set files. \<not> gf_skip x"
  shows "run_program X [go, ''fmt''] [] = Some (gf_contents f)"
proof -
  have p: "pinned_formatter X d t = Inr (run_program X [go, ''fmt''])" using v g by (simp add: pinned_formatter_def Let_def)
  then have "apply_files (read_rel d t outside) (run_program X [go, ''fmt'']) False files = Inr fs"
    using r by (simp add: apply_mode_def)
  note all = apply_files_all2 [OF this]
  obtain i where i: "i < length fs" "f = fs ! i" using f(1) by (auto simp: in_set_conv_nth)
  have len: "length files = length fs" using all by (rule list_all2_lengthD)
  have x: "files ! i \<in> set files" "apply_file (read_rel d t outside) (run_program X [go, ''fmt'']) False (files ! i) = Inr f"
    using list_all2_nthD2 [OF all i(1)] i len by simp_all
  have "\<not> gf_skip (files ! i)" using fresh x(1) by blast
  from apply_file_cases [OF x(2) this] f(2,3)
  have "shaped (run_program X [go, ''fmt'']) False (files ! i) (gf_contents f)" "is_go (gf_path (files ! i))"
    by (simp_all split: if_splits)
  then have "run_program X [go, ''fmt''] (gf_contents (files ! i)) = Some (gf_contents f)" by (simp add: shaped_def)
  then show ?thesis by (simp only: docs [of "gf_contents (files ! i)"])
qed

section \<open>An edit above the hash\<close>

lemma unchanged_leaves: "op_path w \<in> set u \<Longrightarrow> plan_op E C u files t w = Inr Leave"
  by (simp add: plan_op_def)

text \<open>A generated Go file that was edited by hand above its emit hash is taken for the file as rendered: it is
  left out, left on disk as edited, and the record then names the edited bytes as what codegen left. For the
  prune it is codegen's own, unedited file.\<close>

theorem an_edit_above_the_emit_hash_becomes_codegens:
  assumes H: "gdisk E = healthy_disk" and J: "json_laws E" and w17: "node_at t [''w17''] = Some Dir"
    and nodir: "node_at t manifest_path \<noteq> Some Dir" "node_at t manifest_tmp \<noteq> Some Dir"
    and away: "away_from_record E ops" and D: "targets_distinct E ops"
    and prior: "load_written_manifest E t = Inr prior" "prior = None \<or> wf_map (the prior)"
    and fi: "format_incoming gofmt X healthy_disk t outside Embedded ws = Inr (ops, u)"
    and w: "(w, formatted) \<in> set ws" "is_go (op_path w)" "\<not> op_if_missing w"
    and p: "contained_join E (op_path w) = Some p" "p = path_elems (op_path w)" "''..'' \<notin> set p" "p \<notin> {manifest_path, manifest_tmp}"
    and edited: "node_at t p = Some (File b)" "emit_hash (op_contents w) = Some h" "emit_hash b = Some h"
    and run: "apply_write_ops E C u ops t = (t', e)" "write_plan E C u t ops = Inr planned"
  shows "node_at t' p = Some (File b) \<and>
    (\<exists>files. load_written_manifest E t' = Inr (Some files) \<and> wrote E files t' (op_path w) p)"
proof -
  have R: "unreadable (gdisk E) = (\<lambda>_ _. False)" by (simp add: H healthy_disk_def)
  obtain fs where all: "list_all2 (\<lambda>x f'. apply_file (read_rel healthy_disk t outside) gofmt (Embedded \<noteq> Pinned) (staged_file x) = Inr f') ws fs"
    and o: "ops = map2 (\<lambda>w f. if gf_skip f then w else w\<lparr>op_contents := gf_contents f\<rparr>) (map fst ws) fs"
    and u: "u = map gf_path (filter gf_skip fs)"
    using fi by (rule format_incoming_run) auto
  obtain i where i: "i < length ws" "ws ! i = (w, formatted)" using w(1) by (auto simp: in_set_conv_nth)
  have len: "length fs = length ws" using all by (simp add: list_all2_lengthD)
  have "read_rel healthy_disk t outside (op_path w) = Bytes b"
    using p(2,3) edited(1) by (simp add: read_rel_def read_file_def healthy_disk_def)
  then have "held (read_rel healthy_disk t outside) (op_path w) (op_contents w)"
    using w(2) edited by (simp add: held_def)
  with apply_file_cases [OF list_all2_nthD [OF all i(1)]] i have skip: "gf_skip (fs ! i)" "gf_path (fs ! i) = op_path w"
    by (auto split: if_splits)
  have wu: "op_path w \<in> set u"
  proof -
    have "fs ! i \<in> set (filter gf_skip fs)" using skip(1) i(1) len by simp
    then show ?thesis unfolding u by (metis imageI list.set_map skip(2))
  qed
  have "ops ! i = w" and "i < length ops" using i skip len by (simp_all add: o)
  then have wo: "w \<in> set ops" by (metis nth_mem)
  obtain t1 e1 where pass: "write_pass (gdisk E) planned t = (t1, e1)" by (cases "write_pass (gdisk E) planned t")
  have n1: "node_at t1 p = Some (File b)"
    by (rule left_alone [OF D run(2) pass wo prior(1) unchanged_leaves [OF wu] p(1) edited(1)])
  have t': "t' = record_written_manifest E ops t1" using run pass by (simp add: apply_write_ops_def)
  have n': "node_at t' p = Some (File b)" unfolding t' by (rule files_kept_there [OF record_files_kept p(4) n1])
  from record_after_run [OF H J w17 nodir away prior run] obtain files where
    files: "load_written_manifest E t' = Inr (Some files)" and m: "\<forall>rel p. contained_join E rel = Some p \<longrightarrow> p \<notin> {manifest_path, manifest_tmp} \<longrightarrow>
        map_of files rel =
          (if (\<exists>w \<in> set ops. op_path w = rel \<and> \<not> op_if_missing w) then file_digest E t' p
           else if rel \<notin> op_path ` set ops \<and> exists_at t' p then Option.bind prior (\<lambda>m. map_of m rel)
           else None)" by blast
  have "map_of files (op_path w) = file_digest E t' p" using m p(1,4) wo w(3) by auto
  moreover have "file_digest E t' p \<noteq> None" using n' R by (simp add: file_digest_def read_file_def)
  ultimately have "wrote E files t' (op_path w) p" by (auto simp: wrote_def)
  with n' files show ?thesis by blast
qed

section \<open>Concrete runs\<close>

definition sample_machine :: machine where
  "sample_machine =
     \<lparr>look_go = Some ''/usr/bin/go'', go_version_output = Some ''go version go1.26.3 linux/amd64'', has_docker = False,
      run_program = (\<lambda>argv src. if argv = [''/usr/bin/go'', ''fmt''] then Some [] else Some src)\<rparr>"

definition hashed :: "string \<Rightarrow> string" where
  "hashed b = b @ emit_marker @ replicate 64 (CHR ''a'') @ [nl]"

theorem formatting_leaves_out_only_what_is_held_witness:
  "held (read_rel healthy_disk [([''a.txt''], File ''x'')] (\<lambda>_. NotExist)) ''a.txt'' ''x''"
proof -
  have r: "format_incoming Some sample_machine healthy_disk [([''a.txt''], File ''x'')] (\<lambda>_. NotExist) Embedded
      [(op_of ''a.txt'' ''x'', False), (op_of ''b.go'' ''package b'', False)]
     = Inr ([op_of ''a.txt'' ''x'', op_of ''b.go'' ''package b''], [''a.txt''])" by code_simp
  have "''a.txt'' \<noteq> ''b.go''" by simp
  with formatting_leaves_out_only_what_is_held [OF r] show ?thesis by (auto simp: op_of_def)
qed

definition pinned_tree :: tree where
  "pinned_tree = [([''go.work''], File (''go 1.26'' @ [nl]))]"

theorem pinned_go_fmt_loses_the_source_witness:
  "\<exists>b. apply_mode Some sample_machine healthy_disk pinned_tree (\<lambda>_. NotExist) Pinned
       [\<lparr>gf_path = ''a.go'', gf_contents = ''package a'', gf_skip = False, gf_formatted = False\<rparr>]
     = Inr [\<lparr>gf_path = ''a.go'', gf_contents = b, gf_skip = False, gf_formatted = False\<rparr>] \<and>
     run_program sample_machine [''/usr/bin/go'', ''fmt''] [] = Some b"
proof -
  let ?files = "[\<lparr>gf_path = ''a.go'', gf_contents = ''package a'', gf_skip = False, gf_formatted = False\<rparr>]"
  let ?f = "\<lparr>gf_path = ''a.go'', gf_contents = [], gf_skip = False, gf_formatted = False\<rparr>"
  have v: "project_go_version healthy_disk pinned_tree = Some ''1.26''" by code_simp
  have g: "local_gofmt sample_machine (minor_of ''1.26'') = Some [''/usr/bin/go'', ''fmt'']" by code_simp
  have r: "apply_mode Some sample_machine healthy_disk pinned_tree (\<lambda>_. NotExist) Pinned ?files = Inr [?f]" by code_simp
  have d: "run_program sample_machine [''/usr/bin/go'', ''fmt''] src = run_program sample_machine [''/usr/bin/go'', ''fmt''] []" for src
    by (simp add: sample_machine_def)
  have "run_program sample_machine [''/usr/bin/go'', ''fmt''] [] = Some (gf_contents ?f)"
    by (rule pinned_go_fmt_loses_the_source [OF v g d r]) (simp_all add: is_go_def, code_simp)
  with r show ?thesis by auto
qed

definition edited_tree :: tree where
  "edited_tree = [([''w17''], Dir), ([''w17'', ''x.go''], File (hashed ''edited''))]"

theorem an_edit_above_the_emit_hash_becomes_codegens_witness:
  "\<exists>t' files. node_at t' [''w17'', ''x.go''] = Some (File (hashed ''edited'')) \<and>
     load_written_manifest sample_env t' = Inr (Some files) \<and> wrote sample_env files t' ''w17/x.go'' [''w17'', ''x.go'']"
proof -
  let ?w = "op_of ''w17/x.go'' (hashed ''sent'')"
  let ?r = "apply_write_ops sample_env sample_config [''w17/x.go''] [?w] edited_tree"
  have fi: "format_incoming Some sample_machine healthy_disk edited_tree (\<lambda>_. NotExist) Embedded [(?w, False)]
      = Inr ([?w], [''w17/x.go''])" by code_simp
  have plan: "write_plan sample_env sample_config [''w17/x.go''] edited_tree [?w] = Inr []" by code_simp
  have r: "?r = (fst ?r, snd ?r)" by simp
  have "node_at (fst ?r) [''w17'', ''x.go''] = Some (File (hashed ''edited'')) \<and>
     (\<exists>files. load_written_manifest sample_env (fst ?r) = Inr (Some files) \<and> wrote sample_env files (fst ?r) (op_path ?w) [''w17'', ''x.go''])"
  proof (rule an_edit_above_the_emit_hash_becomes_codegens [OF _ sample_json _ _ _ _ _ _ _ fi])
    show "apply_write_ops sample_env sample_config [''w17/x.go''] [?w] edited_tree = (fst ?r, snd ?r)" by (rule r)
    show "write_plan sample_env sample_config [''w17/x.go''] edited_tree [?w] = Inr []" by (rule plan)
    show "gdisk sample_env = healthy_disk" by (simp add: sample_env_def)
    show "load_written_manifest sample_env edited_tree = Inr None" by code_simp
    show "emit_hash (op_contents ?w) = Some (replicate 64 (CHR ''a''))" by code_simp
    show "emit_hash (hashed ''edited'') = Some (replicate 64 (CHR ''a''))" by code_simp
    show "(?w, False) \<in> set [(?w, False)]" by simp
    show "None = None \<or> wf_map (the None)" by simp
    show "node_at edited_tree [''w17''] = Some Dir" "node_at edited_tree manifest_path \<noteq> Some Dir"
      "node_at edited_tree manifest_tmp \<noteq> Some Dir" "away_from_record sample_env [?w]" "targets_distinct sample_env [?w]"
      "is_go (op_path ?w)" "\<not> op_if_missing ?w" "contained_join sample_env (op_path ?w) = Some [''w17'', ''x.go'']"
      "[''w17'', ''x.go''] = path_elems (op_path ?w)" "''..'' \<notin> set [''w17'', ''x.go'']"
      "[''w17'', ''x.go''] \<notin> {manifest_path, manifest_tmp}" "node_at edited_tree [''w17'', ''x.go''] = Some (File (hashed ''edited''))"
      by code_simp+
  qed
  then show ?thesis by (auto simp: op_of_def)
qed

end
