(* ===== verification/Placement.thy ===== *)
theory Placement
  imports Prelude "HOL-Library.Word"
begin

text \<open>
  \<^verbatim>\<open>src/internal/codegen/cluster.go\<close>: how a generating command gets a worker. The console places
  the run (queued, polled, granted), a worker runs it, and a failure is classified: final, worth a new placement,
  or a lost connection. The console, the worker, the random source and the clock are operations on a state of the
  environment (record \<^verbatim>\<open>cluster\<close>), so every request, attempt and wait is a step whose order the
  model keeps. A duration is a 64 bit count of nanoseconds.
\<close>

section \<open>Failures\<close>

datatype grpc_code =
  StatusOK | Canceled | UnknownCode | InvalidArgument | DeadlineExceeded | NotFound | AlreadyExists | PermissionDenied |
  ResourceExhausted | FailedPrecondition | Aborted | OutOfRange | Unimplemented | InternalCode | Unavailable | DataLoss |
  Unauthenticated

text \<open>The name gRPC gives a code, in lower case.\<close>

fun code_name :: "grpc_code \<Rightarrow> string" where
  "code_name StatusOK = ''ok''"
| "code_name Canceled = ''canceled''"
| "code_name UnknownCode = ''unknown''"
| "code_name InvalidArgument = ''invalidargument''"
| "code_name DeadlineExceeded = ''deadlineexceeded''"
| "code_name NotFound = ''notfound''"
| "code_name AlreadyExists = ''alreadyexists''"
| "code_name PermissionDenied = ''permissiondenied''"
| "code_name ResourceExhausted = ''resourceexhausted''"
| "code_name FailedPrecondition = ''failedprecondition''"
| "code_name Aborted = ''aborted''"
| "code_name OutOfRange = ''outofrange''"
| "code_name Unimplemented = ''unimplemented''"
| "code_name InternalCode = ''internal''"
| "code_name Unavailable = ''unavailable''"
| "code_name DataLoss = ''dataloss''"
| "code_name Unauthenticated = ''unauthenticated''"

datatype detail = CompilerError | ErrorInfo string string | OtherDetail

text \<open>An error as the client can see it: whether a deadline of this client is in its chain, whether its text says
  the pinned certificate was refused, and the gRPC status it carries, if it does.\<close>

record run_error =
  deadline_hit :: bool
  pin_refused :: bool
  status :: "(grpc_code \<times> detail list) option"
  message :: string

definition local_error :: "string \<Rightarrow> run_error" where
  "local_error msg = \<lparr>deadline_hit = False, pin_refused = False, status = None, message = msg\<rparr>"

definition cluster_error_domain :: string where
  "cluster_error_domain = ''cluster.w17''"

definition place_again_reasons :: "string list" where
  "place_again_reasons =
     [''NO_WORKER'', ''TICKET_NOT_REDEEMABLE'', ''RELAY_DRAINING'', ''WORKER_LOST'', ''ADMISSION_FULL'',
      ''ADMISSION_TIMEOUT'', ''RESERVATION_UNKNOWN'', ''NO_RELAY'']"

datatype fail_class = Fatal | PlaceAgain | Lost

text \<open>The first detail that decides.\<close>

fun class_of_details :: "detail list \<Rightarrow> (fail_class \<times> string) option" where
  "class_of_details [] = None"
| "class_of_details (CompilerError # ds) = Some (Fatal, ''rejected by the compiler'')"
| "class_of_details (ErrorInfo domain reason # ds) =
     (if domain = cluster_error_domain then
        if reason \<in> set place_again_reasons
        then Some (PlaceAgain, ''the cluster refused the placement ('' @ reason @ '')'')
        else Some (Fatal, ''the cluster refused the run ('' @ reason @ '')'')
      else class_of_details ds)"
| "class_of_details (OtherDetail # ds) = class_of_details ds"

fun class_of_code :: "grpc_code \<Rightarrow> fail_class \<times> string" where
  "class_of_code Unavailable = (Lost, ''connection lost'')"
| "class_of_code DeadlineExceeded = (Fatal, ''deadline exceeded'')"
| "class_of_code Unauthenticated = (Fatal, ''not authorised'')"
| "class_of_code PermissionDenied = (Fatal, ''not authorised'')"
| "class_of_code InvalidArgument = (Fatal, ''the input was refused'')"
| "class_of_code FailedPrecondition = (Fatal, ''the input was refused'')"
| "class_of_code OutOfRange = (Fatal, ''the input was refused'')"
| "class_of_code ResourceExhausted = (Fatal, ''the input is larger than the cluster admits'')"
| "class_of_code c = (Fatal, code_name c)"

definition classify_failure :: "run_error \<Rightarrow> fail_class \<times> string" where
  "classify_failure e =
     (if deadline_hit e then (Fatal, ''deadline exceeded'')
      else case status e of
        None \<Rightarrow> (Fatal, ''refused by the client'')
      | Some (code, ds) \<Rightarrow>
          if pin_refused e then (Fatal, ''relay certificate does not match the console's pin'')
          else case class_of_details ds of Some c \<Rightarrow> c | None \<Rightarrow> class_of_code code)"

definition has_codegen_error :: "run_error \<Rightarrow> bool" where
  "has_codegen_error e = (case status e of None \<Rightarrow> False | Some (_, ds) \<Rightarrow> CompilerError \<in> set ds)"

definition is_error_info :: "detail \<Rightarrow> bool" where
  "is_error_info d = (case d of ErrorInfo _ _ \<Rightarrow> True | _ \<Rightarrow> False)"

definition is_bare_unavailable :: "run_error \<Rightarrow> bool" where
  "is_bare_unavailable e =
     (case status e of
        Some (Unavailable, ds) \<Rightarrow> \<not> list_ex is_error_info ds
      | _ \<Rightarrow> False)"

text \<open>How a final failure is reported: the compiler's own words, or a cause.\<close>

datatype report = CompilerDiagnostics run_error | NotPlacedBecause string run_error | OverDeadline run_error | RunFailedBecause string run_error

definition fatal_placement_error :: "string \<Rightarrow> run_error \<Rightarrow> report" where
  "fatal_placement_error cause e = (if has_codegen_error e then CompilerDiagnostics e else NotPlacedBecause cause e)"

definition fatal_stream_error :: "string \<Rightarrow> run_error \<Rightarrow> report" where
  "fatal_stream_error cause e =
     (if has_codegen_error e then CompilerDiagnostics e
      else if deadline_hit e \<or> (case status e of Some (DeadlineExceeded, _) \<Rightarrow> True | _ \<Rightarrow> False) then OverDeadline e
      else RunFailedBecause cause e)"

section \<open>Durations\<close>

definition wrap64 :: "int \<Rightarrow> int" where
  "wrap64 n = sint (word_of_int n :: 64 word)"

definition millisecond :: int where "millisecond = 1000000"

definition second :: int where "second = 1000000000"

definition place_attempts :: nat where "place_attempts = 5"

definition place_backoff :: "int list" where "place_backoff = [1 * second, 2 * second, 4 * second]"

definition queue_timeout :: int where "queue_timeout = 30 * 60 * second"

definition max_poll_blips :: nat where "max_poll_blips = 3"

definition default_poll_after :: int where "default_poll_after = second"

definition stream_attempt_timeout :: int where "stream_attempt_timeout = 600 * second"

definition stream_per_line :: int where "stream_per_line = 7 * millisecond"

text \<open>The wait after the n-th failed placement, n at least 1.\<close>

definition backoff_for :: "nat \<Rightarrow> int" where
  "backoff_for n = (if n - 1 < length place_backoff then place_backoff ! (n - 1) else last place_backoff)"

definition attempt_deadline :: "int \<Rightarrow> int" where
  "attempt_deadline lines = wrap64 (stream_attempt_timeout + wrap64 ((if lines < 0 then 0 else lines) * stream_per_line))"

text \<open>The size a placement is admitted against: newlines, and one for a last line without.\<close>

definition count_proto_lines :: "string list \<Rightarrow> nat" where
  "count_proto_lines files =
     sum_list (map (\<lambda>c. if c = [] then 0 else count_list c nl + (if last c \<noteq> nl then 1 else 0)) files)"

section \<open>The environment\<close>

record granted =
  address :: string
  fingerprint :: string
  ticket :: string

record queued =
  position :: int
  retry_after_ms :: int
  reservation :: string

datatype step = Granted granted | Queued queued | NeitherStep

record response =
  signed_lock :: string
  warnings :: "string list"
  answer :: step

datatype request = StartPlacement | Poll string

text \<open>An attempt's failure: the error is classified, or it is final as it is.\<close>

datatype attempt_failure = Failed run_error | Final run_error

datatype notice =
  WaitingAt int
| PlacingAgain string int nat
| RunningAgain string nat int

record 's cluster =
  ask :: "request \<Rightarrow> 's \<Rightarrow> 's \<times> (run_error + response)"
  attempt :: "granted \<Rightarrow> string \<Rightarrow> string list \<Rightarrow> 's \<Rightarrow> 's \<times> attempt_failure option"
  rand_below :: "int \<Rightarrow> 's \<Rightarrow> 's \<times> int"
  sleep_for :: "int \<Rightarrow> 's \<Rightarrow> 's"
  tell :: "notice \<Rightarrow> 's \<Rightarrow> 's"

text \<open>\<^verbatim>\<open>jitterFn\<close>: a quarter less to a quarter more.\<close>

definition jitter :: "'s cluster \<Rightarrow> int \<Rightarrow> 's \<Rightarrow> 's \<times> int" where
  "jitter K d s =
     (if d \<le> 0 then (s, d)
      else let (s1, r) = rand_below K (d div 2 + 1) s in (s1, d * 3 div 4 + r))"

section \<open>A placement\<close>

text \<open>One poll, again while the connection blips: the handle stays the same, the waits count.\<close>

fun poll_through ::
    "'s cluster \<Rightarrow> string \<Rightarrow> int \<Rightarrow> nat \<Rightarrow> int \<Rightarrow> 's \<Rightarrow> 's \<times> int \<times> (run_error + response)" where
  "poll_through K h wait left waited s =
     (case ask K (Poll h) s of
        (s1, Inl e) \<Rightarrow>
          (case left of
             0 \<Rightarrow> (s1, waited, Inl e)
           | Suc n \<Rightarrow>
               if is_bare_unavailable e then poll_through K h wait n (wrap64 (waited + wait)) (sleep_for K wait s1)
               else (s1, waited, Inl e))
      | (s1, Inr r) \<Rightarrow> (s1, waited, Inr r))"

declare poll_through.simps [simp del]

definition poll_wait :: "queued \<Rightarrow> int" where
  "poll_wait q = (let w = wrap64 (retry_after_ms q * millisecond) in if w \<le> 0 then default_poll_after else w)"

definition unsigned_grant :: run_error where
  "unsigned_grant = local_error ''the console granted a placement without the signed lock -- refusing to run on it''"

definition no_step :: run_error where
  "no_step = local_error ''the console answered the placement with neither queued nor granted''"

definition queue_error :: run_error where
  "queue_error = local_error ''no codegen worker became free within the time a run waits in the queue''"

type_synonym placement = "granted \<times> string \<times> string list"

partial_function (option) poll_loop ::
    "'s cluster \<Rightarrow> bool \<Rightarrow> string \<Rightarrow> string list \<Rightarrow> int \<Rightarrow> int \<Rightarrow> response \<Rightarrow> 's
       \<Rightarrow> ('s \<times> (run_error + placement)) option" where
  "poll_loop K need_signed lock warns last_pos waited r s =
     (case answer r of
        Granted g \<Rightarrow>
          Some (s, if need_signed \<and> lock = [] then Inl unsigned_grant else Inr (g, lock, warns))
      | NeitherStep \<Rightarrow> Some (s, Inl no_step)
      | Queued q \<Rightarrow>
          (let s1 = (if position q \<noteq> last_pos then tell K (WaitingAt (position q)) s else s);
               wait = poll_wait q
           in if queue_timeout \<le> waited then Some (s1, Inl queue_error)
              else case poll_through K (reservation q) wait max_poll_blips (wrap64 (waited + wait)) (sleep_for K wait s1) of
                (s2, waited', Inl e) \<Rightarrow> Some (s2, Inl e)
              | (s2, waited', Inr r') \<Rightarrow> poll_loop K need_signed lock warns (position q) waited' r' s2))"

declare poll_loop.simps [code]

definition place :: "'s cluster \<Rightarrow> bool \<Rightarrow> 's \<Rightarrow> ('s \<times> (run_error + placement)) option" where
  "place K need_signed s =
     (case ask K StartPlacement s of
        (s1, Inl e) \<Rightarrow> Some (s1, Inl e)
      | (s1, Inr r) \<Rightarrow> poll_loop K need_signed (signed_lock r) (warnings r) (-1) 0 r s1)"

section \<open>Placing and running\<close>

datatype run_result =
  Completed
| NotPlaced report
| GaveUpPlacing string nat run_error
| GaveUpLost string nat int run_error
| RunFailed report
| FailedAsIs run_error

text \<open>Losing the console during a placement runs nothing: it counts as a placement that did not happen.\<close>

definition placement_class :: "run_error \<Rightarrow> fail_class \<times> string" where
  "placement_class e =
     (case classify_failure e of
        (Lost, _) \<Rightarrow> (PlaceAgain, ''the console is unreachable'')
      | c \<Rightarrow> c)"

definition wait_to_place :: "'s cluster \<Rightarrow> string \<Rightarrow> nat \<Rightarrow> 's \<Rightarrow> 's" where
  "wait_to_place K cause failures s =
     (let (s1, w) = jitter K (backoff_for failures) s
      in sleep_for K w (tell K (PlacingAgain cause w (failures + 1)) s1))"

text \<open>One turn of the loop: a result, or the counters of the next turn.\<close>

definition place_again :: "'s cluster \<Rightarrow> nat \<Rightarrow> nat \<Rightarrow> string \<Rightarrow> run_error \<Rightarrow> 's \<Rightarrow> 's \<times> (run_result + nat \<times> nat)" where
  "place_again K failures reruns cause e s =
     (if place_attempts \<le> Suc failures then (s, Inl (GaveUpPlacing cause (Suc failures) e))
      else (wait_to_place K cause (Suc failures) s, Inr (Suc failures, reruns)))"

definition after_refusal :: "'s cluster \<Rightarrow> nat \<Rightarrow> nat \<Rightarrow> run_error \<Rightarrow> 's \<Rightarrow> 's \<times> (run_result + nat \<times> nat)" where
  "after_refusal K failures reruns e s =
     (case placement_class e of
        (Fatal, cause) \<Rightarrow> (s, Inl (NotPlaced (fatal_placement_error cause e)))
      | (_, cause) \<Rightarrow> place_again K failures reruns cause e s)"

definition after_attempt ::
    "'s cluster \<Rightarrow> int \<Rightarrow> nat \<Rightarrow> nat \<Rightarrow> attempt_failure option \<Rightarrow> 's \<Rightarrow> 's \<times> (run_result + nat \<times> nat)" where
  "after_attempt K retries failures reruns x s =
     (case x of
        None \<Rightarrow> (s, Inl Completed)
      | Some (Final e) \<Rightarrow> (s, Inl (FailedAsIs e))
      | Some (Failed e) \<Rightarrow>
          (case classify_failure e of
             (PlaceAgain, cause) \<Rightarrow> place_again K failures reruns cause e s
           | (Lost, cause) \<Rightarrow>
               if retries \<le> int reruns then (s, Inl (GaveUpLost cause reruns retries e))
               else (tell K (RunningAgain cause (Suc reruns) retries) s, Inr (failures, Suc reruns))
           | (Fatal, cause) \<Rightarrow> (s, Inl (RunFailed (fatal_stream_error cause e)))))"

definition one_turn ::
    "'s cluster \<Rightarrow> bool \<Rightarrow> int \<Rightarrow> nat \<Rightarrow> nat \<Rightarrow> 's \<Rightarrow> ('s \<times> (run_result + nat \<times> nat)) option" where
  "one_turn K need_signed retries failures reruns s =
     (case place K need_signed s of
        None \<Rightarrow> None
      | Some (s1, Inl e) \<Rightarrow> Some (after_refusal K failures reruns e s1)
      | Some (s1, Inr (g, lock, warns)) \<Rightarrow>
          (let (s2, x) = attempt K g lock warns s1 in Some (after_attempt K retries failures reruns x s2)))"

definition turns_left :: "int \<Rightarrow> nat \<Rightarrow> nat \<Rightarrow> nat" where
  "turns_left retries failures reruns = (place_attempts - failures) + nat (retries - int reruns)"

lemma place_again_next:
  "place_again K f r cause e s = (s', Inr (f', r')) \<Longrightarrow> f' = Suc f \<and> f' < place_attempts \<and> r' = r"
  by (auto simp: place_again_def split: if_splits)

lemma after_refusal_next:
  "after_refusal K f r e s = (s', Inr (f', r')) \<Longrightarrow> f' = Suc f \<and> f' < place_attempts \<and> r' = r"
  by (auto simp: after_refusal_def dest: place_again_next split: prod.splits fail_class.splits)

lemma after_attempt_next:
  assumes "after_attempt K retries f r x s = (s', Inr (f', r'))"
  shows "\<exists>e. x = Some (Failed e) \<and>
    (fst (classify_failure e) = PlaceAgain \<and> f' = Suc f \<and> f' < place_attempts \<and> r' = r \<or>
     fst (classify_failure e) = Lost \<and> f' = f \<and> r' = Suc r \<and> int r < retries)"
  using assms
  by (auto simp: after_attempt_def dest: place_again_next
      split: option.splits attempt_failure.splits prod.splits fail_class.splits if_splits)

lemma one_turn_next:
  assumes "one_turn K need_signed retries f r s = Some (s', Inr (f', r'))"
  shows "turns_left retries f' r' < turns_left retries f r"
proof -
  have "f' = Suc f \<and> f' < place_attempts \<and> r' = r \<or> f' = f \<and> r' = Suc r \<and> int r < retries"
    using assms
    by (auto simp: one_turn_def Let_def dest!: after_refusal_next after_attempt_next
        split: option.splits prod.splits sum.splits)
  then show ?thesis by (auto simp: turns_left_def)
qed

function place_and_run ::
    "'s cluster \<Rightarrow> bool \<Rightarrow> int \<Rightarrow> nat \<Rightarrow> nat \<Rightarrow> 's \<Rightarrow> ('s \<times> run_result) option" where
  "place_and_run K need_signed retries failures reruns s =
     (case one_turn K need_signed retries failures reruns s of
        None \<Rightarrow> None
      | Some (s1, Inl result) \<Rightarrow> Some (s1, result)
      | Some (s1, Inr (failures', reruns')) \<Rightarrow> place_and_run K need_signed retries failures' reruns' s1)"
  by pat_completeness auto
termination
  by (relation "measure (\<lambda>(K, ns, retries, failures, reruns, s). turns_left retries failures reruns)")
    (auto intro: one_turn_next)

declare place_and_run.simps [simp del]

section \<open>A placement ends\<close>

text \<open>What the console's wire type allows: a 32 bit number of milliseconds.\<close>

definition bounded_retries :: "'s cluster \<Rightarrow> bool" where
  "bounded_retries K \<longleftrightarrow>
     (\<forall>rq s s1 r q. ask K rq s = (s1, Inr r) \<longrightarrow> answer r = Queued q \<longrightarrow> - (2 ^ 31) \<le> retry_after_ms q \<and> retry_after_ms q < 2 ^ 31)"

definition longest_wait :: int where "longest_wait = 2 ^ 31 * millisecond"

lemma wrap64_id: "- (2 ^ 63) \<le> n \<Longrightarrow> n < 2 ^ 63 \<Longrightarrow> wrap64 n = n"
  unfolding wrap64_def by (simp add: sint_sbintrunc' signed_take_bit_int_eq_self)

lemma poll_wait_bounds:
  assumes "- (2 ^ 31) \<le> retry_after_ms q" and "retry_after_ms q < 2 ^ 31"
  shows "millisecond \<le> poll_wait q \<and> poll_wait q \<le> longest_wait"
proof -
  have "wrap64 (retry_after_ms q * millisecond) = retry_after_ms q * millisecond"
    by (rule wrap64_id) (use assms in \<open>simp_all add: millisecond_def\<close>)
  with assms show ?thesis
    by (auto simp: poll_wait_def Let_def longest_wait_def default_poll_after_def millisecond_def second_def)
qed

lemma poll_through_turn:
  "ask K (Poll h) s = (s1, y) \<Longrightarrow>
     poll_through K h wait left waited s =
       (case y of
          Inr r \<Rightarrow> (s1, waited, Inr r)
        | Inl e \<Rightarrow>
            (case left of
               0 \<Rightarrow> (s1, waited, Inl e)
             | Suc n \<Rightarrow>
                 if is_bare_unavailable e then poll_through K h wait n (wrap64 (waited + wait)) (sleep_for K wait s1)
                 else (s1, waited, Inl e)))"
  by (subst poll_through.simps) (simp split: sum.split)

lemma poll_through_waited:
  assumes "poll_through K h wait left waited s = (s1, waited', x)" and "0 < wait" and "wait \<le> longest_wait"
    and "0 \<le> waited" and "waited + int left * longest_wait < 2 ^ 63"
  shows "waited \<le> waited' \<and> (\<forall>r. x = Inr r \<longrightarrow> (\<exists>rq s0 s2. ask K rq s0 = (s2, Inr r)))"
  using assms
proof (induction K h wait left waited s rule: poll_through.induct)
  case (1 K h wait left waited s)
  obtain s2 y where a: "ask K (Poll h) s = (s2, y)" by (cases "ask K (Poll h) s")
  show ?case
  proof (cases y)
    case (Inr r)
    with a 1(2) show ?thesis by (auto simp: poll_through.simps)
  next
    case (Inl e)
    show ?thesis
    proof (cases left)
      case 0
      with a Inl 1(2) show ?thesis by (auto simp: poll_through.simps)
    next
      case (Suc n)
      show ?thesis
      proof (cases "is_bare_unavailable e")
        case False
        with a Inl Suc 1(2) show ?thesis by (auto simp: poll_through.simps [of K h wait "Suc n"])
      next
        case True
        have w: "wrap64 (waited + wait) = waited + wait"
          by (rule wrap64_id) (use 1(3-6) Suc in \<open>auto simp: algebra_simps longest_wait_def millisecond_def\<close>)
        have "poll_through K h wait n (waited + wait) (sleep_for K wait s2) = (s1, waited', x)"
          using 1(2) a Inl Suc True w by (simp add: poll_through.simps [of K h wait "Suc n"])
        from 1(1) [OF a [symmetric] Inl Suc True, unfolded w, OF this 1(3,4)]
        have "waited + wait \<le> waited' \<and> (\<forall>r. x = Inr r \<longrightarrow> (\<exists>rq s0 s2. ask K rq s0 = (s2, Inr r)))"
          using 1(3-6) Suc by (simp add: algebra_simps)
        with 1(3) show ?thesis by auto
      qed
    qed
  qed
qed

lemma poll_loop_ends:
  assumes B: "bounded_retries K"
  shows "0 \<le> waited \<Longrightarrow> (\<exists>rq s0 s1. ask K rq s0 = (s1, Inr r)) \<Longrightarrow>
     \<exists>y. poll_loop K need_signed lock warns last_pos waited r s = Some y"
proof (induction "nat (queue_timeout - waited)" arbitrary: last_pos waited r s rule: less_induct)
  case less
  show ?case
  proof (cases "answer r")
    case (Queued q)
    from less.prems(2) Queued B have "- (2 ^ 31) \<le> retry_after_ms q \<and> retry_after_ms q < 2 ^ 31"
      unfolding bounded_retries_def by blast
    then have w: "millisecond \<le> poll_wait q" "poll_wait q \<le> longest_wait" using poll_wait_bounds by auto
    show ?thesis
    proof (cases "queue_timeout \<le> waited")
      case True
      with Queued show ?thesis by (simp add: poll_loop.simps [of K need_signed lock warns last_pos waited r s] Let_def)
    next
      case False
      let ?s1 = "if position q \<noteq> last_pos then tell K (WaitingAt (position q)) s else s"
      have id: "wrap64 (waited + poll_wait q) = waited + poll_wait q"
        by (rule wrap64_id) (use less.prems(1) w False in \<open>simp_all add: queue_timeout_def second_def longest_wait_def millisecond_def\<close>)
      obtain s2 waited' x where p: "poll_through K (reservation q) (poll_wait q) max_poll_blips (waited + poll_wait q)
          (sleep_for K (poll_wait q) ?s1) = (s2, waited', x)" by (metis prod_cases3)
      have x: "waited + poll_wait q \<le> waited' \<and> (\<forall>r. x = Inr r \<longrightarrow> (\<exists>rq s0 s2. ask K rq s0 = (s2, Inr r)))"
        by (rule poll_through_waited [OF p])
          (use less.prems(1) w False in \<open>simp_all add: queue_timeout_def second_def longest_wait_def millisecond_def max_poll_blips_def\<close>)
      show ?thesis
      proof (cases x)
        case (Inl e)
        with Queued False id p show ?thesis
          by (simp add: poll_loop.simps [of K need_signed lock warns last_pos waited r s] Let_def)
      next
        case (Inr r')
        have "nat (queue_timeout - waited') < nat (queue_timeout - waited)" and "0 \<le> waited'"
          using x w False less.prems(1) by (auto simp: millisecond_def)
        from less.hyps [OF this] x Inr
        obtain y where "poll_loop K need_signed lock warns (position q) waited' r' s2 = Some y" by blast
        with Queued False id p Inr show ?thesis
          by (simp add: poll_loop.simps [of K need_signed lock warns last_pos waited r s] Let_def)
      qed
    qed
  qed (simp_all add: poll_loop.simps [of K need_signed lock warns last_pos waited r s])
qed

lemma place_ends:
  assumes "bounded_retries K"
  shows "\<exists>y. place K need_signed s = Some y"
  unfolding place_def using poll_loop_ends [OF assms, of 0] by (auto split: prod.split sum.split) blast

lemma one_turn_ends:
  assumes "bounded_retries K"
  shows "\<exists>s' x. one_turn K need_signed retries failures reruns s = Some (s', x)"
proof -
  obtain s1 p where "place K need_signed s = Some (s1, p)"
    using place_ends [OF assms, of need_signed s] by (metis prod.collapse)
  then show ?thesis by (cases p) (auto simp: one_turn_def Let_def split: prod.split)
qed

text \<open>C19: whatever the console, the pool and the workers answer, and in whatever order, a command that needs a
  worker comes to an end: with a run, or with an error that says why there is none. A queue that never moves, a
  console that is never reached and a worker lost every time are all given up on.\<close>

theorem placing_and_running_always_ends:
  assumes "bounded_retries K"
  shows "\<exists>s' result. place_and_run K need_signed retries failures reruns s = Some (s', result)"
proof (induction "turns_left retries failures reruns" arbitrary: failures reruns s rule: less_induct)
  case less
  obtain s1 x where t: "one_turn K need_signed retries failures reruns s = Some (s1, x)"
    using one_turn_ends [OF assms, of need_signed retries failures reruns s] by auto
  show ?case
  proof (cases x)
    case (Inl result)
    with t show ?thesis by (simp add: place_and_run.simps [of K need_signed retries failures reruns s])
  next
    case (Inr c)
    obtain f r where c: "c = (f, r)" by (cases c)
    from t Inr c have "turns_left retries f r < turns_left retries failures reruns" by (auto intro: one_turn_next)
    from less.hyps [OF this] t Inr c show ?thesis
      by (simp add: place_and_run.simps [of K need_signed retries failures reruns s])
  qed
qed

section \<open>What a command does, in order\<close>

datatype event =
  Asked request "run_error + response"
| Ran granted string "attempt_failure option"
| Slept int
| Told notice

text \<open>The same environment, with every step written down.\<close>

definition traced_by :: "'s cluster \<Rightarrow> ('s \<times> event list) cluster" where
  "traced_by K =
     \<lparr>ask = (\<lambda>rq (s, es). let (s', x) = ask K rq s in ((s', es @ [Asked rq x]), x)),
      attempt = (\<lambda>g lock warns (s, es). let (s', x) = attempt K g lock warns s in ((s', es @ [Ran g lock x]), x)),
      rand_below = (\<lambda>n (s, es). let (s', r) = rand_below K n s in ((s', es), r)),
      sleep_for = (\<lambda>d (s, es). (sleep_for K d s, es @ [Slept d])),
      tell = (\<lambda>n (s, es). (tell K n s, es @ [Told n]))\<rparr>"

fun is_run :: "event \<Rightarrow> bool" where
  "is_run (Ran _ _ _) = True"
| "is_run _ = False"

abbreviation runs :: "event list \<Rightarrow> event list" where
  "runs \<equiv> filter is_run"

text \<open>Events that are not attempts were added.\<close>

definition quietly :: "'s \<times> event list \<Rightarrow> 's \<times> event list \<Rightarrow> bool" where
  "quietly s s' \<longleftrightarrow> (\<exists>ds. snd s' = snd s @ ds \<and> runs ds = [])"

lemma quietly_refl [simp, intro]: "quietly s s"
  by (simp add: quietly_def)

lemma quietly_trans [trans]: "quietly s s' \<Longrightarrow> quietly s' s'' \<Longrightarrow> quietly s s''"
  by (auto simp: quietly_def)

lemma quietly_ask: "ask (traced_by K) rq s = (s', x) \<Longrightarrow> quietly s s'"
  by (cases s) (auto simp: traced_by_def quietly_def split: prod.splits)

lemma quietly_sleep [simp, intro]: "quietly s (sleep_for (traced_by K) d s)"
  by (cases s) (simp add: traced_by_def quietly_def)

lemma quietly_tell [simp, intro]: "quietly s (tell (traced_by K) n s)"
  by (cases s) (simp add: traced_by_def quietly_def)

lemma quietly_jitter: "jitter (traced_by K) d s = (s', w) \<Longrightarrow> quietly s s'"
  by (cases s) (auto simp: jitter_def traced_by_def quietly_def split: if_splits prod.splits)

lemma quietly_wait [simp, intro]: "quietly s (wait_to_place (traced_by K) cause f s)"
proof -
  obtain s1 w where j: "jitter (traced_by K) (backoff_for f) s = (s1, w)" by (cases "jitter (traced_by K) (backoff_for f) s")
  have "quietly s1 (tell (traced_by K) (PlacingAgain cause w (f + 1)) s1)" by simp
  with quietly_jitter [OF j] have "quietly s (tell (traced_by K) (PlacingAgain cause w (f + 1)) s1)" by (rule quietly_trans)
  then show ?thesis unfolding wait_to_place_def j prod.case by (rule quietly_trans) simp
qed

lemma quietly_poll_through:
  "poll_through (traced_by K) h wait left waited s = (s', waited', x) \<Longrightarrow> quietly s s'"
proof (induction "traced_by K" h wait left waited s rule: poll_through.induct)
  case (1 h wait left waited s)
  obtain s1 y where a: "ask (traced_by K) (Poll h) s = (s1, y)" by (cases "ask (traced_by K) (Poll h) s")
  note q = quietly_ask [OF a]
  show ?case
  proof (cases "\<exists>e n. y = Inl e \<and> left = Suc n \<and> is_bare_unavailable e")
    case True
    then obtain e n where e: "y = Inl e" "left = Suc n" "is_bare_unavailable e" by blast
    have "poll_through (traced_by K) h wait n (wrap64 (waited + wait)) (sleep_for (traced_by K) wait s1) = (s', waited', x)"
      using 1(2) a e by (simp add: poll_through.simps [of _ h wait "Suc n"])
    from 1(1) [OF a [symmetric] e this] have "quietly (sleep_for (traced_by K) wait s1) s'" .
    with q show ?thesis by (meson quietly_trans quietly_sleep)
  next
    case False
    then have "s' = s1"
      using 1(2) unfolding poll_through_turn [OF a] by (cases y; cases left) (auto split: if_splits)
    with q show ?thesis by simp
  qed
qed

text \<open>The traced environment goes through the states of the one it traces.\<close>

lemma follows_ask: "ask (traced_by K) rq s = (s', x) \<Longrightarrow> ask K rq (fst s) = (fst s', x)"
  by (cases s) (auto simp: traced_by_def split: prod.splits)

lemma follows_attempt: "attempt (traced_by K) g lock warns s = (s', x) \<Longrightarrow> attempt K g lock warns (fst s) = (fst s', x)"
  by (cases s) (auto simp: traced_by_def split: prod.splits)

lemma follows_step [simp]:
  "fst (sleep_for (traced_by K) d s) = sleep_for K d (fst s)" "fst (tell (traced_by K) n s) = tell K n (fst s)"
  by (cases s; simp add: traced_by_def)+

lemma follows_jitter: "jitter (traced_by K) d s = (s', w) \<Longrightarrow> jitter K d (fst s) = (fst s', w)"
  by (cases s) (auto simp: jitter_def traced_by_def split: if_splits prod.splits)

lemma follows_wait [simp]: "fst (wait_to_place (traced_by K) cause f s) = wait_to_place K cause f (fst s)"
proof -
  obtain s1 w where j: "jitter (traced_by K) (backoff_for f) s = (s1, w)" by (cases "jitter (traced_by K) (backoff_for f) s")
  then show ?thesis by (simp add: wait_to_place_def follows_jitter [OF j])
qed

lemma follows_poll_through:
  "poll_through (traced_by K) h wait left waited s = (s', waited', x) \<Longrightarrow>
     poll_through K h wait left waited (fst s) = (fst s', waited', x)"
proof (induction "traced_by K" h wait left waited s rule: poll_through.induct)
  case (1 h wait left waited s)
  obtain s1 y where a: "ask (traced_by K) (Poll h) s = (s1, y)" by (cases "ask (traced_by K) (Poll h) s")
  note f = follows_ask [OF a]
  show ?case
  proof (cases "\<exists>e n. y = Inl e \<and> left = Suc n \<and> is_bare_unavailable e")
    case True
    then obtain e n where e: "y = Inl e" "left = Suc n" "is_bare_unavailable e" by blast
    have "poll_through (traced_by K) h wait n (wrap64 (waited + wait)) (sleep_for (traced_by K) wait s1) = (s', waited', x)"
      using 1(2) e by (simp add: poll_through_turn [OF a])
    from 1(1) [OF a [symmetric] e this] e show ?thesis by (simp add: poll_through_turn [OF f])
  next
    case False
    with 1(2) show ?thesis unfolding poll_through_turn [OF a] poll_through_turn [OF f]
      by (cases y; cases left) (auto split: if_splits)
  qed
qed

text \<open>What a placement answers, over its whole loop.\<close>

lemma poll_loop_lock:
  assumes "poll_loop K need_signed lock warns last_pos waited r s = Some y" and "snd y = Inr (g, lk, ws)"
  shows "lk = lock \<and> ws = warns \<and> (need_signed \<longrightarrow> lock \<noteq> [])"
proof -
  let ?P = "\<lambda>K ns lock warns lp w r s y. \<forall>g lk ws. snd y = Inr (g, lk, ws) \<longrightarrow> lk = lock \<and> ws = warns \<and> (ns \<longrightarrow> lock \<noteq> [])"
  have "?P K need_signed lock warns last_pos waited r s y"
  proof (rule poll_loop.raw_induct [of ?P, OF _ assms(1)])
    fix loop and K :: "'a cluster" and ns lk ws lp w s y and r :: response
    assume IH: "\<And>K ns lk ws lp w r s y. loop K ns lk ws lp w r s = Some y \<Longrightarrow> ?P K ns lk ws lp w r s y"
      and eq: "(case answer r of Granted g \<Rightarrow> Some (s, if ns \<and> lk = [] then Inl unsigned_grant else Inr (g, lk, ws))
        | Queued q \<Rightarrow> let s1 = if position q \<noteq> lp then tell K (WaitingAt (position q)) s else s; wait = poll_wait q
            in if queue_timeout \<le> w then Some (s1, Inl queue_error)
               else case poll_through K (reservation q) wait max_poll_blips (wrap64 (w + wait)) (sleep_for K wait s1) of
                 (s2, waited', Inl e) \<Rightarrow> Some (s2, Inl e) | (s2, waited', Inr r') \<Rightarrow> loop K ns lk ws (position q) waited' r' s2
        | NeitherStep \<Rightarrow> Some (s, Inl no_step)) = Some y"
    then show "?P K ns lk ws lp w r s y"
      by (auto simp: Let_def dest: IH split: step.splits if_splits prod.splits sum.splits)
  qed
  with assms(2) show ?thesis by blast
qed

lemma place_lock:
  assumes "place K need_signed s = Some (s', Inr (g, lk, ws))"
  shows "(need_signed \<longrightarrow> lk \<noteq> []) \<and> (\<exists>s1 r. ask K StartPlacement s = (s1, Inr r) \<and> lk = signed_lock r \<and> ws = warnings r)"
proof -
  obtain s1 y where a: "ask K StartPlacement s = (s1, y)" by (cases "ask K StartPlacement s")
  then obtain r where y: "y = Inr r" using assms by (cases y) (auto simp: place_def)
  with a assms have "poll_loop K need_signed (signed_lock r) (warnings r) (-1) 0 r s1 = Some (s', Inr (g, lk, ws))"
    by (simp add: place_def)
  from poll_loop_lock [OF this snd_conv] a y show ?thesis by auto
qed

lemma poll_loop_quiet:
  assumes "poll_loop (traced_by K) need_signed lock warns last_pos waited r s = Some y"
  shows "quietly s (fst y) \<and>
    poll_loop K need_signed lock warns last_pos waited r (fst s) = Some (fst (fst y), snd y)"
proof -
  let ?P = "\<lambda>K' ns lk ws lp w r s y. \<forall>K. K' = traced_by K \<longrightarrow>
      quietly s (fst y) \<and> poll_loop K ns lk ws lp w r (fst s) = Some (fst (fst y), snd y)"
  have "?P (traced_by K) need_signed lock warns last_pos waited r s y"
  proof (rule poll_loop.raw_induct [of ?P, OF _ assms])
    fix loop and K' :: "('a \<times> event list) cluster" and ns lk ws lp w s y and r :: response
    assume IH: "\<And>K' ns lk ws lp w r s y. loop K' ns lk ws lp w r s = Some y \<Longrightarrow> ?P K' ns lk ws lp w r s y"
      and eq: "(case answer r of Granted g \<Rightarrow> Some (s, if ns \<and> lk = [] then Inl unsigned_grant else Inr (g, lk, ws))
        | Queued q \<Rightarrow> let s1 = if position q \<noteq> lp then tell K' (WaitingAt (position q)) s else s; wait = poll_wait q
            in if queue_timeout \<le> w then Some (s1, Inl queue_error)
               else case poll_through K' (reservation q) wait max_poll_blips (wrap64 (w + wait)) (sleep_for K' wait s1) of
                 (s2, waited', Inl e) \<Rightarrow> Some (s2, Inl e) | (s2, waited', Inr r') \<Rightarrow> loop K' ns lk ws (position q) waited' r' s2
        | NeitherStep \<Rightarrow> Some (s, Inl no_step)) = Some y"
    show "?P K' ns lk ws lp w r s y"
    proof (intro allI impI)
      fix K assume K: "K' = traced_by K"
      note unfold = poll_loop.simps [of K ns lk ws lp w r "fst s"]
      show "quietly s (fst y) \<and> poll_loop K ns lk ws lp w r (fst s) = Some (fst (fst y), snd y)"
      proof (cases "answer r")
        case (Queued q)
        define s1 where "s1 = (if position q \<noteq> lp then tell K' (WaitingAt (position q)) s else s)"
        have q1: "quietly s (sleep_for K' (poll_wait q) s1)"
          unfolding s1_def K by (auto intro: quietly_trans)
        have f1: "fst s1 = (if position q \<noteq> lp then tell K (WaitingAt (position q)) (fst s) else fst s)"
          by (simp add: s1_def K)
        show ?thesis
        proof (cases "queue_timeout \<le> w")
          case True
          with eq Queued have "y = (s1, Inl queue_error)" by (simp add: s1_def Let_def)
          with True Queued f1 show ?thesis
            by (auto simp: unfold Let_def s1_def K)
        next
          case False
          obtain s2 w' x where p: "poll_through K' (reservation q) (poll_wait q) max_poll_blips (wrap64 (w + poll_wait q))
              (sleep_for K' (poll_wait q) s1) = (s2, w', x)" by (metis prod_cases3)
          have q2: "quietly s s2" using quietly_poll_through p q1 quietly_trans unfolding K by blast
          have f2: "poll_through K (reservation q) (poll_wait q) max_poll_blips (wrap64 (w + poll_wait q))
              (sleep_for K (poll_wait q) (fst s1)) = (fst s2, w', x)"
            using follows_poll_through [OF p [unfolded K]] by simp
          note eq2 = eq [unfolded Queued step.case Let_def, folded s1_def, unfolded p prod.case]
          show ?thesis
          proof (cases x)
            case (Inl e)
            with eq2 False have "y = (s2, Inl e)" by simp
            with False Queued f2 q2 Inl show ?thesis by (simp add: unfold Let_def f1)
          next
            case (Inr r')
            with eq2 False have "loop K' ns lk ws (position q) w' r' s2 = Some y" by simp
            from IH [OF this] K have "quietly s2 (fst y)"
              and "poll_loop K ns lk ws (position q) w' r' (fst s2) = Some (fst (fst y), snd y)" by blast+
            with quietly_trans [OF q2] False Queued f2 Inr show ?thesis by (simp add: unfold Let_def f1)
          qed
        qed
      qed (use eq in \<open>auto simp: unfold split: if_splits\<close>)
    qed
  qed
  then show ?thesis by blast
qed

lemma place_quiet:
  assumes "place (traced_by K) need_signed s = Some (s', x)"
  shows "quietly s s' \<and> place K need_signed (fst s) = Some (fst s', x)"
proof -
  obtain s1 y where a: "ask (traced_by K) StartPlacement s = (s1, y)" by (cases "ask (traced_by K) StartPlacement s")
  note q = quietly_ask [OF a] and f = follows_ask [OF a]
  show ?thesis
  proof (cases y)
    case (Inl e)
    with assms a q f show ?thesis by (auto simp: place_def)
  next
    case (Inr r)
    with assms a have "poll_loop (traced_by K) need_signed (signed_lock r) (warnings r) (-1) 0 r s1 = Some (s', x)"
      by (simp add: place_def)
    from poll_loop_quiet [OF this] q f Inr show ?thesis
      by (auto simp: place_def intro: quietly_trans)
  qed
qed

text \<open>A failure another placement can cure, and one that is a lost connection.\<close>

definition curable :: "attempt_failure option \<Rightarrow> bool" where
  "curable x = (case x of Some (Failed e) \<Rightarrow> fst (classify_failure e) \<noteq> Fatal | _ \<Rightarrow> False)"

definition lost_connection :: "attempt_failure option \<Rightarrow> bool" where
  "lost_connection x = (case x of Some (Failed e) \<Rightarrow> fst (classify_failure e) = Lost | _ \<Rightarrow> False)"

fun is_lost :: "event \<Rightarrow> bool" where
  "is_lost (Ran _ _ x) = lost_connection x"
| "is_lost _ = False"

fun stops_rightly :: "bool \<Rightarrow> event list \<Rightarrow> bool" where
  "stops_rightly ns [] = True"
| "stops_rightly ns (Ran g l x # es) \<longleftrightarrow> (ns \<longrightarrow> l \<noteq> []) \<and> (curable x \<or> es = []) \<and> stops_rightly ns es"
| "stops_rightly ns (_ # es) = stops_rightly ns es"

lemma stops_after_quiet: "runs ds = [] \<Longrightarrow> stops_rightly ns (ds @ es) = stops_rightly ns es"
proof (induction ds)
  case (Cons d ds)
  then show ?case by (cases d) auto
qed simp

lemma stops_at: "stops_rightly ns (xs @ Ran g l x # ys) \<Longrightarrow> (ns \<longrightarrow> l \<noteq> []) \<and> (curable x \<or> ys = [])"
proof (induction xs)
  case (Cons e xs)
  then show ?case by (cases e) auto
qed simp

lemma no_lost_quiet: "runs ds = [] \<Longrightarrow> filter is_lost ds = []"
proof (induction ds)
  case (Cons d ds)
  then show ?case by (cases d) auto
qed simp

text \<open>One turn: no attempt, or one; after the last there is nothing, after the others the counters moved.\<close>

lemma quietly_after_refusal: "after_refusal (traced_by K) f r e s = (s', x) \<Longrightarrow> quietly s s'"
  by (auto simp: after_refusal_def place_again_def split: prod.splits fail_class.splits if_splits)

lemma after_refusal_fails: "after_refusal K f r e s \<noteq> (s', Inl Completed)"
  by (auto simp: after_refusal_def place_again_def split: prod.splits fail_class.splits if_splits)

lemma follows_after_refusal:
  "after_refusal (traced_by K) f r e s = (s', x) \<Longrightarrow> after_refusal K f r e (fst s) = (fst s', x)"
  by (auto simp: after_refusal_def place_again_def split: prod.splits fail_class.splits if_splits)

lemma quietly_after_attempt: "after_attempt (traced_by K) n f r o1 s = (s', x) \<Longrightarrow> quietly s s'"
  by (auto simp: after_attempt_def place_again_def
      split: prod.splits fail_class.splits if_splits option.splits attempt_failure.splits)

lemma after_attempt_stop:
  "after_attempt (traced_by K) n f r o1 s = (s', Inl res) \<Longrightarrow> s' = s \<and> (res = Completed \<longrightarrow> o1 = None)"
  by (auto simp: after_attempt_def place_again_def
      split: prod.splits fail_class.splits if_splits option.splits attempt_failure.splits)

lemma follows_after_attempt:
  "after_attempt (traced_by K) n f r o1 s = (s', x) \<Longrightarrow> after_attempt K n f r o1 (fst s) = (fst s', x)"
  by (auto simp: after_attempt_def place_again_def
      split: prod.splits fail_class.splits if_splits option.splits attempt_failure.splits)

lemma traced_turn:
  assumes t: "one_turn (traced_by K) ns retries f r s = Some (s', x)"
  obtains (refused) ds where "snd s' = snd s @ ds" and "runs ds = []"
      and "\<And>f' r'. x = Inr (f', r') \<Longrightarrow> f' = Suc f \<and> f' < place_attempts \<and> r' = r" and "x \<noteq> Inl Completed"
      and "one_turn K ns retries f r (fst s) = Some (fst s', x)"
    | (ran) ds g l o1 ds' where "snd s' = snd s @ ds @ Ran g l o1 # ds'" and "runs ds = []" and "runs ds' = []"
      and "ns \<Longrightarrow> l \<noteq> []" and "\<And>res. x = Inl res \<Longrightarrow> ds' = [] \<and> (res = Completed \<longrightarrow> o1 = None)"
      and "\<And>f' r'. x = Inr (f', r') \<Longrightarrow> curable o1 \<and> (\<not> lost_connection o1 \<and> f' = Suc f \<and> f' < place_attempts \<and> r' = r \<or>
          lost_connection o1 \<and> f' = f \<and> r' = Suc r \<and> int r < retries)"
      and "one_turn K ns retries f r (fst s) = Some (fst s', x)"
proof -
  obtain s1 p where p: "place (traced_by K) ns s = Some (s1, p)"
    using t by (cases "place (traced_by K) ns s") (auto simp: one_turn_def)
  have u: "lk \<noteq> []" if "p = Inr (g, lk, ws)" and ns for g lk ws
    using place_lock [of "traced_by K" ns s s1 g lk ws] p that by simp
  from place_quiet [OF p] have q: "quietly s s1" and fp: "place K ns (fst s) = Some (fst s1, p)" by blast+
  show thesis
  proof (cases p)
    case (Inl e)
    with t p have a: "after_refusal (traced_by K) f r e s1 = (s', x)" by (simp add: one_turn_def)
    from quietly_trans [OF q quietly_after_refusal [OF a]] obtain ds where "snd s' = snd s @ ds" "runs ds = []"
      by (auto simp: quietly_def)
    then show thesis
      by (rule refused) (use a fp Inl follows_after_refusal [OF a] in
          \<open>auto simp: one_turn_def after_refusal_fails dest: after_refusal_next\<close>)
  next
    case (Inr y)
    obtain g lk ws where y: "y = (g, lk, ws)" by (cases y)
    obtain s2 o1 where a: "attempt (traced_by K) g lk ws s1 = (s2, o1)" by (cases "attempt (traced_by K) g lk ws s1")
    with t p Inr y have b: "after_attempt (traced_by K) retries f r o1 s2 = (s', x)" by (simp add: one_turn_def)
    from q obtain ds where ds: "snd s1 = snd s @ ds" "runs ds = []" by (auto simp: quietly_def)
    have s2: "snd s2 = snd s1 @ [Ran g lk o1]" using a by (cases s1) (auto simp: traced_by_def split: prod.splits)
    from quietly_after_attempt [OF b] obtain ds' where ds': "snd s' = snd s2 @ ds'" "runs ds' = []" by (auto simp: quietly_def)
    show thesis
    proof (rule ran [of ds g lk o1 ds'])
      show "snd s' = snd s @ ds @ Ran g lk o1 # ds'" using ds ds' s2 by simp
      show "ds' = [] \<and> (res = Completed \<longrightarrow> o1 = None)" if "x = Inl res" for res
        using after_attempt_stop b ds'(1) that by fastforce
      show "curable o1 \<and> (\<not> lost_connection o1 \<and> f' = Suc f \<and> f' < place_attempts \<and> r' = r \<or>
          lost_connection o1 \<and> f' = f \<and> r' = Suc r \<and> int r < retries)" if "x = Inr (f', r')" for f' r'
        using after_attempt_next b that by (fastforce simp: curable_def lost_connection_def)
      show "one_turn K ns retries f r (fst s) = Some (fst s', x)"
        using fp Inr y follows_attempt [OF a] follows_after_attempt [OF b] by (simp add: one_turn_def)
    qed (use ds ds' u Inr y in auto)
  qed
qed

abbreviation ends_well :: "run_result \<Rightarrow> event list \<Rightarrow> bool" where
  "ends_well result es \<equiv> result = Completed \<longrightarrow> (\<exists>xs g l. es = xs @ [Ran g l None])"

lemma ends_well_later: "ends_well result es \<Longrightarrow> ends_well result (ds @ es)"
  by auto

lemma traced_run:
  assumes "place_and_run (traced_by K) ns retries f r s = Some (s', result)" and "f < place_attempts"
  shows "\<exists>ds. snd s' = snd s @ ds \<and> stops_rightly ns ds \<and> ends_well result ds \<and> length (runs ds) \<le> turns_left retries f r \<and>
     length (filter is_lost ds) \<le> Suc (nat (retries - int r)) \<and>
     place_and_run K ns retries f r (fst s) = Some (fst s', result)"
  using assms
proof (induction "turns_left retries f r" arbitrary: f r s rule: less_induct)
  case less
  obtain s1 x where t: "one_turn (traced_by K) ns retries f r s = Some (s1, x)"
    using less.prems(1) by (cases "one_turn (traced_by K) ns retries f r s") (auto simp: place_and_run.simps [of _ ns retries f r s])
  note unfold = place_and_run.simps [of K ns retries f r "fst s"]
  have stop: "s' = s1" "result = res" if "x = Inl res" for res
    using less.prems(1) t that by (simp_all add: place_and_run.simps [of _ ns retries f r s])
  have pos: "0 < turns_left retries f r" using less.prems(2) by (simp add: turns_left_def)
  have again: "\<exists>es. snd s' = snd s1 @ es \<and> stops_rightly ns es \<and> ends_well result es \<and> length (runs es) \<le> turns_left retries f' r' \<and>
       length (filter is_lost es) \<le> Suc (nat (retries - int r')) \<and>
       place_and_run K ns retries f' r' (fst s1) = Some (fst s', result)"
    if "x = Inr (f', r')" and "f' < place_attempts" for f' r'
  proof (rule less.hyps [OF _ _ that(2)])
    show "turns_left retries f' r' < turns_left retries f r" using t that(1) by (auto intro: one_turn_next)
    show "place_and_run (traced_by K) ns retries f' r' s1 = Some (s', result)"
      using less.prems(1) t that(1) by (simp add: place_and_run.simps [of _ ns retries f r s])
  qed
  from t show ?case
  proof (cases rule: traced_turn)
    case (refused ds)
    show ?thesis
    proof (cases x)
      case (Inl res)
      with stop refused pos show ?thesis
        by (intro exI [of _ ds]) (use stops_after_quiet [of ds ns "[]"] no_lost_quiet [of ds] in \<open>auto simp: unfold\<close>)
    next
      case (Inr y)
      obtain f' r' where y: "y = (f', r')" by (cases y)
      with refused(3) Inr have n: "f' = Suc f" "f' < place_attempts" "r' = r" by auto
      from again [OF _ n(2)] Inr y obtain es where es: "snd s' = snd s1 @ es" "stops_rightly ns es" "ends_well result es"
        "length (runs es) \<le> turns_left retries f' r'" "length (filter is_lost es) \<le> Suc (nat (retries - int r'))"
        "place_and_run K ns retries f' r' (fst s1) = Some (fst s', result)" by blast
      with refused n Inr y less.prems(2) show ?thesis
        by (intro exI [of _ "ds @ es"])
          (auto simp: stops_after_quiet no_lost_quiet unfold turns_left_def)
    qed
  next
    case (ran ds g l o1 ds')
    show ?thesis
    proof (cases x)
      case (Inl res)
      with stop ran pos show ?thesis
        by (intro exI [of _ "ds @ [Ran g l o1]"]) (auto simp: stops_after_quiet no_lost_quiet unfold)
    next
      case (Inr y)
      obtain f' r' where y: "y = (f', r')" by (cases y)
      from ran(6) [of f' r'] Inr y have c: "curable o1" and n: "\<not> lost_connection o1 \<and> f' = Suc f \<and> f' < place_attempts \<and> r' = r \<or>
          lost_connection o1 \<and> f' = f \<and> r' = Suc r \<and> int r < retries" by auto
      then have "f' < place_attempts" using less.prems(2) by auto
      from again [OF _ this] Inr y obtain es where es: "snd s' = snd s1 @ es" "stops_rightly ns es" "ends_well result es"
        "length (runs es) \<le> turns_left retries f' r'" "length (filter is_lost es) \<le> Suc (nat (retries - int r'))"
        "place_and_run K ns retries f' r' (fst s1) = Some (fst s', result)" by blast
      have "stops_rightly ns (ds @ Ran g l o1 # ds' @ es)"
        using ran c es(2) by (simp add: stops_after_quiet)
      moreover have "length (runs (ds @ Ran g l o1 # ds' @ es)) \<le> turns_left retries f r"
        using ran(2,3) es(4) n less.prems(2) by (auto simp: turns_left_def)
      moreover have "length (filter is_lost (ds @ Ran g l o1 # ds' @ es)) \<le> Suc (nat (retries - int r))"
        using ran(2,3) es(5) n by (auto simp: no_lost_quiet)
      ultimately show ?thesis
        using ran(1,7) es(1,6) ends_well_later [OF es(3), of "ds @ Ran g l o1 # ds'"] Inr y
        by (intro exI [of _ "ds @ Ran g l o1 # ds' @ es"]) (simp add: unfold)
    qed
  qed
qed

text \<open>A command that completed did so in an attempt, on the lock a placement was answered with.\<close>

lemma completed_in_an_attempt:
  assumes "place_and_run K ns retries f r s = Some (s', Completed)"
  shows "\<exists>g lock warns s1 s0 s2 a. attempt K g lock warns s1 = (s', None) \<and> (ns \<longrightarrow> lock \<noteq> []) \<and>
     ask K StartPlacement s0 = (s2, Inr a) \<and> signed_lock a = lock \<and> warnings a = warns"
  using assms
proof (induction "turns_left retries f r" arbitrary: f r s rule: less_induct)
  case less
  obtain s1 x where t: "one_turn K ns retries f r s = Some (s1, x)"
    using less.prems by (cases "one_turn K ns retries f r s") (auto simp: place_and_run.simps [of _ ns retries f r s])
  show ?case
  proof (cases x)
    case (Inr y)
    obtain f' r' where y: "y = (f', r')" by (cases y)
    have "turns_left retries f' r' < turns_left retries f r" using t Inr y by (auto intro: one_turn_next)
    moreover have "place_and_run K ns retries f' r' s1 = Some (s', Completed)"
      using less.prems t Inr y by (simp add: place_and_run.simps [of _ ns retries f r s])
    ultimately show ?thesis by (rule less.hyps)
  next
    case (Inl res)
    then have res: "res = Completed" "s1 = s'"
      using less.prems t by (simp_all add: place_and_run.simps [of _ ns retries f r s])
    obtain s2 g lock warns where p: "place K ns s = Some (s2, Inr (g, lock, warns))"
      using t Inl res by (auto simp: one_turn_def after_refusal_fails split: option.splits prod.splits sum.splits)
    obtain s3 o1 where a: "attempt K g lock warns s2 = (s3, o1)" by (cases "attempt K g lock warns s2")
    have "s3 = s' \<and> o1 = None"
      using t p a Inl res
      by (auto simp: one_turn_def after_attempt_def place_again_def
          split: option.splits attempt_failure.splits prod.splits fail_class.splits if_splits)
    with a place_lock [OF p] show ?thesis by metis
  qed
qed

lemma traced_command:
  assumes "place_and_run (traced_by K) need_signed retries 0 0 (s, []) = Some ((s', es), result)"
  shows "stops_rightly need_signed es" "ends_well result es" "length (runs es) \<le> place_attempts + nat retries"
    "length (filter is_lost es) \<le> Suc (nat retries)" "place_and_run K need_signed retries 0 0 s = Some (s', result)"
  using traced_run [OF assms] by (auto simp: turns_left_def place_attempts_def)

text \<open>A command asks a worker to run at most as often as placements may fail plus the re-runs it was
  allowed, and loses a worker at most once more than it may run again, whatever the cluster does; the steps written
  down are those of the command itself.\<close>

theorem a_run_is_attempted_a_bounded_number_of_times:
  assumes "place_and_run (traced_by K) need_signed retries 0 0 (s, []) = Some ((s', es), result)"
  shows "place_and_run K need_signed retries 0 0 s = Some (s', result) \<and>
    length (runs es) \<le> place_attempts + nat retries \<and> length (filter is_lost es) \<le> Suc (nat retries)"
  using traced_command [OF assms] by blast

text \<open>C20: after an attempt nothing more is asked, run or waited for, unless it failed in a way that another
  placement can cure; a success is reported only when the last thing that happened is an attempt that succeeded; and
  no attempt of a project run is made without the lock the console signed.\<close>

theorem only_a_curable_failure_is_followed_by_anything:
  assumes "place_and_run (traced_by K) need_signed retries 0 0 (s, []) = Some ((s', es), result)"
    and "es = xs @ Ran g lock x # ys"
  shows "(ys = [] \<or> (\<exists>e. x = Some (Failed e) \<and> fst (classify_failure e) \<noteq> Fatal)) \<and>
    (result = Completed \<longrightarrow> (\<exists>zs g' lock'. es = zs @ [Ran g' lock' None])) \<and> (need_signed \<longrightarrow> lock \<noteq> [])"
  using stops_at [of need_signed xs g lock x ys] traced_command(1,2) [OF assms(1)] assms(2)
  by (auto simp: curable_def split: option.splits attempt_failure.splits)

section \<open>A concrete cluster\<close>

text \<open>A console that queues once, a worker that loses the connection on the first run, and a coin that is
  always low.\<close>

definition lost_error :: run_error where
  "lost_error = \<lparr>deadline_hit = False, pin_refused = False, status = Some (Unavailable, []), message = ''transport is closing''\<rparr>"

definition relay :: granted where
  "relay = \<lparr>address = ''relay:443'', fingerprint = ''f'', ticket = ''t''\<rparr>"

definition sample_cluster :: "nat cluster" where
  "sample_cluster =
     \<lparr>ask = (\<lambda>rq s. (s, Inr \<lparr>signed_lock = ''signed'', warnings = [],
        answer = (case rq of StartPlacement \<Rightarrow> Queued \<lparr>position = 1, retry_after_ms = 500, reservation = ''r''\<rparr>
                  | Poll _ \<Rightarrow> Granted relay)\<rparr>)),
      attempt = (\<lambda>g lock warns s. (Suc s, if s = 0 then Some (Failed lost_error) else None)),
      rand_below = (\<lambda>n s. (s, 0)), sleep_for = (\<lambda>d s. s), tell = (\<lambda>n s. s)\<rparr>"

definition until_granted :: "event list" where
  "until_granted =
     [Asked StartPlacement (Inr \<lparr>signed_lock = ''signed'', warnings = [],
        answer = Queued \<lparr>position = 1, retry_after_ms = 500, reservation = ''r''\<rparr>\<rparr>),
      Told (WaitingAt 1), Slept 500000000,
      Asked (Poll ''r'') (Inr \<lparr>signed_lock = ''signed'', warnings = [], answer = Granted relay\<rparr>)]"

lemma sample_run:
  "place_and_run (traced_by sample_cluster) True 1 0 0 (0, []) =
     Some ((2, until_granted @ Ran relay ''signed'' (Some (Failed lost_error)) #
       Told (RunningAgain ''connection lost'' 1 1) # until_granted @ [Ran relay ''signed'' None]), Completed)"
proof -
  let ?s = "(1, until_granted @ [Ran relay ''signed'' (Some (Failed lost_error)), Told (RunningAgain ''connection lost'' 1 1)])"
  have "one_turn (traced_by sample_cluster) True 1 0 0 (0, []) = Some (?s, Inr (0, 1))" by code_simp
  moreover have "one_turn (traced_by sample_cluster) True 1 0 1 ?s =
      Some ((2, until_granted @ Ran relay ''signed'' (Some (Failed lost_error)) #
        Told (RunningAgain ''connection lost'' 1 1) # until_granted @ [Ran relay ''signed'' None]), Inl Completed)" by code_simp
  ultimately show ?thesis
    by (simp only: place_and_run.simps [of _ _ _ 0 0] place_and_run.simps [of _ _ _ 0 1] option.case prod.case sum.case)
qed

lemma sample_bounded: "bounded_retries sample_cluster"
  by (auto simp: bounded_retries_def sample_cluster_def split: request.splits)

theorem placing_and_running_always_ends_witness:
  "\<exists>s' result. place_and_run sample_cluster True 1 0 0 0 = Some (s', result)"
  by (rule placing_and_running_always_ends [OF sample_bounded])

theorem a_run_is_attempted_a_bounded_number_of_times_witness:
  "place_and_run sample_cluster True 1 0 0 0 = Some (2, Completed) \<and> length (runs [Ran relay ''signed'' None]) \<le> place_attempts + 1"
  using a_run_is_attempted_a_bounded_number_of_times [OF sample_run] by simp

theorem only_a_curable_failure_is_followed_by_anything_witness:
  "\<exists>e. Some (Failed lost_error) = Some (Failed e) \<and> fst (classify_failure e) \<noteq> Fatal"
  using only_a_curable_failure_is_followed_by_anything [OF sample_run refl] by blast

end
