(* ===== verification/ClusterRun.thy ===== *)
theory ClusterRun
  imports Placement Codegen
begin

text \<open>
  What a placed run brings back (\<^verbatim>\<open>src/internal/codegen/cluster.go\<close>): the worker's stream is
  buffered, the files a worker cannot sign are signed by the console, and the lock that lands is the one the console
  answered the placement with. The upload of the tree in messages of bounded size
  (\<^verbatim>\<open>src/internal/core/protochunks.go\<close>) is here too.
\<close>

section \<open>The upload\<close>

definition chunk_budget :: nat where "chunk_budget = 2 ^ 20"

text \<open>A file is its name and contents. The batch so far and what it weighs are carried along.\<close>

type_synonym proto_file = "string \<times> string"

fun chunks_from :: "proto_file list \<Rightarrow> nat \<Rightarrow> proto_file list \<Rightarrow> proto_file list list" where
  "chunks_from batch weight [] = (if batch = [] then [] else [batch])"
| "chunks_from batch weight (f # fs) =
     (if batch \<noteq> [] \<and> chunk_budget < weight + length (snd f)
      then batch # chunks_from [f] (length (snd f)) fs
      else chunks_from (batch @ [f]) (weight + length (snd f)) fs)"

definition proto_chunks :: "proto_file list \<Rightarrow> proto_file list list" where
  "proto_chunks files = chunks_from [] 0 files"

text \<open>A message that cannot be sent ends the upload.\<close>

fun send_all :: "('m \<Rightarrow> 's \<Rightarrow> 's \<times> run_error option) \<Rightarrow> 'm list \<Rightarrow> 's \<Rightarrow> 's \<times> run_error option" where
  "send_all send [] s = (s, None)"
| "send_all send (m # ms) s =
     (case send m s of
        (s1, Some e) \<Rightarrow> (s1, Some e)
      | (s1, None) \<Rightarrow> send_all send ms s1)"

definition send_proto_chunks ::
    "(proto_file list \<Rightarrow> 's \<Rightarrow> 's \<times> run_error option) \<Rightarrow> proto_file list \<Rightarrow> 's \<Rightarrow> 's \<times> run_error option" where
  "send_proto_chunks send files s = send_all send (proto_chunks files) s"

datatype upload = ProtoFiles "proto_file list" | GenFiles "proto_file list"

text \<open>The proto tree, then the generated Go tree.\<close>

definition project_upload :: "proto_file list \<Rightarrow> proto_file list \<Rightarrow> upload list" where
  "project_upload files gen = map ProtoFiles (proto_chunks files) @ map GenFiles (proto_chunks gen)"

section \<open>The stream of a worker\<close>

datatype sign_kind = AclLock | OtherSignature string

record sign_request =
  sign_kind :: sign_kind
  sign_path :: string
  sign_domain :: string
  unsigned_body :: string

datatype generated_op =
  WriteOp write_op
| DeleteOp string
| WarningOp string
| SdkRequirementOp "string \<times> string"
| SignOp sign_request
| UnknownOp

record cluster_result =
  res_writes :: "write_op list"
  res_deletes :: "string list"
  res_warnings :: "string list"
  res_sdk_reqs :: "(string \<times> string) list"
  res_signs :: "sign_request list"
  res_lock :: string
  res_placement_warnings :: "string list"

definition empty_result :: cluster_result where
  "empty_result = \<lparr>res_writes = [], res_deletes = [], res_warnings = [], res_sdk_reqs = [], res_signs = [],
     res_lock = [], res_placement_warnings = []\<rparr>"

definition deploy_gitignore :: string where
  "deploy_gitignore = ''deploy/.gitignore''"

definition op_rel :: "string \<Rightarrow> string" where
  "op_rel p = clean_path (trim_prefix ''./'' p)"

text \<open>The lock a worker sends is dropped; so is the ignore file of \<^verbatim>\<open>deploy/\<close> in a checkout
  that tracks its generated tree.\<close>

definition collect_op :: "bool \<Rightarrow> generated_op \<Rightarrow> cluster_result \<Rightarrow> cluster_result" where
  "collect_op track x res =
     (case x of
        WriteOp w \<Rightarrow>
          if op_rel (op_path w) = lock_path then res
          else if op_rel (op_path w) = deploy_gitignore \<and> track then res
          else res\<lparr>res_writes := res_writes res @ [w]\<rparr>
      | DeleteOp p \<Rightarrow> res\<lparr>res_deletes := res_deletes res @ [p]\<rparr>
      | WarningOp w \<Rightarrow> res\<lparr>res_warnings := res_warnings res @ [w]\<rparr>
      | SdkRequirementOp r \<Rightarrow> res\<lparr>res_sdk_reqs := res_sdk_reqs res @ [r]\<rparr>
      | SignOp q \<Rightarrow> res\<lparr>res_signs := res_signs res @ [q]\<rparr>
      | UnknownOp \<Rightarrow> res)"

definition collect_ops :: "bool \<Rightarrow> generated_op list \<Rightarrow> cluster_result" where
  "collect_ops track ops = fold (collect_op track) ops empty_result"

section \<open>What the console signs\<close>

record 's console =
  sign_acl :: "string \<Rightarrow> string \<Rightarrow> string \<Rightarrow> string \<Rightarrow> 's \<Rightarrow> 's \<times> (run_error + string)"
  work :: "granted \<Rightarrow> string \<Rightarrow> 's \<Rightarrow> 's \<times> (run_error + generated_op list \<times> run_error option)"

definition outside_project :: "string \<Rightarrow> bool" where
  "outside_project rel \<longleftrightarrow> rel = ''..'' \<or> prefix ''../'' rel \<or> is_abs rel"

text \<open>The earlier file at the path is sent along to be extended; none is an empty one.\<close>

definition sign_one ::
    "'s console \<Rightarrow> disk \<Rightarrow> tree \<Rightarrow> string \<Rightarrow> sign_request \<Rightarrow> 's \<Rightarrow> 's \<times> (run_error + write_op)" where
  "sign_one W d t lock q s =
     (if sign_kind q \<noteq> AclLock then (s, Inl (local_error ''the worker asked for a signature this client cannot have made''))
      else let rel = op_rel (sign_path q) in
        if outside_project rel then (s, Inl (local_error ''the worker asked to sign a file outside the project''))
        else case read_file d t (path_elems rel) of
          ReadError \<Rightarrow> (s, Inl (local_error ''the file to have extended cannot be read''))
        | prior \<Rightarrow>
            (case sign_acl W lock (sign_domain q) (case prior of Bytes b \<Rightarrow> b | _ \<Rightarrow> []) (unsigned_body q) s of
               (s1, Inl e) \<Rightarrow> (s1, Inl e)
             | (s1, Inr b) \<Rightarrow> (s1, Inr \<lparr>op_path = rel, op_contents = b, op_if_missing = False\<rparr>)))"

fun sign_each ::
    "'s console \<Rightarrow> disk \<Rightarrow> tree \<Rightarrow> string \<Rightarrow> sign_request list \<Rightarrow> write_op list \<Rightarrow> 's
       \<Rightarrow> 's \<times> run_error option \<times> write_op list" where
  "sign_each W d t lock [] acc s = (s, None, acc)"
| "sign_each W d t lock (q # qs) acc s =
     (case sign_one W d t lock q s of
        (s1, Inl e) \<Rightarrow> (s1, Some e, acc)
      | (s1, Inr w) \<Rightarrow> sign_each W d t lock qs (acc @ [w]) s1)"

definition sign_all ::
    "'s console \<Rightarrow> disk \<Rightarrow> tree \<Rightarrow> string \<Rightarrow> cluster_result \<Rightarrow> 's \<Rightarrow> 's \<times> run_error option \<times> cluster_result" where
  "sign_all W d t lock res s =
     (case sign_each W d t lock (res_signs res) (res_writes res) s of
        (s1, Some e, ws) \<Rightarrow> (s1, Some e, res\<lparr>res_writes := ws\<rparr>)
      | (s1, None, ws) \<Rightarrow> (s1, None, res\<lparr>res_writes := ws, res_signs := []\<rparr>))"

section \<open>A project run\<close>

text \<open>The result of the last attempt is kept beside the state, also when the attempt failed: its warnings are
  printed before the error.\<close>

definition project_attempt ::
    "'s console \<Rightarrow> disk \<Rightarrow> tree \<Rightarrow> string \<Rightarrow> bool \<Rightarrow> granted \<Rightarrow> string \<Rightarrow> string list
       \<Rightarrow> 's \<times> cluster_result option \<Rightarrow> ('s \<times> cluster_result option) \<times> attempt_failure option" where
  "project_attempt W d t lock track g signed_lk warns st =
     (case work W g signed_lk (fst st) of
        (s1, Inl e) \<Rightarrow> ((s1, None), Some (Failed e))
      | (s1, Inr (ops, Some e)) \<Rightarrow> ((s1, Some (collect_ops track ops)), Some (Failed e))
      | (s1, Inr (ops, None)) \<Rightarrow>
          (case sign_all W d t lock (collect_ops track ops) s1 of
             (s2, Some e, res) \<Rightarrow> ((s2, Some res), Some (Final e))
           | (s2, None, res) \<Rightarrow>
               ((s2, Some (res\<lparr>res_lock := signed_lk, res_placement_warnings := warns\<rparr>)), None)))"

definition project_cluster ::
    "'s cluster \<Rightarrow> 's console \<Rightarrow> disk \<Rightarrow> tree \<Rightarrow> string \<Rightarrow> bool \<Rightarrow> ('s \<times> cluster_result option) cluster" where
  "project_cluster K W d t lock track =
     \<lparr>ask = (\<lambda>rq st. let (s', x) = ask K rq (fst st) in ((s', snd st), x)),
      attempt = project_attempt W d t lock track,
      rand_below = (\<lambda>n st. let (s', r) = rand_below K n (fst st) in ((s', snd st), r)),
      sleep_for = (\<lambda>x st. (sleep_for K x (fst st), snd st)),
      tell = (\<lambda>n st. (tell K n (fst st), snd st))\<rparr>"

definition run_project ::
    "'s cluster \<Rightarrow> 's console \<Rightarrow> disk \<Rightarrow> tree \<Rightarrow> string \<Rightarrow> bool \<Rightarrow> int \<Rightarrow> 's
       \<Rightarrow> (('s \<times> cluster_result option) \<times> run_result) option" where
  "run_project K W d t lock track retries s =
     place_and_run (project_cluster K W d t lock track) True retries 0 0 (s, None)"

text \<open>What lands: the console's lock last.\<close>

definition run_writes :: "cluster_result \<Rightarrow> write_op list" where
  "run_writes res = res_writes res @ [\<lparr>op_path = lock_path, op_contents = res_lock res, op_if_missing = False\<rparr>]"

section \<open>The other runs on a worker\<close>

text \<open>\<^verbatim>\<open>RunOnWorker\<close>: an error that is no gRPC status and no deadline is this machine's, and a worker
  that does not know the call is older than the client; neither is tried again. The warnings of a placement are
  printed once per command.\<close>

definition is_status :: "run_error \<Rightarrow> bool" where
  "is_status e \<longleftrightarrow> status e \<noteq> None"

definition is_unimplemented :: "run_error \<Rightarrow> bool" where
  "is_unimplemented e \<longleftrightarrow> (case status e of Some (Unimplemented, _) \<Rightarrow> True | _ \<Rightarrow> False)"

datatype dialed = DialFailed run_error | RanTo "run_error option"

definition worker_attempt ::
    "(granted \<Rightarrow> string \<Rightarrow> 's \<Rightarrow> 's \<times> dialed) \<Rightarrow> (string \<Rightarrow> 's \<Rightarrow> 's) \<Rightarrow> granted \<Rightarrow> string \<Rightarrow> string list
       \<Rightarrow> 's \<times> bool \<Rightarrow> ('s \<times> bool) \<times> attempt_failure option" where
  "worker_attempt run warn g signed_lk warns st =
     (case run g signed_lk (if snd st then fst st else fold warn warns (fst st)) of
        (s1, DialFailed e) \<Rightarrow> ((s1, True), Some (Failed e))
      | (s1, RanTo None) \<Rightarrow> ((s1, True), None)
      | (s1, RanTo (Some e)) \<Rightarrow>
          ((s1, True), Some (if \<not> is_status e \<and> \<not> deadline_hit e \<or> is_unimplemented e then Final e else Failed e)))"

section \<open>The upload is the tree, in pieces\<close>

definition batch_size :: "proto_file list \<Rightarrow> nat" where
  "batch_size c = sum_list (map (\<lambda>f. length (snd f)) c)"

lemma batch_size_snoc [simp]: "batch_size [] = 0" "batch_size (c @ [f]) = batch_size c + length (snd f)" "batch_size [f] = length (snd f)"
  by (simp_all add: batch_size_def)

definition fits :: "proto_file list \<Rightarrow> bool" where
  "fits c \<longleftrightarrow> c \<noteq> [] \<and> (batch_size c \<le> chunk_budget \<or> length c = 1)"

lemma chunks_from_concat: "concat (chunks_from batch weight files) = batch @ files"
  by (induction batch weight files rule: chunks_from.induct) auto

lemma chunks_from_fit:
  assumes "weight = batch_size batch" and "batch \<noteq> [] \<Longrightarrow> fits batch"
  shows "c \<in> set (chunks_from batch weight files) \<Longrightarrow> fits c"
  using assms
proof (induction batch weight files rule: chunks_from.induct)
  case (2 batch weight f fs)
  show ?case
  proof (cases "batch \<noteq> [] \<and> chunk_budget < weight + length (snd f)")
    case True
    then have "c = batch \<or> c \<in> set (chunks_from [f] (length (snd f)) fs)" using 2(3) by simp
    then show ?thesis
    proof
      assume "c = batch"
      with 2(5) True show ?thesis by simp
    next
      assume "c \<in> set (chunks_from [f] (length (snd f)) fs)"
      then show ?thesis by (rule 2(1) [OF True]) (simp_all add: fits_def)
    qed
  next
    case False
    have "c \<in> set (chunks_from (batch @ [f]) (weight + length (snd f)) fs)" using 2(3) False by (simp split: if_splits)
    then show ?thesis
    proof (rule 2(2) [OF False])
      show "weight + length (snd f) = batch_size (batch @ [f])" using 2(4) by simp
      show "fits (batch @ [f])" using 2(4) False by (cases "batch = []") (simp_all add: fits_def)
    qed
  qed
qed (auto split: if_splits)

text \<open>The messages of an upload carry the tree whole and in order, none is empty, and each stays within the
  budget or carries a single file; the proto files all come before the generated ones.\<close>

theorem upload_carries_the_tree_in_bounded_messages:
  shows "concat (map (\<lambda>u. case u of ProtoFiles c \<Rightarrow> c | GenFiles _ \<Rightarrow> []) (project_upload files gen)) = files \<and>
    concat (map (\<lambda>u. case u of ProtoFiles _ \<Rightarrow> [] | GenFiles c \<Rightarrow> c) (project_upload files gen)) = gen \<and>
    (\<forall>u \<in> set (project_upload files gen). case u of ProtoFiles c \<Rightarrow> fits c | GenFiles c \<Rightarrow> fits c)"
proof -
  have "fits c" if "c \<in> set (proto_chunks fs)" for c fs
    using chunks_from_fit [of 0 "[]" c fs] that by (simp add: proto_chunks_def)
  then have fit: "\<forall>u \<in> set (project_upload files gen). case u of ProtoFiles c \<Rightarrow> fits c | GenFiles c \<Rightarrow> fits c"
    by (auto simp: project_upload_def)
  have whole: "concat (proto_chunks fs) = fs" for fs by (simp add: proto_chunks_def chunks_from_concat)
  have none: "concat (map (\<lambda>_. []) cs) = []" for cs :: "'a list" by (induction cs) simp_all
  have "concat (map (\<lambda>u. case u of ProtoFiles c \<Rightarrow> c | GenFiles _ \<Rightarrow> []) (project_upload files gen)) = files"
    and "concat (map (\<lambda>u. case u of ProtoFiles _ \<Rightarrow> [] | GenFiles c \<Rightarrow> c) (project_upload files gen)) = gen"
    by (simp_all add: project_upload_def comp_def whole)
  with fit show ?thesis by blast
qed

theorem upload_carries_the_tree_in_bounded_messages_witness:
  "\<forall>u \<in> set (project_upload [(''a.proto'', ''x''), (''b.proto'', ''y'')] [(''c.go'', ''z'')]).
     case u of ProtoFiles c \<Rightarrow> fits c | GenFiles c \<Rightarrow> fits c"
  using upload_carries_the_tree_in_bounded_messages by blast

section \<open>Who wrote what lands\<close>

definition console_signed :: "'s console \<Rightarrow> string \<Rightarrow> write_op \<Rightarrow> bool" where
  "console_signed W lock w \<longleftrightarrow> (\<exists>domain prior body s s'. sign_acl W lock domain prior body s = (s', Inr (op_contents w)))"

lemma sign_one_console: "sign_one W d t lock q s = (s', Inr w) \<Longrightarrow> console_signed W lock w \<and> op_path w = op_rel (sign_path q)"
  by (auto simp: sign_one_def Let_def console_signed_def split: if_splits read.splits prod.splits sum.splits) blast+

lemma sign_each_console:
  "sign_each W d t lock qs acc s = (s', None, ws) \<Longrightarrow>
     \<exists>signed_ws. ws = acc @ signed_ws \<and> map op_path signed_ws = map (op_rel \<circ> sign_path) qs \<and>
       (\<forall>w \<in> set signed_ws. console_signed W lock w)"
proof (induction qs arbitrary: acc s)
  case (Cons q qs)
  then obtain s1 w where w: "sign_one W d t lock q s = (s1, Inr w)"
    and rest: "sign_each W d t lock qs (acc @ [w]) s1 = (s', None, ws)"
    by (auto split: prod.splits sum.splits)
  from Cons.IH [OF rest] obtain signed_ws where "ws = acc @ w # signed_ws"
    "map op_path signed_ws = map (op_rel \<circ> sign_path) qs" "\<forall>w \<in> set signed_ws. console_signed W lock w" by auto
  with sign_one_console [OF w] show ?case by (intro exI [of _ "w # signed_ws"]) simp
qed simp

definition kept_write :: "bool \<Rightarrow> generated_op \<Rightarrow> write_op option" where
  "kept_write track x =
     (case x of
        WriteOp w \<Rightarrow>
          if op_rel (op_path w) = lock_path \<or> op_rel (op_path w) = deploy_gitignore \<and> track then None else Some w
      | _ \<Rightarrow> None)"

definition sign_of :: "generated_op \<Rightarrow> sign_request option" where
  "sign_of x = (case x of SignOp q \<Rightarrow> Some q | _ \<Rightarrow> None)"

definition delete_of :: "generated_op \<Rightarrow> string option" where
  "delete_of x = (case x of DeleteOp p \<Rightarrow> Some p | _ \<Rightarrow> None)"

lemma collect_op_parts:
  "res_writes (collect_op track x res) = res_writes res @ List.map_filter (kept_write track) [x]"
  "res_signs (collect_op track x res) = res_signs res @ List.map_filter sign_of [x]"
  "res_deletes (collect_op track x res) = res_deletes res @ List.map_filter delete_of [x]"
  by (auto simp: collect_op_def kept_write_def sign_of_def delete_of_def List.map_filter_simps split: generated_op.split)

lemma collect_parts:
  "res_writes (collect_ops track ops) = List.map_filter (kept_write track) ops"
  "res_signs (collect_ops track ops) = List.map_filter sign_of ops"
  "res_deletes (collect_ops track ops) = List.map_filter delete_of ops"
proof -
  have *: "res_writes (fold (collect_op track) ops res) = res_writes res @ List.map_filter (kept_write track) ops \<and>
     res_signs (fold (collect_op track) ops res) = res_signs res @ List.map_filter sign_of ops \<and>
     res_deletes (fold (collect_op track) ops res) = res_deletes res @ List.map_filter delete_of ops" for res
    by (induction ops arbitrary: res) (simp_all add: collect_op_parts List.map_filter_simps split: option.split)
  show "res_writes (collect_ops track ops) = List.map_filter (kept_write track) ops"
    "res_signs (collect_ops track ops) = List.map_filter sign_of ops"
    "res_deletes (collect_ops track ops) = List.map_filter delete_of ops"
    using * [of empty_result] by (simp_all add: collect_ops_def empty_result_def)
qed

lemma kept_write_mem: "w \<in> set (List.map_filter (kept_write track) ops) \<Longrightarrow> WriteOp w \<in> set ops \<and> op_rel (op_path w) \<noteq> lock_path"
  by (auto simp: List.map_filter_def kept_write_def split: generated_op.splits if_splits)

lemma sign_of_mem: "SignOp q \<in> set ops \<Longrightarrow> q \<in> set (List.map_filter sign_of ops)"
  by (force simp: List.map_filter_def sign_of_def split: generated_op.splits)

text \<open>C13: a run that completed lands the lock of a console's answer to its placement, never one a worker
  sent; every other file is one the worker sent or one the console signed; and every file a worker could not sign
  is there, signed by the console.\<close>

theorem nothing_of_a_worker_signs_itself:
  assumes "run_project K W d t lock track retries s = Some ((s', res'), Completed)"
  shows "\<exists>res ops g s0 s1 s2 s3 a. res' = Some res \<and>
    ask K StartPlacement s0 = (s1, Inr a) \<and> res_lock res = signed_lock a \<and> res_lock res \<noteq> [] \<and>
    work W g (res_lock res) s2 = (s3, Inr (ops, None)) \<and>
    (\<forall>w \<in> set (res_writes res). WriteOp w \<in> set ops \<and> op_rel (op_path w) \<noteq> lock_path \<or> console_signed W lock w) \<and>
    (\<forall>q. SignOp q \<in> set ops \<longrightarrow> (\<exists>w \<in> set (res_writes res). op_path w = op_rel (sign_path q) \<and> console_signed W lock w))"
proof -
  let ?K = "project_cluster K W d t lock track"
  from completed_in_an_attempt [OF assms [unfolded run_project_def]]
  obtain g lk warns st1 st0 st2 a where at: "attempt ?K g lk warns st1 = ((s', res'), None)" and lk: "lk \<noteq> []"
    and a: "ask ?K StartPlacement st0 = (st2, Inr a)" "signed_lock a = lk" by blast
  from a(1) obtain s1 where ask: "ask K StartPlacement (fst st0) = (s1, Inr a)"
    by (auto simp: project_cluster_def split: prod.splits)
  from at have pa: "project_attempt W d t lock track g lk warns st1 = ((s', res'), None)" by (simp add: project_cluster_def)
  then obtain s3 ops where w: "work W g lk (fst st1) = (s3, Inr (ops, None))"
    by (auto simp: project_attempt_def split: prod.splits sum.splits option.splits)
  obtain s4 e res where sa: "sign_all W d t lock (collect_ops track ops) s3 = (s4, e, res)"
    by (metis prod_cases3)
  with pa w have e: "e = None" and res': "res' = Some (res\<lparr>res_lock := lk, res_placement_warnings := warns\<rparr>)"
    by (auto simp: project_attempt_def split: option.splits)
  obtain s5 ws where se: "sign_each W d t lock (res_signs (collect_ops track ops)) (res_writes (collect_ops track ops)) s3 = (s5, None, ws)"
    and ws: "res_writes res = ws"
    using sa e by (auto simp: sign_all_def split: prod.splits option.splits)
  from sign_each_console [OF se] obtain signed_ws where s: "ws = res_writes (collect_ops track ops) @ signed_ws"
    "map op_path signed_ws = map (op_rel \<circ> sign_path) (res_signs (collect_ops track ops))"
    "\<forall>w \<in> set signed_ws. console_signed W lock w" by blast
  have sent: "WriteOp x \<in> set ops \<and> op_rel (op_path x) \<noteq> lock_path \<or> console_signed W lock x" if "x \<in> set ws" for x
    using that s(1,3) kept_write_mem [of x track ops] by (auto simp: collect_parts)
  have asked: "\<exists>x \<in> set ws. op_path x = op_rel (sign_path q) \<and> console_signed W lock x" if "SignOp q \<in> set ops" for q
  proof -
    have "op_rel (sign_path q) \<in> set (map op_path signed_ws)"
      unfolding s(2) using sign_of_mem [OF that] by (simp add: collect_parts)
    then obtain x where "x \<in> set signed_ws" "op_path x = op_rel (sign_path q)" by auto
    with s(1,3) show ?thesis by auto
  qed
  let ?res = "res\<lparr>res_lock := lk, res_placement_warnings := warns\<rparr>"
  show ?thesis
    by (rule exI [of _ ?res], rule exI [of _ ops], rule exI [of _ g], rule exI [of _ "fst st0"], rule exI [of _ s1],
        rule exI [of _ "fst st1"], rule exI [of _ s3], rule exI [of _ a])
      (use ask a(2) lk w res' sent asked ws in auto)
qed

section \<open>A concrete run\<close>

text \<open>A worker that sends a file, a lock of its own and a request to sign; a console that signs by a prefix.\<close>

definition sample_ops :: "generated_op list" where
  "sample_ops =
     [WriteOp (op_of ''w17/a.go'' ''a''), WriteOp (op_of ''./w17/lock.yaml'' ''forged''),
      SignOp \<lparr>sign_kind = AclLock, sign_path = ''acl.yaml'', sign_domain = ''shop'', unsigned_body = ''x''\<rparr>]"

definition sample_console :: "nat console" where
  "sample_console =
     \<lparr>sign_acl = (\<lambda>lock domain prior body s. (s, Inr (''signed:'' @ body))),
      work = (\<lambda>g lock s. (s, Inr (sample_ops, None)))\<rparr>"

lemma sample_project_run:
  "run_project sample_cluster sample_console healthy_disk [] ''lock'' False 1 5 =
     Some ((5, Some (empty_result\<lparr>res_writes := [op_of ''w17/a.go'' ''a'', op_of ''acl.yaml'' ''signed:x''], res_lock := ''signed''\<rparr>)),
       Completed)"
proof -
  let ?K = "project_cluster sample_cluster sample_console healthy_disk [] ''lock'' False"
  have "one_turn ?K True 1 0 0 (5, None) =
     Some ((5, Some (empty_result\<lparr>res_writes := [op_of ''w17/a.go'' ''a'', op_of ''acl.yaml'' ''signed:x''], res_lock := ''signed''\<rparr>)),
       Inl Completed)" by code_simp
  then show ?thesis
    by (simp only: run_project_def place_and_run.simps [of _ _ _ 0 0] option.case prod.case sum.case)
qed

theorem nothing_of_a_worker_signs_itself_witness:
  "\<exists>s0 s1 a. ask sample_cluster StartPlacement s0 = (s1, Inr a) \<and> signed_lock a = ''signed''"
proof -
  obtain res s0 s1 a where "Some (empty_result\<lparr>res_writes := [op_of ''w17/a.go'' ''a'', op_of ''acl.yaml'' ''signed:x''],
      res_lock := ''signed''\<rparr>) = Some res" and "ask sample_cluster StartPlacement s0 = (s1, Inr a)" "res_lock res = signed_lock a"
    using nothing_of_a_worker_signs_itself [OF sample_project_run] by blast
  then show ?thesis by (intro exI [of _ s0] exI [of _ s1] exI [of _ a]) auto
qed

end
