(* ===== verification/AdminRuntime.thy ===== *)
theory AdminRuntime
  imports Codegen
begin

text \<open>
  \<^verbatim>\<open>src/internal/adminruntime/adminruntime.go\<close>: the runtime of the admin pages that this client
  ships is kept, file for file, in the project. What is on disk is compared with what is shipped by a stamp and by
  bytes, and made equal to it; the build products beside it are not touched. The shipped files, the hash and the JSON
  of the stamp are parameters.
\<close>

section \<open>What is shipped\<close>

definition stamp_name :: string where
  "stamp_name = ''.w17-vendor.json''"

record stamp =
  st_version :: string
  st_digest :: string

text \<open>The embedded files, by their slash path; the hash of a text; the stamp as a file and read back.\<close>

record shipment =
  ship_files :: "(string, string) gomap"
  ship_hash :: "string \<Rightarrow> string"
  ship_version :: string
  stamp_text :: "stamp \<Rightarrow> string"
  stamp_read :: "string \<Rightarrow> stamp option"

text \<open>\<^verbatim>\<open>fs.WalkDir\<close> gives files, by slash paths, and the stamp is not shipped; what is written as a
  stamp is read back; a hash is not the empty text.\<close>

definition shipment_laws :: "shipment \<Rightarrow> bool" where
  "shipment_laws S \<longleftrightarrow>
     wf_map (ship_files S) \<and>
     (\<forall>k \<in> set (keys_of (ship_files S)).
        path_elems k \<noteq> [] \<and> ''..'' \<notin> set (path_elems k) \<and> join_with [slash] (path_elems k) = k \<and> path_elems k \<noteq> [stamp_name]) \<and>
     (\<forall>s. stamp_read S (stamp_text S s @ [nl]) = Some s) \<and> (\<forall>b. ship_hash S b \<noteq> [])"

definition ship_paths :: "shipment \<Rightarrow> string list" where
  "ship_paths S = sort (keys_of (ship_files S))"

definition shipped_bytes :: "shipment \<Rightarrow> string \<Rightarrow> string" where
  "shipped_bytes S k = (case map_of (ship_files S) k of Some b \<Rightarrow> b | None \<Rightarrow> [])"

definition digest_input :: "(string \<Rightarrow> string) \<Rightarrow> string list \<Rightarrow> string" where
  "digest_input bytes paths =
     concat (map (\<lambda>k. show_nat (length k) @ '':'' @ k @ show_nat (length (bytes k)) @ '':'' @ bytes k) paths)"

definition digest_of_tree :: "shipment \<Rightarrow> string" where
  "digest_of_tree S = ''sha256:'' @ ship_hash S (digest_input (shipped_bytes S) (ship_paths S))"

definition current_stamp :: "shipment \<Rightarrow> stamp" where
  "current_stamp S = \<lparr>st_version = (if ship_version S = [] then ''dev'' else ship_version S), st_digest = digest_of_tree S\<rparr>"

section \<open>Inspecting\<close>

datatype vendor_state = Fresh | Missing | Unstamped | Stale | Modified

record vendor_status =
  vs_state :: vendor_state
  vs_on :: stamp
  vs_want :: stamp
  vs_differs :: "string list"

definition no_stamp :: stamp where
  "no_stamp = \<lparr>st_version = [], st_digest = []\<rparr>"

definition held_at :: "disk \<Rightarrow> tree \<Rightarrow> path \<Rightarrow> string \<Rightarrow> bool" where
  "held_at d t p want \<longleftrightarrow> (case read_file d t p of Bytes b \<Rightarrow> b = want | _ \<Rightarrow> False)"

definition ship_at :: "path \<Rightarrow> string \<Rightarrow> path" where
  "ship_at dir k = dir @ path_elems k"

definition inspect_runtime :: "shipment \<Rightarrow> disk \<Rightarrow> tree \<Rightarrow> path \<Rightarrow> vendor_status option" where
  "inspect_runtime S d t dir =
     (let want = current_stamp S; st = \<lparr>vs_state = Fresh, vs_on = no_stamp, vs_want = want, vs_differs = []\<rparr> in
      case node_at t dir of
        None \<Rightarrow> if below_file t dir then None else Some (st\<lparr>vs_state := Missing\<rparr>)
      | Some (File _) \<Rightarrow> None
      | Some Dir \<Rightarrow>
          (case read_file d t (dir @ [stamp_name]) of
             NotExist \<Rightarrow> Some (st\<lparr>vs_state := Unstamped\<rparr>)
           | ReadError \<Rightarrow> None
           | Bytes raw \<Rightarrow>
               (case stamp_read S raw of
                  None \<Rightarrow> Some (st\<lparr>vs_state := Unstamped\<rparr>)
                | Some on \<Rightarrow>
                    if st_digest on = [] then Some (st\<lparr>vs_state := Unstamped\<rparr>)
                    else if st_digest on \<noteq> st_digest want then Some (st\<lparr>vs_state := Stale, vs_on := on\<rparr>)
                    else
                      (let differs = take 3 (filter (\<lambda>k. \<not> held_at d t (ship_at dir k) (shipped_bytes S k)) (ship_paths S))
                       in Some (st\<lparr>vs_state := (if differs \<noteq> [] then Modified else Fresh), vs_on := on, vs_differs := differs\<rparr>)))))"

section \<open>Making it so\<close>

fun put_shipped :: "shipment \<Rightarrow> disk \<Rightarrow> path \<Rightarrow> string list \<Rightarrow> nat \<Rightarrow> tree \<Rightarrow> tree \<times> nat \<times> bool" where
  "put_shipped S d dir [] n t = (t, n, True)"
| "put_shipped S d dir (k # ks) n t =
     (if held_at d t (ship_at dir k) (shipped_bytes S k) then put_shipped S d dir ks n t
      else case mkdir_all d (butlast (ship_at dir k)) t of
        (t1, False) \<Rightarrow> (t1, n, False)
      | (t1, True) \<Rightarrow>
          (case write_file d (ship_at dir k) (shipped_bytes S k) t1 of
             (t2, False) \<Rightarrow> (t2, n, False)
           | (t2, True) \<Rightarrow> put_shipped S d dir ks (Suc n) t2))"

text \<open>\<^verbatim>\<open>node_modules\<close> and \<^verbatim>\<open>dist\<close> are closed wherever they are below the directory.\<close>

definition build_product :: "path \<Rightarrow> path \<Rightarrow> bool" where
  "build_product dir p \<longleftrightarrow>
     list_ex (\<lambda>q. strict_prefix dir q \<and> last q \<in> {''node_modules'', ''dist''}) (filter (\<lambda>q. q \<noteq> p) (prefixes p))"

definition extra_visit :: "shipment \<Rightarrow> disk \<Rightarrow> path \<Rightarrow> path \<Rightarrow> tree \<Rightarrow> nat \<Rightarrow> tree \<times> nat \<times> bool" where
  "extra_visit S d dir p t n =
     (if build_product dir p then (t, n, True)
      else case node_at t p of
        None \<Rightarrow> (t, n, True)
      | Some Dir \<Rightarrow>
          (t, n, \<not> (unlistable d t p \<and> \<not> (p \<noteq> dir \<and> last p \<in> {''node_modules'', ''dist''})))
      | Some (File _) \<Rightarrow>
          (let rel = join_with [slash] (drop (length dir) p)
           in if rel = stamp_name \<or> map_of (ship_files S) rel \<noteq> None then (t, n, True)
              else case remove_one d p t of (t1, ok) \<Rightarrow> (t1, if ok then Suc n else n, ok)))"

fun extra_walk :: "shipment \<Rightarrow> disk \<Rightarrow> path \<Rightarrow> path list \<Rightarrow> tree \<Rightarrow> nat \<Rightarrow> tree \<times> nat \<times> bool" where
  "extra_walk S d dir [] t n = (t, n, True)"
| "extra_walk S d dir (p # ps) t n =
     (case extra_visit S d dir p t n of
        (t1, n1, False) \<Rightarrow> (t1, n1, False)
      | (t1, n1, True) \<Rightarrow> extra_walk S d dir ps t1 n1)"

text \<open>Walking a directory that is not there is an error.\<close>

definition prune_extras :: "shipment \<Rightarrow> disk \<Rightarrow> path \<Rightarrow> tree \<Rightarrow> tree \<times> nat \<times> bool" where
  "prune_extras S d dir t =
     (if node_at t dir = None then (t, 0, False) else extra_walk S d dir (walk_order t dir) t 0)"

definition sync_runtime :: "shipment \<Rightarrow> disk \<Rightarrow> path \<Rightarrow> tree \<Rightarrow> tree \<times> nat \<times> bool" where
  "sync_runtime S d dir t =
     (case put_shipped S d dir (ship_paths S) 0 t of
        (t1, n1, False) \<Rightarrow> (t1, n1, False)
      | (t1, n1, True) \<Rightarrow>
          (case prune_extras S d dir t1 of
             (t2, n2, False) \<Rightarrow> (t2, n1 + n2, False)
           | (t2, n2, True) \<Rightarrow>
               (let body = stamp_text S (current_stamp S) @ [nl]; p = dir @ [stamp_name]
                in if held_at d t2 p body then (t2, n1 + n2, True)
                   else case write_file d p body t2 of (t3, ok) \<Rightarrow> (t3, n1 + n2, ok))))"

section \<open>Which projects\<close>

definition runtime_dir :: "string \<Rightarrow> path" where
  "runtime_dir services =
     path_elems (join_path [if services = [] then ''w17'' else hd (split_on slash services), ''admin-runtime''])"

definition admin_spa :: "string \<Rightarrow> path \<Rightarrow> bool" where
  "admin_spa services p \<longleftrightarrow>
     (let base = path_elems (if services = [] then ''w17/services'' else services) in
      case drop (length base) p of
        [a, b, c] \<Rightarrow> prefix base p \<and> suffix ''-admin'' a \<and> b = ''spa'' \<and> c = ''package.json''
      | _ \<Rightarrow> False)"

definition mentions_runtime :: "string \<Rightarrow> bool" where
  "mentions_runtime b \<longleftrightarrow> sublist (dquote # ''@w17/admin-runtime'' @ [dquote]) b"

definition project_has_admin :: "disk \<Rightarrow> tree \<Rightarrow> string \<Rightarrow> bool" where
  "project_has_admin d t services \<longleftrightarrow>
     list_ex (\<lambda>p. admin_spa services p \<and> (case read_file d t p of Bytes b \<Rightarrow> mentions_runtime b | _ \<Rightarrow> False)) (keys_of t)"

definition admin_bundle_emitted :: "write_op list \<Rightarrow> bool" where
  "admin_bundle_emitted ops \<longleftrightarrow> list_ex (\<lambda>w. sublist ''-admin/spa/package.json'' (op_path w)) ops"

datatype vendor_error = InspectFailed | SyncFailed

definition vendor_admin_runtime :: "shipment \<Rightarrow> disk \<Rightarrow> string \<Rightarrow> write_op list \<Rightarrow> tree \<Rightarrow> tree \<times> vendor_error option" where
  "vendor_admin_runtime S d services ops t =
     (if \<not> admin_bundle_emitted ops \<and> \<not> project_has_admin d t services then (t, None)
      else let dir = runtime_dir services in
        case inspect_runtime S d t dir of
          None \<Rightarrow> (t, Some InspectFailed)
        | Some _ \<Rightarrow> (case sync_runtime S d dir t of (t1, _, ok) \<Rightarrow> (t1, if ok then None else Some SyncFailed)))"

section \<open>What a synchronisation leaves\<close>

lemma held_atD: "held_at d t p want \<Longrightarrow> node_at t p = Some (File want)"
  by (auto simp: held_at_def read_file_def split: read.splits option.splits node.splits if_splits)

lemma held_atI: "unreadable d = (\<lambda>_ _. False) \<Longrightarrow> node_at t p = Some (File want) \<Longrightarrow> held_at d t p want"
  by (simp add: held_at_def read_file_def)

lemma ship_at_inj:
  assumes "shipment_laws S" and "k \<in> set (keys_of (ship_files S))" and "k' \<in> set (keys_of (ship_files S))"
    and "ship_at dir k = ship_at dir k'"
  shows "k = k'"
proof -
  have "path_elems k = path_elems k'" using assms(4) by (simp add: ship_at_def)
  with assms(1-3) show ?thesis unfolding shipment_laws_def by metis
qed

lemma ship_at_plain:
  assumes "shipment_laws S" and "k \<in> set (keys_of (ship_files S))"
  shows "strict_prefix dir (ship_at dir k)" and "ship_at dir k \<noteq> dir @ [stamp_name]"
    and "join_with [slash] (drop (length dir) (ship_at dir k)) = k"
  using assms by (auto simp: ship_at_def shipment_laws_def strict_prefix_def)

definition shipped_there :: "shipment \<Rightarrow> path \<Rightarrow> tree \<Rightarrow> string \<Rightarrow> bool" where
  "shipped_there S dir t k \<longleftrightarrow> node_at t (ship_at dir k) = Some (File (shipped_bytes S k))"

lemma put_shipped_leaves:
  assumes L: "shipment_laws S"
  shows "put_shipped S d dir ks n t = (t', n', True) \<Longrightarrow> distinct ks \<Longrightarrow> set ks \<subseteq> set (keys_of (ship_files S)) \<Longrightarrow>
     (\<forall>k \<in> set ks. shipped_there S dir t' k) \<and> files_kept (ship_at dir ` set ks) t t'"
proof (induction ks arbitrary: n t)
  case (Cons k ks)
  have other: "ship_at dir k \<notin> ship_at dir ` set ks"
  proof
    assume "ship_at dir k \<in> ship_at dir ` set ks"
    then obtain k' where k': "k' \<in> set ks" "ship_at dir k = ship_at dir k'" by auto
    have "k = k'" by (rule ship_at_inj [OF L _ _ k'(2)]) (use Cons.prems(3) k'(1) in auto)
    with k'(1) Cons.prems(2) show False by simp
  qed
  have step: ?case if g: "shipped_there S dir t1 k" "files_kept {ship_at dir k} t t1"
    and m: "put_shipped S d dir ks n1 t1 = (t', n', True)" for t1 n1
  proof -
    have ih: "(\<forall>k \<in> set ks. shipped_there S dir t' k) \<and> files_kept (ship_at dir ` set ks) t1 t'"
      using Cons.IH [OF m] Cons.prems(2,3) by simp
    then have "shipped_there S dir t' k" using files_kept_there [OF _ other] g(1) by (auto simp: shipped_there_def)
    moreover have "files_kept (ship_at dir ` set (k # ks)) t t'"
      using files_kept_trans [OF g(2) conjunct2 [OF ih]] by simp
    ultimately show ?thesis using ih by simp
  qed
  show ?case
  proof (cases "held_at d t (ship_at dir k) (shipped_bytes S k)")
    case True
    have "shipped_there S dir t k" using held_atD [OF True] by (simp add: shipped_there_def)
    moreover have "files_kept {ship_at dir k} t t" by (simp add: files_kept_def)
    ultimately show ?thesis using Cons.prems(1) True by (intro step) simp_all
  next
    case False
    then obtain t1 t2 where m: "mkdir_all d (butlast (ship_at dir k)) t = (t1, True)"
      and w: "write_file d (ship_at dir k) (shipped_bytes S k) t1 = (t2, True)"
      and r: "put_shipped S d dir ks (Suc n) t2 = (t', n', True)"
      using Cons.prems(1) by (auto split: prod.splits bool.splits)
    have "files_kept {ship_at dir k} t t2"
      using files_kept_trans [OF grows_files_kept [OF mkdir_all_grows [OF m], of "{}"] same_but_files_kept [OF write_file_same_but [OF w]]]
      by simp
    moreover have "shipped_there S dir t2 k" using write_file_ok [OF w] by (simp add: shipped_there_def)
    ultimately show ?thesis using r by (intro step)
  qed
qed (simp add: files_kept_def)

lemma put_shipped_wf: "wf_tree t \<Longrightarrow> wf_tree (fst (put_shipped S d dir ks n t))"
proof (induction ks arbitrary: n t)
  case (Cons k ks)
  obtain t1 ok where m: "mkdir_all d (butlast (ship_at dir k)) t = (t1, ok)" by (cases "mkdir_all d (butlast (ship_at dir k)) t")
  obtain t2 ok2 where w: "write_file d (ship_at dir k) (shipped_bytes S k) t1 = (t2, ok2)"
    by (cases "write_file d (ship_at dir k) (shipped_bytes S k) t1")
  have "wf_tree t1" using mkdir_all_wf [OF Cons.prems, of d "butlast (ship_at dir k)"] m by simp
  moreover from this have "wf_tree t2" using write_file_wf [of t1 d "ship_at dir k" "shipped_bytes S k"] w by simp
  ultimately show ?case using Cons.IH Cons.prems m w by (simp split: bool.split)
qed simp

definition extra :: "shipment \<Rightarrow> path \<Rightarrow> tree \<Rightarrow> path \<Rightarrow> bool" where
  "extra S dir t p \<longleftrightarrow>
     is_file t p \<and> \<not> build_product dir p \<and> join_with [slash] (drop (length dir) p) \<noteq> stamp_name \<and>
     map_of (ship_files S) (join_with [slash] (drop (length dir) p)) = None"

lemma extra_visit_exact:
  assumes "extra_visit S d dir p t n = (t', n', True)"
  shows "pruned_to {q. q = p \<and> extra S dir t p} t t'"
proof (cases "extra S dir t p")
  case True
  then obtain b where f: "node_at t p = Some (File b)" by (auto simp: extra_def is_file_def split: option.splits node.splits)
  then have ne: "p \<noteq> []" by auto
  have "remove_one d p t = (t', True)"
    using assms True f by (auto simp: extra_visit_def extra_def Let_def split: prod.splits if_splits)
  with ne True show ?thesis by (auto simp: remove_one_def pruned_to_def split: if_splits)
next
  case False
  then have "t' = t"
    using assms by (auto simp: extra_visit_def extra_def is_file_def Let_def split: if_splits option.splits node.splits)
  with False show ?thesis by (simp add: pruned_to_def)
qed

lemma extra_same: "node_at t' p = node_at t p \<Longrightarrow> extra S dir t' p = extra S dir t p"
  by (simp add: extra_def is_file_def)

lemma extra_walk_exact:
  "extra_walk S d dir ps t n = (t', n', True) \<Longrightarrow> pruned_to {p. p \<in> set ps \<and> extra S dir t p} t t'"
proof (induction ps arbitrary: t n)
  case (Cons q ps)
  obtain t1 n1 where v: "extra_visit S d dir q t n = (t1, n1, True)" and r: "extra_walk S d dir ps t1 n1 = (t', n', True)"
    using Cons.prems by (auto split: prod.splits bool.splits)
  have one: "pruned_to {p. p = q \<and> extra S dir t q} t t1" by (rule extra_visit_exact [OF v])
  have "(p \<in> set ps \<and> extra S dir t1 p) \<longleftrightarrow> (p \<in> set ps \<and> extra S dir t p)" if no: "\<not> (p = q \<and> extra S dir t q)" for p
  proof -
    have "node_at t1 p = (if p = q \<and> extra S dir t q then None else node_at t p)" using one by (simp add: pruned_to_def)
    then have "node_at t1 p = node_at t p" by (simp only: if_not_P [OF no])
    from extra_same [OF this] show ?thesis by simp
  qed
  from pruned_to_trans [OF one Cons.IH [OF r] this]
  have "pruned_to {p. p = q \<and> extra S dir t q \<or> p \<in> set ps \<and> extra S dir t p} t t'" .
  moreover have "{p. p = q \<and> extra S dir t q \<or> p \<in> set ps \<and> extra S dir t p} = {p. p \<in> set (q # ps) \<and> extra S dir t p}" by auto
  ultimately show ?case by simp
qed (simp add: pruned_to_def)

lemma extra_walk_wf: "wf_tree t \<Longrightarrow> wf_tree (fst (extra_walk S d dir ps t n))"
proof (induction ps arbitrary: t n)
  case (Cons p ps)
  obtain t1 n1 ok where v: "extra_visit S d dir p t n = (t1, n1, ok)" by (cases "extra_visit S d dir p t n")
  have "wf_tree t1"
    using v Cons.prems remove_one_wf [OF Cons.prems, of d p]
    by (auto simp: extra_visit_def Let_def split: if_splits option.splits node.splits prod.splits)
  with Cons.IH v show ?case by (simp split: bool.split)
qed simp

lemma not_build_product: "\<not> build_product dir (dir @ [x])"
  by (auto simp: build_product_def list_ex_iff strict_prefix_def)

lemma ship_paths_set: "set (ship_paths S) = set (keys_of (ship_files S))"
  by (simp add: ship_paths_def)

lemma sync_runtime_steps:
  assumes "sync_runtime S d dir t = (t', n, True)"
  obtains t1 t2 n1 n2 where "put_shipped S d dir (ship_paths S) 0 t = (t1, n1, True)"
    and "extra_walk S d dir (walk_order t1 dir) t1 0 = (t2, n2, True)"
    and "same_but {dir @ [stamp_name]} t2 t'"
    and "node_at t' (dir @ [stamp_name]) = Some (File (stamp_text S (current_stamp S) @ [nl]))" and "wf_tree t2 \<Longrightarrow> wf_tree t'"
proof -
  let ?p = "dir @ [stamp_name]" and ?body = "stamp_text S (current_stamp S) @ [nl]"
  obtain t1 n1 where put: "put_shipped S d dir (ship_paths S) 0 t = (t1, n1, True)"
    using assms by (auto simp: sync_runtime_def split: prod.splits bool.splits)
  obtain t2 n2 where pr: "prune_extras S d dir t1 = (t2, n2, True)"
    using assms put by (auto simp: sync_runtime_def split: prod.splits bool.splits)
  then have walk: "extra_walk S d dir (walk_order t1 dir) t1 0 = (t2, n2, True)"
    by (auto simp: prune_extras_def split: if_splits)
  show thesis
  proof (cases "held_at d t2 ?p ?body")
    case True
    with assms put pr have "t' = t2" by (simp add: sync_runtime_def Let_def)
    moreover have "node_at t2 ?p = Some (File ?body)" by (rule held_atD [OF True])
    ultimately show thesis by (intro that [OF put walk]) (simp_all add: same_but_def)
  next
    case False
    with assms put pr have w: "write_file d ?p ?body t2 = (t', True)" by (simp add: sync_runtime_def Let_def split: prod.splits)
    have "wf_tree t'" if "wf_tree t2" using write_file_wf [OF that, of d ?p ?body] w by simp
    with write_file_same_but [OF w] write_file_ok [OF w] show thesis by (intro that [OF put walk]) simp_all
  qed
qed

text \<open>C36: after a synchronisation that succeeded, an inspection finds the copy fresh; every file below the
  directory, build products apart, is one this client ships or the stamp; and build products and everything outside
  the directory are as they were.\<close>

theorem the_vendored_runtime_is_exactly_what_is_shipped:
  assumes L: "shipment_laws S" and R: "unreadable d = (\<lambda>_ _. False)" and w: "wf_tree t"
    and r: "sync_runtime S d dir t = (t', n, True)"
  shows "(\<exists>st. inspect_runtime S d t' dir = Some st \<and> vs_state st = Fresh) \<and>
    (\<forall>k \<in> set (keys_of (ship_files S)). node_at t' (ship_at dir k) = Some (File (shipped_bytes S k))) \<and>
    (\<forall>p. strict_prefix dir p \<longrightarrow> is_file t' p \<longrightarrow> \<not> build_product dir p \<longrightarrow>
       join_with [slash] (drop (length dir) p) \<in> insert stamp_name (set (keys_of (ship_files S)))) \<and>
    (\<forall>p b. \<not> prefix dir p \<or> build_product dir p \<longrightarrow> p \<notin> ship_at dir ` set (keys_of (ship_files S)) \<longrightarrow>
       (node_at t' p = Some (File b) \<longleftrightarrow> node_at t p = Some (File b)))"
proof -
  let ?keys = "set (keys_of (ship_files S))" and ?stamp = "dir @ [stamp_name]"
  obtain t1 t2 n1 n2 where put: "put_shipped S d dir (ship_paths S) 0 t = (t1, n1, True)"
    and walk: "extra_walk S d dir (walk_order t1 dir) t1 0 = (t2, n2, True)" and same: "same_but {?stamp} t2 t'"
    and stamp: "node_at t' ?stamp = Some (File (stamp_text S (current_stamp S) @ [nl]))" and wf': "wf_tree t2 \<Longrightarrow> wf_tree t'"
    by (rule sync_runtime_steps [OF r]) (rule that)
  have dist: "distinct (ship_paths S)" using L by (simp add: ship_paths_def shipment_laws_def)
  have put': "\<forall>k \<in> ?keys. shipped_there S dir t1 k" "files_kept (ship_at dir ` ?keys) t t1"
    using put_shipped_leaves [OF L put dist] by (simp_all add: ship_paths_set)
  have w1: "wf_tree t1" using put_shipped_wf [OF w, of S d dir "ship_paths S" 0] put by simp
  have w': "wf_tree t'" by (rule wf') (use extra_walk_wf [OF w1, of S d dir "walk_order t1 dir" 0] walk in simp)
  have gone: "node_at t2 p = (if p \<in> set (walk_order t1 dir) \<and> extra S dir t1 p then None else node_at t1 p)" for p
    using extra_walk_exact [OF walk] by (simp add: pruned_to_def)
  have shipped: "node_at t' (ship_at dir k) = Some (File (shipped_bytes S k))" if k: "k \<in> ?keys" for k
  proof -
    have "\<not> extra S dir t1 (ship_at dir k)" using k ship_at_plain(3) [OF L k] by (simp add: extra_def map_of_eq_None_iff)
    then have "node_at t2 (ship_at dir k) = Some (File (shipped_bytes S k))"
      using gone bspec [OF put'(1) k] by (simp add: shipped_there_def)
    with same_butD [OF same, of "ship_at dir k"] ship_at_plain(2) [OF L k] show ?thesis by simp
  qed
  have "strict_prefix dir ?stamp" by (simp add: strict_prefix_def)
  from wf_tree_ancestor [OF w' _ this] stamp have dir: "node_at t' dir = Some Dir" by simp
  have "filter (\<lambda>k. \<not> held_at d t' (ship_at dir k) (shipped_bytes S k)) (ship_paths S) = []"
    using shipped held_atI [OF R] by (auto simp: filter_empty_conv ship_paths_set)
  moreover have "read_file d t' ?stamp = Bytes (stamp_text S (current_stamp S) @ [nl])"
    using stamp R by (simp add: read_file_def)
  moreover have "stamp_read S (stamp_text S (current_stamp S) @ [nl]) = Some (current_stamp S)"
    using L by (simp add: shipment_laws_def)
  moreover have "st_digest (current_stamp S) \<noteq> []" by (simp add: current_stamp_def digest_of_tree_def)
  ultimately have fresh: "\<exists>st. inspect_runtime S d t' dir = Some st \<and> vs_state st = Fresh"
    using dir by (simp add: inspect_runtime_def Let_def)
  have only: "join_with [slash] (drop (length dir) p) \<in> insert stamp_name ?keys"
    if p: "strict_prefix dir p" "is_file t' p" "\<not> build_product dir p" for p
  proof (cases "p = ?stamp")
    case False
    then have "node_at t' p = node_at t2 p" using same_butD [OF same] by simp
    with p(2) have f2: "is_file t2 p" by (simp add: is_file_def)
    then have n1: "node_at t2 p = node_at t1 p" "\<not> (p \<in> set (walk_order t1 dir) \<and> extra S dir t1 p)"
      using gone [of p] by (auto simp: is_file_def split: if_splits)
    have f1: "is_file t1 p" using f2 n1(1) by (simp add: is_file_def)
    then have "node_at t1 p \<noteq> None" by (auto simp: is_file_def split: option.splits)
    moreover have "p \<noteq> []" using p(1) by auto
    ultimately have "p \<in> set (walk_order t1 dir)" using p(1) node_at_keys [of p t1] by (simp add: walk_order_mem)
    with n1(2) f1 p(3) show ?thesis by (auto simp: extra_def map_of_eq_None_iff)
  qed simp
  have kept: "node_at t' p = Some (File b) \<longleftrightarrow> node_at t p = Some (File b)"
    if p: "\<not> prefix dir p \<or> build_product dir p" "p \<notin> ship_at dir ` ?keys" for p b
  proof -
    have "p \<noteq> ?stamp" using p(1) not_build_product [of dir stamp_name] by auto
    then have "node_at t' p = node_at t2 p" using same_butD [OF same] by simp
    also have "\<dots> = node_at t1 p"
      using gone [of p] p(1) by (auto simp: walk_order_mem extra_def strict_prefix_def)
    finally show ?thesis using files_keptD [OF put'(2) p(2)] by simp
  qed
  from fresh shipped only kept show ?thesis by blast
qed

section \<open>The digest\<close>

lemma length_prefix_inj:
  assumes "show_nat m @ '':'' @ x = show_nat n @ '':'' @ y"
  shows "m = n \<and> x = y"
proof -
  have t: "takeWhile is_digit (show_nat k @ '':'' @ z) = show_nat k" "dropWhile is_digit (show_nat k @ '':'' @ z) = '':'' @ z" for k z
    using show_nat_digits [of k] by (auto simp: list_all_iff takeWhile_append2 dropWhile_append2 is_digit_def)
  have "show_nat m = show_nat n" using t(1) [of m x] t(1) [of n y] assms by simp
  then have "digits_val (show_nat m) = digits_val (show_nat n)" by simp
  moreover have "x = y" using t(2) [of m x] t(2) [of n y] assms by simp
  ultimately show ?thesis by simp
qed

text \<open>Two trees have the same input to the hash only when they ship the same files in the same order with the
  same bytes: the lengths written before each part leave no other reading.\<close>

theorem digest_input_tells_trees_apart:
  assumes "digest_input bytes paths = digest_input bytes' paths'"
  shows "paths = paths' \<and> (\<forall>k \<in> set paths. bytes k = bytes' k)"
  using assms
proof (induction paths arbitrary: paths')
  case Nil
  then show ?case by (cases paths') (simp_all add: digest_input_def)
next
  case (Cons k ks)
  from Cons.prems obtain k' ks' where p: "paths' = k' # ks'" by (cases paths') (simp_all add: digest_input_def)
  have e: "digest_input f (j # js) = show_nat (length j) @ '':'' @ j @ show_nat (length (f j)) @ '':'' @ f j @ digest_input f js" for f j js
    by (simp add: digest_input_def)
  from length_prefix_inj [OF Cons.prems [unfolded p e]]
  have 1: "length k = length k'" and r: "k @ show_nat (length (bytes k)) @ '':'' @ bytes k @ digest_input bytes ks =
      k' @ show_nat (length (bytes' k')) @ '':'' @ bytes' k' @ digest_input bytes' ks'" by blast+
  from r 1 have k: "k = k'" and r2: "show_nat (length (bytes k)) @ '':'' @ bytes k @ digest_input bytes ks =
      show_nat (length (bytes' k')) @ '':'' @ bytes' k' @ digest_input bytes' ks'" by auto
  from length_prefix_inj [OF r2] have "bytes k = bytes' k'" and "digest_input bytes ks = digest_input bytes' ks'" by auto
  with Cons.IH [of ks'] k p show ?case by auto
qed

theorem digest_input_tells_trees_apart_witness:
  "[''a'', ''b''] = [''a'', ''b''] \<and> (\<forall>k \<in> set [''a'', ''b'']. (\<lambda>k. k @ ''1'') k = (\<lambda>k. k @ [CHR ''1'']) k)"
  by (rule digest_input_tells_trees_apart) simp

section \<open>A concrete synchronisation\<close>

definition stamp_line :: "stamp \<Rightarrow> string" where
  "stamp_line s = enc_text (st_version s) @ enc_text (st_digest s)"

definition read_stamp_line :: "string \<Rightarrow> stamp option" where
  "read_stamp_line b = (let (v, r) = dec_text b in Some \<lparr>st_version = v, st_digest = fst (dec_text r)\<rparr>)"

definition sample_shipment :: shipment where
  "sample_shipment =
     \<lparr>ship_files = [(''src/a.ts'', ''a''), (''b.ts'', ''b'')], ship_hash = (\<lambda>b. ''h'' @ b), ship_version = ''1.2.0'',
      stamp_text = stamp_line, stamp_read = read_stamp_line\<rparr>"

definition old_runtime :: tree where
  "old_runtime =
     [([''r''], Dir), ([''r'', ''old.ts''], File ''x''), ([''r'', ''b.ts''], File ''edited''), ([''r'', ''dist''], Dir),
      ([''r'', ''dist'', ''app.js''], File ''built''), ([''mine''], File ''m'')]"

lemma sample_shipment_laws: "shipment_laws sample_shipment"
proof -
  have "wf_map (ship_files sample_shipment)" by code_simp
  moreover have "list_all (\<lambda>k. path_elems k \<noteq> [] \<and> ''..'' \<notin> set (path_elems k) \<and> join_with [slash] (path_elems k) = k \<and>
      path_elems k \<noteq> [stamp_name]) (keys_of (ship_files sample_shipment))" by code_simp
  moreover have "read_stamp_line (stamp_line s @ [nl]) = Some s" for s
    by (simp add: read_stamp_line_def stamp_line_def)
  ultimately show ?thesis by (simp add: shipment_laws_def list_all_iff sample_shipment_def)
qed

theorem the_vendored_runtime_is_exactly_what_is_shipped_witness:
  "(\<exists>st. inspect_runtime sample_shipment healthy_disk (fst (sync_runtime sample_shipment healthy_disk [''r''] old_runtime)) [''r''] = Some st \<and>
      vs_state st = Fresh) \<and>
   node_at (fst (sync_runtime sample_shipment healthy_disk [''r''] old_runtime)) [''r'', ''src'', ''a.ts''] = Some (File ''a'')"
proof -
  let ?r = "sync_runtime sample_shipment healthy_disk [''r''] old_runtime"
  have "snd (snd ?r)" by code_simp
  then have r: "?r = (fst ?r, fst (snd ?r), True)" by (metis prod.collapse)
  have R: "unreadable healthy_disk = (\<lambda>_ _. False)" by (simp add: healthy_disk_def)
  have w: "wf_tree old_runtime" by code_simp
  note exact = the_vendored_runtime_is_exactly_what_is_shipped [OF sample_shipment_laws R w r]
  have "''src/a.ts'' \<in> set (keys_of (ship_files sample_shipment))" "ship_at [''r''] ''src/a.ts'' = [''r'', ''src'', ''a.ts'']"
    "shipped_bytes sample_shipment ''src/a.ts'' = ''a''" by code_simp+
  with exact show ?thesis by metis
qed

end
