(* ===== verification/SdkPins.thy ===== *)
theory SdkPins
  imports GoMod
begin

text \<open>
  The pinning of \<^verbatim>\<open>sdk/go\<close> after a generation (\<^verbatim>\<open>resolveSdkGoPinsAt\<close> and what it calls in
  \<^verbatim>\<open>internal/codegen/codegen.go\<close>), the floor below which a pin is refused, and the modules of the
  workspace (\<^verbatim>\<open>syncGoWork\<close>). Directories are named as the code names them, by their slash path below the
  root. The module proxy and \<^verbatim>\<open>semver\<close> are parameters.
\<close>

section \<open>The modules of a project\<close>

definition go_mod_at :: "string \<Rightarrow> path" where
  "go_mod_at d = path_elems d @ [''go.mod'']"

text \<open>\<^verbatim>\<open>os.ReadDir\<close>, the directories of the answer: by name, none when it cannot be listed.\<close>

definition child_dirs :: "disk \<Rightarrow> tree \<Rightarrow> path \<Rightarrow> string list" where
  "child_dirs d t p =
     (if unlistable d t p then []
      else sort (map last (filter (\<lambda>q. q \<noteq> [] \<and> butlast q = p \<and> node_at t q = Some Dir) (keys_of t))))"

definition read_mod :: "'m modlib \<Rightarrow> disk \<Rightarrow> tree \<Rightarrow> path \<Rightarrow> 'm option" where
  "read_mod L d t p = (case read_file d t p of Bytes b \<Rightarrow> mod_parse L b | _ \<Rightarrow> None)"

definition sdk_go_required_version :: "'m modlib \<Rightarrow> disk \<Rightarrow> tree \<Rightarrow> path \<Rightarrow> string \<Rightarrow> string" where
  "sdk_go_required_version L d t p m =
     (case read_mod L d t p of None \<Rightarrow> [] | Some f \<Rightarrow> required_version (mod_requires L f) m)"

definition sdk_go_replaced :: "'m modlib \<Rightarrow> disk \<Rightarrow> tree \<Rightarrow> path \<Rightarrow> string \<Rightarrow> bool" where
  "sdk_go_replaced L d t p m =
     (case read_mod L d t p of None \<Rightarrow> False | Some f \<Rightarrow> list_ex (\<lambda>r. old_path r = m) (mod_replaces L f))"

definition sdk_go_needs_pin :: "'m modlib \<Rightarrow> disk \<Rightarrow> tree \<Rightarrow> path \<Rightarrow> string \<Rightarrow> bool" where
  "sdk_go_needs_pin L d t p m =
     (case read_mod L d t p of
        None \<Rightarrow> False
      | Some f \<Rightarrow>
          if list_ex (\<lambda>r. old_path r = m) (mod_replaces L f) then False
          else case map_of (mod_requires L f) m of
            None \<Rightarrow> False
          | Some v \<Rightarrow> is_placeholder_version v)"

definition skipped_dir :: "string \<Rightarrow> bool" where
  "skipped_dir name \<longleftrightarrow> prefix ''.'' name \<or> name = ''node_modules'' \<or> name = ''vendor''"

definition visit_module ::
    "'m modlib \<Rightarrow> disk \<Rightarrow> tree \<Rightarrow> string \<Rightarrow> string list \<times> string list \<Rightarrow> string list \<times> string list" where
  "visit_module L d t sub st =
     (let (seen, found) = st; c = clean_path sub
      in if exists_at t (go_mod_at sub) \<and> c \<notin> set seen \<and>
            sdk_go_required_version L d t (go_mod_at sub) sdk_mod \<noteq> []
         then (c # seen, found @ [sub]) else st)"

primrec walk_modules ::
    "'m modlib \<Rightarrow> disk \<Rightarrow> tree \<Rightarrow> nat \<Rightarrow> string \<Rightarrow> string list \<times> string list \<Rightarrow> string list \<times> string list" where
  "walk_modules L d t 0 rel st =
     fold (\<lambda>name. visit_module L d t (join_path [rel, name]))
       (filter (\<lambda>n. \<not> skipped_dir n) (child_dirs d t (path_elems rel))) st"
| "walk_modules L d t (Suc depth) rel st =
     fold (\<lambda>name st. walk_modules L d t depth (join_path [rel, name])
                       (visit_module L d t (join_path [rel, name]) st))
       (filter (\<lambda>n. \<not> skipped_dir n) (child_dirs d t (path_elems rel))) st"

definition discover_sdk_module_dirs :: "'m modlib \<Rightarrow> disk \<Rightarrow> tree \<Rightarrow> string list \<Rightarrow> string list" where
  "discover_sdk_module_dirs L d t have = snd (walk_modules L d t 1 ''.'' (map clean_path have, []))"

definition service_modules :: "disk \<Rightarrow> tree \<Rightarrow> string \<Rightarrow> string list" where
  "service_modules d t services =
     (if services = [] then []
      else map (\<lambda>n. join_path [services, n])
             (filter (\<lambda>n. exists_at t (path_elems services @ [n, ''go.mod''])) (child_dirs d t (path_elems services))))"

definition sdk_go_module_dirs :: "'m modlib \<Rightarrow> disk \<Rightarrow> tree \<Rightarrow> string \<Rightarrow> string \<Rightarrow> string \<Rightarrow> string list" where
  "sdk_go_module_dirs L d t services stubs gen =
     (let dirs = (if gen = [] then [] else [gen]) @ service_modules d t services @
                 (if stubs = [] then [] else [stubs])
      in dirs @ discover_sdk_module_dirs L d t dirs)"

section \<open>The pins\<close>

definition resolved_pin :: "'m modlib \<Rightarrow> disk \<Rightarrow> tree \<Rightarrow> string \<Rightarrow> string option" where
  "resolved_pin L d t dir =
     (let v = sdk_go_required_version L d t (go_mod_at dir) sdk_mod
      in if v = [] \<or> is_placeholder_version v then None else Some v)"

definition snapshot_sdk_go_pins :: "'m modlib \<Rightarrow> disk \<Rightarrow> tree \<Rightarrow> string list \<Rightarrow> (string, string) gomap" where
  "snapshot_sdk_go_pins L d t dirs =
     fold (\<lambda>dir out. case resolved_pin L d t dir of None \<Rightarrow> out | Some v \<Rightarrow> put dir v out) dirs []"

definition sdk_version_from_modules :: "'m modlib \<Rightarrow> disk \<Rightarrow> tree \<Rightarrow> string list \<Rightarrow> string" where
  "sdk_version_from_modules L d t dirs =
     (case List.map_filter (resolved_pin L d t) dirs of [] \<Rightarrow> [] | v # _ \<Rightarrow> v)"

definition prior_pin :: "(string, string) gomap \<Rightarrow> string list \<Rightarrow> string" where
  "prior_pin prior targets =
     (case List.map_filter (\<lambda>d. case map_of prior d of Some v \<Rightarrow> if v = [] then None else Some v | None \<Rightarrow> None) targets
      of [] \<Rightarrow> [] | v # _ \<Rightarrow> v)"

definition write_sdk_pin :: "'m modlib \<Rightarrow> disk \<Rightarrow> string \<Rightarrow> string \<Rightarrow> tree \<Rightarrow> tree \<times> bool" where
  "write_sdk_pin L d dir ver t =
     (case read_mod L d t (go_mod_at dir) of
        None \<Rightarrow> (t, False)
      | Some f \<Rightarrow>
          (case add_require L sdk_mod ver f of
             None \<Rightarrow> (t, False)
           | Some f' \<Rightarrow>
               (case mod_format L (mod_cleanup L f') of
                  None \<Rightarrow> (t, False)
                | Some out \<Rightarrow> write_file d (go_mod_at dir) out t)))"

section \<open>The floor\<close>

record semver =
  sv_valid :: "string \<Rightarrow> bool"
  sv_compare :: "string \<Rightarrow> string \<Rightarrow> int"

datatype source = FromClient | FromConsole | FromCode string

definition raise_floor :: "semver \<Rightarrow> string \<times> source \<Rightarrow> string \<times> source \<Rightarrow> string \<times> source" where
  "raise_floor sv declared floor =
     (if \<not> sv_valid sv (fst declared) then floor
      else if \<not> sv_valid sv (fst floor) \<or> 0 < sv_compare sv (fst declared) (fst floor) then declared
      else floor)"

definition effective_sdk_floor ::
    "semver \<Rightarrow> string \<Rightarrow> string \<Rightarrow> (string \<times> string) list \<Rightarrow> string \<times> source" where
  "effective_sdk_floor sv client console reqs =
     fold (raise_floor sv) ((console, FromConsole) # map (\<lambda>(v, from). (v, FromCode from)) reqs) (client, FromClient)"

datatype how = OverrideFlag | FromProject | FromPrior | FromProxy

datatype pin_error = BelowFloor string how source string | PinFailed string | NotResolved

definition check_sdk_floor_against :: "semver \<Rightarrow> string \<Rightarrow> how \<Rightarrow> string \<times> source \<Rightarrow> pin_error option" where
  "check_sdk_floor_against sv ver how floor =
     (if fst floor = [] \<or> ver = [] then None
      else if \<not> sv_valid sv ver \<or> \<not> sv_valid sv (fst floor) then None
      else if 0 \<le> sv_compare sv ver (fst floor) then None
      else Some (BelowFloor ver how (snd floor) (fst floor)))"

section \<open>Pinning\<close>

fun pin_each ::
    "'m modlib \<Rightarrow> disk \<Rightarrow> (string \<Rightarrow> string) \<Rightarrow> string list \<Rightarrow> tree \<Rightarrow> tree \<times> pin_error option" where
  "pin_each L d ver [] t = (t, None)"
| "pin_each L d ver (dir # dirs) t =
     (case write_sdk_pin L d dir (ver dir) t of
        (t', False) \<Rightarrow> (t', Some (PinFailed dir))
      | (t', True) \<Rightarrow> pin_each L d ver dirs t')"

record pin_context =
  co_dev :: string
  client_floor :: string
  console_floor :: string
  code_floors :: "(string \<times> string) list"
  proxy_latest :: "string option"

text \<open>\<^verbatim>\<open>--sdk-version\<close>: every generated module, and every module on the placeholder, unless it replaces
  \<^verbatim>\<open>sdk/go\<close>. A module is judged as it is when its turn comes.\<close>

fun pin_override ::
    "'m modlib \<Rightarrow> disk \<Rightarrow> string \<Rightarrow> string \<Rightarrow> string \<Rightarrow> string list \<Rightarrow> tree \<Rightarrow> tree \<times> pin_error option" where
  "pin_override L d services stubs ver [] t = (t, None)"
| "pin_override L d services stubs ver (dir # dirs) t =
     (let p = go_mod_at dir;
          generated = (services \<noteq> [] \<and> prefix (services @ ''/'') dir) \<or> (stubs \<noteq> [] \<and> dir = stubs)
      in if sdk_go_replaced L d t p sdk_mod \<or>
            (\<not> sdk_go_needs_pin L d t p sdk_mod \<and>
             \<not> (generated \<and> sdk_go_required_version L d t p sdk_mod \<noteq> []))
         then pin_override L d services stubs ver dirs t
         else case write_sdk_pin L d dir ver t of
           (t', False) \<Rightarrow> (t', Some (PinFailed dir))
         | (t', True) \<Rightarrow> pin_override L d services stubs ver dirs t')"

definition target_dirs :: "'m modlib \<Rightarrow> disk \<Rightarrow> tree \<Rightarrow> string list \<Rightarrow> string list" where
  "target_dirs L d t dirs = filter (\<lambda>dir. sdk_go_needs_pin L d t (go_mod_at dir) sdk_mod) dirs"

text \<open>The version the placeholder is resolved to, and where it came from.\<close>

definition chosen_pin ::
    "'m modlib \<Rightarrow> disk \<Rightarrow> tree \<Rightarrow> string list \<Rightarrow> (string, string) gomap \<Rightarrow> string option \<Rightarrow> (string \<times> how) option" where
  "chosen_pin L d t dirs prior proxy =
     (let v = sdk_version_from_modules L d t dirs; p = prior_pin prior (target_dirs L d t dirs)
      in if v \<noteq> [] then Some (v, FromProject)
         else if p \<noteq> [] then Some (p, FromPrior)
         else map_option (\<lambda>v. (v, FromProxy)) proxy)"

definition pin_for :: "string \<times> how \<Rightarrow> (string, string) gomap \<Rightarrow> string \<Rightarrow> string" where
  "pin_for chosen prior dir =
     (case map_of prior dir of
        Some p \<Rightarrow> if snd chosen \<noteq> FromProject then p else fst chosen
      | None \<Rightarrow> fst chosen)"

fun first_error :: "'e option list \<Rightarrow> 'e option" where
  "first_error [] = None"
| "first_error (None # es) = first_error es"
| "first_error (Some e # es) = Some e"

definition resolve_sdk_go_pins_at ::
    "'m modlib \<Rightarrow> semver \<Rightarrow> disk \<Rightarrow> pin_context \<Rightarrow> string \<Rightarrow> string \<Rightarrow> string \<Rightarrow> (string, string) gomap \<Rightarrow> string \<Rightarrow>
       tree \<Rightarrow> tree \<times> pin_error option" where
  "resolve_sdk_go_pins_at L sv d C services stubs gen prior override t =
     (if filter (\<lambda>c. c \<noteq> slash) (co_dev C) \<noteq> [] then (t, None)
      else
        (let dirs = sdk_go_module_dirs L d t services stubs gen;
             floor = effective_sdk_floor sv (client_floor C) (console_floor C) (code_floors C);
             targets = target_dirs L d t dirs
         in if override \<noteq> [] then
              (case pin_override L d services stubs override dirs t of
                 (t', Some e) \<Rightarrow> (t', Some e)
               | (t', None) \<Rightarrow> (t', check_sdk_floor_against sv override OverrideFlag floor))
            else if targets = [] then
              (t, check_sdk_floor_against sv
                    (sdk_version_from_modules L d t
                       (filter (\<lambda>dir. \<not> sdk_go_replaced L d t (go_mod_at dir) sdk_mod) dirs)) FromProject floor)
            else case chosen_pin L d t dirs prior (proxy_latest C) of
              None \<Rightarrow> (t, Some NotResolved)
            | Some chosen \<Rightarrow>
                (case pin_each L d (pin_for chosen prior) targets t of
                   (t', Some e) \<Rightarrow> (t', Some e)
                 | (t', None) \<Rightarrow>
                     (t', first_error (map (\<lambda>v. check_sdk_floor_against sv v (snd chosen) floor)
                            (fst chosen # map (pin_for chosen prior) targets))))))"

section \<open>What pinning changes\<close>

lemma go_mod_at_ne [simp]: "go_mod_at dir \<noteq> []"
  by (simp add: go_mod_at_def)

lemma write_sdk_pin_same_but: "write_sdk_pin L d dir ver t = (t', ok) \<Longrightarrow> same_but {go_mod_at dir} t t'"
  by (auto simp: write_sdk_pin_def dest: write_file_same_but split: option.splits)

text \<open>A pinned module says what it said, but for the \<^verbatim>\<open>sdk/go\<close> requirement.\<close>

lemma write_sdk_pin_says:
  assumes L: "mod_laws L" and w: "write_sdk_pin L d dir ver t = (t', True)"
  shows "\<exists>f f'. read_mod L d t (go_mod_at dir) = Some f \<and>
      node_at t' (go_mod_at dir) = Some (File f') \<and>
      (\<exists>m. mod_parse L f' = Some m \<and> mod_replaces L m = mod_replaces L f \<and> map_of (mod_requires L m) sdk_mod = Some ver)"
proof -
  obtain f f1 out where f: "read_mod L d t (go_mod_at dir) = Some f"
    and f1: "add_require L sdk_mod ver f = Some f1" and out: "mod_format L (mod_cleanup L f1) = Some out"
    and wr: "write_file d (go_mod_at dir) out t = (t', True)"
    using w by (auto simp: write_sdk_pin_def split: option.splits)
  obtain m where m: "mod_parse L out = Some m" "mod_requires L m = mod_requires L f1"
    "mod_replaces L m = mod_replaces L f1"
    using format_law [OF L out] cleanup_law [OF L] by auto
  have only: "map_of rs p = Some v" if "filter (\<lambda>r. fst r = p) rs = [(p, v)]" for rs p and v :: string
    using that by (induction rs) (auto split: if_splits)
  have "map_of (mod_requires L f1) sdk_mod = Some ver" by (rule only [OF require_law(2) [OF L f1]])
  then have "map_of (mod_requires L m) sdk_mod = Some ver" and "mod_replaces L m = mod_replaces L f"
    using m require_law(1) [OF L f1] by simp_all
  with f write_file_ok [OF wr] m(1) show ?thesis by blast
qed

lemma read_mod_node:
  "unreadable d = (\<lambda>_ _. False) \<Longrightarrow>
     read_mod L d t p = (case node_at t p of Some (File b) \<Rightarrow> mod_parse L b | _ \<Rightarrow> None)"
  by (auto simp: read_mod_def read_file_def split: option.split node.split)

lemma pin_each_same_but: "pin_each L d ver dirs t = (t', e) \<Longrightarrow> same_but (go_mod_at ` set dirs) t t'"
proof (induction dirs arbitrary: t)
  case (Cons dir dirs)
  obtain t1 ok where w: "write_sdk_pin L d dir (ver dir) t = (t1, ok)"
    by (cases "write_sdk_pin L d dir (ver dir) t")
  have first: "same_but {go_mod_at dir} t t1" by (rule write_sdk_pin_same_but [OF w])
  show ?case
  proof (cases ok)
    case True
    with Cons.prems w have "pin_each L d ver dirs t1 = (t', e)" by simp
    from same_but_trans [OF first Cons.IH [OF this]] show ?thesis by (rule same_but_mono) auto
  next
    case False
    with Cons.prems w have "t' = t1" by simp
    with first show ?thesis by (auto intro: same_but_mono)
  qed
qed simp

lemma pin_each_pins:
  assumes L: "mod_laws L" and R: "unreadable d = (\<lambda>_ _. False)"
  shows "pin_each L d ver dirs t = (t', None) \<Longrightarrow> p \<in> go_mod_at ` set dirs \<Longrightarrow>
     \<exists>dir m. dir \<in> set dirs \<and> go_mod_at dir = p \<and> read_mod L d t' p = Some m \<and>
       map_of (mod_requires L m) sdk_mod = Some (ver dir)"
proof (induction dirs arbitrary: t)
  case (Cons dir dirs)
  obtain t1 where w: "write_sdk_pin L d dir (ver dir) t = (t1, True)"
    and rest: "pin_each L d ver dirs t1 = (t', None)"
    using Cons.prems(1) by (cases "write_sdk_pin L d dir (ver dir) t") (auto split: bool.splits)
  show ?case
  proof (cases "p \<in> go_mod_at ` set dirs")
    case True
    from Cons.IH [OF rest True] show ?thesis by auto
  next
    case False
    with Cons.prems(2) have p: "p = go_mod_at dir" by auto
    from write_sdk_pin_says [OF L w] obtain f' m where
      "node_at t1 p = Some (File f')" "mod_parse L f' = Some m" "map_of (mod_requires L m) sdk_mod = Some (ver dir)"
      by (auto simp: p)
    moreover have "node_at t' p = node_at t1 p"
      by (rule same_butD [OF pin_each_same_but [OF rest] False])
    ultimately show ?thesis by (auto simp: read_mod_node [OF R] p)
  qed
qed simp

text \<open>Outside co-development and without \<^verbatim>\<open>--sdk-version\<close>, one of three things happens.\<close>

lemma resolve_cases:
  assumes r: "resolve_sdk_go_pins_at L sv d C services stubs gen prior [] t = (t', e)"
    and co: "filter (\<lambda>c. c \<noteq> slash) (co_dev C) = []"
  defines "dirs \<equiv> sdk_go_module_dirs L d t services stubs gen"
  defines "targets \<equiv> target_dirs L d t dirs"
  obtains (nothing) "targets = []" and "t' = t"
  | (unknown) "targets \<noteq> []" and "chosen_pin L d t dirs prior (proxy_latest C) = None" and "t' = t" and "e = Some NotResolved"
  | (failed) chosen e' where "targets \<noteq> []" and "chosen_pin L d t dirs prior (proxy_latest C) = Some chosen"
      and "pin_each L d (pin_for chosen prior) targets t = (t', Some e')" and "e = Some e'"
  | (pinned) chosen where "targets \<noteq> []" and "chosen_pin L d t dirs prior (proxy_latest C) = Some chosen"
      and "pin_each L d (pin_for chosen prior) targets t = (t', None)"
      and "e = first_error (map (\<lambda>v. check_sdk_floor_against sv v (snd chosen)
                 (effective_sdk_floor sv (client_floor C) (console_floor C) (code_floors C)))
               (fst chosen # map (pin_for chosen prior) targets))"
proof (cases "targets = []")
  case True
  with r co have "t' = t" by (simp add: resolve_sdk_go_pins_at_def Let_def dirs_def targets_def)
  with True show ?thesis by (rule nothing)
next
  case False
  show ?thesis
  proof (cases "chosen_pin L d t dirs prior (proxy_latest C)")
    case None
    with r co False have "t' = t" "e = Some NotResolved"
      by (simp_all add: resolve_sdk_go_pins_at_def Let_def dirs_def targets_def)
    with None False show ?thesis by (intro unknown)
  next
    case (Some chosen)
    obtain t1 e1 where p: "pin_each L d (pin_for chosen prior) targets t = (t1, e1)"
      by (cases "pin_each L d (pin_for chosen prior) targets t")
    show ?thesis
    proof (cases e1)
      case None
      have "t' = t1" and "e = first_error (map (\<lambda>v. check_sdk_floor_against sv v (snd chosen)
                 (effective_sdk_floor sv (client_floor C) (console_floor C) (code_floors C)))
               (fst chosen # map (pin_for chosen prior) targets))"
        using r co False Some p None unfolding resolve_sdk_go_pins_at_def Let_def dirs_def [symmetric] targets_def [symmetric]
        by simp_all
      with p None show ?thesis by (intro pinned [OF False Some]) simp_all
    next
      case (Some e2)
      have "t' = t1" and "e = Some e2"
        using r co False \<open>chosen_pin L d t dirs prior (proxy_latest C) = Some chosen\<close> p Some
        unfolding resolve_sdk_go_pins_at_def Let_def dirs_def [symmetric] targets_def [symmetric]
        by simp_all
      with p Some show ?thesis by (intro failed [OF False \<open>chosen_pin _ _ _ _ _ _ = _\<close>]) simp_all
    qed
  qed
qed

lemma target_needs_pin: "dir \<in> set (target_dirs L d t dirs) \<longleftrightarrow> dir \<in> set dirs \<and> sdk_go_needs_pin L d t (go_mod_at dir) sdk_mod"
  by (auto simp: target_dirs_def)

lemma resolved_pin_real: "resolved_pin L d t dir = Some v \<Longrightarrow> v \<noteq> [] \<and> \<not> is_placeholder_version v"
  by (auto simp: resolved_pin_def Let_def split: if_splits)

lemma map_filter_hd:
  "(case List.map_filter f xs of [] \<Rightarrow> [] | v # _ \<Rightarrow> v) = v \<Longrightarrow> v \<noteq> [] \<Longrightarrow> \<exists>x \<in> set xs. f x = Some v"
  by (induction xs) (auto simp: List.map_filter_simps split: option.splits)

lemma sdk_version_real:
  "sdk_version_from_modules L d t dirs \<noteq> [] \<Longrightarrow> \<not> is_placeholder_version (sdk_version_from_modules L d t dirs)"
  using map_filter_hd [of "resolved_pin L d t" dirs] resolved_pin_real
  unfolding sdk_version_from_modules_def by blast

lemma prior_pin_known: "prior_pin prior targets \<noteq> [] \<Longrightarrow> \<exists>dir. map_of prior dir = Some (prior_pin prior targets)"
  using map_filter_hd [of "\<lambda>d. case map_of prior d of Some v \<Rightarrow> if v = [] then None else Some v | None \<Rightarrow> None" targets]
  unfolding prior_pin_def by (fastforce split: option.splits if_splits)

lemma pin_for_real:
  assumes "chosen_pin L d t dirs prior proxy = Some chosen"
    and "\<And>dir v. map_of prior dir = Some v \<Longrightarrow> \<not> is_placeholder_version v"
    and "\<And>v. proxy = Some v \<Longrightarrow> \<not> is_placeholder_version v"
  shows "\<not> is_placeholder_version (pin_for chosen prior dir)"
proof -
  have "\<not> is_placeholder_version (fst chosen)"
    using assms(1) sdk_version_real [of L d t dirs] prior_pin_known [of prior "target_dirs L d t dirs"] assms(2,3)
    by (auto simp: chosen_pin_def Let_def split: if_splits)
  with assms(2) show ?thesis by (auto simp: pin_for_def split: option.split)
qed

section \<open>After a generation nothing is left on the placeholder\<close>

definition below_floor :: "pin_error option \<Rightarrow> bool" where
  "below_floor e \<longleftrightarrow> (case e of Some (BelowFloor _ _ _ _) \<Rightarrow> True | _ \<Rightarrow> False)"

lemma pin_each_error: "pin_each L d ver dirs t = (t', Some e) \<Longrightarrow> \<exists>dir. e = PinFailed dir"
  by (induction dirs arbitrary: t) (auto split: prod.splits bool.splits)

text \<open>Without \<^verbatim>\<open>--sdk-version\<close>, a pinning that ends without an error, or only refuses the version
  as below the floor, leaves no module of the project on the placeholder, and it has written nothing but
  the module files that were on it.\<close>

theorem pinning_leaves_no_placeholder:
  assumes L: "mod_laws L" and R: "unreadable d = (\<lambda>_ _. False)"
    and r: "resolve_sdk_go_pins_at L sv d C services stubs gen prior [] t = (t', e)"
    and co: "filter (\<lambda>c. c \<noteq> slash) (co_dev C) = []"
    and e: "e = None \<or> below_floor e"
    and prior: "\<And>dir v. map_of prior dir = Some v \<Longrightarrow> \<not> is_placeholder_version v"
    and proxy: "\<And>v. proxy_latest C = Some v \<Longrightarrow> \<not> is_placeholder_version v"
  shows "(\<forall>dir \<in> set (sdk_go_module_dirs L d t services stubs gen).
            \<not> sdk_go_needs_pin L d t' (go_mod_at dir) sdk_mod) \<and>
         same_but {go_mod_at dir | dir. dir \<in> set (sdk_go_module_dirs L d t services stubs gen) \<and>
                     sdk_go_needs_pin L d t (go_mod_at dir) sdk_mod} t t'"
proof -
  let ?dirs = "sdk_go_module_dirs L d t services stubs gen"
  have image: "go_mod_at ` set (target_dirs L d t ?dirs) =
      {go_mod_at dir | dir. dir \<in> set ?dirs \<and> sdk_go_needs_pin L d t (go_mod_at dir) sdk_mod}"
    by (auto simp: target_needs_pin)
  show ?thesis
    using r co
  proof (cases rule: resolve_cases)
    case nothing
    then show ?thesis using target_needs_pin [of _ L d t ?dirs] by auto
  next
    case unknown
    with e show ?thesis by (simp add: below_floor_def)
  next
    case (failed chosen e')
    with e pin_each_error [OF failed(3)] show ?thesis by (auto simp: below_floor_def)
  next
    case (pinned chosen)
    note same = pin_each_same_but [OF pinned(3)]
    have "\<not> sdk_go_needs_pin L d t' (go_mod_at dir) sdk_mod" if "dir \<in> set ?dirs" for dir
    proof (cases "go_mod_at dir \<in> go_mod_at ` set (target_dirs L d t ?dirs)")
      case True
      from pin_each_pins [OF L R pinned(3) True] obtain dir' m where
        "read_mod L d t' (go_mod_at dir) = Some m" "map_of (mod_requires L m) sdk_mod = Some (pin_for chosen prior dir')"
        by blast
      moreover have "\<not> is_placeholder_version (pin_for chosen prior dir')"
        by (rule pin_for_real [OF pinned(2) prior proxy])
      ultimately show ?thesis by (simp add: sdk_go_needs_pin_def)
    next
      case False
      then have "\<not> sdk_go_needs_pin L d t (go_mod_at dir) sdk_mod" using that by (auto simp: target_needs_pin)
      then show ?thesis using same_butD [OF same False] by (simp add: sdk_go_needs_pin_def read_mod_node [OF R])
    qed
    with same image show ?thesis by auto
  qed
qed

definition pin_mods :: mod_table where
  "pin_mods =
     [(''fresh'', [(sdk_mod, ''v0.0.0'')], []),
      (''own'', [(sdk_mod, ''v1.2.0''), (''example.com/b'', ''v1.0.0'')], []),
      (''pinned'', [(sdk_mod, ''v1.2.0'')], [])]"

definition pin_tree :: tree where
  "pin_tree = [([''srcgo''], Dir), ([''srcgo'', ''go.mod''], File ''own''), ([''w17''], Dir),
     ([''w17'', ''services''], Dir), ([''w17'', ''services'', ''a''], Dir),
     ([''w17'', ''services'', ''a'', ''go.mod''], File ''fresh'')]"

definition pin_case :: pin_context where
  "pin_case = \<lparr>co_dev = [], client_floor = [], console_floor = [], code_floors = [], proxy_latest = None\<rparr>"

definition byte_versions :: semver where
  "byte_versions = \<lparr>sv_valid = prefix ''v'', sv_compare = order_sign\<rparr>"

lemma pin_mods_laws: "mod_laws (table_lib pin_mods)"
  by (rule table_lib_laws) (simp add: pin_mods_def)

theorem pinning_leaves_no_placeholder_witness:
  "sdk_go_needs_pin (table_lib pin_mods) healthy_disk pin_tree (go_mod_at ''w17/services/a'') sdk_mod \<and>
   \<not> sdk_go_needs_pin (table_lib pin_mods) healthy_disk (put [''w17'', ''services'', ''a'', ''go.mod''] (File ''pinned'') pin_tree)
        (go_mod_at ''w17/services/a'') sdk_mod"
proof -
  have r: "resolve_sdk_go_pins_at (table_lib pin_mods) byte_versions healthy_disk pin_case
      ''w17/services'' ''w17/stubs'' ''srcgo'' [] [] pin_tree
    = (put [''w17'', ''services'', ''a'', ''go.mod''] (File ''pinned'') pin_tree, None)"
    by code_simp
  have d: "''w17/services/a'' \<in> set (sdk_go_module_dirs (table_lib pin_mods) healthy_disk pin_tree
      ''w17/services'' ''w17/stubs'' ''srcgo'')"
    by code_simp
  have "sdk_go_needs_pin (table_lib pin_mods) healthy_disk pin_tree (go_mod_at ''w17/services/a'') sdk_mod"
    by code_simp
  moreover have "\<not> sdk_go_needs_pin (table_lib pin_mods) healthy_disk
      (put [''w17'', ''services'', ''a'', ''go.mod''] (File ''pinned'') pin_tree) (go_mod_at ''w17/services/a'') sdk_mod"
    using pinning_leaves_no_placeholder [OF pin_mods_laws _ r] d by (simp add: healthy_disk_def pin_case_def)
  ultimately show ?thesis by simp
qed

section \<open>The floor is met\<close>

definition declared_floors :: "pin_context \<Rightarrow> string list" where
  "declared_floors C = client_floor C # console_floor C # map fst (code_floors C)"

lemma raise_floor_highest:
  assumes c: "comparison (sv_compare sv)" and w: "w = fst floor \<or> w = fst x" and v: "sv_valid sv w"
  shows "sv_valid sv (fst (raise_floor sv x floor)) \<and> sv_compare sv w (fst (raise_floor sv x floor)) \<le> 0"
proof -
  have "sv_compare sv a a \<le> 0" for a using comparison.cmp_refl [OF c, of a] by simp
  moreover have "sv_compare sv a b \<le> 0" if "0 < sv_compare sv b a" for a b
    using that comparison.cmp_total [OF c, of a b] by linarith
  ultimately show ?thesis using w v by (auto simp: raise_floor_def)
qed

lemma fold_floor_highest:
  assumes c: "comparison (sv_compare sv)"
  shows "w = fst floor \<or> w \<in> fst ` set xs \<Longrightarrow> sv_valid sv w \<Longrightarrow>
     sv_valid sv (fst (fold (raise_floor sv) xs floor)) \<and> sv_compare sv w (fst (fold (raise_floor sv) xs floor)) \<le> 0"
proof (induction xs arbitrary: w floor)
  case Nil
  then show ?case using comparison.cmp_refl [OF c, of w] by auto
next
  case (Cons x xs)
  show ?case
  proof (cases "w = fst floor \<or> w = fst x")
    case True
    from raise_floor_highest [OF c True Cons.prems(2)]
    have v: "sv_valid sv (fst (raise_floor sv x floor))" and l: "sv_compare sv w (fst (raise_floor sv x floor)) \<le> 0"
      by simp_all
    from Cons.IH [of "fst (raise_floor sv x floor)" "raise_floor sv x floor"] v
    have "sv_valid sv (fst (fold (raise_floor sv) xs (raise_floor sv x floor)))"
      and "sv_compare sv (fst (raise_floor sv x floor)) (fst (fold (raise_floor sv) xs (raise_floor sv x floor))) \<le> 0"
      by simp_all
    with comparison.cmp_trans [OF c l] show ?thesis by simp
  next
    case False
    with Cons.prems have "w \<in> fst ` set xs" by auto
    with Cons.IH [of w "raise_floor sv x floor"] Cons.prems(2) show ?thesis by simp
  qed
qed

lemma effective_floor_highest:
  assumes "comparison (sv_compare sv)" and "w \<in> set (declared_floors C)" and "sv_valid sv w"
  shows "sv_valid sv (fst (effective_sdk_floor sv (client_floor C) (console_floor C) (code_floors C))) \<and>
     sv_compare sv w (fst (effective_sdk_floor sv (client_floor C) (console_floor C) (code_floors C))) \<le> 0"
  unfolding effective_sdk_floor_def
  by (rule fold_floor_highest [OF assms(1) _ assms(3)]) (use assms(2) in \<open>auto simp: declared_floors_def image_image split_def\<close>)

lemma check_passes:
  assumes c: "comparison (sv_compare sv)" and none: "check_sdk_floor_against sv v h floor = None"
    and "sv_valid sv v" and "sv_valid sv (fst floor)" and "\<not> sv_valid sv []" and le: "sv_compare sv w (fst floor) \<le> 0"
  shows "sv_compare sv w v \<le> 0"
proof -
  have "fst floor \<noteq> []" and "v \<noteq> []" using assms by auto
  with none assms(3,4) have "0 \<le> sv_compare sv v (fst floor)"
    by (simp add: check_sdk_floor_against_def split: if_splits)
  then have "sv_compare sv (fst floor) v \<le> 0" using comparison.cmp_sym [OF c, of v "fst floor"] by linarith
  with comparison.cmp_trans [OF c le] show ?thesis by simp
qed

lemma first_error_None: "first_error es = None \<longleftrightarrow> (\<forall>e \<in> set es. e = None)"
  by (induction es rule: first_error.induct) auto

text \<open>What \<^verbatim>\<open>--sdk-version\<close> leaves at a module file: the version asked for, or what was there, and then not the
  placeholder when it is the file of a module it went over.\<close>

lemma pin_override_pins:
  assumes L: "mod_laws L" and R: "unreadable d = (\<lambda>_ _. False)"
  shows "pin_override L d services stubs ver dirs t = (t', None) \<Longrightarrow>
     (node_at t' p = node_at t p \<and> (p \<in> go_mod_at ` set dirs \<longrightarrow> \<not> sdk_go_needs_pin L d t p sdk_mod)) \<or>
     (\<exists>m. read_mod L d t' p = Some m \<and> map_of (mod_requires L m) sdk_mod = Some ver)"
proof (induction dirs arbitrary: t)
  case (Cons dir dirs)
  let ?p = "go_mod_at dir"
  show ?case
  proof (cases "pin_override L d services stubs ver dirs t = (t', None) \<and> \<not> sdk_go_needs_pin L d t ?p sdk_mod")
    case True
    with Cons.IH [of t] show ?thesis by auto
  next
    case False
    have "sdk_go_replaced L d t ?p sdk_mod \<Longrightarrow> \<not> sdk_go_needs_pin L d t ?p sdk_mod"
      by (auto simp: sdk_go_replaced_def sdk_go_needs_pin_def split: option.splits)
    with False Cons.prems obtain t1 where w: "write_sdk_pin L d dir ver t = (t1, True)"
      and rest: "pin_override L d services stubs ver dirs t1 = (t', None)"
      by (cases "write_sdk_pin L d dir ver t") (auto simp: Let_def split: if_splits bool.splits)
    note IH = Cons.IH [OF rest]
    show ?thesis
    proof (cases "p = ?p")
      case True
      from write_sdk_pin_says [OF L w] obtain f' m where
        "node_at t1 p = Some (File f')" "mod_parse L f' = Some m" "map_of (mod_requires L m) sdk_mod = Some ver"
        by (auto simp: True)
      then have "read_mod L d t1 p = Some m" by (simp add: read_mod_node [OF R])
      with IH \<open>map_of (mod_requires L m) sdk_mod = Some ver\<close> show ?thesis by (auto simp: read_mod_node [OF R])
    next
      case False
      then have "node_at t1 p = node_at t p" using same_butD [OF write_sdk_pin_same_but [OF w]] by simp
      moreover from this have "sdk_go_needs_pin L d t1 p sdk_mod = sdk_go_needs_pin L d t p sdk_mod"
        by (simp add: sdk_go_needs_pin_def read_mod_node [OF R])
      ultimately show ?thesis using IH False by auto
    qed
  qed
qed simp

text \<open>C34: outside co-development, when the pinning succeeds, with \<^verbatim>\<open>--sdk-version\<close> or without, every module whose
  \<^verbatim>\<open>go.mod\<close> it changed and every module that was on the placeholder requires a version no older than any floor
  that the client, the console or the generated code declares, as far as the versions are valid ones.\<close>

theorem pinned_modules_meet_every_floor:
  assumes L: "mod_laws L" and R: "unreadable d = (\<lambda>_ _. False)"
    and cmp: "comparison (sv_compare sv)" and nil: "\<not> sv_valid sv []"
    and r: "resolve_sdk_go_pins_at L sv d C services stubs gen prior override t = (t', None)"
    and co: "filter (\<lambda>c. c \<noteq> slash) (co_dev C) = []"
    and dir: "node_at t' (go_mod_at dir) \<noteq> node_at t (go_mod_at dir) \<or>
      dir \<in> set (sdk_go_module_dirs L d t services stubs gen) \<and> sdk_go_needs_pin L d t (go_mod_at dir) sdk_mod"
    and w: "w \<in> set (declared_floors C)" "sv_valid sv w"
    and v: "sv_valid sv (sdk_go_required_version L d t' (go_mod_at dir) sdk_mod)"
  shows "sv_compare sv w (sdk_go_required_version L d t' (go_mod_at dir) sdk_mod) \<le> 0"
proof -
  let ?dirs = "sdk_go_module_dirs L d t services stubs gen"
  let ?targets = "target_dirs L d t ?dirs"
  let ?floor = "effective_sdk_floor sv (client_floor C) (console_floor C) (code_floors C)"
  have done': ?thesis if "read_mod L d t' (go_mod_at dir) = Some m" "map_of (mod_requires L m) sdk_mod = Some ver"
    "check_sdk_floor_against sv ver h ?floor = None" for m ver h
  proof -
    have "sdk_go_required_version L d t' (go_mod_at dir) sdk_mod = ver"
      using that(1,2) by (simp add: sdk_go_required_version_def required_version_def)
    with check_passes [OF cmp that(3)] v effective_floor_highest [OF cmp w] nil show ?thesis by simp
  qed
  show ?thesis
  proof (cases "override = []")
    case False
    with r co have p: "pin_override L d services stubs override ?dirs t = (t', None)"
      and c: "check_sdk_floor_against sv override OverrideFlag ?floor = None"
      by (auto simp: resolve_sdk_go_pins_at_def Let_def split: prod.splits option.splits)
    from pin_override_pins [OF L R p, of "go_mod_at dir"] dir obtain m where
      "read_mod L d t' (go_mod_at dir) = Some m" "map_of (mod_requires L m) sdk_mod = Some override" by auto
    from done' [OF this c] show ?thesis .
  next
    case True
    from r [unfolded True] co show ?thesis
    proof (cases rule: resolve_cases)
      case nothing
      with dir show ?thesis by (auto simp: target_needs_pin filter_empty_conv target_dirs_def)
    next
      case (pinned chosen)
      have "go_mod_at dir \<in> go_mod_at ` set ?targets"
      proof (rule ccontr)
        assume no: "go_mod_at dir \<notin> go_mod_at ` set ?targets"
        from same_butD [OF pin_each_same_but [OF pinned(3)] no] dir have "dir \<in> set ?targets"
          by (simp add: target_needs_pin)
        with no show False by blast
      qed
      from pin_each_pins [OF L R pinned(3) this] obtain dir' m where m:
        "dir' \<in> set ?targets" "read_mod L d t' (go_mod_at dir) = Some m"
        "map_of (mod_requires L m) sdk_mod = Some (pin_for chosen prior dir')" by blast
      have "check_sdk_floor_against sv (pin_for chosen prior dir') (snd chosen) ?floor = None"
        using pinned(4) [symmetric] m(1) unfolding first_error_None by simp
      from done' [OF m(2,3) this] show ?thesis .
    qed simp_all
  qed
qed

definition floor_case :: pin_context where
  "floor_case = pin_case\<lparr>client_floor := ''v1.1.0'', code_floors := [(''v1.2.0'', ''plugin x'')]\<rparr>"

lemma byte_versions_compare: "comparison (sv_compare byte_versions)"
  using comparison_order_sign [of "\<lambda>x::string. x"] by (simp add: byte_versions_def)

theorem pinned_modules_meet_every_floor_witness:
  "sv_compare byte_versions ''v1.2.0'' (sdk_go_required_version (table_lib pin_mods) healthy_disk
     (put [''w17'', ''services'', ''a'', ''go.mod''] (File ''pinned'') pin_tree) (go_mod_at ''w17/services/a'') sdk_mod) \<le> 0"
proof (rule pinned_modules_meet_every_floor
    [OF pin_mods_laws _ byte_versions_compare, of healthy_disk floor_case "''w17/services''" "''w17/stubs''" "''srcgo''"
       "[]" "[]" pin_tree _ "''w17/services/a''"])
  show "resolve_sdk_go_pins_at (table_lib pin_mods) byte_versions healthy_disk floor_case
      ''w17/services'' ''w17/stubs'' ''srcgo'' [] [] pin_tree
    = (put [''w17'', ''services'', ''a'', ''go.mod''] (File ''pinned'') pin_tree, None)"
    by code_simp
  have "''w17/services/a'' \<in> set (sdk_go_module_dirs (table_lib pin_mods) healthy_disk pin_tree
      ''w17/services'' ''w17/stubs'' ''srcgo'')"
    by code_simp
  moreover have "sdk_go_needs_pin (table_lib pin_mods) healthy_disk pin_tree (go_mod_at ''w17/services/a'') sdk_mod"
    by code_simp
  ultimately show "node_at (put [''w17'', ''services'', ''a'', ''go.mod''] (File ''pinned'') pin_tree) (go_mod_at ''w17/services/a'')
      \<noteq> node_at pin_tree (go_mod_at ''w17/services/a'') \<or>
    ''w17/services/a'' \<in> set (sdk_go_module_dirs (table_lib pin_mods) healthy_disk pin_tree
      ''w17/services'' ''w17/stubs'' ''srcgo'') \<and>
    sdk_go_needs_pin (table_lib pin_mods) healthy_disk pin_tree (go_mod_at ''w17/services/a'') sdk_mod"
    by blast
  show "sv_valid byte_versions (sdk_go_required_version (table_lib pin_mods) healthy_disk
     (put [''w17'', ''services'', ''a'', ''go.mod''] (File ''pinned'') pin_tree) (go_mod_at ''w17/services/a'') sdk_mod)"
    by code_simp
qed (simp_all add: healthy_disk_def byte_versions_def floor_case_def pin_case_def declared_floors_def)

text \<open>A project with one resolved module gives its version to every module on the placeholder, also to
  one that had a pin of its own before the run.\<close>

theorem project_version_overrides_a_prior_pin:
  assumes L: "mod_laws L" and R: "unreadable d = (\<lambda>_ _. False)"
    and r: "resolve_sdk_go_pins_at L sv d C services stubs gen prior [] t = (t', e)"
    and co: "filter (\<lambda>c. c \<noteq> slash) (co_dev C) = []" and e: "e = None \<or> below_floor e"
    and dir: "dir \<in> set (sdk_go_module_dirs L d t services stubs gen)" "sdk_go_needs_pin L d t (go_mod_at dir) sdk_mod"
    and known: "sdk_version_from_modules L d t (sdk_go_module_dirs L d t services stubs gen) \<noteq> []"
  shows "sdk_go_required_version L d t' (go_mod_at dir) sdk_mod =
           sdk_version_from_modules L d t (sdk_go_module_dirs L d t services stubs gen)"
proof -
  let ?dirs = "sdk_go_module_dirs L d t services stubs gen"
  have target: "dir \<in> set (target_dirs L d t ?dirs)" using dir by (simp add: target_needs_pin)
  have chosen: "chosen_pin L d t ?dirs prior (proxy_latest C) = Some (sdk_version_from_modules L d t ?dirs, FromProject)"
    using known by (simp add: chosen_pin_def Let_def)
  show ?thesis
    using r co
  proof (cases rule: resolve_cases)
    case nothing
    with target show ?thesis by simp
  next
    case unknown
    with chosen show ?thesis by simp
  next
    case (failed c e')
    with e pin_each_error [OF failed(3)] show ?thesis by (auto simp: below_floor_def)
  next
    case (pinned c)
    have "go_mod_at dir \<in> go_mod_at ` set (target_dirs L d t ?dirs)" using target by simp
    from pin_each_pins [OF L R pinned(3) this] obtain dir' m where m: "read_mod L d t' (go_mod_at dir) = Some m"
      "map_of (mod_requires L m) sdk_mod = Some (pin_for c prior dir')" by blast
    have "pin_for c prior dir' = sdk_version_from_modules L d t ?dirs"
      using pinned(2) chosen by (auto simp: pin_for_def split: option.split)
    with m show ?thesis by (simp add: sdk_go_required_version_def required_version_def)
  qed
qed

theorem project_version_overrides_a_prior_pin_witness:
  "sdk_go_required_version (table_lib pin_mods) healthy_disk
     (put [''w17'', ''services'', ''a'', ''go.mod''] (File ''pinned'') pin_tree) (go_mod_at ''w17/services/a'') sdk_mod = ''v1.2.0''"
proof -
  have r: "resolve_sdk_go_pins_at (table_lib pin_mods) byte_versions healthy_disk pin_case
      ''w17/services'' ''w17/stubs'' ''srcgo'' [(''w17/services/a'', ''v1.0.0'')] [] pin_tree
    = (put [''w17'', ''services'', ''a'', ''go.mod''] (File ''pinned'') pin_tree, None)"
    by code_simp
  have d: "''w17/services/a'' \<in> set (sdk_go_module_dirs (table_lib pin_mods) healthy_disk pin_tree
      ''w17/services'' ''w17/stubs'' ''srcgo'')"
    "sdk_go_needs_pin (table_lib pin_mods) healthy_disk pin_tree (go_mod_at ''w17/services/a'') sdk_mod"
    by code_simp+
  have v: "sdk_version_from_modules (table_lib pin_mods) healthy_disk pin_tree
     (sdk_go_module_dirs (table_lib pin_mods) healthy_disk pin_tree ''w17/services'' ''w17/stubs'' ''srcgo'') = ''v1.2.0''"
    by code_simp
  show ?thesis
    using project_version_overrides_a_prior_pin [OF pin_mods_laws _ r _ _ d] v
    by (simp add: healthy_disk_def pin_case_def)
qed

section \<open>The workspace\<close>

text \<open>\<^verbatim>\<open>modfile.WorkFile\<close>: the directories it uses. \<^verbatim>\<open>AddUse\<close> of a directory that is not used appends
  it, \<^verbatim>\<open>DropUse\<close> removes every use of one.\<close>

record 'w worklib =
  work_parse :: "string \<Rightarrow> 'w option"
  work_uses :: "'w \<Rightarrow> string list"
  add_use :: "string \<Rightarrow> 'w \<Rightarrow> 'w option"
  drop_use :: "string \<Rightarrow> 'w \<Rightarrow> 'w option"
  work_format :: "'w \<Rightarrow> string"

definition work_laws :: "'w worklib \<Rightarrow> bool" where
  "work_laws W \<longleftrightarrow>
     (\<forall>w. \<exists>w'. work_parse W (work_format W w) = Some w' \<and> work_uses W w' = work_uses W w) \<and>
     (\<forall>u w w'. add_use W u w = Some w' \<longrightarrow> set (work_uses W w') = insert u (set (work_uses W w))) \<and>
     (\<forall>u w w'. drop_use W u w = Some w' \<longrightarrow> set (work_uses W w') = set (work_uses W w) - {u})"

fun each_use :: "(string \<Rightarrow> 'w \<Rightarrow> 'w option) \<Rightarrow> string list \<Rightarrow> 'w \<Rightarrow> 'w option" where
  "each_use f [] w = Some w"
| "each_use f (u # us) w = (case f u w of None \<Rightarrow> None | Some w' \<Rightarrow> each_use f us w')"

definition go_work :: path where
  "go_work = [''go.work'']"

definition generated_modules :: "disk \<Rightarrow> tree \<Rightarrow> string \<Rightarrow> string \<Rightarrow> string list" where
  "generated_modules d t services stubs =
     map (\<lambda>m. ''./'' @ m) (service_modules d t services @
       (if stubs \<noteq> [] \<and> exists_at t (go_mod_at stubs) then [stubs] else []))"

definition stale_uses :: "string \<Rightarrow> string list \<Rightarrow> string list \<Rightarrow> string list" where
  "stale_uses services mods uses =
     (if services = [] then []
      else filter (\<lambda>u. prefix (''./'' @ services @ ''/'') u \<and> u \<notin> set mods) uses)"

datatype work_error = ParseWork | AddUse | DropUse | WriteWork

definition sync_go_work ::
    "'w worklib \<Rightarrow> disk \<Rightarrow> string \<Rightarrow> string \<Rightarrow> tree \<Rightarrow> tree \<times> work_error option" where
  "sync_go_work W d services stubs t =
     (case read_file d t go_work of
        Bytes b \<Rightarrow>
          (let mods = generated_modules d t services stubs
           in if mods = [] then (t, None)
              else case work_parse W b of
                None \<Rightarrow> (t, Some ParseWork)
              | Some w \<Rightarrow>
                  (let add = dedup_seen (work_uses W w) mods
                   in case each_use (add_use W) add w of
                        None \<Rightarrow> (t, Some AddUse)
                      | Some w1 \<Rightarrow>
                          (let stale = stale_uses services mods (work_uses W w1)
                           in case each_use (drop_use W) stale w1 of
                                None \<Rightarrow> (t, Some DropUse)
                              | Some w2 \<Rightarrow>
                                  if add = [] \<and> stale = [] then (t, None)
                                  else (case write_file d go_work (work_format W w2) t of
                                          (t', True) \<Rightarrow> (t', None)
                                        | (t', False) \<Rightarrow> (t', Some WriteWork)))))
      | _ \<Rightarrow> (t, None))"

lemma each_use_add:
  "work_laws W \<Longrightarrow> each_use (add_use W) us w = Some w' \<Longrightarrow> set (work_uses W w') = set us \<union> set (work_uses W w)"
proof (induction us arbitrary: w)
  case (Cons u us)
  then obtain w1 where "add_use W u w = Some w1" "each_use (add_use W) us w1 = Some w'" by (auto split: option.splits)
  with Cons.IH [OF Cons.prems(1)] Cons.prems(1) show ?case by (auto simp: work_laws_def)
qed simp

lemma each_use_drop:
  "work_laws W \<Longrightarrow> each_use (drop_use W) us w = Some w' \<Longrightarrow> set (work_uses W w') = set (work_uses W w) - set us"
proof (induction us arbitrary: w)
  case (Cons u us)
  then obtain w1 where "drop_use W u w = Some w1" "each_use (drop_use W) us w1 = Some w'" by (auto split: option.splits)
  with Cons.IH [OF Cons.prems(1)] Cons.prems(1) show ?case by (auto simp: work_laws_def)
qed simp

text \<open>A workspace that is synchronised uses every generated module and, of what it used before, loses
  exactly the modules below the services directory that are no longer generated; nothing but \<^verbatim>\<open>go.work\<close>
  is written.\<close>

theorem workspace_follows_the_generated_modules:
  assumes W: "work_laws W" and R: "unreadable d = (\<lambda>_ _. False)"
    and b: "read_file d t go_work = Bytes b" and p: "work_parse W b = Some w"
    and mods: "generated_modules d t services stubs \<noteq> []"
    and s: "sync_go_work W d services stubs t = (t', None)"
  shows "same_but {go_work} t t' \<and>
    (\<exists>b' w'. read_file d t' go_work = Bytes b' \<and> work_parse W b' = Some w' \<and>
       set (work_uses W w') = set (generated_modules d t services stubs) \<union>
         {u \<in> set (work_uses W w). \<not> (services \<noteq> [] \<and> prefix (''./'' @ services @ ''/'') u)})"
proof -
  let ?mods = "generated_modules d t services stubs"
  let ?add = "dedup_seen (work_uses W w) ?mods"
  obtain w1 where w1: "each_use (add_use W) ?add w = Some w1"
    using s b p mods by (auto simp: sync_go_work_def Let_def split: option.splits)
  let ?stale = "stale_uses services ?mods (work_uses W w1)"
  obtain w2 where w2: "each_use (drop_use W) ?stale w1 = Some w2"
    using s b p mods w1 by (auto simp: sync_go_work_def Let_def split: option.splits)
  have u1: "set (work_uses W w1) = set ?mods \<union> set (work_uses W w)"
    using each_use_add [OF W w1] by (auto simp: dedup_seen_set)
  have u2: "set (work_uses W w2) = set ?mods \<union>
      {u \<in> set (work_uses W w). \<not> (services \<noteq> [] \<and> prefix (''./'' @ services @ ''/'') u)}"
    using each_use_drop [OF W w2] u1 by (auto simp: stale_uses_def)
  show ?thesis
  proof (cases "?add = [] \<and> ?stale = []")
    case True
    then have "t' = t" and "w2 = w" using s b p mods w1 w2 by (auto simp: sync_go_work_def Let_def)
    with b p u2 show ?thesis by auto
  next
    case False
    then have wr: "write_file d go_work (work_format W w2) t = (t', True)"
      using s b p mods w1 w2 by (auto simp: sync_go_work_def Let_def split: prod.splits bool.splits)
    have "read_file d t' go_work = Bytes (work_format W w2)"
      using write_file_ok [OF wr] R by (simp add: read_file_def)
    moreover have "\<exists>w'. work_parse W (work_format W w2) = Some w' \<and> work_uses W w' = work_uses W w2"
      using W unfolding work_laws_def by blast
    ultimately show ?thesis using write_file_same_but [OF wr] u2 by auto
  qed
qed

text \<open>A workspace file with one directory a line.\<close>

definition line_work :: "string worklib" where
  "line_work = \<lparr>work_parse = Some, work_uses = (\<lambda>w. filter (\<lambda>l. l \<noteq> []) (split_on nl w)),
     add_use = (\<lambda>u w. if u = [] \<or> nl \<in> set u then None else Some (w @ nl # u)),
     drop_use = (\<lambda>u w. Some (join_with [nl] (filter (\<lambda>l. l \<noteq> u) (split_on nl w)))),
     work_format = (\<lambda>w. w)\<rparr>"

lemma line_work_laws: "work_laws line_work"
proof -
  have "set (filter (\<lambda>l. l \<noteq> []) (split_on nl (join_with [nl] (filter (\<lambda>l. l \<noteq> u) (split_on nl w)))))
      = set (filter (\<lambda>l. l \<noteq> []) (split_on nl w)) - {u}" for u w
  proof (cases "filter (\<lambda>l. l \<noteq> u) (split_on nl w) = []")
    case True
    have "set (split_on nl w) - {u} = set (filter (\<lambda>l. l \<noteq> u) (split_on nl w))" by auto
    then have "set (split_on nl w) - {u} = {}" by (simp only: True list.set)
    then have "set (filter (\<lambda>l. l \<noteq> []) (split_on nl w)) - {u} = {}" by auto
    then show ?thesis by (simp only: True) simp
  next
    case False
    have "split_on nl (join_with [nl] (filter (\<lambda>l. l \<noteq> u) (split_on nl w))) = filter (\<lambda>l. l \<noteq> u) (split_on nl w)"
      by (rule split_join) (use False split_on_parts in auto)
    then show ?thesis by auto
  qed
  then have drop: "set (work_uses line_work w') = set (work_uses line_work w) - {u}"
    if "drop_use line_work u w = Some w'" for u w w'
    using that by (auto simp: line_work_def)
  have add: "set (work_uses line_work w') = insert u (set (work_uses line_work w))"
    if "add_use line_work u w = Some w'" for u w w'
  proof -
    from that have u: "u \<noteq> []" "nl \<notin> set u" and w': "w' = w @ nl # u" by (auto simp: line_work_def split: if_splits)
    then have "split_on nl w' = split_on nl w @ [u]" by (simp only: split_on_append split_on_no_sep [OF u(2)])
    with u show ?thesis by (simp add: line_work_def)
  qed
  have "\<exists>w'. work_parse line_work (work_format line_work w) = Some w' \<and> work_uses line_work w' = work_uses line_work w"
    for w by (simp add: line_work_def)
  then show ?thesis unfolding work_laws_def using add drop by blast
qed

definition work_tree :: tree where
  "work_tree = put go_work (File (''./srcgo'' @ nl # ''./w17/services/old'')) pin_tree"

theorem workspace_follows_the_generated_modules_witness:
  "\<exists>t'. sync_go_work line_work healthy_disk ''w17/services'' ''w17/stubs'' work_tree = (t', None) \<and>
    same_but {go_work} work_tree t' \<and>
    (\<exists>b' w'. read_file healthy_disk t' go_work = Bytes b' \<and> work_parse line_work b' = Some w' \<and>
       set (work_uses line_work w') =
         set (generated_modules healthy_disk work_tree ''w17/services'' ''w17/stubs'') \<union>
         {u \<in> set (work_uses line_work (''./srcgo'' @ nl # ''./w17/services/old'')).
            \<not> (''w17/services'' \<noteq> [] \<and> prefix (''./'' @ ''w17/services'' @ ''/'') u)})"
proof -
  have "snd (sync_go_work line_work healthy_disk ''w17/services'' ''w17/stubs'' work_tree) = None"
    by code_simp
  then obtain t' where s: "sync_go_work line_work healthy_disk ''w17/services'' ''w17/stubs'' work_tree = (t', None)"
    by (metis prod.collapse)
  have m: "generated_modules healthy_disk work_tree ''w17/services'' ''w17/stubs'' \<noteq> []" by code_simp
  have b: "read_file healthy_disk work_tree go_work = Bytes (''./srcgo'' @ nl # ''./w17/services/old'')" by code_simp
  have h: "unreadable healthy_disk = (\<lambda>_ _. False)" by (simp add: healthy_disk_def)
  have p: "work_parse line_work b = Some b" for b by (simp add: line_work_def)
  show ?thesis
    by (rule exI [of _ t'], rule conjI [OF s], rule workspace_follows_the_generated_modules [OF line_work_laws h b p m s])
qed

end
