(* ===== verification/Words.thy ===== *)
theory Words
  imports Prelude
begin

text \<open>
  Words separated by white space, as \<^verbatim>\<open>strings.Fields\<close> finds them, and what trimming does to texts that
  begin and end in printable ASCII.
\<close>

section \<open>Fields\<close>

text \<open>\<^verbatim>\<open>strings.Fields\<close>.\<close>

fun split_spaces :: "nat \<Rightarrow> string \<Rightarrow> string list" where
  "split_spaces k [] = [[]]"
| "split_spaces (Suc k) (c # cs) = split_spaces k cs"
| "split_spaces 0 (c # cs) =
     (case find (\<lambda>e. prefix e (c # cs)) space_encodings of
        Some e \<Rightarrow> [] # split_spaces (length e - 1) cs
      | None \<Rightarrow> (case split_spaces 0 cs of [] \<Rightarrow> [[c]] | w # ws \<Rightarrow> (c # w) # ws))"

definition fields_of :: "string \<Rightarrow> string list" where
  "fields_of s = filter (\<lambda>w. w \<noteq> []) (split_spaces 0 s)"

section \<open>Words of a line\<close>

definition plain_char :: "char \<Rightarrow> bool" where
  "plain_char c \<longleftrightarrow> 33 \<le> (of_char c :: nat) \<and> (of_char c :: nat) < 127"

definition plain_word :: "string \<Rightarrow> bool" where
  "plain_word w \<longleftrightarrow> w \<noteq> [] \<and> list_all plain_char w"

lemma plain_not_space: "plain_char c \<Longrightarrow> e \<in> set space_encodings \<Longrightarrow> c \<notin> set e"
proof -
  have "list_all (list_all (\<lambda>c. \<not> plain_char c)) space_encodings" by code_simp
  then show "plain_char c \<Longrightarrow> e \<in> set space_encodings \<Longrightarrow> c \<notin> set e" by (auto simp: list_all_iff)
qed

lemma encodings_ne: "e \<in> set space_encodings \<Longrightarrow> e \<noteq> []"
proof -
  have "list_all (\<lambda>e. e \<noteq> []) space_encodings" by code_simp
  then show "e \<in> set space_encodings \<Longrightarrow> e \<noteq> []" by (simp add: list_all_iff)
qed

lemma no_space_here: "plain_char c \<Longrightarrow> find (\<lambda>e. prefix e (c # cs)) space_encodings = None"
  using plain_not_space encodings_ne by (fastforce simp: find_None_iff prefix_Cons)

lemma split_spaces_word:
  "list_all plain_char w \<Longrightarrow> split_spaces 0 (w @ CHR 0x20 # s) = w # split_spaces 0 s"
proof (induction w)
  case Nil
  have "find (\<lambda>e. prefix e (CHR 0x20 # s)) space_encodings = Some [CHR 0x20]" by (simp add: space_encodings_def)
  then show ?case by simp
qed (simp add: no_space_here)

lemma split_spaces_last: "list_all plain_char w \<Longrightarrow> split_spaces 0 w = [w]"
  by (induction w) (simp_all add: no_space_here)

lemma fields_word: "plain_word w \<Longrightarrow> fields_of (w @ CHR 0x20 # s) = w # fields_of s"
  by (simp add: fields_of_def plain_word_def split_spaces_word)

lemma fields_last: "plain_word w \<Longrightarrow> fields_of w = [w]"
  by (simp add: fields_of_def plain_word_def split_spaces_last)

lemma strip_keeps: "c \<in> set s \<Longrightarrow> \<forall>e \<in> set encs. c \<notin> set e \<Longrightarrow> c \<in> set (strip_leading encs s)"
proof (induction encs s rule: strip_leading.induct)
  case (1 encs s)
  show ?case
  proof (cases "find (\<lambda>e. e \<noteq> [] \<and> prefix e s) encs")
    case None
    with 1(2) show ?thesis by (simp add: strip_leading.simps)
  next
    case (Some e)
    then have e: "e \<in> set encs" "prefix e s" by (auto simp: find_Some_iff)
    then have "c \<in> set (drop (length e) s)" using 1(2,3) by (auto elim!: prefixE)
    from 1(1) [OF Some this 1(3)] Some show ?thesis by (simp add: strip_leading.simps)
  qed
qed

lemma trim_keeps: "c \<in> set s \<Longrightarrow> plain_char c \<Longrightarrow> trim_space s \<noteq> []"
proof -
  assume c: "c \<in> set s" "plain_char c"
  then have "c \<in> set (trim_left s)" unfolding trim_left_def by (intro strip_keeps) (auto dest: plain_not_space)
  then have "c \<in> set (trim_space s)" unfolding trim_space_def trim_right_def set_rev
    by (intro strip_keeps) (use c(2) plain_not_space in auto)
  then show ?thesis by auto
qed

section \<open>Trimming\<close>

lemma strip_stops: "\<forall>e \<in> set encs. \<not> prefix e s \<or> e = [] \<Longrightarrow> strip_leading encs s = s"
proof -
  assume a: "\<forall>e \<in> set encs. \<not> prefix e s \<or> e = []"
  then have "find (\<lambda>e. e \<noteq> [] \<and> prefix e s) encs = None" by (auto simp: find_None_iff)
  then show ?thesis by (subst strip_leading.simps) simp
qed

lemma trim_left_plain: "plain_char c \<Longrightarrow> trim_left (c # s) = c # s"
  unfolding trim_left_def by (rule strip_stops) (use plain_not_space in \<open>fastforce simp: prefix_Cons\<close>)

lemma trim_left_space: "trim_left (CHR 0x20 # s) = trim_left s"
proof -
  have "find (\<lambda>e. e \<noteq> [] \<and> prefix e (CHR 0x20 # s)) space_encodings = Some [CHR 0x20]" by (simp add: space_encodings_def)
  then show ?thesis unfolding trim_left_def by (subst strip_leading.simps) simp
qed

lemma trim_right_plain: "plain_char c \<Longrightarrow> trim_right (s @ [c]) = s @ [c]"
proof -
  assume c: "plain_char c"
  have "strip_leading (map rev space_encodings) (c # rev s) = c # rev s"
  proof (rule strip_stops, intro ballI)
    fix e assume "e \<in> set (map rev space_encodings)"
    then obtain e' where e: "e = rev e'" "e' \<in> set space_encodings" by auto
    with plain_not_space [OF c e(2)] show "\<not> prefix e (c # rev s) \<or> e = []" by (auto simp: prefix_Cons)
  qed
  then show ?thesis by (simp add: trim_right_def)
qed

text \<open>An indented line that begins and ends in a printable character loses its indentation.\<close>

lemma trim_indented:
  assumes "plain_char (hd s)" and "plain_char (last s)" and "s \<noteq> []"
  shows "trim_space (replicate n (CHR 0x20) @ s) = s"
proof -
  have "trim_left (replicate n (CHR 0x20) @ s) = s"
  proof (induction n)
    case 0
    then show ?case using assms trim_left_plain by (cases s) auto
  qed (simp add: trim_left_space)
  then show ?thesis using trim_right_plain [OF assms(2), of "butlast s"] assms(3) by (simp add: trim_space_def)
qed

end
