(* ===== verification/Landing.thy ===== *)
theory Landing
  imports ClusterRun AdminRuntime SdkPins Words
begin

text \<open>
  The part of \<^verbatim>\<open>Run\<close> in \<^verbatim>\<open>src/internal/codegen/codegen.go\<close> that puts a run on disk, in
  the order of the code: the writes, the vendored runtime, the private certificates, the deletes, the orphan prune, the
  workspace, the pins, and the record of what was written, once more. Each step is a stage on the tree of files; the
  locale states what every stage owes the project: a tree stays a tree, and outside the stage's own scope nothing is
  taken or replaced.
\<close>

section \<open>Stages\<close>

locale tree_stage =
  fixes stage :: "tree \<Rightarrow> tree \<times> 'e option" and scope :: "path set"
  assumes stage_wf: "wf_tree t \<Longrightarrow> wf_tree (fst (stage t))"
    and stage_kept: "files_kept scope t (fst (stage t))"
begin

lemma stage_file: "p \<notin> scope \<Longrightarrow> node_at (fst (stage t)) p = Some (File b) \<longleftrightarrow> node_at t p = Some (File b)"
  by (rule files_keptD [OF stage_kept])

lemma stage_there: "p \<notin> scope \<Longrightarrow> node_at t p = Some n \<Longrightarrow> node_at (fst (stage t)) p = Some n"
  by (rule files_kept_there [OF stage_kept])

end

definition then_stage :: "(tree \<Rightarrow> tree \<times> 'e option) \<Rightarrow> (tree \<Rightarrow> tree \<times> 'e option) \<Rightarrow> tree \<Rightarrow> tree \<times> 'e option" where
  "then_stage f g t = (case f t of (t1, Some e) \<Rightarrow> (t1, Some e) | (t1, None) \<Rightarrow> g t1)"

definition as_error :: "('d \<Rightarrow> 'e) \<Rightarrow> (tree \<Rightarrow> tree \<times> 'd option) \<Rightarrow> tree \<Rightarrow> tree \<times> 'e option" where
  "as_error h f t = (case f t of (t1, e) \<Rightarrow> (t1, map_option h e))"

lemma then_stage_is_stage:
  assumes f: "tree_stage f P" and g: "tree_stage g Q"
  shows "tree_stage (then_stage f g) (P \<union> Q)"
proof
  fix t
  obtain t1 e where r: "f t = (t1, e)" by (cases "f t")
  show "wf_tree (fst (then_stage f g t))" if "wf_tree t"
    using tree_stage.stage_wf [OF f that] tree_stage.stage_wf [OF g, of t1] r
    by (simp add: then_stage_def split: option.split)
  have k: "files_kept P t t1" using tree_stage.stage_kept [OF f, of t] r by simp
  then have "files_kept (P \<union> Q) t t1" by (rule files_kept_mono) simp
  moreover have "files_kept (P \<union> Q) t (fst (g t1))" by (rule files_kept_trans [OF k tree_stage.stage_kept [OF g]])
  ultimately show "files_kept (P \<union> Q) t (fst (then_stage f g t))"
    using r by (simp add: then_stage_def split: option.split)
qed

lemma as_error_is_stage: "tree_stage f P \<Longrightarrow> tree_stage (as_error h f) P"
  by (simp add: tree_stage_def as_error_def case_prod_beta)

section \<open>The steps are stages\<close>

lemma record_wf: "wf_tree t \<Longrightarrow> wf_tree (record_written_manifest E ops t)"
proof -
  assume w: "wf_tree t"
  let ?m = "written_entries E ops t"
  obtain t1 ok1 where m: "mkdir_all (gdisk E) (butlast manifest_path) t = (t1, ok1)"
    by (cases "mkdir_all (gdisk E) (butlast manifest_path) t")
  obtain t2 ok2 where f: "write_file (gdisk E) manifest_tmp (marshal E ?m @ [nl]) t1 = (t2, ok2)"
    by (cases "write_file (gdisk E) manifest_tmp (marshal E ?m @ [nl]) t1")
  have w1: "wf_tree t1" using mkdir_all_wf [OF w, of "gdisk E" "butlast manifest_path"] m by simp
  have w2: "wf_tree t2" using write_file_wf [OF w1, of "gdisk E" manifest_tmp "marshal E ?m @ [nl]"] f by simp
  have "wf_tree (fst (write_manifest_file E ?m t))"
    using w1 w2 m f rename_file_wf [OF w2, of "gdisk E" manifest_tmp manifest_path]
    by (simp add: write_manifest_file_def split: bool.split)
  then show ?thesis
    using remove_one_wf by (auto simp: record_written_manifest_def split: prod.split bool.split)
qed

lemma write_pass_wf: "wf_tree t \<Longrightarrow> wf_tree (fst (write_pass d ps t))"
proof (induction ps arbitrary: t)
  case (Cons x ps)
  obtain p b where x: "x = (p, b)" by (cases x)
  obtain t1 ok where m: "mkdir_all d (butlast p) t = (t1, ok)" by (cases "mkdir_all d (butlast p) t")
  obtain t2 ok2 where f: "write_file d p b t1 = (t2, ok2)" by (cases "write_file d p b t1")
  have w1: "wf_tree t1" using mkdir_all_wf [OF Cons.prems, of d "butlast p"] m by simp
  have w2: "wf_tree t2" using write_file_wf [OF w1, of d p b] f by simp
  have "wf_tree (fst (write_one d p b t))" using Cons.prems w1 w2 m f by (simp add: write_one_def split: bool.split)
  with Cons.IH show ?case by (auto simp: x split: prod.split option.split)
qed simp

definition write_scope :: "'m gen_env \<Rightarrow> write_op list \<Rightarrow> path set" where
  "write_scope E ops = {p. \<exists>w \<in> set ops. contained_join E (op_path w) = Some p} \<union> {manifest_path, manifest_tmp}"

definition delete_scope :: "'m gen_env \<Rightarrow> string list \<Rightarrow> path set" where
  "delete_scope E rels = {p. \<exists>rel \<in> set rels. \<exists>q. contained_join E rel = Some q \<and> prefix q p}"

definition prune_scope :: "string list \<Rightarrow> string list \<Rightarrow> path set" where
  "prune_scope kept roots = {p. (\<exists>r \<in> set roots. prefix (path_elems r) p) \<and> join_with [slash] p \<notin> set kept}"

interpretation writes: tree_stage "apply_write_ops E C u ops" "write_scope E ops" for E C u ops
proof
  fix t
  show "wf_tree (fst (apply_write_ops E C u ops t))" if w: "wf_tree t"
  proof (cases "write_plan E C u t ops")
    case (Inr planned)
    have "wf_tree (fst (write_pass (gdisk E) planned t))" by (rule write_pass_wf [OF w])
    from record_wf [OF this] Inr show ?thesis by (simp add: apply_write_ops_def case_prod_beta)
  qed (simp add: apply_write_ops_def w)
  show "files_kept (write_scope E ops) t (fst (apply_write_ops E C u ops t))"
  proof (cases "write_plan E C u t ops")
    case (Inr planned)
    obtain t1 e where p: "write_pass (gdisk E) planned t = (t1, e)" by (cases "write_pass (gdisk E) planned t")
    have "fst ` set planned \<union> {manifest_path, manifest_tmp} \<subseteq> write_scope E ops"
    proof -
      have "p \<in> write_scope E ops" if "(p, b) \<in> set planned" for p b
        using planned_op [OF Inr that] plan_op_contained by (metis (mono_tags, lifting) UnI1 mem_Collect_eq write_scope_def)
      then have "fst ` set planned \<subseteq> write_scope E ops" by (auto simp del: Un_iff)
      moreover have "{manifest_path, manifest_tmp} \<subseteq> write_scope E ops" by (simp add: write_scope_def)
      ultimately show ?thesis by simp
    qed
    with files_kept_trans [OF write_pass_files_kept [OF p] record_files_kept [of t1 E ops]] Inr p show ?thesis
      by (auto simp: apply_write_ops_def intro: files_kept_mono)
  qed (simp add: apply_write_ops_def files_kept_def)
qed

interpretation deletes: tree_stage "apply_deletes E rels" "delete_scope E rels" for E rels
proof
  fix t
  show "wf_tree (fst (apply_deletes E rels t))" if "wf_tree t"
    using that
  proof (induction rels arbitrary: t)
    case (Cons rel rels)
    have w: "wf_tree (fst (remove_all (gdisk E) p t))" for p by (rule remove_all_wf [OF Cons.prems])
    show ?case
    proof (cases "contained_join E rel")
      case (Some p)
      obtain t1 ok where r: "remove_all (gdisk E) p t = (t1, ok)" by (cases "remove_all (gdisk E) p t")
      with w [of p] Cons.IH [of t1] Some show ?thesis by (simp split: bool.split)
    qed (simp add: Cons.prems)
  qed simp
  show "files_kept (delete_scope E rels) t (fst (apply_deletes E rels t))"
  proof (induction rels arbitrary: t)
    case (Cons rel rels)
    show ?case
    proof (cases "contained_join E rel")
      case (Some p)
      obtain t1 ok where r: "remove_all (gdisk E) p t = (t1, ok)" by (cases "remove_all (gdisk E) p t")
      have k: "files_kept {q. prefix p q} t t1" by (rule same_but_files_kept [OF remove_all_same_but [OF r]])
      have "{q. prefix p q} \<union> delete_scope E rels \<subseteq> delete_scope E (rel # rels)"
        using Some by (auto simp: delete_scope_def)
      with files_kept_trans [OF k Cons.IH [of t1]] k Some r show ?thesis
        by (auto intro: files_kept_mono split: bool.split)
    qed (simp add: files_kept_def)
  qed (simp add: files_kept_def)
qed

lemma prune_visit_kept:
  "files_kept {q. q = p \<and> join_with [slash] p \<notin> set kept} t (fst (prune_visit E kept marked files base p t))"
proof (cases "join_with [slash] p \<in> set kept")
  case True
  then have "fst (prune_visit E kept marked files base p t) = t"
    by (simp add: prune_visit_def Let_def split: option.split node.split)
  then show ?thesis by simp
next
  case False
  obtain t1 ok where r: "remove_one (gdisk E) p t = (t1, ok)" by (cases "remove_one (gdisk E) p t")
  have "files_kept {p} t t1" by (rule same_but_files_kept [OF remove_one_same_but [OF r]])
  then show ?thesis using r False by (auto simp: prune_visit_def Let_def split: option.split node.split bool.split)
qed

lemma prune_walk_kept:
  "files_kept {p \<in> set ps. join_with [slash] p \<notin> set kept} t (fst (prune_walk E kept marked files base ps t))"
proof (induction ps arbitrary: t)
  case (Cons p ps)
  obtain t1 e where v: "prune_visit E kept marked files base p t = (t1, e)" by (cases "prune_visit E kept marked files base p t")
  have k: "files_kept {q. q = p \<and> join_with [slash] p \<notin> set kept} t t1"
    using prune_visit_kept [of p kept t E marked files base] v by simp
  with files_kept_trans [OF k Cons.IH [of t1]] v show ?case by (auto intro: files_kept_mono split: option.split)
qed (simp add: files_kept_def)

lemma walk_order_below: "set (walk_order t base) \<subseteq> {p. prefix base p}"
  by (auto simp: walk_order_def)

lemma prune_orphans_stage: "tree_stage (prune_orphans_recorded E roots kept marked files) (prune_scope kept roots)"
proof
  fix t
  show "wf_tree (fst (prune_orphans_recorded E roots kept marked files t))" if "wf_tree t" by (rule prune_orphans_wf [OF that])
  show "files_kept (prune_scope kept roots) t (fst (prune_orphans_recorded E roots kept marked files t))"
  proof (induction roots arbitrary: t)
    case (Cons r rs)
    let ?base = "path_elems r"
    obtain t1 e where v: "prune_walk E kept marked files ?base (walk_order t ?base) t = (t1, e)"
      by (cases "prune_walk E kept marked files ?base (walk_order t ?base) t")
    have k: "files_kept {p. prefix ?base p \<and> join_with [slash] p \<notin> set kept} t t1"
      using prune_walk_kept [of "walk_order t ?base" kept t E marked files ?base] v walk_order_below [of t ?base]
      by (auto intro: files_kept_mono)
    have s: "{p. prefix ?base p \<and> join_with [slash] p \<notin> set kept} \<union> prune_scope kept rs \<subseteq> prune_scope kept (r # rs)" by (auto simp: prune_scope_def)
    have "files_kept (prune_scope kept (r # rs)) t (fst (prune_orphans_recorded E rs kept marked files t))"
      by (rule files_kept_mono [OF Cons.IH]) (use s in auto)
    moreover have "files_kept (prune_scope kept (r # rs)) t t1" by (rule files_kept_mono [OF k]) (use s in auto)
    moreover have "files_kept (prune_scope kept (r # rs)) t (fst (prune_orphans_recorded E rs kept marked files t1))"
      by (rule files_kept_mono [OF files_kept_trans [OF k Cons.IH] s])
    moreover have "files_kept (prune_scope kept (r # rs)) t t" by (simp add: files_kept_def)
    ultimately show ?case using v by (simp add: Let_def split: option.split)
  qed (simp add: files_kept_def)
qed

interpretation prune: tree_stage "prune_stale E clean prune_roots kept services had" "prune_scope kept (clean @ prune_roots)"
  for E clean prune_roots kept services had
proof -
  have u: "prune_scope kept (clean @ prune_roots) = prune_scope kept clean \<union> prune_scope kept prune_roots" by (auto simp: prune_scope_def)
  have two: "tree_stage (then_stage (prune_orphans_recorded E clean kept (generated_mark E services) (Some files))
      (prune_orphans_recorded E prune_roots kept (has_infra_marker (gdisk E)) (Some files))) (prune_scope kept (clean @ prune_roots))" for files
    unfolding u by (rule then_stage_is_stage [OF prune_orphans_stage prune_orphans_stage])
  show "tree_stage (prune_stale E clean prune_roots kept services had) (prune_scope kept (clean @ prune_roots))"
  proof
    fix t
    have e: "prune_stale E clean prune_roots kept services had t =
        (case (if had then load_written_manifest E t else Inr None) of
           Inl _ \<Rightarrow> (t, Some Unreadable_Record)
         | Inr None \<Rightarrow> (t, None)
         | Inr (Some files) \<Rightarrow> then_stage (prune_orphans_recorded E clean kept (generated_mark E services) (Some files))
             (prune_orphans_recorded E prune_roots kept (has_infra_marker (gdisk E)) (Some files)) t)"
      by (simp add: prune_stale_def then_stage_def split: sum.split option.split)
    show "wf_tree (fst (prune_stale E clean prune_roots kept services had t))" if "wf_tree t"
      unfolding e using tree_stage.stage_wf [OF two that] that by (simp split: sum.split option.split)
    show "files_kept (prune_scope kept (clean @ prune_roots)) t (fst (prune_stale E clean prune_roots kept services had t))"
      unfolding e using tree_stage.stage_kept [OF two] by (simp add: files_kept_def split: sum.split option.split)
  qed
qed

lemma put_shipped_kept: "files_kept {p. prefix dir p} t (fst (put_shipped S d dir ks n t))"
proof (induction ks arbitrary: n t)
  case (Cons k ks)
  let ?p = "ship_at dir k" and ?B = "{p. prefix dir p}"
  obtain t1 ok where m: "mkdir_all d (butlast ?p) t = (t1, ok)" by (cases "mkdir_all d (butlast ?p) t")
  obtain t2 ok2 where w: "write_file d ?p (shipped_bytes S k) t1 = (t2, ok2)" by (cases "write_file d ?p (shipped_bytes S k) t1")
  have 1: "files_kept ?B t t1" by (rule grows_files_kept [OF mkdir_all_grows [OF m]])
  have "files_kept ?B t1 t2"
    by (rule files_kept_mono [OF same_but_files_kept [OF write_file_same_but [OF w]]]) (simp add: ship_at_def)
  with files_kept_trans [OF 1 this] have 2: "files_kept ?B t t2" by simp
  have 3: "files_kept ?B t (fst (put_shipped S d dir ks n' t2))" for n' using files_kept_trans [OF 2 Cons.IH [of t2]] by simp
  show ?case using 1 2 3 Cons.IH m w by (simp split: bool.split)
qed (simp add: files_kept_def)

lemma extra_walk_kept: "files_kept (set ps) t (fst (extra_walk S d dir ps t n))"
proof (induction ps arbitrary: t n)
  case (Cons p ps)
  obtain t1 n1 ok where v: "extra_visit S d dir p t n = (t1, n1, ok)" by (cases "extra_visit S d dir p t n")
  obtain t2 ok2 where r: "remove_one d p t = (t2, ok2)" by (cases "remove_one d p t")
  have "files_kept {p} t t2" by (rule same_but_files_kept [OF remove_one_same_but [OF r]])
  moreover have "files_kept {p} t t" by (simp add: files_kept_def)
  ultimately have k: "files_kept {p} t t1"
    using v r by (auto simp: extra_visit_def Let_def split: if_splits option.splits node.splits)
  with files_kept_trans [OF k Cons.IH [of t1 n1]] v show ?case by (auto intro: files_kept_mono split: bool.split)
qed (simp add: files_kept_def)

lemma sync_runtime_kept: "files_kept {p. prefix dir p} t (fst (sync_runtime S d dir t))"
proof -
  let ?B = "{p. prefix dir p}"
  obtain t1 n1 ok1 where p: "put_shipped S d dir (ship_paths S) 0 t = (t1, n1, ok1)"
    by (cases "put_shipped S d dir (ship_paths S) 0 t")
  obtain t2 n2 ok2 where x: "prune_extras S d dir t1 = (t2, n2, ok2)" by (cases "prune_extras S d dir t1")
  obtain t3 ok3 where w: "write_file d (dir @ [stamp_name]) (stamp_text S (current_stamp S) @ [nl]) t2 = (t3, ok3)"
    by (cases "write_file d (dir @ [stamp_name]) (stamp_text S (current_stamp S) @ [nl]) t2")
  have 1: "files_kept ?B t t1" using put_shipped_kept [of dir t S d "ship_paths S" 0] p by simp
  have "files_kept ?B t1 (fst (extra_walk S d dir (walk_order t1 dir) t1 0))"
    by (rule files_kept_mono [OF extra_walk_kept walk_order_below])
  then have "files_kept ?B t1 t2" using x by (auto simp: prune_extras_def files_kept_def split: if_splits)
  with files_kept_trans [OF 1 this] have 2: "files_kept ?B t t2" by simp
  have "files_kept ?B t2 t3" by (rule files_kept_mono [OF same_but_files_kept [OF write_file_same_but [OF w]]]) simp
  with files_kept_trans [OF 2 this] have 3: "files_kept ?B t t3" by simp
  show ?thesis using 1 2 3 p x w by (simp add: sync_runtime_def Let_def split: bool.split)
qed

lemma sync_runtime_wf: "wf_tree t \<Longrightarrow> wf_tree (fst (sync_runtime S d dir t))"
proof -
  assume w: "wf_tree t"
  let ?p = "dir @ [stamp_name]" and ?b = "stamp_text S (current_stamp S) @ [nl]"
  obtain t1 n1 ok1 where p: "put_shipped S d dir (ship_paths S) 0 t = (t1, n1, ok1)"
    by (cases "put_shipped S d dir (ship_paths S) 0 t")
  obtain t2 n2 ok2 where x: "prune_extras S d dir t1 = (t2, n2, ok2)" by (cases "prune_extras S d dir t1")
  obtain t3 ok3 where f: "write_file d ?p ?b t2 = (t3, ok3)" by (cases "write_file d ?p ?b t2")
  have w1: "wf_tree t1" using put_shipped_wf [OF w, of S d dir "ship_paths S" 0] p by simp
  have w2: "wf_tree t2"
    using w1 x extra_walk_wf [OF w1, of S d dir "walk_order t1 dir" 0] by (auto simp: prune_extras_def split: if_splits)
  have w3: "wf_tree t3" using write_file_wf [OF w2, of d ?p ?b] f by simp
  show ?thesis using w1 w2 w3 p x f by (simp add: sync_runtime_def Let_def split: bool.split)
qed

interpretation vendored: tree_stage "vendor_admin_runtime S d services ops" "{p. prefix (runtime_dir services) p}" for S d services ops
proof
  fix t
  let ?D = "runtime_dir services"
  obtain t1 n ok where s: "sync_runtime S d ?D t = (t1, n, ok)" by (cases "sync_runtime S d ?D t")
  show "wf_tree (fst (vendor_admin_runtime S d services ops t))" if w: "wf_tree t"
    using sync_runtime_wf [OF w, of S d ?D] s w by (auto simp: vendor_admin_runtime_def Let_def split: option.split)
  have "files_kept {p. prefix ?D p} t t" by (simp add: files_kept_def)
  then show "files_kept {p. prefix ?D p} t (fst (vendor_admin_runtime S d services ops t))"
    using sync_runtime_kept [of ?D t S d] s by (auto simp: vendor_admin_runtime_def Let_def split: option.split)
qed

lemma sync_go_work_writes:
  obtains "fst (sync_go_work W d services stubs t) = t"
    | b ok where "write_file d go_work b t = (fst (sync_go_work W d services stubs t), ok)"
  by (cases "fst (sync_go_work W d services stubs t) = t")
    (auto simp: sync_go_work_def Let_def split: read.splits option.splits prod.splits bool.splits if_splits)

interpretation workspace: tree_stage "sync_go_work W d services stubs" "{go_work}" for W d services stubs
proof
  fix t
  consider "fst (sync_go_work W d services stubs t) = t"
    | b ok where "write_file d go_work b t = (fst (sync_go_work W d services stubs t), ok)"
    by (rule sync_go_work_writes)
  note c = this
  show "wf_tree (fst (sync_go_work W d services stubs t))" if "wf_tree t"
    using c
  proof cases
    case (2 b ok)
    then show ?thesis using write_file_wf [OF that, of d go_work b] by simp
  qed (simp add: that)
  show "files_kept {go_work} t (fst (sync_go_work W d services stubs t))"
    using c
  proof cases
    case (2 b ok)
    from write_file_same_but [OF 2] show ?thesis by (rule same_but_files_kept)
  qed (simp add: files_kept_def)
qed

section \<open>The private certificates\<close>

text \<open>\<^verbatim>\<open>certgen.EnsureIdentity\<close> is the SDK's: it keeps or mints one identity's certificates below the
  directory it is given and answers the files it wrote.\<close>

type_synonym minter = "path \<Rightarrow> string \<Rightarrow> string \<Rightarrow> string list \<Rightarrow> tree \<Rightarrow> tree \<times> string list option"

definition minter_laws :: "minter \<Rightarrow> bool" where
  "minter_laws M \<longleftrightarrow>
     (\<forall>dir name uri dns t. (wf_tree t \<longrightarrow> wf_tree (fst (M dir name uri dns t))) \<and>
        files_kept {p. prefix dir p} t (fst (M dir name uri dns t)))"

definition private_certs :: "string \<Rightarrow> path" where
  "private_certs services = butlast (path_elems services) @ [''certs'', ''private'']"

datatype pki_error = IdentitiesUnreadable | BadIdentity string | MintFailed

fun mint_each :: "minter \<Rightarrow> path \<Rightarrow> string list \<Rightarrow> nat \<Rightarrow> tree \<Rightarrow> tree \<times> nat \<times> pki_error option" where
  "mint_each M dir [] n t = (t, n, None)"
| "mint_each M dir (ln # lns) n t =
     (let l = trim_space ln
      in if l = [] \<or> prefix ''#'' l then mint_each M dir lns n t
         else case fields_of l of
           name # uri # dns \<Rightarrow>
             (case M dir name uri dns t of
                (t1, None) \<Rightarrow> (t1, n, Some MintFailed)
              | (t1, Some written) \<Rightarrow>
                  mint_each M dir lns
                    (n + length (filter (\<lambda>w. suffix ''.crt'' w \<and> base_name w \<noteq> ''ca.crt'') written)) t1)
         | _ \<Rightarrow> (t, n, Some (BadIdentity l)))"

definition ensure_private_pki :: "minter \<Rightarrow> disk \<Rightarrow> string \<Rightarrow> tree \<Rightarrow> tree \<times> nat \<times> pki_error option" where
  "ensure_private_pki M d services t =
     (if services = [] then (t, 0, None)
      else case read_file d t (path_elems services @ [''private-proxy'', ''identities.txt'']) of
        NotExist \<Rightarrow> (t, 0, None)
      | ReadError \<Rightarrow> (t, 0, Some IdentitiesUnreadable)
      | Bytes b \<Rightarrow> mint_each M (private_certs services) (split_on nl b) 0 t)"

definition pki_stage :: "minter \<Rightarrow> disk \<Rightarrow> string \<Rightarrow> tree \<Rightarrow> tree \<times> pki_error option" where
  "pki_stage M d services t = (case ensure_private_pki M d services t of (t1, _, e) \<Rightarrow> (t1, e))"

lemma minter_law:
  assumes "minter_laws M" and "M dir name uri dns t = (t1, r)"
  shows "wf_tree t \<Longrightarrow> wf_tree t1" and "files_kept {p. prefix dir p} t t1"
proof -
  from assms(1) have "(wf_tree t \<longrightarrow> wf_tree (fst (M dir name uri dns t))) \<and>
        files_kept {p. prefix dir p} t (fst (M dir name uri dns t))"
    unfolding minter_laws_def by blast
  with assms(2) show "wf_tree t \<Longrightarrow> wf_tree t1" and "files_kept {p. prefix dir p} t t1" by simp_all
qed

lemma mint_each_stage:
  assumes M: "minter_laws M"
  shows "mint_each M dir lns n t = (t', n', e) \<Longrightarrow> (wf_tree t \<longrightarrow> wf_tree t') \<and> files_kept {p. prefix dir p} t t'"
proof (induction lns arbitrary: n t)
  case (Cons ln lns)
  let ?l = "trim_space ln"
  consider (skip) n1 where "mint_each M dir lns n1 t = (t', n', e)" | (stop) "t' = t"
    | (last) name uri dns r where "M dir name uri dns t = (t', r)"
    | (mint) name uri dns t1 r n1 where "M dir name uri dns t = (t1, r)" "mint_each M dir lns n1 t1 = (t', n', e)"
    using Cons.prems by (auto simp: Let_def split: if_splits list.splits prod.splits option.splits)
  then show ?case
  proof cases
    case skip
    from Cons.IH [OF this] show ?thesis .
  next
    case last
    from minter_law [OF M last] show ?thesis by blast
  next
    case mint
    note 1 = minter_law [OF M mint(1)]
    from Cons.IH [OF mint(2)] 1 files_kept_trans [OF 1(2)] show ?thesis by fastforce
  qed simp
qed simp

lemma pki_is_stage:
  assumes M: "minter_laws M"
  shows "tree_stage (pki_stage M d services) {p. prefix (private_certs services) p}"
proof
  fix t
  obtain t1 n e where r: "ensure_private_pki M d services t = (t1, n, e)" by (cases "ensure_private_pki M d services t")
  have "(wf_tree t \<longrightarrow> wf_tree t1) \<and> files_kept {p. prefix (private_certs services) p} t t1"
  proof (cases "t1 = t")
    case False
    then obtain b where "mint_each M (private_certs services) (split_on nl b) 0 t = (t1, n, e)"
      using r by (auto simp: ensure_private_pki_def split: if_splits read.splits)
    from mint_each_stage [OF M this] show ?thesis .
  qed simp
  with r show "wf_tree t \<Longrightarrow> wf_tree (fst (pki_stage M d services t))"
    and "files_kept {p. prefix (private_certs services) p} t (fst (pki_stage M d services t))"
    by (simp_all add: pki_stage_def)
qed

section \<open>The pins\<close>

definition pin_stage ::
    "'m modlib \<Rightarrow> semver \<Rightarrow> disk \<Rightarrow> pin_context \<Rightarrow> string \<Rightarrow> string \<Rightarrow> string \<Rightarrow> (string, string) gomap \<Rightarrow> string \<Rightarrow>
       tree \<Rightarrow> tree \<times> pin_error option" where
  "pin_stage L sv d C services stubs gen prior override t =
     (case resolve_sdk_go_pins_at L sv d C services stubs gen prior override t of
        (t1, Some (BelowFloor v how src floor)) \<Rightarrow> (t1, Some (BelowFloor v how src floor))
      | (t1, _) \<Rightarrow> (t1, None))"

definition go_mod_files :: "path set" where
  "go_mod_files = {p. p \<noteq> [] \<and> last p = ''go.mod''}"

lemma go_mod_at_file [simp]: "go_mod_at dir \<in> go_mod_files"
  by (simp add: go_mod_files_def go_mod_at_def)

lemma write_sdk_pin_stage:
  assumes "write_sdk_pin L d dir ver t = (t1, ok)"
  shows "wf_tree t \<Longrightarrow> wf_tree t1" and "files_kept go_mod_files t t1"
proof -
  from assms have "t1 = t \<or> (\<exists>out. write_file d (go_mod_at dir) out t = (t1, ok))"
    by (auto simp: write_sdk_pin_def split: option.splits)
  then show "wf_tree t \<Longrightarrow> wf_tree t1" using write_file_wf by (metis fst_conv)
  show "files_kept go_mod_files t t1"
    by (rule files_kept_mono [OF same_but_files_kept [OF write_sdk_pin_same_but [OF assms]]]) simp
qed

lemma pin_each_stage: "pin_each L d ver dirs t = (t1, e) \<Longrightarrow> (wf_tree t \<longrightarrow> wf_tree t1) \<and> files_kept go_mod_files t t1"
proof (induction dirs arbitrary: t)
  case (Cons dir dirs)
  obtain t2 ok where w: "write_sdk_pin L d dir (ver dir) t = (t2, ok)" by (cases "write_sdk_pin L d dir (ver dir) t")
  note 1 = write_sdk_pin_stage [OF w]
  show ?case
  proof (cases ok)
    case True
    with Cons.prems w have "pin_each L d ver dirs t2 = (t1, e)" by simp
    from Cons.IH [OF this] 1 files_kept_trans [OF 1(2)] show ?thesis by fastforce
  next
    case False
    with Cons.prems w 1 show ?thesis by simp
  qed
qed simp

lemma pin_override_stage:
  "pin_override L d services stubs ver dirs t = (t1, e) \<Longrightarrow> (wf_tree t \<longrightarrow> wf_tree t1) \<and> files_kept go_mod_files t t1"
proof (induction dirs arbitrary: t)
  case (Cons dir dirs)
  obtain t2 ok where w: "write_sdk_pin L d dir ver t = (t2, ok)" by (cases "write_sdk_pin L d dir ver t")
  note 1 = write_sdk_pin_stage [OF w]
  from Cons.prems w consider "pin_override L d services stubs ver dirs t = (t1, e)" | "t1 = t2"
    | "pin_override L d services stubs ver dirs t2 = (t1, e)"
    by (auto simp: Let_def split: if_splits bool.splits)
  then show ?case
  proof cases
    case 3
    from Cons.IH [OF this] 1 files_kept_trans [OF 1(2)] show ?thesis by fastforce
  qed (use Cons.IH 1 in auto)
qed simp

lemma resolve_stage:
  assumes "resolve_sdk_go_pins_at L sv d C services stubs gen prior override t = (t1, e)"
  shows "(wf_tree t \<longrightarrow> wf_tree t1) \<and> files_kept go_mod_files t t1"
proof -
  from assms consider "t1 = t" | dirs e1 where "pin_override L d services stubs override dirs t = (t1, e1)"
    | ver dirs e1 where "pin_each L d ver dirs t = (t1, e1)"
    by (auto simp: resolve_sdk_go_pins_at_def Let_def split: if_splits option.splits prod.splits)
  then show ?thesis
  proof cases
    case 2
    from pin_override_stage [OF this] show ?thesis .
  next
    case 3
    from pin_each_stage [OF this] show ?thesis .
  qed simp
qed

interpretation pins: tree_stage "pin_stage L sv d C services stubs gen prior override" go_mod_files
  for L sv d C services stubs gen prior override
proof
  fix t
  obtain t1 e where r: "resolve_sdk_go_pins_at L sv d C services stubs gen prior override t = (t1, e)"
    by (cases "resolve_sdk_go_pins_at L sv d C services stubs gen prior override t")
  have "fst (pin_stage L sv d C services stubs gen prior override t) = t1"
    by (simp add: pin_stage_def r split: option.split pin_error.split)
  with resolve_stage [OF r] show "wf_tree t \<Longrightarrow> wf_tree (fst (pin_stage L sv d C services stubs gen prior override t))"
    and "files_kept go_mod_files t (fst (pin_stage L sv d C services stubs gen prior override t))" by simp_all
qed

end
