(* ===== verification/Closing.thy ===== *)
theory Closing
  imports Landing Gofmt
begin

text \<open>
  How a run of \<^verbatim>\<open>w17ctl codegen\<close> closes once the modules are pinned (the end of \<^verbatim>\<open>Run\<close> in
  \<^verbatim>\<open>src/internal/codegen/codegen.go\<close>): the platform reference below \<^verbatim>\<open>w17/specs\<close> is streamed from the console
  onto the disk (\<^verbatim>\<open>staged.go\<close>, \<^verbatim>\<open>RecvGeneratedFiles\<close> of \<^verbatim>\<open>core/dial.go\<close>), what the rendered fixtures would be
  rendered against is written down (\<^verbatim>\<open>refreshCurrentSchema\<close>, \<^verbatim>\<open>src/internal/fixtureschema\<close>), and
  \<^verbatim>\<open>w17/.gitignore\<close> is brought up to date (\<^verbatim>\<open>src/internal/scaffold/gitignore.go\<close>).

  The console's answers, the discovery of the protos and the SDK's readers and writer of the fixture files are
  parameters.
\<close>

section \<open>The platform reference\<close>

text \<open>\<^verbatim>\<open>generatedFileWriter\<close>: the join is the guard of the SDK alone, without the check for \<^verbatim>\<open>.git\<close> that the
  files of a run go through.\<close>

definition generated_file_writer ::
    "'m gen_env \<Rightarrow> (string \<Rightarrow> string option) \<Rightarrow> string \<times> string \<Rightarrow> tree \<Rightarrow> tree \<times> bool" where
  "generated_file_writer E gofmt f t =
     (case guard_join E (fst f) of
        None \<Rightarrow> (t, False)
      | Some p \<Rightarrow>
          (case source_if_go gofmt (fst f) (snd f) of
             Inl _ \<Rightarrow> (t, False)
           | Inr body \<Rightarrow> (case write_one (gdisk E) p body t of (t1, e) \<Rightarrow> (t1, e = None))))"

text \<open>\<^verbatim>\<open>RecvGeneratedFiles\<close>: the files the stream brings, in order, and whether it ends cleanly.\<close>

fun recv_generated_files ::
    "(string \<times> string \<Rightarrow> tree \<Rightarrow> tree \<times> bool) \<Rightarrow> (string \<times> string) list \<Rightarrow> bool \<Rightarrow> nat \<Rightarrow> tree \<Rightarrow> tree \<times> nat \<times> bool" where
  "recv_generated_files fn [] clean n t = (t, n, clean)"
| "recv_generated_files fn (f # fs) clean n t =
     (case fn f t of
        (t1, False) \<Rightarrow> (t1, n, False)
      | (t1, True) \<Rightarrow> recv_generated_files fn fs clean (Suc n) t1)"

text \<open>The answer to the \<^verbatim>\<open>Guide\<close> call, \<^const>\<open>None\<close> when it was refused.\<close>

type_synonym guide_answer = "((string \<times> string) list \<times> bool) option"

definition refresh_platform_specs ::
    "'m gen_env \<Rightarrow> (string \<Rightarrow> string option) \<Rightarrow> guide_answer \<Rightarrow> tree \<Rightarrow> tree \<times> nat \<times> bool" where
  "refresh_platform_specs E gofmt guide t =
     (case guide of
        None \<Rightarrow> (t, 0, False)
      | Some (files, clean) \<Rightarrow> recv_generated_files (generated_file_writer E gofmt) files clean 0 t)"

section \<open>The schema of the rendered fixtures\<close>

record render_manifest =
  rm_source_root :: string
  rm_seeds :: "(string, string) gomap"

text \<open>The seeds by key, each with the source of its fixture. What the console answers for one: the provenance, if it
  sends any, a status with its code, or an error that is none.\<close>

datatype render_answer = RenderedSeed "string option" | RenderStatus nat string | RenderBroken string

datatype seed_schema = SeedSchema "string option" | SeedError string

type_synonym seed_schemas = "(string, seed_schema) gomap"

definition failed_precondition :: nat where
  "failed_precondition = 9"

definition render_finding :: "render_answer \<Rightarrow> string option" where
  "render_finding a =
     (case a of RenderStatus code msg \<Rightarrow> if code = failed_precondition then Some msg else None | _ \<Rightarrow> None)"

text \<open>\<open>fx_away\<close> and \<open>fx_read_away\<close> are what is outside the project, for a source that leads there. The SDK's writer of the
  current schema writes one file, \<^verbatim>\<open>.current-schema.json\<close>; \<open>fx_write\<close> is what it leaves there, when it gets to write at
  all, and whether it succeeds.\<close>

record fixture_env =
  fx_manifest :: "tree \<Rightarrow> string + render_manifest option"
  fx_away :: "string \<Rightarrow> read"
  fx_read_away :: "string \<Rightarrow> read"
  fx_protos :: "tree \<Rightarrow> string + string list"
  fx_ir :: "string list \<Rightarrow> string + string"
  fx_dial :: "string option"
  fx_render :: "string \<Rightarrow> string \<Rightarrow> string \<Rightarrow> render_answer"
  fx_read :: "tree \<Rightarrow> seed_schemas option"
  fx_same :: "seed_schemas \<Rightarrow> seed_schemas \<Rightarrow> bool"
  fx_write :: "seed_schemas \<Rightarrow> tree \<Rightarrow> string option \<times> bool"

definition fixtures_rel :: string where
  "fixtures_rel = ''w17/fixtures''"

text \<open>\<^verbatim>\<open>os.Stat\<close> of the authoring tree: there, missing, or another error.\<close>

definition stat_source :: "fixture_env \<Rightarrow> tree \<Rightarrow> string \<Rightarrow> read" where
  "stat_source F t rel =
     (if ''..'' \<in> set (path_elems rel) then fx_away F rel
      else if exists_at t (path_elems rel) then Bytes []
      else if below_file t (path_elems rel) then ReadError else NotExist)"

fun render_seeds ::
    "fixture_env \<Rightarrow> (string \<Rightarrow> read) \<Rightarrow> string \<Rightarrow> string \<Rightarrow> (string, string) gomap \<Rightarrow> seed_schemas \<times> bool
       \<Rightarrow> string + seed_schemas \<times> bool" where
  "render_seeds F rd src_root ir [] st = Inr st"
| "render_seeds F rd src_root ir ((key, source) # seeds) (cur, known) =
     (case rd (join_path [src_root, source]) of
        NotExist \<Rightarrow> render_seeds F rd src_root ir seeds (cur, known)
      | ReadError \<Rightarrow> Inl source
      | Bytes body \<Rightarrow>
          (let a = fx_render F ir (fst (str_cut slash key)) body in
           case a of
             RenderedSeed s \<Rightarrow> render_seeds F rd src_root ir seeds (put key (SeedSchema s) cur, known \<or> s \<noteq> None)
           | _ \<Rightarrow>
               (case render_finding a of
                  Some msg \<Rightarrow> render_seeds F rd src_root ir seeds (put key (SeedError msg) cur, True)
                | None \<Rightarrow> Inl key)))"

text \<open>\<^verbatim>\<open>fixtureschema.Current\<close>: \<^const>\<open>None\<close> when there is nothing to compare.\<close>

definition current_schema :: "fixture_env \<Rightarrow> disk \<Rightarrow> tree \<Rightarrow> string + seed_schemas option" where
  "current_schema F d t =
     (case fx_manifest F t of
        Inl e \<Rightarrow> Inl e
      | Inr None \<Rightarrow> Inr None
      | Inr (Some m) \<Rightarrow>
          if rm_seeds m = [] \<or> rm_source_root m = [] then Inr None
          else (let src_root = join_path [fixtures_rel, rm_source_root m] in
                case stat_source F t src_root of
                  NotExist \<Rightarrow> Inr None
                | ReadError \<Rightarrow> Inl src_root
                | Bytes _ \<Rightarrow>
                    (case fx_protos F t of
                       Inl e \<Rightarrow> Inl e
                     | Inr protos \<Rightarrow>
                         if protos = [] then Inr None
                         else (case fx_ir F protos of
                           Inl e \<Rightarrow> Inl e
                         | Inr ir \<Rightarrow>
                             (case fx_dial F of
                                Some e \<Rightarrow> Inl e
                              | None \<Rightarrow>
                                  (case render_seeds F (read_rel d t (fx_read_away F)) src_root ir (rm_seeds m) ([], False) of
                                     Inl e \<Rightarrow> Inl e
                                   | Inr (cur, known) \<Rightarrow> Inr (if known then Some cur else None)))))))"

datatype schema_error = NotChecked string | SchemaNotWritten

definition current_schema_path :: path where
  "current_schema_path = [''w17'', ''fixtures'', ''.current-schema.json'']"

definition refresh_current_schema :: "fixture_env \<Rightarrow> disk \<Rightarrow> tree \<Rightarrow> tree \<times> schema_error option" where
  "refresh_current_schema F d t =
     (case current_schema F d t of
        Inl e \<Rightarrow> (t, Some (NotChecked e))
      | Inr None \<Rightarrow> (t, None)
      | Inr (Some cur) \<Rightarrow>
          if (case fx_read F t of Some prev \<Rightarrow> fx_same F prev cur | None \<Rightarrow> False) then (t, None)
          else (case fx_write F cur t of
              (left, ok) \<Rightarrow>
                (case left of None \<Rightarrow> t | Some b \<Rightarrow> fst (write_file healthy_disk current_schema_path b t),
                 if ok then None else Some SchemaNotWritten)))"

section \<open>The ignore file\<close>

definition em_dash :: string where
  "em_dash = [CHR 0xE2, CHR 0x80, CHR 0x94]"

definition w17_ignore_header :: string where
  "w17_ignore_header =
     ''# w17-owned transient + local-secret paths '' @ em_dash @ '' machine-local, never commit.'' @ [nl] @
     ''# Generated by w17ctl (init). Safe to edit '' @ em_dash @ '' w17ctl only APPENDS missing'' @ [nl] @
     ''# lines, never rewrites yours. Scoped to the w17/ tree; the patterns are'' @ [nl] @
     ''# relative, so `.env` / `.secrets` also cover the per-bundle copies under'' @ [nl] @
     ''# w17/services/*/ (the committed *.defaults / *.example templates stay tracked).''"

definition w17_ignore_entries :: "(string \<times> string) list" where
  "w17_ignore_entries =
     [(''Dev DB snapshots '' @ em_dash @ '' disposable branch-scoped scratch (dev DB lifecycle).'', ''tmp/''),
      (''Local dev PKI (self-signed CA + server leaf) '' @ em_dash @ '' machine-local TLS material.'', ''certs/dev.local/''),
      (''Private-surface dev PKI (CA + a leaf per caller) '' @ em_dash @ '' machine-local key material.'', ''certs/private/''),
      (''age secret keys '' @ em_dash @ '' private key material, mounted at deploy, never committed.'', ''keys/''),
      (''Local env + secrets. The committed *.defaults / *.example templates are the'' @ [nl] @ ''# tracked source; the filled-in local copies below stay out of git.'', ''.env''),
      ([], ''.env.local''),
      ([], ''.secrets''),
      (''Codegen's record of the files it wrote '' @ em_dash @ '' describes this checkout's disk.'', ''/.codegen-manifest.json'')]"

definition w17_output_ignore_entries :: "(string \<times> string) list" where
  "w17_output_ignore_entries =
     [(''Generated service bundles '' @ em_dash @ '' rebuilt by `w17ctl codegen`.'', ''/services/''),
      (''The w17-owned Go stub module (pb + grpc clients).'', ''/stubs/''),
      (''Vendored @w17/admin-runtime '' @ em_dash @ '' a verbatim copy, never edited here.'', ''/admin-runtime/''),
      (''Generated front-end clients.'', ''/web-client/''),
      ([], ''/js-client/''),
      (''The platform reference + project map '' @ em_dash @ '' refreshed from the console every codegen.'', ''/specs/''),
      ([], ''/map/''),
      ([], ''/AGENTS.md''),
      (''Base rsync ignore for `w17ctl stack` remote mode '' @ em_dash @ '' regenerated every codegen.'', ''/rsync.ignore'')]"

definition gitignore_path :: path where
  "gitignore_path = [''w17'', ''.gitignore'']"

text \<open>\<open>track\<close> is the value of \<^verbatim>\<open>W17_TRACK_GENERATED\<close>.\<close>

definition ignore_entries :: "string \<Rightarrow> (string \<times> string) list" where
  "ignore_entries track =
     (if track = ''1'' then w17_ignore_entries else w17_ignore_entries @ w17_output_ignore_entries)"

definition present_patterns :: "string \<Rightarrow> string list" where
  "present_patterns existing = filter (\<lambda>p. p \<noteq> []) (map trim_space (split_on nl existing))"

definition entry_text :: "string \<times> string \<Rightarrow> string" where
  "entry_text e = [nl] @ (if fst e = [] then [] else ''# '' @ fst e @ [nl]) @ snd e @ [nl]"

definition extended_ignore :: "string \<Rightarrow> (string \<times> string) list \<Rightarrow> string" where
  "extended_ignore existing missing =
     existing @
     (if existing = [] then w17_ignore_header @ [nl] else if suffix [nl] existing then [] else [nl]) @
     concat (map entry_text missing)"

text \<open>\<^verbatim>\<open>EnsureW17Gitignore\<close> and \<^verbatim>\<open>RefreshW17Gitignore\<close>: whether the file changed, \<^const>\<open>None\<close> for an error.\<close>

definition ensure_gitignore :: "disk \<Rightarrow> string \<Rightarrow> tree \<Rightarrow> tree \<times> bool option" where
  "ensure_gitignore d track t =
     (case read_file d t gitignore_path of
        ReadError \<Rightarrow> (t, None)
      | r \<Rightarrow>
          (let existing = (case r of Bytes b \<Rightarrow> b | _ \<Rightarrow> []);
               missing = filter (\<lambda>e. \<not> List.member (present_patterns existing) (snd e)) (ignore_entries track)
           in if missing = [] then (t, Some False)
              else case mkdir_all d (butlast gitignore_path) t of
                (t1, False) \<Rightarrow> (t1, None)
              | (t1, True) \<Rightarrow>
                  (case write_file d gitignore_path (extended_ignore existing missing) t1 of
                     (t2, ok) \<Rightarrow> (t2, if ok then Some True else None))))"

definition refresh_gitignore :: "disk \<Rightarrow> string \<Rightarrow> tree \<Rightarrow> tree \<times> bool option" where
  "refresh_gitignore d track t =
     (if \<not> exists_at t gitignore_path then (t, if below_file t gitignore_path then None else Some False)
      else ensure_gitignore d track t)"

section \<open>The closing steps\<close>

record closing_env =
  c_gofmt :: "string \<Rightarrow> string option"
  c_guide :: guide_answer
  c_fixtures :: fixture_env
  c_adopt :: bool
  c_track :: string

text \<open>What becomes of the reference and of the ignore file is only reported; the schema's error is returned, once the
  ignore file has been seen to.\<close>

definition closing_steps :: "'m gen_env \<Rightarrow> closing_env \<Rightarrow> tree \<Rightarrow> tree \<times> schema_error option" where
  "closing_steps E C t =
     (case refresh_current_schema (c_fixtures C) (gdisk E) (fst (refresh_platform_specs E (c_gofmt C) (c_guide C) t)) of
        (t1, e) \<Rightarrow> (fst ((if c_adopt C then ensure_gitignore else refresh_gitignore) (gdisk E) (c_track C) t1), e))"

definition guide_scope :: "'m gen_env \<Rightarrow> guide_answer \<Rightarrow> path set" where
  "guide_scope E guide =
     (case guide of None \<Rightarrow> {} | Some (files, _) \<Rightarrow> {p. \<exists>f \<in> set files. guard_join E (fst f) = Some p})"

definition closing_scope :: "'m gen_env \<Rightarrow> closing_env \<Rightarrow> path set" where
  "closing_scope E C = guide_scope E (c_guide C) \<union> {current_schema_path, gitignore_path}"

section \<open>What the closing steps may change\<close>

lemma write_one_wf: "wf_tree t \<Longrightarrow> wf_tree (fst (write_one d p b t))"
  using write_pass_wf [of t d "[(p, b)]"] by (auto simp: split: prod.splits option.splits)

lemma writer_kept:
  assumes "generated_file_writer E gofmt f t = (t', ok)"
  shows "wf_tree t \<Longrightarrow> wf_tree t'" and "files_kept {p. guard_join E (fst f) = Some p} t t'"
proof -
  have "(wf_tree t \<longrightarrow> wf_tree t') \<and> files_kept {p. guard_join E (fst f) = Some p} t t'"
  proof (cases "t' = t")
    case False
    with assms obtain p b e where "guard_join E (fst f) = Some p" and w: "write_one (gdisk E) p b t = (t', e)"
      by (auto simp: generated_file_writer_def split: option.splits sum.splits prod.splits)
    then show ?thesis using write_one_files_kept [OF w] write_one_wf [of t "gdisk E" p b] by simp
  qed simp
  then show "wf_tree t \<Longrightarrow> wf_tree t'" and "files_kept {p. guard_join E (fst f) = Some p} t t'" by blast+
qed

lemma recv_kept:
  "recv_generated_files (generated_file_writer E gofmt) fs clean n t = (t', r) \<Longrightarrow>
     (wf_tree t \<longrightarrow> wf_tree t') \<and> files_kept {p. \<exists>f \<in> set fs. guard_join E (fst f) = Some p} t t'"
proof (induction fs arbitrary: n t)
  case (Cons f fs)
  obtain t1 ok where w: "generated_file_writer E gofmt f t = (t1, ok)" by fastforce
  note k = writer_kept [OF w]
  show ?case
  proof (cases ok)
    case True
    with Cons.prems w have "recv_generated_files (generated_file_writer E gofmt) fs clean (Suc n) t1 = (t', r)" by simp
    from Cons.IH [OF this] have IH: "wf_tree t1 \<longrightarrow> wf_tree t'"
      "files_kept {p. \<exists>f \<in> set fs. guard_join E (fst f) = Some p} t1 t'" by blast+
    have "files_kept {p. \<exists>f \<in> set (f # fs). guard_join E (fst f) = Some p} t t'"
      by (rule files_kept_mono [OF files_kept_trans [OF k(2) IH(2)]]) auto
    with k(1) IH(1) show ?thesis by blast
  next
    case False
    with Cons.prems w k show ?thesis by (auto intro: files_kept_mono)
  qed
qed simp

interpretation reference: tree_stage "\<lambda>t. (fst (refresh_platform_specs E gofmt guide t), None)" "guide_scope E guide" for E gofmt guide
proof
  fix t
  have "(wf_tree t \<longrightarrow> wf_tree (fst (refresh_platform_specs E gofmt guide t))) \<and>
    files_kept (guide_scope E guide) t (fst (refresh_platform_specs E gofmt guide t))"
  proof (cases guide)
    case (Some a)
    obtain files clean where a: "a = (files, clean)" by fastforce
    obtain t' r where "recv_generated_files (generated_file_writer E gofmt) files clean 0 t = (t', r)" by (metis surj_pair)
    from recv_kept [OF this] this show ?thesis by (simp add: refresh_platform_specs_def guide_scope_def Some a)
  qed (simp add: refresh_platform_specs_def)
  then show "wf_tree t \<Longrightarrow> wf_tree (fst (fst (refresh_platform_specs E gofmt guide t), None))"
    and "files_kept (guide_scope E guide) t (fst (fst (refresh_platform_specs E gofmt guide t), None))" by simp_all
qed

interpretation schema_file: tree_stage "refresh_current_schema F d" "{current_schema_path}" for F d
proof
  fix t
  have "fst (refresh_current_schema F d t) = t \<or>
      (\<exists>b. fst (refresh_current_schema F d t) = fst (write_file healthy_disk current_schema_path b t))"
    by (auto simp: refresh_current_schema_def split: sum.split option.split prod.split)
  then consider "fst (refresh_current_schema F d t) = t"
    | b t1 ok where "write_file healthy_disk current_schema_path b t = (t1, ok)" "fst (refresh_current_schema F d t) = t1"
    by (metis prod.collapse)
  then have "(wf_tree t \<longrightarrow> wf_tree (fst (refresh_current_schema F d t))) \<and>
    files_kept {current_schema_path} t (fst (refresh_current_schema F d t))"
  proof cases
    case (2 b t1 ok)
    with write_file_wf [of t healthy_disk current_schema_path b] same_but_files_kept [OF write_file_same_but [OF 2(1)]]
    show ?thesis by simp
  qed simp
  then show "wf_tree t \<Longrightarrow> wf_tree (fst (refresh_current_schema F d t))"
    and "files_kept {current_schema_path} t (fst (refresh_current_schema F d t))" by simp_all
qed

lemma ensure_cases:
  assumes "ensure_gitignore d track t = (t', r)"
  obtains (same) "t' = t"
  | (made) t1 b ok ok' where "mkdir_all d [''w17''] t = (t1, ok)" and "t' = t1 \<or> write_file d gitignore_path b t1 = (t', ok')"
  using assms unfolding ensure_gitignore_def
  by (auto simp: Let_def gitignore_path_def split: read.splits if_splits prod.splits bool.splits)

lemma ensure_kept:
  assumes "ensure_gitignore d track t = (t', r)"
  shows "(wf_tree t \<longrightarrow> wf_tree t') \<and> files_kept {gitignore_path} t t'"
  using assms
proof (cases rule: ensure_cases)
  case (made t1 b ok ok')
  have 1: "wf_tree t \<longrightarrow> wf_tree t1" "files_kept {gitignore_path} t t1"
    using mkdir_all_wf [of t d "[''w17'']"] made(1) grows_files_kept [OF mkdir_all_grows [OF made(1)]] by simp_all
  from made(2) show ?thesis
  proof
    assume w: "write_file d gitignore_path b t1 = (t', ok')"
    from files_kept_trans [OF 1(2) same_but_files_kept [OF write_file_same_but [OF w]]] 1(1)
      write_file_wf [of t1 d gitignore_path b] w show ?thesis by simp
  qed (use 1 in simp)
qed simp

interpretation ignoring: tree_stage "\<lambda>t. (fst ((if adopt then ensure_gitignore else refresh_gitignore) d track t), None)"
    "{gitignore_path}" for adopt d track
proof
  fix t
  have "(wf_tree t \<longrightarrow> wf_tree (fst (ensure_gitignore d track t))) \<and> files_kept {gitignore_path} t (fst (ensure_gitignore d track t))"
    by (rule ensure_kept) (rule prod.collapse [symmetric])
  then show "wf_tree t \<Longrightarrow> wf_tree (fst (fst ((if adopt then ensure_gitignore else refresh_gitignore) d track t), None))"
    and "files_kept {gitignore_path} t (fst (fst ((if adopt then ensure_gitignore else refresh_gitignore) d track t), None))"
    by (simp_all add: refresh_gitignore_def)
qed

interpretation closing: tree_stage "closing_steps E C" "closing_scope E C" for E C
proof
  fix t
  obtain t0 where t0: "fst (refresh_platform_specs E (c_gofmt C) (c_guide C) t) = t0" by simp
  obtain t1 e where t1: "refresh_current_schema (c_fixtures C) (gdisk E) t0 = (t1, e)" by fastforce
  let ?t2 = "fst ((if c_adopt C then ensure_gitignore else refresh_gitignore) (gdisk E) (c_track C) t1)"
  have r: "fst (closing_steps E C t) = ?t2" by (simp add: closing_steps_def t0 t1)
  have 0: "wf_tree t \<Longrightarrow> wf_tree t0" "files_kept (guide_scope E (c_guide C)) t t0"
    using reference.stage_wf [of t E "c_gofmt C" "c_guide C"] reference.stage_kept [of E "c_guide C" t "c_gofmt C"]
    by (simp_all add: t0)
  have 1: "wf_tree t0 \<Longrightarrow> wf_tree t1" "files_kept {current_schema_path} t0 t1"
    using schema_file.stage_wf [of t0 "c_fixtures C" "gdisk E"] schema_file.stage_kept [of t0 "c_fixtures C" "gdisk E"] t1
    by simp_all
  have 2: "wf_tree t1 \<Longrightarrow> wf_tree ?t2" "files_kept {gitignore_path} t1 ?t2"
    using ignoring.stage_wf [of t1 "c_adopt C" "gdisk E" "c_track C"] ignoring.stage_kept [of t1 "c_adopt C" "gdisk E" "c_track C"]
    by simp_all
  show "wf_tree t \<Longrightarrow> wf_tree (fst (closing_steps E C t))" using 0(1) 1(1) 2(1) by (simp add: r)
  show "files_kept (closing_scope E C) t (fst (closing_steps E C t))"
    unfolding r by (rule files_kept_mono [OF files_kept_trans [OF files_kept_trans [OF 0(2) 1(2)] 2(2)]])
      (auto simp: closing_scope_def)
qed

section \<open>The ignore file only grows\<close>

lemma present_append: "present_patterns (a @ nl # b) = present_patterns a @ present_patterns b"
  by (simp add: present_patterns_def split_on_append)

lemma present_Nil [simp]: "present_patterns [] = []"
  by code_simp

definition plain_pattern :: "string \<times> string \<Rightarrow> bool" where
  "plain_pattern e \<longleftrightarrow> nl \<notin> set (snd e) \<and> trim_space (snd e) = snd e \<and> snd e \<noteq> []"

lemma plain_entries: "list_all plain_pattern (ignore_entries track)"
proof -
  have "list_all plain_pattern w17_ignore_entries" "list_all plain_pattern w17_output_ignore_entries" by code_simp+
  then show ?thesis by (simp add: ignore_entries_def)
qed

lemma entries_present:
  assumes e: "e \<in> set es" and p: "plain_pattern e"
  shows "snd e \<in> set (present_patterns (concat (map entry_text es)))"
proof -
  obtain as bs where es: "es = as @ e # bs" using e by (auto dest: split_list)
  let ?a = "concat (map entry_text as)" and ?b = "concat (map entry_text bs)"
  have own: "present_patterns (snd e) = [snd e]"
    using p by (simp add: present_patterns_def plain_pattern_def split_on_no_sep)
  have "\<exists>x. concat (map entry_text es) = x @ nl # snd e @ nl # ?b"
    by (cases "fst e = []") (auto simp: es entry_text_def intro: exI [of _ ?a] exI [of _ "?a @ nl # ''# '' @ fst e"])
  then obtain x where "concat (map entry_text es) = x @ nl # snd e @ nl # ?b" ..
  then show ?thesis by (simp add: present_append own)
qed

lemma extended_present:
  "set (present_patterns (extended_ignore existing es)) \<supseteq>
     set (present_patterns existing) \<union> set (present_patterns (concat (map entry_text es)))"
proof -
  consider (new) "existing = []" | (ends) a where "existing = a @ [nl]" | (unended) "existing \<noteq> []" "\<not> suffix [nl] existing"
    by (auto simp: suffix_def)
  then show ?thesis
  proof cases
    case new
    then show ?thesis by (simp add: extended_ignore_def present_append)
  next
    case (ends a)
    have "present_patterns existing = present_patterns a" using present_append [of a "[]"] by (simp add: ends)
    moreover have "extended_ignore existing es = a @ nl # concat (map entry_text es)" by (simp add: extended_ignore_def ends)
    ultimately show ?thesis by (simp add: present_append)
  next
    case unended
    then show ?thesis by (simp add: extended_ignore_def present_append)
  qed
qed

text \<open>C37: where files that are there can be read, bringing \<^verbatim>\<open>w17/.gitignore\<close> up to date, when it succeeds, only adds
  to it: what the file said stands at the beginning of what it
  says, so no rule of the project's own is lost; afterwards every pattern that is to be ignored is a line of it; and doing it
  again changes nothing. Nothing but that file changes.\<close>

theorem the_ignore_file_only_grows:
  assumes R: "unreadable d = (\<lambda>_ _. False)" and e: "ensure_gitignore d track t = (t', Some changed)"
  shows "\<exists>new. read_file d t' gitignore_path = Bytes new \<and>
    prefix (case read_file d t gitignore_path of Bytes b \<Rightarrow> b | _ \<Rightarrow> []) new \<and>
    (\<forall>b. read_file d t gitignore_path = Bytes b \<longrightarrow> set (present_patterns b) \<subseteq> set (present_patterns new)) \<and>
    snd ` set (ignore_entries track) \<subseteq> set (present_patterns new) \<and>
    ensure_gitignore d track t' = (t', Some False) \<and> files_kept {gitignore_path} t t'"
proof -
  let ?old = "case read_file d t gitignore_path of Bytes b \<Rightarrow> b | _ \<Rightarrow> []"
  let ?missing = "filter (\<lambda>e. \<not> List.member (present_patterns ?old) (snd e)) (ignore_entries track)"
  have kept: "files_kept {gitignore_path} t t'" using ensure_kept [OF e] by blast
  have again: "ensure_gitignore d track t' = (t', Some False)"
    if "read_file d t' gitignore_path = Bytes new" "snd ` set (ignore_entries track) \<subseteq> set (present_patterns new)" for new
    using that by (auto simp: ensure_gitignore_def filter_empty_conv)
  show ?thesis
  proof (cases "?missing = []")
    case True
    then have all: "snd ` set (ignore_entries track) \<subseteq> set (present_patterns ?old)"
      by (auto simp: filter_empty_conv)
    moreover have "ignore_entries track \<noteq> []" by (simp add: ignore_entries_def w17_ignore_entries_def)
    ultimately have "?old \<noteq> []" by auto
    then obtain b where b: "read_file d t gitignore_path = Bytes b" by (auto split: read.splits)
    with e True have "t' = t" by (simp add: ensure_gitignore_def)
    with b all again kept show ?thesis by auto
  next
    case False
    let ?new = "extended_ignore ?old ?missing"
    from e False obtain t1 where w: "write_file d gitignore_path ?new t1 = (t', True)"
      by (auto simp: ensure_gitignore_def Let_def split: read.splits if_splits prod.splits bool.splits)
    then have n: "read_file d t' gitignore_path = Bytes ?new" using write_file_ok R by (simp add: read_file_def)
    have pat: "snd ` set (ignore_entries track) \<subseteq> set (present_patterns ?new)"
    proof
      fix p assume "p \<in> snd ` set (ignore_entries track)"
      then obtain e where x: "e \<in> set (ignore_entries track)" "p = snd e" by blast
      then have "plain_pattern e" using plain_entries [of track] by (auto simp: list_all_iff)
      with x entries_present [of e ?missing] extended_present [of ?old ?missing]
      show "p \<in> set (present_patterns ?new)" by (cases "List.member (present_patterns ?old) p") auto
    qed
    have "prefix ?old ?new" by (simp add: extended_ignore_def)
    moreover have "set (present_patterns ?old) \<subseteq> set (present_patterns ?new)" using extended_present [of ?old ?missing] by blast
    ultimately show ?thesis using n pat again [OF n pat] kept by (intro exI [of _ ?new]) (auto split: read.splits)
  qed
qed

definition own_ignore :: tree where
  "own_ignore = [([''w17''], Dir), (gitignore_path, File (''mine/'' @ [nl] @ '' .env''))]"

theorem the_ignore_file_only_grows_witness:
  "\<exists>t' new. ensure_gitignore healthy_disk ''1'' own_ignore = (t', Some True) \<and> read_file healthy_disk t' gitignore_path = Bytes new \<and>
     prefix ''mine/'' new \<and> List.member (present_patterns new) ''tmp/'' \<and> ensure_gitignore healthy_disk ''1'' t' = (t', Some False)"
proof -
  have "snd (ensure_gitignore healthy_disk ''1'' own_ignore) = Some True" by code_simp
  then obtain t' where r: "ensure_gitignore healthy_disk ''1'' own_ignore = (t', Some True)" by (metis prod.collapse)
  have R: "unreadable healthy_disk = (\<lambda>_ _. False)" by (simp add: healthy_disk_def)
  have old: "read_file healthy_disk own_ignore gitignore_path = Bytes (''mine/'' @ [nl] @ '' .env'')" by code_simp
  have "list_ex (\<lambda>e. snd e = ''tmp/'') (ignore_entries ''1'')" by code_simp
  then obtain e where "e \<in> set (ignore_entries ''1'')" "snd e = ''tmp/''" unfolding list_ex_iff by blast
  then have t: "''tmp/'' \<in> snd ` set (ignore_entries ''1'')" using imageI [of e "set (ignore_entries ''1'')" snd] by simp
  from the_ignore_file_only_grows [OF R r] old obtain new where n: "read_file healthy_disk t' gitignore_path = Bytes new"
    "prefix (''mine/'' @ [nl] @ '' .env'') new" "snd ` set (ignore_entries ''1'') \<subseteq> set (present_patterns new)"
    "ensure_gitignore healthy_disk ''1'' t' = (t', Some False)" by auto
  have "prefix ''mine/'' new" by (rule append_prefixD [OF n(2)])
  moreover have "List.member (present_patterns new) ''tmp/''" using n(3) t by auto
  ultimately show ?thesis using r n(1,4) by blast
qed

end
