(* ===== verification/RunOnDisk.thy ===== *)
theory RunOnDisk
  imports Closing
begin

text \<open>
  A run of \<^verbatim>\<open>w17ctl codegen\<close> from the moment the rendered files are there: \<^verbatim>\<open>Run\<close> in
  \<^verbatim>\<open>src/internal/codegen/codegen.go\<close> from the question whether an earlier record exists to the pinning of the
  modules and the closing steps after it (\<^verbatim>\<open>Closing\<close>), with the record taken once more on the way out. The notices
  it prints are not part of it.
\<close>

section \<open>The run\<close>

record ('m, 'w) run_env =
  r_gen :: "'m gen_env"
  r_conf :: gen_config
  r_ship :: shipment
  r_mint :: minter
  r_work :: "'w worklib"
  r_sem :: semver
  r_pins :: pin_context
  r_stubs :: string
  r_gendir :: string
  r_sdk_version :: string
  r_clean :: "string list"
  r_prune :: "string list"
  r_closing :: closing_env

datatype run_failure =
    Generated gen_error
  | Vendoring vendor_error
  | PrivatePki pki_error
  | Workspace work_error
  | Pinning pin_error
  | Schema schema_error

definition prior_pins :: "('m, 'w) run_env \<Rightarrow> tree \<Rightarrow> (string, string) gomap" where
  "prior_pins K t =
     (let L = gmods (r_gen K); d = gdisk (r_gen K)
      in snapshot_sdk_go_pins L d t (sdk_go_module_dirs L d t (services_dir (r_conf K)) (r_stubs K) (r_gendir K)))"

text \<open>What follows the writes, each step only when the one before it went well.\<close>

definition after_writes ::
    "('m, 'w) run_env \<Rightarrow> (string, string) gomap \<Rightarrow> bool \<Rightarrow> write_op list \<Rightarrow> string list \<Rightarrow> tree \<Rightarrow> tree \<times> run_failure option" where
  "after_writes K prior had ops deletes =
     (let E = r_gen K; d = gdisk E; services = services_dir (r_conf K)
      in then_stage (as_error Vendoring (vendor_admin_runtime (r_ship K) d services ops))
        (then_stage (as_error PrivatePki (pki_stage (r_mint K) d services))
        (then_stage (as_error Generated (apply_deletes E deletes))
        (then_stage (as_error Generated (prune_stale E (r_clean K) (r_prune K) (map op_path ops) services had))
        (then_stage (as_error Workspace (sync_go_work (r_work K) d services (r_stubs K)))
        (then_stage (as_error Pinning
            (pin_stage (gmods E) (r_sem K) d (r_pins K) services (r_stubs K) (r_gendir K) prior (r_sdk_version K)))
          (as_error Schema (closing_steps E (r_closing K)))))))))"

definition put_on_disk ::
    "('m, 'w) run_env \<Rightarrow> string list \<Rightarrow> write_op list \<Rightarrow> string list \<Rightarrow> tree \<Rightarrow> tree \<times> run_failure option" where
  "put_on_disk K unchanged ops deletes t =
     (let E = r_gen K; had = written_manifest_exists t; prior = prior_pins K t
      in case apply_write_ops E (r_conf K) unchanged ops t of
        (t1, Some e) \<Rightarrow> (t1, Some (Generated e))
      | (t1, None) \<Rightarrow>
          (case after_writes K prior had ops deletes t1 of
             (t2, e) \<Rightarrow> (record_written_manifest E ops t2, e)))"

section \<open>What a run may change\<close>

definition after_scope :: "('m, 'w) run_env \<Rightarrow> write_op list \<Rightarrow> string list \<Rightarrow> path set" where
  "after_scope K ops deletes =
     {p. prefix (runtime_dir (services_dir (r_conf K))) p} \<union>
     ({p. prefix (private_certs (services_dir (r_conf K))) p} \<union>
     (delete_scope (r_gen K) deletes \<union>
     (prune_scope (map op_path ops) (r_clean K @ r_prune K) \<union> ({go_work} \<union> (go_mod_files \<union>
      closing_scope (r_gen K) (r_closing K))))))"

definition run_scope :: "('m, 'w) run_env \<Rightarrow> write_op list \<Rightarrow> string list \<Rightarrow> path set" where
  "run_scope K ops deletes = write_scope (r_gen K) ops \<union> after_scope K ops deletes"

lemma after_writes_is_stage:
  "minter_laws (r_mint K) \<Longrightarrow> tree_stage (after_writes K prior had ops deletes) (after_scope K ops deletes)"
  unfolding after_writes_def after_scope_def Let_def
  by (intro then_stage_is_stage as_error_is_stage pki_is_stage vendored.tree_stage_axioms deletes.tree_stage_axioms
      prune.tree_stage_axioms workspace.tree_stage_axioms pins.tree_stage_axioms closing.tree_stage_axioms)

lemma put_on_disk_cases:
  assumes "put_on_disk K u ops deletes t = (t', e)"
  obtains (refused) g where "apply_write_ops (r_gen K) (r_conf K) u ops t = (t', Some g)" and "e = Some (Generated g)"
  | (written) t1 t2 where "apply_write_ops (r_gen K) (r_conf K) u ops t = (t1, None)"
      and "after_writes K (prior_pins K t) (written_manifest_exists t) ops deletes t1 = (t2, e)"
      and "t' = record_written_manifest (r_gen K) ops t2"
  using assms unfolding put_on_disk_def Let_def by (auto split: prod.splits option.splits)

lemma record_is_stage: "tree_stage (\<lambda>t. (record_written_manifest E ops t, None)) {manifest_path, manifest_tmp}"
  using record_wf [of _ E ops] record_files_kept [of _ E ops] by unfold_locales simp_all

lemma put_on_disk_kept:
  assumes M: "minter_laws (r_mint K)" and r: "put_on_disk K u ops deletes t = (t', e)"
  shows "wf_tree t \<longrightarrow> wf_tree t'" and "files_kept (run_scope K ops deletes) t t'"
proof -
  let ?E = "r_gen K"
  note tail = after_writes_is_stage [OF M]
  have "(wf_tree t \<longrightarrow> wf_tree t') \<and> files_kept (run_scope K ops deletes) t t'"
    using r
  proof (cases rule: put_on_disk_cases)
    case (refused g)
    then have "fst (apply_write_ops ?E (r_conf K) u ops t) = t'" by simp
    moreover note writes.stage_wf [of t ?E "r_conf K" u ops] writes.stage_kept [of ?E ops t "r_conf K" u]
    ultimately show ?thesis by (auto simp: run_scope_def intro: files_kept_mono)
  next
    case (written t1 t2)
    have 1: "wf_tree t \<longrightarrow> wf_tree t1" "files_kept (write_scope ?E ops) t t1"
      using writes.stage_wf [of t ?E "r_conf K" u ops] writes.stage_kept [of ?E ops t "r_conf K" u] written(1) by simp_all
    have 2: "wf_tree t1 \<longrightarrow> wf_tree t2" "files_kept (after_scope K ops deletes) t1 t2"
      using tree_stage.stage_wf [OF tail, of t1 "prior_pins K t" "written_manifest_exists t" ops deletes]
        tree_stage.stage_kept [OF tail, of ops deletes t1 "prior_pins K t" "written_manifest_exists t"] written(2) by simp_all
    have 3: "wf_tree t2 \<longrightarrow> wf_tree t'" "files_kept {manifest_path, manifest_tmp} t2 t'"
      using record_wf [of t2 ?E ops] record_files_kept [of t2 ?E ops] written(3) by simp_all
    have "files_kept (write_scope ?E ops \<union> after_scope K ops deletes \<union> {manifest_path, manifest_tmp}) t t'"
      by (rule files_kept_trans [OF files_kept_trans [OF 1(2) 2(2)] 3(2)])
    then have "files_kept (run_scope K ops deletes) t t'"
      by (rule files_kept_mono) (auto simp: run_scope_def write_scope_def)
    with 1 2 3 show ?thesis by blast
  qed
  then show "wf_tree t \<longrightarrow> wf_tree t'" and "files_kept (run_scope K ops deletes) t t'" by blast+
qed

text \<open>C6: whatever fails, from its first write to its end a run writes and takes only what is its own: the rendered
  paths and the record, the vendored runtime, the private certificates, what the compiler asked to delete, unrendered
  files below the pruned roots, the workspace file, the files named \<^verbatim>\<open>go.mod\<close>, the files of the reference the console
  streams, the current schema of the fixtures and \<^verbatim>\<open>w17/.gitignore\<close>. Every other file is there as it was, and no file
  appears elsewhere.\<close>

theorem a_run_changes_only_what_is_its_own:
  assumes M: "minter_laws (r_mint K)" and r: "put_on_disk K u ops deletes t = (t', e)"
    and p: "p \<notin> run_scope K ops deletes"
  shows "(node_at t' p = Some (File b) \<longleftrightarrow> node_at t p = Some (File b)) \<and>
    (node_at t p = Some Dir \<longrightarrow> node_at t' p = Some Dir)"
  using files_keptD [OF put_on_disk_kept(2) [OF M r] p] files_kept_there [OF put_on_disk_kept(2) [OF M r] p] by blast+

text \<open>When a run ends well, what the compiler rendered is on disk (a \<^verbatim>\<open>go.mod\<close> merged, volatile lines
  apart), for every path that no later step owns: neither the deletes nor the prune takes a file of the run.\<close>

theorem what_a_run_rendered_is_there_at_the_end:
  assumes M: "minter_laws (r_mint K)" and R: "unreadable (gdisk (r_gen K)) = (\<lambda>_ _. False)"
    and D: "targets_distinct (r_gen K) ops" and r: "put_on_disk K u ops deletes t = (t', None)"
    and w: "w \<in> set ops" "op_path w \<notin> set u" "contained_join (r_gen K) (op_path w) = Some p"
    and plain: "join_with [slash] p = op_path w" and out: "p \<notin> {manifest_path, manifest_tmp}"
    and own: "\<not> prefix (runtime_dir (services_dir (r_conf K))) p" "\<not> prefix (private_certs (services_dir (r_conf K))) p"
      "p \<notin> delete_scope (r_gen K) deletes" "p \<noteq> go_work" "last p \<noteq> ''go.mod''" "p \<notin> closing_scope (r_gen K) (r_closing K)"
  shows "(op_if_missing w \<and> exists_at t p \<and> node_at t p = node_at t' p) \<or>
     (\<exists>b. final_body (r_gen K) t (op_path w) p (op_contents w) = Inr b \<and> says t' p b)"
  using r
proof (cases rule: put_on_disk_cases)
  case (written t1 t2)
  let ?E = "r_gen K"
  have "p \<notin> prune_scope (map op_path ops) (r_clean K @ r_prune K)" using plain w(1) by (auto simp: prune_scope_def)
  with own have a: "p \<notin> after_scope K ops deletes" by (simp add: after_scope_def go_mod_files_def)
  have "files_kept (after_scope K ops deletes) t1 t2"
    using tree_stage.stage_kept [OF after_writes_is_stage [OF M], of ops deletes t1 "prior_pins K t" "written_manifest_exists t"]
      written(2) by simp
  from files_kept_trans [OF this record_files_kept [of t2 ?E ops]]
  have k: "files_kept (after_scope K ops deletes \<union> {manifest_path, manifest_tmp}) t1 t'" by (simp add: written(3))
  have p: "p \<notin> after_scope K ops deletes \<union> {manifest_path, manifest_tmp}" using a out by simp
  from run_leaves_rendered [OF R D written(1) w out] show ?thesis
  proof (elim disjE exE conjE)
    assume m: "op_if_missing w" "exists_at t p" "node_at t1 p = node_at t p"
    then obtain n where "node_at t1 p = Some n" by (auto simp: exists_at_def)
    from files_kept_there [OF k p this] m this show ?thesis by simp
  next
    fix b assume "final_body ?E t (op_path w) p (op_contents w) = Inr b" and "says t1 p b"
    with says_kept [OF k p] show ?thesis by blast
  qed
qed simp

section \<open>The record on the way out\<close>

lemma record_nodes:
  assumes H: "gdisk E = healthy_disk" and w17: "node_at t [''w17''] = Some Dir"
    and nodir: "node_at t manifest_path \<noteq> Some Dir" "node_at t manifest_tmp \<noteq> Some Dir"
  shows "\<exists>b. node_at (record_written_manifest E ops t) manifest_path = Some (File b)"
proof -
  let ?b = "marshal E (written_entries E ops t) @ [nl]"
  obtain t1 where t1: "write_file healthy_disk manifest_tmp ?b t = (t1, True)"
    using w17 nodir by (simp add: write_file_def healthy_disk_def manifest_tmp_def)
  have n1: "node_at t1 manifest_tmp = Some (File ?b)" "node_at t1 [''w17''] = Some Dir"
      "node_at t1 manifest_path \<noteq> Some Dir"
    using write_file_ok [OF t1] same_butD [OF write_file_same_but [OF t1]] w17 nodir
    by (simp_all add: manifest_tmp_def manifest_path_def)
  obtain t2 where t2: "rename_file healthy_disk manifest_tmp manifest_path t1 = (t2, True)"
    using n1 by (simp add: rename_file_def healthy_disk_def manifest_path_def)
  have "mkdir_all healthy_disk (butlast manifest_path) t = (t, True)"
    using mkdir_all_present [OF w17] by (simp add: manifest_path_def)
  then have "record_written_manifest E ops t = t2"
    using t1 t2 by (simp add: record_written_manifest_def write_manifest_file_def H)
  with rename_file_ok [OF t2 n1(1)] show ?thesis by blast
qed

lemma record_stuck:
  assumes H: "gdisk E = healthy_disk" and w17: "node_at t [''w17''] = Some Dir" and d: "node_at t manifest_tmp = Some Dir"
  shows "node_at (record_written_manifest E ops t) manifest_tmp = Some Dir"
proof -
  have "mkdir_all healthy_disk (butlast manifest_path) t = (t, True)"
    using mkdir_all_present [OF w17] by (simp add: manifest_path_def)
  moreover have "write_file healthy_disk manifest_tmp b t = (t, False)" for b
    using d by (simp add: write_file_def healthy_disk_def)
  ultimately have r: "record_written_manifest E ops t = fst (remove_one healthy_disk manifest_path t)"
    by (simp add: record_written_manifest_def write_manifest_file_def H)
  obtain t1 ok where m: "remove_one healthy_disk manifest_path t = (t1, ok)" by (cases "remove_one healthy_disk manifest_path t")
  have "manifest_tmp \<notin> {manifest_path}" by (simp add: manifest_tmp_def manifest_path_def)
  with same_butD [OF remove_one_same_but [OF m]] d show ?thesis by (simp add: r m)
qed

lemma load_same:
  assumes R: "unreadable (gdisk E) = (\<lambda>_ _. False)" and n: "node_at t' manifest_path = Some (File b)"
    and "node_at t manifest_path = Some (File b)"
  shows "load_written_manifest E t' = load_written_manifest E t"
  using assms by (simp add: load_written_manifest_def read_file_def)

lemma written_entries_names:
  assumes "load_written_manifest E t = Inr (Some prior)" and "wf_map prior"
    and "w \<in> set ops" and "\<not> op_if_missing w" and c: "contained_join E (op_path w) = Some p"
  shows "map_of (written_entries E ops t) (op_path w) = file_digest E t p"
proof -
  have "map_of (fold (record_op E t) ops []) (op_path w) = file_digest E t p"
    using assms(3,4) c by (auto simp: map_of_fold_record digest_of_def)
  with assms map_of_fold_keep [OF assms(2), of E t "map op_path ops" "fold (record_op E t) ops []" "op_path w"]
  show ?thesis by (simp add: written_entries_def Let_def)
qed


section \<open>A worker that deletes the lock\<close>

lemma remove_all_keeps_out:
  assumes "remove_all d q t = (t1, ok)" and "\<nexists>b. node_at t p = Some (File b)"
  shows "\<nexists>b. node_at t1 p = Some (File b)"
proof -
  have "t1 = fst (remove_all d q t)" using assms(1) by simp
  then show ?thesis using node_at_remove_all [of d q t p] assms(2) by (auto split: if_splits)
qed

lemma deletes_keep_out:
  "apply_deletes E rels t = (t', e) \<Longrightarrow> \<nexists>b. node_at t p = Some (File b) \<Longrightarrow> \<nexists>b. node_at t' p = Some (File b)"
proof (induction rels arbitrary: t)
  case (Cons rel rels)
  show ?case
  proof (cases "contained_join E rel")
    case (Some q)
    obtain t1 ok where m: "remove_all (gdisk E) q t = (t1, ok)" by (cases "remove_all (gdisk E) q t")
    from remove_all_keeps_out [OF m Cons.prems(2)] have "\<nexists>b. node_at t1 p = Some (File b)" .
    with Cons.prems(1) Cons.IH [of t1] Some m show ?thesis by (cases ok) auto
  qed (use Cons.prems in simp)
qed simp

lemma deletes_take:
  assumes "p \<noteq> []"
  shows "apply_deletes E rels t = (t', None) \<Longrightarrow> rel \<in> set rels \<Longrightarrow> contained_join E rel = Some p \<Longrightarrow>
    \<nexists>b. node_at t' p = Some (File b)"
proof (induction rels arbitrary: t)
  case (Cons r rels)
  obtain q t1 where q: "contained_join E r = Some q" and m: "remove_all (gdisk E) q t = (t1, True)"
    and rest: "apply_deletes E rels t1 = (t', None)"
    using Cons.prems(1) by (auto split: option.splits prod.splits bool.splits)
  show ?case
  proof (cases "rel = r")
    case True
    then have "p = q" using Cons.prems(3) q by simp
    with remove_all_ok [OF m, of p] assms have "\<nexists>b. node_at t1 p = Some (File b)" by simp
    from deletes_keep_out [OF rest this] show ?thesis .
  next
    case False
    with Cons.IH [OF rest] Cons.prems show ?thesis by simp
  qed
qed simp

lemma then_stage_ok:
  assumes "then_stage f g t = (t', None)"
  obtains t1 where "f t = (t1, None)" and "g t1 = (t', None)"
  using assms by (cases "f t") (auto simp: then_stage_def split: option.splits)

lemma as_error_ok: "as_error h f t = (t', None) \<Longrightarrow> f t = (t', None)"
  by (cases "f t") (simp add: as_error_def)

lemma collected_deletes: "DeleteOp rel \<in> set sent \<Longrightarrow> rel \<in> set (res_deletes (collect_ops track sent))"
proof -
  have kept: "rel \<in> set (res_deletes res) \<Longrightarrow> rel \<in> set (res_deletes (fold (collect_op track) xs res))" for xs res
    by (induction xs arbitrary: res) (auto simp: collect_op_def split: generated_op.split)
  have "DeleteOp rel \<in> set xs \<Longrightarrow> rel \<in> set (res_deletes (fold (collect_op track) xs res))" for xs res
  proof (induction xs arbitrary: res)
    case (Cons x xs)
    show ?case
    proof (cases "x = DeleteOp rel")
      case True
      then have "rel \<in> set (res_deletes (collect_op track x res))" by (simp add: collect_op_def)
      from kept [OF this] show ?thesis by simp
    qed (use Cons in auto)
  qed simp
  then show "DeleteOp rel \<in> set sent \<Longrightarrow> rel \<in> set (res_deletes (collect_ops track sent))" by (simp add: collect_ops_def)
qed

text \<open>C38: the writes a worker sends for the lock are dropped, its deletes are not: a worker that sends a delete for
  \<^verbatim>\<open>w17/lock.yaml\<close> leaves the project without the lock the console signed in the same run, and the run
  ends as a success (unless the reference the console streams afterwards brings a file of that name).\<close>

theorem a_workers_delete_takes_the_signed_lock:
  assumes M: "minter_laws (r_mint K)" and sent: "DeleteOp lock_path \<in> set sent"
    and c: "contained_join (r_gen K) lock_path = Some [''w17'', ''lock.yaml'']" and lock: "lock_path \<in> op_path ` set ops"
    and r: "put_on_disk K u ops (res_deletes (collect_ops track sent)) t = (t', None)"
  shows "(\<nexists>b. node_at t' [''w17'', ''lock.yaml''] = Some (File b)) \<or>
    [''w17'', ''lock.yaml''] \<in> guide_scope (r_gen K) (c_guide (r_closing K))"
  using r
proof (cases rule: put_on_disk_cases)
  case (written t1 t2)
  let ?E = "r_gen K" and ?d = "gdisk (r_gen K)" and ?s = "services_dir (r_conf K)" and ?l = "[''w17'', ''lock.yaml'']"
  let ?prune = "prune_stale ?E (r_clean K) (r_prune K) (map op_path ops) ?s (written_manifest_exists t)"
  let ?close = "closing_steps ?E (r_closing K)"
  let ?pins = "pin_stage (gmods ?E) (r_sem K) ?d (r_pins K) ?s (r_stubs K) (r_gendir K) (prior_pins K t) (r_sdk_version K)"
  obtain ta tb where del: "apply_deletes ?E (res_deletes (collect_ops track sent)) ta = (tb, None)"
    and rest: "then_stage (as_error Generated ?prune) (then_stage (as_error Workspace (sync_go_work (r_work K) ?d ?s (r_stubs K)))
      (then_stage (as_error Pinning ?pins) (as_error Schema ?close))) tb = (t2, None)"
  proof -
    note w = written(2) [unfolded after_writes_def Let_def]
    obtain x1 where x1: "then_stage (as_error PrivatePki (pki_stage (r_mint K) ?d ?s))
        (then_stage (as_error Generated (apply_deletes ?E (res_deletes (collect_ops track sent))))
        (then_stage (as_error Generated ?prune) (then_stage (as_error Workspace (sync_go_work (r_work K) ?d ?s (r_stubs K)))
          (then_stage (as_error Pinning ?pins) (as_error Schema ?close))))) x1 = (t2, None)"
      using w by (rule then_stage_ok)
    obtain x2 where x2: "then_stage (as_error Generated (apply_deletes ?E (res_deletes (collect_ops track sent))))
        (then_stage (as_error Generated ?prune) (then_stage (as_error Workspace (sync_go_work (r_work K) ?d ?s (r_stubs K)))
          (then_stage (as_error Pinning ?pins) (as_error Schema ?close)))) x2 = (t2, None)"
      using x1 by (rule then_stage_ok)
    then show ?thesis by (rule then_stage_ok) (rule that [OF as_error_ok])
  qed
  have gone: "\<nexists>b. node_at tb ?l = Some (File b)"
    by (rule deletes_take [OF _ del collected_deletes [OF sent] c]) simp
  have "tree_stage (then_stage (as_error Generated ?prune) (then_stage (as_error Workspace (sync_go_work (r_work K) ?d ?s (r_stubs K)))
      (then_stage (as_error Pinning ?pins) (as_error Schema ?close))))
      (prune_scope (map op_path ops) (r_clean K @ r_prune K) \<union> ({go_work} \<union> (go_mod_files \<union> closing_scope ?E (r_closing K))))"
    by (intro then_stage_is_stage as_error_is_stage prune.tree_stage_axioms workspace.tree_stage_axioms pins.tree_stage_axioms
        closing.tree_stage_axioms)
  from files_kept_trans [OF tree_stage.stage_kept [OF this] record_files_kept [of _ ?E ops], of tb]
  have k: "files_kept (prune_scope (map op_path ops) (r_clean K @ r_prune K) \<union> ({go_work} \<union> (go_mod_files \<union>
      closing_scope ?E (r_closing K))) \<union> {manifest_path, manifest_tmp}) tb t'"
    by (simp add: rest written(3))
  have "join_with [slash] ?l = lock_path" by (simp add: lock_path_def)
  with lock have "?l \<notin> prune_scope (map op_path ops) (r_clean K @ r_prune K)" by (auto simp: prune_scope_def)
  then have "?l \<notin> prune_scope (map op_path ops) (r_clean K @ r_prune K) \<union> ({go_work} \<union> (go_mod_files \<union>
      closing_scope ?E (r_closing K))) \<union> {manifest_path, manifest_tmp} \<or> ?l \<in> guide_scope ?E (c_guide (r_closing K))"
    by (simp add: go_work_def go_mod_files_def manifest_path_def manifest_tmp_def closing_scope_def current_schema_path_def
        gitignore_path_def)
  with files_keptD [OF k] gone show ?thesis by blast
qed simp

section \<open>A concrete run\<close>

definition writing_minter :: minter where
  "writing_minter dir name uri dns t =
     (case mkdir_all healthy_disk dir t of
        (t1, False) \<Rightarrow> (t1, None)
      | (t1, True) \<Rightarrow>
          (case write_file healthy_disk (dir @ [name @ ''.crt'']) uri t1 of
             (t2, ok) \<Rightarrow> (t2, if ok then Some [name @ ''.crt''] else None)))"

lemma writing_minter_laws: "minter_laws writing_minter"
  unfolding minter_laws_def
proof (intro allI conjI impI)
  fix dir name uri dns t
  obtain t1 ok where m: "mkdir_all healthy_disk dir t = (t1, ok)" by (cases "mkdir_all healthy_disk dir t")
  obtain t2 ok2 where f: "write_file healthy_disk (dir @ [name @ ''.crt'']) uri t1 = (t2, ok2)"
    by (cases "write_file healthy_disk (dir @ [name @ ''.crt'']) uri t1")
  show "wf_tree (fst (writing_minter dir name uri dns t))" if w: "wf_tree t"
  proof -
    have w1: "wf_tree t1" using mkdir_all_wf [OF w, of healthy_disk dir] m by simp
    have "wf_tree t2" using write_file_wf [OF w1, of healthy_disk "dir @ [name @ ''.crt'']" uri] f by simp
    with w1 show ?thesis using m f by (simp add: writing_minter_def split: bool.split)
  qed
  have 1: "files_kept {p. prefix dir p} t t1" by (rule grows_files_kept [OF mkdir_all_grows [OF m]])
  have "files_kept {p. prefix dir p} t1 t2"
    by (rule files_kept_mono [OF same_but_files_kept [OF write_file_same_but [OF f]]]) simp
  with files_kept_trans [OF 1 this] 1 show "files_kept {p. prefix dir p} t (fst (writing_minter dir name uri dns t))"
    using m f by (simp add: writing_minter_def split: bool.split)
qed

text \<open>The console streams one file of the reference; one rendered seed has a fixture, and the schema the console names
  for it is written down.\<close>

definition sample_fixtures :: fixture_env where
  "sample_fixtures =
     \<lparr>fx_manifest = (\<lambda>_. Inr (Some \<lparr>rm_source_root = ''src'', rm_seeds = [(''acme/roles'', ''roles.json'')]\<rparr>)),
      fx_away = (\<lambda>_. NotExist), fx_read_away = (\<lambda>_. NotExist), fx_protos = (\<lambda>_. Inr [''m.proto'']),
      fx_ir = (\<lambda>_. Inr ''ir''), fx_dial = None, fx_render = (\<lambda>_ domain _. RenderedSeed (Some domain)),
      fx_read = (\<lambda>_. None), fx_same = (\<lambda>_ _. False),
      fx_write = (\<lambda>cur _. (Some (concat (map (\<lambda>x. fst x @ ''='' @ (case snd x of SeedSchema (Some v) \<Rightarrow> v | _ \<Rightarrow> [])) cur)), True))\<rparr>"

definition sample_closing :: closing_env where
  "sample_closing = \<lparr>c_gofmt = (\<lambda>_. None), c_guide = Some ([(''w17/specs/a.md'', ''reference'')], True),
     c_fixtures = sample_fixtures, c_adopt = False, c_track = []\<rparr>"

definition sample_run :: "(requirement list \<times> replacement list, string) run_env" where
  "sample_run =
     \<lparr>r_gen = sample_env, r_conf = sample_config, r_ship = sample_shipment, r_mint = writing_minter, r_work = line_work,
      r_sem = byte_versions, r_pins = pin_case, r_stubs = ''w17/stubs'', r_gendir = [], r_sdk_version = [],
      r_clean = [''w17/services''], r_prune = [], r_closing = sample_closing\<rparr>"

definition run_ops :: "write_op list" where
  "run_ops = [op_of ''w17/a.json'' ''{1}'', op_of lock_path ''lock'']"

definition identities :: path where
  "identities = [''w17'', ''services'', ''private-proxy'', ''identities.txt'']"

definition run_tree :: tree where
  "run_tree =
     sample_tree @ [([''w17'', ''fixtures''], Dir), ([''w17'', ''fixtures'', ''src''], Dir),
       ([''w17'', ''fixtures'', ''src'', ''roles.json''], File ''roles''), ([''w17'', ''services''], Dir), ([''w17'', ''services'', ''private-proxy''], Dir),
       (identities, File (''# names'' @ [nl] @ ''api spiffe://api'' @ [nl]))]"

lemma sample_run_laws: "minter_laws (r_mint sample_run)"
  by (simp add: sample_run_def writing_minter_laws)

lemma sample_scopes_env: "r_gen sample_run = sample_env"
  by (simp add: sample_run_def)

lemma sample_run_result:
  "snd (put_on_disk sample_run [] run_ops [''w17/b.json''] run_tree) = None"
  "node_at (fst (put_on_disk sample_run [] run_ops [''w17/b.json''] run_tree)) [''w17'', ''certs'', ''private'', ''api.crt''] = Some (File ''spiffe://api'')"
  "node_at (fst (put_on_disk sample_run [] run_ops [''w17/b.json''] run_tree)) manifest_tmp \<noteq> Some Dir"
  "file_digest sample_env (fst (put_on_disk sample_run [] run_ops [''w17/b.json''] run_tree)) [''w17'', ''a.json''] = Some ''{1}''"
  "node_at (fst (put_on_disk sample_run [] run_ops [''w17/b.json''] run_tree)) [''w17'', ''specs'', ''a.md''] = Some (File ''reference'')"
  "node_at (fst (put_on_disk sample_run [] run_ops [''w17/b.json''] run_tree)) current_schema_path = Some (File ''acme/roles=acme'')"
proof -
  have "case put_on_disk sample_run [] run_ops [''w17/b.json''] run_tree of (t, e) \<Rightarrow>
      e = None \<and> node_at t [''w17'', ''certs'', ''private'', ''api.crt''] = Some (File ''spiffe://api'') \<and>
      node_at t manifest_tmp \<noteq> Some Dir \<and> file_digest sample_env t [''w17'', ''a.json''] = Some ''{1}'' \<and>
      node_at t [''w17'', ''specs'', ''a.md''] = Some (File ''reference'') \<and> node_at t current_schema_path = Some (File ''acme/roles=acme'')"
    by code_simp
  then show "snd (put_on_disk sample_run [] run_ops [''w17/b.json''] run_tree) = None"
    "node_at (fst (put_on_disk sample_run [] run_ops [''w17/b.json''] run_tree)) [''w17'', ''certs'', ''private'', ''api.crt''] = Some (File ''spiffe://api'')"
    "node_at (fst (put_on_disk sample_run [] run_ops [''w17/b.json''] run_tree)) manifest_tmp \<noteq> Some Dir"
    "file_digest sample_env (fst (put_on_disk sample_run [] run_ops [''w17/b.json''] run_tree)) [''w17'', ''a.json''] = Some ''{1}''"
    "node_at (fst (put_on_disk sample_run [] run_ops [''w17/b.json''] run_tree)) [''w17'', ''specs'', ''a.md''] = Some (File ''reference'')"
    "node_at (fst (put_on_disk sample_run [] run_ops [''w17/b.json''] run_tree)) current_schema_path = Some (File ''acme/roles=acme'')"
    by (simp_all only: case_prod_beta simp_thms)
qed

lemma sample_run_ends: "put_on_disk sample_run [] run_ops [''w17/b.json''] run_tree = (fst (put_on_disk sample_run [] run_ops [''w17/b.json''] run_tree), None)"
  using sample_run_result(1) by (metis prod.collapse)

lemma sample_scopes:
  "services_dir (r_conf sample_run) = ''w17/services''"
  "runtime_dir ''w17/services'' = [''w17'', ''admin-runtime'']" "private_certs ''w17/services'' = [''w17'', ''certs'', ''private'']"
  "contained_join sample_env ''w17/b.json'' = Some [''w17'', ''b.json'']"
  "contained_join sample_env ''w17/a.json'' = Some [''w17'', ''a.json'']"
  "contained_join sample_env lock_path = Some [''w17'', ''lock.yaml'']"
  "guard_join sample_env ''w17/specs/a.md'' = Some [''w17'', ''specs'', ''a.md'']"
  by code_simp+

lemma sample_guide_scope: "guide_scope sample_env (c_guide (r_closing sample_run)) = {[''w17'', ''specs'', ''a.md'']}"
  by (simp add: guide_scope_def sample_run_def sample_closing_def sample_scopes)

lemma sample_closing_scope:
  "closing_scope sample_env (r_closing sample_run) =
     {[''w17'', ''specs'', ''a.md''], [''w17'', ''fixtures'', ''.current-schema.json''], [''w17'', ''.gitignore'']}"
  by (simp add: closing_scope_def sample_guide_scope current_schema_path_def gitignore_path_def insert_commute)

lemma sample_after_scope:
  "p \<in> after_scope sample_run ops [''w17/b.json''] \<longleftrightarrow>
     prefix [''w17'', ''admin-runtime''] p \<or> prefix [''w17'', ''certs'', ''private''] p \<or> prefix [''w17'', ''b.json''] p \<or>
     prefix [''w17'', ''services''] p \<and> join_with [slash] p \<notin> op_path ` set ops \<or> p = go_work \<or> p \<in> go_mod_files \<or>
     p \<in> {[''w17'', ''specs'', ''a.md''], [''w17'', ''fixtures'', ''.current-schema.json''], [''w17'', ''.gitignore'']}"
proof -
  have "r_clean sample_run @ r_prune sample_run = [''w17/services'']" "path_elems ''w17/services'' = [''w17'', ''services'']"
    by code_simp+
  then show ?thesis
    by (simp only: after_scope_def sample_scopes sample_scopes_env sample_closing_scope)
      (auto simp: delete_scope_def prune_scope_def sample_scopes sample_scopes_env)
qed

theorem a_run_changes_only_what_is_its_own_witness:
  "node_at (fst (put_on_disk sample_run [] run_ops [''w17/b.json''] run_tree)) [''w17'', ''old.go''] = Some (File go_banner) \<and>
   node_at (fst (put_on_disk sample_run [] run_ops [''w17/b.json''] run_tree)) [''w17'', ''specs'', ''a.md''] = Some (File ''reference'')"
proof -
  let ?p = "[''w17'', ''old.go'']"
  have "?p \<notin> write_scope (r_gen sample_run) run_ops"
    by (simp add: write_scope_def run_ops_def op_of_def sample_scopes sample_scopes_env manifest_path_def manifest_tmp_def)
  then have out: "?p \<notin> run_scope sample_run run_ops [''w17/b.json'']"
    by (simp add: run_scope_def sample_after_scope go_work_def go_mod_files_def)
  have "node_at run_tree ?p = Some (File go_banner)" by code_simp
  with a_run_changes_only_what_is_its_own [OF sample_run_laws prod.collapse [symmetric] out] sample_run_result(5)
  show ?thesis by blast
qed

theorem what_a_run_rendered_is_there_at_the_end_witness:
  "says (fst (put_on_disk sample_run [] run_ops [''w17/b.json''] run_tree)) [''w17'', ''a.json''] ''{1}''"
proof -
  let ?w = "op_of ''w17/a.json'' ''{1}''" and ?p = "[''w17'', ''a.json'']"
  have R: "unreadable (gdisk (r_gen sample_run)) = (\<lambda>_ _. False)" by (simp add: sample_scopes sample_scopes_env sample_env_def healthy_disk_def)
  have D: "targets_distinct (r_gen sample_run) run_ops" by code_simp
  have w: "?w \<in> set run_ops" "op_path ?w \<notin> set []" "contained_join (r_gen sample_run) (op_path ?w) = Some ?p"
    by (simp_all add: run_ops_def op_of_def sample_scopes sample_scopes_env)
  have plain: "join_with [slash] ?p = op_path ?w" and out: "?p \<notin> {manifest_path, manifest_tmp}"
    by (simp_all add: op_of_def manifest_path_def manifest_tmp_def)
  have own: "\<not> prefix (runtime_dir (services_dir (r_conf sample_run))) ?p"
    "\<not> prefix (private_certs (services_dir (r_conf sample_run))) ?p"
    "?p \<notin> delete_scope (r_gen sample_run) [''w17/b.json'']" "?p \<noteq> go_work" "last ?p \<noteq> ''go.mod''"
    "?p \<notin> closing_scope (r_gen sample_run) (r_closing sample_run)"
    by (simp_all add: sample_closing_scope sample_scopes sample_scopes_env delete_scope_def go_work_def)
  have f: "final_body (r_gen sample_run) run_tree (op_path ?w) ?p (op_contents ?w) = Inr ''{1}''" by code_simp
  from what_a_run_rendered_is_there_at_the_end
      [OF sample_run_laws R D sample_run_ends w plain out own] f
  show ?thesis by (simp add: op_of_def)
qed


theorem a_workers_delete_takes_the_signed_lock_witness:
  "\<exists>t'. put_on_disk sample_run [] run_ops (res_deletes (collect_ops False [DeleteOp lock_path])) run_tree = (t', None) \<and>
     (\<nexists>b. node_at t' [''w17'', ''lock.yaml''] = Some (File b))"
proof -
  let ?r = "put_on_disk sample_run [] run_ops (res_deletes (collect_ops False [DeleteOp lock_path])) run_tree"
  have "snd ?r = None" by code_simp
  then have r: "?r = (fst ?r, None)" by (metis prod.collapse)
  have l: "lock_path \<in> op_path ` set run_ops" by (simp add: run_ops_def op_of_def)
  have "DeleteOp lock_path \<in> set [DeleteOp lock_path]" by simp
  have c: "contained_join (r_gen sample_run) lock_path = Some [''w17'', ''lock.yaml'']"
    by (simp add: sample_scopes sample_scopes_env)
  have "[''w17'', ''lock.yaml''] \<notin> guide_scope (r_gen sample_run) (c_guide (r_closing sample_run))"
    by (simp add: sample_guide_scope sample_scopes_env)
  with a_workers_delete_takes_the_signed_lock [OF sample_run_laws \<open>DeleteOp lock_path \<in> set [DeleteOp lock_path]\<close> c l r]
  have g: "\<nexists>b. node_at (fst ?r) [''w17'', ''lock.yaml''] = Some (File b)" by (simp only: simp_thms)
  show ?thesis by (rule exI, rule conjI, rule r, rule g)
qed

end
