(* ===== verification/SdkUpdate.thy ===== *)
theory SdkUpdate
  imports Landing
begin

text \<open>
  \<^verbatim>\<open>w17ctl sdk update\<close>, \<^verbatim>\<open>src/internal/sdkupdate/sdkupdate.go\<close> and \<^verbatim>\<open>tidy.go\<close>: which modules of a project it
  moves, to which version, what it writes into their \<^verbatim>\<open>go.mod\<close> and \<^verbatim>\<open>go.sum\<close>, what it checks before, and
  the \<^verbatim>\<open>go mod tidy\<close> it runs in each of them afterwards. The module proxy, the checksum database, the decoded
  lock and the \<^verbatim>\<open>go\<close> tool are parameters.
\<close>

section \<open>Lines of a \<^verbatim>\<open>go.sum\<close>\<close>

definition go_sum_key :: "string \<Rightarrow> string \<times> string \<times> string" where
  "go_sum_key line =
     (case fields_of line of
        m # v # _ \<Rightarrow> if suffix ''/go.mod'' v then (m, trim_suffix ''/go.mod'' v, ''/go.mod'') else (m, v, [])
      | _ \<Rightarrow> (line, [], []))"

definition go_sum_less :: "semver \<Rightarrow> string \<Rightarrow> string \<Rightarrow> bool" where
  "go_sum_less sv a b =
     (let (am, av, ax) = go_sum_key a; (bm, bv, bx) = go_sum_key b; c = sv_compare sv av bv
      in if am \<noteq> bm then am < bm
         else if c \<noteq> 0 then c < 0
         else if av \<noteq> bv then av < bv
         else ax < bx)"

text \<open>\<^verbatim>\<open>strings.TrimRight(ln, "\r")\<close>; the lines of a file are those that are not blank.\<close>

definition trim_cr :: "string \<Rightarrow> string" where
  "trim_cr l = rev (dropWhile (\<lambda>c. c = CHR 0x0D) (rev l))"

definition go_sum_lines :: "string \<Rightarrow> string list" where
  "go_sum_lines s = filter (\<lambda>l. trim_space l \<noteq> []) (map trim_cr (split_on nl s))"

definition of_module :: "string \<Rightarrow> string \<Rightarrow> bool" where
  "of_module m l \<longleftrightarrow> (case fields_of l of f # _ \<Rightarrow> f = m | [] \<Rightarrow> False)"

definition zip_line :: "string \<Rightarrow> string \<Rightarrow> string \<Rightarrow> string" where
  "zip_line m v h = m @ '' '' @ v @ '' '' @ h"

definition mod_line :: "string \<Rightarrow> string \<Rightarrow> string \<Rightarrow> string" where
  "mod_line m v h = m @ '' '' @ v @ ''/go.mod '' @ h"

definition go_sum_upsert :: "semver \<Rightarrow> string \<Rightarrow> string \<Rightarrow> string \<Rightarrow> string \<Rightarrow> string \<Rightarrow> string" where
  "go_sum_upsert sv prior m v zip_hash mod_hash =
     join_with [nl]
       (sort_slice (go_sum_less sv)
         (filter (\<lambda>l. \<not> of_module m l) (go_sum_lines prior) @ [zip_line m v zip_hash, mod_line m v mod_hash])) @ [nl]"

section \<open>What the project records\<close>

text \<open>The expression that finds \<^verbatim>\<open>sdk_version\<close> in the lock, at the start of a line; white space in it may
  cross a line break.\<close>

definition re_space :: "char \<Rightarrow> bool" where
  "re_space c \<longleftrightarrow> c \<in> {CHR 0x20, CHR 0x09, CHR 0x0A, CHR 0x0C, CHR 0x0D}"

definition drop_quote :: "string \<Rightarrow> string" where
  "drop_quote s = (case s of c # cs \<Rightarrow> if c = dquote then cs else s | [] \<Rightarrow> [])"

definition sdk_version_here :: "string \<Rightarrow> string option" where
  "sdk_version_here s =
     (if \<not> prefix ''sdk_version:'' s then None
      else let r = drop_quote (dropWhile re_space (drop (length ''sdk_version:'') s));
               v = takeWhile (\<lambda>c. c \<noteq> dquote \<and> \<not> re_space c) r;
               rest = dropWhile (\<lambda>c. re_space c \<and> c \<noteq> nl) (drop_quote (drop (length v) r))
           in if v \<noteq> [] \<and> (rest = [] \<or> hd rest = nl) then Some v else None)"

fun sdk_version_in :: "bool \<Rightarrow> string \<Rightarrow> string" where
  "sdk_version_in bol [] = []"
| "sdk_version_in bol (c # cs) =
     (case (if bol then sdk_version_here (c # cs) else None) of
        Some v \<Rightarrow> v
      | None \<Rightarrow> sdk_version_in (c = nl) cs)"

definition locked_version :: "disk \<Rightarrow> tree \<Rightarrow> string" where
  "locked_version d t = (case read_file d t [''w17'', ''lock.yaml''] of Bytes b \<Rightarrow> sdk_version_in True b | _ \<Rightarrow> [])"

definition highest_recorded :: "'m modlib \<Rightarrow> semver \<Rightarrow> disk \<Rightarrow> tree \<Rightarrow> string list \<Rightarrow> string" where
  "highest_recorded L sv d t mods =
     fold (\<lambda>dir best. let have = sdk_go_required_version L d t (go_mod_at dir) sdk_mod
              in if sv_valid sv have \<and> (best = [] \<or> 0 < sv_compare sv have best) then have else best) mods
       (if sv_valid sv (locked_version d t) then locked_version d t else [])"

section \<open>Which modules\<close>

text \<open>The trees of the installed plugins, from the decoded lock: its proto directory and its plugins' names.\<close>

definition plugin_trees :: "(string \<times> string list) option \<Rightarrow> string list" where
  "plugin_trees lock =
     (case lock of
        None \<Rightarrow> []
      | Some (proto, names) \<Rightarrow>
          if proto = [] then []
          else map (\<lambda>n. join_path [proto, ''plugins'', n]) (filter (\<lambda>n. n \<noteq> []) names))"

definition skip_dirs :: "string list" where
  "skip_dirs = [''.git'', ''node_modules'', ''vendor'', ''dist'', ''.w17'']"

text \<open>\<^verbatim>\<open>filepath.Rel\<close> of a path of the project.\<close>

definition rel_of :: "path \<Rightarrow> string" where
  "rel_of p = (if p = [] then ''.'' else join_with [slash] p)"

definition module_walk_skips :: "string list \<Rightarrow> path \<Rightarrow> bool" where
  "module_walk_skips plugins p \<longleftrightarrow> p \<noteq> [] \<and> last p \<in> set skip_dirs \<or> rel_of p \<in> set plugins"

definition is_sdk_module :: "'m modlib \<Rightarrow> disk \<Rightarrow> tree \<Rightarrow> string \<Rightarrow> path \<Rightarrow> bool" where
  "is_sdk_module L d t m p \<longleftrightarrow>
     is_file t p \<and> p \<noteq> [] \<and> last p = ''go.mod'' \<and>
     (case read_mod L d t p of
        None \<Rightarrow> False
      | Some f \<Rightarrow> m \<notin> old_path ` set (mod_replaces L f) \<and> m \<in> fst ` set (mod_requires L f))"

text \<open>The walk: nothing below a skipped directory, nor below one that cannot be listed; a listing that fails
  with anything but a refused permission ends it.\<close>

definition reached :: "string list \<Rightarrow> disk \<Rightarrow> tree \<Rightarrow> path \<Rightarrow> bool" where
  "reached plugins d t p \<longleftrightarrow>
     \<not> list_ex (\<lambda>q. module_walk_skips plugins q \<or> unlistable d t q) (filter (\<lambda>q. q \<noteq> p) (prefixes p))"

definition find_sdk_modules ::
    "'m modlib \<Rightarrow> disk \<Rightarrow> (path \<Rightarrow> bool) \<Rightarrow> string \<Rightarrow> string list \<Rightarrow> tree \<Rightarrow> string list option" where
  "find_sdk_modules L d denied m plugins t =
     (if list_ex (\<lambda>p. node_at t p = Some Dir \<and> reached plugins d t p \<and> \<not> module_walk_skips plugins p \<and>
            unlistable d t p \<and> \<not> denied p) (walk_order t [])
      then None
      else Some (sort (map (\<lambda>p. rel_of (butlast p))
             (filter (\<lambda>p. reached plugins d t p \<and> is_sdk_module L d t m p) (walk_order t [])))))"

definition raises_for ::
    "'m modlib \<Rightarrow> semver \<Rightarrow> disk \<Rightarrow> tree \<Rightarrow> string \<Rightarrow> (string, string) gomap \<Rightarrow> (string \<times> string) list option" where
  "raises_for L sv d t dir reqs =
     (case read_mod L d t (go_mod_at dir) of
        None \<Rightarrow> None
      | Some f \<Rightarrow>
          Some (sort_slice (\<lambda>a b. fst a < fst b)
            (List.map_filter (\<lambda>(m, have).
               case map_of reqs m of
                 None \<Rightarrow> None
               | Some want \<Rightarrow>
                   if m \<in> old_path ` set (mod_replaces L f) \<or> m = sdk_mod then None
                   else if 0 < sv_compare sv want have then Some (m, want) else None) (mod_requires L f))))"

section \<open>Hashes\<close>

record update_env =
  up_latest :: "string option"
  up_hashes :: "string \<Rightarrow> string \<Rightarrow> (string \<times> string) option"
  up_sumdb :: "string \<Rightarrow> string \<Rightarrow> string option"
  up_reqs :: "string \<Rightarrow> string \<Rightarrow> (string, string) gomap option"
  up_getenv :: "string \<Rightarrow> string"
  up_match :: "string \<Rightarrow> string \<Rightarrow> bool"

definition matches_glob_list :: "update_env \<Rightarrow> string \<Rightarrow> string \<Rightarrow> bool" where
  "matches_glob_list E m pats \<longleftrightarrow>
     list_ex (\<lambda>pat. let p = trim_space pat in
       p \<noteq> [] \<and> (p = ''*'' \<or> m = p \<or> prefix (trim_suffix ''/*'' p @ [slash]) m \<or> up_match E p m)) (split_on (CHR '','') pats)"

definition sum_db_disabled :: "update_env \<Rightarrow> string \<Rightarrow> bool" where
  "sum_db_disabled E m \<longleftrightarrow>
     up_getenv E ''GONOSUMCHECK'' \<noteq> [] \<or> sublist ''-insecure'' (up_getenv E ''GOFLAGS'') \<or>
     up_getenv E ''GONOSUMDB'' \<noteq> [] \<and> matches_glob_list E m (up_getenv E ''GONOSUMDB'') \<or>
     up_getenv E ''GOPRIVATE'' \<noteq> [] \<and> matches_glob_list E m (up_getenv E ''GOPRIVATE'') \<or>
     up_getenv E ''GONOSUMDB'' = ''*'' \<or>
     equal_fold (trim_space (up_getenv E ''GOSUMDB'')) ''off''"

definition sum_db_entry :: "string \<Rightarrow> string \<Rightarrow> string \<Rightarrow> string \<times> string \<Rightarrow> string \<times> string" where
  "sum_db_entry m v ln want =
     (case fields_of ln of
        [a, b, c] \<Rightarrow>
          if a \<noteq> m then want
          else if b = v then (c, snd want)
          else if b = v @ ''/go.mod'' then (fst want, c)
          else want
      | _ \<Rightarrow> want)"

definition agrees_with_sum_db :: "update_env \<Rightarrow> string \<Rightarrow> string \<Rightarrow> string \<Rightarrow> string \<Rightarrow> bool" where
  "agrees_with_sum_db E m v zip_hash mod_hash \<longleftrightarrow>
     sum_db_disabled E m \<or>
     (case up_sumdb E m v of
        None \<Rightarrow> True
      | Some body \<Rightarrow>
          (let (z, h) = fold (sum_db_entry m v) (split_on nl body) ([], [])
           in \<not> (z \<noteq> [] \<and> z \<noteq> zip_hash) \<and> \<not> (h \<noteq> [] \<and> h \<noteq> mod_hash)))"

record bump =
  bm_mod :: string
  bm_ver :: string
  bm_zip :: string
  bm_modhash :: string

datatype update_error =
    NotAVersion | WalkStopped | NoLatest | NoHashes string string | Mismatch string string | NoRequirements
  | UnreadableModule string | NotWritten string

definition hash_bump ::
    "update_env \<Rightarrow> (string, bump) gomap \<Rightarrow> string \<times> string \<Rightarrow> (string, bump) gomap \<times> (update_error + bump)" where
  "hash_bump E cache b =
     (let (m, v) = b; key = m @ ''@'' @ v in
      case map_of cache key of
        Some h \<Rightarrow> (cache, Inr h)
      | None \<Rightarrow>
          (case up_hashes E m v of
             None \<Rightarrow> (cache, Inl (NoHashes m v))
           | Some (z, h) \<Rightarrow>
               if \<not> agrees_with_sum_db E m v z h then (cache, Inl (Mismatch m v))
               else let n = \<lparr>bm_mod = m, bm_ver = v, bm_zip = z, bm_modhash = h\<rparr> in (put key n cache, Inr n)))"

fun hash_bumps ::
    "update_env \<Rightarrow> (string, bump) gomap \<Rightarrow> (string \<times> string) list \<Rightarrow> (string, bump) gomap \<times> (update_error + bump list)" where
  "hash_bumps E cache [] = (cache, Inr [])"
| "hash_bumps E cache (b # bs) =
     (case hash_bump E cache b of
        (c, Inl e) \<Rightarrow> (c, Inl e)
      | (c, Inr h) \<Rightarrow>
          (case hash_bumps E c bs of (c', Inl e) \<Rightarrow> (c', Inl e) | (c', Inr hs) \<Rightarrow> (c', Inr (h # hs))))"

section \<open>Writing\<close>

definition go_sum_at :: "string \<Rightarrow> path" where
  "go_sum_at dir = path_elems dir @ [''go.sum'']"

fun add_requires :: "'m modlib \<Rightarrow> bump list \<Rightarrow> 'm \<Rightarrow> 'm option" where
  "add_requires L [] f = Some f"
| "add_requires L (b # bs) f =
     (case add_require L (bm_mod b) (bm_ver b) f of None \<Rightarrow> None | Some f' \<Rightarrow> add_requires L bs f')"

definition upsert_all :: "semver \<Rightarrow> bump list \<Rightarrow> string \<Rightarrow> string" where
  "upsert_all sv bumps prior =
     fold (\<lambda>b s. go_sum_upsert sv s (bm_mod b) (bm_ver b) (bm_zip b) (bm_modhash b)) bumps prior"

definition apply_to_module ::
    "'m modlib \<Rightarrow> semver \<Rightarrow> disk \<Rightarrow> string \<Rightarrow> bump list \<Rightarrow> tree \<Rightarrow> tree \<times> bool" where
  "apply_to_module L sv d dir bumps t =
     (case read_mod L d t (go_mod_at dir) of
        None \<Rightarrow> (t, False)
      | Some f \<Rightarrow>
          (case add_requires L bumps f of
             None \<Rightarrow> (t, False)
           | Some f1 \<Rightarrow>
               (case mod_format L (mod_cleanup L f1) of
                  None \<Rightarrow> (t, False)
                | Some out \<Rightarrow>
                    (case write_file d (go_mod_at dir) out t of
                       (t1, False) \<Rightarrow> (t1, False)
                     | (t1, True) \<Rightarrow>
                         (case read_file d t1 (go_sum_at dir) of
                            ReadError \<Rightarrow> (t1, False)
                          | prior \<Rightarrow>
                              write_file d (go_sum_at dir)
                                (upsert_all sv bumps (case prior of Bytes b \<Rightarrow> b | _ \<Rightarrow> [])) t1)))))"

fun update_each ::
    "'m modlib \<Rightarrow> semver \<Rightarrow> disk \<Rightarrow> update_env \<Rightarrow> string \<Rightarrow> (string, string) gomap \<Rightarrow> string list \<Rightarrow>
       (string, bump) gomap \<Rightarrow> tree \<Rightarrow> tree \<times> update_error option" where
  "update_each L sv d E version reqs [] cache t = (t, None)"
| "update_each L sv d E version reqs (dir # dirs) cache t =
     (case raises_for L sv d t dir reqs of
        None \<Rightarrow> (t, Some (UnreadableModule dir))
      | Some rs \<Rightarrow>
          (case hash_bumps E cache ((sdk_mod, version) # rs) of
             (c, Inl e) \<Rightarrow> (t, Some e)
           | (c, Inr bumps) \<Rightarrow>
               (case apply_to_module L sv d dir bumps t of
                  (t1, False) \<Rightarrow> (t1, Some (NotWritten dir))
                | (t1, True) \<Rightarrow> update_each L sv d E version reqs dirs c t1)))"

definition chosen_version ::
    "'m modlib \<Rightarrow> semver \<Rightarrow> disk \<Rightarrow> update_env \<Rightarrow> string \<Rightarrow> string list \<Rightarrow> tree \<Rightarrow> string option" where
  "chosen_version L sv d E version mods t =
     (if version \<noteq> [] then Some version
      else case up_latest E of
        None \<Rightarrow> None
      | Some v \<Rightarrow>
          (let have = highest_recorded L sv d t mods in Some (if 0 < sv_compare sv have v then have else v)))"

text \<open>\<^verbatim>\<open>RunOpts\<close> up to the closing \<^verbatim>\<open>go mod tidy\<close>, which is \<open>run_opts\<close> below.\<close>

definition run_update ::
    "'m modlib \<Rightarrow> semver \<Rightarrow> disk \<Rightarrow> (path \<Rightarrow> bool) \<Rightarrow> update_env \<Rightarrow> (string \<times> string list) option \<Rightarrow> string \<Rightarrow>
       tree \<Rightarrow> tree \<times> (update_error + string)" where
  "run_update L sv d denied E lock version t =
     (if version \<noteq> [] \<and> \<not> sv_valid sv version then (t, Inl NotAVersion)
      else case find_sdk_modules L d denied sdk_mod (plugin_trees lock) t of
        None \<Rightarrow> (t, Inl WalkStopped)
      | Some mods \<Rightarrow>
          if mods = [] then (t, Inr [])
          else (case chosen_version L sv d E version mods t of
             None \<Rightarrow> (t, Inl NoLatest)
           | Some v \<Rightarrow>
               (case up_hashes E sdk_mod v of
                  None \<Rightarrow> (t, Inl (NoHashes sdk_mod v))
                | Some (z, h) \<Rightarrow>
                    if \<not> agrees_with_sum_db E sdk_mod v z h then (t, Inl (Mismatch sdk_mod v))
                    else (case up_reqs E sdk_mod v of
                       None \<Rightarrow> (t, Inl NoRequirements)
                     | Some reqs \<Rightarrow>
                         (case update_each L sv d E v reqs mods
                                 [(sdk_mod @ ''@'' @ v, \<lparr>bm_mod = sdk_mod, bm_ver = v, bm_zip = z, bm_modhash = h\<rparr>)] t of
                            (t1, Some e) \<Rightarrow> (t1, Inl e)
                          | (t1, None) \<Rightarrow> (t1, Inr v))))))"

section \<open>Tidying\<close>

text \<open>The minor in a \<^verbatim>\<open>go\<close> directive at the start of a line, \<^verbatim>\<open>(?m)^go\s+(\d+\.\d+)\<close>.\<close>

definition go_minor_here :: "string \<Rightarrow> string option" where
  "go_minor_here s =
     (let r = dropWhile re_space (drop 2 s); a = takeWhile is_digit r;
          rest = drop (length a) r; b = takeWhile is_digit (tl rest)
      in if prefix ''go'' s \<and> drop 2 s \<noteq> r \<and> a \<noteq> [] \<and> prefix ''.'' rest \<and> b \<noteq> []
         then Some (a @ ''.'' @ b) else None)"

fun go_minor_in :: "bool \<Rightarrow> string \<Rightarrow> string" where
  "go_minor_in bol [] = []"
| "go_minor_in bol (c # cs) =
     (case (if bol then go_minor_here (c # cs) else None) of
        Some v \<Rightarrow> v
      | None \<Rightarrow> go_minor_in (c = nl) cs)"

definition module_go_minor :: "disk \<Rightarrow> tree \<Rightarrow> string \<Rightarrow> string" where
  "module_go_minor d t dir = (case read_file d t (go_mod_at dir) of Bytes b \<Rightarrow> go_minor_in True b | _ \<Rightarrow> [])"

text \<open>The local \<^verbatim>\<open>go\<close> or the image of a minor. \<open>td_local\<close> is the minor of the \<^verbatim>\<open>go\<close> on the path (none when there
  is none), \<open>td_docker\<close> whether there is a docker and its module cache could be made, and \<open>td_go\<close> what
  \<^verbatim>\<open>go mod tidy\<close>, run in a directory, makes of the project and whether it succeeded.\<close>

datatype toolchain = LocalGo | GoImage string

record tidy_env =
  td_local :: string
  td_docker :: bool
  td_go :: "toolchain \<Rightarrow> string \<Rightarrow> tree \<Rightarrow> tree \<times> bool"

definition tidy_command :: "tidy_env \<Rightarrow> string \<Rightarrow> toolchain option" where
  "tidy_command T minor =
     (if minor = [] then None
      else if td_local T = minor then Some LocalGo
      else if \<not> td_docker T then None
      else Some (GoImage minor))"

definition snapshot_mod_files :: "disk \<Rightarrow> tree \<Rightarrow> string \<Rightarrow> (string \<times> string option) option" where
  "snapshot_mod_files d t dir =
     (case read_file d t (go_mod_at dir) of
        Bytes m \<Rightarrow>
          (case read_file d t (go_sum_at dir) of
             Bytes s \<Rightarrow> Some (m, Some s)
           | NotExist \<Rightarrow> Some (m, None)
           | ReadError \<Rightarrow> None)
      | _ \<Rightarrow> None)"

text \<open>Putting the files back; what the disk refuses is not reported.\<close>

definition restore_mod_files :: "disk \<Rightarrow> string \<Rightarrow> string \<times> string option \<Rightarrow> tree \<Rightarrow> tree" where
  "restore_mod_files d dir before t =
     (let t1 = fst (write_file d (go_mod_at dir) (fst before) t)
      in case snd before of
           Some s \<Rightarrow> fst (write_file d (go_sum_at dir) s t1)
         | None \<Rightarrow> fst (remove_one d (go_sum_at dir) t1))"

datatype tidied = NoToolchain | NotSnapshotted | TidyFailed | Tidied

definition tidy_module :: "tidy_env \<Rightarrow> disk \<Rightarrow> string \<Rightarrow> tree \<Rightarrow> tree \<times> tidied" where
  "tidy_module T d dir t =
     (case tidy_command T (module_go_minor d t dir) of
        None \<Rightarrow> (t, NoToolchain)
      | Some c \<Rightarrow>
          (case snapshot_mod_files d t dir of
             None \<Rightarrow> (t, NotSnapshotted)
           | Some before \<Rightarrow>
               (case td_go T c dir t of
                  (t1, True) \<Rightarrow> (t1, Tidied)
                | (t1, False) \<Rightarrow> (restore_mod_files d dir before t1, TidyFailed))))"

text \<open>What became of each module is what the code prints.\<close>

fun tidy_modules :: "tidy_env \<Rightarrow> disk \<Rightarrow> string list \<Rightarrow> tree \<Rightarrow> tree \<times> (string \<times> tidied) list" where
  "tidy_modules T d [] t = (t, [])"
| "tidy_modules T d (dir # dirs) t =
     (case tidy_module T d dir t of
        (t1, r) \<Rightarrow> (case tidy_modules T d dirs t1 of (t2, rs) \<Rightarrow> (t2, (dir, r) # rs)))"

text \<open>\<^verbatim>\<open>RunOpts\<close>: the update, and after one that succeeds, unless \<^verbatim>\<open>--no-tidy\<close>, the tidying of the modules it found.\<close>

definition run_opts ::
    "'m modlib \<Rightarrow> semver \<Rightarrow> disk \<Rightarrow> (path \<Rightarrow> bool) \<Rightarrow> update_env \<Rightarrow> tidy_env \<Rightarrow> (string \<times> string list) option \<Rightarrow>
       string \<Rightarrow> bool \<Rightarrow> tree \<Rightarrow> tree \<times> (string \<times> tidied) list \<times> (update_error + string)" where
  "run_opts L sv d denied E T lock version tidy t =
     (case run_update L sv d denied E lock version t of
        (t1, Inl e) \<Rightarrow> (t1, [], Inl e)
      | (t1, Inr v) \<Rightarrow>
          (case (if tidy then tidy_modules T d (case find_sdk_modules L d denied sdk_mod (plugin_trees lock) t of
                   None \<Rightarrow> [] | Some mods \<Rightarrow> mods) t1 else (t1, [])) of
             (t2, rs) \<Rightarrow> (t2, rs, Inr v)))"

section \<open>The order of \<^verbatim>\<open>go.sum\<close>\<close>

text \<open>Comparing by a key, and by a second comparison where the first says equal, is again a comparison.\<close>

definition then_by :: "('a \<Rightarrow> 'a \<Rightarrow> int) \<Rightarrow> ('a \<Rightarrow> 'a \<Rightarrow> int) \<Rightarrow> 'a \<Rightarrow> 'a \<Rightarrow> int" where
  "then_by c c' a b = (if c a b \<noteq> 0 then c a b else c' a b)"

lemma comparison_key: "comparison c \<Longrightarrow> comparison (\<lambda>a b. c (key a) (key b))"
  unfolding comparison_def by blast

lemma comparison_then_by:
  assumes c: "comparison c" and c': "comparison c'"
  shows "comparison (then_by c c')"
proof
  fix a b d
  have s: "c y x = - c x y" "c' y x = - c' x y" for x y
    by (rule comparison.cmp_sym [OF c], rule comparison.cmp_sym [OF c'])
  show "then_by c c' b a = - then_by c c' a b" using s [of a b] by (simp add: then_by_def)
  assume 1: "then_by c c' a b \<le> 0" and 2: "then_by c c' b d \<le> 0"
  then have le: "c a b \<le> 0" "c b d \<le> 0" by (auto simp: then_by_def split: if_splits)
  then have l: "c a d \<le> 0" by (rule comparison.cmp_trans [OF c])
  show "then_by c c' a d \<le> 0"
  proof (cases "c a d = 0")
    case True
    then have "c d a \<le> 0" using s(1) [of a d] by simp
    from comparison.cmp_trans [OF c le(2) this] comparison.cmp_trans [OF c this le(1)]
    have "c b a \<le> 0" "c d b \<le> 0" .
    with le s(1) [of a b] s(1) [of b d] have "c a b = 0" "c b d = 0" by simp_all
    with 1 2 comparison.cmp_trans [OF c', of a b d] True show ?thesis by (simp add: then_by_def)
  qed (use l in \<open>simp add: then_by_def\<close>)
qed

definition go_sum_compare :: "semver \<Rightarrow> string \<Rightarrow> string \<Rightarrow> int" where
  "go_sum_compare sv =
     then_by (\<lambda>a b. order_sign (fst (go_sum_key a)) (fst (go_sum_key b)))
    (then_by (\<lambda>a b. sv_compare sv (fst (snd (go_sum_key a))) (fst (snd (go_sum_key b))))
    (then_by (\<lambda>a b. order_sign (fst (snd (go_sum_key a))) (fst (snd (go_sum_key b))))
      (\<lambda>a b. order_sign (snd (snd (go_sum_key a))) (snd (snd (go_sum_key b))))))"

lemma go_sum_less_compare: "go_sum_less sv = (\<lambda>a b. go_sum_compare sv a b < 0)"
proof (intro ext)
  fix a b
  obtain am av ax where a: "go_sum_key a = (am, av, ax)" by (cases "go_sum_key a")
  obtain bm bv bx where b: "go_sum_key b = (bm, bv, bx)" by (cases "go_sum_key b")
  show "go_sum_less sv a b = (go_sum_compare sv a b < 0)"
    by (simp add: go_sum_less_def go_sum_compare_def then_by_def Let_def a b)
qed

lemma go_sum_compare_comparison: "comparison (sv_compare sv) \<Longrightarrow> comparison (go_sum_compare sv)"
proof -
  assume c: "comparison (sv_compare sv)"
  note k = comparison_key [OF c, of "\<lambda>a. fst (snd (go_sum_key a))"]
  show ?thesis
    unfolding go_sum_compare_def
    by (rule comparison_then_by [OF comparison_order_sign comparison_then_by
          [OF k comparison_then_by [OF comparison_order_sign comparison_order_sign]]])
qed

interpretation go_sum_order: comparison "go_sum_compare byte_versions"
  by (rule go_sum_compare_comparison [OF byte_versions_compare])

section \<open>What an upsert leaves\<close>

lemma trim_cr_plain: "plain_char c \<Longrightarrow> trim_cr (l @ [c]) = l @ [c]"
  by (auto simp: trim_cr_def plain_char_def)

lemma trim_cr_idem [simp]: "trim_cr (trim_cr l) = trim_cr l"
  by (simp add: trim_cr_def)

lemma trim_cr_subset: "set (trim_cr l) \<subseteq> set l"
  by (auto simp: trim_cr_def dest: set_dropWhileD)

lemma written_line:
  assumes "plain_word m" and "plain_word v" and "plain_word h"
  shows "of_module m (zip_line m v h)" and "of_module m (mod_line m v h)"
    and "go_sum_lines (zip_line m v h) = [zip_line m v h]" and "go_sum_lines (mod_line m v h) = [mod_line m v h]"
    and "nl \<notin> set (zip_line m v h)" and "nl \<notin> set (mod_line m v h)"
proof -
  show "of_module m (zip_line m v h)" "of_module m (mod_line m v h)"
    using assms(1) by (simp_all add: of_module_def zip_line_def mod_line_def fields_word)
  obtain h' c where h: "h = h' @ [c]" and c: "plain_char c" using assms(3) by (cases h rule: rev_cases) (auto simp: plain_word_def)
  have p: "c' \<noteq> nl" if "plain_char c'" for c' using that by (auto simp: plain_char_def)
  show n: "nl \<notin> set (zip_line m v h)" "nl \<notin> set (mod_line m v h)"
    using assms p by (auto simp: zip_line_def mod_line_def plain_word_def list_all_iff)
  have "trim_cr (zip_line m v h) = zip_line m v h" "trim_cr (mod_line m v h) = mod_line m v h"
    using trim_cr_plain [OF c, of "m @ '' '' @ v @ '' '' @ h'"] trim_cr_plain [OF c, of "m @ '' '' @ v @ ''/go.mod '' @ h'"]
    by (simp_all add: zip_line_def mod_line_def h)
  moreover have "trim_space (zip_line m v h) \<noteq> []" "trim_space (mod_line m v h) \<noteq> []"
    using trim_keeps [OF _ c] h by (simp_all add: zip_line_def mod_line_def)
  ultimately show "go_sum_lines (zip_line m v h) = [zip_line m v h]" "go_sum_lines (mod_line m v h) = [mod_line m v h]"
    using n by (simp_all add: go_sum_lines_def split_on_no_sep)
qed

lemma split_join_lines:
  "\<forall>l \<in> set ls. c \<notin> set l \<Longrightarrow> ls \<noteq> [] \<Longrightarrow> split_on c (join_with [c] ls @ [c]) = ls @ [[]]"
proof (induction ls)
  case (Cons l ls)
  then show ?case by (cases ls) (simp_all add: split_on_append split_on_no_sep)
qed simp

lemma go_sum_lines_join:
  assumes "\<forall>l \<in> set ls. nl \<notin> set l \<and> trim_cr l = l \<and> trim_space l \<noteq> []" and "ls \<noteq> []"
  shows "go_sum_lines (join_with [nl] ls @ [nl]) = ls"
proof -
  have "trim_space (trim_cr []) = []" by code_simp
  moreover have "filter (\<lambda>l. trim_space l \<noteq> []) (map trim_cr ls) = ls" using assms(1) by (induction ls) auto
  ultimately show ?thesis using split_join_lines [of ls nl] assms by (simp add: go_sum_lines_def)
qed

lemma go_sum_lines_plain: "l \<in> set (go_sum_lines s) \<Longrightarrow> nl \<notin> set l \<and> trim_cr l = l \<and> trim_space l \<noteq> []"
  using split_on_parts [of _ nl s] trim_cr_subset by (fastforce simp: go_sum_lines_def)

lemma lines_of_upsert:
  assumes "plain_word m" and "plain_word v" and "plain_word z" and "plain_word h"
  shows "go_sum_lines (go_sum_upsert sv prior m v z h) =
    sort_slice (go_sum_less sv) (filter (\<lambda>l. \<not> of_module m l) (go_sum_lines prior) @ [zip_line m v z, mod_line m v h])"
proof -
  note w = written_line [OF assms(1,2,3)] written_line [OF assms(1,2,4)]
  have "nl \<notin> set l \<and> trim_cr l = l \<and> trim_space l \<noteq> []" if "l = zip_line m v z \<or> l = mod_line m v h" for l
    using that go_sum_lines_plain [of l l] w by auto
  with go_sum_lines_plain show ?thesis unfolding go_sum_upsert_def by (intro go_sum_lines_join) auto
qed

text \<open>An upsert takes away exactly the lines of its module and adds the two of the new version; every other line
  is kept as it was, the file is in the order of \<^verbatim>\<open>go mod tidy\<close>, and doing it again changes no line.\<close>

theorem an_upsert_replaces_only_its_module:
  fixes prior :: string
  assumes c: "comparison (sv_compare sv)"
    and w: "plain_word m" "plain_word v" "plain_word z" "plain_word h"
  defines "ls \<equiv> go_sum_lines (go_sum_upsert sv prior m v z h)"
  shows "mset ls = {#l \<in># mset (go_sum_lines prior). \<not> of_module m l#} + {#zip_line m v z, mod_line m v h#} \<and>
    sorted_wrt (\<lambda>a b. \<not> go_sum_less sv b a) ls \<and>
    mset (go_sum_lines (go_sum_upsert sv (go_sum_upsert sv prior m v z h) m v z h)) = mset ls"
proof -
  have l: "mset (go_sum_lines (go_sum_upsert sv s m v z h)) =
      {#l \<in># mset (go_sum_lines s). \<not> of_module m l#} + {#zip_line m v z, mod_line m v h#}" for s
    by (simp add: lines_of_upsert [OF w])
  have o: "of_module m (zip_line m v z)" "of_module m (mod_line m v h)"
    using written_line(1) [OF w(1,2,3)] written_line(2) [OF w(1,2,4)] .
  have "mset (go_sum_lines (go_sum_upsert sv (go_sum_upsert sv prior m v z h) m v z h)) = mset ls"
    unfolding ls_def by (simp add: l o filter_filter_mset)
  moreover have "sorted_wrt (\<lambda>a b. \<not> go_sum_less sv b a) ls"
  proof -
    have k: "comparison (go_sum_compare sv)" by (rule go_sum_compare_comparison [OF c])
    have "sorted_wrt (\<lambda>a b. go_sum_compare sv a b \<le> 0) ls"
      unfolding ls_def lines_of_upsert [OF w] go_sum_less_compare by (rule comparison.sorted_sort_slice [OF k])
    then show ?thesis by (simp add: go_sum_less_compare comparison.not_less_cmp [OF k])
  qed
  ultimately show ?thesis using l [of prior] by (simp add: ls_def)
qed

definition sum_before :: string where
  "sum_before = ''example.com/a v0.10.0 h1:a'' @ [nl] @ ''example.com/sdk v1.0.0 h1:old'' @ [nl] @ ''example.com/a v0.9.0 h1:b'' @ [nl]"

theorem an_upsert_replaces_only_its_module_witness:
  "go_sum_lines (go_sum_upsert byte_versions sum_before ''example.com/sdk'' ''v2'' ''h1:z'' ''h1:m'') \<noteq> [] \<and>
   mset (go_sum_lines (go_sum_upsert byte_versions sum_before ''example.com/sdk'' ''v2'' ''h1:z'' ''h1:m'')) =
     {#''example.com/a v0.10.0 h1:a'', ''example.com/a v0.9.0 h1:b'', ''example.com/sdk v2 h1:z'', ''example.com/sdk v2/go.mod h1:m''#}"
proof -
  have w: "plain_word ''example.com/sdk''" "plain_word ''v2''" "plain_word ''h1:z''" "plain_word ''h1:m''" by code_simp+
  have b: "filter (\<lambda>l. \<not> of_module ''example.com/sdk'' l) (go_sum_lines sum_before) =
      [''example.com/a v0.10.0 h1:a'', ''example.com/a v0.9.0 h1:b'']" by code_simp
  have "{#l \<in># mset (go_sum_lines sum_before). \<not> of_module ''example.com/sdk'' l#} =
      {#''example.com/a v0.10.0 h1:a'', ''example.com/a v0.9.0 h1:b''#}"
    using b by (metis mset.simps mset_filter)
  with an_upsert_replaces_only_its_module [OF byte_versions_compare w, of sum_before]
  show ?thesis by (auto simp: zip_line_def mod_line_def)
qed

section \<open>Only checked hashes are written\<close>

definition lines_at :: "tree \<Rightarrow> path \<Rightarrow> string set" where
  "lines_at t p = (case node_at t p of Some (File b) \<Rightarrow> set (go_sum_lines b) | _ \<Rightarrow> {})"

definition checked :: "update_env \<Rightarrow> bump \<Rightarrow> bool" where
  "checked E b \<longleftrightarrow> up_hashes E (bm_mod b) (bm_ver b) = Some (bm_zip b, bm_modhash b) \<and>
     agrees_with_sum_db E (bm_mod b) (bm_ver b) (bm_zip b) (bm_modhash b)"

definition checked_lines :: "update_env \<Rightarrow> string set" where
  "checked_lines E = {l. \<exists>b. checked E b \<and>
     (l = zip_line (bm_mod b) (bm_ver b) (bm_zip b) \<or> l = mod_line (bm_mod b) (bm_ver b) (bm_modhash b))}"

text \<open>What the proxy's hashes and names are made of.\<close>

definition plain_hashes :: "update_env \<Rightarrow> bool" where
  "plain_hashes E \<longleftrightarrow>
     (\<forall>m v z h. up_hashes E m v = Some (z, h) \<longrightarrow> plain_word m \<and> plain_word v \<and> plain_word z \<and> plain_word h)"

lemma checked_plain:
  "plain_hashes E \<Longrightarrow> checked E b \<Longrightarrow>
     plain_word (bm_mod b) \<and> plain_word (bm_ver b) \<and> plain_word (bm_zip b) \<and> plain_word (bm_modhash b)"
  unfolding plain_hashes_def checked_def by blast

definition cache_checked :: "update_env \<Rightarrow> (string, bump) gomap \<Rightarrow> bool" where
  "cache_checked E cache \<longleftrightarrow>
     (\<forall>k b. map_of cache k = Some b \<longrightarrow> checked E b \<and> k = bm_mod b @ ''@'' @ bm_ver b)"

lemma hash_bump_checked:
  assumes "cache_checked E cache" and "hash_bump E cache b = (c, r)"
  shows "cache_checked E c \<and> (\<forall>h. r = Inr h \<longrightarrow> checked E h \<and> bm_mod h @ ''@'' @ bm_ver h = fst b @ ''@'' @ snd b)"
proof -
  obtain m v where b: "b = (m, v)" by (cases b)
  show ?thesis
  proof (cases "map_of cache (m @ ''@'' @ v)")
    case (Some h)
    with assms show ?thesis by (auto simp: hash_bump_def b cache_checked_def)
  next
    case None
    with assms show ?thesis
      by (auto simp: hash_bump_def b cache_checked_def checked_def Let_def split: option.splits if_splits)
  qed
qed

lemma hash_bumps_checked:
  "cache_checked E cache \<Longrightarrow> hash_bumps E cache bs = (c, r) \<Longrightarrow>
     cache_checked E c \<and> (\<forall>hs. r = Inr hs \<longrightarrow> list_all (checked E) hs \<and>
       map (\<lambda>h. bm_mod h @ ''@'' @ bm_ver h) hs = map (\<lambda>b. fst b @ ''@'' @ snd b) bs)"
proof (induction bs arbitrary: cache c r)
  case (Cons b bs)
  obtain c1 r1 where 1: "hash_bump E cache b = (c1, r1)" by (cases "hash_bump E cache b")
  note h = hash_bump_checked [OF Cons.prems(1) 1]
  obtain c2 r2 where 2: "hash_bumps E c1 bs = (c2, r2)" by (cases "hash_bumps E c1 bs")
  from Cons.IH [OF _ 2] h Cons.prems(2) 1 2 show ?case by (auto split: sum.splits)
qed simp

lemma upsert_all_lines:
  assumes p: "plain_hashes E"
  shows "list_all (checked E) bs \<Longrightarrow> set (go_sum_lines (upsert_all sv bs s)) \<subseteq> set (go_sum_lines s) \<union> checked_lines E"
proof (induction bs arbitrary: s)
  case (Cons b bs)
  then have b: "checked E b" and bs: "list_all (checked E) bs" by simp_all
  let ?s = "go_sum_upsert sv s (bm_mod b) (bm_ver b) (bm_zip b) (bm_modhash b)"
  have "set (go_sum_lines ?s) \<subseteq> set (go_sum_lines s) \<union> checked_lines E"
    using checked_plain [OF p b] b by (auto simp: lines_of_upsert checked_lines_def)
  with Cons.IH [OF bs, of ?s] show ?case by (auto simp: upsert_all_def)
qed (simp add: upsert_all_def)

text \<open>What one module's update may do to a path.\<close>

definition update_effect :: "update_env \<Rightarrow> string set \<Rightarrow> tree \<Rightarrow> tree \<Rightarrow> bool" where
  "update_effect E dirs t t' \<longleftrightarrow>
     (\<forall>p. node_at t' p = node_at t p \<or> (\<exists>dir \<in> dirs. p = go_mod_at dir) \<or>
        ((\<exists>dir \<in> dirs. p = go_sum_at dir) \<and> lines_at t' p \<subseteq> lines_at t p \<union> checked_lines E))"

lemma update_effect_refl [simp]: "update_effect E dirs t t"
  by (simp add: update_effect_def)

lemma go_mod_not_sum: "go_mod_at dir \<noteq> go_sum_at dir'"
  by (simp add: go_mod_at_def go_sum_at_def)

lemma update_effect_trans:
  assumes 1: "update_effect E A t t1" and 2: "update_effect E B t1 t2" and "A \<subseteq> C" and "B \<subseteq> C"
  shows "update_effect E C t t2"
  unfolding update_effect_def
proof
  fix p
  have l: "node_at t' p = node_at t'' p \<Longrightarrow> lines_at t' p = lines_at t'' p" for t' t'' by (simp add: lines_at_def)
  show "node_at t2 p = node_at t p \<or> (\<exists>dir \<in> C. p = go_mod_at dir) \<or>
      ((\<exists>dir \<in> C. p = go_sum_at dir) \<and> lines_at t2 p \<subseteq> lines_at t p \<union> checked_lines E)"
    using spec [OF 1 [unfolded update_effect_def], of p] spec [OF 2 [unfolded update_effect_def], of p] assms(3,4)
      l [of t2 t1] l [of t1 t] by fastforce
qed

lemma apply_to_module_effect:
  assumes p: "plain_hashes E" and bs: "list_all (checked E) bumps"
    and a: "apply_to_module L sv healthy_disk dir bumps t = (t', ok)"
  shows "update_effect E {dir} t t'"
proof -
  have one: "update_effect E {dir} t0 t1" if "write_file healthy_disk (go_mod_at dir) b t0 = (t1, k)" for t0 t1 b k
    using same_butD [OF write_file_same_but [OF that]] by (auto simp: update_effect_def)
  have two: "update_effect E {dir} t0 t1"
    if w: "write_file healthy_disk (go_sum_at dir) (upsert_all sv bumps s) t0 = (t1, k)"
      and s: "set (go_sum_lines s) \<subseteq> lines_at t0 (go_sum_at dir)" for t0 t1 s k
  proof -
    have "lines_at t1 (go_sum_at dir) \<subseteq> lines_at t0 (go_sum_at dir) \<union> checked_lines E"
    proof (cases k)
      case True
      then have "lines_at t1 (go_sum_at dir) = set (go_sum_lines (upsert_all sv bumps s))"
        using write_file_ok w by (simp add: lines_at_def)
      with upsert_all_lines [OF p bs, of sv s] s show ?thesis by blast
    next
      case False
      then have "t1 = t0" using w by (auto simp: write_file_def healthy_disk_def split: if_splits)
      then show ?thesis by simp
    qed
    moreover have "node_at t1 q = node_at t0 q" if "q \<noteq> go_sum_at dir" for q
      using same_butD [OF write_file_same_but [OF w]] that by blast
    ultimately show ?thesis unfolding update_effect_def by (metis singletonI)
  qed
  have empty: "set (go_sum_lines []) = {}" by code_simp
  from a consider "t' = t" | b k where "write_file healthy_disk (go_mod_at dir) b t = (t', k)"
    | b t1 s where "write_file healthy_disk (go_mod_at dir) b t = (t1, True)"
      "read_file healthy_disk t1 (go_sum_at dir) = Bytes s \<or> read_file healthy_disk t1 (go_sum_at dir) = NotExist \<and> s = []"
      "write_file healthy_disk (go_sum_at dir) (upsert_all sv bumps s) t1 = (t', ok)"
    by (auto simp: apply_to_module_def split: option.splits prod.splits bool.splits read.splits)
  then show ?thesis
  proof cases
    case 2
    then show ?thesis by (rule one)
  next
    case (3 b t1 s)
    have "set (go_sum_lines s) \<subseteq> lines_at t1 (go_sum_at dir)"
      using 3(2) empty by (auto simp: read_file_def lines_at_def split: option.splits node.splits if_splits)
    from update_effect_trans [OF one [OF 3(1)] two [OF 3(3) this]] show ?thesis by simp
  qed simp
qed

lemma update_each_effect:
  assumes p: "plain_hashes E"
  shows "cache_checked E cache \<Longrightarrow> update_each L sv healthy_disk E v reqs dirs cache t = (t', e) \<Longrightarrow>
    update_effect E (set dirs) t t'"
proof (induction dirs arbitrary: cache t)
  case (Cons dir dirs)
  show ?case
  proof (cases "raises_for L sv healthy_disk t dir reqs")
    case (Some rs)
    obtain c r where h: "hash_bumps E cache ((sdk_mod, v) # rs) = (c, r)" by (cases "hash_bumps E cache ((sdk_mod, v) # rs)")
    note checks = hash_bumps_checked [OF Cons.prems(1) h]
    show ?thesis
    proof (cases r)
      case (Inl x)
      with Cons.prems(2) Some h show ?thesis by simp
    next
      case (Inr hs)
      obtain t1 ok where a: "apply_to_module L sv healthy_disk dir hs t = (t1, ok)"
        by (cases "apply_to_module L sv healthy_disk dir hs t")
      have hs: "list_all (checked E) hs" using checks Inr by simp
      note 1 = apply_to_module_effect [OF p hs a]
      show ?thesis
      proof (cases ok)
        case True
        with Cons.prems(2) Some h Inr a have "update_each L sv healthy_disk E v reqs dirs c t1 = (t', e)" by simp
        from update_effect_trans [OF 1 Cons.IH [OF _ this]] checks show ?thesis by auto
      next
        case False
        with Cons.prems(2) Some h Inr a have "t' = t1" by simp
        with update_effect_trans [OF 1 update_effect_refl, of "set (dir # dirs)" "{}"] show ?thesis by simp
      qed
    qed
  qed (use Cons.prems in simp)
qed simp

lemma run_update_cases:
  assumes "run_update L sv d denied E lock version t = (t', r)"
  obtains (nothing) "t' = t"
  | (ran) mods v z h reqs e where "find_sdk_modules L d denied sdk_mod (plugin_trees lock) t = Some mods"
      and "chosen_version L sv d E version mods t = Some v" and "up_hashes E sdk_mod v = Some (z, h)"
      and "agrees_with_sum_db E sdk_mod v z h" and "up_reqs E sdk_mod v = Some reqs"
      and "update_each L sv d E v reqs mods
             [(sdk_mod @ ''@'' @ v, \<lparr>bm_mod = sdk_mod, bm_ver = v, bm_zip = z, bm_modhash = h\<rparr>)] t = (t', e)"
      and "r = (case e of None \<Rightarrow> Inr v | Some x \<Rightarrow> Inl x)"
proof (cases "t' = t")
  case True
  then show ?thesis by (rule nothing)
next
  case False
  with assms show ?thesis
    unfolding run_update_def by (auto split: if_splits option.splits prod.splits intro: ran)
qed

lemma run_update_effect:
  assumes p: "plain_hashes E" and r: "run_update L sv healthy_disk denied E lock version t = (t', res)"
  shows "t' = t \<or> (\<exists>mods. find_sdk_modules L healthy_disk denied sdk_mod (plugin_trees lock) t = Some mods \<and>
    update_effect E (set mods) t t')"
  using r
proof (cases rule: run_update_cases)
  case (ran mods v z h reqs e)
  have "cache_checked E [(sdk_mod @ ''@'' @ v, \<lparr>bm_mod = sdk_mod, bm_ver = v, bm_zip = z, bm_modhash = h\<rparr>)]"
    using ran(3,4) by (simp add: cache_checked_def checked_def)
  from update_each_effect [OF p this ran(6)] ran(1) show ?thesis by blast
qed simp

lemma update_each_wf:
  "wf_tree t \<Longrightarrow> wf_tree (fst (update_each L sv d E v reqs dirs cache t))"
proof (induction dirs arbitrary: cache t)
  case (Cons dir dirs)
  have "wf_tree (fst (apply_to_module L sv d dir bumps t))" for bumps
    unfolding apply_to_module_def using Cons.prems write_file_wf [of _ d]
    by (auto split: option.split prod.split bool.split read.split) (metis fst_conv write_file_wf)+
  then show ?case using Cons
    by (auto split: option.split prod.split bool.split sum.split) (metis fst_conv)+
qed simp

lemma run_update_wf: "wf_tree t \<Longrightarrow> wf_tree (fst (run_update L sv d denied E lock version t))"
  using update_each_wf [of t L sv d E] unfolding run_update_def
  by (auto split: option.split prod.split if_splits) (metis fst_conv)+

section \<open>What tidying changes\<close>

text \<open>What the code relies on of \<^verbatim>\<open>go mod tidy\<close>: in the project it writes the \<^verbatim>\<open>go.mod\<close> and \<^verbatim>\<open>go.sum\<close> of the module
  it runs in, as files, and nothing else.\<close>

definition tidy_laws :: "tidy_env \<Rightarrow> bool" where
  "tidy_laws T \<longleftrightarrow> (\<forall>c dir t. wf_tree t \<longrightarrow>
     wf_tree (fst (td_go T c dir t)) \<and> same_but {go_mod_at dir, go_sum_at dir} t (fst (td_go T c dir t)) \<and>
     (\<forall>p \<in> {go_mod_at dir, go_sum_at dir}. node_at t p \<noteq> Some Dir \<longrightarrow> node_at (fst (td_go T c dir t)) p \<noteq> Some Dir))"

lemma go_paths [simp]: "go_sum_at dir \<noteq> []" "butlast (go_mod_at dir) = path_elems dir" "butlast (go_sum_at dir) = path_elems dir"
  "path_elems dir \<noteq> go_mod_at dir" "path_elems dir \<noteq> go_sum_at dir"
  by (simp_all add: go_mod_at_def go_sum_at_def)

lemma remove_healthy_file:
  assumes "wf_tree t" and "node_at t p \<noteq> Some Dir" and "p \<noteq> []"
  shows "node_at (fst (remove_one healthy_disk p t)) q = (if q = p then None else node_at t q)"
proof (cases "node_at t p")
  case None
  then show ?thesis by (simp add: remove_one_def)
next
  case (Some n)
  with assms(2) obtain b where "node_at t p = Some (File b)" by (cases n) auto
  then have "\<not> has_children t p" by (rule file_has_no_children [OF assms(1)])
  with Some assms(3) show ?thesis by (simp add: remove_one_def healthy_disk_def)
qed

text \<open>A module that is not tidied is left as it was.\<close>

lemma tidy_module_effect:
  assumes T: "tidy_laws T" and w: "wf_tree t" and m: "tidy_module T healthy_disk dir t = (t', r)"
  shows "wf_tree t'" and "r = Tidied \<Longrightarrow> same_but {go_mod_at dir, go_sum_at dir} t t'"
    and "r \<noteq> Tidied \<Longrightarrow> node_at t' q = node_at t q"
proof -
  have "wf_tree t' \<and> (r = Tidied \<longrightarrow> same_but {go_mod_at dir, go_sum_at dir} t t') \<and>
    (r \<noteq> Tidied \<longrightarrow> (\<forall>q. node_at t' q = node_at t q))"
  proof (cases "t' = t")
    case True
    with w show ?thesis by simp
  next
    case False
    with m obtain c b s t1 ok where snap: "snapshot_mod_files healthy_disk t dir = Some (b, s)"
      and go: "td_go T c dir t = (t1, ok)"
      and res: "r = (if ok then Tidied else TidyFailed)" "t' = (if ok then t1 else restore_mod_files healthy_disk dir (b, s) t1)"
      by (cases "snapshot_mod_files healthy_disk t dir") (auto simp: tidy_module_def split: option.splits prod.splits bool.splits)
    from T [unfolded tidy_laws_def, rule_format, OF w, of c dir] go
    have w1: "wf_tree t1" and same: "same_but {go_mod_at dir, go_sum_at dir} t t1"
      and nd: "\<And>p. p \<in> {go_mod_at dir, go_sum_at dir} \<Longrightarrow> node_at t p \<noteq> Some Dir \<Longrightarrow> node_at t1 p \<noteq> Some Dir"
      by auto
    show ?thesis
    proof (cases ok)
      case True
      with res w1 same show ?thesis by simp
    next
      case no: False
      from snap have mod: "node_at t (go_mod_at dir) = Some (File b)"
        and sum: "node_at t (go_sum_at dir) = map_option File s"
        by (auto simp: snapshot_mod_files_def read_file_def split: read.splits option.splits node.splits if_splits)
      from wf_tree_parent [OF w] mod have "node_at t (path_elems dir) = Some Dir" by fastforce
      then have par: "node_at t1 (path_elems dir) = Some Dir" using same_butD [OF same] by simp
      have "node_at t1 (go_mod_at dir) \<noteq> Some Dir" using nd mod by simp
      with par have t2: "write_file healthy_disk (go_mod_at dir) b t1 = (put (go_mod_at dir) (File b) t1, True)" (is "_ = (?t2, _)")
        by (simp add: write_file_def healthy_disk_def)
      have w2: "wf_tree ?t2" using write_file_wf [OF w1, of healthy_disk "go_mod_at dir" b] t2 by simp
      have ne: "go_mod_at dir \<noteq> go_sum_at dir" by (rule go_mod_not_sum)
      have sd: "node_at ?t2 (go_sum_at dir) \<noteq> Some Dir" using nd [of "go_sum_at dir"] sum ne by (cases s) auto
      have n2: "node_at ?t2 q = (if q = go_mod_at dir then Some (File b) else node_at t1 q)" for q by simp
      have "wf_tree t' \<and> node_at t' q = node_at t q" for q
      proof (cases s)
        case None
        then have "t' = fst (remove_one healthy_disk (go_sum_at dir) ?t2)"
          using res no t2 by (simp add: restore_mod_files_def)
        with remove_healthy_file [OF w2 sd] remove_one_wf [OF w2] None sum mod same_butD [OF same, of q] n2
        show ?thesis by auto
      next
        case (Some x)
        have "node_at ?t2 (path_elems dir) = Some Dir" using par n2 by simp
        then have "write_file healthy_disk (go_sum_at dir) x ?t2 = (put (go_sum_at dir) (File x) ?t2, True)"
          using sd by (simp add: write_file_def healthy_disk_def)
        then have "t' = put (go_sum_at dir) (File x) ?t2" and "wf_tree (put (go_sum_at dir) (File x) ?t2)"
          using res no t2 Some write_file_wf [OF w2, of healthy_disk "go_sum_at dir" x] by (simp_all add: restore_mod_files_def)
        with Some sum mod same_butD [OF same, of q] n2 show ?thesis by auto
      qed
      then show ?thesis using res no by simp
    qed
  qed
  then show "wf_tree t'" and "r = Tidied \<Longrightarrow> same_but {go_mod_at dir, go_sum_at dir} t t'"
    and "r \<noteq> Tidied \<Longrightarrow> node_at t' q = node_at t q" by blast+
qed

definition tidied_paths :: "(string \<times> tidied) list \<Rightarrow> path set" where
  "tidied_paths rs = {p. \<exists>dir. (dir, Tidied) \<in> set rs \<and> (p = go_mod_at dir \<or> p = go_sum_at dir)}"

lemma tidy_modules_effect:
  assumes T: "tidy_laws T"
  shows "wf_tree t \<Longrightarrow> tidy_modules T healthy_disk dirs t = (t', rs) \<Longrightarrow>
    same_but (tidied_paths rs) t t' \<and> fst ` set rs \<subseteq> set dirs"
proof (induction dirs arbitrary: t rs)
  case (Cons dir dirs)
  obtain t1 r where 1: "tidy_module T healthy_disk dir t = (t1, r)" by fastforce
  obtain t2 rs' where 2: "tidy_modules T healthy_disk dirs t1 = (t2, rs')" by fastforce
  from Cons.prems(2) 1 2 have rs: "rs = (dir, r) # rs'" "t' = t2" by simp_all
  note e = tidy_module_effect [OF T Cons.prems(1) 1]
  from Cons.IH [OF e(1)] 2 rs(2) have IH: "same_but (tidied_paths rs') t1 t2" "fst ` set rs' \<subseteq> set dirs" by simp_all
  have "same_but (tidied_paths rs) t t1"
  proof (cases "r = Tidied")
    case True
    with e(2) show ?thesis by (auto simp: rs tidied_paths_def intro: same_but_mono)
  next
    case False
    with e(3) show ?thesis by (simp add: same_but_def)
  qed
  moreover have "tidied_paths rs' \<subseteq> tidied_paths rs" by (auto simp: rs tidied_paths_def)
  ultimately show ?case using same_but_trans [of "tidied_paths rs" t t1 "tidied_paths rs'" t2] IH rs
    by (auto intro: same_but_mono)
qed (simp add: tidied_paths_def)

text \<open>C14: on a disk that works, an update, whatever else it runs into and with its \<^verbatim>\<open>go mod tidy\<close> or without,
  touches only the \<^verbatim>\<open>go.mod\<close> and \<^verbatim>\<open>go.sum\<close> of modules of the project that require the SDK; every line it adds to a
  \<^verbatim>\<open>go.sum\<close> that no successful \<^verbatim>\<open>go mod tidy\<close> wrote is the hash of what the proxy serves, accepted by the checksum
  database where that is asked (without \<^verbatim>\<open>tidy\<close>, that is every line added); and a module whose tidy fails, or is not
  run, keeps exactly what the update wrote.\<close>

theorem only_checked_hashes_are_written:
  assumes p: "plain_hashes E" and T: "tidy_laws T" and w: "wf_tree t"
    and r: "run_opts L sv healthy_disk denied E T lock version tidy t = (t', rs, res)"
  shows "(\<forall>q. node_at t' q \<noteq> node_at t q \<longrightarrow>
      (\<exists>mods dir. find_sdk_modules L healthy_disk denied sdk_mod (plugin_trees lock) t = Some mods \<and> dir \<in> set mods \<and>
        (q = go_mod_at dir \<or> q = go_sum_at dir \<and> (q \<notin> tidied_paths rs \<longrightarrow> lines_at t' q \<subseteq> lines_at t q \<union> checked_lines E))))
    \<and> same_but (tidied_paths rs) (fst (run_update L sv healthy_disk denied E lock version t)) t'
    \<and> (\<not> tidy \<longrightarrow> rs = [])"
proof -
  let ?found = "find_sdk_modules L healthy_disk denied sdk_mod (plugin_trees lock) t"
  obtain t1 r1 where u: "run_update L sv healthy_disk denied E lock version t = (t1, r1)" by fastforce
  have w1: "wf_tree t1" using run_update_wf [OF w, of L sv healthy_disk denied E lock version] u by simp
  have after: "same_but (tidied_paths rs) t1 t' \<and> (\<not> tidy \<longrightarrow> rs = []) \<and>
      (\<forall>dir. (dir, Tidied) \<in> set rs \<longrightarrow> (\<exists>mods. ?found = Some mods \<and> dir \<in> set mods))"
  proof (cases "tidy \<and> (\<exists>v. r1 = Inr v)")
    case True
    then obtain mods where "tidy_modules T healthy_disk mods t1 = (t', rs)" "mods = (case ?found of None \<Rightarrow> [] | Some ms \<Rightarrow> ms)"
      using r u by (auto simp: run_opts_def split: prod.splits)
    with tidy_modules_effect [OF T w1 this(1)] True show ?thesis by (force split: option.splits)
  next
    case False
    then have "t' = t1" "rs = []" using r u by (auto simp: run_opts_def split: sum.splits)
    then show ?thesis by simp
  qed
  have eff: "\<exists>mods dir. ?found = Some mods \<and> dir \<in> set mods \<and>
      (q = go_mod_at dir \<or> q = go_sum_at dir \<and> (q \<notin> tidied_paths rs \<longrightarrow> lines_at t' q \<subseteq> lines_at t q \<union> checked_lines E))"
    if ch: "node_at t' q \<noteq> node_at t q" for q
  proof (cases "q \<in> tidied_paths rs")
    case True
    with after show ?thesis unfolding tidied_paths_def by blast
  next
    case False
    with after have same: "node_at t' q = node_at t1 q" by (blast dest: same_butD)
    then have "lines_at t' q = lines_at t1 q" by (simp add: lines_at_def)
    with same ch run_update_effect [OF p u] show ?thesis unfolding update_effect_def by metis
  qed
  show ?thesis using eff after u by simp
qed

section \<open>Where the requirements end up\<close>

lemma add_requires_effect:
  assumes L: "mod_laws L"
  shows "add_requires L bs f = Some f' \<Longrightarrow> \<forall>b \<in> set bs. bm_ver b = ver (bm_mod b) \<Longrightarrow>
    mod_replaces L f' = mod_replaces L f \<and>
    (\<forall>p. filter (\<lambda>r. fst r = p) (mod_requires L f') =
       (if p \<in> bm_mod ` set bs then [(p, ver p)] else filter (\<lambda>r. fst r = p) (mod_requires L f)))"
proof (induction bs arbitrary: f)
  case (Cons b bs)
  obtain f1 where f1: "add_require L (bm_mod b) (bm_ver b) f = Some f1" and rest: "add_requires L bs f1 = Some f'"
    using Cons.prems(1) by (auto split: option.splits)
  note one = require_law [OF L f1]
  have others: "filter (\<lambda>r. fst r = p) (mod_requires L f1) = filter (\<lambda>r. fst r = p) (mod_requires L f)"
    if "p \<noteq> bm_mod b" for p
  proof -
    have n: "filter (\<lambda>r. fst r = p) rs = filter (\<lambda>r. fst r = p) (filter (\<lambda>r. fst r \<noteq> bm_mod b) rs)" for rs :: "requirement list"
      using that by (induction rs) auto
    show ?thesis by (subst (1 2) n) (simp add: one(3) del: filter_filter)
  qed
  have mine: "filter (\<lambda>r. fst r = bm_mod b) (mod_requires L f1) = [(bm_mod b, ver (bm_mod b))]"
    using one(2) Cons.prems(2) by simp
  have ih: "mod_replaces L f' = mod_replaces L f1 \<and>
    (\<forall>p. filter (\<lambda>r. fst r = p) (mod_requires L f') =
       (if p \<in> bm_mod ` set bs then [(p, ver p)] else filter (\<lambda>r. fst r = p) (mod_requires L f1)))"
    by (rule Cons.IH [OF rest]) (use Cons.prems(2) in simp)
  then have "filter (\<lambda>r. fst r = p) (mod_requires L f') =
       (if p \<in> bm_mod ` set (b # bs) then [(p, ver p)] else filter (\<lambda>r. fst r = p) (mod_requires L f))" for p
    using mine others by (cases "p = bm_mod b") auto
  with ih one(1) show ?case by simp
qed simp

text \<open>The modules a module file raises: listed, not replaced, below what the SDK asks for.\<close>

definition raised :: "'m modlib \<Rightarrow> semver \<Rightarrow> (string, string) gomap \<Rightarrow> 'm \<Rightarrow> string \<Rightarrow> bool" where
  "raised L sv reqs f p \<longleftrightarrow> p \<noteq> sdk_mod \<and> p \<notin> old_path ` set (mod_replaces L f) \<and>
     (\<exists>have want. (p, have) \<in> set (mod_requires L f) \<and> map_of reqs p = Some want \<and> 0 < sv_compare sv want have)"

definition raise_of :: "'m modlib \<Rightarrow> semver \<Rightarrow> (string, string) gomap \<Rightarrow> 'm \<Rightarrow> string \<times> string \<Rightarrow> (string \<times> string) option" where
  "raise_of L sv reqs f = (\<lambda>(m, have).
     case map_of reqs m of
       None \<Rightarrow> None
     | Some want \<Rightarrow>
         if m \<in> old_path ` set (mod_replaces L f) \<or> m = sdk_mod then None
         else if 0 < sv_compare sv want have then Some (m, want) else None)"

lemma raise_of_Some:
  "raise_of L sv reqs f (m, have) = Some (p, w) \<longleftrightarrow>
     m = p \<and> p \<noteq> sdk_mod \<and> p \<notin> old_path ` set (mod_replaces L f) \<and> map_of reqs p = Some w \<and> 0 < sv_compare sv w have"
  by (auto simp: raise_of_def split: option.split)

lemma mem_map_filter: "x \<in> set (List.map_filter g xs) \<longleftrightarrow> (\<exists>y \<in> set xs. g y = Some x)"
  by (induction xs) (auto simp: List.map_filter_simps split: option.split)

lemma raises_for_Some:
  assumes "raises_for L sv d t dir reqs = Some rs"
  obtains f where "read_mod L d t (go_mod_at dir) = Some f"
    and "\<And>p w. (p, w) \<in> set rs \<longleftrightarrow> raised L sv reqs f p \<and> map_of reqs p = Some w"
proof -
  obtain f where f: "read_mod L d t (go_mod_at dir) = Some f"
    and rs: "rs = sort_slice (\<lambda>a b. fst a < fst b) (List.map_filter (raise_of L sv reqs f) (mod_requires L f))"
    using assms by (auto simp: raises_for_def raise_of_def split: option.splits)
  have "(p, w) \<in> set rs \<longleftrightarrow> (\<exists>have. (p, have) \<in> set (mod_requires L f) \<and> raise_of L sv reqs f (p, have) = Some (p, w))" for p w
    unfolding rs set_sort_slice mem_map_filter Bex_def split_paired_Ex raise_of_Some by blast
  then have "(p, w) \<in> set rs \<longleftrightarrow> raised L sv reqs f p \<and> map_of reqs p = Some w" for p w
    by (auto simp: raise_of_Some raised_def)
  with f show ?thesis by (rule that)
qed

text \<open>Module paths carry no \<^verbatim>\<open>@\<close>.\<close>

definition no_at :: "string \<Rightarrow> bool" where
  "no_at m \<longleftrightarrow> CHR ''@'' \<notin> set m"

lemma at_split: "no_at m \<Longrightarrow> no_at m' \<Longrightarrow> m @ ''@'' @ v = m' @ ''@'' @ v' \<Longrightarrow> m = m' \<and> v = v'"
proof -
  assume m: "no_at m" and m': "no_at m'" and e: "m @ ''@'' @ v = m' @ ''@'' @ v'"
  have 1: "str_cut (CHR ''@'') (m @ CHR ''@'' # v) = (m, v, True)"
    and 2: "str_cut (CHR ''@'') (m' @ CHR ''@'' # v') = (m', v', True)"
    using str_cut_found [OF m [unfolded no_at_def], of v] str_cut_found [OF m' [unfolded no_at_def], of v'] .
  have "m @ CHR ''@'' # v = m' @ CHR ''@'' # v'" using e by simp
  from 1 [unfolded this] 2 show "m = m' \<and> v = v'" by simp
qed

definition no_at_names :: "'m modlib \<Rightarrow> update_env \<Rightarrow> bool" where
  "no_at_names L E \<longleftrightarrow>
     (\<forall>b f p v. mod_parse L b = Some f \<longrightarrow> (p, v) \<in> set (mod_requires L f) \<longrightarrow> no_at p) \<and>
     (\<forall>m v. up_hashes E m v \<noteq> None \<longrightarrow> no_at m)"

text \<open>What the update of one module does to its module file.\<close>

definition moved :: "'m modlib \<Rightarrow> semver \<Rightarrow> (string, string) gomap \<Rightarrow> string \<Rightarrow> 'm \<Rightarrow> 'm \<Rightarrow> bool" where
  "moved L sv reqs v f f' \<longleftrightarrow> mod_replaces L f' = mod_replaces L f \<and>
     (\<forall>p. filter (\<lambda>r. fst r = p) (mod_requires L f') =
        (if p = sdk_mod then [(sdk_mod, v)]
         else if raised L sv reqs f p then [(p, the (map_of reqs p))]
         else filter (\<lambda>r. fst r = p) (mod_requires L f)))"

lemma read_mod_healthy:
  "read_mod L healthy_disk t p = (case node_at t p of Some (File b) \<Rightarrow> mod_parse L b | _ \<Rightarrow> None)"
  by (rule read_mod_node) (simp add: healthy_disk_def)

lemma bumps_named:
  assumes "cache_checked E cache" and n: "no_at_names L E" and h: "hash_bumps E cache bs = (c, Inr hs)"
    and bs: "\<And>b. b \<in> set bs \<Longrightarrow> no_at (fst b)"
  shows "map (\<lambda>h. (bm_mod h, bm_ver h)) hs = bs"
proof -
  have k: "list_all (checked E) hs" and keys: "map (\<lambda>h. bm_mod h @ ''@'' @ bm_ver h) hs = map (\<lambda>b. fst b @ ''@'' @ snd b) bs"
    using hash_bumps_checked [OF assms(1) h] by simp_all
  have len: "length hs = length bs" using arg_cong [OF keys, of length] by simp
  show ?thesis
  proof (rule nth_equalityI)
    fix i assume "i < length (map (\<lambda>h. (bm_mod h, bm_ver h)) hs)"
    then have i: "i < length hs" "i < length bs" using len by simp_all
    have "checked E (hs ! i)" using k i(1) by (simp add: list_all_length)
    then have 1: "no_at (bm_mod (hs ! i))" using n unfolding no_at_names_def checked_def by blast
    have "map (\<lambda>h. bm_mod h @ ''@'' @ bm_ver h) hs ! i = map (\<lambda>b. fst b @ ''@'' @ snd b) bs ! i" by (simp only: keys)
    then have "bm_mod (hs ! i) @ ''@'' @ bm_ver (hs ! i) = fst (bs ! i) @ ''@'' @ snd (bs ! i)" using i by simp
    from at_split [OF 1 bs [OF nth_mem [OF i(2)]] this] i(1) show "map (\<lambda>h. (bm_mod h, bm_ver h)) hs ! i = bs ! i"
      by (simp add: prod_eq_iff)
  qed (simp add: len)
qed

lemma apply_to_module_requires:
  assumes L: "mod_laws L" and a: "apply_to_module L sv healthy_disk dir bumps t = (t', True)"
  obtains f f1 f' where "read_mod L healthy_disk t (go_mod_at dir) = Some f" and "add_requires L bumps f = Some f1"
    and "read_mod L healthy_disk t' (go_mod_at dir) = Some f'" and "mod_requires L f' = mod_requires L f1"
    and "mod_replaces L f' = mod_replaces L f1"
proof -
  obtain f f1 out t1 s where f: "read_mod L healthy_disk t (go_mod_at dir) = Some f" and f1: "add_requires L bumps f = Some f1"
    and out: "mod_format L (mod_cleanup L f1) = Some out" and w: "write_file healthy_disk (go_mod_at dir) out t = (t1, True)"
    and w2: "write_file healthy_disk (go_sum_at dir) (upsert_all sv bumps s) t1 = (t', True)"
    using a by (auto simp: apply_to_module_def split: option.splits prod.splits bool.splits read.splits)
  obtain f' where f': "mod_parse L out = Some f'" "mod_requires L f' = mod_requires L f1" "mod_replaces L f' = mod_replaces L f1"
    using format_law [OF L out] cleanup_law [OF L] by auto
  have "node_at t' (go_mod_at dir) = Some (File out)"
    using same_butD [OF write_file_same_but [OF w2], of "go_mod_at dir"] write_file_ok [OF w] go_mod_not_sum [of dir dir] by simp
  then have "read_mod L healthy_disk t' (go_mod_at dir) = Some f'" using f'(1) by (simp add: read_mod_healthy)
  from that [OF f f1 this f'(2,3)] show ?thesis .
qed

lemma module_moved:
  assumes L: "mod_laws L" and n: "no_at_names L E" and cc: "cache_checked E cache"
    and rs: "raises_for L sv healthy_disk t dir reqs = Some rs"
    and h: "hash_bumps E cache ((sdk_mod, v) # rs) = (c, Inr hs)"
    and a: "apply_to_module L sv healthy_disk dir hs t = (t', True)"
  shows "\<exists>f f'. read_mod L healthy_disk t (go_mod_at dir) = Some f \<and>
    read_mod L healthy_disk t' (go_mod_at dir) = Some f' \<and> moved L sv reqs v f f'"
proof -
  obtain f where f: "read_mod L healthy_disk t (go_mod_at dir) = Some f"
    and r: "\<And>p w. (p, w) \<in> set rs \<longleftrightarrow> raised L sv reqs f p \<and> map_of reqs p = Some w"
    using raises_for_Some [OF rs] by metis
  obtain b where b: "mod_parse L b = Some f" using f by (auto simp: read_mod_healthy split: option.splits node.splits)
  have "no_at (fst x)" if "x \<in> set ((sdk_mod, v) # rs)" for x
  proof (cases "x = (sdk_mod, v)")
    case True
    have "no_at sdk_mod" by code_simp
    with True show ?thesis by simp
  next
    case False
    with that r [of "fst x" "snd x"] have "raised L sv reqs f (fst x)" by simp
    then obtain w where "(fst x, w) \<in> set (mod_requires L f)" by (auto simp: raised_def)
    with n b show ?thesis unfolding no_at_names_def by blast
  qed
  from bumps_named [OF cc n h this] have hs: "map (\<lambda>h. (bm_mod h, bm_ver h)) hs = (sdk_mod, v) # rs" .
  let ?ver = "\<lambda>p. if p = sdk_mod then v else the (map_of reqs p)"
  have ver: "\<forall>h \<in> set hs. bm_ver h = ?ver (bm_mod h)"
  proof
    fix h assume "h \<in> set hs"
    then have "(bm_mod h, bm_ver h) \<in> set (map (\<lambda>h. (bm_mod h, bm_ver h)) hs)" by force
    then have "(bm_mod h, bm_ver h) = (sdk_mod, v) \<or> (bm_mod h, bm_ver h) \<in> set rs" unfolding hs by simp
    with r [of "bm_mod h" "bm_ver h"] show "bm_ver h = ?ver (bm_mod h)" by (auto simp: raised_def)
  qed
  have "bm_mod ` set hs = fst ` set (map (\<lambda>h. (bm_mod h, bm_ver h)) hs)" by force
  then have "bm_mod ` set hs = insert sdk_mod (fst ` set rs)" unfolding hs by simp
  moreover have "p \<in> fst ` set rs \<longleftrightarrow> raised L sv reqs f p" for p
  proof
    assume "p \<in> fst ` set rs"
    then obtain w where "(p, w) \<in> set rs" by auto
    with r show "raised L sv reqs f p" by blast
  next
    assume a: "raised L sv reqs f p"
    then obtain w where "map_of reqs p = Some w" by (auto simp: raised_def)
    with a r have "(p, w) \<in> set rs" by blast
    then show "p \<in> fst ` set rs" by (rule image_eqI [rotated]) simp
  qed
  ultimately have mods: "p \<in> bm_mod ` set hs \<longleftrightarrow> p = sdk_mod \<or> raised L sv reqs f p" for p by simp
  obtain g g1 f' where g: "read_mod L healthy_disk t (go_mod_at dir) = Some g" "add_requires L hs g = Some g1"
    "read_mod L healthy_disk t' (go_mod_at dir) = Some f'" "mod_requires L f' = mod_requires L g1"
    "mod_replaces L f' = mod_replaces L g1"
    using apply_to_module_requires [OF L a] by metis
  with f have "add_requires L hs f = Some g1" by simp
  from add_requires_effect [OF L this, of ?ver] ver g(4,5) mods have "moved L sv reqs v f f'" by (auto simp: moved_def)
  with f g(3) show ?thesis by blast
qed

lemma module_untouched:
  assumes "update_effect E A t t'" and "go_mod_at dir \<notin> go_mod_at ` A"
  shows "read_mod L healthy_disk t' (go_mod_at dir) = read_mod L healthy_disk t (go_mod_at dir)"
proof -
  have "node_at t' (go_mod_at dir) = node_at t (go_mod_at dir)"
    using spec [OF assms(1) [unfolded update_effect_def], of "go_mod_at dir"] assms(2) go_mod_not_sum by blast
  then show ?thesis by (simp add: read_mod_healthy)
qed

lemma update_each_moves:
  assumes L: "mod_laws L" and n: "no_at_names L E" and p: "plain_hashes E"
  shows "cache_checked E cache \<Longrightarrow> update_each L sv healthy_disk E v reqs dirs cache t = (t', None) \<Longrightarrow>
    distinct (map go_mod_at dirs) \<Longrightarrow> dir \<in> set dirs \<Longrightarrow>
    \<exists>f f'. read_mod L healthy_disk t (go_mod_at dir) = Some f \<and>
      read_mod L healthy_disk t' (go_mod_at dir) = Some f' \<and> moved L sv reqs v f f'"
proof (induction dirs arbitrary: cache t)
  case (Cons x dirs)
  obtain rs c hs t1 where rs: "raises_for L sv healthy_disk t x reqs = Some rs"
    and h: "hash_bumps E cache ((sdk_mod, v) # rs) = (c, Inr hs)"
    and a: "apply_to_module L sv healthy_disk x hs t = (t1, True)"
    and rest: "update_each L sv healthy_disk E v reqs dirs c t1 = (t', None)"
    using Cons.prems(2) by (auto split: option.splits prod.splits sum.splits bool.splits)
  note checks = hash_bumps_checked [OF Cons.prems(1) h]
  have one: "update_effect E {x} t t1" by (rule apply_to_module_effect [OF p _ a]) (use checks in simp)
  have others: "update_effect E (set dirs) t1 t'" by (rule update_each_effect [OF p _ rest]) (use checks in simp)
  show ?case
  proof (cases "go_mod_at dir = go_mod_at x")
    case True
    have "go_mod_at x \<notin> go_mod_at ` set dirs" using Cons.prems(3) by simp
    from module_untouched [OF others this]
    have "read_mod L healthy_disk t' (go_mod_at x) = read_mod L healthy_disk t1 (go_mod_at x)" .
    with module_moved [OF L n Cons.prems(1) rs h a] True show ?thesis by simp
  next
    case False
    then have d: "dir \<in> set dirs" using Cons.prems(4) by auto
    have "read_mod L healthy_disk t1 (go_mod_at dir) = read_mod L healthy_disk t (go_mod_at dir)"
      by (rule module_untouched [OF one]) (use False in simp)
    with Cons.IH [OF _ rest _ d] checks Cons.prems(3) show ?thesis by simp
  qed
qed simp

text \<open>Names as a file system has them.\<close>

definition plain_names :: "tree \<Rightarrow> bool" where
  "plain_names t \<longleftrightarrow>
     list_all (list_all (\<lambda>e. e \<noteq> [] \<and> slash \<notin> set e \<and> e \<noteq> ''.'' \<and> e \<noteq> ''..'')) (keys_of t)"

lemma path_elems_rel:
  assumes "list_all (\<lambda>e. e \<noteq> [] \<and> slash \<notin> set e \<and> e \<noteq> ''.'' \<and> e \<noteq> ''..'') q"
  shows "path_elems (rel_of q) = q"
proof (cases "q = []")
  case True
  have "path_elems ''.'' = []" by code_simp
  with True show ?thesis by (simp add: rel_of_def)
next
  case False
  then have s: "split_on slash (join_with [slash] q) = q" using split_join assms by (auto simp: list_all_iff)
  have "foldl (clean_step r) acc q = acc @ q" for r acc
    using assms by (induction q arbitrary: acc) (simp_all add: clean_step_def)
  with False s show ?thesis by (simp add: path_elems_def rel_of_def)
qed

lemma found_distinct:
  assumes w: "wf_tree t" and n: "plain_names t" and f: "find_sdk_modules L d denied m plugins t = Some mods"
  shows "distinct (map go_mod_at mods)"
proof -
  let ?ps = "filter (\<lambda>p. reached plugins d t p \<and> is_sdk_module L d t m p) (walk_order t [])"
  have mods: "mset mods = mset (map (\<lambda>p. rel_of (butlast p)) ?ps)"
    using f unfolding find_sdk_modules_def by (auto split: if_splits simp flip: mset_map)
  have at: "go_mod_at (rel_of (butlast p)) = p" if p: "p \<in> set ?ps" for p
  proof -
    have q: "p \<noteq> []" "last p = ''go.mod''" and k: "p \<in> fst ` set t"
      using p by (auto simp: is_sdk_module_def walk_order_mem is_file_def)
    have "list_all (\<lambda>e. e \<noteq> [] \<and> slash \<notin> set e \<and> e \<noteq> ''.'' \<and> e \<noteq> ''..'') (butlast p)"
      using n k by (auto simp: plain_names_def list_all_iff dest: in_set_butlastD)
    from path_elems_rel [OF this] q show ?thesis by (metis append_butlast_last_id go_mod_at_def)
  qed
  have "mset (map go_mod_at mods) = mset (map (\<lambda>p. go_mod_at (rel_of (butlast p))) ?ps)"
    using mods by (metis (no_types, lifting) List.map.compositionality comp_apply map_eq_conv mset_map)
  also have "map (\<lambda>p. go_mod_at (rel_of (butlast p))) ?ps = ?ps" by (rule map_idI) (rule at)
  finally have "distinct (map go_mod_at mods) = distinct ?ps" by (rule mset_eq_imp_distinct_iff)
  with walk_order_distinct [OF wf_tree_map [OF w], of "[]"] show ?thesis by simp
qed

text \<open>The empty string is no version.\<close>

definition higher :: "semver \<Rightarrow> string \<Rightarrow> string \<Rightarrow> string" where
  "higher sv have best = (if sv_valid sv have \<and> (best = [] \<or> 0 < sv_compare sv have best) then have else best)"

lemma higher_than:
  assumes c: "comparison (sv_compare sv)" and e: "\<not> sv_valid sv []"
  shows "best \<noteq> [] \<Longrightarrow> higher sv hv best \<noteq> [] \<and> 0 \<le> sv_compare sv (higher sv hv best) best"
    and "sv_valid sv hv \<Longrightarrow> higher sv hv best \<noteq> [] \<and> 0 \<le> sv_compare sv (higher sv hv best) hv"
  using e comparison.cmp_refl [OF c] comparison.cmp_sym [OF c, of hv best]
  by (auto simp: higher_def)

lemma highest_fold:
  assumes c: "comparison (sv_compare sv)" and e: "\<not> sv_valid sv []"
  shows "(best \<noteq> [] \<longrightarrow> 0 \<le> sv_compare sv (fold (\<lambda>x. higher sv (get x)) xs best) best) \<and>
    (\<forall>x \<in> set xs. sv_valid sv (get x) \<longrightarrow> 0 \<le> sv_compare sv (fold (\<lambda>x. higher sv (get x)) xs best) (get x))"
proof (induction xs arbitrary: best)
  case Nil
  show ?case using comparison.cmp_refl [OF c] by simp
next
  case (Cons y xs)
  have s: "sv_compare sv b a = - sv_compare sv a b" for a b by (rule comparison.cmp_sym [OF c])
  have tr: "0 \<le> sv_compare sv a d" if "0 \<le> sv_compare sv a b" "0 \<le> sv_compare sv b d" for a b d
    using comparison.cmp_trans [OF c, of d b a] s [of a b] s [of b d] s [of a d] that by simp
  let ?n = "higher sv (get y) best"
  let ?f = "fold (\<lambda>x. higher sv (get x)) xs ?n"
  have ih: "?n \<noteq> [] \<Longrightarrow> 0 \<le> sv_compare sv ?f ?n"
    "x \<in> set xs \<Longrightarrow> sv_valid sv (get x) \<Longrightarrow> 0 \<le> sv_compare sv ?f (get x)" for x
    using Cons.IH [of ?n] by blast+
  have "0 \<le> sv_compare sv ?f best" if "best \<noteq> []"
    using higher_than(1) [OF c e that, of "get y"] ih(1) tr by blast
  moreover have "0 \<le> sv_compare sv ?f (get y)" if "sv_valid sv (get y)"
    using higher_than(2) [OF c e that, of best] ih(1) tr by blast
  ultimately show ?case using ih(2) by auto
qed

lemma highest_recorded_fold:
  "highest_recorded L sv d t mods =
     fold (\<lambda>dir. higher sv (sdk_go_required_version L d t (go_mod_at dir) sdk_mod)) mods
       (if sv_valid sv (locked_version d t) then locked_version d t else [])"
  unfolding highest_recorded_def higher_def Let_def ..

lemma filter_one: "filter (\<lambda>r. fst r = p) rs = [(p, v)] \<Longrightarrow> map_of rs p = Some (v::string)"
  by (induction rs) (auto split: if_splits)

text \<open>C15: a successful update, as it stands before its closing \<^verbatim>\<open>go mod tidy\<close>, leaves every module that requires the
  SDK, except one that replaces it, on the one chosen version; a requirement listed once is raised to what the SDK asks for
  and never lowered; replacements stay; and without a version of its own an update never moves a module below what it,
  another module or the lock records.\<close>

theorem an_update_moves_every_module_and_lowers_nothing:
  assumes L: "mod_laws L" and c: "comparison (sv_compare sv)" and e: "\<not> sv_valid sv []"
    and n: "no_at_names L E" and p: "plain_hashes E" and wf: "wf_tree t" and names: "plain_names t"
    and r: "run_update L sv healthy_disk denied E lock version t = (t', Inr v)"
    and found: "find_sdk_modules L healthy_disk denied sdk_mod (plugin_trees lock) t = Some mods" and dir: "dir \<in> set mods"
  shows "\<exists>f f' reqs. read_mod L healthy_disk t (go_mod_at dir) = Some f \<and>
    read_mod L healthy_disk t' (go_mod_at dir) = Some f' \<and> up_reqs E sdk_mod v = Some reqs \<and>
    mod_replaces L f' = mod_replaces L f \<and> map_of (mod_requires L f') sdk_mod = Some v \<and>
    (\<forall>q have. q \<noteq> sdk_mod \<longrightarrow> filter (\<lambda>r. fst r = q) (mod_requires L f) = [(q, have)] \<longrightarrow>
       (\<exists>now. filter (\<lambda>r. fst r = q) (mod_requires L f') = [(q, now)] \<and> 0 \<le> sv_compare sv now have \<and>
          (\<forall>want. q \<notin> old_path ` set (mod_replaces L f) \<longrightarrow> map_of reqs q = Some want \<longrightarrow> 0 \<le> sv_compare sv now want))) \<and>
    (version = [] \<longrightarrow> (sv_valid sv (locked_version healthy_disk t) \<longrightarrow> 0 \<le> sv_compare sv v (locked_version healthy_disk t)) \<and>
       (\<forall>dir' \<in> set mods. let have = sdk_go_required_version L healthy_disk t (go_mod_at dir') sdk_mod
          in sv_valid sv have \<longrightarrow> 0 \<le> sv_compare sv v have))"
proof -
  have s: "sv_compare sv b a = - sv_compare sv a b" for a b by (rule comparison.cmp_sym [OF c])
  have refl: "sv_compare sv a a = 0" for a by (rule comparison.cmp_refl [OF c])
  obtain z h reqs where ch: "chosen_version L sv healthy_disk E version mods t = Some v"
    and hashes: "up_hashes E sdk_mod v = Some (z, h)" and ok: "agrees_with_sum_db E sdk_mod v z h"
    and reqs: "up_reqs E sdk_mod v = Some reqs"
    and run: "update_each L sv healthy_disk E v reqs mods
             [(sdk_mod @ ''@'' @ v, \<lparr>bm_mod = sdk_mod, bm_ver = v, bm_zip = z, bm_modhash = h\<rparr>)] t = (t', None)"
    using r found dir unfolding run_update_def by (auto split: if_splits option.splits prod.splits)
  have cc: "cache_checked E [(sdk_mod @ ''@'' @ v, \<lparr>bm_mod = sdk_mod, bm_ver = v, bm_zip = z, bm_modhash = h\<rparr>)]"
    using hashes ok by (simp add: cache_checked_def checked_def)
  obtain f f' where f: "read_mod L healthy_disk t (go_mod_at dir) = Some f"
    and f': "read_mod L healthy_disk t' (go_mod_at dir) = Some f'" and m: "moved L sv reqs v f f'"
    using update_each_moves [OF L n p cc run found_distinct [OF wf names found] dir] by blast
  have sdk: "map_of (mod_requires L f') sdk_mod = Some v" by (rule filter_one) (use m in \<open>simp add: moved_def\<close>)
  have others: "\<exists>now. filter (\<lambda>r. fst r = q) (mod_requires L f') = [(q, now)] \<and> 0 \<le> sv_compare sv now hv \<and>
          (\<forall>want. q \<notin> old_path ` set (mod_replaces L f) \<longrightarrow> map_of reqs q = Some want \<longrightarrow> 0 \<le> sv_compare sv now want)"
    if q: "q \<noteq> sdk_mod" and one: "filter (\<lambda>r. fst r = q) (mod_requires L f) = [(q, hv)]" for q hv
  proof -
    have only: "(q, w) \<in> set (mod_requires L f) \<longleftrightarrow> w = hv" for w
    proof -
      have "(q, w) \<in> set (filter (\<lambda>r. fst r = q) (mod_requires L f)) \<longleftrightarrow> (q, w) \<in> set (mod_requires L f)" by simp
      then show ?thesis unfolding one by simp
    qed
    show ?thesis
    proof (cases "raised L sv reqs f q")
      case True
      then obtain want where w: "map_of reqs q = Some want" "0 < sv_compare sv want hv" using only by (auto simp: raised_def)
      have now: "filter (\<lambda>r. fst r = q) (mod_requires L f') = [(q, want)]" using True q m w(1) by (simp add: moved_def)
      show ?thesis by (rule exI [of _ want]) (use now w refl [of want] in auto)
    next
      case False
      have "0 \<le> sv_compare sv hv want" if "q \<notin> old_path ` set (mod_replaces L f)" "map_of reqs q = Some want" for want
      proof (rule ccontr)
        assume "\<not> 0 \<le> sv_compare sv hv want"
        then have "0 < sv_compare sv want hv" using s [of hv want] by simp
        moreover have "(q, hv) \<in> set (mod_requires L f)" using only by blast
        ultimately have "raised L sv reqs f q" using q that unfolding raised_def by blast
        with False show False by blast
      qed
      moreover have now: "filter (\<lambda>r. fst r = q) (mod_requires L f') = [(q, hv)]" using False q m one by (simp add: moved_def)
      ultimately show ?thesis using refl [of hv] by (intro exI [of _ hv]) auto
    qed
  qed
  let ?have = "highest_recorded L sv healthy_disk t mods"
  have keep: "0 \<le> sv_compare sv v a" if bare: "version = []" and a: "0 \<le> sv_compare sv ?have a" for a
  proof -
    obtain w where w: "v = (if 0 < sv_compare sv ?have w then ?have else w)"
      using ch bare by (auto simp: chosen_version_def Let_def split: option.splits)
    show ?thesis
    proof (cases "0 < sv_compare sv ?have w")
      case True
      with w a show ?thesis by simp
    next
      case False
      then have "sv_compare sv ?have w \<le> 0" by simp
      with comparison.cmp_trans [OF c, of a ?have w] a s [of a ?have] s [of a w] w False show ?thesis by simp
    qed
  qed
  note hf = highest_fold [OF c e, of _ "\<lambda>dir. sdk_go_required_version L healthy_disk t (go_mod_at dir) sdk_mod" mods]
  have "0 \<le> sv_compare sv v (locked_version healthy_disk t)" if "version = []" "sv_valid sv (locked_version healthy_disk t)"
  proof (rule keep [OF that(1)])
    have "locked_version healthy_disk t \<noteq> []" using that(2) e by metis
    then show "0 \<le> sv_compare sv ?have (locked_version healthy_disk t)"
      using hf [of "locked_version healthy_disk t"] that(2) by (simp add: highest_recorded_fold)
  qed
  moreover have "0 \<le> sv_compare sv v (sdk_go_required_version L healthy_disk t (go_mod_at dir') sdk_mod)"
    if "version = []" "dir' \<in> set mods" "sv_valid sv (sdk_go_required_version L healthy_disk t (go_mod_at dir') sdk_mod)" for dir'
    by (rule keep [OF that(1)]) (use hf that(2,3) in \<open>simp add: highest_recorded_fold\<close>)
  ultimately show ?thesis using f f' m sdk others reqs by (auto simp: moved_def Let_def)
qed

section \<open>Concrete updates\<close>

definition update_mods :: mod_table where
  "update_mods =
     [(''old'', [(sdk_mod, ''v1.2.0''), (''example.com/b'', ''v1.0.0'')], []),
      (''new'', [(''example.com/b'', ''v1.5.0''), (sdk_mod, ''v2.0.0'')], []),
      (''tail'', [(sdk_mod, ''v1.1.0''), (''example.com/c'', ''v1.0.0'')], [])]"

definition update_tree :: tree where
  "update_tree = [([''a''], Dir), ([''a'', ''go.mod''], File ''old''), ([''b''], Dir)]"

definition sample_update :: update_env where
  "sample_update =
     \<lparr>up_latest = Some ''v2.0.0'',
      up_hashes = (\<lambda>m v. if plain_word m \<and> no_at m \<and> plain_word v then Some (''h1:z'', ''h1:m'') else None),
      up_sumdb = (\<lambda>m v. if m = ''example.com/c'' then Some (m @ '' '' @ v @ '' h1:other'') else None),
      up_reqs = (\<lambda>m v. Some [(''example.com/b'', ''v1.5.0''), (''example.com/c'', ''v1.5.0'')]),
      up_getenv = (\<lambda>_. []), up_match = (\<lambda>_ _. False)\<rparr>"

lemma sample_update_laws:
  "mod_laws (table_lib update_mods)" "plain_hashes sample_update" "no_at_names (table_lib update_mods) sample_update"
proof -
  show "mod_laws (table_lib update_mods)" by (rule table_lib_laws) (simp add: update_mods_def)
  have "plain_word ''h1:z''" "plain_word ''h1:m''" by code_simp+
  then show "plain_hashes sample_update" by (auto simp: plain_hashes_def sample_update_def split: if_splits)
  have "list_all (\<lambda>x. list_all (\<lambda>r. no_at (fst r)) (fst (snd x))) update_mods" by code_simp
  then have "no_at p" if "map_of update_mods b = Some f" "(p, v) \<in> set (fst f)" for b f p v
    using map_of_SomeD [OF that(1)] that(2) unfolding list_all_iff by (metis fst_conv snd_conv)
  then show "no_at_names (table_lib update_mods) sample_update"
    by (auto simp: no_at_names_def sample_update_def table_lib_def split: if_splits)
qed

lemma sample_update_result:
  "snd (run_update (table_lib update_mods) byte_versions healthy_disk (\<lambda>_. False) sample_update None [] update_tree) = Inr ''v2.0.0''"
  "node_at (fst (run_update (table_lib update_mods) byte_versions healthy_disk (\<lambda>_. False) sample_update None [] update_tree)) (go_sum_at ''a'') \<noteq> node_at update_tree (go_sum_at ''a'')"
  "lines_at (fst (run_update (table_lib update_mods) byte_versions healthy_disk (\<lambda>_. False) sample_update None [] update_tree)) (go_sum_at ''a'') \<noteq> {}"
proof -
  have "case run_update (table_lib update_mods) byte_versions healthy_disk (\<lambda>_. False) sample_update None [] update_tree of (t, e) \<Rightarrow>
      e = Inr ''v2.0.0'' \<and> node_at t (go_sum_at ''a'') \<noteq> node_at update_tree (go_sum_at ''a'') \<and> lines_at t (go_sum_at ''a'') \<noteq> {}"
    by code_simp
  then show "snd (run_update (table_lib update_mods) byte_versions healthy_disk (\<lambda>_. False) sample_update None [] update_tree) = Inr ''v2.0.0''"
    "node_at (fst (run_update (table_lib update_mods) byte_versions healthy_disk (\<lambda>_. False) sample_update None [] update_tree)) (go_sum_at ''a'') \<noteq> node_at update_tree (go_sum_at ''a'')"
    "lines_at (fst (run_update (table_lib update_mods) byte_versions healthy_disk (\<lambda>_. False) sample_update None [] update_tree)) (go_sum_at ''a'') \<noteq> {}"
    by (simp_all only: case_prod_beta simp_thms)
qed

lemma sample_update_run:
  "run_update (table_lib update_mods) byte_versions healthy_disk (\<lambda>_. False) sample_update None [] update_tree = (fst (run_update (table_lib update_mods) byte_versions healthy_disk (\<lambda>_. False) sample_update None [] update_tree), Inr ''v2.0.0'')"
  using sample_update_result(1) by (metis prod.collapse)

text \<open>Two modules on the old version; \<^verbatim>\<open>go mod tidy\<close> succeeds in the first and adds a line to its \<^verbatim>\<open>go.sum\<close>, and
  fails in the second after it has written both of its files.\<close>

definition tidy_mods :: mod_table where
  "tidy_mods = [(''go 1.20'', [(sdk_mod, ''v1.2.0'')], []), (''go 1.21'', [(sdk_mod, ''v2.0.0'')], [])]"

definition tidy_tree :: tree where
  "tidy_tree = [([''a''], Dir), ([''a'', ''go.mod''], File ''go 1.20''), ([''b''], Dir), ([''b'', ''go.mod''], File ''go 1.20'')]"

definition sample_tidy :: tidy_env where
  "sample_tidy = \<lparr>td_local = ''1.21'', td_docker = False, td_go = (\<lambda>c dir t.
     if node_at t (go_mod_at dir) = None \<or> node_at t (go_sum_at dir) = Some Dir \<or> node_at t (go_mod_at dir) = Some Dir
       \<or> node_at t (path_elems dir) \<noteq> Some Dir then (t, False)
     else if dir = ''a'' then (put (go_sum_at dir) (File ''example.com/d v1.0.0 h1:d'') t, True)
     else (put (go_sum_at dir) (File []) (put (go_mod_at dir) (File []) t), False))\<rparr>"

lemma sample_tidy_laws: "tidy_laws sample_tidy"
proof -
  have one: "wf_tree (put p (File b) t)" if "wf_tree t" "p \<noteq> []" "node_at t (butlast p) = Some Dir" "node_at t p \<noteq> Some Dir" for t p b
    using write_file_wf [OF that(1), of healthy_disk p b] that(3,4) by (simp add: write_file_def healthy_disk_def)
  have "go_mod_at dir \<noteq> go_sum_at dir" for dir by (rule go_mod_not_sum)
  moreover have "wf_tree (put (go_sum_at dir) (File b) t)"
    if "wf_tree t" "node_at t (go_sum_at dir) \<noteq> Some Dir" "node_at t (path_elems dir) = Some Dir" for dir t b
    by (rule one) (use that in simp_all)
  moreover have "wf_tree (put (go_mod_at dir) (File b) t)"
    if "wf_tree t" "node_at t (go_mod_at dir) \<noteq> Some Dir" "node_at t (path_elems dir) = Some Dir" for dir t b
    by (rule one) (use that in simp_all)
  ultimately show ?thesis by (auto simp: tidy_laws_def sample_tidy_def same_but_def)
qed

abbreviation tidied_sample :: "tree \<times> (string \<times> tidied) list \<times> (update_error + string)" where
  "tidied_sample \<equiv> run_opts (table_lib tidy_mods) byte_versions healthy_disk (\<lambda>_. False) sample_update sample_tidy None [] True tidy_tree"

lemma tidied_sample_result:
  "fst (snd tidied_sample) = [(''a'', Tidied), (''b'', TidyFailed)]" "snd (snd tidied_sample) = Inr ''v2.0.0''"
  "node_at (fst tidied_sample) (go_mod_at ''b'') = Some (File ''go 1.21'')"
  "lines_at (fst tidied_sample) (go_sum_at ''b'') \<noteq> {}"
proof -
  have "case tidied_sample of (t, rs, e) \<Rightarrow> rs = [(''a'', Tidied), (''b'', TidyFailed)] \<and> e = Inr ''v2.0.0'' \<and>
      node_at t (go_mod_at ''b'') = Some (File ''go 1.21'') \<and> lines_at t (go_sum_at ''b'') \<noteq> {}"
    by code_simp
  then show "fst (snd tidied_sample) = [(''a'', Tidied), (''b'', TidyFailed)]" "snd (snd tidied_sample) = Inr ''v2.0.0''"
    "node_at (fst tidied_sample) (go_mod_at ''b'') = Some (File ''go 1.21'')"
    "lines_at (fst tidied_sample) (go_sum_at ''b'') \<noteq> {}"
    by (simp_all only: case_prod_beta simp_thms)
qed

theorem only_checked_hashes_are_written_witness:
  "node_at (fst tidied_sample) (go_mod_at ''b'') = Some (File ''go 1.21'') \<and>
   lines_at (fst tidied_sample) (go_sum_at ''b'') \<noteq> {} \<and>
   lines_at (fst tidied_sample) (go_sum_at ''b'') \<subseteq> checked_lines sample_update"
proof -
  let ?t = "fst tidied_sample"
  have w: "wf_tree tidy_tree" by code_simp
  have r: "tidied_sample = (?t, [(''a'', Tidied), (''b'', TidyFailed)], Inr ''v2.0.0'')"
    using tidied_sample_result(1,2) by (metis prod.collapse)
  note all = only_checked_hashes_are_written [OF sample_update_laws(2) sample_tidy_laws w r]
  have n: "lines_at tidy_tree (go_sum_at ''b'') = {}" by code_simp
  with tidied_sample_result(4) have ch: "node_at ?t (go_sum_at ''b'') \<noteq> node_at tidy_tree (go_sum_at ''b'')"
    unfolding lines_at_def by metis
  have out: "go_sum_at ''b'' \<notin> tidied_paths [(''a'', Tidied), (''b'', TidyFailed)]"
  proof -
    have "go_sum_at ''b'' = [''b'', ''go.sum'']" "go_sum_at ''a'' = [''a'', ''go.sum'']" "go_mod_at ''a'' = [''a'', ''go.mod'']"
      by code_simp+
    then show ?thesis by (simp add: tidied_paths_def)
  qed
  have ne: "go_sum_at ''b'' \<noteq> go_mod_at dir" for dir using go_mod_not_sum [of dir "''b''"] by (rule not_sym)
  from all [THEN conjunct1, rule_format, OF ch] out ne
  have "lines_at ?t (go_sum_at ''b'') \<subseteq> lines_at tidy_tree (go_sum_at ''b'') \<union> checked_lines sample_update" by blast
  then show ?thesis using tidied_sample_result(3,4) unfolding n Un_empty_left by (intro conjI)
qed

theorem an_update_moves_every_module_and_lowers_nothing_witness:
  "\<exists>f'. read_mod (table_lib update_mods) healthy_disk
       (fst (run_update (table_lib update_mods) byte_versions healthy_disk (\<lambda>_. False) sample_update None [] update_tree))
       (go_mod_at ''a'') = Some f' \<and> map_of (mod_requires (table_lib update_mods) f') sdk_mod = Some ''v2.0.0''"
proof -
  have e: "\<not> sv_valid byte_versions []" by code_simp
  have w: "wf_tree update_tree" "plain_names update_tree" by code_simp+
  have f: "find_sdk_modules (table_lib update_mods) healthy_disk (\<lambda>_. False) sdk_mod (plugin_trees None) update_tree = Some [''a'']"
    by code_simp
  have d: "''a'' \<in> set [''a'']" by simp
  from an_update_moves_every_module_and_lowers_nothing
    [OF sample_update_laws(1) byte_versions_compare e sample_update_laws(3,2) w sample_update_run f d]
  show ?thesis by blast
qed

text \<open>The check against the checksum database is made module by module, between the writes: when a later
  module raises a requirement whose hash the database contradicts, the update stops with the modules before it moved
  and the others not.\<close>

theorem a_refused_hash_leaves_a_half_updated_project:
  "\<exists>t'. run_update (table_lib update_mods) byte_versions healthy_disk (\<lambda>_. False) sample_update None []
       (put [''b'', ''go.mod''] (File ''tail'') update_tree) = (t', Inl (Mismatch ''example.com/c'' ''v1.5.0'')) \<and>
     node_at t' [''a'', ''go.mod''] = Some (File ''new'') \<and> node_at t' [''b'', ''go.mod''] = Some (File ''tail'')"
proof -
  let ?r = "run_update (table_lib update_mods) byte_versions healthy_disk (\<lambda>_. False) sample_update None []
       (put [''b'', ''go.mod''] (File ''tail'') update_tree)"
  have "case ?r of (t, e) \<Rightarrow> e = Inl (Mismatch ''example.com/c'' ''v1.5.0'') \<and>
      node_at t [''a'', ''go.mod''] = Some (File ''new'') \<and> node_at t [''b'', ''go.mod''] = Some (File ''tail'')" by code_simp
  then have "snd ?r = Inl (Mismatch ''example.com/c'' ''v1.5.0'')" and
    n: "node_at (fst ?r) [''a'', ''go.mod''] = Some (File ''new'')" "node_at (fst ?r) [''b'', ''go.mod''] = Some (File ''tail'')"
    by (simp_all only: case_prod_beta simp_thms)
  then have "?r = (fst ?r, Inl (Mismatch ''example.com/c'' ''v1.5.0''))" by (metis prod.collapse)
  with n show ?thesis by blast
qed

end
