(* ===== verification/DevFeatures.thy ===== *)
theory DevFeatures
  imports Words ProjectTree
begin

text \<open>
  The features \<^verbatim>\<open>w17ctl plugin dev\<close> activates, \<^verbatim>\<open>src/cmd/plugin/dev.go\<close>: the scanner of a plugin's
  manifest, the list a developer names, and the widest set \<^verbatim>\<open>--all\<close> settles on.
\<close>

section \<open>Scanning the manifest\<close>

definition trim_blank :: "string \<Rightarrow> string" where
  "trim_blank l = rev (dropWhile (\<lambda>c. c = CHR 0x20 \<or> c = CHR 0x09) (rev l))"

definition is_quote :: "char \<Rightarrow> bool" where
  "is_quote c \<longleftrightarrow> c = dquote \<or> c = CHR 0x27"

definition trim_quotes :: "string \<Rightarrow> string" where
  "trim_quotes s = rev (dropWhile is_quote (rev (dropWhile is_quote s)))"

definition cut_feature_name :: "string \<Rightarrow> string option" where
  "cut_feature_name s =
     (if prefix ''- name:'' s then Some (trim_quotes (trim_space (drop (length ''- name:'') s))) else None)"

text \<open>A line that ends the list of features: not blank, not indented.\<close>

definition top_level :: "string \<Rightarrow> bool" where
  "top_level line \<longleftrightarrow> line \<noteq> [] \<and> hd line \<noteq> CHR 0x20 \<and> hd line \<noteq> CHR 0x09"

record features_scan =
  fs_in :: bool
  fs_current :: string
  fs_declared :: "string list"
  fs_defaults :: "string list"

definition scan_feature_line :: "string \<Rightarrow> features_scan \<Rightarrow> features_scan" where
  "scan_feature_line raw st =
     (let line = trim_blank raw; trimmed = trim_space line in
      if trimmed = ''features:'' then st\<lparr>fs_in := True\<rparr>
      else let st1 = (if fs_in st \<and> top_level line then st\<lparr>fs_in := False, fs_current := []\<rparr> else st) in
        if \<not> fs_in st1 then st1
        else case cut_feature_name trimmed of
          Some n \<Rightarrow> st1\<lparr>fs_current := n, fs_declared := fs_declared st1 @ [n]\<rparr>
        | None \<Rightarrow>
            if fs_current st1 \<noteq> [] \<and> trimmed = ''default: true''
            then st1\<lparr>fs_defaults := fs_defaults st1 @ [fs_current st1]\<rparr>
            else st1)"

definition manifest_features :: "string \<Rightarrow> string list \<times> string list" where
  "manifest_features body =
     (let st = fold scan_feature_line (split_on nl body) \<lparr>fs_in = False, fs_current = [], fs_declared = [], fs_defaults = []\<rparr>
      in if fs_declared st = [] then ([], []) else (fs_declared st, fs_defaults st))"

datatype open_list = NoList | ConflictsList | RequiresList

record graph_scan =
  gs_in :: bool
  gs_current :: string
  gs_list :: open_list
  gs_conflicts :: "(string, string list) gomap"
  gs_requires :: "(string, string list) gomap"

definition listed :: "(string, string list) gomap \<Rightarrow> string \<Rightarrow> string list" where
  "listed m k = (case map_of m k of Some vs \<Rightarrow> vs | None \<Rightarrow> [])"

definition scan_graph_item :: "string \<Rightarrow> graph_scan \<Rightarrow> graph_scan" where
  "scan_graph_item item st =
     (let v = trim_quotes (trim_space item); k = gs_current st in
      if v = [] \<or> CHR '':'' \<in> set v then st\<lparr>gs_list := NoList\<rparr>
      else if gs_list st = ConflictsList then st\<lparr>gs_conflicts := put k (listed (gs_conflicts st) k @ [v]) (gs_conflicts st)\<rparr>
      else st\<lparr>gs_requires := put k (listed (gs_requires st) k @ [v]) (gs_requires st)\<rparr>)"

definition scan_graph_line :: "string \<Rightarrow> graph_scan \<Rightarrow> graph_scan" where
  "scan_graph_line raw st =
     (let line = trim_blank raw; trimmed = trim_space line in
      if trimmed = ''features:'' then st\<lparr>gs_in := True\<rparr>
      else let st1 = (if gs_in st \<and> top_level line then st\<lparr>gs_in := False, gs_current := [], gs_list := NoList\<rparr> else st) in
        if \<not> gs_in st1 then st1
        else case cut_feature_name trimmed of
          Some n \<Rightarrow> st1\<lparr>gs_current := n, gs_list := NoList\<rparr>
        | None \<Rightarrow>
            if trimmed = ''conflicts_with:'' then st1\<lparr>gs_list := ConflictsList\<rparr>
            else if trimmed = ''requires:'' then st1\<lparr>gs_list := RequiresList\<rparr>
            else if prefix ''- '' trimmed \<and> gs_current st1 \<noteq> [] \<and> gs_list st1 \<noteq> NoList
            then scan_graph_item (drop (length ''- '') trimmed) st1
            else if trimmed \<noteq> [] \<and> \<not> prefix ''#'' trimmed \<and> \<not> prefix ''- '' trimmed then st1\<lparr>gs_list := NoList\<rparr>
            else st1)"

definition manifest_feature_graph :: "string \<Rightarrow> (string, string list) gomap \<times> (string, string list) gomap" where
  "manifest_feature_graph body =
     (let st = fold scan_graph_line (split_on nl body)
        \<lparr>gs_in = False, gs_current = [], gs_list = NoList, gs_conflicts = [], gs_requires = []\<rparr>
      in (gs_conflicts st, gs_requires st))"

section \<open>The widest set\<close>

text \<open>What the code answers with a name for the message, \<open>[]\<close> meaning none; which of several it names depends on
  the order of a map, so only whether there is one is kept. No name of a feature is empty.\<close>

definition clashes :: "(string \<Rightarrow> string list) \<Rightarrow> string list \<Rightarrow> string \<Rightarrow> bool" where
  "clashes conflicts taken f \<longleftrightarrow>
     list_ex (\<lambda>c. c \<in> set taken) (conflicts f) \<or> list_ex (\<lambda>t. f \<in> set (conflicts t)) taken"

definition blocked :: "(string \<Rightarrow> string list) \<Rightarrow> (string \<Rightarrow> string list) \<Rightarrow> string list \<Rightarrow> string \<Rightarrow> bool" where
  "blocked conflicts requires taken f \<longleftrightarrow> list_ex (\<lambda>r. r \<notin> set taken \<and> clashes conflicts taken r) (requires f)"

definition take_new :: "string \<Rightarrow> string list \<Rightarrow> string list" where
  "take_new f taken = (if f \<in> set taken then taken else taken @ [f])"

definition take_feature :: "(string \<Rightarrow> string list) \<Rightarrow> (string \<Rightarrow> string list) \<Rightarrow> string \<Rightarrow> string list \<Rightarrow> string list" where
  "take_feature conflicts requires f taken =
     (if clashes conflicts taken f \<or> blocked conflicts requires taken f then taken
      else take_new f (fold take_new (requires f) taken))"

definition widest_compatible_set :: "(string \<Rightarrow> string list) \<Rightarrow> (string \<Rightarrow> string list) \<Rightarrow> string list \<Rightarrow> string list" where
  "widest_compatible_set conflicts requires declared = fold (take_feature conflicts requires) declared []"

datatype feature_error = NoManifest | NoSuchFeature string

fun named_features :: "string list \<Rightarrow> string list \<Rightarrow> feature_error + string list" where
  "named_features declared [] = Inr []"
| "named_features declared (f # fs) =
     (let n = trim_space f in
      if n = [] then named_features declared fs
      else if n \<notin> set declared then Inl (NoSuchFeature n)
      else case named_features declared fs of Inl e \<Rightarrow> Inl e | Inr out \<Rightarrow> Inr (n # out))"

definition dev_features :: "disk \<Rightarrow> tree \<Rightarrow> path \<Rightarrow> string \<Rightarrow> bool \<Rightarrow> feature_error + string list" where
  "dev_features d t dir csv all =
     (case read_file d t (dir @ [''plugin.yaml'']) of
        Bytes body \<Rightarrow>
          (let (declared, defaults) = manifest_features body in
           if csv \<noteq> [] then named_features declared (split_on (CHR '','') csv)
           else if all then
             (let (conflicts, requires) = manifest_feature_graph body
              in Inr (widest_compatible_set (listed conflicts) (listed requires) declared))
           else Inr defaults)
      | _ \<Rightarrow> Inl NoManifest)"

section \<open>What the widest set is\<close>

definition compatible :: "(string \<Rightarrow> string list) \<Rightarrow> string set \<Rightarrow> bool" where
  "compatible conflicts S \<longleftrightarrow> (\<forall>a \<in> S. \<forall>b \<in> S. a \<noteq> b \<longrightarrow> b \<notin> set (conflicts a))"

lemma clashes_iff: "clashes conflicts taken f \<longleftrightarrow> (\<exists>t \<in> set taken. t \<in> set (conflicts f) \<or> f \<in> set (conflicts t))"
  by (auto simp: clashes_def list_ex_iff)

lemma set_take_new [simp]: "set (take_new f taken) = insert f (set taken)"
  by (auto simp: take_new_def)

lemma distinct_take_new: "distinct taken \<Longrightarrow> distinct (take_new f taken)"
  by (simp add: take_new_def)

lemma set_fold_take [simp]: "set (fold take_new rs taken) = set rs \<union> set taken"
  by (induction rs arbitrary: taken) auto

lemma distinct_fold_take: "distinct taken \<Longrightarrow> distinct (fold take_new rs taken)"
  by (induction rs arbitrary: taken) (auto intro: distinct_take_new)

lemma take_feature_cases:
  obtains (left) "take_feature conflicts requires f taken = taken"
      "clashes conflicts taken f \<or> blocked conflicts requires taken f"
  | (taken) "set (take_feature conflicts requires f taken) = insert f (set (requires f) \<union> set taken)"
      "\<not> clashes conflicts taken f" "\<not> blocked conflicts requires taken f"
  by (cases "clashes conflicts taken f \<or> blocked conflicts requires taken f") (auto simp: take_feature_def)

lemma compatible_grow:
  assumes t: "compatible conflicts (set taken)" and own: "compatible conflicts (insert f (set (requires f)))"
    and f: "\<not> clashes conflicts taken f" and b: "\<not> blocked conflicts requires taken f"
  shows "compatible conflicts (insert f (set (requires f) \<union> set taken))"
proof -
  have r: "r \<in> set taken \<or> \<not> clashes conflicts taken r" if "r \<in> insert f (set (requires f))" for r
    using that f b by (auto simp: blocked_def list_ex_iff)
  show ?thesis unfolding compatible_def
  proof (intro ballI impI)
    fix x y assume x: "x \<in> insert f (set (requires f) \<union> set taken)" and y: "y \<in> insert f (set (requires f) \<union> set taken)"
      and ne: "x \<noteq> y"
    show "y \<notin> set (conflicts x)"
    proof (cases "x \<in> set taken"; cases "y \<in> set taken")
      assume "x \<in> set taken" "y \<in> set taken"
      with t ne show ?thesis by (simp add: compatible_def)
    next
      assume "x \<notin> set taken" "y \<notin> set taken"
      with x y have "x \<in> insert f (set (requires f))" "y \<in> insert f (set (requires f))" by auto
      with own ne show ?thesis unfolding compatible_def by blast
    next
      assume a: "x \<in> set taken" "y \<notin> set taken"
      with y r [of y] have "\<not> clashes conflicts taken y" by auto
      with a show ?thesis by (auto simp: clashes_iff)
    next
      assume a: "x \<notin> set taken" "y \<in> set taken"
      with x r [of x] have "\<not> clashes conflicts taken x" by auto
      with a show ?thesis by (auto simp: clashes_iff)
    qed
  qed
qed

text \<open>Whether requirements of requirements are listed too.\<close>

definition requires_listed :: "(string \<Rightarrow> string list) \<Rightarrow> bool" where
  "requires_listed requires \<longleftrightarrow> (\<forall>f. \<forall>r \<in> set (requires f). set (requires r) \<subseteq> set (requires f))"

lemma take_feature_invariant:
  assumes "distinct taken" and "compatible conflicts (set taken)" and "compatible conflicts (insert f (set (requires f)))"
    and "requires_listed requires \<longrightarrow> (\<forall>g \<in> set taken. set (requires g) \<subseteq> set taken)"
  defines "out \<equiv> take_feature conflicts requires f taken"
  shows "distinct out \<and> compatible conflicts (set out) \<and> set taken \<subseteq> set out \<and>
    (requires_listed requires \<longrightarrow> (\<forall>g \<in> set out. set (requires g) \<subseteq> set out)) \<and>
    (f \<notin> set out \<longrightarrow> clashes conflicts out f \<or> (\<exists>r \<in> set (requires f). clashes conflicts out r))"
proof (cases rule: take_feature_cases [of conflicts requires f taken])
  case left
  with assms show ?thesis by (auto simp: blocked_def list_ex_iff)
next
  case taken
  have d: "distinct out" using assms(1) by (auto simp: out_def take_feature_def intro: distinct_take_new distinct_fold_take)
  have s: "set out = insert f (set (requires f) \<union> set taken)" using taken(1) by (simp add: out_def)
  have "\<forall>g \<in> set out. set (requires g) \<subseteq> set out" if "requires_listed requires"
    using that assms(4) unfolding s requires_listed_def by fastforce
  with d s compatible_grow [OF assms(2,3) taken(2,3)] show ?thesis by auto
qed

lemma clashes_mono: "clashes conflicts taken f \<Longrightarrow> set taken \<subseteq> set out \<Longrightarrow> clashes conflicts out f"
  by (auto simp: clashes_iff)

lemma widest_fold:
  assumes "\<And>f. f \<in> set fs \<Longrightarrow> compatible conflicts (insert f (set (requires f)))"
  shows "distinct taken \<Longrightarrow> compatible conflicts (set taken) \<Longrightarrow>
    (requires_listed requires \<longrightarrow> (\<forall>g \<in> set taken. set (requires g) \<subseteq> set taken)) \<Longrightarrow>
    (let out = fold (take_feature conflicts requires) fs taken in
       distinct out \<and> compatible conflicts (set out) \<and> set taken \<subseteq> set out \<and>
       (requires_listed requires \<longrightarrow> (\<forall>g \<in> set out. set (requires g) \<subseteq> set out)) \<and>
       (\<forall>f \<in> set fs - set out. clashes conflicts out f \<or> (\<exists>r \<in> set (requires f). clashes conflicts out r)))"
  using assms
proof (induction fs arbitrary: taken)
  case (Cons f fs)
  let ?t = "take_feature conflicts requires f taken" and ?out = "fold (take_feature conflicts requires) fs (take_feature conflicts requires f taken)"
  have own: "compatible conflicts (insert f (set (requires f)))" by (rule Cons.prems(4)) simp
  note step = take_feature_invariant [OF Cons.prems(1,2) own Cons.prems(3)]
  have ih: "distinct ?out \<and> compatible conflicts (set ?out) \<and> set ?t \<subseteq> set ?out \<and>
       (requires_listed requires \<longrightarrow> (\<forall>g \<in> set ?out. set (requires g) \<subseteq> set ?out)) \<and>
       (\<forall>f \<in> set fs - set ?out. clashes conflicts ?out f \<or> (\<exists>r \<in> set (requires f). clashes conflicts ?out r))"
    using Cons.IH [of ?t] step Cons.prems(4) by (simp add: Let_def)
  have "clashes conflicts ?out f \<or> (\<exists>r \<in> set (requires f). clashes conflicts ?out r)" if "f \<notin> set ?out"
  proof -
    have "f \<notin> set ?t" using that ih by blast
    with step have "clashes conflicts ?t f \<or> (\<exists>r \<in> set (requires f). clashes conflicts ?t r)" by blast
    with ih clashes_mono [of conflicts ?t _ ?out] show ?thesis by blast
  qed
  with ih step show ?case by (simp add: Let_def) blast
qed simp

text \<open>C39: where no feature is at odds with what it requires itself, the widest set has no two features the manifest
  declares incompatible and no feature twice, and nothing that is left out could be added: it, or a feature it requires,
  is incompatible with one that was taken. Where a feature lists the requirements of its requirements too, everything
  a taken feature requires is taken.\<close>

theorem the_widest_set_is_compatible_and_maximal:
  assumes own: "\<And>f. f \<in> set declared \<Longrightarrow> compatible conflicts (insert f (set (requires f)))"
  defines "out \<equiv> widest_compatible_set conflicts requires declared"
  shows "distinct out \<and> compatible conflicts (set out) \<and>
    (\<forall>f \<in> set declared - set out. clashes conflicts out f \<or> (\<exists>r \<in> set (requires f). clashes conflicts out r)) \<and>
    (requires_listed requires \<longrightarrow> (\<forall>g \<in> set out. set (requires g) \<subseteq> set out))"
proof -
  have "compatible conflicts (set [])" by (simp add: compatible_def)
  from widest_fold [of declared conflicts requires "[]", OF own _ this] show ?thesis
    unfolding out_def widest_compatible_set_def Let_def by simp
qed

theorem the_widest_set_is_compatible_and_maximal_witness:
  "compatible (listed [(''tenant'', [''oauth''])])
     (set (widest_compatible_set (listed [(''tenant'', [''oauth''])]) (listed [(''oauth'', [''mail''])]) [''oauth'', ''tenant'', ''mail''])) \<and>
   widest_compatible_set (listed [(''tenant'', [''oauth''])]) (listed [(''oauth'', [''mail''])]) [''oauth'', ''tenant'', ''mail'']
     = [''mail'', ''oauth'']"
proof -
  have own: "compatible (listed [(''tenant'', [''oauth''])]) (insert f (set (listed [(''oauth'', [''mail''])] f)))"
    if "f \<in> set [''oauth'', ''tenant'', ''mail'']" for f
    using that by (auto simp: compatible_def listed_def)
  have "widest_compatible_set (listed [(''tenant'', [''oauth''])]) (listed [(''oauth'', [''mail''])]) [''oauth'', ''tenant'', ''mail'']
     = [''mail'', ''oauth'']" by code_simp
  moreover note the_widest_set_is_compatible_and_maximal
    [of "[''oauth'', ''tenant'', ''mail'']" "listed [(''tenant'', [''oauth''])]" "listed [(''oauth'', [''mail''])]", OF own]
  ultimately show ?thesis by blast
qed

definition manifest_of :: "string list \<Rightarrow> tree" where
  "manifest_of lines = [([''p''], Dir), ([''p'', ''plugin.yaml''], File (join_with [nl] lines))]"

definition chained_manifest :: "string list" where
  "chained_manifest =
     [''name: auth'', ''features:'', ''  - name: sms'', ''  - name: oauth'', ''    requires:'', ''      - mail'',
      ''  - name: mail'', ''    requires:'', ''      - queue'', ''  - name: queue'', ''    conflicts_with:'', ''      - sms'']"

definition paired_manifest :: "string list" where
  "paired_manifest =
     [''features:'', ''  - name: oauth'', ''    requires: '', ''      - mail'', ''      - sms'', ''  - name: mail'',
      ''    conflicts_with:'', ''      - sms'', ''  - name: sms'']"

text \<open>A manifest for which \<^verbatim>\<open>--all\<close> answers a set the compiler refuses: of three features \<open>mail\<close>, taken only
  as a requirement of \<open>oauth\<close>, is without the \<open>queue\<close> it requires, which is incompatible with \<open>sms\<close>, taken
  first; and one where two requirements of one feature, neither taken before, are incompatible with each other.\<close>

theorem the_widest_set_can_be_refused_by_the_compiler:
  "dev_features healthy_disk (manifest_of chained_manifest) [''p''] [] True = Inr [''sms'', ''mail'', ''oauth''] \<and>
   listed (snd (manifest_feature_graph (join_with [nl] chained_manifest))) ''mail'' = [''queue''] \<and>
   dev_features healthy_disk (manifest_of paired_manifest) [''p''] [] True = Inr [''mail'', ''sms'', ''oauth''] \<and>
   listed (fst (manifest_feature_graph (join_with [nl] paired_manifest))) ''mail'' = [''sms'']"
  by (intro conjI; code_simp)

section \<open>The scanner reads what a manifest says\<close>

record feature =
  ft_name :: string
  ft_default :: bool
  ft_conflicts :: "string list"
  ft_requires :: "string list"

definition feature_word :: "string \<Rightarrow> bool" where
  "feature_word w \<longleftrightarrow> plain_word w \<and> CHR '':'' \<notin> set w \<and> list_all (\<lambda>c. \<not> is_quote c) w"

definition feature_ok :: "feature \<Rightarrow> bool" where
  "feature_ok f \<longleftrightarrow> feature_word (ft_name f) \<and> list_all feature_word (ft_conflicts f) \<and> list_all feature_word (ft_requires f)"

definition indent :: "nat \<Rightarrow> string \<Rightarrow> string" where
  "indent n s = replicate n (CHR 0x20) @ s"

definition item_lines :: "string list \<Rightarrow> string list" where
  "item_lines cs = map (\<lambda>c. indent 6 (''- '' @ c)) cs"

definition list_lines :: "string \<Rightarrow> string list \<Rightarrow> string list" where
  "list_lines key cs = (if cs = [] then [] else indent 4 key # item_lines cs)"

definition feature_lines :: "feature \<Rightarrow> string list" where
  "feature_lines f =
     indent 2 (''- name: '' @ ft_name f) # (if ft_default f then [indent 4 ''default: true''] else []) @
     list_lines ''conflicts_with:'' (ft_conflicts f) @ list_lines ''requires:'' (ft_requires f)"

definition write_manifest :: "feature list \<Rightarrow> string" where
  "write_manifest fs = join_with [nl] (''features:'' # concat (map feature_lines fs))"

definition plain_line :: "string \<Rightarrow> bool" where
  "plain_line s \<longleftrightarrow> s \<noteq> [] \<and> plain_char (hd s) \<and> plain_char (last s)"

lemma plain_line_reads:
  assumes "plain_line s"
  shows "trim_blank (indent n s) = indent n s" and "trim_space (indent n s) = s" and "0 < n \<Longrightarrow> \<not> top_level (indent n s)"
proof -
  have b: "s = butlast s @ [last s]" using assms by (simp add: plain_line_def)
  have "last s \<noteq> CHR 0x20 \<and> last s \<noteq> CHR 0x09" using assms by (auto simp: plain_line_def plain_char_def)
  then show "trim_blank (indent n s) = indent n s" unfolding trim_blank_def indent_def by (subst (1 2) b) simp
  show "trim_space (indent n s) = s" using assms unfolding indent_def plain_line_def by (intro trim_indented) simp_all
  show "0 < n \<Longrightarrow> \<not> top_level (indent n s)" by (cases n) (simp_all add: top_level_def indent_def)
qed

lemma word_line: "feature_word w \<Longrightarrow> plain_line (CHR ''-'' # x @ w)" "feature_word w \<Longrightarrow> plain_line w"
proof -
  assume w: "feature_word w"
  then have "w \<noteq> []" and l: "plain_char (hd w)" "plain_char (last w)"
    by (auto simp: feature_word_def plain_word_def list_all_iff)
  then show "plain_line (CHR ''-'' # x @ w)" "plain_line w" by (simp_all add: plain_line_def) (simp add: plain_char_def)
qed

lemma trim_quotes_word: "feature_word w \<Longrightarrow> trim_quotes w = w"
proof -
  have d: "list_all (\<lambda>c. \<not> is_quote c) x \<Longrightarrow> dropWhile is_quote x = x" for x by (cases x) simp_all
  assume "feature_word w"
  then have "list_all (\<lambda>c. \<not> is_quote c) w" "list_all (\<lambda>c. \<not> is_quote c) (rev w)" by (simp_all add: feature_word_def)
  with d show ?thesis by (simp add: trim_quotes_def)
qed

lemma cut_name: "feature_word w \<Longrightarrow> cut_feature_name (''- name: '' @ w) = Some w"
  using plain_line_reads(2) [OF word_line(2), of w 1] by (simp add: cut_feature_name_def trim_quotes_word indent_def)

lemma cut_item: "feature_word w \<Longrightarrow> cut_feature_name (''- '' @ w) = None"
proof -
  assume w: "feature_word w"
  have "\<not> prefix ''name:'' w"
  proof
    assume "prefix ''name:'' w"
    then have "CHR '':'' \<in> set w" by (auto elim: prefixE)
    with w show False by (simp add: feature_word_def)
  qed
  then show ?thesis by (simp add: cut_feature_name_def)
qed

lemma cut_keys:
  "cut_feature_name ''default: true'' = None" "cut_feature_name ''conflicts_with:'' = None" "cut_feature_name ''requires:'' = None"
  by code_simp+

lemma keys_plain: "plain_line ''default: true''" "plain_line ''conflicts_with:''" "plain_line ''requires:''" "plain_line ''features:''"
  by code_simp+

lemma scan_graph_plain:
  assumes "plain_line s" and "s \<noteq> ''features:''" and "gs_in st" and "0 < n"
  shows "scan_graph_line (indent n s) st =
    (case cut_feature_name s of
       Some w \<Rightarrow> st\<lparr>gs_current := w, gs_list := NoList\<rparr>
     | None \<Rightarrow>
         if s = ''conflicts_with:'' then st\<lparr>gs_list := ConflictsList\<rparr>
         else if s = ''requires:'' then st\<lparr>gs_list := RequiresList\<rparr>
         else if prefix ''- '' s \<and> gs_current st \<noteq> [] \<and> gs_list st \<noteq> NoList then scan_graph_item (drop (length ''- '') s) st
         else if \<not> prefix ''#'' s \<and> \<not> prefix ''- '' s then st\<lparr>gs_list := NoList\<rparr> else st)"
proof -
  have "s \<noteq> []" using assms(1) by (simp add: plain_line_def)
  with assms(2,3) plain_line_reads [OF assms(1), of n] assms(4) show ?thesis
    unfolding scan_graph_line_def Let_def by (cases "cut_feature_name s") (simp_all only: simp_thms if_True if_False option.case)
qed

lemma scan_features_plain:
  assumes "plain_line s" and "s \<noteq> ''features:''" and "fs_in st" and "0 < n"
  shows "scan_feature_line (indent n s) st =
    (case cut_feature_name s of
       Some w \<Rightarrow> st\<lparr>fs_current := w, fs_declared := fs_declared st @ [w]\<rparr>
     | None \<Rightarrow> if fs_current st \<noteq> [] \<and> s = ''default: true'' then st\<lparr>fs_defaults := fs_defaults st @ [fs_current st]\<rparr> else st)"
  using assms(2,3) plain_line_reads [OF assms(1), of n] assms(4)
  unfolding scan_feature_line_def Let_def by (simp split: option.split)

lemma listed_put: "listed (put k vs m) = (listed m)(k := vs)"
  by (auto simp: listed_def)

definition graph_view :: "graph_scan \<Rightarrow> bool \<times> string \<times> (string \<Rightarrow> string list) \<times> (string \<Rightarrow> string list)" where
  "graph_view st = (gs_in st, gs_current st, listed (gs_conflicts st), listed (gs_requires st))"

lemma scan_item:
  assumes "feature_word c" and "gs_in st" and "gs_current st \<noteq> []" and "gs_list st \<noteq> NoList"
  shows "scan_graph_line (indent 6 (''- '' @ c)) st =
    (if gs_list st = ConflictsList
     then st\<lparr>gs_conflicts := put (gs_current st) (listed (gs_conflicts st) (gs_current st) @ [c]) (gs_conflicts st)\<rparr>
     else st\<lparr>gs_requires := put (gs_current st) (listed (gs_requires st) (gs_current st) @ [c]) (gs_requires st)\<rparr>)"
proof -
  have w: "c \<noteq> []" "CHR '':'' \<notin> set c" using assms(1) by (auto simp: feature_word_def plain_word_def)
  have t: "trim_space c = c" using plain_line_reads(2) [OF word_line(2) [OF assms(1)], of 0] by (simp add: indent_def)
  have p: "plain_line (''- '' @ c)" using word_line(1) [OF assms(1), of "'' ''"] by simp
  show ?thesis
    using scan_graph_plain [OF p _ assms(2), of 6] cut_item [OF assms(1)] assms(3,4) w t
    by (simp add: scan_graph_item_def Let_def trim_quotes_word [OF assms(1)])
qed

lemma scan_items_conflicts:
  "list_all feature_word cs \<Longrightarrow> gs_in st \<Longrightarrow> gs_current st \<noteq> [] \<Longrightarrow> gs_list st = ConflictsList \<Longrightarrow>
     graph_view (fold scan_graph_line (item_lines cs) st) =
       (True, gs_current st, (listed (gs_conflicts st))(gs_current st := listed (gs_conflicts st) (gs_current st) @ cs),
        listed (gs_requires st))"
proof (induction cs arbitrary: st)
  case (Cons c cs)
  with scan_item [of c st] show ?case by (simp add: item_lines_def listed_put fun_eq_iff cong: if_cong)
qed (simp add: item_lines_def graph_view_def)

lemma scan_items_requires:
  "list_all feature_word cs \<Longrightarrow> gs_in st \<Longrightarrow> gs_current st \<noteq> [] \<Longrightarrow> gs_list st = RequiresList \<Longrightarrow>
     graph_view (fold scan_graph_line (item_lines cs) st) =
       (True, gs_current st, listed (gs_conflicts st),
        (listed (gs_requires st))(gs_current st := listed (gs_requires st) (gs_current st) @ cs))"
proof (induction cs arbitrary: st)
  case (Cons c cs)
  with scan_item [of c st] show ?case by (simp add: item_lines_def listed_put fun_eq_iff cong: if_cong)
qed (simp add: item_lines_def graph_view_def)

lemma scan_conflicts_list:
  assumes "list_all feature_word cs" and "gs_in st" and "gs_current st \<noteq> []" and "listed (gs_conflicts st) (gs_current st) = []"
  shows "graph_view (fold scan_graph_line (list_lines ''conflicts_with:'' cs) st) =
    (True, gs_current st, (listed (gs_conflicts st))(gs_current st := cs), listed (gs_requires st))"
proof (cases "cs = []")
  case True
  with assms(2,4) show ?thesis by (simp add: list_lines_def graph_view_def fun_upd_idem)
next
  case False
  have "scan_graph_line (indent 4 ''conflicts_with:'') st = st\<lparr>gs_list := ConflictsList\<rparr>"
    using scan_graph_plain [OF keys_plain(2) _ assms(2), of 4] by (simp add: cut_keys)
  with False scan_items_conflicts [OF assms(1), of "st\<lparr>gs_list := ConflictsList\<rparr>"] assms(2-4)
  show ?thesis by (simp add: list_lines_def)
qed

lemma scan_requires_list:
  assumes "list_all feature_word cs" and "gs_in st" and "gs_current st \<noteq> []" and "listed (gs_requires st) (gs_current st) = []"
  shows "graph_view (fold scan_graph_line (list_lines ''requires:'' cs) st) =
    (True, gs_current st, listed (gs_conflicts st), (listed (gs_requires st))(gs_current st := cs))"
proof (cases "cs = []")
  case True
  with assms(2,4) show ?thesis by (simp add: list_lines_def graph_view_def fun_upd_idem)
next
  case False
  have "scan_graph_line (indent 4 ''requires:'') st = st\<lparr>gs_list := RequiresList\<rparr>"
    using scan_graph_plain [OF keys_plain(3) _ assms(2), of 4] by (simp add: cut_keys)
  with False scan_items_requires [OF assms(1), of "st\<lparr>gs_list := RequiresList\<rparr>"] assms(2-4)
  show ?thesis by (simp add: list_lines_def)
qed

lemma scan_feature_graph:
  assumes ok: "feature_ok f" and i: "gs_in st" and c: "listed (gs_conflicts st) (ft_name f) = []"
    and r: "listed (gs_requires st) (ft_name f) = []"
  shows "graph_view (fold scan_graph_line (feature_lines f) st) =
    (True, ft_name f, (listed (gs_conflicts st))(ft_name f := ft_conflicts f), (listed (gs_requires st))(ft_name f := ft_requires f))"
proof -
  have w: "feature_word (ft_name f)" "list_all feature_word (ft_conflicts f)" "list_all feature_word (ft_requires f)"
    using ok by (simp_all add: feature_ok_def)
  have ne: "ft_name f \<noteq> []" using w(1) by (simp add: feature_word_def plain_word_def)
  let ?s1 = "st\<lparr>gs_current := ft_name f, gs_list := NoList\<rparr>"
  have p: "plain_line (''- name: '' @ ft_name f)" using word_line(1) [OF w(1), of "'' name: ''"] by simp
  have 1: "scan_graph_line (indent 2 (''- name: '' @ ft_name f)) st = ?s1"
    using scan_graph_plain [OF p _ i, of 2] cut_name [OF w(1)] by simp
  have 2: "fold scan_graph_line (if ft_default f then [indent 4 ''default: true''] else []) ?s1 = ?s1"
    using scan_graph_plain [OF keys_plain(1), of ?s1 4] i by (simp add: cut_keys)
  let ?s2 = "fold scan_graph_line (list_lines ''conflicts_with:'' (ft_conflicts f)) ?s1"
  have "graph_view ?s2 = (True, ft_name f, (listed (gs_conflicts st))(ft_name f := ft_conflicts f), listed (gs_requires st))"
    using scan_conflicts_list [OF w(2), of ?s1] i ne c by simp
  then have s2: "gs_in ?s2" "gs_current ?s2 = ft_name f"
    "listed (gs_conflicts ?s2) = (listed (gs_conflicts st))(ft_name f := ft_conflicts f)" "listed (gs_requires ?s2) = listed (gs_requires st)"
    by (simp_all add: graph_view_def)
  from scan_requires_list [OF w(3) s2(1)] s2 ne r
  have "graph_view (fold scan_graph_line (list_lines ''requires:'' (ft_requires f)) ?s2) =
    (True, ft_name f, (listed (gs_conflicts st))(ft_name f := ft_conflicts f), (listed (gs_requires st))(ft_name f := ft_requires f))"
    by simp
  moreover have "fold scan_graph_line (feature_lines f) st = fold scan_graph_line (list_lines ''requires:'' (ft_requires f)) ?s2"
    by (simp only: feature_lines_def fold_append fold.simps comp_apply id_apply 1 2)
  ultimately show ?thesis by simp
qed

definition listed_by :: "(feature \<Rightarrow> string list) \<Rightarrow> feature list \<Rightarrow> string \<Rightarrow> string list" where
  "listed_by g fs k = (case find (\<lambda>f. ft_name f = k) fs of Some f \<Rightarrow> g f | None \<Rightarrow> [])"

lemma scan_graph_all:
  "list_all feature_ok fs \<Longrightarrow> distinct (map ft_name fs) \<Longrightarrow> gs_in st \<Longrightarrow>
     (\<And>f. f \<in> set fs \<Longrightarrow> listed (gs_conflicts st) (ft_name f) = [] \<and> listed (gs_requires st) (ft_name f) = []) \<Longrightarrow>
     (let st' = fold scan_graph_line (concat (map feature_lines fs)) st in
        listed (gs_conflicts st') k = (if k \<in> ft_name ` set fs then listed_by ft_conflicts fs k else listed (gs_conflicts st) k) \<and>
        listed (gs_requires st') k = (if k \<in> ft_name ` set fs then listed_by ft_requires fs k else listed (gs_requires st) k))"
proof (induction fs arbitrary: st)
  case (Cons f fs)
  let ?s = "fold scan_graph_line (feature_lines f) st"
  have v: "graph_view ?s = (True, ft_name f, (listed (gs_conflicts st))(ft_name f := ft_conflicts f),
      (listed (gs_requires st))(ft_name f := ft_requires f))"
    by (rule scan_feature_graph) (use Cons.prems in auto)
  then have s: "gs_in ?s" "listed (gs_conflicts ?s) = (listed (gs_conflicts st))(ft_name f := ft_conflicts f)"
    "listed (gs_requires ?s) = (listed (gs_requires st))(ft_name f := ft_requires f)"
    by (simp_all add: graph_view_def)
  have "listed (gs_conflicts ?s) (ft_name g) = [] \<and> listed (gs_requires ?s) (ft_name g) = []" if "g \<in> set fs" for g
  proof -
    have "ft_name g \<noteq> ft_name f" using Cons.prems(2) that by (metis distinct.simps(2) image_eqI list.set_map list.simps(9))
    with Cons.prems(4) [of g] that show ?thesis by (simp add: s)
  qed
  from Cons.IH [OF _ _ s(1) this] Cons.prems(1,2) show ?case
    by (auto simp: Let_def s listed_by_def)
qed simp

lemma scan_features_all:
  "list_all feature_ok fs \<Longrightarrow> fs_in st \<Longrightarrow>
     fs_declared (fold scan_feature_line (concat (map feature_lines fs)) st) = fs_declared st @ map ft_name fs \<and>
     fs_defaults (fold scan_feature_line (concat (map feature_lines fs)) st) = fs_defaults st @ map ft_name (filter ft_default fs)"
proof (induction fs arbitrary: st)
  case (Cons f fs)
  have w: "feature_word (ft_name f)" "list_all feature_word (ft_conflicts f)" "list_all feature_word (ft_requires f)"
    using Cons.prems(1) by (simp_all add: feature_ok_def)
  have ne: "ft_name f \<noteq> []" using w(1) by (simp add: feature_word_def plain_word_def)
  have items: "fold scan_feature_line (item_lines cs) s = s" if "list_all feature_word cs" "fs_in s" for cs s
    using that
  proof (induction cs)
    case (Cons c cs)
    have p: "plain_line (''- '' @ c)" using word_line(1) [of c "'' ''"] Cons.prems by simp
    have "scan_feature_line (indent 6 (''- '' @ c)) s = s"
      using scan_features_plain [OF p _ Cons.prems(2), of 6] cut_item [of c] Cons.prems(1) by simp
    with Cons show ?case by (simp add: item_lines_def)
  qed (simp add: item_lines_def)
  have lists: "fold scan_feature_line (list_lines key cs) s = s"
    if "list_all feature_word cs" "fs_in s" "key = ''conflicts_with:'' \<or> key = ''requires:''" for key cs s
    using that items [OF that(1,2)] scan_features_plain [of key s 4] keys_plain cut_keys
    by (auto simp: list_lines_def)
  let ?s1 = "st\<lparr>fs_current := ft_name f, fs_declared := fs_declared st @ [ft_name f]\<rparr>"
  have p: "plain_line (''- name: '' @ ft_name f)" using word_line(1) [OF w(1), of "'' name: ''"] by simp
  have 1: "scan_feature_line (indent 2 (''- name: '' @ ft_name f)) st = ?s1"
    using scan_features_plain [OF p _ Cons.prems(2), of 2] cut_name [OF w(1)] by simp
  let ?s2 = "if ft_default f then ?s1\<lparr>fs_defaults := fs_defaults st @ [ft_name f]\<rparr> else ?s1"
  have 2: "fold scan_feature_line (if ft_default f then [indent 4 ''default: true''] else []) ?s1 = ?s2"
    using scan_features_plain [OF keys_plain(1), of ?s1 4] Cons.prems(2) ne by (simp add: cut_keys)
  have in2: "fs_in ?s2" using Cons.prems(2) by simp
  have "fold scan_feature_line (feature_lines f) st = ?s2"
    using lists [OF w(2) in2] lists [OF w(3) in2] by (simp only: feature_lines_def fold_append fold.simps comp_apply id_apply 1 2) simp
  with Cons.IH [OF _ in2] Cons.prems(1) show ?case by simp
qed simp

lemma no_nl_in_lines:
  assumes "list_all feature_ok fs" and "l \<in> set (''features:'' # concat (map feature_lines fs))"
  shows "nl \<notin> set l"
proof -
  have w: "nl \<notin> set c" if "feature_word c" for c
    using that by (auto simp: feature_word_def plain_word_def list_all_iff plain_char_def)
  from assms(2) consider "l = ''features:''" | f where "f \<in> set fs" "l \<in> set (feature_lines f)" by auto
  then show ?thesis
  proof cases
    case 2
    then have "feature_ok f" using assms(1) by (simp add: list_all_iff)
    with 2 w show ?thesis
      by (auto simp: feature_lines_def list_lines_def item_lines_def indent_def feature_ok_def list_all_iff split: if_splits)
  qed simp
qed

text \<open>The scanner reads a manifest back: of a list of features written with their flag, their incompatibilities and
  their requirements it answers the names in order, those on by default, and for every name exactly its two lists.\<close>

theorem a_manifest_is_read_back:
  assumes ok: "list_all feature_ok fs" and d: "distinct (map ft_name fs)"
  shows "manifest_features (write_manifest fs) = (map ft_name fs, map ft_name (filter ft_default fs)) \<and>
    listed (fst (manifest_feature_graph (write_manifest fs))) k = listed_by ft_conflicts fs k \<and>
    listed (snd (manifest_feature_graph (write_manifest fs))) k = listed_by ft_requires fs k"
proof -
  let ?ls = "''features:'' # concat (map feature_lines fs)"
  have ls: "split_on nl (write_manifest fs) = ?ls"
    unfolding write_manifest_def by (rule split_join) (use no_nl_in_lines [OF ok] in auto)
  have h: "trim_space (trim_blank ''features:'') = ''features:''" by code_simp
  let ?g = "\<lparr>gs_in = False, gs_current = [], gs_list = NoList, gs_conflicts = [], gs_requires = []\<rparr>"
  let ?f = "\<lparr>fs_in = False, fs_current = [], fs_declared = [], fs_defaults = []\<rparr>"
  have g1: "scan_graph_line ''features:'' ?g = ?g\<lparr>gs_in := True\<rparr>" and f1: "scan_feature_line ''features:'' ?f = ?f\<lparr>fs_in := True\<rparr>"
    by (simp_all add: scan_graph_line_def scan_feature_line_def Let_def h)
  have "fs_declared (fold scan_feature_line ?ls ?f) = map ft_name fs \<and>
      fs_defaults (fold scan_feature_line ?ls ?f) = map ft_name (filter ft_default fs)"
    using scan_features_all [OF ok, of "?f\<lparr>fs_in := True\<rparr>"] by (simp only: fold.simps comp_apply f1) simp
  then have 1: "manifest_features (write_manifest fs) = (map ft_name fs, map ft_name (filter ft_default fs))"
    by (simp only: manifest_features_def ls Let_def) simp
  have out: "listed_by g fs k = []" if "k \<notin> ft_name ` set fs" for g
    using that by (auto simp: listed_by_def split: option.split dest!: find_Some_iff [THEN iffD1])
  let ?s = "fold scan_graph_line (concat (map feature_lines fs)) (?g\<lparr>gs_in := True\<rparr>)"
  have "listed (gs_conflicts ?s) k = listed_by ft_conflicts fs k \<and> listed (gs_requires ?s) k = listed_by ft_requires fs k"
    using scan_graph_all [OF ok d, of "?g\<lparr>gs_in := True\<rparr>" k] out by (simp add: listed_def Let_def split: if_splits)
  then have "listed (fst (manifest_feature_graph (write_manifest fs))) k = listed_by ft_conflicts fs k \<and>
      listed (snd (manifest_feature_graph (write_manifest fs))) k = listed_by ft_requires fs k"
    by (simp only: manifest_feature_graph_def ls Let_def fold.simps comp_apply g1 fst_conv snd_conv)
  with 1 show ?thesis by blast
qed

definition sample_features :: "feature list" where
  "sample_features =
     [\<lparr>ft_name = ''oauth'', ft_default = True, ft_conflicts = [''tenant_scope''], ft_requires = [''mail'']\<rparr>,
      \<lparr>ft_name = ''tenant_scope'', ft_default = False, ft_conflicts = [], ft_requires = []\<rparr>]"

theorem a_manifest_is_read_back_witness:
  "manifest_features (write_manifest sample_features) = ([''oauth'', ''tenant_scope''], [''oauth'']) \<and>
   listed (fst (manifest_feature_graph (write_manifest sample_features))) ''oauth'' = [''tenant_scope''] \<and>
   listed (snd (manifest_feature_graph (write_manifest sample_features))) ''oauth'' = [''mail'']"
proof -
  have ok: "list_all feature_ok sample_features" and d: "distinct (map ft_name sample_features)" by code_simp+
  have "map ft_name sample_features = [''oauth'', ''tenant_scope'']" "map ft_name (filter ft_default sample_features) = [''oauth'']"
    "listed_by ft_conflicts sample_features ''oauth'' = [''tenant_scope'']" "listed_by ft_requires sample_features ''oauth'' = [''mail'']"
    by code_simp+
  with a_manifest_is_read_back [OF ok d, of "''oauth''"] show ?thesis by (simp only: simp_thms)
qed

end
