(* ===== verification/DeviceKeys.thy ===== *)
theory DeviceKeys
  imports Prelude
begin

text \<open>
  The key a console's sessions are bound to, \<^verbatim>\<open>src/internal/core/devicekey.go\<close>: several processes sign in at
  once (\<^verbatim>\<open>EnsureDeviceKey\<close>), and a process whose key the console revoked deletes it
  (\<^verbatim>\<open>discardRevokedDeviceKey\<close>). The processes share one file; every access to it is a step. A key is a
  number, a generated one is new, and stands for its thumbprint.
\<close>

section \<open>The file and the processes\<close>

type_synonym device_key = nat

text \<open>What \<^verbatim>\<open>readDeviceKey\<close> makes of the path: nothing there, a file that does not parse because a process
  that created it exclusively has not written it whole, a key.\<close>

datatype key_file = NoFile | Partial nat | Whole device_key

datatype key_failure = NoDeviceKey | BadDeviceKey | CannotWrite

datatype key_phase =
    Ensuring
  | Made device_key
  | Writing device_key
  | Raced nat
  | Discarding device_key
  | Removing
  | Got device_key
  | Failed key_failure
  | Discarded bool
  | Died

record key_state =
  k_file :: key_file
  k_phase :: "nat \<Rightarrow> key_phase"
  k_used :: "device_key set"

text \<open>How often \<^verbatim>\<open>readRacedDeviceKey\<close> reads.\<close>

definition race_reads :: nat where "race_reads = 10"

abbreviation to :: "nat \<Rightarrow> key_phase \<Rightarrow> key_state \<Rightarrow> key_state" where
  "to p ph s \<equiv> s\<lparr>k_phase := (k_phase s)(p := ph)\<rparr>"

abbreviation now_at :: "nat \<Rightarrow> key_phase \<Rightarrow> key_file \<Rightarrow> key_state \<Rightarrow> key_state" where
  "now_at p ph f s \<equiv> s\<lparr>k_file := f, k_phase := (k_phase s)(p := ph)\<rparr>"

section \<open>Steps\<close>

text \<open>The parameter says whether the file system has hard links. A process that writes the file it created
  writes that file, also when the path has since been removed; when the write fails it removes whatever is at the path.\<close>

inductive key_step :: "bool \<Rightarrow> key_state \<Rightarrow> key_state \<Rightarrow> bool" for links :: bool where
  load_found: "k_phase s p = Ensuring \<Longrightarrow> k_file s = Whole k \<Longrightarrow> key_step links s (to p (Got k) s)"
| load_bad: "k_phase s p = Ensuring \<Longrightarrow> k_file s = Partial q \<Longrightarrow> key_step links s (to p (Failed BadDeviceKey) s)"
| load_missing: "k_phase s p = Ensuring \<Longrightarrow> k_file s = NoFile \<Longrightarrow> k \<notin> k_used s \<Longrightarrow>
    key_step links s (to p (Made k) (s\<lparr>k_used := insert k (k_used s)\<rparr>))"
| link: "links \<Longrightarrow> k_phase s p = Made k \<Longrightarrow> k_file s = NoFile \<Longrightarrow> key_step links s (now_at p (Got k) (Whole k) s)"
| create: "\<not> links \<Longrightarrow> k_phase s p = Made k \<Longrightarrow> k_file s = NoFile \<Longrightarrow> key_step links s (now_at p (Writing k) (Partial p) s)"
| lost: "k_phase s p = Made k \<Longrightarrow> k_file s \<noteq> NoFile \<Longrightarrow> key_step links s (to p (Raced race_reads) s)"
| finish: "k_phase s p = Writing k \<Longrightarrow>
    key_step links s (now_at p (Got k) (if k_file s = Partial p then Whole k else k_file s) s)"
| write_fails: "k_phase s p = Writing k \<Longrightarrow> key_step links s (now_at p (Failed CannotWrite) NoFile s)"
| dies: "k_phase s p = Writing k \<Longrightarrow> key_step links s (to p Died s)"
| raced_found: "k_phase s p = Raced (Suc n) \<Longrightarrow> k_file s = Whole k \<Longrightarrow> key_step links s (to p (Got k) s)"
| raced_missing: "k_phase s p = Raced (Suc n) \<Longrightarrow> k_file s = NoFile \<Longrightarrow> key_step links s (to p (Failed NoDeviceKey) s)"
| raced_bad: "k_phase s p = Raced (Suc n) \<Longrightarrow> k_file s = Partial q \<Longrightarrow> key_step links s (to p (Raced n) s)"
| raced_out: "k_phase s p = Raced 0 \<Longrightarrow> key_step links s (to p (Failed BadDeviceKey) s)"
| same_key: "k_phase s p = Discarding k \<Longrightarrow> k_file s = Whole k \<Longrightarrow> key_step links s (to p Removing s)"
| other_key: "k_phase s p = Discarding k \<Longrightarrow> k_file s \<noteq> Whole k \<Longrightarrow> key_step links s (to p (Discarded False) s)"
| remove: "k_phase s p = Removing \<Longrightarrow> key_step links s (now_at p (Discarded (k_file s \<noteq> NoFile)) NoFile s)"

inductive_cases key_step_cases: "key_step links s s'"

abbreviation key_runs :: "bool \<Rightarrow> key_state \<Rightarrow> key_state \<Rightarrow> bool" where
  "key_runs links \<equiv> (key_step links)\<^sup>*\<^sup>*"

section \<open>One discard at most\<close>

definition starts :: "device_key \<Rightarrow> key_state \<Rightarrow> bool" where
  "starts r s \<longleftrightarrow> r \<in> k_used s \<and> (\<forall>k. k_file s = Whole k \<longrightarrow> k \<in> k_used s) \<and>
     (\<forall>p. k_phase s p = Ensuring \<or> k_phase s p = Discarding r)"

definition phase_ok :: "device_key \<Rightarrow> key_file \<Rightarrow> nat \<Rightarrow> key_phase \<Rightarrow> bool" where
  "phase_ok r f p ph \<longleftrightarrow>
     (case ph of
        Got k \<Rightarrow> k = r \<or> f = Whole k
      | Made k \<Rightarrow> k \<noteq> r
      | Writing k \<Rightarrow> k \<noteq> r \<and> f = Partial p
      | Discarding k \<Rightarrow> k = r
      | Removing \<Rightarrow> f = Whole r
      | _ \<Rightarrow> True)"

definition discards :: "key_phase \<Rightarrow> bool" where
  "discards ph \<longleftrightarrow> (case ph of Discarding _ \<Rightarrow> True | Removing \<Rightarrow> True | _ \<Rightarrow> False)"

definition key_inv :: "device_key \<Rightarrow> key_state \<Rightarrow> bool" where
  "key_inv r s \<longleftrightarrow> r \<in> k_used s \<and> (\<forall>p. phase_ok r (k_file s) p (k_phase s p)) \<and>
     (\<forall>p q. discards (k_phase s p) \<longrightarrow> discards (k_phase s q) \<longrightarrow> p = q)"

lemma key_inv_moves:
  assumes i: "key_inv r s" and k: "k_phase s' = (k_phase s)(p := ph)" and u: "k_used s \<subseteq> k_used s'"
    and own: "phase_ok r (k_file s') p ph" and others: "\<And>q. q \<noteq> p \<Longrightarrow> phase_ok r (k_file s') q (k_phase s q)"
    and d: "discards ph \<Longrightarrow> discards (k_phase s p)"
  shows "key_inv r s'"
proof -
  have "phase_ok r (k_file s') q (k_phase s' q)" for q using own others by (simp add: k)
  moreover have "q = q'" if "discards (k_phase s' q)" "discards (k_phase s' q')" for q q'
  proof -
    have o: "discards (k_phase s x)" if "discards (k_phase s' x)" for x using that d by (cases "x = p") (simp_all add: k)
    show ?thesis using i that o unfolding key_inv_def by blast
  qed
  ultimately show ?thesis using i u unfolding key_inv_def by blast
qed

text \<open>Who is not disturbed when the file changes.\<close>

lemma phase_ok_empty: "phase_ok r NoFile q ph \<Longrightarrow> phase_ok r f q ph"
  by (auto simp: phase_ok_def split: key_phase.splits)

lemma phase_ok_partial: "phase_ok r (Partial p) q ph \<Longrightarrow> q \<noteq> p \<Longrightarrow> phase_ok r f q ph"
  by (auto simp: phase_ok_def split: key_phase.splits)

lemma phase_ok_revoked: "phase_ok r (Whole r) q ph \<Longrightarrow> \<not> discards ph \<Longrightarrow> phase_ok r f q ph"
  by (auto simp: phase_ok_def discards_def split: key_phase.splits)

lemma key_inv_step:
  assumes st: "key_step links s s'" and i: "key_inv r s"
  shows "key_inv r s'"
proof -
  have ok: "phase_ok r (k_file s) q (k_phase s q)" for q using i by (simp add: key_inv_def)
  have one: "\<not> discards (k_phase s q)" if "discards (k_phase s p)" "q \<noteq> p" for p q using i that unfolding key_inv_def by blast
  from st show ?thesis
  proof cases
    case (load_found p k)
    show ?thesis by (rule key_inv_moves [OF i, where p = p and ph = "Got k"]) (use load_found ok in \<open>auto simp: phase_ok_def discards_def\<close>)
  next
    case (load_bad p q)
    show ?thesis by (rule key_inv_moves [OF i, where p = p and ph = "Failed BadDeviceKey"]) (use load_bad ok in \<open>auto simp: phase_ok_def discards_def\<close>)
  next
    case (load_missing p k)
    have "r \<in> k_used s" using i by (simp add: key_inv_def)
    with load_missing have "k \<noteq> r" by auto
    with load_missing ok show ?thesis by (intro key_inv_moves [OF i, where p = p and ph = "Made k"]) (auto simp: phase_ok_def discards_def)
  next
    case (link p k)
    have "phase_ok r (Whole k) q (k_phase s q)" for q using phase_ok_empty ok [of q] link by simp
    with link show ?thesis by (intro key_inv_moves [OF i, where p = p and ph = "Got k"]) (auto simp: phase_ok_def discards_def)
  next
    case (create p k)
    have "k \<noteq> r" using ok [of p] create by (simp add: phase_ok_def)
    moreover have "phase_ok r (Partial p) q (k_phase s q)" for q using phase_ok_empty ok [of q] create by simp
    ultimately show ?thesis using create by (intro key_inv_moves [OF i, where p = p and ph = "Writing k"]) (auto simp: phase_ok_def discards_def)
  next
    case (lost p k)
    show ?thesis by (rule key_inv_moves [OF i, where p = p and ph = "Raced race_reads"]) (use lost ok in \<open>auto simp: phase_ok_def discards_def\<close>)
  next
    case (finish p k)
    have f: "k_file s = Partial p" using ok [of p] finish by (simp add: phase_ok_def)
    have "phase_ok r (Whole k) q (k_phase s q)" if "q \<noteq> p" for q using phase_ok_partial [OF ok [of q, unfolded f] that] .
    with finish f show ?thesis by (intro key_inv_moves [OF i, where p = p and ph = "Got k"]) (auto simp: phase_ok_def discards_def)
  next
    case (write_fails p k)
    have f: "k_file s = Partial p" using ok [of p] write_fails by (simp add: phase_ok_def)
    have "phase_ok r NoFile q (k_phase s q)" if "q \<noteq> p" for q using phase_ok_partial [OF ok [of q, unfolded f] that] .
    with write_fails show ?thesis by (intro key_inv_moves [OF i, where p = p and ph = "Failed CannotWrite"]) (auto simp: phase_ok_def discards_def)
  next
    case (dies p k)
    show ?thesis by (rule key_inv_moves [OF i, where p = p and ph = "Died"]) (use dies ok in \<open>auto simp: phase_ok_def discards_def\<close>)
  next
    case (raced_found p n k)
    show ?thesis by (rule key_inv_moves [OF i, where p = p and ph = "Got k"]) (use raced_found ok in \<open>auto simp: phase_ok_def discards_def\<close>)
  next
    case (raced_missing p n)
    show ?thesis by (rule key_inv_moves [OF i, where p = p and ph = "Failed NoDeviceKey"]) (use raced_missing ok in \<open>auto simp: phase_ok_def discards_def\<close>)
  next
    case (raced_bad p n q)
    show ?thesis by (rule key_inv_moves [OF i, where p = p and ph = "Raced n"]) (use raced_bad ok in \<open>auto simp: phase_ok_def discards_def\<close>)
  next
    case (raced_out p)
    show ?thesis by (rule key_inv_moves [OF i, where p = p and ph = "Failed BadDeviceKey"]) (use raced_out ok in \<open>auto simp: phase_ok_def discards_def\<close>)
  next
    case (same_key p k)
    have "k = r" using ok [of p] same_key by (simp add: phase_ok_def)
    with same_key ok show ?thesis by (intro key_inv_moves [OF i, where p = p and ph = "Removing"]) (auto simp: phase_ok_def discards_def)
  next
    case (other_key p k)
    show ?thesis by (rule key_inv_moves [OF i, where p = p and ph = "Discarded False"]) (use other_key ok in \<open>auto simp: phase_ok_def discards_def\<close>)
  next
    case (remove p)
    have f: "k_file s = Whole r" using ok [of p] remove by (simp add: phase_ok_def)
    have d: "discards (k_phase s p)" using remove by (simp add: discards_def)
    have "phase_ok r NoFile q (k_phase s q)" if "q \<noteq> p" for q
      by (rule phase_ok_revoked [OF ok [of q, unfolded f] one [OF d that]])
    with remove show ?thesis by (intro key_inv_moves [OF i, where p = p and ph = "Discarded (k_file s \<noteq> NoFile)"]) (auto simp: phase_ok_def discards_def)
  qed
qed

lemma key_inv_runs: "key_runs links s s' \<Longrightarrow> key_inv r s \<Longrightarrow> key_inv r s'"
  by (induction rule: rtranclp_induct) (auto intro: key_inv_step)

text \<open>C18: however any number of sign-ins interleave, with hard links or without, writes that fail and processes that
  die included, all that end with a key end with the same one, the one on disk; a discard of the revoked key running
  beside them takes no other.\<close>

theorem signed_in_processes_share_the_key_on_disk:
  assumes s: "starts r s" and one: "\<And>p q. k_phase s p = Discarding r \<Longrightarrow> k_phase s q = Discarding r \<Longrightarrow> p = q"
    and r: "key_runs links s s'" and p: "k_phase s' p = Got k" "k \<noteq> r"
  shows "k_file s' = Whole k \<and> (\<forall>q k'. k_phase s' q = Got k' \<longrightarrow> k' = k \<or> k' = r)"
proof -
  have ph: "k_phase s x = Ensuring \<or> k_phase s x = Discarding r" for x using s by (simp add: starts_def)
  have "key_inv r s"
    unfolding key_inv_def
  proof (intro conjI allI impI)
    show "r \<in> k_used s" using s by (simp add: starts_def)
    show "phase_ok r (k_file s) x (k_phase s x)" for x using ph [of x] by (auto simp: phase_ok_def)
    show "x = y" if "discards (k_phase s x)" "discards (k_phase s y)" for x y
      by (rule one) (use that ph [of x] ph [of y] in \<open>auto simp: discards_def\<close>)
  qed
  from key_inv_runs [OF r this] have ok: "phase_ok r (k_file s') x (k_phase s' x)" for x by (simp add: key_inv_def)
  from ok [of p] p have f: "k_file s' = Whole k" by (simp add: phase_ok_def)
  have "k' = k \<or> k' = r" if "k_phase s' q = Got k'" for q k' using ok [of q] that f by (auto simp: phase_ok_def)
  with f show ?thesis by blast
qed

section \<open>Concrete runs\<close>

definition shared :: "key_file \<Rightarrow> nat \<Rightarrow> key_state" where
  "shared f n = \<lparr>k_file = f, k_phase = (\<lambda>p. if p < n then Discarding 0 else Ensuring), k_used = {0}\<rparr>"

lemma shared_starts: "f = NoFile \<or> f = Whole 0 \<Longrightarrow> starts 0 (shared f n)"
  by (auto simp: starts_def shared_def)

lemmas then_runs = converse_rtranclp_into_rtranclp [where r = "key_step _"]

theorem signed_in_processes_share_the_key_on_disk_witness:
  "\<exists>s'. key_runs True (shared (Whole 0) 1) s' \<and> k_phase s' 0 = Discarded True \<and> k_phase s' 5 = Got 1 \<and> k_file s' = Whole 1"
proof -
  let ?s0 = "shared (Whole 0) 1"
  let ?s1 = "to 0 Removing ?s0"
  let ?s2 = "now_at 0 (Discarded (k_file ?s1 \<noteq> NoFile)) NoFile ?s1"
  let ?s3 = "to 5 (Made 1) (?s2\<lparr>k_used := insert 1 (k_used ?s2)\<rparr>)"
  let ?s4 = "now_at 5 (Got 1) (Whole 1) ?s3"
  have 1: "key_step True ?s0 ?s1" by (rule same_key [of _ _ 0]) (simp_all add: shared_def)
  have 2: "key_step True ?s1 ?s2" by (rule remove) simp
  have 3: "key_step True ?s2 ?s3" by (rule load_missing) (simp_all add: shared_def)
  have 4: "key_step True ?s3 ?s4" by (rule link) simp_all
  have r: "key_runs True ?s0 ?s4" by (rule then_runs [OF 1 then_runs [OF 2 then_runs [OF 3 then_runs [OF 4]]]]) simp
  have one: "p = q" if "k_phase ?s0 p = Discarding 0" "k_phase ?s0 q = Discarding 0" for p q
    using that by (simp add: shared_def split: if_splits)
  have "starts 0 ?s0" by (rule shared_starts) simp
  from signed_in_processes_share_the_key_on_disk [OF this one r, of 5 1] have "k_file ?s4 = Whole 1" by simp
  with r show ?thesis by (intro exI [of _ ?s4]) (simp add: shared_def)
qed

text \<open>With two discards the promise that a new key survives a refusal meant for the old one fails: both compare
  the old key, one removes it, another process signs in with a new key, and the second discard removes that one; its
  owner goes on with a key no file holds.\<close>

theorem a_second_discard_takes_the_new_key:
  "\<exists>s s' p k. starts 0 s \<and> key_runs links s s' \<and> k_phase s' p = Got k \<and> k \<noteq> 0 \<and> k_file s' = NoFile"
proof -
  let ?s0 = "shared (Whole 0) 2"
  let ?s1 = "to 0 Removing ?s0"
  let ?s2 = "to 1 Removing ?s1"
  let ?s3 = "now_at 1 (Discarded (k_file ?s2 \<noteq> NoFile)) NoFile ?s2"
  let ?s4 = "to 5 (Made 1) (?s3\<lparr>k_used := insert 1 (k_used ?s3)\<rparr>)"
  have 1: "key_step links ?s0 ?s1" by (rule same_key [of _ _ 0]) (simp_all add: shared_def)
  have 2: "key_step links ?s1 ?s2" by (rule same_key [of _ _ 0]) (simp_all add: shared_def)
  have 3: "key_step links ?s2 ?s3" by (rule remove) simp
  have 4: "key_step links ?s3 ?s4" by (rule load_missing) (simp_all add: shared_def)
  have "\<exists>s5. key_runs links ?s4 s5 \<and> k_phase s5 5 = Got 1 \<and> k_phase s5 0 = Removing \<and> k_file s5 = Whole 1"
  proof (cases links)
    case True
    let ?s5 = "now_at 5 (Got 1) (Whole 1) ?s4"
    have 5: "key_step links ?s4 ?s5" by (rule link) (simp_all add: True)
    show ?thesis by (rule exI [of _ ?s5]) (use r_into_rtranclp [of "key_step links", OF 5] in simp)
  next
    case False
    let ?s5 = "now_at 5 (Writing 1) (Partial 5) ?s4"
    let ?s6 = "now_at 5 (Got 1) (if k_file ?s5 = Partial 5 then Whole 1 else k_file ?s5) ?s5"
    have 5: "key_step links ?s4 ?s5" by (rule create) (simp_all add: False)
    have 6: "key_step links ?s5 ?s6" by (rule finish) simp
    have r: "key_runs links ?s4 ?s6" by (rule then_runs [OF 5 then_runs [OF 6]]) simp
    show ?thesis by (rule exI [of _ ?s6]) (use r in simp)
  qed
  then obtain s5 where 5: "key_runs links ?s4 s5" and ph: "k_phase s5 5 = Got 1" "k_phase s5 0 = Removing" by blast
  let ?s6 = "now_at 0 (Discarded (k_file s5 \<noteq> NoFile)) NoFile s5"
  have 6: "key_step links s5 ?s6" by (rule remove) (rule ph)
  have r: "key_runs links ?s0 ?s6"
    by (rule then_runs [OF 1 then_runs [OF 2 then_runs [OF 3 then_runs [OF 4 rtranclp.rtrancl_into_rtrancl [OF 5 6]]]]])
  have "starts 0 ?s0" by (rule shared_starts) simp
  with r ph show ?thesis by (intro exI [of _ ?s0] exI [of _ ?s6] exI [of _ 5] exI [of _ 1]) simp
qed

text \<open>On a file system without hard links a sign-in that reads the file while another process writes it is
  told that the key is damaged, and the key it is told to delete is the one the other process goes on with.\<close>

theorem a_key_being_written_is_called_damaged:
  "\<exists>s s' p q k. starts 0 s \<and> key_runs False s s' \<and> k_phase s' p = Failed BadDeviceKey \<and> k_phase s' q = Got k \<and> k_file s' = Whole k"
proof -
  let ?s0 = "shared NoFile 0"
  let ?s1 = "to 5 (Made 1) (?s0\<lparr>k_used := insert 1 (k_used ?s0)\<rparr>)"
  let ?s2 = "now_at 5 (Writing 1) (Partial 5) ?s1"
  let ?s3 = "to 6 (Failed BadDeviceKey) ?s2"
  let ?s4 = "now_at 5 (Got 1) (if k_file ?s3 = Partial 5 then Whole 1 else k_file ?s3) ?s3"
  have 1: "key_step False ?s0 ?s1" by (rule load_missing) (simp_all add: shared_def)
  have 2: "key_step False ?s1 ?s2" by (rule create) (simp_all add: shared_def)
  have 3: "key_step False ?s2 ?s3" by (rule load_bad [of _ _ 5]) (simp_all add: shared_def)
  have 4: "key_step False ?s3 ?s4" by (rule finish) (simp add: shared_def)
  have r: "key_runs False ?s0 ?s4" by (rule then_runs [OF 1 then_runs [OF 2 then_runs [OF 3 then_runs [OF 4]]]]) simp
  have "starts 0 ?s0" by (rule shared_starts) simp
  with r show ?thesis by (intro exI [of _ ?s0] exI [of _ ?s4] exI [of _ 6] exI [of _ 5] exI [of _ 1]) simp
qed

section \<open>Every process ends\<close>

definition key_rank :: "key_phase \<Rightarrow> nat" where
  "key_rank ph =
     (case ph of
        Ensuring \<Rightarrow> race_reads + 3
      | Made _ \<Rightarrow> race_reads + 2
      | Writing _ \<Rightarrow> 1
      | Raced n \<Rightarrow> n + 1
      | Discarding _ \<Rightarrow> 2
      | Removing \<Rightarrow> 1
      | _ \<Rightarrow> 0)"

lemma key_step_rank:
  assumes "key_step links s s'"
  obtains p where "key_rank (k_phase s' p) < key_rank (k_phase s p)" and "\<And>q. q \<noteq> p \<Longrightarrow> k_phase s' q = k_phase s q"
  using assms by cases (rule that; simp add: key_rank_def race_reads_def)+

lemma key_changes_bounded:
  assumes st: "\<And>i. key_step links (f i) (f (Suc i))"
  shows "card {i. i < n \<and> k_phase (f (Suc i)) p \<noteq> k_phase (f i) p} + key_rank (k_phase (f n) p) \<le> key_rank (k_phase (f 0) p)"
proof (induction n)
  case (Suc n)
  let ?C = "\<lambda>n. {i. i < n \<and> k_phase (f (Suc i)) p \<noteq> k_phase (f i) p}"
  obtain q where q: "key_rank (k_phase (f (Suc n)) q) < key_rank (k_phase (f n) q)"
    and others: "\<And>x. x \<noteq> q \<Longrightarrow> k_phase (f (Suc n)) x = k_phase (f n) x"
    using key_step_rank [OF st [of n]] by metis
  show ?case
  proof (cases "p = q")
    case True
    have "?C (Suc n) \<subseteq> insert n (?C n)" by (auto simp: less_Suc_eq)
    then have "card (?C (Suc n)) \<le> card (insert n (?C n))" by (intro card_mono) simp_all
    also have "\<dots> \<le> Suc (card (?C n))" by (simp add: card_insert_if)
    finally show ?thesis using Suc q True by simp
  next
    case False
    have "?C (Suc n) = ?C n" using others [OF False] by (auto simp: less_Suc_eq)
    then show ?thesis using Suc others [OF False] by simp
  qed
qed simp

lemma key_rank_to [simp]:
  "key_rank (k_phase (to p ph s) p) = key_rank ph" "key_rank (k_phase (now_at p ph f s) p) = key_rank ph"
  by simp_all

lemma next_key_step: "key_step links s s' \<Longrightarrow> key_rank (k_phase s' p) < n \<Longrightarrow> \<exists>s'. key_step links s s' \<and> key_rank (k_phase s' p) < n"
  by blast

lemma key_step_enabled:
  assumes u: "finite (k_used s)" and r: "0 < key_rank (k_phase s p)"
  shows "\<exists>s'. key_step links s s' \<and> key_rank (k_phase s' p) < key_rank (k_phase s p)"
proof (cases "k_phase s p")
  case Ensuring
  obtain k where k: "k \<notin> k_used s" using ex_new_if_finite [OF _ u] infinite_UNIV_nat by blast
  show ?thesis
  proof (cases "k_file s")
    case NoFile
    show ?thesis by (rule next_key_step [OF load_missing [OF Ensuring NoFile k]]) (simp add: Ensuring key_rank_def)
  next
    case (Partial q)
    show ?thesis by (rule next_key_step [OF load_bad [OF Ensuring Partial]]) (simp add: Ensuring key_rank_def)
  next
    case (Whole k)
    show ?thesis by (rule next_key_step [OF load_found [OF Ensuring Whole]]) (simp add: Ensuring key_rank_def)
  qed
next
  case (Made k)
  show ?thesis
  proof (cases "k_file s = NoFile")
    case False
    show ?thesis by (rule next_key_step [OF lost [OF Made False]]) (simp add: Made key_rank_def)
  next
    case True
    show ?thesis
    proof (cases links)
      case l: True
      show ?thesis by (rule next_key_step [OF link [OF l Made True]]) (simp add: Made key_rank_def)
    next
      case False
      show ?thesis by (rule next_key_step [OF create [OF False Made True]]) (simp add: Made key_rank_def)
    qed
  qed
next
  case (Writing k)
  show ?thesis by (rule next_key_step [OF dies [OF Writing]]) (simp add: Writing key_rank_def)
next
  case (Raced n)
  show ?thesis
  proof (cases n)
    case 0
    show ?thesis by (rule next_key_step [OF raced_out [OF Raced [unfolded 0]]]) (simp add: Raced key_rank_def)
  next
    case (Suc m)
    note r = Raced [unfolded Suc]
    show ?thesis
    proof (cases "k_file s")
      case NoFile
      show ?thesis by (rule next_key_step [OF raced_missing [OF r NoFile]]) (simp add: Raced key_rank_def)
    next
      case (Partial q)
      show ?thesis by (rule next_key_step [OF raced_bad [OF r Partial]]) (simp add: r key_rank_def)
    next
      case (Whole k)
      show ?thesis by (rule next_key_step [OF raced_found [OF r Whole]]) (simp add: Raced key_rank_def)
    qed
  qed
next
  case (Discarding k)
  show ?thesis
  proof (cases "k_file s = Whole k")
    case True
    show ?thesis by (rule next_key_step [OF same_key [OF Discarding True]]) (simp add: Discarding key_rank_def)
  next
    case False
    show ?thesis by (rule next_key_step [OF other_key [OF Discarding False]]) (simp add: Discarding key_rank_def)
  qed
next
  case Removing
  show ?thesis by (rule next_key_step [OF remove [OF Removing]]) (simp add: Removing key_rank_def)
qed (use r in \<open>simp_all add: key_rank_def\<close>)

lemma key_step_finite: "key_step links s s' \<Longrightarrow> finite (k_used s) \<Longrightarrow> finite (k_used s')"
  by (induction rule: key_step.induct) simp_all

lemma card_bounded_finite: "(\<And>n. card {i. i < n \<and> P i} \<le> b) \<Longrightarrow> finite {i. P i} \<and> card {i. P i} \<le> b"
  for P :: "nat \<Rightarrow> bool"
proof (rule ccontr)
  assume c: "\<And>n. card {i. i < n \<and> P i} \<le> b" and n: "\<not> (finite {i. P i} \<and> card {i. P i} \<le> b)"
  obtain T where T: "finite T" "T \<subseteq> {i. P i}" "card T = Suc b"
  proof (cases "finite {i. P i}")
    case True
    with n have "Suc b \<le> card {i. P i}" by simp
    then show ?thesis by (metis that True obtain_subset_with_card_n)
  next
    case False
    then show ?thesis by (metis that infinite_arbitrarily_large)
  qed
  have "T \<subseteq> {i. i < Suc (Max T) \<and> P i}"
  proof
    fix x assume x: "x \<in> T"
    with T(1) have "x \<le> Max T" by simp
    with x T(2) show "x \<in> {i. i < Suc (Max T) \<and> P i}" by auto
  qed
  then have "card T \<le> card {i. i < Suc (Max T) \<and> P i}" by (intro card_mono) simp_all
  with c [of "Suc (Max T)"] T(3) show False by simp
qed

text \<open>C40: a sign-in or a discard is never kept busy by the others: in a run of any length no process makes more than
  13 steps, and one that has not ended can always make its next one.\<close>

theorem no_process_is_kept_busy:
  assumes s: "starts r (f 0)" and st: "\<And>i. key_step links (f i) (f (Suc i))" and u: "finite (k_used (f 0))"
  shows "finite {i. k_phase (f (Suc i)) p \<noteq> k_phase (f i) p} \<and> card {i. k_phase (f (Suc i)) p \<noteq> k_phase (f i) p} \<le> 13 \<and>
    (\<forall>i. key_rank (k_phase (f i) p) = 0 \<or>
      (\<exists>s'. key_step links (f i) s' \<and> key_rank (k_phase s' p) < key_rank (k_phase (f i) p)))"
proof -
  have "k_phase (f 0) p = Ensuring \<or> k_phase (f 0) p = Discarding r" using s by (simp add: starts_def)
  then have "key_rank (k_phase (f 0) p) \<le> 13" by (auto simp: key_rank_def race_reads_def)
  then have "card {i. i < n \<and> k_phase (f (Suc i)) p \<noteq> k_phase (f i) p} \<le> 13" for n
    using key_changes_bounded [of links f n p, OF st] by linarith
  note steps = card_bounded_finite [OF this]
  have "finite (k_used (f i))" for i by (induction i) (auto intro: u key_step_finite [OF st])
  with key_step_enabled steps show ?thesis by blast
qed

definition one_by_one :: "nat \<Rightarrow> key_state" where
  "one_by_one i = \<lparr>k_file = Whole 0, k_phase = (\<lambda>p. if p < i then Got 0 else Ensuring), k_used = {0}\<rparr>"

theorem no_process_is_kept_busy_witness:
  "card {i. k_phase (one_by_one (Suc i)) 4 \<noteq> k_phase (one_by_one i) 4} \<le> 13 \<and> key_rank (k_phase (one_by_one 5) 4) = 0"
proof -
  have st: "key_step True (one_by_one i) (one_by_one (Suc i))" for i
  proof -
    have "key_step True (one_by_one i) (to i (Got 0) (one_by_one i))"
      by (rule load_found) (simp_all add: one_by_one_def)
    also have "to i (Got 0) (one_by_one i) = one_by_one (Suc i)"
      by (auto simp: one_by_one_def fun_eq_iff less_Suc_eq)
    finally show ?thesis .
  qed
  have "starts 0 (one_by_one 0)" by (auto simp: starts_def one_by_one_def)
  from no_process_is_kept_busy [of 0 one_by_one True 4, OF this st]
  have "card {i. k_phase (one_by_one (Suc i)) 4 \<noteq> k_phase (one_by_one i) 4} \<le> 13" by (simp add: one_by_one_def)
  then show ?thesis by (simp add: one_by_one_def key_rank_def)
qed

end
