(* ===== verification/PluginTree.thy ===== *)
theory PluginTree
  imports ProjectTree
begin

text \<open>
  The three shapes of a plugin's tree: the author's, the published one \<^verbatim>\<open>src/internal/pluginrender/pluginrender.go\<close>
  makes of it, and the consumer's, which \<^verbatim>\<open>stripSrcSuffix\<close> of \<^verbatim>\<open>src/internal/pluginfetch/pluginfetch.go\<close> unpacks.
  What a tree holds below a directory is a map from relative paths to bytes; each step is proved to compute a map of
  such maps, and the two steps together give the author's tree back without its tests.
  The tree that is read and the one that is written are two: no code here reads below what it writes. The manifest's
  YAML is a parameter.
\<close>

section \<open>Walking and copying\<close>

text \<open>\<^verbatim>\<open>filepath.WalkDir\<close> with a function that may stop the walk with an error.\<close>

fun walk_paths :: "(path \<Rightarrow> 'a \<Rightarrow> 'a \<times> 'e option) \<Rightarrow> path list \<Rightarrow> 'a \<Rightarrow> 'a \<times> 'e option" where
  "walk_paths f [] a = (a, None)"
| "walk_paths f (p # ps) a = (case f p a of (a', None) \<Rightarrow> walk_paths f ps a' | (a', Some e) \<Rightarrow> (a', Some e))"

definition if_ok :: "'a \<times> 'e option \<Rightarrow> ('a \<Rightarrow> 'a \<times> 'e option) \<Rightarrow> 'a \<times> 'e option" where
  "if_ok r f = (case r of (a, None) \<Rightarrow> f a | (a, Some e) \<Rightarrow> (a, Some e))"

datatype render_error =
    NotAPlugin
  | RenderFailed
  | NotThere path
  | AlreadyPublished path
  | NoBuildSource string
  | CitesPrivateDocs
  | NoPluginFound

record render_stats =
  rs_plugins :: nat
  rs_files :: nat
  rs_go :: nat
  rs_tests :: nat

definition no_stats :: render_stats where
  "no_stats = \<lparr>rs_plugins = 0, rs_files = 0, rs_go = 0, rs_tests = 0\<rparr>"

type_synonym rendering = "(tree \<times> render_stats) \<times> render_error option"

text \<open>\<^verbatim>\<open>copyFile\<close>: a directory can be opened, and then its copy fails and leaves an empty file.\<close>

definition put_copy :: "disk \<Rightarrow> path \<Rightarrow> string \<Rightarrow> tree \<Rightarrow> tree \<times> render_error option" where
  "put_copy d q b t =
     (case mkdir_all d (butlast q) t of
        (t1, False) \<Rightarrow> (t1, Some RenderFailed)
      | (t1, True) \<Rightarrow> (case write_file d q b t1 of (t2, ok) \<Rightarrow> (t2, if ok then None else Some RenderFailed)))"

definition copy_file :: "disk \<Rightarrow> tree \<Rightarrow> path \<Rightarrow> disk \<Rightarrow> path \<Rightarrow> tree \<Rightarrow> tree \<times> render_error option" where
  "copy_file ds s p d q t =
     (case read_file ds s p of
        NotExist \<Rightarrow> (t, Some (NotThere p))
      | ReadError \<Rightarrow>
          (if node_at s p = Some Dir then (fst (put_copy d q [] t), Some RenderFailed) else (t, Some RenderFailed))
      | Bytes b \<Rightarrow> put_copy d q b t)"

definition copy_counted ::
    "disk \<Rightarrow> tree \<Rightarrow> path \<Rightarrow> disk \<Rightarrow> path \<Rightarrow> (render_stats \<Rightarrow> render_stats) \<Rightarrow> tree \<times> render_stats \<Rightarrow> rendering" where
  "copy_counted ds s p d q tally a =
     (case copy_file ds s p d q (fst a) of
        (t1, Some e) \<Rightarrow> ((t1, snd a), Some e)
      | (t1, None) \<Rightarrow> ((t1, tally (snd a)), None))"

section \<open>The published form\<close>

definition src_suffix :: string where "src_suffix = ''.src''"

definition skip_under_src :: "string list" where "skip_under_src = [''gen'']"

definition verbatim_under_src :: "string list" where "verbatim_under_src = [''.gitignore'']"

definition suffixed_under_src :: "string list" where "suffixed_under_src = [''go.mod'', ''go.sum'']"

definition is_go :: "string \<Rightarrow> bool" where "is_go n \<longleftrightarrow> suffix ''.go'' n"

definition is_go_test :: "string \<Rightarrow> bool" where "is_go_test n \<longleftrightarrow> suffix ''_test.go'' n"

definition published_already :: "string \<Rightarrow> bool" where
  "published_already n \<longleftrightarrow>
     suffix (''.go'' @ src_suffix) n \<or> n = ''go.mod'' @ src_suffix \<or> n = ''go.sum'' @ src_suffix"

definition inert :: "path \<Rightarrow> path" where "inert p = butlast p @ [last p @ src_suffix]"

definition one_file :: "render_stats \<Rightarrow> render_stats" where
  "one_file st = st\<lparr>rs_files := Suc (rs_files st)\<rparr>"

definition one_go :: "string \<Rightarrow> render_stats \<Rightarrow> render_stats" where
  "one_go n st = st\<lparr>rs_go := Suc (rs_go st), rs_tests := rs_tests st + (if is_go_test n then 1 else 0)\<rparr>"

text \<open>What is in \<^verbatim>\<open>gen\<close> is below a directory that is skipped whole, so no file of it is visited.\<close>

definition skipped :: "path \<Rightarrow> bool" where
  "skipped rel \<longleftrightarrow> rel \<noteq> [] \<and> hd rel \<in> set skip_under_src"

definition render_src_at :: "disk \<Rightarrow> tree \<Rightarrow> path \<Rightarrow> disk \<Rightarrow> path \<Rightarrow> path \<Rightarrow> tree \<times> render_stats \<Rightarrow> rendering" where
  "render_src_at ds s srcdir d dest p a =
     (let rel = drop (length srcdir) p; n = last p in
      if skipped rel then (a, None)
      else if node_at s p = Some Dir then (a, if unlistable ds s p then Some RenderFailed else None)
      else if published_already n then (a, Some (AlreadyPublished rel))
      else if n \<in> set verbatim_under_src then copy_counted ds s p d (dest @ rel) one_file a
      else if n \<in> set suffixed_under_src then copy_counted ds s p d (dest @ inert rel) one_file a
      else if is_go n then copy_counted ds s p d (dest @ inert rel) (one_go n \<circ> one_file) a
      else (a, None))"

definition render_src :: "disk \<Rightarrow> tree \<Rightarrow> path \<Rightarrow> disk \<Rightarrow> path \<Rightarrow> tree \<times> render_stats \<Rightarrow> rendering" where
  "render_src ds s srcdir d dest = walk_paths (render_src_at ds s srcdir d dest) (walk_order s srcdir)"

text \<open>In \<^verbatim>\<open>renderSandboxes\<close> the Go files are counted before they are copied.\<close>

definition render_sandbox_at :: "disk \<Rightarrow> tree \<Rightarrow> path \<Rightarrow> disk \<Rightarrow> path \<Rightarrow> path \<Rightarrow> tree \<times> render_stats \<Rightarrow> rendering" where
  "render_sandbox_at ds s srcdir d dest p a =
     (let rel = drop (length srcdir) p; n = last p in
      if node_at s p = Some Dir then (a, if unlistable ds s p then Some RenderFailed else None)
      else if suffix src_suffix n then (a, Some (AlreadyPublished rel))
      else if is_go n then copy_counted ds s p d (dest @ inert rel) one_file (fst a, one_go n (snd a))
      else if n \<in> set suffixed_under_src then copy_counted ds s p d (dest @ inert rel) one_file a
      else copy_counted ds s p d (dest @ rel) one_file a)"

definition render_sandboxes :: "disk \<Rightarrow> tree \<Rightarrow> path \<Rightarrow> disk \<Rightarrow> path \<Rightarrow> tree \<times> render_stats \<Rightarrow> rendering" where
  "render_sandboxes ds s srcdir d dest = walk_paths (render_sandbox_at ds s srcdir d dest) (walk_order s srcdir)"

text \<open>\<^verbatim>\<open>copyTree\<close> of the render, whose skip function is always nil. Its count is added only when it succeeds.\<close>

definition copy_verbatim_at :: "disk \<Rightarrow> tree \<Rightarrow> path \<Rightarrow> disk \<Rightarrow> path \<Rightarrow> path \<Rightarrow> tree \<times> render_stats \<Rightarrow> rendering" where
  "copy_verbatim_at ds s srcdir d dest p a =
     (if node_at s p = Some Dir then (a, if unlistable ds s p then Some RenderFailed else None)
      else copy_counted ds s p d (dest @ drop (length srcdir) p) one_file a)"

definition copy_verbatim :: "disk \<Rightarrow> tree \<Rightarrow> path \<Rightarrow> disk \<Rightarrow> path \<Rightarrow> tree \<times> render_stats \<Rightarrow> rendering" where
  "copy_verbatim ds s srcdir d dest a =
     (case walk_paths (copy_verbatim_at ds s srcdir d dest) (walk_order s srcdir) a of
        (a', None) \<Rightarrow> (a', None)
      | ((t', _), Some e) \<Rightarrow> ((t', snd a), Some e))"

record sandbox_build =
  sb_name :: string
  sb_build :: "(string \<times> string) option"

type_synonym manifest_reader = "string \<Rightarrow> sandbox_build list option"

definition is_local :: "string \<Rightarrow> bool" where
  "is_local p \<longleftrightarrow> p \<noteq> [] \<and> \<not> is_abs p \<and> clean_path p \<noteq> ''..'' \<and> \<not> prefix ''../'' (clean_path p)"

definition build_missing :: "tree \<Rightarrow> path \<Rightarrow> sandbox_build \<Rightarrow> bool" where
  "build_missing t dest sb =
     (case sb_build sb of
        None \<Rightarrow> False
      | Some (ctxt, file) \<Rightarrow>
          (let rel = join_path [ctxt, if file = [] then ''Dockerfile'' else file] in
           is_local rel \<and> \<not> is_file t (dest @ path_elems rel)))"

definition check_sandbox_builds :: "manifest_reader \<Rightarrow> disk \<Rightarrow> path \<Rightarrow> tree \<times> render_stats \<Rightarrow> rendering" where
  "check_sandbox_builds Y d dest a =
     (case read_file d (fst a) (dest @ [''plugin.yaml'']) of
        Bytes body \<Rightarrow>
          (case Y body of
             None \<Rightarrow> (a, None)
           | Some sbs \<Rightarrow>
               (case find (build_missing (fst a) dest) sbs of
                  None \<Rightarrow> (a, None)
                | Some sb \<Rightarrow> (a, Some (NoBuildSource (sb_name sb)))))
      | _ \<Rightarrow> (a, Some RenderFailed))"

definition render_readme :: "disk \<Rightarrow> tree \<Rightarrow> path \<Rightarrow> disk \<Rightarrow> path \<Rightarrow> tree \<times> render_stats \<Rightarrow> rendering" where
  "render_readme ds s src d dest a =
     (case copy_counted ds s (src @ [''README.md'']) d (dest @ [''README.md'']) one_file a of
        (a', Some (NotThere _)) \<Rightarrow> (a', None)
      | r \<Rightarrow> r)"

text \<open>One of the directories that ship, when the author's tree has it.\<close>

definition if_dir :: "tree \<Rightarrow> path \<Rightarrow> (tree \<times> render_stats \<Rightarrow> rendering) \<Rightarrow> tree \<times> render_stats \<Rightarrow> rendering" where
  "if_dir s p f a = (if node_at s p = Some Dir then f a else (a, None))"

definition render_body :: "manifest_reader \<Rightarrow> disk \<Rightarrow> tree \<Rightarrow> path \<Rightarrow> disk \<Rightarrow> path \<Rightarrow> tree \<Rightarrow> rendering" where
  "render_body Y ds s src d dest t =
     if_ok (copy_counted ds s (src @ [''plugin.yaml'']) d (dest @ [''plugin.yaml'']) one_file (t, no_stats))
     (\<lambda>a. if_ok (render_readme ds s src d dest a)
     (\<lambda>a. if_ok (if_dir s (src @ [''proto'']) (copy_verbatim ds s (src @ [''proto'']) d (dest @ [''proto''])) a)
     (\<lambda>a. if_ok (if_dir s (src @ [''src'']) (render_src ds s (src @ [''src'']) d (dest @ [''src''])) a)
     (\<lambda>a. if_ok (if_dir s (src @ [''sandboxes'']) (render_sandboxes ds s (src @ [''sandboxes'']) d (dest @ [''sandboxes''])) a)
     (\<lambda>a. if_ok (check_sandbox_builds Y d dest a)
     (\<lambda>(t', st). ((t', st\<lparr>rs_plugins := 1\<rparr>), None)))))))"

definition render_plugin :: "manifest_reader \<Rightarrow> disk \<Rightarrow> tree \<Rightarrow> path \<Rightarrow> disk \<Rightarrow> path \<Rightarrow> tree \<Rightarrow> rendering" where
  "render_plugin Y ds s src d dest t =
     (if \<not> exists_at s (src @ [''plugin.yaml'']) then ((t, no_stats), Some NotAPlugin)
      else case remove_all d dest t of
        (t1, False) \<Rightarrow> ((t1, no_stats), Some RenderFailed)
      | (t1, True) \<Rightarrow>
          (case mkdir_all d dest t1 of
             (t2, False) \<Rightarrow> ((t2, no_stats), Some RenderFailed)
           | (t2, True) \<Rightarrow> render_body Y ds s src d dest t2))"

section \<open>The whole registry\<close>

text \<open>\<^verbatim>\<open>refusePrivateDocRefs\<close>: the expression of \<^verbatim>\<open>privateDocRef\<close> is one of six literals.\<close>

definition private_doc_refs :: "string list" where
  "private_doc_refs = map (\<lambda>w. ''docs/'' @ w @ ''/'')
     [''todos'', ''decisions'', ''specs'', ''runbooks'', ''audit'', ''archive'']"

definition cites_private_docs :: "string \<Rightarrow> bool" where
  "cites_private_docs body \<longleftrightarrow> list_ex (\<lambda>line. list_ex (\<lambda>w. sublist w line) private_doc_refs) (split_on nl body)"

definition doc_ref_at :: "disk \<Rightarrow> tree \<Rightarrow> path \<Rightarrow> path list \<Rightarrow> path list \<times> render_error option" where
  "doc_ref_at d t p hits =
     (case node_at t p of
        Some Dir \<Rightarrow> (hits, if unlistable d t p then Some RenderFailed else None)
      | _ \<Rightarrow>
          (case read_file d t p of
             Bytes body \<Rightarrow> (if cites_private_docs body then hits @ [p] else hits, None)
           | _ \<Rightarrow> (hits, Some RenderFailed)))"

definition refuse_private_doc_refs :: "disk \<Rightarrow> path \<Rightarrow> tree \<Rightarrow> render_error option" where
  "refuse_private_doc_refs d root t =
     (case walk_paths (doc_ref_at d t) (walk_order t root) [] of
        (_, Some e) \<Rightarrow> Some e
      | (hits, None) \<Rightarrow> if hits = [] then None else Some CitesPrivateDocs)"

definition add_stats :: "render_stats \<Rightarrow> render_stats \<Rightarrow> render_stats" where
  "add_stats a b = \<lparr>rs_plugins = rs_plugins a + rs_plugins b, rs_files = rs_files a + rs_files b,
     rs_go = rs_go a + rs_go b, rs_tests = rs_tests a + rs_tests b\<rparr>"

text \<open>A missing note is an error as well.\<close>

definition copy_note :: "disk \<Rightarrow> tree \<Rightarrow> path \<Rightarrow> disk \<Rightarrow> path \<Rightarrow> path \<Rightarrow> tree \<times> render_stats \<Rightarrow> rendering" where
  "copy_note ds s dir d dest n a = copy_counted ds s (dir @ n) d (dest @ n) one_file a"

text \<open>\<^verbatim>\<open>os.ReadDir\<close> sorts the names.\<close>

definition dir_entries :: "tree \<Rightarrow> path \<Rightarrow> path list" where
  "dir_entries s dir = sort (filter (\<lambda>p. p \<noteq> [] \<and> butlast p = dir) (keys_of s))"

definition catalogue_entry :: "manifest_reader \<Rightarrow> disk \<Rightarrow> tree \<Rightarrow> disk \<Rightarrow> path \<Rightarrow> path \<Rightarrow> tree \<times> render_stats \<Rightarrow> rendering" where
  "catalogue_entry Y ds s d dest p a =
     (if node_at s p \<noteq> Some Dir \<or> \<not> exists_at s (p @ [''plugin.yaml'']) then (a, None)
      else case render_plugin Y ds s p d (dest @ [last p]) (fst a) of
        ((t', _), Some e) \<Rightarrow> ((t', snd a), Some e)
      | ((t', st), None) \<Rightarrow> ((t', add_stats (snd a) st), None))"

definition catalogue :: "manifest_reader \<Rightarrow> disk \<Rightarrow> tree \<Rightarrow> path \<Rightarrow> disk \<Rightarrow> path \<Rightarrow> path list \<Rightarrow> tree \<Rightarrow> rendering" where
  "catalogue Y ds s dir d dest notes t =
     (case remove_all d dest t of
        (t1, False) \<Rightarrow> ((t1, no_stats), Some RenderFailed)
      | (t1, True) \<Rightarrow>
          (case mkdir_all d dest t1 of
             (t2, False) \<Rightarrow> ((t2, no_stats), Some RenderFailed)
           | (t2, True) \<Rightarrow>
               if_ok (walk_paths (copy_note ds s dir d dest) notes (t2, no_stats))
               (\<lambda>a. if node_at s dir \<noteq> Some Dir \<or> unlistable ds s dir then (a, Some RenderFailed)
                    else if_ok (walk_paths (catalogue_entry Y ds s d dest) (dir_entries s dir) a)
                    (\<lambda>(t', st).
                       case refuse_private_doc_refs d dest t' of
                         Some e \<Rightarrow> ((t', st), Some e)
                       | None \<Rightarrow> ((t', st), if rs_plugins st = 0 then Some NoPluginFound else None)))))"

section \<open>The consumer's form\<close>

datatype unpack_error = UnpackFailed

definition is_published_test :: "string \<Rightarrow> bool" where
  "is_published_test n \<longleftrightarrow> suffix ''_test.go.src'' n \<or> suffix ''_test.go'' n"

text \<open>A file named \<^verbatim>\<open>.src\<close> would be renamed to the directory it is in.\<close>

definition bare_target :: "path \<Rightarrow> path" where
  "bare_target p = (let n = trim_suffix src_suffix (last p) in if n = [] then butlast p else butlast p @ [n])"

definition note_strip :: "disk \<Rightarrow> tree \<Rightarrow> path \<Rightarrow> path list \<times> path list \<Rightarrow> (path list \<times> path list) \<times> unpack_error option" where
  "note_strip d t p a =
     (if node_at t p = Some Dir then (a, if unlistable d t p then Some UnpackFailed else None)
      else if is_published_test (last p) then ((fst a @ [p], snd a), None)
      else if suffix src_suffix (last p) then ((fst a, snd a @ [p]), None)
      else (a, None))"

definition drop_file :: "disk \<Rightarrow> path \<Rightarrow> tree \<Rightarrow> tree \<times> unpack_error option" where
  "drop_file d p t = (case remove_one d p t of (t', ok) \<Rightarrow> (t', if ok then None else Some UnpackFailed))"

definition bare_file :: "disk \<Rightarrow> path \<Rightarrow> tree \<Rightarrow> tree \<times> unpack_error option" where
  "bare_file d p t = (case rename_file d p (bare_target p) t of (t', ok) \<Rightarrow> (t', if ok then None else Some UnpackFailed))"

definition strip_src_suffix :: "disk \<Rightarrow> path \<Rightarrow> tree \<Rightarrow> tree \<times> unpack_error option" where
  "strip_src_suffix d root t =
     (case walk_paths (note_strip d t) (walk_order t root) ([], []) of
        (_, Some e) \<Rightarrow> (t, Some e)
      | ((drops, renames), None) \<Rightarrow>
          if_ok (walk_paths (drop_file d) drops t) (walk_paths (bare_file d) renames))"

text \<open>The SDK's digest of a tree, and its removal of what the digest leaves out, are parameters.\<close>

record digester =
  dg_of :: "tree \<Rightarrow> path \<Rightarrow> string option"
  dg_prune :: "path \<Rightarrow> tree \<Rightarrow> tree \<times> bool"

definition unpack_digests :: "digester \<Rightarrow> disk \<Rightarrow> path \<Rightarrow> tree \<Rightarrow> tree \<times> (string \<times> string) option" where
  "unpack_digests G d dest t =
     (case dg_prune G dest t of
        (t1, False) \<Rightarrow> (t1, None)
      | (t1, True) \<Rightarrow>
          (case dg_of G t1 dest of
             None \<Rightarrow> (t1, None)
           | Some published \<Rightarrow>
               (case strip_src_suffix d dest t1 of
                  (t2, Some _) \<Rightarrow> (t2, None)
                | (t2, None) \<Rightarrow>
                    (case dg_of G t2 dest of
                       None \<Rightarrow> (t2, None)
                     | Some landed \<Rightarrow> (t2, Some (published, landed))))))"

text \<open>\<^verbatim>\<open>isAuthorTree\<close>: what cannot be listed counts as empty.\<close>

definition signature_file :: string where "signature_file = ''plugin.sig''"

definition live_go :: "tree \<Rightarrow> path \<Rightarrow> bool" where
  "live_go t p \<longleftrightarrow> node_at t p \<noteq> Some Dir \<and>
     ((is_go (last p) \<and> \<not> is_go_test (last p)) \<or> last p = ''go.mod'' \<or> last p = ''go.sum'')"

definition reachable_from :: "disk \<Rightarrow> tree \<Rightarrow> path \<Rightarrow> path \<Rightarrow> bool" where
  "reachable_from d t base p \<longleftrightarrow>
     list_all (\<lambda>q. \<not> (prefix base q \<and> q \<noteq> p \<and> unlistable d t q)) (prefixes p)"

definition is_author_tree :: "disk \<Rightarrow> tree \<Rightarrow> path \<Rightarrow> bool" where
  "is_author_tree d t dir \<longleftrightarrow>
     \<not> exists_at t (dir @ [signature_file]) \<and> exists_at t (dir @ [''src'']) \<and>
     list_ex (\<lambda>p. live_go t p \<and> reachable_from d t (dir @ [''src'']) p) (walk_order t (dir @ [''src'']))"

section \<open>What a tree holds\<close>

definition file_at :: "tree \<Rightarrow> path \<Rightarrow> string option" where
  "file_at t p = (case node_at t p of Some (File b) \<Rightarrow> Some b | _ \<Rightarrow> None)"

text \<open>The abstraction of everything below: what is in a directory, by relative path.\<close>

definition content :: "tree \<Rightarrow> path \<Rightarrow> path \<Rightarrow> string option" where
  "content t base r = file_at t (base @ r)"

lemma file_at_Some: "file_at t p = Some b \<longleftrightarrow> node_at t p = Some (File b)"
  by (auto simp: file_at_def split: option.splits node.splits)

lemma file_at_Dir [simp]: "node_at t p = Some Dir \<Longrightarrow> file_at t p = None"
  by (simp add: file_at_def)

lemma file_here: "node_at t p \<noteq> None \<Longrightarrow> node_at t p \<noteq> Some Dir \<Longrightarrow> \<exists>b. file_at t p = Some b"
  by (auto simp: file_at_def split: node.split)

lemma file_at_same: "node_at t' p = node_at t p \<Longrightarrow> file_at t' p = file_at t p"
  by (simp add: file_at_def)

lemma file_at_eqI: "(\<And>b. node_at t' p = Some (File b) \<longleftrightarrow> node_at t q = Some (File b)) \<Longrightarrow> file_at t' p = file_at t q"
  by (metis file_at_Some not_Some_eq)

lemma mkdir_all_files: "mkdir_all d p t = (t', ok) \<Longrightarrow> file_at t' = file_at t"
  by (rule ext, rule file_at_eqI) (rule grows_file [OF mkdir_all_grows])

lemma write_file_files: "write_file d p b t = (t', True) \<Longrightarrow> file_at t' = (file_at t)(p := Some b)"
  using write_file_ok [of d p b t t'] write_file_same_but [of d p b t t' True]
  by (auto simp: fun_eq_iff file_at_Some dest: same_butD intro: file_at_same)

lemma put_copy_files: "put_copy d q b t = (t', None) \<Longrightarrow> file_at t' = (file_at t)(q := Some b)"
  by (auto simp: put_copy_def split: prod.splits bool.splits if_splits dest!: mkdir_all_files write_file_files)

lemma put_copy_wf: "wf_tree t \<Longrightarrow> wf_tree (fst (put_copy d q b t))"
proof -
  assume w: "wf_tree t"
  obtain t1 ok where m: "mkdir_all d (butlast q) t = (t1, ok)" by fastforce
  obtain t2 ok' where f: "write_file d q b t1 = (t2, ok')" by fastforce
  have "wf_tree t1" using mkdir_all_wf [OF w, of d "butlast q"] by (simp add: m)
  with write_file_wf [OF this, of d q b] m f show ?thesis by (cases ok) (simp_all add: put_copy_def)
qed

lemma copy_file_files:
  assumes "copy_file ds s p d q t = (t', None)"
  obtains b where "file_at s p = Some b" and "file_at t' = (file_at t)(q := Some b)"
proof -
  from assms obtain b where r: "read_file ds s p = Bytes b" and c: "put_copy d q b t = (t', None)"
    by (auto simp: copy_file_def split: read.splits if_splits)
  from r have "file_at s p = Some b" by (auto simp: read_file_def file_at_def split: option.splits node.splits if_splits)
  with put_copy_files [OF c] show ?thesis by (intro that)
qed

lemma copy_file_wf: "wf_tree t \<Longrightarrow> wf_tree (fst (copy_file ds s p d q t))"
  using put_copy_wf by (auto simp: copy_file_def split: read.split)

lemma copy_counted_files:
  assumes "copy_counted ds s p d q tally a = (a', None)"
  obtains b where "file_at s p = Some b" and "file_at (fst a') = (file_at (fst a))(q := Some b)"
  using assms by (auto simp: copy_counted_def split: prod.splits option.splits elim: copy_file_files)

lemma copy_counted_missing:
  assumes "copy_counted ds s p d q tally a = (a', Some (NotThere p'))"
  shows "file_at s p = None" and "fst a' = fst a"
proof -
  have put: "snd (put_copy d q b t) \<noteq> Some (NotThere p')" for b t
    by (simp add: put_copy_def split: prod.split bool.split)
  from assms have c: "copy_file ds s p d q (fst a) = (fst a', Some (NotThere p'))"
    by (auto simp: copy_counted_def split: prod.splits option.splits)
  then show "file_at s p = None" and "fst a' = fst a" using put
    by (auto simp: copy_file_def read_file_def file_at_def split: read.splits option.splits node.splits if_splits dest: arg_cong [of _ _ snd])
qed

section \<open>Walks that copy\<close>

text \<open>What files a series of copies leaves: each source at its target, everything else as it was.\<close>

definition copies :: "tree \<Rightarrow> (path \<Rightarrow> path option) \<Rightarrow> path list \<Rightarrow> tree \<Rightarrow> tree \<Rightarrow> bool" where
  "copies s target ps t t' \<longleftrightarrow>
     (\<forall>q. (\<forall>p \<in> set ps. file_at s p \<noteq> None \<longrightarrow> target p \<noteq> Some q) \<longrightarrow> file_at t' q = file_at t q) \<and>
     (\<forall>p \<in> set ps. \<forall>b q. file_at s p = Some b \<longrightarrow> target p = Some q \<longrightarrow> file_at t' q = Some b)"

definition one_source :: "tree \<Rightarrow> (path \<Rightarrow> path option) \<Rightarrow> path set \<Rightarrow> bool" where
  "one_source s target P \<longleftrightarrow>
     (\<forall>p \<in> P. \<forall>p' \<in> P. \<forall>q. file_at s p \<noteq> None \<longrightarrow> file_at s p' \<noteq> None \<longrightarrow> target p = Some q \<longrightarrow> target p' = Some q \<longrightarrow> p = p')"

lemma copies_Nil: "copies s target [] t t' \<longleftrightarrow> file_at t' = file_at t"
  by (auto simp: copies_def fun_eq_iff)

lemma copies_append:
  assumes "copies s target ps t t1" and "copies s target ps' t1 t2" and "one_source s target (set ps \<union> set ps')"
  shows "copies s target (ps @ ps') t t2"
  unfolding copies_def
proof (intro conjI allI ballI impI)
  fix q assume n: "\<forall>p \<in> set (ps @ ps'). file_at s p \<noteq> None \<longrightarrow> target p \<noteq> Some q"
  have "file_at t2 q = file_at t1 q" using assms(2) n unfolding copies_def by auto
  also have "\<dots> = file_at t q" using assms(1) n unfolding copies_def by auto
  finally show "file_at t2 q = file_at t q" .
next
  fix p b q assume p: "p \<in> set (ps @ ps')" and b: "file_at s p = Some b" and q: "target p = Some q"
  show "file_at t2 q = Some b"
  proof (cases "p \<in> set ps'")
    case True
    then show ?thesis using assms(2) b q unfolding copies_def by blast
  next
    case False
    with p have p: "p \<in> set ps" by simp
    have "target p' \<noteq> Some q" if "p' \<in> set ps'" "file_at s p' \<noteq> None" for p'
      using assms(3) p that b q False unfolding one_source_def by (metis UnI1 UnI2 option.distinct(1))
    then have "file_at t2 q = file_at t1 q" using assms(2) unfolding copies_def by blast
    also have "\<dots> = Some b" using assms(1) p b q unfolding copies_def by blast
    finally show ?thesis .
  qed
qed

lemma one_source_mono: "one_source s target P \<Longrightarrow> Q \<subseteq> P \<Longrightarrow> one_source s target Q"
  unfolding one_source_def by blast

lemma walk_visited: "walk_paths f ps a = (a', None) \<Longrightarrow> p \<in> set ps \<Longrightarrow> \<exists>x y. f p x = (y, None)"
  by (induction ps arbitrary: a) (auto split: prod.splits option.splits)

text \<open>The contract of a function that a walk calls: on the paths of its scope it copies one file to its target or
  changes no file.\<close>

locale copying =
  fixes visit :: "path \<Rightarrow> tree \<times> 'st \<Rightarrow> (tree \<times> 'st) \<times> 'e option"
    and s :: tree and target :: "path \<Rightarrow> path option" and scope :: "path set"
  assumes visit_copies: "p \<in> scope \<Longrightarrow> visit p a = (a', None) \<Longrightarrow> copies s target [p] (fst a) (fst a')"
begin

lemma walk_copies:
  "walk_paths visit ps a = (a', None) \<Longrightarrow> set ps \<subseteq> scope \<Longrightarrow> one_source s target (set ps) \<Longrightarrow>
   copies s target ps (fst a) (fst a')"
proof (induction ps arbitrary: a)
  case (Cons p ps)
  from Cons.prems(1) obtain a1 where v: "visit p a = (a1, None)" and w: "walk_paths visit ps a1 = (a', None)"
    by (auto split: prod.splits option.splits)
  have "copies s target [p] (fst a) (fst a1)" using Cons.prems(2) visit_copies [OF _ v] by simp
  moreover have "one_source s target (set ps)" by (rule one_source_mono [OF Cons.prems(3)]) auto
  then have "copies s target ps (fst a1) (fst a')" using Cons.IH [OF w] Cons.prems(2) by simp
  ultimately have "copies s target ([p] @ ps) (fst a) (fst a')"
    by (rule copies_append) (use Cons.prems(3) in simp)
  then show ?case by simp
qed (simp add: copies_Nil)

end

section \<open>What a render publishes\<close>

text \<open>Where a file of the author's tree goes, in relative paths; the published form is what this map makes of it.\<close>

definition published_under_src :: "path \<Rightarrow> path option" where
  "published_under_src rel =
     (if rel = [] \<or> skipped rel then None
      else let n = last rel in
        if n \<in> set verbatim_under_src then Some rel
        else if n \<in> set suffixed_under_src \<or> is_go n then Some (inert rel)
        else None)"

definition published_sandbox :: "path \<Rightarrow> path option" where
  "published_sandbox rel =
     (if rel = [] then None
      else if is_go (last rel) \<or> last rel \<in> set suffixed_under_src then Some (inert rel) else Some rel)"

definition published_name :: "path \<Rightarrow> path option" where
  "published_name p =
     (case p of
        [] \<Rightarrow> None
      | h # rel \<Rightarrow>
          if h = ''plugin.yaml'' \<or> h = ''README.md'' then (if rel = [] then Some p else None)
          else if h = ''proto'' then (if rel = [] then None else Some p)
          else if h = ''src'' then map_option ((#) ''src'') (published_under_src rel)
          else if h = ''sandboxes'' then map_option ((#) ''sandboxes'') (published_sandbox rel)
          else None)"

text \<open>The files a render refuses.\<close>

definition refused_file :: "path \<Rightarrow> bool" where
  "refused_file p \<longleftrightarrow>
     (case p of
        [] \<Rightarrow> False
      | h # rel \<Rightarrow>
          (h = ''src'' \<and> rel \<noteq> [] \<and> \<not> skipped rel \<and> published_already (last rel)) \<or>
          (h = ''sandboxes'' \<and> rel \<noteq> [] \<and> suffix src_suffix (last rel)))"

lemma last_inert [simp]: "last (inert p) = last p @ src_suffix" and butlast_inert [simp]: "butlast (inert p) = butlast p"
  and inert_ne [simp]: "inert p \<noteq> []"
  by (simp_all add: inert_def)

lemma inert_inj: "inert p = inert p' \<Longrightarrow> p \<noteq> [] \<Longrightarrow> p' \<noteq> [] \<Longrightarrow> p = p'"
  by (metis append_butlast_last_id butlast_inert last_inert append_same_eq)

lemma inert_other: "inert p = p' \<Longrightarrow> suffix src_suffix (last p')"
  by (auto simp: suffix_def)

lemma published_under_src_inj:
  assumes "published_under_src r = Some q" and "published_under_src r' = Some q"
  shows "r = r'"
proof -
  have v: "\<not> suffix src_suffix n" if "n \<in> set verbatim_under_src" for n
    using that by (auto simp: verbatim_under_src_def src_suffix_def suffix_def)
  show ?thesis using assms v inert_other [of r r'] inert_other [of r' r] inert_inj [of r r']
    by (auto simp: published_under_src_def Let_def split: if_splits)
qed

lemma published_sandbox_inj:
  assumes "published_sandbox r = Some q" and "published_sandbox r' = Some q"
    and "\<not> suffix src_suffix (last r)" and "\<not> suffix src_suffix (last r')"
  shows "r = r'"
  using assms inert_other [of r r'] inert_other [of r' r] inert_inj [of r r']
  by (auto simp: published_sandbox_def split: if_splits)

lemma published_name_inj:
  assumes "published_name p = Some q" and "published_name p' = Some q" and "\<not> refused_file p" and "\<not> refused_file p'"
  shows "p = p'"
proof -
  obtain h r h' r' where p: "p = h # r" and p': "p' = h' # r'"
    using assms(1,2) by (auto simp: published_name_def split: list.splits)
  have hd: "published_name (h # r) = Some q \<Longrightarrow> hd q = h" for h r q
    by (auto simp: published_name_def split: if_splits)
  have h: "h' = h" using hd [of h r q] hd [of h' r' q] assms(1,2) by (simp add: p p')
  have ne: "r \<noteq> []" if "h \<in> {''src'', ''sandboxes''}" "published_name (h # r) = Some q" for r
    using that by (auto simp: published_name_def published_under_src_def published_sandbox_def)
  show ?thesis using assms published_under_src_inj [of r _ r'] published_sandbox_inj [of r _ r'] ne [of r] ne [of r']
    by (auto simp: p p' h published_name_def refused_file_def split: if_splits)
qed

text \<open>The same in the trees the render reads and writes.\<close>

definition ship_target :: "path \<Rightarrow> path \<Rightarrow> path \<Rightarrow> path option" where
  "ship_target src dest p =
     (if prefix src p then map_option ((@) dest) (published_name (drop (length src) p)) else None)"

definition below_dir :: "tree \<Rightarrow> path \<Rightarrow> path set" where
  "below_dir s base = {p. prefix base p \<and> (p = base \<longrightarrow> node_at s p = Some Dir)}"

lemma ship_target_at [simp]: "ship_target src dest (src @ rel) = map_option ((@) dest) (published_name rel)"
  by (simp add: ship_target_def)

lemma copies_one:
  "file_at s p = Some b \<Longrightarrow> target p = Some q \<Longrightarrow> file_at t' = (file_at t)(q := Some b) \<Longrightarrow> copies s target [p] t t'"
  by (simp add: copies_def)

lemma copies_none: "file_at s p = None \<or> target p = None \<Longrightarrow> file_at t' = file_at t \<Longrightarrow> copies s target [p] t t'"
  by (auto simp: copies_def)

lemma copy_counted_copies:
  "copy_counted ds s p d q tally a = (a', None) \<Longrightarrow> target p = Some q \<Longrightarrow> copies s target [p] (fst a) (fst a')"
  by (erule copy_counted_files) (rule copies_one)

lemma below_dirE:
  assumes "p \<in> below_dir s (src @ [h])"
  obtains rel where "p = src @ h # rel" and "rel = [] \<Longrightarrow> node_at s p = Some Dir"
  using assms by (auto simp: below_dir_def prefix_def)

lemma drop_base [simp]: "drop (length src) (src @ rel) = rel"
  by simp

interpretation src_render: copying "render_src_at ds s (src @ [''src'']) d (dest @ [''src''])" s
    "ship_target src dest" "below_dir s (src @ [''src''])" for ds s src d dest
proof
  fix p a a'
  assume p: "p \<in> below_dir s (src @ [''src''])" and v: "render_src_at ds s (src @ [''src'']) d (dest @ [''src'']) p a = (a', None)"
  from p obtain rel where rel: "p = src @ ''src'' # rel" and root: "rel = [] \<Longrightarrow> node_at s p = Some Dir"
    by (rule below_dirE) blast
  have d: "drop (length (src @ [''src''])) p = rel" by (simp add: rel)
  have target: "ship_target src dest p = map_option (\<lambda>r. dest @ ''src'' # r) (published_under_src rel)"
    by (simp add: rel published_name_def option.map_comp comp_def)
  consider (none) "a' = a" "file_at s p = None \<or> published_under_src rel = None"
    | (shipped) q tally where "rel \<noteq> []" "published_under_src rel = Some q" "copy_counted ds s p d ((dest @ [''src'']) @ q) tally a = (a', None)"
    using v root unfolding render_src_at_def published_under_src_def Let_def d
    by (fastforce simp: rel split: if_splits)
  then show "copies s (ship_target src dest) [p] (fst a) (fst a')"
  proof cases
    case none
    then show ?thesis by (intro copies_none) (auto simp: target)
  next
    case shipped
    then show ?thesis by (intro copy_counted_copies [OF shipped(3)]) (simp add: target)
  qed
qed

interpretation sandbox_render: copying "render_sandbox_at ds s (src @ [''sandboxes'']) d (dest @ [''sandboxes''])" s
    "ship_target src dest" "below_dir s (src @ [''sandboxes''])" for ds s src d dest
proof
  fix p a a'
  assume p: "p \<in> below_dir s (src @ [''sandboxes''])"
    and v: "render_sandbox_at ds s (src @ [''sandboxes'']) d (dest @ [''sandboxes'']) p a = (a', None)"
  from p obtain rel where rel: "p = src @ ''sandboxes'' # rel" and root: "rel = [] \<Longrightarrow> node_at s p = Some Dir"
    by (rule below_dirE) blast
  have d: "drop (length (src @ [''sandboxes''])) p = rel" by (simp add: rel)
  have target: "ship_target src dest p = map_option (\<lambda>r. dest @ ''sandboxes'' # r) (published_sandbox rel)"
    by (simp add: rel published_name_def option.map_comp comp_def)
  consider (none) "a' = a" "file_at s p = None"
    | (shipped) q tally st where "rel \<noteq> []" "published_sandbox rel = Some q"
        "copy_counted ds s p d ((dest @ [''sandboxes'']) @ q) tally (fst a, st) = (a', None)"
    using v root unfolding render_sandbox_at_def published_sandbox_def Let_def d
    by (cases a) (fastforce simp: rel split: if_splits)
  then show "copies s (ship_target src dest) [p] (fst a) (fst a')"
  proof cases
    case none
    then show ?thesis by (intro copies_none) auto
  next
    case (shipped q tally st)
    have "copies s (ship_target src dest) [p] (fst (fst a, st)) (fst a')"
      by (rule copy_counted_copies [OF shipped(3)]) (simp add: target shipped(2))
    then show ?thesis by simp
  qed
qed

interpretation proto_copy: copying "copy_verbatim_at ds s (src @ [''proto'']) d (dest @ [''proto''])" s
    "ship_target src dest" "below_dir s (src @ [''proto''])" for ds s src d dest
proof
  fix p a a'
  assume p: "p \<in> below_dir s (src @ [''proto''])" and v: "copy_verbatim_at ds s (src @ [''proto'']) d (dest @ [''proto'']) p a = (a', None)"
  from p obtain rel where rel: "p = src @ ''proto'' # rel" and root: "rel = [] \<Longrightarrow> node_at s p = Some Dir"
    by (rule below_dirE) blast
  have d: "drop (length (src @ [''proto''])) p = rel" by (simp add: rel)
  show "copies s (ship_target src dest) [p] (fst a) (fst a')"
  proof (cases "node_at s p = Some Dir")
    case True
    with v have "a' = a" by (auto simp: copy_verbatim_at_def split: if_splits)
    with True show ?thesis by (intro copies_none) auto
  next
    case False
    with root have ne: "rel \<noteq> []" by blast
    from v False have c: "copy_counted ds s p d ((dest @ [''proto'']) @ rel) one_file a = (a', None)"
      by (simp add: copy_verbatim_at_def d del: length_append)
    show ?thesis by (rule copy_counted_copies [OF c]) (simp add: rel published_name_def ne)
  qed
qed

lemma if_ok_None: "if_ok r f = (a', None) \<longleftrightarrow> (\<exists>a. r = (a, None) \<and> f a = (a', None))"
  by (auto simp: if_ok_def split: prod.splits option.splits)

definition walked :: "tree \<Rightarrow> path \<Rightarrow> path list" where
  "walked s base = (if node_at s base = Some Dir then walk_order s base else [])"

lemma walked_scope: "set (walked s base) \<subseteq> below_dir s base"
  by (auto simp: walked_def below_dir_def walk_order_mem)

lemma walked_file:
  assumes w: "wf_tree s" and f: "file_at s (base @ rel) \<noteq> None" and n: "rel \<noteq> []"
  shows "base @ rel \<in> set (walked s base)"
proof -
  have node: "node_at s (base @ rel) \<noteq> None" using f by (auto simp: file_at_def split: option.splits)
  have sp: "strict_prefix base (base @ rel)" using n by (simp add: strict_prefix_def)
  have "node_at s base = Some Dir" by (rule wf_tree_ancestor [OF w node sp])
  moreover have "base @ rel \<in> fst ` set s" using node node_at_keys [of "base @ rel" s] n by simp
  ultimately show ?thesis using sp by (simp add: walked_def walk_order_mem)
qed

text \<open>A render that succeeds, stage by stage.\<close>

lemma render_stages:
  assumes "render_body Y ds s src d dest t = ((t', st), None)"
  obtains a1 a2 a3 a4 a5 where
    "copy_counted ds s (src @ [''plugin.yaml'']) d (dest @ [''plugin.yaml'']) one_file (t, no_stats) = (a1, None)"
    and "render_readme ds s src d dest a1 = (a2, None)"
    and "walk_paths (copy_verbatim_at ds s (src @ [''proto'']) d (dest @ [''proto''])) (walked s (src @ [''proto''])) a2 = (a3, None)"
    and "walk_paths (render_src_at ds s (src @ [''src'']) d (dest @ [''src''])) (walked s (src @ [''src''])) a3 = (a4, None)"
    and "walk_paths (render_sandbox_at ds s (src @ [''sandboxes'']) d (dest @ [''sandboxes''])) (walked s (src @ [''sandboxes''])) a4 = (a5, None)"
    and "check_sandbox_builds Y d dest a5 = (a5, None)" and "t' = fst a5"
proof -
  have proto: "walk_paths (copy_verbatim_at ds s base d q) (walked s base) a = (a', None)"
    if "if_dir s base (copy_verbatim ds s base d q) a = (a', None)" for base q a a'
    using that by (auto simp: if_dir_def walked_def copy_verbatim_def split: if_splits prod.splits option.splits)
  have srcs: "walk_paths (render_src_at ds s base d q) (walked s base) a = (a', None)"
    if "if_dir s base (render_src ds s base d q) a = (a', None)" for base q a a'
    using that by (auto simp: if_dir_def walked_def render_src_def split: if_splits)
  have boxes: "walk_paths (render_sandbox_at ds s base d q) (walked s base) a = (a', None)"
    if "if_dir s base (render_sandboxes ds s base d q) a = (a', None)" for base q a a'
    using that by (auto simp: if_dir_def walked_def render_sandboxes_def split: if_splits)
  have chk: "a' = a \<and> check_sandbox_builds Y d dest a = (a, None)" if "check_sandbox_builds Y d dest a = (a', None)" for a a'
    using that by (auto simp: check_sandbox_builds_def split: read.splits option.splits)
  from assms [unfolded render_body_def if_ok_None] obtain a1 a2 a3 a4 a5 a6 where
    1: "copy_counted ds s (src @ [''plugin.yaml'']) d (dest @ [''plugin.yaml'']) one_file (t, no_stats) = (a1, None)"
    and 2: "render_readme ds s src d dest a1 = (a2, None)"
    and 3: "if_dir s (src @ [''proto'']) (copy_verbatim ds s (src @ [''proto'']) d (dest @ [''proto''])) a2 = (a3, None)"
    and 4: "if_dir s (src @ [''src'']) (render_src ds s (src @ [''src'']) d (dest @ [''src''])) a3 = (a4, None)"
    and 5: "if_dir s (src @ [''sandboxes'']) (render_sandboxes ds s (src @ [''sandboxes'']) d (dest @ [''sandboxes''])) a4 = (a5, None)"
    and 6: "check_sandbox_builds Y d dest a5 = (a6, None)"
    and 7: "(case a6 of (t', st) \<Rightarrow> ((t', st\<lparr>rs_plugins := 1\<rparr>), None)) = ((t', st), None :: render_error option)"
    by blast
  have 8: "check_sandbox_builds Y d dest a5 = (a5, None)" using chk [OF 6] by blast
  have t': "t' = fst a5" using chk [OF 6] 7 by (cases a5) auto
  show ?thesis by (rule that [OF 1 2 proto [OF 3] srcs [OF 4] boxes [OF 5] 8 t'])
qed

definition renderable :: "tree \<Rightarrow> path \<Rightarrow> bool" where
  "renderable s src \<longleftrightarrow> (\<forall>p. content s src p \<noteq> None \<longrightarrow> \<not> refused_file p)"

lemma render_refuses:
  assumes w: "wf_tree s" and r: "render_body Y ds s src d dest t = ((t', st), None)"
  shows "renderable s src"
  unfolding renderable_def
proof (intro allI impI)
  fix p assume c: "content s src p \<noteq> None"
  from r obtain a3 a4 a5 where
    srcs: "walk_paths (render_src_at ds s (src @ [''src'']) d (dest @ [''src''])) (walked s (src @ [''src''])) a3 = (a4, None)"
    and boxes: "walk_paths (render_sandbox_at ds s (src @ [''sandboxes'']) d (dest @ [''sandboxes''])) (walked s (src @ [''sandboxes''])) a4 = (a5, None)"
    by (rule render_stages)
  have node: "node_at s (src @ p) \<noteq> Some Dir" using c by (auto simp: content_def)
  have 1: "\<not> published_already (last rel)" if "p = ''src'' # rel" "rel \<noteq> []" "\<not> skipped rel" for rel
  proof -
    have "(src @ [''src'']) @ rel \<in> set (walked s (src @ [''src'']))"
      by (rule walked_file [OF w]) (use c that in \<open>simp_all add: content_def\<close>)
    from walk_visited [OF srcs this] that node show ?thesis
      by (auto simp: render_src_at_def Let_def split: if_splits)
  qed
  have 2: "\<not> suffix src_suffix (last rel)" if "p = ''sandboxes'' # rel" "rel \<noteq> []" for rel
  proof -
    have "(src @ [''sandboxes'']) @ rel \<in> set (walked s (src @ [''sandboxes'']))"
      by (rule walked_file [OF w]) (use c that in \<open>simp_all add: content_def\<close>)
    from walk_visited [OF boxes this] that node show ?thesis
      by (auto simp: render_sandbox_at_def Let_def split: if_splits)
  qed
  show "\<not> refused_file p" using 1 2 by (auto simp: refused_file_def split: list.split)
qed

lemma render_body_copies:
  assumes w: "wf_tree s" and r: "render_body Y ds s src d dest t = ((t', st), None)"
  defines "ps \<equiv> [src @ [''plugin.yaml''], src @ [''README.md'']] @ walked s (src @ [''proto'']) @
    walked s (src @ [''src'']) @ walked s (src @ [''sandboxes''])"
  shows "copies s (ship_target src dest) ps t t'" and "one_source s (ship_target src dest) (set ps)"
proof -
  have at: "prefix src p" if "p \<in> set ps" for p
    using that walked_scope [of s "src @ [''proto'']"] walked_scope [of s "src @ [''src'']"]
      walked_scope [of s "src @ [''sandboxes'']"] by (auto simp: ps_def below_dir_def dest: append_prefixD)
  show one: "one_source s (ship_target src dest) (set ps)"
    unfolding one_source_def
  proof (intro ballI allI impI)
    fix p p' q assume m: "p \<in> set ps" "p' \<in> set ps" and f: "file_at s p \<noteq> None" "file_at s p' \<noteq> None"
      and q: "ship_target src dest p = Some q" "ship_target src dest p' = Some q"
    obtain rel rel' where p: "p = src @ rel" "p' = src @ rel'" using at [OF m(1)] at [OF m(2)] unfolding prefix_def by blast
    have "\<not> refused_file rel" "\<not> refused_file rel'"
      using render_refuses [OF w r] f by (auto simp: renderable_def content_def p)
    with published_name_inj q show "p = p'" by (auto simp: p)
  qed
  from r obtain a1 a2 a3 a4 a5 where
    1: "copy_counted ds s (src @ [''plugin.yaml'']) d (dest @ [''plugin.yaml'']) one_file (t, no_stats) = (a1, None)"
    and 2: "render_readme ds s src d dest a1 = (a2, None)"
    and 3: "walk_paths (copy_verbatim_at ds s (src @ [''proto'']) d (dest @ [''proto''])) (walked s (src @ [''proto''])) a2 = (a3, None)"
    and 4: "walk_paths (render_src_at ds s (src @ [''src'']) d (dest @ [''src''])) (walked s (src @ [''src''])) a3 = (a4, None)"
    and 5: "walk_paths (render_sandbox_at ds s (src @ [''sandboxes'']) d (dest @ [''sandboxes''])) (walked s (src @ [''sandboxes''])) a4 = (a5, None)"
    and t': "t' = fst a5" by (rule render_stages)
  let ?T = "ship_target src dest"
  have o: "one_source s ?T Q" if "Q \<subseteq> set ps" for Q by (rule one_source_mono [OF one that])
  have c1: "copies s ?T [src @ [''plugin.yaml'']] t (fst a1)"
    using copy_counted_copies [OF 1, of ?T] by (simp add: published_name_def)
  have c2: "copies s ?T [src @ [''README.md'']] (fst a1) (fst a2)"
  proof (cases "\<exists>p. copy_counted ds s (src @ [''README.md'']) d (dest @ [''README.md'']) one_file a1 = (a2, Some (NotThere p))")
    case True
    then obtain p where m: "copy_counted ds s (src @ [''README.md'']) d (dest @ [''README.md'']) one_file a1 = (a2, Some (NotThere p))" ..
    show ?thesis by (rule copies_none) (simp_all add: copy_counted_missing [OF m])
  next
    case False
    with 2 have "copy_counted ds s (src @ [''README.md'']) d (dest @ [''README.md'']) one_file a1 = (a2, None)"
      by (auto simp: render_readme_def split: prod.splits option.splits render_error.splits)
    from copy_counted_copies [OF this, of ?T] show ?thesis by (simp add: published_name_def)
  qed
  have c3: "copies s ?T (walked s (src @ [''proto''])) (fst a2) (fst a3)"
    by (rule proto_copy.walk_copies [OF 3 walked_scope]) (rule o, auto simp: ps_def)
  have c4: "copies s ?T (walked s (src @ [''src''])) (fst a3) (fst a4)"
    by (rule src_render.walk_copies [OF 4 walked_scope]) (rule o, auto simp: ps_def)
  have c5: "copies s ?T (walked s (src @ [''sandboxes''])) (fst a4) (fst a5)"
    by (rule sandbox_render.walk_copies [OF 5 walked_scope]) (rule o, auto simp: ps_def)
  have c45: "copies s ?T (walked s (src @ [''src'']) @ walked s (src @ [''sandboxes''])) (fst a3) t'"
    unfolding t' by (rule copies_append [OF c4 c5]) (rule o, auto simp: ps_def)
  have c345: "copies s ?T (walked s (src @ [''proto'']) @ walked s (src @ [''src'']) @ walked s (src @ [''sandboxes''])) (fst a2) t'"
    by (rule copies_append [OF c3 c45]) (rule o, auto simp: ps_def)
  have c12: "copies s ?T ([src @ [''plugin.yaml'']] @ [src @ [''README.md'']]) t (fst a2)"
    by (rule copies_append [OF c1 c2]) (rule o, auto simp: ps_def)
  have "copies s ?T (([src @ [''plugin.yaml'']] @ [src @ [''README.md'']]) @ walked s (src @ [''proto'']) @ walked s (src @ [''src'']) @ walked s (src @ [''sandboxes''])) t t'"
    by (rule copies_append [OF c12 c345]) (rule o, auto simp: ps_def)
  then show "copies s ?T ps t t'" by (simp add: ps_def)
qed

text \<open>Every file that ships is among them.\<close>

lemma shipped_listed:
  assumes w: "wf_tree s" and n: "published_name p = Some q" and f: "content s src p = Some b"
  shows "src @ p \<in> set ([src @ [''plugin.yaml''], src @ [''README.md'']] @ walked s (src @ [''proto'']) @
    walked s (src @ [''src'']) @ walked s (src @ [''sandboxes'']))"
proof -
  obtain h rel where p: "p = h # rel" using n by (auto simp: published_name_def split: list.splits)
  have at: "(src @ [h]) @ rel \<in> set (walked s (src @ [h]))" if "rel \<noteq> []"
    by (rule walked_file [OF w]) (use f that in \<open>simp_all add: content_def p\<close>)
  show ?thesis using n at
    by (auto simp: p published_name_def published_under_src_def published_sandbox_def split: if_splits)
qed

text \<open>The abstract render: what is published of what an author's tree holds.\<close>

definition publishes :: "(path \<Rightarrow> string option) \<Rightarrow> (path \<Rightarrow> string option) \<Rightarrow> bool" where
  "publishes author published \<longleftrightarrow>
     (\<forall>q b. published q = Some b \<longleftrightarrow> (\<exists>p. published_name p = Some q \<and> author p = Some b))"

lemma render_body_publishes:
  assumes w: "wf_tree s" and r: "render_body Y ds s src d dest t = ((t', st), None)" and e: "\<And>q. content t dest q = None"
  shows "publishes (content s src) (content t' dest)"
  unfolding publishes_def
proof (intro allI)
  fix q b
  note c = render_body_copies [OF w r]
  let ?ps = "[src @ [''plugin.yaml''], src @ [''README.md'']] @ walked s (src @ [''proto'']) @
    walked s (src @ [''src'']) @ walked s (src @ [''sandboxes''])"
  show "content t' dest q = Some b \<longleftrightarrow> (\<exists>p. published_name p = Some q \<and> content s src p = Some b)"
  proof
    assume "\<exists>p. published_name p = Some q \<and> content s src p = Some b"
    then obtain p where p: "published_name p = Some q" "content s src p = Some b" by blast
    have "ship_target src dest (src @ p) = Some (dest @ q)" by (simp add: p(1))
    with shipped_listed [OF w p] c(1) p(2) show "content t' dest q = Some b" unfolding copies_def content_def by blast
  next
    assume t: "content t' dest q = Some b"
    then have "file_at t' (dest @ q) \<noteq> file_at t (dest @ q)" using e [of q] by (simp add: content_def)
    with c(1) obtain p where p: "p \<in> set ?ps" "file_at s p \<noteq> None" "ship_target src dest p = Some (dest @ q)"
      unfolding copies_def by blast
    then obtain rel where rel: "p = src @ rel" by (auto simp: ship_target_def prefix_def split: if_splits)
    obtain b' where b': "file_at s p = Some b'" using p(2) by blast
    with c(1) p have "file_at t' (dest @ q) = Some b'" unfolding copies_def by blast
    with t b' p(3) rel show "\<exists>p. published_name p = Some q \<and> content s src p = Some b" by (auto simp: content_def)
  qed
qed

section \<open>What an unpack leaves\<close>

text \<open>Where a published file goes in a consumer's tree.\<close>

definition landed_name :: "path \<Rightarrow> path option" where
  "landed_name p =
     (if p = [] then None
      else if is_published_test (last p) then None
      else if suffix src_suffix (last p) then Some (bare_target p) else Some p)"

text \<open>No file stands where another is renamed to.\<close>

definition no_clash :: "tree \<Rightarrow> path \<Rightarrow> bool" where
  "no_clash t dest \<longleftrightarrow>
     (\<forall>p. content t dest p \<noteq> None \<longrightarrow> p \<noteq> [] \<longrightarrow> suffix src_suffix (last p) \<longrightarrow> \<not> is_published_test (last p) \<longrightarrow>
        content t dest (bare_target p) = None)"

lemma drop_file_ok: "drop_file d p t = (t', None) \<longleftrightarrow> remove_one d p t = (t', True)"
  and bare_file_ok: "bare_file d p t = (t', None) \<longleftrightarrow> rename_file d p (bare_target p) t = (t', True)"
  by (simp_all add: drop_file_def bare_file_def split: prod.split)

lemma walk_Cons_ok: "walk_paths f (p # ps) a = (a', None) \<longleftrightarrow> (\<exists>a1. f p a = (a1, None) \<and> walk_paths f ps a1 = (a', None))"
  by (simp split: prod.split option.split)

lemma drop_files: "walk_paths (drop_file d) ps t = (t', None) \<Longrightarrow> file_at t' q = (if q \<in> set ps then None else file_at t q)"
proof (induction ps arbitrary: t)
  case (Cons p ps)
  from Cons.prems obtain t1 where o: "remove_one d p t = (t1, True)" and w: "walk_paths (drop_file d) ps t1 = (t', None)"
    unfolding walk_Cons_ok drop_file_ok by blast
  have "file_at t1 q = (if q = p then None else file_at t q)"
    using remove_one_ok [OF o] remove_one_same_but [OF o] by (auto simp: file_at_def dest: same_butD)
  with Cons.IH [OF w] show ?case by auto
qed simp

lemma rename_files:
  assumes "rename_file d p q t = (t', True)"
  shows "file_at t p \<noteq> None" and "p \<noteq> q \<Longrightarrow> file_at t' = (file_at t)(p := None, q := file_at t p)"
proof -
  from assms obtain b where b: "node_at t p = Some (File b)" and t': "t' = put q (File b) (remove_key p t)" and q: "node_at t q \<noteq> Some Dir"
    by (auto simp: rename_file_def split: option.splits node.splits if_splits)
  have ne: "p \<noteq> []" "q \<noteq> []" using b q by auto
  show "file_at t p \<noteq> None" using b by (simp add: file_at_def)
  show "file_at t' = (file_at t)(p := None, q := file_at t p)" if "p \<noteq> q"
    using b ne that by (auto simp: fun_eq_iff t' file_at_def)
qed

lemma bare_target_other: "p \<noteq> [] \<Longrightarrow> suffix src_suffix (last p) \<Longrightarrow> bare_target p \<noteq> p"
proof -
  assume p: "p \<noteq> []" and s: "suffix src_suffix (last p)"
  then obtain x where x: "last p = x @ src_suffix" by (auto simp: suffix_def)
  have "trim_suffix src_suffix (last p) = x" using s by (simp add: trim_suffix_def x)
  moreover have "butlast p \<noteq> p" using p by (metis append_butlast_last_id append_self_conv not_Cons_self2)
  moreover have "butlast p @ [x] \<noteq> p" using x by (auto simp: src_suffix_def dest: arg_cong [of _ _ last])
  ultimately show ?thesis by (simp add: bare_target_def Let_def)
qed

text \<open>The renames of a list of published files whose targets are free.\<close>

lemma bare_files:
  assumes "walk_paths (bare_file d) ps t = (t', None)" and "distinct ps"
    and "\<And>p. p \<in> set ps \<Longrightarrow> p \<noteq> [] \<and> suffix src_suffix (last p)"
    and "\<And>p. p \<in> set ps \<Longrightarrow> file_at t (bare_target p) = None"
    and "inj_on bare_target (set ps)" and "bare_target ` set ps \<inter> set ps = {}"
  shows "(\<forall>p \<in> set ps. file_at t' (bare_target p) = file_at t p) \<and>
    (\<forall>q. q \<notin> bare_target ` set ps \<longrightarrow> file_at t' q = (if q \<in> set ps then None else file_at t q))"
  using assms
proof (induction ps arbitrary: t)
  case (Cons p ps)
  from Cons.prems(1) obtain t1 where o: "rename_file d p (bare_target p) t = (t1, True)"
    and w: "walk_paths (bare_file d) ps t1 = (t', None)"
    unfolding walk_Cons_ok bare_file_ok by blast
  have ne: "p \<noteq> bare_target p" using Cons.prems(3) [of p] bare_target_other [of p] by auto
  note t1 = rename_files(2) [OF o ne]
  have free: "bare_target q \<noteq> p" "bare_target q \<noteq> bare_target p" if "q \<in> set ps" for q
    using Cons.prems(2,5,6) that by (auto simp: inj_on_def)
  have own: "bare_target p \<notin> set ps" using Cons.prems(6) by auto
  have ih: "(\<forall>q \<in> set ps. file_at t' (bare_target q) = file_at t1 q) \<and>
    (\<forall>q. q \<notin> bare_target ` set ps \<longrightarrow> file_at t' q = (if q \<in> set ps then None else file_at t1 q))"
  proof (rule Cons.IH [OF w])
    show "distinct ps" using Cons.prems(2) by simp
    show "inj_on bare_target (set ps)" by (rule inj_on_subset [OF Cons.prems(5)]) auto
    show "bare_target ` set ps \<inter> set ps = {}" using Cons.prems(6) by auto
    show "q \<noteq> [] \<and> suffix src_suffix (last q)" if "q \<in> set ps" for q using Cons.prems(3) [of q] that by simp
    show "file_at t1 (bare_target q) = None" if "q \<in> set ps" for q
      using Cons.prems(4) [of q] free [OF that] that by (simp add: t1)
  qed
  have p: "p \<notin> set ps" "p \<notin> bare_target ` set ps" "bare_target p \<notin> bare_target ` set ps"
    using Cons.prems(2) free by (simp, blast, metis imageE)
  have "file_at t' (bare_target q) = file_at t q" if "q \<in> set (p # ps)" for q
  proof (cases "q = p")
    case True
    with ih p own show ?thesis by (simp add: t1)
  next
    case False
    with that have q: "q \<in> set ps" by simp
    with own have "q \<noteq> bare_target p" by auto
    with ih q False show ?thesis by (simp add: t1)
  qed
  moreover have "file_at t' q = (if q \<in> set (p # ps) then None else file_at t q)" if "q \<notin> bare_target ` set (p # ps)" for q
    using that ih p by (auto simp: t1)
  ultimately show ?case by blast
qed simp

text \<open>What the first pass notes: the tests, and the suffixed files that are not tests.\<close>

lemma note_strip_walk:
  "walk_paths (note_strip d t) ps (ds, rs) = (a', None) \<Longrightarrow>
   a' = (ds @ filter (\<lambda>p. node_at t p \<noteq> Some Dir \<and> is_published_test (last p)) ps,
         rs @ filter (\<lambda>p. node_at t p \<noteq> Some Dir \<and> \<not> is_published_test (last p) \<and> suffix src_suffix (last p)) ps)"
proof (induction ps arbitrary: ds rs)
  case (Cons p ps)
  from Cons.prems obtain ds1 rs1 where v: "note_strip d t p (ds, rs) = ((ds1, rs1), None)"
    and w: "walk_paths (note_strip d t) ps (ds1, rs1) = (a', None)"
    unfolding walk_Cons_ok by auto
  from v Cons.IH [OF w] show ?case by (auto simp: note_strip_def split: if_splits)
qed simp

lemma bare_target_inj:
  assumes "suffix src_suffix (last p)" "suffix src_suffix (last q)" and ne: "p \<noteq> []" "q \<noteq> []"
    and plain: "last p \<noteq> src_suffix" "last q \<noteq> src_suffix" and e: "bare_target p = bare_target q"
  shows "p = q"
proof -
  obtain x y where x: "last p = x @ src_suffix" "last q = y @ src_suffix" using assms(1,2) by (auto simp: suffix_def)
  then have t: "trim_suffix src_suffix (last p) = x" "trim_suffix src_suffix (last q) = y"
    by (simp_all add: trim_suffix_def suffix_def)
  have "x \<noteq> []" "y \<noteq> []" using x plain by auto
  with e t have "butlast p = butlast q \<and> x = y" by (simp add: bare_target_def)
  with x ne show ?thesis by (metis append_butlast_last_id)
qed

text \<open>A file named just \<^verbatim>\<open>.src\<close> makes the unpack fail.\<close>

lemma bare_file_plain:
  assumes w: "wf_tree t" and "rename_file d p (bare_target p) t = (t', True)" and "p \<noteq> []"
  shows "last p \<noteq> src_suffix"
proof
  assume l: "last p = src_suffix"
  have f: "node_at t p \<noteq> None" using assms(2) by (auto simp: rename_file_def split: option.splits)
  have "trim_suffix src_suffix src_suffix = []" by (simp add: trim_suffix_def)
  then have "bare_target p = butlast p" by (simp add: bare_target_def l)
  moreover have "node_at t (butlast p) = Some Dir" by (rule wf_tree_parent [OF w f])
  ultimately show False using assms(2) by (auto simp: rename_file_def split: option.splits node.splits)
qed

lemma drop_walk_wf: "walk_paths (drop_file d) ps t = (t', e) \<Longrightarrow> wf_tree t \<Longrightarrow> wf_tree t'"
proof (induction ps arbitrary: t)
  case (Cons p ps)
  obtain t1 e1 where o: "drop_file d p t = (t1, e1)" by fastforce
  have "wf_tree t1" using remove_one_wf [OF Cons.prems(2), of d p] o by (auto simp: drop_file_def split: prod.splits)
  with Cons o show ?case by (cases e1) auto
qed simp

lemma bare_walk_wf: "walk_paths (bare_file d) ps t = (t', e) \<Longrightarrow> wf_tree t \<Longrightarrow> wf_tree t'"
proof (induction ps arbitrary: t)
  case (Cons p ps)
  obtain t1 e1 where o: "bare_file d p t = (t1, e1)" by fastforce
  have "wf_tree t1" using rename_file_wf [OF Cons.prems(2), of d p "bare_target p"] o
    by (auto simp: bare_file_def split: prod.splits)
  with Cons o show ?case by (cases e1) auto
qed simp

lemma bare_walk_plain:
  "walk_paths (bare_file d) ps t = (t', None) \<Longrightarrow> wf_tree t \<Longrightarrow> p \<in> set ps \<Longrightarrow> p \<noteq> [] \<Longrightarrow> last p \<noteq> src_suffix"
proof (induction ps arbitrary: t)
  case (Cons q ps)
  from Cons.prems(1) obtain t1 where o: "rename_file d q (bare_target q) t = (t1, True)"
    and w: "walk_paths (bare_file d) ps t1 = (t', None)"
    unfolding walk_Cons_ok bare_file_ok by blast
  have "wf_tree t1" using rename_file_wf [OF Cons.prems(2), of d q "bare_target q"] by (simp add: o)
  with Cons.IH [OF w] Cons.prems(2-4) bare_file_plain [OF _ o] show ?case by auto
qed simp

text \<open>Every file below a directory is visited by the walk.\<close>

lemma walk_order_file:
  assumes w: "wf_tree t" and "content t dest r \<noteq> None" and "r \<noteq> []"
  shows "dest @ r \<in> set (walk_order t dest)"
  using walked_file [OF w, of dest r] assms(2,3) by (auto simp: content_def walked_def split: if_splits)

lemma bare_target_below: "r \<noteq> [] \<Longrightarrow> bare_target (dest @ r) = dest @ bare_target r"
  by (simp add: bare_target_def Let_def butlast_append)

text \<open>The two lists of the first pass, and what the second makes of them.\<close>

lemma strip_moves:
  assumes w: "wf_tree t" and st: "strip_src_suffix d dest t = (t', None)" and c: "no_clash t dest" and dd: "node_at t dest = Some Dir"
  obtains drops rens where
    "\<And>p. p \<in> drops \<union> rens \<Longrightarrow> \<exists>x. p = dest @ x \<and> x \<noteq> []"
    and "\<And>p. p \<in> rens \<Longrightarrow> suffix src_suffix (last p) \<and> \<not> is_published_test (last p)"
    and "\<And>x. content t dest x \<noteq> None \<Longrightarrow> x \<noteq> [] \<Longrightarrow> dest @ x \<in> rens \<longleftrightarrow> suffix src_suffix (last x) \<and> \<not> is_published_test (last x)"
    and "\<And>x. content t dest x \<noteq> None \<Longrightarrow> x \<noteq> [] \<Longrightarrow> dest @ x \<in> drops \<longleftrightarrow> is_published_test (last x)"
    and "\<And>p. p \<in> rens \<Longrightarrow> file_at t (bare_target p) = None \<and> file_at t' (bare_target p) = file_at t p"
    and "\<And>p. p \<notin> bare_target ` rens \<Longrightarrow> file_at t' p = (if p \<in> rens \<or> p \<in> drops then None else file_at t p)"
proof -
  define drops where "drops = filter (\<lambda>p. node_at t p \<noteq> Some Dir \<and> is_published_test (last p)) (walk_order t dest)"
  define rens where "rens = filter (\<lambda>p. node_at t p \<noteq> Some Dir \<and> \<not> is_published_test (last p) \<and> suffix src_suffix (last p)) (walk_order t dest)"
  from st obtain dr where n: "walk_paths (note_strip d t) (walk_order t dest) ([], []) = (dr, None)"
    and rest: "(case dr of (ds, rs) \<Rightarrow> if_ok (walk_paths (drop_file d) ds t) (walk_paths (bare_file d) rs)) = (t', None)"
    by (auto simp: strip_src_suffix_def split: prod.splits option.splits)
  have "dr = (drops, rens)" using note_strip_walk [OF n] by (simp add: drops_def rens_def)
  with rest obtain t1 where d: "walk_paths (drop_file d) drops t = (t1, None)" and r: "walk_paths (bare_file d) rens t1 = (t', None)"
    by (auto simp: if_ok_None)
  have w1: "wf_tree t1" by (rule drop_walk_wf [OF d w])
  have below: "\<exists>r. p = dest @ r \<and> r \<noteq> []" if "p \<in> set drops \<union> set rens" for p
    using that dd by (auto simp: drops_def rens_def walk_order_mem strict_prefix_def prefix_def)
  have ren: "p \<noteq> [] \<and> suffix src_suffix (last p) \<and> \<not> is_published_test (last p)" if "p \<in> set rens" for p
    using that below [of p] by (auto simp: rens_def)
  have plain: "last p \<noteq> src_suffix" if "p \<in> set rens" for p
    by (rule bare_walk_plain [OF r w1 that]) (use ren [OF that] in blast)
  have t1: "file_at t1 p = (if p \<in> set drops then None else file_at t p)" for p by (rule drop_files [OF d])
  have present: "file_at t p \<noteq> None" if "p \<in> set rens" for p
  proof -
    from below [of p] that obtain x where x: "p = dest @ x" "x \<noteq> []" by blast
    with that have "p \<in> fst ` set t" "node_at t p \<noteq> Some Dir" by (auto simp: rens_def walk_order_mem strict_prefix_def)
    then show ?thesis using node_at_listed [of p t] by (auto simp: file_at_def split: node.splits)
  qed
  have free: "file_at t (bare_target p) = None" if "p \<in> set rens" for p
  proof -
    from below [of p] that obtain x where x: "p = dest @ x" "x \<noteq> []" by blast
    with c present [OF that] ren [OF that] show ?thesis by (simp add: no_clash_def content_def bare_target_below)
  qed
  have inj: "inj_on bare_target (set rens)"
    by (rule inj_onI, rule bare_target_inj) (use ren plain in auto)
  have apart: "bare_target ` set rens \<inter> set rens = {}" using present free by fastforce
  have wf: "wf_map t" using w by (rule wf_tree_map)
  have dis: "distinct rens" using walk_order_distinct [OF wf, of dest] by (simp add: rens_def)
  have f1: "file_at t1 (bare_target p) = None" if "p \<in> set rens" for p using free [OF that] by (simp add: t1)
  have suf: "p \<noteq> [] \<and> suffix src_suffix (last p)" if "p \<in> set rens" for p using ren [OF that] by blast
  note moved = bare_files [OF r dis suf f1 inj apart]
  have notdrop: "p \<notin> set drops" if "p \<in> set rens" for p using that by (auto simp: rens_def drops_def)
  have at: "file_at t' (bare_target p) = file_at t p" if "p \<in> set rens" for p
    using moved that notdrop [OF that] by (simp add: t1)
  have other: "file_at t' p = (if p \<in> set rens \<or> p \<in> set drops then None else file_at t p)" if "p \<notin> bare_target ` set rens" for p
    using moved that by (simp add: t1)
  have kind: "dest @ x \<in> set rens \<longleftrightarrow> suffix src_suffix (last x) \<and> \<not> is_published_test (last x)"
    "dest @ x \<in> set drops \<longleftrightarrow> is_published_test (last x)" if "content t dest x \<noteq> None" "x \<noteq> []" for x
    using walk_order_file [OF w that] that by (auto simp: rens_def drops_def content_def)
  show ?thesis
    by (rule that [of "set drops" "set rens"]) (use below ren kind free at other in auto)
qed

lemma strip_content:
  assumes "wf_tree t" and "strip_src_suffix d dest t = (t', None)" and "no_clash t dest" and dd: "node_at t dest = Some Dir"
  shows "content t' dest q = Some b \<longleftrightarrow> (\<exists>p. landed_name p = Some q \<and> content t dest p = Some b)"
    and "\<not> prefix dest p0 \<Longrightarrow> file_at t' p0 = file_at t p0"
proof -
  from assms obtain drops rens where below: "\<And>p. p \<in> drops \<union> rens \<Longrightarrow> \<exists>x. p = dest @ x \<and> x \<noteq> []"
    and ren: "\<And>p. p \<in> rens \<Longrightarrow> suffix src_suffix (last p) \<and> \<not> is_published_test (last p)"
    and kind: "\<And>x. content t dest x \<noteq> None \<Longrightarrow> x \<noteq> [] \<Longrightarrow> dest @ x \<in> rens \<longleftrightarrow> suffix src_suffix (last x) \<and> \<not> is_published_test (last x)"
      "\<And>x. content t dest x \<noteq> None \<Longrightarrow> x \<noteq> [] \<Longrightarrow> dest @ x \<in> drops \<longleftrightarrow> is_published_test (last x)"
    and at: "\<And>p. p \<in> rens \<Longrightarrow> file_at t (bare_target p) = None \<and> file_at t' (bare_target p) = file_at t p"
    and other: "\<And>p. p \<notin> bare_target ` rens \<Longrightarrow> file_at t' p = (if p \<in> rens \<or> p \<in> drops then None else file_at t p)"
    by (rule strip_moves) blast
  show "content t' dest q = Some b \<longleftrightarrow> (\<exists>p. landed_name p = Some q \<and> content t dest p = Some b)"
  proof
    assume q: "content t' dest q = Some b"
    show "\<exists>p. landed_name p = Some q \<and> content t dest p = Some b"
    proof (cases "dest @ q \<in> bare_target ` rens")
      case True
      then obtain p x where p: "p \<in> rens" "dest @ q = bare_target p" and x: "p = dest @ x" "x \<noteq> []" using below by blast
      then have "bare_target x = q" by (simp add: bare_target_below)
      moreover have "content t dest x = Some b" using at [OF p(1)] p(2) q by (simp add: content_def x)
      ultimately show ?thesis using ren [OF p(1)] x by (intro exI [of _ x]) (simp add: landed_name_def)
    next
      case False
      have "content t dest q = Some b" and k: "dest @ q \<notin> rens" "dest @ q \<notin> drops"
        using other [OF False] q by (auto simp: content_def split: if_splits)
      moreover from this have "q \<noteq> []" using dd by (auto simp: content_def)
      ultimately show ?thesis using kind [of q] by (intro exI [of _ q]) (auto simp: landed_name_def)
    qed
  next
    assume "\<exists>p. landed_name p = Some q \<and> content t dest p = Some b"
    then obtain p where l: "landed_name p = Some q" and p: "content t dest p = Some b" by blast
    have ne: "p \<noteq> []" using l by (auto simp: landed_name_def)
    show "content t' dest q = Some b"
    proof (cases "suffix src_suffix (last p)")
      case True
      with l ne have q: "q = bare_target p" "\<not> is_published_test (last p)" by (auto simp: landed_name_def split: if_splits)
      with kind [of p] p ne True have "dest @ p \<in> rens" by simp
      from at [OF this] show ?thesis using p by (simp add: content_def q bare_target_below ne)
    next
      case False
      with l ne have q: "q = p" "\<not> is_published_test (last p)" by (auto simp: landed_name_def split: if_splits)
      have "dest @ p \<notin> bare_target ` rens" using at p by (auto simp: content_def)
      from other [OF this] kind [of p] p ne False q show ?thesis by (simp add: content_def)
    qed
  qed
  show "file_at t' p0 = file_at t p0" if "\<not> prefix dest p0"
  proof -
    have "p0 \<notin> rens \<union> drops" using below [of p0] that by auto
    moreover have "p0 \<notin> bare_target ` rens"
    proof
      assume "p0 \<in> bare_target ` rens"
      then obtain p x where "p = dest @ x" "x \<noteq> []" "p0 = bare_target p" using below by blast
      with that show False by (simp add: bare_target_below)
    qed
    ultimately show ?thesis using other [of p0] by simp
  qed
qed

section \<open>The render as a whole\<close>

lemma walk_keeps:
  assumes "\<And>p a. P a \<Longrightarrow> P (fst (f p a))" and "P a"
  shows "P (fst (walk_paths f ps a))"
  using assms(2)
proof (induction ps arbitrary: a)
  case (Cons p ps)
  obtain a1 e where f: "f p a = (a1, e)" by fastforce
  have "P a1" using assms(1) [OF Cons.prems, of p] by (simp add: f)
  with Cons.IH f show ?case by (cases e) auto
qed simp

lemma if_ok_keeps: "P (fst r) \<Longrightarrow> (\<And>a. P a \<Longrightarrow> P (fst (f a))) \<Longrightarrow> P (fst (if_ok r f))"
  by (cases r) (auto simp: if_ok_def split: option.split)

lemma copy_counted_wf: "wf_tree (fst a) \<Longrightarrow> wf_tree (fst (fst (copy_counted ds s p d q tally a)))"
  using copy_file_wf [of "fst a" ds s p d q] by (auto simp: copy_counted_def split: prod.split option.split)

lemma render_visits_wf:
  assumes "wf_tree (fst a)"
  shows "wf_tree (fst (fst (copy_verbatim_at ds s base d q p a)))" "wf_tree (fst (fst (render_src_at ds s base d q p a)))"
    "wf_tree (fst (fst (render_sandbox_at ds s base d q p a)))"
  using assms copy_counted_wf [of a] copy_counted_wf [of "(fst a, st)" for st]
  by (simp_all add: copy_verbatim_at_def render_src_at_def render_sandbox_at_def Let_def)

lemma render_body_wf:
  assumes w: "wf_tree t"
  shows "wf_tree (fst (fst (render_body Y ds s src d dest t)))"
proof -
  let ?P = "\<lambda>a :: tree \<times> render_stats. wf_tree (fst a)"
  have walk: "?P (fst (walk_paths (copy_verbatim_at ds s base d q) ps a))" "?P (fst (walk_paths (render_src_at ds s base d q) ps a))"
    "?P (fst (walk_paths (render_sandbox_at ds s base d q) ps a))" if "?P a" for base q ps a
    by (rule walk_keeps [of ?P, OF _ that], simp add: render_visits_wf)+
  have readme: "?P (fst (render_readme ds s src d dest a))" if "?P a" for a
    using copy_counted_wf [OF that] by (auto simp: render_readme_def split: prod.splits option.splits render_error.splits) (metis fst_conv)+
  have verb: "?P (fst (copy_verbatim ds s base d q a))" if "?P a" for base q a
    using walk(1) [OF that] by (auto simp: copy_verbatim_def split: prod.splits option.splits) (metis fst_conv)+
  have chk: "?P (fst (check_sandbox_builds Y d dest a))" if "?P a" for a
    using that by (auto simp: check_sandbox_builds_def split: read.split option.split)
  have dir: "?P (fst (if_dir s p f a))" if "?P a" "?P (fst (f a))" for p f a
    using that by (simp add: if_dir_def)
  show ?thesis unfolding render_body_def
    by (intro if_ok_keeps [of ?P] copy_counted_wf readme dir verb chk)
      (use w walk(2,3) in \<open>auto simp: render_src_def render_sandboxes_def\<close>)
qed

lemma render_plugin_wf: "wf_tree t \<Longrightarrow> wf_tree (fst (fst (render_plugin Y ds s src d dest t)))"
proof -
  assume w: "wf_tree t"
  obtain t1 ok1 where r: "remove_all d dest t = (t1, ok1)" by fastforce
  obtain t2 ok2 where m: "mkdir_all d dest t1 = (t2, ok2)" by fastforce
  have "wf_tree t1" using remove_all_wf [OF w, of d dest] by (simp add: r)
  moreover from this have "wf_tree t2" using mkdir_all_wf [of t1 d dest] by (simp add: m)
  ultimately show ?thesis using w render_body_wf [of t2] by (cases ok1; cases ok2) (simp_all add: render_plugin_def r m)
qed

lemma render_starts:
  assumes "render_plugin Y ds s src d dest t = ((t', st), None)"
  obtains t2 where "render_body Y ds s src d dest t2 = ((t', st), None)" and "\<And>q. content t2 dest q = None"
    and "\<And>p. \<not> prefix dest p \<Longrightarrow> file_at t2 p = file_at t p" and "node_at t2 dest = Some Dir"
proof -
  from assms obtain t1 t2 where r: "remove_all d dest t = (t1, True)" and m: "mkdir_all d dest t1 = (t2, True)"
    and b: "render_body Y ds s src d dest t2 = ((t', st), None)"
    by (auto simp: render_plugin_def split: if_splits prod.splits bool.splits)
  have f: "file_at t2 = file_at t1" by (rule mkdir_all_files [OF m])
  show ?thesis
  proof (rule that [OF b])
    show "content t2 dest q = None" for q
      using remove_all_ok [OF r, of "dest @ q"] by (cases "dest @ q = []") (simp_all add: content_def f file_at_def)
    show "file_at t2 p = file_at t p" if "\<not> prefix dest p" for p
      using remove_all_same_but [OF r] that unfolding f by (intro file_at_same) (auto dest: same_butD)
    show "node_at t2 dest = Some Dir" by (rule mkdir_all_ok [OF m])
  qed
qed

lemma render_plugin_files:
  assumes "wf_tree s" and "render_plugin Y ds s src d dest t = ((t', st), None)"
  shows "publishes (content s src) (content t' dest) \<and> (\<forall>p. \<not> prefix dest p \<longrightarrow> file_at t' p = file_at t p)"
proof -
  from assms(2) obtain t2 where b: "render_body Y ds s src d dest t2 = ((t', st), None)" and e: "\<And>q. content t2 dest q = None"
    and o: "\<And>p. \<not> prefix dest p \<Longrightarrow> file_at t2 p = file_at t p" by (rule render_starts) blast
  have "file_at t' p = file_at t2 p" if "\<not> prefix dest p" for p
  proof -
    have "ship_target src dest x \<noteq> Some p" for x using that by (auto simp: ship_target_def)
    then show ?thesis using render_body_copies(1) [OF assms(1) b] unfolding copies_def by blast
  qed
  with o render_body_publishes [OF assms(1) b e] show ?thesis by simp
qed

lemma render_plugin_refuses:
  assumes "wf_tree s" and r: "render_plugin Y ds s src d dest t = ((t', st), None)"
  shows "renderable s src"
  using r by (rule render_starts) (rule render_refuses [OF assms(1)])

section \<open>There and back\<close>

definition plain_proto :: "path \<Rightarrow> bool" where
  "plain_proto p \<longleftrightarrow> (p \<noteq> [] \<and> hd p = ''proto'' \<longrightarrow> \<not> suffix src_suffix (last p))"

definition plain_protos :: "tree \<Rightarrow> path \<Rightarrow> bool" where
  "plain_protos s src \<longleftrightarrow> (\<forall>p. content s src p \<noteq> None \<longrightarrow> plain_proto p)"

lemma suffix_chars: "suffix x n \<Longrightarrow> suffix y n \<Longrightarrow> length y \<le> length x \<Longrightarrow> suffix y x"
  using suffix_length_suffix by blast

lemma ground_suffixes:
  "\<not> suffix ''.go'' ''.src''" "\<not> suffix ''.src'' ''_test.go''" "suffix ''.src'' ''_test.go.src''" "suffix ''.go'' ''_test.go''"
  by code_simp+

lemma go_not_src: "is_go n \<Longrightarrow> \<not> suffix src_suffix n"
  using suffix_chars [of "''.src''" n "''.go''"] ground_suffixes(1) by (auto simp: is_go_def src_suffix_def)

lemma module_not_src: "n \<in> set suffixed_under_src \<union> set verbatim_under_src \<union> {''plugin.yaml'', ''README.md''} \<Longrightarrow> \<not> suffix src_suffix n"
  by (auto simp: suffixed_under_src_def verbatim_under_src_def src_suffix_def suffix_def)

lemma test_is_go: "is_go_test n \<Longrightarrow> is_go n"
  unfolding is_go_test_def is_go_def by (rule suffix_order.trans [OF ground_suffixes(4)])

lemma published_test_iff: "is_published_test (n @ src_suffix) \<longleftrightarrow> is_go_test n"
  "\<not> suffix src_suffix n \<Longrightarrow> is_published_test n \<longleftrightarrow> is_go_test n"
proof -
  have src: "suffix ''.src'' (n @ ''.src'')" by (simp add: suffix_def)
  have "\<not> suffix ''_test.go'' (n @ src_suffix)"
    using suffix_chars [of "''_test.go''" "n @ ''.src''" "''.src''"] src ground_suffixes(2) by (auto simp: src_suffix_def)
  moreover have "suffix (''_test.go'' @ src_suffix) (n @ src_suffix) \<longleftrightarrow> suffix ''_test.go'' n" by (auto simp: suffix_def)
  ultimately show "is_published_test (n @ src_suffix) \<longleftrightarrow> is_go_test n"
    by (simp add: is_published_test_def is_go_test_def src_suffix_def)
  have "suffix src_suffix n" if "suffix ''_test.go.src'' n"
    unfolding src_suffix_def by (rule suffix_order.trans [OF ground_suffixes(3) that])
  then show "\<not> suffix src_suffix n \<Longrightarrow> is_published_test n \<longleftrightarrow> is_go_test n"
    by (auto simp: is_published_test_def is_go_test_def)
qed

text \<open>The name a published file has, as one of two.\<close>

lemma published_name_cases:
  assumes n: "published_name p = Some q" and r: "\<not> refused_file p"
    and c: "plain_proto p"
  obtains "q = p" "p \<noteq> []" "\<not> suffix src_suffix (last p)" | "q = inert p" "p \<noteq> []" "last p \<noteq> []" "\<not> suffix src_suffix (last p)"
proof -
  obtain h rel where p: "p = h # rel" using n by (auto simp: published_name_def split: list.splits)
  have ne: "last rel \<noteq> []" if "is_go (last rel) \<or> last rel \<in> set suffixed_under_src"
    using that by (auto simp: is_go_def suffixed_under_src_def)
  have go: "\<not> suffix src_suffix (last rel)" if "is_go (last rel) \<or> last rel \<in> set suffixed_under_src"
    using that go_not_src module_not_src by auto
  let ?two = "(q = p \<or> q = inert p \<and> last p \<noteq> []) \<and> \<not> suffix src_suffix (last p)"
  have ?two if "h = ''plugin.yaml'' \<or> h = ''README.md''"
    using that n module_not_src [of h] by (auto simp: p published_name_def split: if_splits)
  moreover have ?two if "h = ''proto''"
    using that n c by (simp add: p plain_proto_def published_name_def split: if_splits)
  moreover have ?two if h: "h = ''src''"
  proof -
    obtain u where u: "published_under_src rel = Some u" "q = ''src'' # u" using n by (auto simp: h p published_name_def)
    from u(1) have rel: "rel \<noteq> []" and "u = rel \<and> \<not> suffix src_suffix (last rel) \<or> u = inert rel \<and> (is_go (last rel) \<or> last rel \<in> set suffixed_under_src)"
      using module_not_src [of "last rel"] by (auto simp: published_under_src_def Let_def split: if_splits)
    with go ne show ?thesis by (auto simp: p h u(2) inert_def)
  qed
  moreover have ?two if h: "h = ''sandboxes''"
  proof -
    obtain u where u: "published_sandbox rel = Some u" "q = ''sandboxes'' # u" using n by (auto simp: h p published_name_def)
    from u(1) have rel: "rel \<noteq> []" and two: "u = rel \<or> u = inert rel \<and> (is_go (last rel) \<or> last rel \<in> set suffixed_under_src)"
      by (auto simp: published_sandbox_def split: if_splits)
    have "\<not> suffix src_suffix (last rel)" using r rel by (simp add: p h refused_file_def)
    with two ne rel show ?thesis by (auto simp: p h u(2) inert_def)
  qed
  ultimately have ?two using n by (auto simp: p published_name_def split: if_splits)
  with that p show ?thesis by blast
qed

lemma landed_of_published:
  assumes "published_name p = Some q" and "\<not> refused_file p" and "plain_proto p"
  shows "landed_name q = (if is_go_test (last p) then None else Some p)"
  using assms
proof (rule published_name_cases)
  assume "q = p" "p \<noteq> []" "\<not> suffix src_suffix (last p)"
  then show ?thesis by (simp add: landed_name_def published_test_iff)
next
  assume q: "q = inert p" and ne: "p \<noteq> []" "last p \<noteq> []"
  have "trim_suffix src_suffix (last p @ src_suffix) = last p" by (simp add: trim_suffix_def suffix_def)
  then have "bare_target q = p" using ne by (simp add: bare_target_def q)
  then show ?thesis by (simp add: landed_name_def q published_test_iff suffix_def)
qed

text \<open>C10: a render that succeeds publishes exactly what ships: the manifest and README, \<^verbatim>\<open>proto\<close> as it is, the Go
  of \<^verbatim>\<open>src\<close> except \<^verbatim>\<open>gen\<close> and all of \<^verbatim>\<open>sandboxes\<close>, with Go files and module files made inert, every file with
  the author's bytes and nothing else; it changes no file outside its destination.\<close>

theorem a_render_publishes_exactly_what_ships:
  assumes "wf_tree s" and "render_plugin Y ds s src d dest t = ((t', st), None)"
  shows "publishes (content s src) (content t' dest) \<and> (\<forall>p. \<not> prefix dest p \<longrightarrow> file_at t' p = file_at t p)"
  by (rule render_plugin_files [OF assms])

definition sample_author :: tree where
  "sample_author =
     [([''p''], Dir), ([''p'', ''plugin.yaml''], File ''name: p''), ([''p'', ''proto''], Dir), ([''p'', ''proto'', ''a.proto''], File ''m''),
      ([''p'', ''src''], Dir), ([''p'', ''src'', ''a.go''], File ''go''), ([''p'', ''src'', ''a_test.go''], File ''t''),
      ([''p'', ''src'', ''gen''], Dir), ([''p'', ''src'', ''gen'', ''g.go''], File ''pb''), ([''p'', ''src'', ''notes''], File ''n'')]"

definition sample_release :: tree where
  "sample_release =
     [([''out''], Dir), ([''out'', ''plugin.yaml''], File ''name: p''), ([''out'', ''proto''], Dir), ([''out'', ''proto'', ''a.proto''], File ''m''),
      ([''out'', ''src''], Dir), ([''out'', ''src'', ''a.go.src''], File ''go''), ([''out'', ''src'', ''a_test.go.src''], File ''t'')]"

definition sample_stats :: render_stats where
  "sample_stats = \<lparr>rs_plugins = 1, rs_files = 4, rs_go = 2, rs_tests = 1\<rparr>"

lemma sample_author_wf: "wf_tree sample_author"
  by code_simp

lemma sample_render:
  "render_plugin (\<lambda>_. None) healthy_disk sample_author [''p''] healthy_disk [''out''] [] = ((sample_release, sample_stats), None)"
  by code_simp

theorem a_render_publishes_exactly_what_ships_witness:
  "publishes (content sample_author [''p'']) (content sample_release [''out'']) \<and>
   content sample_release [''out''] [''src'', ''a.go.src''] = Some ''go''"
proof -
  have "content sample_release [''out''] [''src'', ''a.go.src''] = Some ''go''" by code_simp
  with a_render_publishes_exactly_what_ships [OF sample_author_wf sample_render] show ?thesis by simp
qed

lemma published_from:
  assumes w: "wf_tree s" and r: "render_plugin Y ds s src d dest t = ((t', st), None)" and pp: "plain_protos s src"
    and q: "content t' dest q = Some b"
  obtains p where "published_name p = Some q" and "content s src p = Some b" and "\<not> refused_file p" and "plain_proto p"
proof -
  from render_plugin_files [OF w r] q obtain p where p: "published_name p = Some q" "content s src p = Some b"
    unfolding publishes_def by blast
  have "\<not> refused_file p" using render_plugin_refuses [OF w r] p(2) by (simp add: renderable_def)
  moreover have "plain_proto p" using pp p(2) unfolding plain_protos_def by blast
  ultimately show ?thesis using p that by blast
qed

lemma rendered_manifest:
  assumes "wf_tree s" and r: "render_plugin Y ds s src d dest t = ((t', st), None)"
  shows "\<exists>b. content t' dest [''plugin.yaml''] = Some b"
proof -
  from r obtain t2 where "render_body Y ds s src d dest t2 = ((t', st), None)" by (rule render_starts)
  then obtain a1 where "copy_counted ds s (src @ [''plugin.yaml'']) d (dest @ [''plugin.yaml'']) one_file (t2, no_stats) = (a1, None)"
    by (rule render_stages)
  then obtain b where "file_at s (src @ [''plugin.yaml'']) = Some b" by (rule copy_counted_files)
  moreover have "published_name [''plugin.yaml''] = Some [''plugin.yaml'']" by (simp add: published_name_def)
  ultimately show ?thesis
    using render_plugin_files [OF assms(1) r] unfolding publishes_def content_def by blast
qed

lemma content_dir:
  assumes "wf_tree t" and "content t dest [x] \<noteq> None"
  shows "node_at t dest = Some Dir"
proof -
  have "node_at t (dest @ [x]) \<noteq> None" using assms(2) by (auto simp: content_def file_at_def split: option.splits)
  from wf_tree_ancestor [OF assms(1) this, of dest] show ?thesis by (simp add: strict_prefix_def)
qed

lemma rendered_dest:
  assumes "wf_tree s" "wf_tree t" and r: "render_plugin Y ds s src d dest t = ((t', st), None)"
  shows "node_at t' dest = Some Dir"
proof (rule content_dir)
  show "wf_tree t'" using render_plugin_wf [OF assms(2), of Y ds s src d dest] by (simp add: r)
  show "content t' dest [''plugin.yaml''] \<noteq> None" using rendered_manifest [OF assms(1) r] by auto
qed

lemma rendered_no_clash:
  assumes w: "wf_tree s" and r: "render_plugin Y ds s src d dest t = ((t', st), None)" and pp: "plain_protos s src"
  shows "no_clash t' dest"
  unfolding no_clash_def
proof (intro allI impI)
  fix q assume "content t' dest q \<noteq> None" and sq: "suffix src_suffix (last q)" and nt: "\<not> is_published_test (last q)" "q \<noteq> []"
  then obtain b where q: "content t' dest q = Some b" by blast
  obtain p where p: "published_name p = Some q" "\<not> refused_file p" "plain_proto p"
    using published_from [OF w r pp q] by metis
  have "landed_name q = Some (bare_target q)" using sq nt by (simp add: landed_name_def)
  with landed_of_published [OF p] have bt: "bare_target q = p" by (simp split: if_splits)
  have i: "q = inert p" "p \<noteq> []" using published_name_cases [OF p] sq by blast+
  have ns: "\<not> suffix src_suffix (last p)" by (rule published_name_cases [OF p])
  show "content t' dest (bare_target q) = None"
  proof (rule ccontr)
    assume "content t' dest (bare_target q) \<noteq> None"
    then obtain b' where "content t' dest p = Some b'" by (auto simp: bt)
    from published_from [OF w r pp this] obtain p2 where p2: "published_name p2 = Some p" "\<not> refused_file p2" "plain_proto p2" by metis
    have "p2 = p" using published_name_cases [OF p2] ns inert_other [of p2 p] by metis
    with p2(1) p(1) i show False by (metis inert_other ns option.inject)
  qed
qed

text \<open>C11: the render and the unpack are inverses over everything but the tests: what a consumer has after the unpack
  of a published tree is the author's own file at every path that ships, except the tests, with the author's bytes, and
  no other file, as long as no file below \<^verbatim>\<open>proto\<close> is named with the suffix itself.\<close>

theorem unpacking_a_render_gives_the_author_back:
  assumes w: "wf_tree s" "wf_tree t" and r: "render_plugin Y ds s src d dest t = ((t', st), None)"
    and pp: "plain_protos s src" and u: "strip_src_suffix d' dest t' = (t'', None)"
  shows "content t'' dest p = (if published_name p \<noteq> None \<and> \<not> is_go_test (last p) then content s src p else None)"
proof -
  have w': "wf_tree t'" using render_plugin_wf [OF w(2), of Y ds s src d dest] by (simp add: r)
  note strip = strip_content(1) [OF w' u rendered_no_clash [OF w(1) r pp] rendered_dest [OF w r]]
  have "content t'' dest p = Some b \<longleftrightarrow> published_name p \<noteq> None \<and> \<not> is_go_test (last p) \<and> content s src p = Some b" for b
  proof
    assume "content t'' dest p = Some b"
    then obtain q where q: "landed_name q = Some p" "content t' dest q = Some b" using strip by blast
    from published_from [OF w(1) r pp q(2)] obtain p2 where p2: "published_name p2 = Some q" "\<not> refused_file p2" "plain_proto p2" and c: "content s src p2 = Some b" by metis
    from landed_of_published [OF p2] q(1) have "p2 = p \<and> \<not> is_go_test (last p)" by (simp split: if_splits)
    with c p2(1) show "published_name p \<noteq> None \<and> \<not> is_go_test (last p) \<and> content s src p = Some b" by simp
  next
    assume p: "published_name p \<noteq> None \<and> \<not> is_go_test (last p) \<and> content s src p = Some b"
    then obtain q where n: "published_name p = Some q" by blast
    with p render_plugin_files [OF w(1) r] have q: "content t' dest q = Some b" unfolding publishes_def by blast
    have "\<not> refused_file p" using render_plugin_refuses [OF w(1) r] p by (simp add: renderable_def)
    then have "landed_name q = Some p" using landed_of_published [OF n] pp p unfolding plain_protos_def by auto
    with q strip show "content t'' dest p = Some b" by blast
  qed
  then show ?thesis by (metis not_Some_eq)
qed

definition sample_consumer :: tree where
  "sample_consumer =
     [([''out''], Dir), ([''out'', ''plugin.yaml''], File ''name: p''), ([''out'', ''proto''], Dir), ([''out'', ''proto'', ''a.proto''], File ''m''),
      ([''out'', ''src''], Dir), ([''out'', ''src'', ''a.go''], File ''go'')]"

theorem unpacking_a_render_gives_the_author_back_witness:
  "content sample_consumer [''out''] [''src'', ''a.go''] = content sample_author [''p''] [''src'', ''a.go''] \<and>
   content sample_consumer [''out''] [''src'', ''a.go''] = Some ''go''"
proof -
  have u: "strip_src_suffix healthy_disk [''out''] sample_release = (sample_consumer, None)" by code_simp
  have "plain_protos sample_author [''p'']"
  proof -
    have listed: "content t base p \<noteq> None \<Longrightarrow> base @ p \<in> set (keys_of t)" for t base p
      using map_of_in_keys [of t "base @ p"] by (auto simp: content_def file_at_def node_at_def split: option.splits if_splits)
    have "list_all (\<lambda>p. plain_proto (drop 1 p)) (keys_of sample_author)" by code_simp
    then show ?thesis using listed [of sample_author "[''p'']"] by (fastforce simp: plain_protos_def list_all_iff)
  qed
  from unpacking_a_render_gives_the_author_back [OF sample_author_wf _ sample_render this u, of "[''src'', ''a.go'']"]
  have "content sample_consumer [''out''] [''src'', ''a.go''] = content sample_author [''p''] [''src'', ''a.go'']"
    by (simp add: wf_tree_def published_name_def published_under_src_def skipped_def skip_under_src_def is_go_def is_go_test_def
        verbatim_under_src_def suffixed_under_src_def suffix_def)
  moreover have "content sample_consumer [''out''] [''src'', ''a.go''] = Some ''go''" by code_simp
  ultimately show ?thesis by blast
qed

section \<open>No second render\<close>

lemma published_not_author:
  assumes "publishes c (content t' dest)"
  shows "\<not> is_author_tree d' t' dest"
proof
  assume "is_author_tree d' t' dest"
  then obtain p where p: "p \<in> set (walk_order t' (dest @ [''src'']))" and live: "live_go t' p" and "exists_at t' (dest @ [''src''])"
    by (auto simp: is_author_tree_def list_ex_iff)
  then have "node_at t' p \<noteq> None" using node_at_listed [of p t'] by (auto simp: walk_order_mem exists_at_def)
  moreover obtain rel where rel: "p = dest @ ''src'' # rel" using p by (auto simp: walk_order_mem strict_prefix_def prefix_def)
  ultimately obtain b where "content t' dest (''src'' # rel) = Some b"
    using live file_here [of t' p] by (auto simp: live_go_def content_def)
  with assms obtain q where n: "published_name q = Some (''src'' # rel)" unfolding publishes_def by blast
  then obtain x where "published_under_src x = Some rel"
    by (auto simp: published_name_def split: list.splits if_splits)
  then have "rel \<noteq> [] \<and> (last rel \<in> set verbatim_under_src \<or> suffix src_suffix (last rel))"
    by (auto simp: published_under_src_def Let_def suffix_def split: if_splits)
  then show False using live go_not_src [of "last rel"] module_not_src [of "last rel"]
    by (auto simp: rel live_go_def is_go_def suffixed_under_src_def verbatim_under_src_def suffix_def)
qed

text \<open>A tree that was rendered is never taken for an author's tree, whatever the disk, so installing a published
  tree does not render it again; and a render of it that is asked for all the same is refused when the plugin has Go of
  its own, instead of publishing a plugin without its code.\<close>

theorem a_published_tree_is_never_rendered_again:
  assumes w: "wf_tree s" "wf_tree t" and r: "render_plugin Y ds s src d dest t = ((t', st), None)"
  shows "\<not> is_author_tree d' t' dest \<and>
    (\<forall>rel. content s src (''src'' # rel) \<noteq> None \<and> published_name (''src'' # rel) \<noteq> None \<and> is_go (last rel) \<longrightarrow>
       snd (render_plugin Y' d' t' dest d'' dest' u) \<noteq> None)"
proof (intro conjI allI impI)
  have w': "wf_tree t'" using render_plugin_wf [OF w(2), of Y ds s src d dest] by (simp add: r)
  note pub = render_plugin_files [OF w(1) r]
  show "\<not> is_author_tree d' t' dest" by (rule published_not_author) (use pub in blast)
  fix rel assume f: "content s src (''src'' # rel) \<noteq> None \<and> published_name (''src'' # rel) \<noteq> None \<and> is_go (last rel)"
  then obtain b x where b: "content s src (''src'' # rel) = Some b" and x: "published_under_src rel = Some x"
    by (auto simp: published_name_def)
  have go: "x = inert rel" "\<not> skipped rel" "rel \<noteq> []"
    using x f by (auto simp: published_under_src_def Let_def verbatim_under_src_def is_go_def suffix_def split: if_splits)
  have n: "published_name (''src'' # rel) = Some (''src'' # inert rel)" using x go by (simp add: published_name_def)
  then have c: "content t' dest (''src'' # inert rel) = Some b" using pub b unfolding publishes_def by blast
  have "\<not> skipped (inert rel)"
  proof (cases "butlast rel = []")
    case True
    then show ?thesis by (auto simp: skipped_def inert_def skip_under_src_def src_suffix_def)
  next
    case False
    then show ?thesis using go by (auto simp: skipped_def inert_def) (metis append_butlast_last_id hd_append2)
  qed
  then have "refused_file (''src'' # inert rel)"
    using f by (auto simp: refused_file_def published_already_def is_go_def src_suffix_def suffix_def)
  with c have "\<not> renderable t' dest" unfolding renderable_def by blast
  with render_plugin_refuses [OF w'] show "snd (render_plugin Y' d' t' dest d'' dest' u) \<noteq> None"
    by (metis prod.collapse)
qed

theorem a_published_tree_is_never_rendered_again_witness:
  "\<not> is_author_tree healthy_disk sample_release [''out''] \<and> is_author_tree healthy_disk sample_author [''p'']"
proof -
  have "is_author_tree healthy_disk sample_author [''p'']" by code_simp
  moreover have "wf_tree []" by (simp add: wf_tree_def)
  ultimately show ?thesis using a_published_tree_is_never_rendered_again [OF sample_author_wf _ sample_render] by blast
qed

section \<open>What the unpack takes under proto\<close>

definition suffixed_protos :: tree where
  "suffixed_protos =
     [([''p''], Dir), ([''p'', ''plugin.yaml''], File ''name: p''), ([''p'', ''proto''], Dir),
      ([''p'', ''proto'', ''a.proto''], File ''new''), ([''p'', ''proto'', ''a.proto.src''], File ''old'')]"

text \<open>The unpack renames by suffix everywhere, also below \<^verbatim>\<open>proto\<close>, which the render ships as it is: of
  two files there of which one has the other's name and the suffix, the consumer has one, under the first name and with
  the second's bytes, and no step fails.\<close>

theorem a_suffixed_proto_replaces_its_neighbour:
  "\<exists>t st t'. render_plugin (\<lambda>_. None) healthy_disk suffixed_protos [''p''] healthy_disk [''out''] [] = ((t, st), None) \<and>
     content t [''out''] [''proto'', ''a.proto''] = Some ''new'' \<and>
     strip_src_suffix healthy_disk [''out''] t = (t', None) \<and>
     content t' [''out''] [''proto'', ''a.proto''] = Some ''old'' \<and> content t' [''out''] [''proto'', ''a.proto.src''] = None"
proof -
  let ?r = "render_plugin (\<lambda>_. None) healthy_disk suffixed_protos [''p''] healthy_disk [''out''] []"
  let ?t = "fst (fst ?r)"
  let ?u = "strip_src_suffix healthy_disk [''out''] ?t"
  have "snd ?r = None" "content ?t [''out''] [''proto'', ''a.proto''] = Some ''new''" "snd ?u = None"
    "content (fst ?u) [''out''] [''proto'', ''a.proto''] = Some ''old''" "content (fst ?u) [''out''] [''proto'', ''a.proto.src''] = None"
    by code_simp+
  then show ?thesis by (metis prod.collapse)
qed

section \<open>What the registry receives\<close>

definition is_plugin_dir :: "tree \<Rightarrow> path \<Rightarrow> bool" where
  "is_plugin_dir s p \<longleftrightarrow> node_at s p = Some Dir \<and> exists_at s (p @ [''plugin.yaml''])"

lemma render_counts_one: "render_plugin Y ds s src d dest t = ((t', st), None) \<Longrightarrow> rs_plugins st = 1"
  by (auto simp: render_plugin_def render_body_def if_ok_None split: if_splits prod.splits bool.splits)

lemma catalogue_entry_ok:
  assumes "catalogue_entry Y ds s d dest p a = (a', None)" and "is_plugin_dir s p"
  obtains st where "render_plugin Y ds s p d (dest @ [last p]) (fst a) = ((fst a', st), None)"
    and "rs_plugins (snd a') = Suc (rs_plugins (snd a))"
proof -
  from assms obtain t st where r: "render_plugin Y ds s p d (dest @ [last p]) (fst a) = ((t, st), None)"
    and a': "a' = (t, add_stats (snd a) st)"
    by (auto simp: catalogue_entry_def is_plugin_dir_def split: prod.splits option.splits)
  with render_counts_one [OF r] show ?thesis by (intro that [of st]) (simp_all add: add_stats_def)
qed

lemma catalogue_entry_other: "catalogue_entry Y ds s d dest p a = (a', None) \<Longrightarrow> \<not> is_plugin_dir s p \<Longrightarrow> a' = a"
  by (auto simp: catalogue_entry_def is_plugin_dir_def split: if_splits)

lemma catalogue_walk:
  assumes ws: "wf_tree s"
  shows "walk_paths (catalogue_entry Y ds s d dest) ps a = (a', None) \<Longrightarrow> distinct (map last ps) \<Longrightarrow>
    (\<forall>p \<in> set ps. is_plugin_dir s p \<longrightarrow> publishes (content s p) (content (fst a') (dest @ [last p]))) \<and>
    (\<forall>x. (\<forall>p \<in> set ps. \<not> prefix (dest @ [last p]) x) \<longrightarrow> file_at (fst a') x = file_at (fst a) x) \<and>
    rs_plugins (snd a') = rs_plugins (snd a) + length (filter (is_plugin_dir s) ps)"
proof (induction ps arbitrary: a)
  case (Cons p ps)
  from Cons.prems(1) obtain a1 where v: "catalogue_entry Y ds s d dest p a = (a1, None)"
    and w: "walk_paths (catalogue_entry Y ds s d dest) ps a1 = (a', None)" unfolding walk_Cons_ok by blast
  have ih: "(\<forall>p \<in> set ps. is_plugin_dir s p \<longrightarrow> publishes (content s p) (content (fst a') (dest @ [last p])))"
    "\<And>x. (\<forall>p \<in> set ps. \<not> prefix (dest @ [last p]) x) \<Longrightarrow> file_at (fst a') x = file_at (fst a1) x"
    "rs_plugins (snd a') = rs_plugins (snd a1) + length (filter (is_plugin_dir s) ps)"
    using Cons.IH [OF w] Cons.prems(2) by auto
  show ?case
  proof (cases "is_plugin_dir s p")
    case False
    with catalogue_entry_other [OF v] ih show ?thesis by auto
  next
    case True
    from catalogue_entry_ok [OF v True] obtain st where r: "render_plugin Y ds s p d (dest @ [last p]) (fst a) = ((fst a1, st), None)"
      and n: "rs_plugins (snd a1) = Suc (rs_plugins (snd a))" .
    note pub = render_plugin_files [OF ws r]
    have "content (fst a') (dest @ [last p]) q = content (fst a1) (dest @ [last p]) q" for q
      unfolding content_def by (rule ih(2)) (use Cons.prems(2) in \<open>auto simp: prefix_def\<close>)
    then have "content (fst a') (dest @ [last p]) = content (fst a1) (dest @ [last p])" by (rule ext)
    with pub ih n True show ?thesis by auto
  qed
qed simp

lemma doc_walk:
  "walk_paths (doc_ref_at d t) ps hits = (hits', None) \<Longrightarrow>
   hits' = hits @ filter (\<lambda>p. case file_at t p of Some b \<Rightarrow> cites_private_docs b | None \<Rightarrow> False) ps"
proof (induction ps arbitrary: hits)
  case (Cons p ps)
  from Cons.prems obtain h1 where v: "doc_ref_at d t p hits = (h1, None)" and w: "walk_paths (doc_ref_at d t) ps h1 = (hits', None)"
    unfolding walk_Cons_ok by blast
  have "h1 = hits @ (case file_at t p of Some b \<Rightarrow> if cites_private_docs b then [p] else [] | None \<Rightarrow> [])"
    using v by (auto simp: doc_ref_at_def read_file_def file_at_def split: option.splits node.splits read.splits if_splits)
  with Cons.IH [OF w] show ?case by (auto split: option.split)
qed simp

lemma clean_of_doc_refs:
  assumes w: "wf_tree t" and r: "refuse_private_doc_refs d root t = None" and f: "file_at t (root @ x) = Some b"
  shows "\<not> cites_private_docs b"
proof -
  from r obtain hits where walk: "walk_paths (doc_ref_at d t) (walk_order t root) [] = (hits, None)" and "hits = []"
    by (auto simp: refuse_private_doc_refs_def split: prod.splits option.splits if_splits)
  with doc_walk [OF walk] have none: "\<forall>p \<in> set (walk_order t root). \<not> (case file_at t p of Some b \<Rightarrow> cites_private_docs b | None \<Rightarrow> False)"
    by (metis (no_types, lifting) append_Nil filter_empty_conv)
  have "root @ x \<in> set (walk_order t root)"
    using walk_order_file [OF w, of root x] f by (cases "x = []") (auto simp: content_def walk_order_mem)
  with none f show ?thesis by fastforce
qed

lemma catalogue_steps:
  assumes "catalogue Y ds s dir d dest notes t = ((t', st), None)"
  obtains a0 a where "walk_paths (copy_note ds s dir d dest) notes a0 = (a, None)" and "rs_plugins (snd a0) = 0"
    and "wf_tree t \<Longrightarrow> wf_tree (fst a0)"
    and "walk_paths (catalogue_entry Y ds s d dest) (dir_entries s dir) a = ((t', st), None)"
    and "refuse_private_doc_refs d dest t' = None" and "rs_plugins st \<noteq> 0"
proof -
  from assms obtain t1 t2 where r: "remove_all d dest t = (t1, True)" and m: "mkdir_all d dest t1 = (t2, True)"
    and rest: "if_ok (walk_paths (copy_note ds s dir d dest) notes (t2, no_stats))
        (\<lambda>a. if node_at s dir \<noteq> Some Dir \<or> unlistable ds s dir then (a, Some RenderFailed)
             else if_ok (walk_paths (catalogue_entry Y ds s d dest) (dir_entries s dir) a)
             (\<lambda>(t', st). case refuse_private_doc_refs d dest t' of Some e \<Rightarrow> ((t', st), Some e)
                | None \<Rightarrow> ((t', st), if rs_plugins st = 0 then Some NoPluginFound else None))) = ((t', st), None)"
    by (auto simp: catalogue_def split: prod.splits bool.splits)
  from rest obtain a where n: "walk_paths (copy_note ds s dir d dest) notes (t2, no_stats) = (a, None)"
    and e: "walk_paths (catalogue_entry Y ds s d dest) (dir_entries s dir) a = ((t', st), None)"
    and "refuse_private_doc_refs d dest t' = None" "rs_plugins st \<noteq> 0"
    unfolding if_ok_None by (auto simp: if_ok_None split: if_splits option.splits)
  moreover have "wf_tree t2" if "wf_tree t"
    using remove_all_wf [OF that, of d dest] mkdir_all_wf [of t1 d dest] by (simp add: r m)
  ultimately show ?thesis by (intro that [OF n]) (simp_all add: no_stats_def)
qed

lemma dir_entries_names:
  assumes "wf_tree s"
  shows "distinct (map last (dir_entries s dir))"
proof -
  have "inj_on last (set (dir_entries s dir))"
    by (rule inj_onI) (auto simp: dir_entries_def, metis append_butlast_last_id)
  moreover have "distinct (dir_entries s dir)" using wf_tree_map [OF assms] by (simp add: dir_entries_def)
  ultimately show ?thesis by (simp add: distinct_map)
qed

lemma catalogue_walks_keep:
  "wf_tree (fst a) \<Longrightarrow> wf_tree (fst (fst (walk_paths (copy_note ds s dir d dest) ps a)))"
  "wf_tree (fst a) \<Longrightarrow> wf_tree (fst (fst (walk_paths (catalogue_entry Y ds s d dest) ps a)))"
  "rs_plugins (snd a) = 0 \<Longrightarrow> rs_plugins (snd (fst (walk_paths (copy_note ds s dir d dest) ps a))) = 0"
proof -
  show "wf_tree (fst a) \<Longrightarrow> wf_tree (fst (fst (walk_paths (copy_note ds s dir d dest) ps a)))"
    by (rule walk_keeps [of "\<lambda>a. wf_tree (fst a)"]) (simp_all add: copy_note_def copy_counted_wf)
  have "wf_tree (fst (fst (catalogue_entry Y ds s d dest p a)))" if "wf_tree (fst a)" for p a
  proof -
    obtain t st e where r: "render_plugin Y ds s p d (dest @ [last p]) (fst a) = ((t, st), e)" by (metis prod.collapse)
    with render_plugin_wf [OF that, of Y ds s p d "dest @ [last p]"] that show ?thesis
      by (cases e) (simp_all add: catalogue_entry_def)
  qed
  then show "wf_tree (fst a) \<Longrightarrow> wf_tree (fst (fst (walk_paths (catalogue_entry Y ds s d dest) ps a)))"
    by (rule walk_keeps [of "\<lambda>a. wf_tree (fst a)"])
  show "rs_plugins (snd a) = 0 \<Longrightarrow> rs_plugins (snd (fst (walk_paths (copy_note ds s dir d dest) ps a))) = 0"
    by (rule walk_keeps [of "\<lambda>a. rs_plugins (snd a) = 0"])
      (auto simp: copy_note_def copy_counted_def one_file_def split: prod.split option.split)
qed

text \<open>A render of the whole registry that succeeds holds at least one plugin, each directory with a manifest as
  exactly what it publishes, and no file of it, a note at the root included, cites the private docs.\<close>

theorem the_registry_gets_every_plugin_and_nothing_private:
  assumes w: "wf_tree s" "wf_tree t" and r: "catalogue Y ds s dir d dest notes t = ((t', st), None)"
  shows "rs_plugins st = length (filter (is_plugin_dir s) (dir_entries s dir)) \<and> rs_plugins st \<noteq> 0 \<and>
    (\<forall>p \<in> set (dir_entries s dir). is_plugin_dir s p \<longrightarrow> publishes (content s p) (content t' (dest @ [last p]))) \<and>
    (\<forall>x b. content t' dest x = Some b \<longrightarrow> \<not> cites_private_docs b)"
proof -
  from r obtain a0 a where n: "walk_paths (copy_note ds s dir d dest) notes a0 = (a, None)" and z: "rs_plugins (snd a0) = 0"
    and w0: "wf_tree t \<Longrightarrow> wf_tree (fst a0)"
    and e: "walk_paths (catalogue_entry Y ds s d dest) (dir_entries s dir) a = ((t', st), None)"
    and c: "refuse_private_doc_refs d dest t' = None" and st: "rs_plugins st \<noteq> 0" by (rule catalogue_steps) blast
  have wa: "wf_tree (fst a)" using catalogue_walks_keep(1) [OF w0 [OF w(2)], of ds s dir d dest "notes"] by (simp add: n)
  have wt: "wf_tree t'" using catalogue_walks_keep(2) [OF wa, of Y ds s d dest "dir_entries s dir"] by (simp add: e)
  have "rs_plugins (snd a) = 0" using catalogue_walks_keep(3) [OF z, of ds s dir d dest "notes"] by (simp add: n)
  with catalogue_walk [OF w(1) e dir_entries_names [OF w(1)]] st clean_of_doc_refs [OF wt c] show ?thesis
    by (simp add: content_def)
qed

definition sample_plugins :: tree where
  "sample_plugins =
     [([''plugins''], Dir), ([''plugins'', ''TESTING.md''], File ''how''), ([''plugins'', ''drafts''], Dir),
      ([''plugins'', ''auth''], Dir), ([''plugins'', ''auth'', ''plugin.yaml''], File ''name: auth''),
      ([''plugins'', ''auth'', ''src''], Dir), ([''plugins'', ''auth'', ''src'', ''a.go''], File ''package auth'')]"

theorem the_registry_gets_every_plugin_and_nothing_private_witness:
  "\<exists>t' st. catalogue (\<lambda>_. None) healthy_disk sample_plugins [''plugins''] healthy_disk [''out''] [[''TESTING.md'']] [] = ((t', st), None) \<and>
     rs_plugins st = 1 \<and> publishes (content sample_plugins [''plugins'', ''auth'']) (content t' [''out'', ''auth''])"
proof -
  let ?r = "catalogue (\<lambda>_. None) healthy_disk sample_plugins [''plugins''] healthy_disk [''out''] [[''TESTING.md'']] []"
  have ok: "snd ?r = None" and one: "rs_plugins (snd (fst ?r)) = 1" and w: "wf_tree sample_plugins" by code_simp+
  have auth: "[''plugins'', ''auth''] \<in> set (dir_entries sample_plugins [''plugins''])" "is_plugin_dir sample_plugins [''plugins'', ''auth'']"
    by code_simp+
  have "wf_tree []" by (simp add: wf_tree_def)
  have "?r = ((fst (fst ?r), snd (fst ?r)), None)" using ok by (metis prod.collapse)
  from the_registry_gets_every_plugin_and_nothing_private [OF w \<open>wf_tree []\<close> this] auth
  have "publishes (content sample_plugins [''plugins'', ''auth'']) (content (fst (fst ?r)) [''out'', ''auth''])" by fastforce
  with ok one show ?thesis by (metis prod.collapse)
qed

end
