(* ===== verification/PluginFetch.thy ===== *)
theory PluginFetch
  imports PluginTree DevFeatures
begin

text \<open>
  One plugin at one version, out of a git repository or a directory, into a project:
  \<^verbatim>\<open>src/internal/pluginfetch/pluginfetch.go\<close>. Git is a parameter: a command, run on the files of the clone, gives
  the files afterwards, what it printed and whether it succeeded. So is the SDK's digest. The clone and what is
  rendered are trees of their own, in temporary directories; the project's tree is the one that is changed. The parent
  of a temporary directory, which the name \<^verbatim>\<open>..\<close> would reach, is not part of the model.
\<close>

section \<open>What to fetch\<close>

record plugin_source =
  so_repo :: string
  so_plugin :: string
  so_version :: string
  so_commit :: string

record fetched =
  fd_repo :: string
  fd_ref :: string
  fd_version :: string
  fd_sha :: string
  fd_digest :: string
  fd_published :: string
  fd_signature :: string

datatype fetch_error =
    NoRepository | NoPluginName | NothingNamed | VersionAndCommit
  | NotAPluginName string
  | NotAFullCommit string
  | NoVersionMark string
  | NoTempDir
  | NotPublished | NotNarrowed | NoSuchCommit | NoHead
  | NoPluginTree
  | NoPluginManifest | OtherName string | NoVersion | OtherVersion string
  | TagUnreadable | OpenedTwice | NeverClosed | EmptyBlock | SignedTwice
  | Undigested
  | NotRendered render_error
  | NotCleared | NotPlaced | NotUnpacked

definition source_tag :: "plugin_source \<Rightarrow> string" where
  "source_tag s = (if so_version s = [] then [] else so_plugin s @ ''/'' @ so_version s)"

definition source_ref :: "plugin_source \<Rightarrow> string" where
  "source_ref s = (if so_commit s \<noteq> [] then so_commit s else source_tag s)"

definition is_full_sha :: "string \<Rightarrow> bool" where
  "is_full_sha s \<longleftrightarrow> length s = 40 \<and>
     list_all (\<lambda>c. \<not> ((c < CHR ''0'' \<or> CHR ''9'' < c) \<and> (c < CHR ''a'' \<or> CHR ''f'' < c))) s"

definition validate_source :: "plugin_source \<Rightarrow> fetch_error option" where
  "validate_source s =
     (if so_repo s = [] then Some NoRepository
      else if so_plugin s = [] then Some NoPluginName
      else if so_version s = [] \<and> so_commit s = [] then Some NothingNamed
      else if so_version s \<noteq> [] \<and> so_commit s \<noteq> [] then Some VersionAndCommit
      else if clean_path (so_plugin s) \<noteq> so_plugin s \<or> base_name (so_plugin s) \<noteq> so_plugin s
      then Some (NotAPluginName (so_plugin s))
      else if so_commit s \<noteq> [] then (if is_full_sha (so_commit s) then None else Some (NotAFullCommit (so_commit s)))
      else if \<not> prefix ''v'' (so_version s) then Some (NoVersionMark (so_version s))
      else None)"

section \<open>The manifest\<close>

definition manifest_field :: "string \<Rightarrow> string \<Rightarrow> string" where
  "manifest_field body key =
     (case find (prefix (key @ '':'')) (split_on nl body) of
        None \<Rightarrow> []
      | Some line \<Rightarrow> trim_quotes (trim_space (drop (length (key @ '':'')) line)))"

definition check_manifest :: "disk \<Rightarrow> tree \<Rightarrow> path \<Rightarrow> plugin_source \<Rightarrow> fetch_error + string" where
  "check_manifest d t dir src =
     (case read_file d t (dir @ [''plugin.yaml'']) of
        Bytes body \<Rightarrow>
          (let name = manifest_field body ''name''; version = manifest_field body ''version'' in
           if name \<noteq> so_plugin src then Inl (OtherName name)
           else if version = [] then Inl NoVersion
           else if so_commit src \<noteq> [] then Inr (''v'' @ version)
           else if ''v'' @ version \<noteq> so_version src then Inl (OtherVersion version)
           else Inr (so_version src))
      | _ \<Rightarrow> Inl NoPluginManifest)"

definition manifest_version :: "disk \<Rightarrow> tree \<Rightarrow> path \<Rightarrow> fetch_error + string" where
  "manifest_version d t dir =
     (case read_file d t (dir @ [''plugin.yaml'']) of
        Bytes body \<Rightarrow>
          (let version = manifest_field body ''version'' in if version = [] then Inl NoVersion else Inr (''v'' @ version))
      | _ \<Rightarrow> Inl NoPluginManifest)"

definition name_in_dir :: "disk \<Rightarrow> tree \<Rightarrow> path \<Rightarrow> fetch_error + string" where
  "name_in_dir d t dir =
     (case read_file d t (dir @ [''plugin.yaml'']) of
        Bytes body \<Rightarrow> (let name = manifest_field body ''name'' in if name = [] then Inl NoPluginName else Inr name)
      | _ \<Rightarrow> Inl NoPluginManifest)"

section \<open>The signature of a tag\<close>

definition tag_signature_begin :: string where "tag_signature_begin = ''-----BEGIN W17 PLUGIN SIGNATURE-----''"

definition tag_signature_end :: string where "tag_signature_end = ''-----END W17 PLUGIN SIGNATURE-----''"

text \<open>\<^verbatim>\<open>strings.ReplaceAll\<close> of a carriage return and a newline by a newline.\<close>

fun unix_ends :: "string \<Rightarrow> string" where
  "unix_ends (a # b # s) = (if a = CHR 0x0D \<and> b = nl then nl # unix_ends s else a # unix_ends (b # s))"
| "unix_ends s = s"

fun scan_signature :: "nat \<Rightarrow> string list \<Rightarrow> nat option \<Rightarrow> nat option \<Rightarrow> fetch_error + nat option \<times> nat option" where
  "scan_signature i [] b e = Inr (b, e)"
| "scan_signature i (ln # lns) b e =
     (let w = trim_space ln in
      if w = tag_signature_begin then (if b \<noteq> None then Inl OpenedTwice else scan_signature (Suc i) lns (Some i) e)
      else if w = tag_signature_end then scan_signature (Suc i) lns b (if b \<noteq> None \<and> e = None then Some i else e)
      else scan_signature (Suc i) lns b e)"

definition signature_from_tag_message :: "string \<Rightarrow> fetch_error + string" where
  "signature_from_tag_message msg =
     (let lines = split_on nl (unix_ends msg) in
      case scan_signature 0 lines None None of
        Inl e \<Rightarrow> Inl e
      | Inr (None, _) \<Rightarrow> Inr []
      | Inr (Some b, None) \<Rightarrow> Inl NeverClosed
      | Inr (Some b, Some e) \<Rightarrow>
          (let body = join_with [nl] (take (e - Suc b) (drop (Suc b) lines)) in
           if trim_space body = [] then Inl EmptyBlock else Inr (body @ [nl])))"

text \<open>\<^verbatim>\<open>git\<close> trims what the command printed.\<close>

type_synonym git = "string list \<Rightarrow> tree \<Rightarrow> tree \<times> string \<times> bool"

definition run_git :: "git \<Rightarrow> string list \<Rightarrow> tree \<Rightarrow> tree \<times> string \<times> bool" where
  "run_git G args w = (case G args w of (w', out, ok) \<Rightarrow> (w', trim_space out, ok))"

definition tag_signature :: "git \<Rightarrow> string \<Rightarrow> tree \<Rightarrow> tree \<times> (fetch_error + string)" where
  "tag_signature G tag w =
     (let ref = ''refs/tags/'' @ tag in
      case run_git G [''for-each-ref'', ''--format=%(objecttype)'', ref] w of
        (w1, _, False) \<Rightarrow> (w1, Inl TagUnreadable)
      | (w1, kind, True) \<Rightarrow>
          if kind \<noteq> ''tag'' then (w1, Inr [])
          else (case run_git G [''for-each-ref'', ''--format=%(contents)'', ref] w1 of
             (w2, _, False) \<Rightarrow> (w2, Inl TagUnreadable)
           | (w2, msg, True) \<Rightarrow> (w2, signature_from_tag_message msg)))"

section \<open>The clone\<close>

definition and_git :: "git \<Rightarrow> string list \<Rightarrow> fetch_error \<Rightarrow> tree \<times> fetch_error option \<Rightarrow> tree \<times> fetch_error option" where
  "and_git G args err r =
     (case r of
        (w, Some e) \<Rightarrow> (w, Some e)
      | (w, None) \<Rightarrow> (case run_git G args w of (w1, _, ok) \<Rightarrow> (w1, if ok then None else Some err)))"

definition materialise :: "git \<Rightarrow> string \<Rightarrow> plugin_source \<Rightarrow> tree \<Rightarrow> tree \<times> fetch_error option" where
  "materialise G work src w =
     (if so_commit src = [] then
        and_git G [''sparse-checkout'', ''set'', so_plugin src] NotNarrowed
        (and_git G [''clone'', ''--quiet'', ''--depth'', ''1'', ''--branch'', source_tag src, ''--filter=blob:none'',
           ''--sparse'', so_repo src, work] NotPublished (w, None))
      else
        and_git G [''checkout'', ''--quiet'', so_commit src] NoSuchCommit
        (and_git G [''sparse-checkout'', ''set'', so_plugin src] NotNarrowed
        (and_git G [''clone'', ''--quiet'', ''--filter=blob:none'', ''--sparse'', ''--no-checkout'', so_repo src, work]
           NotPublished (w, None))))"

section \<open>Placing\<close>

text \<open>\<^verbatim>\<open>copyTree\<close> walks with \<^verbatim>\<open>filepath.Walk\<close>, which reports a directory it cannot list before anything is made
  of it.\<close>

definition place_at :: "disk \<Rightarrow> tree \<Rightarrow> path \<Rightarrow> disk \<Rightarrow> path \<Rightarrow> path \<Rightarrow> tree \<times> unit \<Rightarrow> (tree \<times> unit) \<times> fetch_error option" where
  "place_at ds s sp d dest p a =
     (let target = dest @ drop (length sp) p; t = fst a in
      if node_at s p = Some Dir then
        (if unlistable ds s p then (a, Some NotPlaced)
         else case mkdir_all d target t of (t1, ok) \<Rightarrow> ((t1, ()), if ok then None else Some NotPlaced))
      else case read_file ds s p of
        Bytes b \<Rightarrow> (case write_file d target b t of (t1, ok) \<Rightarrow> ((t1, ()), if ok then None else Some NotPlaced))
      | _ \<Rightarrow> (a, Some NotPlaced))"

definition copy_tree :: "disk \<Rightarrow> tree \<Rightarrow> path \<Rightarrow> disk \<Rightarrow> path \<Rightarrow> tree \<Rightarrow> tree \<times> fetch_error option" where
  "copy_tree ds s sp d dest t =
     (case walk_paths (place_at ds s sp d dest) (walk_order s sp) (t, ()) of ((t', _), e) \<Rightarrow> (t', e))"

text \<open>\<^verbatim>\<open>os.Rename\<close> of a whole directory to a path where nothing is.\<close>

definition graft :: "tree \<Rightarrow> path \<Rightarrow> path \<Rightarrow> tree \<Rightarrow> tree" where
  "graft s sp dest t =
     fold (\<lambda>p u. case node_at s p of None \<Rightarrow> u | Some n \<Rightarrow> put (dest @ drop (length sp) p) n u) (walk_order s sp) t"

definition place_tree :: "disk \<Rightarrow> tree \<Rightarrow> path \<Rightarrow> disk \<Rightarrow> path \<Rightarrow> tree \<Rightarrow> tree \<times> fetch_error option" where
  "place_tree ds s sp d dest t =
     (case remove_all d dest t of
        (t1, False) \<Rightarrow> (t1, Some NotCleared)
      | (t1, True) \<Rightarrow>
          (case mkdir_all d (butlast dest) t1 of
             (t2, False) \<Rightarrow> (t2, Some NotPlaced)
           | (t2, True) \<Rightarrow>
               if \<not> no_rename d t2 dest then (graft s sp dest t2, None) else copy_tree ds s sp d dest t2))"

text \<open>What the two ways to install share: the placed tree's digests and its signature file.\<close>

definition unpack_at :: "digester \<Rightarrow> disk \<Rightarrow> path \<Rightarrow> tree \<times> fetch_error option \<Rightarrow> tree \<times> (fetch_error + string \<times> string \<times> string)" where
  "unpack_at G d dest r =
     (case r of
        (t, Some e) \<Rightarrow> (t, Inl e)
      | (t, None) \<Rightarrow>
          (case unpack_digests G d dest t of
             (t1, None) \<Rightarrow> (t1, Inl NotUnpacked)
           | (t1, Some (published, landed)) \<Rightarrow>
               (t1, Inr (published, landed, case read_file d t1 (dest @ [signature_file]) of Bytes b \<Rightarrow> b | _ \<Rightarrow> []))))"

record install_env =
  ie_git :: git
  ie_work :: string
  ie_temp :: bool
  ie_render_temp :: bool
  ie_disk :: disk
  ie_yaml :: manifest_reader
  ie_digest :: digester

text \<open>\<^verbatim>\<open>filepath.Join(work, plugin)\<close> for the names that are accepted.\<close>

definition plugin_dir :: "string \<Rightarrow> path" where
  "plugin_dir name = (if name = ''.'' \<or> name = ''/'' then [] else [name])"

text \<open>The tree that is placed: the clone's, or what the render makes of it.\<close>

definition rendered_tree :: "install_env \<Rightarrow> tree \<Rightarrow> path \<Rightarrow> fetch_error + tree" where
  "rendered_tree E w dir =
     (if \<not> is_author_tree (ie_disk E) w dir then Inr w
      else if \<not> ie_render_temp E then Inl NoTempDir
      else case render_plugin (ie_yaml E) (ie_disk E) w dir (ie_disk E) dir [] of
        (_, Some e) \<Rightarrow> Inl (NotRendered e)
      | ((r, _), None) \<Rightarrow> Inr r)"

text \<open>The signature of the tag and, when there is one, the digest of the tree as tagged.\<close>

definition tagged :: "install_env \<Rightarrow> plugin_source \<Rightarrow> path \<Rightarrow> tree \<Rightarrow> tree \<times> (fetch_error + (string \<times> string) option)" where
  "tagged E src dir w =
     (if so_commit src \<noteq> [] then (w, Inr None)
      else case tag_signature (ie_git E) (source_tag src) w of
        (w1, Inl e) \<Rightarrow> (w1, Inl e)
      | (w1, Inr sig) \<Rightarrow>
          (w1, if sig = [] then Inr None
               else if exists_at w1 (dir @ [signature_file]) then Inl SignedTwice
               else case dg_of (ie_digest E) w1 dir of None \<Rightarrow> Inl Undigested | Some dg \<Rightarrow> Inr (Some (sig, dg))))"

text \<open>What is in the clone when everything about it has been checked.\<close>

definition checked_clone :: "install_env \<Rightarrow> plugin_source \<Rightarrow> fetch_error + tree \<times> string \<times> string \<times> (string \<times> string) option" where
  "checked_clone E src =
     (case validate_source src of
        Some e \<Rightarrow> Inl e
      | None \<Rightarrow>
          if \<not> ie_temp E then Inl NoTempDir
          else case materialise (ie_git E) (ie_work E) src [] of
            (_, Some e) \<Rightarrow> Inl e
          | (w1, None) \<Rightarrow>
              (case run_git (ie_git E) [''rev-parse'', ''HEAD''] w1 of
                 (_, _, False) \<Rightarrow> Inl NoHead
               | (w2, sha, True) \<Rightarrow>
                   (let dir = plugin_dir (so_plugin src) in
                    if node_at w2 dir \<noteq> Some Dir then Inl NoPluginTree
                    else case check_manifest (ie_disk E) w2 dir src of
                      Inl e \<Rightarrow> Inl e
                    | Inr version \<Rightarrow>
                        (case tagged E src dir w2 of
                           (_, Inl e) \<Rightarrow> Inl e
                         | (w3, Inr sig) \<Rightarrow> Inr (w3, sha, version, sig)))))"

definition fetch :: "install_env \<Rightarrow> plugin_source \<Rightarrow> disk \<Rightarrow> path \<Rightarrow> tree \<Rightarrow> tree \<times> (fetch_error + fetched)" where
  "fetch E src d dest t =
     (case checked_clone E src of
        Inl e \<Rightarrow> (t, Inl e)
      | Inr (w, sha, version, sig) \<Rightarrow>
          (let dir = plugin_dir (so_plugin src) in
           case rendered_tree E w dir of
             Inl e \<Rightarrow> (t, Inl e)
           | Inr r \<Rightarrow>
               (case unpack_at (ie_digest E) d dest (place_tree (ie_disk E) r dir d dest t) of
                  (t1, Inl e) \<Rightarrow> (t1, Inl e)
                | (t1, Inr (published, landed, file)) \<Rightarrow>
                    (t1, Inr \<lparr>fd_repo = so_repo src, fd_ref = source_ref src, fd_version = version, fd_sha = sha, fd_digest = landed,
                       fd_published = (case sig of None \<Rightarrow> published | Some (_, dg) \<Rightarrow> dg),
                       fd_signature = (case sig of None \<Rightarrow> file | Some (s, _) \<Rightarrow> s)\<rparr>))))"

text \<open>\<^verbatim>\<open>FromDir\<close>: the tree at \<open>src\<close> on the author's disk; the copy of a published tree is made first.\<close>

definition local_tree :: "install_env \<Rightarrow> disk \<Rightarrow> tree \<Rightarrow> path \<Rightarrow> fetch_error + tree" where
  "local_tree E ds s src =
     (if \<not> exists_at s (src @ [''plugin.yaml'']) then Inl NoPluginManifest
      else if \<not> ie_temp E then Inl NoTempDir
      else if is_author_tree ds s src then
        (case render_plugin (ie_yaml E) ds s src (ie_disk E) [''published''] [] of
           (_, Some e) \<Rightarrow> Inl (NotRendered e)
         | ((r, _), None) \<Rightarrow> Inr r)
      else case copy_tree ds s src (ie_disk E) [''published''] [] of
        (_, Some e) \<Rightarrow> Inl e
      | (r, None) \<Rightarrow> Inr r)"

definition from_dir :: "install_env \<Rightarrow> disk \<Rightarrow> tree \<Rightarrow> path \<Rightarrow> disk \<Rightarrow> path \<Rightarrow> tree \<Rightarrow> tree \<times> (fetch_error + fetched)" where
  "from_dir E ds s src d dest t =
     (case local_tree E ds s src of
        Inl e \<Rightarrow> (t, Inl e)
      | Inr r \<Rightarrow>
          (case unpack_at (ie_digest E) d dest (place_tree (ie_disk E) r [''published''] d dest t) of
             (t1, Inl e) \<Rightarrow> (t1, Inl e)
           | (t1, Inr (published, landed, file)) \<Rightarrow>
               (case manifest_version d t1 dest of
                  Inl e \<Rightarrow> (t1, Inl e)
                | Inr version \<Rightarrow>
                    (t1, Inr \<lparr>fd_repo = [], fd_ref = [], fd_version = version, fd_sha = [], fd_digest = landed,
                       fd_published = published, fd_signature = file\<rparr>))))"

section \<open>What is placed\<close>

lemma subset_chain: "A \<subseteq> B \<union> C \<Longrightarrow> B \<subseteq> D \<union> E \<Longrightarrow> C \<subseteq> E \<Longrightarrow> A \<subseteq> D \<union> E"
  by blast

lemma graft_fold:
  fixes s :: tree
  assumes "inj_on f (set ps)" and "\<And>p. p \<in> set ps \<Longrightarrow> f p \<noteq> []"
  defines "g \<equiv> \<lambda>p u. case node_at s p of None \<Rightarrow> u | Some n \<Rightarrow> put (f p) n u"
  shows "p \<in> set ps \<Longrightarrow> node_at s p = Some n \<Longrightarrow> node_at (fold g ps t) (f p) = Some n"
    and "(\<forall>p \<in> set ps. node_at s p \<noteq> None \<longrightarrow> f p \<noteq> q) \<Longrightarrow> node_at (fold g ps t) q = node_at t q"
    and "wf_map t \<Longrightarrow> wf_map (fold g ps t)"
    and "fst ` set (fold g ps t) \<subseteq> fst ` set t \<union> f ` {p \<in> set ps. node_at s p \<noteq> None}"
proof -
  have other: "(\<forall>p \<in> set ps. node_at s p \<noteq> None \<longrightarrow> f p \<noteq> q) \<Longrightarrow> node_at (fold g ps t) q = node_at t q"
    if "\<And>p. p \<in> set ps \<Longrightarrow> f p \<noteq> []" for ps t q
    using that
  proof (induction ps arbitrary: t)
    case (Cons p ps)
    then show ?case by (cases "node_at s p") (auto simp: g_def)
  qed simp
  then show "(\<forall>p \<in> set ps. node_at s p \<noteq> None \<longrightarrow> f p \<noteq> q) \<Longrightarrow> node_at (fold g ps t) q = node_at t q"
    using assms(2) by blast
  show "p \<in> set ps \<Longrightarrow> node_at s p = Some n \<Longrightarrow> node_at (fold g ps t) (f p) = Some n"
    using assms(1,2)
  proof (induction ps arbitrary: t)
    case (Cons x ps)
    show ?case
    proof (cases "p \<in> set ps")
      case True
      then show ?thesis using Cons by simp
    next
      case False
      with Cons.prems(1) have x: "x = p" by simp
      have "f y \<noteq> f p" if "y \<in> set ps" for y using Cons.prems(3) False that by (auto simp: x inj_on_def)
      moreover have "f y \<noteq> []" if "y \<in> set ps" for y using Cons.prems(4) that by simp
      ultimately have "node_at (fold g ps (g p t)) (f p) = node_at (g p t) (f p)" by (intro other) blast+
      then show ?thesis using Cons.prems by (simp add: x g_def)
    qed
  qed simp
  show "wf_map t \<Longrightarrow> wf_map (fold g ps t)"
  proof (induction ps arbitrary: t)
    case (Cons x ps)
    have "wf_map (g x t)" using Cons.prems by (auto simp: g_def split: option.split)
    from Cons.IH [OF this] show ?case by simp
  qed simp
  show "fst ` set (fold g ps t) \<subseteq> fst ` set t \<union> f ` {p \<in> set ps. node_at s p \<noteq> None}"
  proof (induction ps arbitrary: t)
    case (Cons x ps)
    have "fst ` set (g x t) \<subseteq> fst ` set t \<union> f ` {p \<in> set (x # ps). node_at s p \<noteq> None}"
      by (auto simp: g_def split: option.split)
    moreover have "f ` {p \<in> set ps. node_at s p \<noteq> None} \<subseteq> f ` {p \<in> set (x # ps). node_at s p \<noteq> None}" by auto
    ultimately have "fst ` set (fold g ps (g x t)) \<subseteq> fst ` set t \<union> f ` {p \<in> set (x # ps). node_at s p \<noteq> None}"
      by (rule subset_chain [OF Cons.IH [of "g x t"]])
    then show ?case by simp
  qed simp
qed

definition moved_to :: "path \<Rightarrow> path \<Rightarrow> path \<Rightarrow> path" where
  "moved_to sp dest p = dest @ drop (length sp) p"

lemma moved_to_at [simp]: "moved_to sp dest (sp @ r) = dest @ r"
  by (simp add: moved_to_def)

lemma walk_below: "p \<in> set (walk_order s sp) \<Longrightarrow> \<exists>r. p = sp @ r"
  by (auto simp: walk_order_mem strict_prefix_def prefix_def)

lemma graft_nodes:
  assumes ws: "wf_tree s" and sp: "node_at s sp = Some Dir" and dest: "dest \<noteq> []"
  shows "node_at s (sp @ r) = Some n \<Longrightarrow> node_at (graft s sp dest t) (dest @ r) = Some n"
    and "\<not> (\<exists>r. q = dest @ r \<and> node_at s (sp @ r) \<noteq> None) \<Longrightarrow> node_at (graft s sp dest t) q = node_at t q"
    and "wf_map t \<Longrightarrow> wf_map (graft s sp dest t)"
    and "fst ` set (graft s sp dest t) \<subseteq> fst ` set t \<union> {dest @ r |r. node_at s (sp @ r) \<noteq> None}"
proof -
  have g: "graft s sp dest t = fold (\<lambda>p u. case node_at s p of None \<Rightarrow> u | Some n \<Rightarrow> put (moved_to sp dest p) n u) (walk_order s sp) t"
    unfolding graft_def moved_to_def ..
  have inj: "inj_on (moved_to sp dest) (set (walk_order s sp))"
    by (rule inj_onI) (auto dest!: walk_below)
  have ne: "moved_to sp dest p \<noteq> []" for p using dest by (simp add: moved_to_def)
  note f = graft_fold [OF inj ne, where s = s and t = t, folded g]
  have listed: "sp @ r \<in> set (walk_order s sp)" if "node_at s (sp @ r) \<noteq> None" for r
    using that node_at_keys [of "sp @ r" s] by (cases "r = []") (auto simp: walk_order_mem strict_prefix_def)
  show "node_at s (sp @ r) = Some n \<Longrightarrow> node_at (graft s sp dest t) (dest @ r) = Some n"
    using f(1) [of "sp @ r" n] listed [of r] by simp
  show "\<not> (\<exists>r. q = dest @ r \<and> node_at s (sp @ r) \<noteq> None) \<Longrightarrow> node_at (graft s sp dest t) q = node_at t q"
    by (rule f(2)) (auto dest!: walk_below)
  show "wf_map t \<Longrightarrow> wf_map (graft s sp dest t)" by (rule f(3))
  show "fst ` set (graft s sp dest t) \<subseteq> fst ` set t \<union> {dest @ r |r. node_at s (sp @ r) \<noteq> None}"
    using f(4) by (auto dest!: walk_below)
qed

definition placed_from :: "tree \<Rightarrow> path \<Rightarrow> path \<Rightarrow> tree \<Rightarrow> tree \<Rightarrow> bool" where
  "placed_from s sp dest t t' \<longleftrightarrow>
     content t' dest = content s sp \<and> (\<forall>p. \<not> prefix dest p \<longrightarrow> file_at t' p = file_at t p) \<and> wf_tree t'"

lemma graft_wf:
  assumes ws: "wf_tree s" and sp: "node_at s sp = Some Dir" and dest: "dest \<noteq> []"
    and w: "wf_tree t" and e: "\<And>q. prefix dest q \<Longrightarrow> node_at t q = None" and up: "node_at t (butlast dest) = Some Dir"
  shows "wf_tree (graft s sp dest t)"
proof (rule wf_treeI)
  note g = graft_nodes [OF ws sp dest, where t = t]
  show "wf_map (graft s sp dest t)" using g(3) wf_tree_map [OF w] by simp
  show "[] \<notin> fst ` set (graft s sp dest t)" using g(4) w dest by (auto simp: wf_tree_def)
  fix q assume "q \<in> set (keys_of (graft s sp dest t))"
  then have "q \<in> fst ` set (graft s sp dest t)" by simp
  with g(4) consider (old) "q \<in> fst ` set t" | (new) r where "q = dest @ r" "node_at s (sp @ r) \<noteq> None"
    by blast
  then show "node_at (graft s sp dest t) (butlast q) = Some Dir"
  proof cases
    case old
    then have "node_at t q \<noteq> None" using node_at_listed by blast
    then have q: "\<not> prefix dest q" "node_at t (butlast q) = Some Dir" using e wf_tree_parent [OF w] by auto
    have "\<not> (\<exists>r. butlast q = dest @ r \<and> node_at s (sp @ r) \<noteq> None)"
    proof
      assume "\<exists>r. butlast q = dest @ r \<and> node_at s (sp @ r) \<noteq> None"
      then have "prefix dest (butlast q)" by (auto simp: prefix_def)
      then have "prefix dest q" by (rule prefix_order.trans [OF _ prefixeq_butlast])
      with q show False by blast
    qed
    with g(2) q(2) show ?thesis by simp
  next
    case (new r)
    show ?thesis
    proof (cases "r = []")
      case True
      have "\<not> (\<exists>r. butlast dest = dest @ r \<and> node_at s (sp @ r) \<noteq> None)"
        using dest by (metis append_butlast_last_id append_self_conv2 append_assoc append_same_eq not_Cons_self2 append_is_Nil_conv self_append_conv)
      with g(2) up show ?thesis by (simp add: new True)
    next
      case False
      have "node_at s (butlast (sp @ r)) = Some Dir" by (rule wf_tree_parent [OF ws new(2)])
      with g(1) [of "butlast r" Dir] False show ?thesis by (simp add: new butlast_append)
    qed
  qed
qed

interpretation tree_copy: copying "place_at ds s sp d dest" s "\<lambda>p. if prefix sp p then Some (moved_to sp dest p) else None" "{p. prefix sp p}"
  for ds s sp d dest
proof
  fix p a a'
  assume "p \<in> {p. prefix sp p}" and v: "place_at ds s sp d dest p a = (a', None)"
  then have p: "prefix sp p" by simp
  let ?T = "\<lambda>p. if prefix sp p then Some (moved_to sp dest p) else None"
  show "copies s ?T [p] (fst a) (fst a')"
  proof (cases "node_at s p = Some Dir")
    case True
    with v have "file_at (fst a') = file_at (fst a)"
      by (auto simp: place_at_def Let_def split: if_splits prod.splits dest!: mkdir_all_files)
    with True show ?thesis by (intro copies_none) auto
  next
    case False
    with v obtain b where b: "read_file ds s p = Bytes b" and wr: "write_file d (moved_to sp dest p) b (fst a) = (fst a', True)"
      by (auto simp: place_at_def moved_to_def Let_def split: read.splits prod.splits if_splits)
    have "file_at s p = Some b" using b by (auto simp: read_file_def file_at_def split: option.splits node.splits if_splits)
    then show ?thesis by (rule copies_one) (simp_all add: p write_file_files [OF wr])
  qed
qed

lemma place_at_wf:
  assumes w: "wf_tree (fst a)"
  shows "wf_tree (fst (fst (place_at ds s sp d dest p a)))"
proof -
  let ?q = "dest @ drop (length sp) p"
  obtain t1 ok where m: "mkdir_all d ?q (fst a) = (t1, ok)" by fastforce
  have "wf_tree t1" using mkdir_all_wf [OF w, of d ?q] by (simp add: m)
  moreover have "wf_tree t2" if "write_file d ?q b (fst a) = (t2, ok')" for b t2 ok'
    using write_file_wf [OF w, of d ?q b] by (simp add: that)
  ultimately show ?thesis using w m by (auto simp: place_at_def Let_def split: prod.split read.split)
qed

lemma copy_tree_wf:
  assumes "wf_tree t"
  shows "wf_tree (fst (copy_tree ds s sp d dest t))"
proof -
  have "wf_tree (fst (fst (walk_paths (place_at ds s sp d dest) (walk_order s sp) (t, ()))))"
    by (rule walk_keeps [of "\<lambda>a. wf_tree (fst a)"]) (simp_all add: place_at_wf assms)
  then show ?thesis by (auto simp: copy_tree_def split: prod.split)
qed

lemma copy_tree_places:
  assumes ws: "wf_tree s" and c: "copy_tree ds s sp d dest t = (t', None)" and e: "\<And>r. content t dest r = None" and w: "wf_tree t"
  shows "placed_from s sp dest t t'"
proof -
  let ?T = "\<lambda>p. if prefix sp p then Some (moved_to sp dest p) else None"
  from c have wk: "walk_paths (place_at ds s sp d dest) (walk_order s sp) (t, ()) = ((t', ()), None)"
    by (auto simp: copy_tree_def split: prod.splits)
  have sub: "set (walk_order s sp) \<subseteq> {p. prefix sp p}" by (auto simp: walk_order_mem)
  have one: "one_source s ?T (set (walk_order s sp))"
    by (auto simp: one_source_def split: if_splits dest!: walk_below)
  have cp: "copies s ?T (walk_order s sp) t t'" using tree_copy.walk_copies [OF wk sub one] by simp
  have listed: "sp @ r \<in> set (walk_order s sp)" if "content s sp r \<noteq> None" for r
    using walk_order_file [OF ws that] by (cases "r = []") (auto simp: walk_order_mem)
  have "content t' dest r = content s sp r" for r
  proof (cases "content s sp r")
    case (Some b)
    then show ?thesis using cp listed [of r] unfolding copies_def content_def by fastforce
  next
    case None
    have "\<forall>p \<in> set (walk_order s sp). file_at s p \<noteq> None \<longrightarrow> ?T p \<noteq> Some (dest @ r)"
      using None by (auto simp: content_def split: if_splits dest!: walk_below)
    then show ?thesis using cp e [of r] None unfolding copies_def content_def by metis
  qed
  moreover have "file_at t' q = file_at t q" if "\<not> prefix dest q" for q
  proof -
    have "?T p \<noteq> Some q" for p using that by (auto simp: moved_to_def)
    then show ?thesis using cp unfolding copies_def by blast
  qed
  moreover have "wf_tree t'" using copy_tree_wf [OF w, of ds s sp d dest] by (simp add: c)
  ultimately show ?thesis unfolding placed_from_def by blast
qed

lemma place_tree_places:
  assumes ws: "wf_tree s" and sp: "node_at s sp = Some Dir" and dest: "dest \<noteq> []" and w: "wf_tree t"
    and p: "place_tree ds s sp d dest t = (t', None)"
  shows "placed_from s sp dest t t'"
proof -
  from p obtain t1 t2 where r: "remove_all d dest t = (t1, True)" and m: "mkdir_all d (butlast dest) t1 = (t2, True)"
    and c: "(if \<not> no_rename d t2 dest then (graft s sp dest t2, None) else copy_tree ds s sp d dest t2) = (t', None)"
    by (auto simp: place_tree_def split: prod.splits bool.splits)
  have w2: "wf_tree t2" using remove_all_wf [OF w, of d dest] mkdir_all_wf [of t1 d "butlast dest"] by (simp add: r m)
  have gone: "node_at t2 q = None" if "prefix dest q" for q
  proof -
    have "q \<noteq> []" using that dest by auto
    then have "node_at t1 q = None" by (rule remove_all_ok [OF r that])
    moreover have "\<not> prefix q (butlast dest)"
    proof
      assume "prefix q (butlast dest)"
      then have "length dest \<le> length (butlast dest)" using that prefix_length_le prefix_order.trans by blast
      with dest show False by (cases dest rule: rev_cases) auto
    qed
    ultimately show ?thesis using mkdir_all_changes [OF m, of q] by metis
  qed
  have out: "file_at t2 q = file_at t q" if "\<not> prefix dest q" for q
  proof -
    have "file_at t2 q = file_at t1 q" using mkdir_all_files [OF m] by simp
    also have "\<dots> = file_at t q" using remove_all_same_but [OF r] that by (intro file_at_same) (auto dest: same_butD)
    finally show ?thesis .
  qed
  have "placed_from s sp dest t2 t'"
  proof (cases "no_rename d t2 dest")
    case True
    have "content t2 dest x = None" for x using gone [of "dest @ x"] by (simp add: content_def file_at_def)
    with True c show ?thesis by (intro copy_tree_places [OF ws _ _ w2]) auto
  next
    case False
    with c have t': "t' = graft s sp dest t2" by simp
    note g = graft_nodes [OF ws sp dest, where t = t2]
    have "file_at t' (dest @ x) = file_at s (sp @ x)" for x
      using g(1) [of x] g(2) [of "dest @ x"] gone [of "dest @ x"]
      by (cases "node_at s (sp @ x)") (auto simp: t' file_at_def)
    moreover have "file_at t' q = file_at t2 q" if "\<not> prefix dest q" for q
      unfolding t' by (rule file_at_same, rule g(2)) (use that in auto)
    moreover have "wf_tree t'" unfolding t' by (rule graft_wf [OF ws sp dest w2 gone mkdir_all_ok [OF m]])
    ultimately show ?thesis unfolding placed_from_def by (auto simp: content_def fun_eq_iff)
  qed
  with out show ?thesis unfolding placed_from_def by simp
qed

section \<open>What is unpacked\<close>

text \<open>What the SDK documents of its digest: it is of what the tree holds, and what it leaves out (the locations
  codegen regenerates) is what \<^verbatim>\<open>Prune\<close> deletes, and nothing else.\<close>

definition regenerated :: "path \<Rightarrow> bool" where
  "regenerated r \<longleftrightarrow> prefix [''src'', ''gen''] r \<or> ''node_modules'' \<in> set r \<or> ''.w17dev'' \<in> set r"

definition kept_content :: "(path \<Rightarrow> string option) \<Rightarrow> path \<Rightarrow> string option" where
  "kept_content c r = (if regenerated r then None else c r)"

definition digester_laws :: "digester \<Rightarrow> bool" where
  "digester_laws G \<longleftrightarrow>
     (\<forall>t dest t' dest'. content t dest = content t' dest' \<longrightarrow> dg_of G t dest = dg_of G t' dest') \<and>
     (\<forall>t dest t'. wf_tree t \<longrightarrow> dg_prune G dest t = (t', True) \<longrightarrow>
        wf_tree t' \<and> content t' dest = kept_content (content t dest) \<and> (\<forall>p. \<not> prefix dest p \<longrightarrow> file_at t' p = file_at t p))"

text \<open>What the unpack makes of what a tree holds, where no file stands where another is renamed to.\<close>

definition clash_free :: "(path \<Rightarrow> string option) \<Rightarrow> bool" where
  "clash_free c \<longleftrightarrow>
     (\<forall>p. c p \<noteq> None \<longrightarrow> p \<noteq> [] \<longrightarrow> suffix src_suffix (last p) \<longrightarrow> \<not> is_published_test (last p) \<longrightarrow> c (bare_target p) = None)"

definition lands :: "(path \<Rightarrow> string option) \<Rightarrow> (path \<Rightarrow> string option) \<Rightarrow> bool" where
  "lands published landed \<longleftrightarrow>
     (\<forall>q b. landed q = Some b \<longleftrightarrow> (\<exists>p. landed_name p = Some q \<and> published p = Some b))"

lemma no_clash_content: "no_clash t dest \<longleftrightarrow> clash_free (content t dest)"
  by (simp add: no_clash_def clash_free_def)

lemma clash_free_kept: "clash_free c \<Longrightarrow> clash_free (kept_content c)"
  by (auto simp: clash_free_def kept_content_def)

lemma option_map_eqI: "(\<And>q b. c1 q = Some b \<longleftrightarrow> c2 q = Some b) \<Longrightarrow> c1 = c2"
  by (rule ext) (metis not_Some_eq)

lemma lands_unique: "lands c c1 \<Longrightarrow> lands c c2 \<Longrightarrow> c1 = c2"
  unfolding lands_def by (rule option_map_eqI) simp

lemma publishes_unique: "publishes c c1 \<Longrightarrow> publishes c c2 \<Longrightarrow> c1 = c2"
  unfolding publishes_def by (rule option_map_eqI) simp

lemma unpack_steps:
  assumes "unpack_digests G d dest t = (t', Some (published, landed))"
  obtains t1 where "dg_prune G dest t = (t1, True)" and "dg_of G t1 dest = Some published"
    and "strip_src_suffix d dest t1 = (t', None)" and "dg_of G t' dest = Some landed"
  using assms by (auto simp: unpack_digests_def split: prod.splits bool.splits option.splits)

text \<open>A path that is neither dropped nor renamed nor a target is not touched.\<close>

lemma strip_untouched:
  assumes w: "wf_tree t" and st: "strip_src_suffix d dest t = (t', None)" and dd: "node_at t dest = Some Dir"
    and x: "\<And>r. r \<noteq> [] \<Longrightarrow> content t dest r \<noteq> None \<Longrightarrow>
      (is_published_test (last r) \<longrightarrow> x \<noteq> dest @ r) \<and> (suffix src_suffix (last r) \<longrightarrow> x \<noteq> dest @ r \<and> x \<noteq> dest @ bare_target r)"
  shows "file_at t' x = file_at t x"
proof -
  have renames: "walk_paths (bare_file d) ps u = (u', None) \<Longrightarrow> (\<forall>p \<in> set ps. x \<noteq> p \<and> x \<noteq> bare_target p) \<Longrightarrow> file_at u' x = file_at u x" for ps u u'
  proof (induction ps arbitrary: u)
    case (Cons p ps)
    from Cons.prems(1) obtain u1 where o: "rename_file d p (bare_target p) u = (u1, True)"
      and wk: "walk_paths (bare_file d) ps u1 = (u', None)" unfolding walk_Cons_ok bare_file_ok by blast
    have "file_at u1 x = file_at u x"
      using rename_file_same_but [OF o] Cons.prems(2) by (intro file_at_same) (auto dest: same_butD)
    with Cons.IH [OF wk] Cons.prems(2) show ?case by simp
  qed simp
  let ?D = "filter (\<lambda>p. node_at t p \<noteq> Some Dir \<and> is_published_test (last p)) (walk_order t dest)"
  let ?R = "filter (\<lambda>p. node_at t p \<noteq> Some Dir \<and> \<not> is_published_test (last p) \<and> suffix src_suffix (last p)) (walk_order t dest)"
  from st obtain dr where n: "walk_paths (note_strip d t) (walk_order t dest) ([], []) = (dr, None)"
    and rest: "(case dr of (ds, rs) \<Rightarrow> if_ok (walk_paths (drop_file d) ds t) (walk_paths (bare_file d) rs)) = (t', None)"
    by (auto simp: strip_src_suffix_def split: prod.splits option.splits)
  have "dr = (?D, ?R)" using note_strip_walk [OF n] by simp
  with rest obtain t1 where dr: "walk_paths (drop_file d) ?D t = (t1, None)" and rn: "walk_paths (bare_file d) ?R t1 = (t', None)"
    by (auto simp: if_ok_None)
  have listed: "\<exists>r. p = dest @ r \<and> r \<noteq> [] \<and> content t dest r \<noteq> None" if "p \<in> set (walk_order t dest)" "node_at t p \<noteq> Some Dir" for p
  proof -
    from walk_below [OF that(1)] obtain r where r: "p = dest @ r" by blast
    have "node_at t p \<noteq> None" using that dd node_at_listed [of p t] by (auto simp: walk_order_mem)
    with that(2) file_here [of t p] r dd show ?thesis by (auto simp: content_def)
  qed
  have "x \<notin> set ?D"
  proof
    assume d: "x \<in> set ?D"
    then obtain r where "x = dest @ r" "r \<noteq> []" "content t dest r \<noteq> None" using listed [of x] by auto
    with x [of r] d show False by simp
  qed
  then have "file_at t1 x = file_at t x" using drop_files [OF dr, of x] by auto
  moreover have "file_at t' x = file_at t1 x"
  proof (rule renames [OF rn], rule ballI)
    fix p assume r: "p \<in> set ?R"
    then obtain r where "p = dest @ r" "r \<noteq> []" "content t dest r \<noteq> None" using listed [of p] by auto
    with x [of r] r show "x \<noteq> p \<and> x \<noteq> bare_target p" by (simp add: bare_target_below)
  qed
  ultimately show ?thesis by simp
qed

lemma unpack_content:
  assumes G: "digester_laws G" and w: "wf_tree t" and dd: "content t dest [''plugin.yaml''] \<noteq> None" and c: "clash_free (content t dest)"
    and u: "unpack_digests G d dest t = (t', Some (published, landed))"
  shows "lands (kept_content (content t dest)) (content t' dest)"
proof -
  from u obtain t1 where p: "dg_prune G dest t = (t1, True)" and st: "strip_src_suffix d dest t1 = (t', None)" by (rule unpack_steps)
  have w1: "wf_tree t1" and c1: "content t1 dest = kept_content (content t dest)" using G w p unfolding digester_laws_def by blast+
  have "content t1 dest [''plugin.yaml''] \<noteq> None" using dd by (simp add: c1 kept_content_def regenerated_def)
  then have "node_at t1 dest = Some Dir" by (rule content_dir [OF w1])
  with strip_content(1) [OF w1 st] c c1 show ?thesis
    by (simp add: lands_def no_clash_content clash_free_kept)
qed

text \<open>What every unpack keeps: the files outside, and the manifest unless another file is renamed to it.\<close>

lemma unpack_keeps:
  assumes G: "digester_laws G" and w: "wf_tree t" and dd: "content t dest [''plugin.yaml''] \<noteq> None"
    and u: "unpack_digests G d dest t = (t', Some (published, landed))"
  shows "\<not> prefix dest p \<Longrightarrow> file_at t' p = file_at t p"
    and "content t dest [''plugin.yaml.src''] = None \<Longrightarrow> content t' dest [''plugin.yaml''] = content t dest [''plugin.yaml'']"
    and "dg_of G t' dest = Some landed"
proof -
  from u obtain t1 where p: "dg_prune G dest t = (t1, True)" and st: "strip_src_suffix d dest t1 = (t', None)"
    and dg: "dg_of G t' dest = Some landed" by (rule unpack_steps)
  have w1: "wf_tree t1" and c1: "content t1 dest = kept_content (content t dest)"
    and out: "\<And>p. \<not> prefix dest p \<Longrightarrow> file_at t1 p = file_at t p" using G w p unfolding digester_laws_def by blast+
  have m1: "content t1 dest [''plugin.yaml''] = content t dest [''plugin.yaml'']" by (simp add: c1 kept_content_def regenerated_def)
  then have d1: "node_at t1 dest = Some Dir" using dd content_dir [OF w1, of dest "''plugin.yaml''"] by simp
  show "file_at t' p = file_at t p" if "\<not> prefix dest p"
  proof -
    have "file_at t' p = file_at t1 p" by (rule strip_untouched [OF w1 st d1]) (use that in auto)
    with out [OF that] show ?thesis by simp
  qed
  show "dg_of G t' dest = Some landed" by (rule dg)
  show "content t' dest [''plugin.yaml''] = content t dest [''plugin.yaml'']" if n: "content t dest [''plugin.yaml.src''] = None"
  proof -
    have no: "\<not> suffix src_suffix ''plugin.yaml''" "\<not> is_published_test ''plugin.yaml''"
      by (simp_all add: src_suffix_def is_published_test_def suffix_def)
    have "file_at t' (dest @ [''plugin.yaml'']) = file_at t1 (dest @ [''plugin.yaml''])"
    proof (rule strip_untouched [OF w1 st d1])
      fix r assume r: "r \<noteq> []" "content t1 dest r \<noteq> None"
      have "bare_target r \<noteq> [''plugin.yaml'']" if s: "suffix src_suffix (last r)"
      proof
        assume b: "bare_target r = [''plugin.yaml'']"
        obtain y where y: "last r = y @ src_suffix" using s by (auto simp: suffix_def)
        have t: "trim_suffix src_suffix (last r) = y" using s by (simp add: y trim_suffix_def)
        have "r = [''plugin.yaml.src'']"
        proof (cases "y = []")
          case True
          with b t have "butlast r = [''plugin.yaml'']" by (simp add: bare_target_def)
          then have "r = [''plugin.yaml'', ''.src'']" using r(1) y True by (metis append_butlast_last_id append_Cons append_Nil src_suffix_def)
          then have "node_at t1 (dest @ [''plugin.yaml'']) = Some Dir"
            using r(2) wf_tree_ancestor [OF w1, of "dest @ r" "dest @ [''plugin.yaml'']"]
            by (auto simp: content_def file_at_def strict_prefix_def split: option.splits)
          with m1 dd show ?thesis by (simp add: content_def)
        next
          case False
          with b t have "butlast r = []" "y = ''plugin.yaml''" by (auto simp: bare_target_def split: if_splits)
          with r(1) y show ?thesis by (metis append_butlast_last_id append_Nil src_suffix_def append_Cons)
        qed
        with n r(2) show False by (simp add: c1 kept_content_def split: if_splits)
      qed
      with no show "(is_published_test (last r) \<longrightarrow> dest @ [''plugin.yaml''] \<noteq> dest @ r) \<and>
          (suffix src_suffix (last r) \<longrightarrow> dest @ [''plugin.yaml''] \<noteq> dest @ r \<and> dest @ [''plugin.yaml''] \<noteq> dest @ bare_target r)"
        by auto
    qed
    with m1 show ?thesis by (simp add: content_def)
  qed
qed

section \<open>A fetched plugin\<close>

text \<open>What the code relies on of git: the clone is a tree of files, and a command that only asks changes none of them.\<close>

definition git_laws :: "git \<Rightarrow> bool" where
  "git_laws G \<longleftrightarrow>
     (\<forall>args w. wf_tree w \<longrightarrow> wf_tree (fst (G args w))) \<and>
     (\<forall>args w. args \<noteq> [] \<longrightarrow> hd args \<in> {''rev-parse'', ''for-each-ref''} \<longrightarrow> fst (G args w) = w)"

lemma run_git_laws:
  assumes "git_laws G" and "run_git G args w = (w', out, ok)"
  shows "wf_tree w \<Longrightarrow> wf_tree w'" and "args \<noteq> [] \<Longrightarrow> hd args \<in> {''rev-parse'', ''for-each-ref''} \<Longrightarrow> w' = w"
proof -
  have w': "w' = fst (G args w)" using assms(2) by (auto simp: run_git_def split: prod.splits)
  show "wf_tree w \<Longrightarrow> wf_tree w'" and "args \<noteq> [] \<Longrightarrow> hd args \<in> {''rev-parse'', ''for-each-ref''} \<Longrightarrow> w' = w"
    using assms(1) unfolding w' git_laws_def by blast+
qed

lemma and_git_wf: "git_laws G \<Longrightarrow> wf_tree (fst r) \<Longrightarrow> wf_tree (fst (and_git G args err r))"
  by (auto simp: and_git_def split: prod.split option.split dest: run_git_laws(1))

lemma materialise_wf: "git_laws G \<Longrightarrow> wf_tree w \<Longrightarrow> wf_tree (fst (materialise G work src w))"
  by (simp add: materialise_def and_git_wf)

lemma tag_signature_same:
  assumes G: "git_laws G"
  shows "fst (tag_signature G tag w) = w"
proof -
  have ask: "w' = w" if "run_git G (''for-each-ref'' # args) w = (w', out, ok)" for args w w' out ok
    by (rule run_git_laws(2) [OF G that]) simp_all
  let ?a = "[''for-each-ref'', ''--format=%(objecttype)'', ''refs/tags/'' @ tag]"
  let ?b = "[''for-each-ref'', ''--format=%(contents)'', ''refs/tags/'' @ tag]"
  obtain w1 kind ok where 1: "run_git G ?a w = (w1, kind, ok)" by (metis prod_cases3)
  obtain w2 msg ok' where 2: "run_git G ?b w1 = (w2, msg, ok')" by (metis prod_cases3)
  have "w1 = w" "w2 = w" using ask [OF 1] ask [OF 2] by simp_all
  with 1 2 show ?thesis unfolding tag_signature_def Let_def by (cases ok; cases ok') simp_all
qed

lemma tagged_same:
  assumes G: "git_laws (ie_git E)" and "tagged E src dir w = (w', r)"
  shows "w' = w"
proof -
  obtain w1 s where t: "tag_signature (ie_git E) (source_tag src) w = (w1, s)" by fastforce
  have "w1 = w" using tag_signature_same [OF G, of "source_tag src" w] by (simp add: t)
  with assms(2) t show ?thesis by (cases s) (simp_all add: tagged_def split: if_splits)
qed

lemma checked_clone_ok:
  assumes G: "git_laws (ie_git E)" and c: "checked_clone E src = Inr (w, sha, version, sig)"
  shows "validate_source src = None" and "wf_tree w" and "node_at w (plugin_dir (so_plugin src)) = Some Dir"
    and "check_manifest (ie_disk E) w (plugin_dir (so_plugin src)) src = Inr version"
    and "materialise (ie_git E) (ie_work E) src [] = (w, None)"
    and "run_git (ie_git E) [''rev-parse'', ''HEAD''] w = (w, sha, True)"
proof -
  from c obtain w1 w2 where v: "validate_source src = None" and m: "materialise (ie_git E) (ie_work E) src [] = (w1, None)"
    and h: "run_git (ie_git E) [''rev-parse'', ''HEAD''] w1 = (w2, sha, True)" and nd: "node_at w2 (plugin_dir (so_plugin src)) = Some Dir"
    and cm: "check_manifest (ie_disk E) w2 (plugin_dir (so_plugin src)) src = Inr version"
    and t: "tagged E src (plugin_dir (so_plugin src)) w2 = (w, Inr sig)"
    by (auto simp: checked_clone_def Let_def split: option.splits if_splits prod.splits bool.splits sum.splits)
  have "wf_tree w1" using materialise_wf [OF G, of "[]" "ie_work E" src] by (simp add: m wf_tree_def)
  moreover have "w2 = w1" by (rule run_git_laws(2) [OF G h]) simp_all
  moreover have "w = w2" by (rule tagged_same [OF G t])
  ultimately show "validate_source src = None" "wf_tree w" "node_at w (plugin_dir (so_plugin src)) = Some Dir"
    "check_manifest (ie_disk E) w (plugin_dir (so_plugin src)) src = Inr version"
    "materialise (ie_git E) (ie_work E) src [] = (w, None)" "run_git (ie_git E) [''rev-parse'', ''HEAD''] w = (w, sha, True)"
    using v nd cm m h by simp_all
qed

lemma check_manifest_ok:
  assumes "check_manifest d t dir src = Inr version"
  obtains m where "content t dir [''plugin.yaml''] = Some m" and "manifest_field m ''name'' = so_plugin src"
    and "''v'' @ manifest_field m ''version'' = version" and "so_commit src = [] \<Longrightarrow> version = so_version src"
proof -
  from assms obtain m where r: "read_file d t (dir @ [''plugin.yaml'']) = Bytes m"
    by (auto simp: check_manifest_def split: read.splits)
  then have "content t dir [''plugin.yaml''] = Some m"
    by (auto simp: content_def read_file_def file_at_def split: option.splits node.splits if_splits)
  with assms r show ?thesis by (intro that) (auto simp: check_manifest_def Let_def split: if_splits)
qed

lemma rendered_tree_ok:
  assumes w: "wf_tree w" and d: "node_at w dir = Some Dir" and r: "rendered_tree E w dir = Inr r"
  shows "wf_tree r" and "node_at r dir = Some Dir" and "content r dir [''plugin.yaml''] = content w dir [''plugin.yaml'']"
    and "content w dir [''plugin.yaml.src''] = None \<or> is_author_tree (ie_disk E) w dir \<Longrightarrow> content r dir [''plugin.yaml.src''] = None"
proof -
  have e: "wf_tree []" by (simp add: wf_tree_def)
  have pub: "content t' dir [''plugin.yaml''] = content w dir [''plugin.yaml'']" "content t' dir [''plugin.yaml.src''] = None"
    if p: "publishes (content w dir) (content t' dir)" for t'
  proof -
    have y: "published_name p = Some [''plugin.yaml''] \<longleftrightarrow> p = [''plugin.yaml'']" for p
      by (auto simp: published_name_def split: list.splits if_splits)
    have n: "published_name p \<noteq> Some [''plugin.yaml.src'']" for p
      by (auto simp: published_name_def split: list.splits if_splits)
    have "content t' dir [''plugin.yaml''] = Some b \<longleftrightarrow> content w dir [''plugin.yaml''] = Some b" for b
      using p unfolding publishes_def by (simp add: y)
    then show "content t' dir [''plugin.yaml''] = content w dir [''plugin.yaml'']" by (metis not_Some_eq)
    have "content t' dir [''plugin.yaml.src''] \<noteq> Some b" for b using p n unfolding publishes_def by blast
    then show "content t' dir [''plugin.yaml.src''] = None" by (metis not_Some_eq)
  qed
  consider (same) "r = w" "\<not> is_author_tree (ie_disk E) w dir"
    | (rend) st where "render_plugin (ie_yaml E) (ie_disk E) w dir (ie_disk E) dir [] = ((r, st), None)"
    using r by (auto simp: rendered_tree_def split: if_splits prod.splits option.splits)
  then have "wf_tree r \<and> node_at r dir = Some Dir \<and> content r dir [''plugin.yaml''] = content w dir [''plugin.yaml''] \<and>
    (content w dir [''plugin.yaml.src''] = None \<or> is_author_tree (ie_disk E) w dir \<longrightarrow> content r dir [''plugin.yaml.src''] = None)"
  proof cases
    case same
    with w d show ?thesis by simp
  next
    case (rend st)
    have "wf_tree r" using render_plugin_wf [OF e, of "ie_yaml E" "ie_disk E" w dir "ie_disk E" dir] by (simp add: rend)
    with pub render_plugin_files [OF w rend] rendered_dest [OF w e rend] show ?thesis by simp
  qed
  then show "wf_tree r" and "node_at r dir = Some Dir" and "content r dir [''plugin.yaml''] = content w dir [''plugin.yaml'']"
    and "content w dir [''plugin.yaml.src''] = None \<or> is_author_tree (ie_disk E) w dir \<Longrightarrow> content r dir [''plugin.yaml.src''] = None"
    by blast+
qed

text \<open>What both installs do with the tree they place.\<close>

lemma unpack_at_ok:
  assumes G: "digester_laws G" and ws: "wf_tree s" and sp: "node_at s sp = Some Dir" and dest: "dest \<noteq> []" and w: "wf_tree t"
    and m: "content s sp [''plugin.yaml''] = Some b"
    and u: "unpack_at G d dest (place_tree ds s sp d dest t) = (t', Inr (published, landed, sig))"
  shows "dg_of G t' dest = Some landed" and "\<not> prefix dest p \<Longrightarrow> file_at t' p = file_at t p"
    and "content s sp [''plugin.yaml.src''] = None \<Longrightarrow> content t' dest [''plugin.yaml''] = Some b"
    and "clash_free (content s sp) \<Longrightarrow> lands (kept_content (content s sp)) (content t' dest)"
proof -
  from u obtain t1 where p: "place_tree ds s sp d dest t = (t1, None)" and n: "unpack_digests G d dest t1 = (t', Some (published, landed))"
    by (auto simp: unpack_at_def split: prod.splits option.splits)
  have pl: "placed_from s sp dest t t1" by (rule place_tree_places [OF ws sp dest w p])
  then have w1: "wf_tree t1" and c: "content t1 dest = content s sp" and o: "\<not> prefix dest p \<Longrightarrow> file_at t1 p = file_at t p" for p
    unfolding placed_from_def by blast+
  have y: "content t1 dest [''plugin.yaml''] \<noteq> None" by (simp add: c m)
  note k = unpack_keeps [OF G w1 y n]
  show "dg_of G t' dest = Some landed" by (rule k(3))
  show "\<not> prefix dest p \<Longrightarrow> file_at t' p = file_at t p" using k(1) [of p] o [of p] by simp
  show "content s sp [''plugin.yaml.src''] = None \<Longrightarrow> content t' dest [''plugin.yaml''] = Some b" using k(2) by (simp add: c m)
  show "clash_free (content s sp) \<Longrightarrow> lands (kept_content (content s sp)) (content t' dest)"
    using unpack_content [OF G w1 y _ n] by (simp add: c)
qed

text \<open>C9: a fetch that succeeds was asked for one version or one full commit and recorded it; the commit it records
  is the one its clone stands on after that release was cloned or that commit checked out; the digest it gives the lock
  is the one of the tree that landed; for a release the version is the tag's; it changed no file outside its
  destination. The manifest of the clone was checked, and it is the manifest that landed, with the name that was asked
  for and the version that was recorded, unless the clone is in the published form and carries a \<^verbatim>\<open>plugin.yaml.src\<close>
  of its own, which the unpacking puts over the checked one.\<close>

theorem a_fetched_plugin_is_the_one_asked_for:
  assumes laws: "digester_laws (ie_digest E)" "git_laws (ie_git E)" and w: "wf_tree t" and dest: "dest \<noteq> []"
    and f: "fetch E src d dest t = (t', Inr got)"
  shows "validate_source src = None \<and> fd_repo got = so_repo src \<and> fd_ref got = source_ref src \<and>
    (so_commit src = [] \<longrightarrow> fd_version got = so_version src) \<and>
    dg_of (ie_digest E) t' dest = Some (fd_digest got) \<and>
    (\<forall>p. \<not> prefix dest p \<longrightarrow> file_at t' p = file_at t p) \<and>
    (\<exists>clone m. materialise (ie_git E) (ie_work E) src [] = (clone, None) \<and>
       run_git (ie_git E) [''rev-parse'', ''HEAD''] clone = (clone, fd_sha got, True) \<and>
       content clone (plugin_dir (so_plugin src)) [''plugin.yaml''] = Some m \<and> manifest_field m ''name'' = so_plugin src \<and>
       ''v'' @ manifest_field m ''version'' = fd_version got \<and>
       (content clone (plugin_dir (so_plugin src)) [''plugin.yaml.src''] = None \<or>
          is_author_tree (ie_disk E) clone (plugin_dir (so_plugin src)) \<longrightarrow>
        content t' dest [''plugin.yaml''] = Some m))"
proof -
  let ?dir = "plugin_dir (so_plugin src)"
  from f obtain clone sha v sig r published landed fil where c: "checked_clone E src = Inr (clone, sha, v, sig)"
    and r: "rendered_tree E clone ?dir = Inr r"
    and u: "unpack_at (ie_digest E) d dest (place_tree (ie_disk E) r ?dir d dest t) = (t', Inr (published, landed, fil))"
    and got: "fd_repo got = so_repo src" "fd_ref got = source_ref src" "fd_version got = v" "fd_digest got = landed"
      "fd_sha got = sha"
    by (auto simp: fetch_def Let_def split: sum.splits prod.splits)
  note ok = checked_clone_ok [OF laws(2) c]
  from check_manifest_ok [OF ok(4)] obtain m where m: "content clone ?dir [''plugin.yaml''] = Some m"
    and mm: "manifest_field m ''name'' = so_plugin src" "''v'' @ manifest_field m ''version'' = v"
    and rel: "so_commit src = [] \<Longrightarrow> v = so_version src" by blast
  note rr = rendered_tree_ok [OF ok(2,3) r]
  from rr(3) m have my: "content r ?dir [''plugin.yaml''] = Some m" by simp
  note un = unpack_at_ok [OF laws(1) rr(1,2) dest w my u]
  have landed: "content t' dest [''plugin.yaml''] = Some m"
    if "content clone ?dir [''plugin.yaml.src''] = None \<or> is_author_tree (ie_disk E) clone ?dir"
    by (rule un(3), rule rr(4)) (use that in blast)
  have "materialise (ie_git E) (ie_work E) src [] = (clone, None) \<and>
    run_git (ie_git E) [''rev-parse'', ''HEAD''] clone = (clone, fd_sha got, True) \<and>
    content clone ?dir [''plugin.yaml''] = Some m \<and> manifest_field m ''name'' = so_plugin src \<and>
    ''v'' @ manifest_field m ''version'' = fd_version got \<and>
    (content clone ?dir [''plugin.yaml.src''] = None \<or> is_author_tree (ie_disk E) clone ?dir \<longrightarrow>
      content t' dest [''plugin.yaml''] = Some m)"
    using ok(5,6) got(3,5) m mm landed by blast
  with ok(1) got rel un(1,2) show ?thesis by auto
qed

text \<open>Two trees that hold the same unpack to the same.\<close>

lemma unpack_at_same:
  assumes G: "digester_laws G" and ws: "wf_tree s" "wf_tree s'" and sp: "node_at s sp = Some Dir" "node_at s' sp' = Some Dir"
    and dest: "dest \<noteq> []" "dest' \<noteq> []" and w: "wf_tree t" "wf_tree u" and c: "content s sp = content s' sp'"
    and m: "content s sp [''plugin.yaml''] = Some b" and free: "clash_free (content s sp)" and rd: "unreadable d = (\<lambda>_ _. False)"
    and u1: "unpack_at G d dest (place_tree ds s sp d dest t) = (t', Inr (published, landed, sig))"
    and u2: "unpack_at G d dest' (place_tree ds s' sp' d dest' u) = (u', Inr (published', landed', sig'))"
  shows "content t' dest = content u' dest' \<and> published = published' \<and> landed = landed' \<and> sig = sig'"
proof -
  have m': "content s' sp' [''plugin.yaml''] = Some b" using m c by simp
  note a1 = unpack_at_ok [OF G ws(1) sp(1) dest(1) w(1) m u1] and a2 = unpack_at_ok [OF G ws(2) sp(2) dest(2) w(2) m' u2]
  have same: "content t' dest = content u' dest'"
    by (rule lands_unique [OF a1(4) a2(4) [folded c]]) (use free c in simp_all)
  have dg: "dg_of G x y = dg_of G x' y'" if "content x y = content x' y'" for x y x' y' using G that unfolding digester_laws_def by blast
  have "landed = landed'" using a1(1) a2(1) dg [OF same] by simp
  moreover have pub: "\<exists>x. content x q = kept_content (content z zp) \<and> dg_of G x q = Some dg"
    if "wf_tree z" "node_at z zp = Some Dir" "q \<noteq> []" "wf_tree v" and
      p: "unpack_at G d q (place_tree ds z zp d q v) = (v', Inr (dg, rest))" for z zp q v v' dg rest
  proof -
    from p obtain v1 l where pl: "place_tree ds z zp d q v = (v1, None)" and n: "unpack_digests G d q v1 = (v', Some (dg, l))"
      by (auto simp: unpack_at_def split: prod.splits option.splits)
    have "placed_from z zp q v v1" by (rule place_tree_places [OF that(1-4) pl])
    moreover from n obtain v2 where "dg_prune G q v1 = (v2, True)" "dg_of G v2 q = Some dg" by (rule unpack_steps)
    ultimately show ?thesis using G unfolding digester_laws_def placed_from_def by metis
  qed
  have "published = published'"
    using pub [OF ws(1) sp(1) dest(1) w(1) u1] pub [OF ws(2) sp(2) dest(2) w(2) u2] dg c by (metis option.inject)
  moreover have "sig = sig'"
  proof -
    have r: "(case read_file d x (q @ [signature_file]) of Bytes b \<Rightarrow> b | _ \<Rightarrow> []) = (case content x q [signature_file] of Some b \<Rightarrow> b | None \<Rightarrow> [])" for x q
      by (auto simp: read_file_def content_def file_at_def rd split: option.split node.split)
    have "sig = (case content t' dest [signature_file] of Some b \<Rightarrow> b | None \<Rightarrow> [])"
      "sig' = (case content u' dest' [signature_file] of Some b \<Rightarrow> b | None \<Rightarrow> [])"
      using u1 u2 by (auto simp: unpack_at_def r split: prod.splits option.splits)
    with same show ?thesis by simp
  qed
  ultimately show ?thesis using same by blast
qed

text \<open>C12: installing an author's tree from a directory and installing the published form a render of it gives are the
  same: the project has the same files, and the lock the same version, digests and signature, whatever else the project
  and the two disks hold.\<close>

theorem installing_a_tree_or_its_release_is_the_same:
  assumes laws: "digester_laws (ie_digest E)" and w: "wf_tree s" "wf_tree p" "wf_tree t" "wf_tree u"
    and dest: "dest \<noteq> []" "dest' \<noteq> []" and rd: "unreadable d = (\<lambda>_ _. False)"
    and author: "is_author_tree ds s src" "plain_protos s src"
    and render: "render_plugin (ie_yaml E) ds s src (ie_disk E) [''published''] [] = ((r, st), None)"
    and release: "content p dir = content r [''published'']"
    and i1: "from_dir E ds s src d dest t = (t', Inr got)" and i2: "from_dir E dp p dir d dest' u = (u', Inr got')"
  shows "content t' dest = content u' dest' \<and> got = got'"
proof -
  have e: "wf_tree []" by (simp add: wf_tree_def)
  have wr: "wf_tree r" using render_plugin_wf [OF e, of "ie_yaml E" ds s src "ie_disk E" "[''published'']"] by (simp add: render)
  have pub: "publishes (content s src) (content r [''published''])" using render_plugin_files [OF w(1) render] by blast
  have not_author: "\<not> is_author_tree dp p dir" by (rule published_not_author) (use pub release in simp)
  have free: "clash_free (content r [''published''])"
    using rendered_no_clash [OF w(1) render author(2)] by (simp add: no_clash_content)
  from i1 author(1) render obtain published landed fil v where
    u1: "unpack_at (ie_digest E) d dest (place_tree (ie_disk E) r [''published''] d dest t) = (t', Inr (published, landed, fil))"
    and v1: "manifest_version d t' dest = Inr v"
    and g1: "got = \<lparr>fd_repo = [], fd_ref = [], fd_version = v, fd_sha = [], fd_digest = landed, fd_published = published, fd_signature = fil\<rparr>"
    by (auto simp: from_dir_def local_tree_def split: sum.splits prod.splits if_splits)
  from i2 not_author obtain q published' landed' fil' v' where
    c2: "copy_tree dp p dir (ie_disk E) [''published''] [] = (q, None)"
    and u2: "unpack_at (ie_digest E) d dest' (place_tree (ie_disk E) q [''published''] d dest' u) = (u', Inr (published', landed', fil'))"
    and v2: "manifest_version d u' dest' = Inr v'"
    and g2: "got' = \<lparr>fd_repo = [], fd_ref = [], fd_version = v', fd_sha = [], fd_digest = landed', fd_published = published', fd_signature = fil'\<rparr>"
    by (auto simp: from_dir_def local_tree_def split: sum.splits prod.splits if_splits option.splits)
  have "placed_from p dir [''published''] [] q"
    by (rule copy_tree_places [OF w(2) c2 _ e]) (simp add: content_def file_at_def node_at_def)
  then have cq: "content q [''published''] = content r [''published'']" and wq: "wf_tree q" by (simp_all add: placed_from_def release)
  have dr: "node_at r [''published''] = Some Dir" by (rule rendered_dest [OF w(1) e render])
  have my: "\<exists>m. content r [''published''] [''plugin.yaml''] = Some m" by (rule rendered_manifest [OF w(1) render])
  then obtain m where m: "content r [''published''] [''plugin.yaml''] = Some m" by blast
  have dq: "node_at q [''published''] = Some Dir" using content_dir [OF wq, of _ "''plugin.yaml''"] m by (simp add: cq)
  note same = unpack_at_same [OF laws wr wq dr dq dest w(3,4) cq [symmetric] m free rd u1 u2]
  have mv: "manifest_version d x y = manifest_version d x' y'" if "content x y = content x' y'" for x y x' y'
  proof -
    have "(case read_file d x (y @ [''plugin.yaml'']) of Bytes b \<Rightarrow> f b | _ \<Rightarrow> g) = (case content x y [''plugin.yaml''] of Some b \<Rightarrow> f b | None \<Rightarrow> g)"
      for x y and f :: "string \<Rightarrow> fetch_error + string" and g
      by (auto simp: read_file_def content_def file_at_def rd split: option.split node.split)
    with that show ?thesis by (simp add: manifest_version_def)
  qed
  from same mv [of t' dest u' dest'] v1 v2 show ?thesis by (simp add: g1 g2)
qed

section \<open>Concrete installs\<close>

text \<open>A digest that tells trees apart only by their manifest, and one that prunes as documented.\<close>

definition prune_below :: "path \<Rightarrow> tree \<Rightarrow> tree \<times> bool" where
  "prune_below dest t =
     (filter (\<lambda>(p, _). \<not> (prefix dest p \<and> regenerated (drop (length dest) p))) t, True)"

definition manifest_digester :: digester where
  "manifest_digester = \<lparr>dg_of = \<lambda>t dest. content t dest [''plugin.yaml''], dg_prune = prune_below\<rparr>"

lemma regenerated_below: "regenerated r \<Longrightarrow> regenerated (r @ x)" and regenerated_ne: "regenerated r \<Longrightarrow> r \<noteq> []"
  by (auto simp: regenerated_def)

lemma manifest_digester_laws: "digester_laws manifest_digester"
proof -
  have p: "node_at (fst (prune_below dest t)) q =
      (if q = [] then Some Dir else if prefix dest q \<and> regenerated (drop (length dest) q) then None else node_at t q)" for dest t q
    using node_at_filter [of "\<lambda>p. \<not> (prefix dest p \<and> regenerated (drop (length dest) p))" t q] by (simp add: prune_below_def)
  have "wf_tree (fst (prune_below dest t))" if w: "wf_tree t" for dest t
  proof (rule wf_treeI)
    show "wf_map (fst (prune_below dest t))" "[] \<notin> fst ` set (fst (prune_below dest t))"
      using w by (auto simp: prune_below_def wf_tree_def)
    fix q assume "q \<in> set (keys_of (fst (prune_below dest t)))"
    then have q: "q \<in> fst ` set t" "\<not> (prefix dest q \<and> regenerated (drop (length dest) q))" by (auto simp: prune_below_def)
    have "node_at t (butlast q) = Some Dir" using wf_tree_listed [OF w, of q] q(1) by simp
    moreover have "\<not> (prefix dest (butlast q) \<and> regenerated (drop (length dest) (butlast q)))"
    proof
      assume a: "prefix dest (butlast q) \<and> regenerated (drop (length dest) (butlast q))"
      then obtain r where r: "butlast q = dest @ r" by (auto simp: prefix_def)
      have "q \<noteq> []" using w q(1) unfolding wf_tree_def by blast
      then have "q = dest @ r @ [last q]" using r by (metis append_assoc append_butlast_last_id)
      with a q(2) r show False using regenerated_below [of r "[last q]"] by (metis append_eq_conv_conj prefixI)
    qed
    ultimately show "node_at (fst (prune_below dest t)) (butlast q) = Some Dir" by (subst p) auto
  qed
  moreover have "content (fst (prune_below dest t)) dest = kept_content (content t dest)" for dest t
    using regenerated_ne by (auto simp: fun_eq_iff content_def kept_content_def file_at_def p)
  moreover have "file_at (fst (prune_below dest t)) q = file_at t q" if "\<not> prefix dest q" for dest t q
    using that by (auto simp: file_at_def p)
  ultimately show ?thesis
    unfolding digester_laws_def manifest_digester_def by (auto simp: prune_below_def fst_def split: prod.splits)
qed

text \<open>A repository with one lightweight release, in the published form.\<close>

definition release_clone :: "string list \<Rightarrow> tree" where
  "release_clone later =
     [([''p''], Dir), ([''p'', ''plugin.yaml''], File (join_with [nl] [''name: p'', ''version: 1.0.0''])),
      ([''p'', ''src''], Dir), ([''p'', ''src'', ''a.go.src''], File ''go'')] @
     map (\<lambda>v. ([''p'', ''plugin.yaml.src''], File (join_with [nl] [''name: p'', ''version: '' @ v]))) later"

definition one_release_git :: "tree \<Rightarrow> git" where
  "one_release_git clone args w =
     (if args = [] then (w, [], False)
      else if hd args = ''clone'' then (clone, [], True)
      else if hd args = ''rev-parse'' then (w, ''c0ffee'', True)
      else if hd args = ''for-each-ref'' then (w, ''commit'', True)
      else (w, [], True))"

definition sample_env :: "tree \<Rightarrow> install_env" where
  "sample_env clone = \<lparr>ie_git = one_release_git clone, ie_work = ''work'', ie_temp = True, ie_render_temp = True,
     ie_disk = healthy_disk, ie_yaml = (\<lambda>_. None), ie_digest = manifest_digester\<rparr>"

definition sample_source :: plugin_source where
  "sample_source = \<lparr>so_repo = ''r'', so_plugin = ''p'', so_version = ''v1.0.0'', so_commit = []\<rparr>"

lemma one_release_laws: "wf_tree clone \<Longrightarrow> git_laws (one_release_git clone)"
  by (auto simp: git_laws_def one_release_git_def)

text \<open>What the steps of a fetch of it give.\<close>

lemma valid_sample: "validate_source sample_source = None" by code_simp

lemma materialise_sample:
  "materialise (one_release_git clone) ''work'' sample_source [] = (clone, None)"
  by (simp add: materialise_def and_git_def run_git_def one_release_git_def sample_source_def)

lemma head_sample: "run_git (one_release_git clone) [''rev-parse'', ''HEAD''] w = (w, ''c0ffee'', True)"
  and kind_sample: "run_git (one_release_git clone) [''for-each-ref'', x, y] w = (w, ''commit'', True)"
proof -
  have "trim_space ''c0ffee'' = ''c0ffee''" "trim_space ''commit'' = ''commit''" by code_simp+
  then show "run_git (one_release_git clone) [''rev-parse'', ''HEAD''] w = (w, ''c0ffee'', True)"
    "run_git (one_release_git clone) [''for-each-ref'', x, y] w = (w, ''commit'', True)"
    by (simp_all add: run_git_def one_release_git_def)
qed

lemma tagged_sample: "tagged (sample_env clone) sample_source dir w = (w, Inr None)"
  using kind_sample by (simp add: tagged_def tag_signature_def sample_source_def sample_env_def)

lemma checked_sample:
  assumes "node_at clone [''p''] = Some Dir" and "check_manifest healthy_disk clone [''p''] sample_source = Inr ''v1.0.0''"
  shows "checked_clone (sample_env clone) sample_source = Inr (clone, ''c0ffee'', ''v1.0.0'', None)"
proof -
  have "plugin_dir (so_plugin sample_source) = [''p'']" by code_simp
  moreover have "ie_git (sample_env clone) = one_release_git clone" "ie_work (sample_env clone) = ''work''" "ie_temp (sample_env clone)"
    "ie_disk (sample_env clone) = healthy_disk" by (simp_all add: sample_env_def)
  ultimately show ?thesis
    using assms by (simp add: checked_clone_def valid_sample materialise_sample head_sample tagged_sample)
qed

definition placed_release :: "string list \<Rightarrow> tree" where
  "placed_release later =
     [([''out''], Dir), ([''out'', ''plugin.yaml''], File (join_with [nl] [''name: p'', ''version: 1.0.0'']))] @
     map (\<lambda>v. ([''out'', ''plugin.yaml.src''], File (join_with [nl] [''name: p'', ''version: '' @ v]))) later @
     [([''out'', ''src''], Dir), ([''out'', ''src'', ''a.go.src''], File ''go'')]"

definition landed_release :: "string \<Rightarrow> tree" where
  "landed_release v =
     [([''out''], Dir), ([''out'', ''plugin.yaml''], File (join_with [nl] [''name: p'', ''version: '' @ v])),
      ([''out'', ''src''], Dir), ([''out'', ''src'', ''a.go''], File ''go'')]"

lemma place_samples:
  "place_tree healthy_disk (release_clone []) [''p''] healthy_disk [''out''] [] = (placed_release [], None)"
  "place_tree healthy_disk (release_clone [''9.9.9'']) [''p''] healthy_disk [''out''] [] = (placed_release [''9.9.9''], None)"
  by code_simp+

lemma prune_samples:
  "prune_below [''out''] (placed_release []) = (placed_release [], True)"
  "prune_below [''out''] (placed_release [''9.9.9'']) = (placed_release [''9.9.9''], True)"
  by code_simp+

lemma strip_samples:
  "strip_src_suffix healthy_disk [''out''] (placed_release []) = (landed_release ''1.0.0'', None)"
  "strip_src_suffix healthy_disk [''out''] (placed_release [''9.9.9'']) = (landed_release ''9.9.9'', None)"
  by code_simp+

lemma author_samples: "\<not> is_author_tree healthy_disk (release_clone []) [''p'']"
  "\<not> is_author_tree healthy_disk (release_clone [''9.9.9'']) [''p'']"
  by code_simp+

definition manifest_of :: "string \<Rightarrow> string" where
  "manifest_of v = join_with [nl] [''name: p'', ''version: '' @ v]"

lemma digest_samples:
  "dg_of manifest_digester (placed_release []) [''out''] = Some (manifest_of ''1.0.0'')"
  "dg_of manifest_digester (placed_release [''9.9.9'']) [''out''] = Some (manifest_of ''1.0.0'')"
  "dg_of manifest_digester (landed_release v) [''out''] = Some (manifest_of v)"
  by (simp_all add: manifest_digester_def content_def file_at_def node_at_def placed_release_def landed_release_def manifest_of_def)

lemma unpack_sample:
  assumes "prune_below [''out''] t = (t, True)" and "strip_src_suffix healthy_disk [''out''] t = (landed_release v, None)"
    and "dg_of manifest_digester t [''out''] = Some dg"
  shows "unpack_at manifest_digester healthy_disk [''out''] (t, None) = (landed_release v, Inr (dg, manifest_of v, []))"
proof -
  have "(case read_file healthy_disk (landed_release v) ([''out''] @ [signature_file]) of Bytes b \<Rightarrow> b | _ \<Rightarrow> []) = []"
    by (simp add: read_file_def node_at_def landed_release_def signature_file_def)
  moreover have "dg_prune manifest_digester = prune_below" by (simp add: manifest_digester_def)
  ultimately show ?thesis using assms by (simp add: unpack_at_def unpack_digests_def digest_samples)
qed

definition fetched_sample :: "string \<Rightarrow> fetched" where
  "fetched_sample landed = \<lparr>fd_repo = ''r'', fd_ref = ''p/v1.0.0'', fd_version = ''v1.0.0'', fd_sha = ''c0ffee'', fd_digest = manifest_of landed,
     fd_published = manifest_of ''1.0.0'', fd_signature = []\<rparr>"

lemma fetch_sample:
  assumes c: "node_at clone [''p''] = Some Dir" "check_manifest healthy_disk clone [''p''] sample_source = Inr ''v1.0.0''"
    and a: "\<not> is_author_tree healthy_disk clone [''p'']"
    and p: "place_tree healthy_disk clone [''p''] healthy_disk [''out''] [] = (t, None)"
    and u: "unpack_at manifest_digester healthy_disk [''out''] (t, None) = (landed_release v, Inr (manifest_of ''1.0.0'', manifest_of v, []))"
  shows "fetch (sample_env clone) sample_source healthy_disk [''out''] [] = (landed_release v, Inr (fetched_sample v))"
proof -
  have "plugin_dir (so_plugin sample_source) = [''p'']" "so_repo sample_source = ''r''" "source_ref sample_source = ''p/v1.0.0''" by code_simp+
  moreover have "ie_disk (sample_env clone) = healthy_disk" "ie_digest (sample_env clone) = manifest_digester" by (simp_all add: sample_env_def)
  ultimately show ?thesis
    using a p u by (simp add: fetch_def checked_sample [OF c] rendered_tree_def fetched_sample_def)
qed

lemma clone_samples:
  "node_at (release_clone later) [''p''] = Some Dir" "check_manifest healthy_disk (release_clone []) [''p''] sample_source = Inr ''v1.0.0''"
  "check_manifest healthy_disk (release_clone [''9.9.9'']) [''p''] sample_source = Inr ''v1.0.0''"
  "wf_tree (release_clone [])" "wf_tree []"
  by (simp add: node_at_def release_clone_def) code_simp+

lemma fetch_samples:
  "fetch (sample_env (release_clone [])) sample_source healthy_disk [''out''] [] = (landed_release ''1.0.0'', Inr (fetched_sample ''1.0.0''))"
  "fetch (sample_env (release_clone [''9.9.9''])) sample_source healthy_disk [''out''] [] =
     (landed_release ''9.9.9'', Inr (fetched_sample ''9.9.9''))"
  by (rule fetch_sample [OF clone_samples(1,2) author_samples(1) place_samples(1)
        unpack_sample [OF prune_samples(1) strip_samples(1) digest_samples(1)]],
      rule fetch_sample [OF clone_samples(1,3) author_samples(2) place_samples(2)
        unpack_sample [OF prune_samples(2) strip_samples(2) digest_samples(2)]])

theorem a_fetched_plugin_is_the_one_asked_for_witness:
  "fd_version (fetched_sample ''1.0.0'') = ''v1.0.0'' \<and>
   dg_of manifest_digester (landed_release ''1.0.0'') [''out''] = Some (fd_digest (fetched_sample ''1.0.0'')) \<and>
   content (landed_release ''1.0.0'') [''out''] [''src'', ''a.go''] = Some ''go''"
proof -
  have "content (landed_release ''1.0.0'') [''out''] [''src'', ''a.go''] = Some ''go''" by code_simp
  moreover have "digester_laws (ie_digest (sample_env (release_clone [])))" "git_laws (ie_git (sample_env (release_clone [])))"
    "so_commit sample_source = []" "so_version sample_source = ''v1.0.0''" "ie_digest (sample_env (release_clone [])) = manifest_digester"
    using manifest_digester_laws one_release_laws [OF clone_samples(4)] by (simp_all add: sample_env_def sample_source_def)
  ultimately show ?thesis
    using a_fetched_plugin_is_the_one_asked_for [OF _ _ clone_samples(5) _ fetch_samples(1)] by simp
qed

text \<open>A release whose tree carries a \<^verbatim>\<open>plugin.yaml.src\<close> passes the check of its manifest and lands with
  another one: what is recorded is the version of the tag, what lands declares a different one.\<close>

theorem a_suffixed_manifest_replaces_the_checked_one:
  "\<exists>t' got. fetch (sample_env (release_clone [''9.9.9''])) sample_source healthy_disk [''out''] [] = (t', Inr got) \<and>
     fd_version got = ''v1.0.0'' \<and> manifest_version healthy_disk t' [''out''] = Inr ''v9.9.9''"
proof -
  have "manifest_version healthy_disk (landed_release ''9.9.9'') [''out''] = Inr ''v9.9.9''" by code_simp
  then show ?thesis using fetch_samples(2) by (simp add: fetched_sample_def)
qed

text \<open>An author's directory, its release, and both installed.\<close>

definition authored :: tree where
  "authored =
     [([''p''], Dir), ([''p'', ''plugin.yaml''], File (manifest_of ''1.0.0'')), ([''p'', ''src''], Dir), ([''p'', ''src'', ''a.go''], File ''go'')]"

definition authored_render :: tree where
  "authored_render =
     [([''published''], Dir), ([''published'', ''plugin.yaml''], File (manifest_of ''1.0.0'')), ([''published'', ''src''], Dir),
      ([''published'', ''src'', ''a.go.src''], File ''go'')]"

lemma authored_rendered:
  "render_plugin (\<lambda>_. None) healthy_disk authored [''p''] healthy_disk [''published''] [] =
     ((authored_render, \<lparr>rs_plugins = 1, rs_files = 2, rs_go = 1, rs_tests = 0\<rparr>), None)"
  by code_simp

lemma install_samples:
  "is_author_tree healthy_disk authored [''p'']" "\<not> is_author_tree healthy_disk authored_render [''published'']"
  "place_tree healthy_disk authored_render [''published''] healthy_disk [''out''] [] = (placed_release [], None)"
  "copy_tree healthy_disk authored_render [''published''] healthy_disk [''published''] [] = (authored_render, None)"
  "manifest_version healthy_disk (landed_release ''1.0.0'') [''out''] = Inr ''v1.0.0''"
  "exists_at authored ([''p''] @ [''plugin.yaml''])" "exists_at authored_render ([''published''] @ [''plugin.yaml''])"
  by code_simp+

definition installed_sample :: fetched where
  "installed_sample = \<lparr>fd_repo = [], fd_ref = [], fd_version = ''v1.0.0'', fd_sha = [], fd_digest = manifest_of ''1.0.0'',
     fd_published = manifest_of ''1.0.0'', fd_signature = []\<rparr>"

lemma from_dir_sample:
  assumes "local_tree (sample_env c) healthy_disk s src = Inr authored_render"
  shows "from_dir (sample_env c) healthy_disk s src healthy_disk [''out''] [] = (landed_release ''1.0.0'', Inr installed_sample)"
proof -
  have "ie_disk (sample_env c) = healthy_disk" "ie_digest (sample_env c) = manifest_digester" by (simp_all add: sample_env_def)
  with assms install_samples(3,5) unpack_sample [OF prune_samples(1) strip_samples(1) digest_samples(1)] show ?thesis
    by (simp add: from_dir_def installed_sample_def)
qed

lemma local_samples:
  "local_tree (sample_env c) healthy_disk authored [''p''] = Inr authored_render"
  "local_tree (sample_env c) healthy_disk authored_render [''published''] = Inr authored_render"
proof -
  have "ie_disk (sample_env c) = healthy_disk" "ie_temp (sample_env c)" "ie_yaml (sample_env c) = (\<lambda>_. None)" by (simp_all add: sample_env_def)
  with install_samples(1,2,4,6,7) authored_rendered show
    "local_tree (sample_env c) healthy_disk authored [''p''] = Inr authored_render"
    "local_tree (sample_env c) healthy_disk authored_render [''published''] = Inr authored_render"
    by (simp_all add: local_tree_def)
qed

theorem installing_a_tree_or_its_release_is_the_same_witness:
  "from_dir (sample_env []) healthy_disk authored [''p''] healthy_disk [''out''] [] = (landed_release ''1.0.0'', Inr installed_sample) \<and>
   content (landed_release ''1.0.0'') [''out''] [''src'', ''a.go''] = Some ''go'' \<and>
   content (fst (from_dir (sample_env []) healthy_disk authored_render [''published''] healthy_disk [''out''] [])) [''out''] =
     content (landed_release ''1.0.0'') [''out''] \<and>
   snd (from_dir (sample_env []) healthy_disk authored_render [''published''] healthy_disk [''out''] []) = Inr installed_sample"
proof -
  have w: "wf_tree authored" "wf_tree authored_render" "content (landed_release ''1.0.0'') [''out''] [''src'', ''a.go''] = Some ''go''"
    by code_simp+
  have pp: "plain_protos authored [''p'']"
  proof -
    have listed: "content t base p \<noteq> None \<Longrightarrow> base @ p \<in> set (keys_of t)" for t base p
      using map_of_in_keys [of t "base @ p"] by (auto simp: content_def file_at_def node_at_def split: option.splits if_splits)
    have "list_all (\<lambda>p. plain_proto (drop 1 p)) (keys_of authored)" by code_simp
    then show ?thesis using listed [of authored "[''p'']"] by (fastforce simp: plain_protos_def list_all_iff)
  qed
  have E: "digester_laws (ie_digest (sample_env []))" "ie_yaml (sample_env []) = (\<lambda>_. None)" "ie_disk (sample_env []) = healthy_disk"
    "unreadable healthy_disk = (\<lambda>_ _. False)" using manifest_digester_laws by (simp_all add: sample_env_def healthy_disk_def)
  note i = from_dir_sample [OF local_samples(1)]
  obtain u' got' where j: "from_dir (sample_env []) healthy_disk authored_render [''published''] healthy_disk [''out''] [] = (u', Inr got')"
    using from_dir_sample [OF local_samples(2)] by blast
  have r: "render_plugin (ie_yaml (sample_env [])) healthy_disk authored [''p''] (ie_disk (sample_env [])) [''published''] [] =
     ((authored_render, \<lparr>rs_plugins = 1, rs_files = 2, rs_go = 1, rs_tests = 0\<rparr>), None)"
    unfolding E(2,3) by (rule authored_rendered)
  have "content (landed_release ''1.0.0'') [''out''] = content u' [''out''] \<and> installed_sample = got'"
    by (rule installing_a_tree_or_its_release_is_the_same
        [OF E(1) w(1,2) clone_samples(5,5) _ _ E(4) install_samples(1) pp r refl i j]) simp_all
  with i j w(3) show ?thesis by simp
qed

end
