(* ===== verification/Spec2Isabelle.thy ===== *)
theory Spec2Isabelle
  imports Versions Ports Plan Reconcile Decisions Remotes AuthStore Tunnel Credentials StackSwitch
    Gofmt RunOnDisk SdkUpdate DevFeatures DeviceKeys PluginTree PluginFetch
begin

text \<open>
  A model of \<^verbatim>\<open>w17ctl\<close>, the client of the w17 compiler: the parts of it that decide something on the
  developer's machine, translated function by function from the Go under \<^verbatim>\<open>src/\<close>.

  \<^bold>\<open>The program.\<close> A project is a checkout with a \<^verbatim>\<open>w17/lock.yaml\<close>. The client registers it on the
  machine and gives it host ports, sends its protos to the console and writes what the compiler
  renders, runs its stack in Docker (locally or over ssh), and keeps the data of a branch while the
  developer works on another. The compiler, the console, git, Docker, ssh and the databases are outside
  the repository: wherever the code asks them something, their answer is an argument of the model.

  \<^bold>\<open>Theories and sources.\<close>
  \<^item> \<^verbatim>\<open>Prelude\<close>: Go strings, \<^verbatim>\<open>strconv\<close>, maps as association lists, sorting by a comparison (the locale
    \<^verbatim>\<open>comparison\<close>). \<^verbatim>\<open>Paths\<close>: \<^verbatim>\<open>path/filepath\<close>. \<^verbatim>\<open>Traced\<close>: an operation as the list of its effects
    and its result. \<^verbatim>\<open>ProjectTree\<close>: the files below a project's root and the calls of \<^verbatim>\<open>os\<close> on them.
  \<^item> \<^verbatim>\<open>Versions\<close> (\<^verbatim>\<open>internal/pluginfetch/version.go\<close>): the order of release versions, which tag a commit is.
  \<^item> \<^verbatim>\<open>Registry\<close>, \<^verbatim>\<open>DevConfig\<close>, \<^verbatim>\<open>Ports\<close> (\<^verbatim>\<open>internal/devconfig\<close>): the registry of projects, the
    resolution of a directory to a project, the allocation of ports.
  \<^item> \<^verbatim>\<open>Plan\<close> (\<^verbatim>\<open>internal/plan\<close>): a sync of the development databases, with the withholding of what
    would lose data. \<^verbatim>\<open>Reconcile\<close> (\<^verbatim>\<open>internal/reconcile\<close>): the switch between branches.
    \<^verbatim>\<open>Dumpcheck\<close>, \<^verbatim>\<open>Snapstore\<close> (\<^verbatim>\<open>internal/snapstore\<close>): the snapshots of the stores.
    \<^verbatim>\<open>StackSwitch\<close> (\<^verbatim>\<open>cmd/stack\<close>): the three put together as a stack build does.
  \<^item> \<^verbatim>\<open>Decisions\<close> (\<^verbatim>\<open>internal/migdecisions\<close>): the agreed answers to migration questions.
  \<^item> \<^verbatim>\<open>Remotes\<close> (\<^verbatim>\<open>internal/remote\<close>), \<^verbatim>\<open>Tunnel\<close> (\<^verbatim>\<open>internal/tunnel\<close>): where a stack runs and the ssh
    child that forwards its ports.
  \<^item> \<^verbatim>\<open>AuthStore\<close>, \<^verbatim>\<open>Credentials\<close> (\<^verbatim>\<open>internal/authstore\<close>, \<^verbatim>\<open>internal/core\<close>): the stored sessions, the
    token of a call and the organization it acts in.
    \<^verbatim>\<open>DeviceKeys\<close> (\<^verbatim>\<open>internal/core/devicekey.go\<close>): the file of the device key as a step relation of
    processes that sign in and discard keys at the same time.
  \<^item> \<^verbatim>\<open>Placement\<close>, \<^verbatim>\<open>ClusterRun\<close> (\<^verbatim>\<open>internal/codegen/cluster.go\<close>): how a generation gets a worker, is tried
    again, and what of the worker's answer is signed and kept.
  \<^item> \<^verbatim>\<open>Banners\<close>, \<^verbatim>\<open>GoMod\<close>, \<^verbatim>\<open>SdkPins\<close>, \<^verbatim>\<open>Codegen\<close> (\<^verbatim>\<open>internal/codegen\<close>): which files a generation may
    write or delete, what it keeps of a \<^verbatim>\<open>go.mod\<close>, the pins and the workspace. \<^verbatim>\<open>Gofmt\<close>
    (\<^verbatim>\<open>internal/gofmtc\<close>): what is formatted and what is left out. \<^verbatim>\<open>AdminRuntime\<close>
    (\<^verbatim>\<open>internal/adminruntime\<close>): the vendored runtime. \<^verbatim>\<open>Landing\<close>, \<^verbatim>\<open>Closing\<close>, \<^verbatim>\<open>RunOnDisk\<close>: the
    steps of \<^verbatim>\<open>Run\<close> put together, from the first write to the end; the locale \<^verbatim>\<open>tree_stage\<close> is their contract,
    and every step is an interpretation of it. \<^verbatim>\<open>Closing\<close> is what comes after the pins: the reference streamed
    from the console, the schema of the fixtures (\<^verbatim>\<open>internal/fixtureschema\<close>) and the ignore file
    (\<^verbatim>\<open>internal/scaffold/gitignore.go\<close>).
  \<^item> \<^verbatim>\<open>Words\<close>, \<^verbatim>\<open>SdkUpdate\<close> (\<^verbatim>\<open>internal/sdkupdate\<close>): an update of the SDK in the modules of a project, with the
    \<^verbatim>\<open>go mod tidy\<close> that closes it.
  \<^item> \<^verbatim>\<open>PluginTree\<close> (\<^verbatim>\<open>internal/pluginrender\<close>, and the unpacking in \<^verbatim>\<open>internal/pluginfetch\<close>): the three
    shapes of a plugin's tree; the locale \<^verbatim>\<open>copying\<close> is what its walks share. \<^verbatim>\<open>PluginFetch\<close>
    (\<^verbatim>\<open>internal/pluginfetch/pluginfetch.go\<close>): the install of a release or of a directory.
    \<^verbatim>\<open>DevFeatures\<close> (\<^verbatim>\<open>cmd/plugin/dev.go\<close>): the features a development run of a plugin activates.

  \<^bold>\<open>What the lemmas show.\<close>
  \<^item> Safety of the developer's data: nothing is lost by a sync that was not allowed (\<^verbatim>\<open>Plan\<close>), a switch
    dumps before it overwrites and gives the data back (\<^verbatim>\<open>Reconcile\<close>, \<^verbatim>\<open>StackSwitch\<close>), a snapshot is whole
    or as it was (\<^verbatim>\<open>Snapstore\<close>), an edited file that only the record can tell is not overwritten (\<^verbatim>\<open>Codegen\<close>),
    a run, an update and an install change only what is theirs (\<^verbatim>\<open>RunOnDisk\<close>, \<^verbatim>\<open>SdkUpdate\<close>, \<^verbatim>\<open>PluginFetch\<close>), and an
    ssh child nothing can stop is one whose own \<^verbatim>\<open>stack up\<close> failed (\<^verbatim>\<open>Tunnel\<close>). Where a promise has a limit, the
    limit is in the statement: what a developer chose, asked to skip or forced.
  \<^item> Safety of credentials: a token goes to its console only, bound to its key (\<^verbatim>\<open>Credentials\<close>), and
    processes that sign in together end with one key (\<^verbatim>\<open>DeviceKeys\<close>).
  \<^item> Refinement and round trips: versions are compared as keys of a linear order (\<^verbatim>\<open>Versions\<close>), a
    render computes a map from relative paths to bytes and its unpacking is the inverse (\<^verbatim>\<open>PluginTree\<close>).
  \<^item> Termination: the allocator of ports ends exactly when ports are left (\<^verbatim>\<open>Ports\<close>; the model follows its
    counter through the 64-bit range and says \<^const>\<open>None\<close> where it would leave it), a placement ends
    whatever the console answers (\<^verbatim>\<open>Placement\<close>: a turn uses up one of the attempts, which the code bounds;
    a poll uses up the time of the queue), a process signing in makes at most 13 steps (\<^verbatim>\<open>DeviceKeys\<close>).
  \<^item> Where the code does not keep a promise of its comments, a theorem gives the inputs that show it.

  \<^bold>\<open>How the code is represented.\<close> A struct is a record, an enumeration a datatype, a map an association
  list with distinct keys (its order is one iteration order), a fallible call returns a sum or an
  option, a call with effects returns the changed state or the list of its effects. Strings are lists
  of bytes. A Go \<^verbatim>\<open>int\<close> is an \<^typ>\<open>int\<close>, with its range where the code converts to it. Loops are
  structural or have a proof that they end; a loop that may not end is a function with fuel and a
  theorem that says when it returns.

  \<^bold>\<open>What is assumed.\<close> Only the documented behaviour of what is outside the repository, as predicates
  that a theorem names: \<^verbatim>\<open>mod_laws\<close> and \<^verbatim>\<open>work_laws\<close> (\<^verbatim>\<open>golang.org/x/mod\<close>), \<^verbatim>\<open>guard_laws\<close>
  (the SDK's \<^verbatim>\<open>pathguard\<close>), \<^verbatim>\<open>json_laws\<close>, \<^verbatim>\<open>shipment_laws\<close> (the embedded runtime), \<^verbatim>\<open>minter_laws\<close> (the
  SDK's certificates), \<^verbatim>\<open>digester_laws\<close> (the SDK's digest of a plugin), \<^verbatim>\<open>git_laws\<close>, \<^verbatim>\<open>tidy_laws\<close>
  (\<^verbatim>\<open>go mod tidy\<close> writes the two files of its module), and that
  semantic versions are compared by a \<^verbatim>\<open>comparison\<close>.
  Each has a concrete instance in the theory that uses it.

  \<^bold>\<open>Not modelled.\<close> Printing and prompting; the gRPC transport, TLS and the generated clients; the
  processes that are started (git, docker, ssh, rsync, psql), beyond the arguments and answers the
  decisions use; symbolic links, permissions and file times; other users of the same files, except
  where the code takes a lock or races for a file (\<^verbatim>\<open>Snapstore\<close>, \<^verbatim>\<open>Tunnel\<close>, \<^verbatim>\<open>DeviceKeys\<close>); Windows
  paths; the deployment, secrets and test commands, which assemble the arguments of other programs. Commands that only call the
  console and print its answer have no model.
\<close>

end
